(* ===== verification/Prelude.thy ===== *)
theory Prelude
  imports Main "HOL-Library.Word" "HOL-Library.Sublist"
begin

text \<open>
  What every component shares: the machine-integer types, the \<open>?\<close> operator of Rust on
  results, and Rust's \<open>str\<close>/\<open>String\<close> operations that the components call. A Rust string
  is modelled by its UTF-8 bytes, one \<open>char\<close> (8 bits in HOL) per byte, which is what
  \<open>len\<close>, slicing and byte spans count; a \<open>Vec<u8>\<close> that is not known to be text is a
  list of \<open>8 word\<close>.
\<close>

unbundle bit_operations_syntax

named_theorems reader_rules "how far a reader moves the cursor, for every value shape"
named_theorems str_simps "evaluation rules of the string operations"

type_synonym u8 = "8 word"
type_synonym u16 = "16 word"
type_synonym u32 = "32 word"
type_synonym u64 = "64 word"


section \<open>Results and the \<open>?\<close> operator\<close>

definition bind_res :: "'e + 'a \<Rightarrow> ('a \<Rightarrow> 'e + 'b) \<Rightarrow> 'e + 'b" where
  "bind_res m f = (case m of Inl e \<Rightarrow> Inl e | Inr x \<Rightarrow> f x)"

definition map_err :: "('e \<Rightarrow> 'f) \<Rightarrow> 'e + 'a \<Rightarrow> 'f + 'a" where
  "map_err g m = (case m of Inl e \<Rightarrow> Inl (g e) | Inr x \<Rightarrow> Inr x)"

definition map_res :: "('a \<Rightarrow> 'b) \<Rightarrow> 'e + 'a \<Rightarrow> 'e + 'b" where
  "map_res g m = (case m of Inl e \<Rightarrow> Inl e | Inr x \<Rightarrow> Inr (g x))"

lemma map_res_simps [simp]:
  "map_res g (Inl e) = Inl e"
  "map_res g (Inr x) = Inr (g x)"
  by (simp_all add: map_res_def)

lemma bind_res_simps [simp]:
  "bind_res (Inl e) f = Inl e"
  "bind_res (Inr x) f = f x"
  by (simp_all add: bind_res_def)

lemma map_err_simps [simp]:
  "map_err g (Inl e) = Inl (g e)"
  "map_err g (Inr x) = Inr x"
  by (simp_all add: map_err_def)

lemma bind_res_cong [fundef_cong]:
  "m = m' \<Longrightarrow> (\<And>x. m' = Inr x \<Longrightarrow> f x = g x) \<Longrightarrow> bind_res m f = bind_res m' g"
  by (cases m') auto

lemma bind_res_eq_Inr: "bind_res m f = Inr y \<longleftrightarrow> (\<exists>x. m = Inr x \<and> f x = Inr y)"
  by (cases m) auto

lemma bind_res_eq_Inl:
  "bind_res m f = Inl e \<longleftrightarrow> m = Inl e \<or> (\<exists>x. m = Inr x \<and> f x = Inl e)"
  by (cases m) auto

lemma map_err_eq_Inr [simp]: "map_err g m = Inr x \<longleftrightarrow> m = Inr x"
  by (cases m) auto

lemma map_err_eq_Inl: "map_err g m = Inl e \<longleftrightarrow> (\<exists>e'. m = Inl e' \<and> e = g e')"
  by (cases m) auto

text \<open>The error of a result, for the evaluation of a call that fails.\<close>

definition err_of :: "'e + 'a \<Rightarrow> 'e option" where
  "err_of m = (case m of Inl e \<Rightarrow> Some e | Inr _ \<Rightarrow> None)"

lemma err_of_Some: "err_of m = Some e \<longleftrightarrow> m = Inl e"
  by (cases m) (auto simp: err_of_def)

lemma bind_res_assoc: "bind_res (bind_res m f) g = bind_res m (\<lambda>x. bind_res (f x) g)"
  by (cases m) auto


section \<open>Slices\<close>

text \<open>\<open>slice.get(i)\<close>: an index out of range is \<open>None\<close>.\<close>

definition nth_opt :: "'a list \<Rightarrow> nat \<Rightarrow> 'a option" where
  "nth_opt xs i = (if i < length xs then Some (xs ! i) else None)"

lemma nth_opt_simps [simp]:
  "nth_opt [] i = None"
  "nth_opt (x # xs) 0 = Some x"
  "nth_opt (x # xs) (Suc i) = nth_opt xs i"
  by (simp_all add: nth_opt_def)

lemma nth_opt_Some: "nth_opt xs i = Some x \<longleftrightarrow> i < length xs \<and> xs ! i = x"
  by (auto simp: nth_opt_def)

lemma nth_opt_None: "nth_opt xs i = None \<longleftrightarrow> length xs \<le> i"
  by (auto simp: nth_opt_def)

text \<open>\<open>iter().position(p)\<close>: the index of the first element that satisfies \<open>p\<close>.\<close>

fun position :: "('a \<Rightarrow> bool) \<Rightarrow> 'a list \<Rightarrow> nat option" where
  "position p [] = None"
| "position p (x # xs) = (if p x then Some 0 else map_option Suc (position p xs))"

lemma position_Some:
  "position p xs = Some i \<longleftrightarrow> i < length xs \<and> p (xs ! i) \<and> (\<forall>j < i. \<not> p (xs ! j))"
proof (induction xs arbitrary: i)
  case Nil
  then show ?case by simp
next
  case (Cons x xs)
  show ?case
    by (cases i) (auto simp: Cons.IH less_Suc_eq_0_disj)
qed

lemma position_None: "position p xs = None \<longleftrightarrow> (\<forall>x \<in> set xs. \<not> p x)"
  by (induction xs) auto

lemma position_append:
  "\<forall>x \<in> set xs. \<not> p x \<Longrightarrow> p y \<Longrightarrow> position p (xs @ y # ys) = Some (length xs)"
  by (induction xs) auto

end
