(* ===== verification/RustStr.thy ===== *)
theory RustStr
  imports Prelude "HOL-Library.Char_ord"
begin

text \<open>
  Rust's \<open>str\<close> and \<open>String\<close> operations that the components call, on the UTF-8 bytes of
  the string: the ASCII classes and case mapping, \<open>trim\<close> with Unicode white space,
  prefixes, suffixes and splitting, the lossy decoders \<open>String::from_utf8_lossy\<close> and
  \<open>String::from_utf16_lossy\<close>, and the number formatting and parsing of \<open>to_string\<close>,
  \<open>format!\<close> and \<open>str::parse\<close>. These are the standard library's documented behaviour.
\<close>

unbundle bit_operations_syntax

section \<open>Bytes and characters\<close>

definition byte_of_char :: "char \<Rightarrow> u8" where
  "byte_of_char c = word_of_nat (of_char c)"

definition char_of_byte :: "u8 \<Rightarrow> char" where
  "char_of_byte b = char_of (unat b)"

definition as_bytes :: "string \<Rightarrow> u8 list" where
  "as_bytes s = map byte_of_char s"

definition of_bytes :: "u8 list \<Rightarrow> string" where
  "of_bytes bs = map char_of_byte bs"

lemma bit_Suc_0_0 [str_simps]: "bit (Suc 0) 0"
  by (simp add: bit_0)

lemmas [str_simps] = char_of_def

lemma of_char_less_256 [simp]: "of_char c < (256 :: nat)"
  using range_nat_of_char by auto

lemma char_of_byte_of_char [simp]: "char_of_byte (byte_of_char c) = c"
  by (simp add: char_of_byte_def byte_of_char_def unat_of_nat)

lemma byte_of_char_of_byte [simp]: "byte_of_char (char_of_byte b) = b"
proof -
  have "unat b < 256" using unsigned_less [of b] by simp
  then show ?thesis by (simp add: char_of_byte_def byte_of_char_def)
qed

lemma of_bytes_as_bytes [simp]: "of_bytes (as_bytes s) = s"
  by (simp add: of_bytes_def as_bytes_def comp_def)

lemma as_bytes_of_bytes [simp]: "as_bytes (of_bytes bs) = bs"
  by (simp add: of_bytes_def as_bytes_def comp_def)

lemma length_as_bytes [simp]: "length (as_bytes s) = length s"
  by (simp add: as_bytes_def)

lemma length_of_bytes [simp]: "length (of_bytes s) = length s"
  by (simp add: of_bytes_def)

lemma as_bytes_append [simp]: "as_bytes (s @ t) = as_bytes s @ as_bytes t"
  by (simp add: as_bytes_def)

lemma of_bytes_append [simp]: "of_bytes (s @ t) = of_bytes s @ of_bytes t"
  by (simp add: of_bytes_def)

lemma as_bytes_simps [simp]:
  "as_bytes [] = []"
  "as_bytes (c # s) = byte_of_char c # as_bytes s"
  by (simp_all add: as_bytes_def)

lemma of_bytes_simps [simp]:
  "of_bytes [] = []"
  "of_bytes (b # bs) = char_of_byte b # of_bytes bs"
  by (simp_all add: of_bytes_def)

section \<open>ASCII classes\<close>

definition ord :: "char \<Rightarrow> nat" where
  "ord c = of_char c"

definition is_ascii_digit :: "char \<Rightarrow> bool" where
  "is_ascii_digit c \<longleftrightarrow> 48 \<le> ord c \<and> ord c \<le> 57"

definition is_ascii_upper :: "char \<Rightarrow> bool" where
  "is_ascii_upper c \<longleftrightarrow> 65 \<le> ord c \<and> ord c \<le> 90"

definition is_ascii_lower :: "char \<Rightarrow> bool" where
  "is_ascii_lower c \<longleftrightarrow> 97 \<le> ord c \<and> ord c \<le> 122"

definition is_ascii_alphabetic :: "char \<Rightarrow> bool" where
  "is_ascii_alphabetic c \<longleftrightarrow> is_ascii_upper c \<or> is_ascii_lower c"

definition is_ascii_hexdigit :: "char \<Rightarrow> bool" where
  "is_ascii_hexdigit c \<longleftrightarrow> is_ascii_digit c \<or> (65 \<le> ord c \<and> ord c \<le> 70) \<or> (97 \<le> ord c \<and> ord c \<le> 102)"

text \<open>\<open>u8::is_ascii_whitespace\<close>: space, tab, line feed, form feed, carriage return.\<close>

definition is_ascii_whitespace :: "char \<Rightarrow> bool" where
  "is_ascii_whitespace c \<longleftrightarrow> ord c \<in> {9, 10, 12, 13, 32}"

definition ascii_lower_char :: "char \<Rightarrow> char" where
  "ascii_lower_char c = (if is_ascii_upper c then char_of (ord c + 32) else c)"

definition to_ascii_lowercase :: "string \<Rightarrow> string" where
  "to_ascii_lowercase s = map ascii_lower_char s"

definition eq_ignore_ascii_case :: "string \<Rightarrow> string \<Rightarrow> bool" where
  "eq_ignore_ascii_case s t \<longleftrightarrow> to_ascii_lowercase s = to_ascii_lowercase t"

lemma ord_less_256 [simp]: "ord c < 256"
  by (simp add: ord_def)

lemma ord_inject: "ord c = ord d \<longleftrightarrow> c = d"
  by (simp add: ord_def)

lemma ord_ascii_lower [simp]: "ord (ascii_lower_char c) = (if is_ascii_upper c then ord c + 32 else ord c)"
  by (auto simp: ascii_lower_char_def is_ascii_upper_def ord_def)

lemma ascii_lower_char_idem [simp]: "ascii_lower_char (ascii_lower_char c) = ascii_lower_char c"
  by (auto simp: ascii_lower_char_def is_ascii_upper_def ord_def)

lemma to_ascii_lowercase_idem [simp]:
  "to_ascii_lowercase (to_ascii_lowercase s) = to_ascii_lowercase s"
  by (simp add: to_ascii_lowercase_def comp_def)

lemma length_to_ascii_lowercase [simp]: "length (to_ascii_lowercase s) = length s"
  by (simp add: to_ascii_lowercase_def)

lemma to_ascii_lowercase_append [simp]:
  "to_ascii_lowercase (s @ t) = to_ascii_lowercase s @ to_ascii_lowercase t"
  by (simp add: to_ascii_lowercase_def)

lemmas ascii_defs = is_ascii_digit_def is_ascii_upper_def is_ascii_lower_def
  is_ascii_alphabetic_def is_ascii_hexdigit_def is_ascii_whitespace_def ascii_lower_char_def ord_def

section \<open>Prefixes, suffixes and splitting\<close>

definition strip_prefix :: "string \<Rightarrow> string \<Rightarrow> string option" where
  "strip_prefix p s = (if take (length p) s = p then Some (drop (length p) s) else None)"

definition strip_suffix :: "string \<Rightarrow> string \<Rightarrow> string option" where
  "strip_suffix q s =
     (if length q \<le> length s \<and> drop (length s - length q) s = q
      then Some (take (length s - length q) s) else None)"

definition starts_with :: "string \<Rightarrow> string \<Rightarrow> bool" where
  "starts_with p s \<longleftrightarrow> take (length p) s = p"

text \<open>\<open>s.contains(p)\<close>.\<close>

fun contains :: "string \<Rightarrow> string \<Rightarrow> bool" where
  "contains p [] = (p = [])"
| "contains p (c # s) = (starts_with p (c # s) \<or> contains p s)"

text \<open>\<open>s.split(c)\<close> on one ASCII character: never empty, one piece more than separators.\<close>

fun split_on :: "char \<Rightarrow> string \<Rightarrow> string list" where
  "split_on c [] = [[]]"
| "split_on c (x # xs) =
     (if x = c then [] # split_on c xs
      else (case split_on c xs of [] \<Rightarrow> [[x]] | p # ps \<Rightarrow> (x # p) # ps))"

text \<open>\<open>pieces.join(sep)\<close>.\<close>

fun join :: "string \<Rightarrow> string list \<Rightarrow> string" where
  "join sep [] = []"
| "join sep [p] = p"
| "join sep (p # q # ps) = p @ sep @ join sep (q # ps)"

lemma strip_prefix_Some: "strip_prefix p s = Some t \<longleftrightarrow> s = p @ t"
  by (auto simp: strip_prefix_def) (metis append_take_drop_id)

lemma strip_prefix_append [simp]: "strip_prefix p (p @ t) = Some t"
  by (simp add: strip_prefix_Some)

lemma strip_suffix_Some: "strip_suffix q s = Some t \<longleftrightarrow> s = t @ q"
  by (auto simp: strip_suffix_def) (metis append_take_drop_id)

lemma starts_with_iff: "starts_with p s \<longleftrightarrow> (\<exists>t. s = p @ t)"
  by (metis starts_with_def append_take_drop_id append_eq_conv_conj)

lemma split_on_neq_Nil [simp]: "split_on c s \<noteq> []"
  by (cases s) (auto split: list.splits)

lemma join_Cons: "ps \<noteq> [] \<Longrightarrow> join sep (p # ps) = p @ sep @ join sep ps"
  by (cases ps) auto

lemma join_hd_Cons: "join sep ((x # p) # ps) = x # join sep (p # ps)"
  by (cases ps) auto

lemma join_split_on: "join [c] (split_on c s) = s"
proof (induction s)
  case Nil
  then show ?case by simp
next
  case (Cons x xs)
  then show ?case
    by (cases "split_on c xs") (auto simp: join_Cons join_hd_Cons)
qed

lemma split_on_no_sep: "p \<in> set (split_on c s) \<Longrightarrow> c \<notin> set p"
  by (induction s arbitrary: p) (auto split: if_splits list.splits)

lemma split_on_single: "c \<notin> set s \<Longrightarrow> split_on c s = [s]"
  by (induction s) auto


section \<open>White space and \<open>trim\<close>\<close>

text \<open>
  The length in bytes of the Unicode White\_Space character a string starts with, 0 when it
  starts with none: U+0009 to U+000D, U+0020, U+0085, U+00A0, U+1680, U+2000 to U+200A,
  U+2028, U+2029, U+202F, U+205F and U+3000.
\<close>

definition ws1 :: "nat \<Rightarrow> bool" where
  "ws1 a \<longleftrightarrow> (9 \<le> a \<and> a \<le> 13) \<or> a = 32"

definition ws2 :: "nat \<Rightarrow> nat \<Rightarrow> bool" where
  "ws2 a b \<longleftrightarrow> a = 0xC2 \<and> (b = 0x85 \<or> b = 0xA0)"

definition ws3 :: "nat \<Rightarrow> nat \<Rightarrow> nat \<Rightarrow> bool" where
  "ws3 a b c \<longleftrightarrow>
     (a = 0xE1 \<and> b = 0x9A \<and> c = 0x80)
   \<or> (a = 0xE2 \<and> b = 0x80 \<and> ((0x80 \<le> c \<and> c \<le> 0x8A) \<or> c = 0xA8 \<or> c = 0xA9 \<or> c = 0xAF))
   \<or> (a = 0xE2 \<and> b = 0x81 \<and> c = 0x9F)
   \<or> (a = 0xE3 \<and> b = 0x80 \<and> c = 0x80)"

fun trim_start :: "string \<Rightarrow> string" where
  "trim_start [] = []"
| "trim_start (a # s) =
     (if ws1 (ord a) then trim_start s
      else case s of
        [] \<Rightarrow> a # s
      | b # s' \<Rightarrow>
          if ws2 (ord a) (ord b) then trim_start s'
          else (case s' of
                  [] \<Rightarrow> a # s
                | c # s'' \<Rightarrow> if ws3 (ord a) (ord b) (ord c) then trim_start s'' else a # s))"

text \<open>The same at the end, on the reversed bytes.\<close>

fun trim_start_rev :: "string \<Rightarrow> string" where
  "trim_start_rev [] = []"
| "trim_start_rev (a # s) =
     (if ws1 (ord a) then trim_start_rev s
      else case s of
        [] \<Rightarrow> a # s
      | b # s' \<Rightarrow>
          if ws2 (ord b) (ord a) then trim_start_rev s'
          else (case s' of
                  [] \<Rightarrow> a # s
                | c # s'' \<Rightarrow> if ws3 (ord c) (ord b) (ord a) then trim_start_rev s'' else a # s))"

definition trim_end :: "string \<Rightarrow> string" where
  "trim_end s = rev (trim_start_rev (rev s))"

definition trim :: "string \<Rightarrow> string" where
  "trim s = trim_end (trim_start s)"

text \<open>\<open>s.trim_matches(c)\<close> for one ASCII character.\<close>

definition trim_matches :: "char \<Rightarrow> string \<Rightarrow> string" where
  "trim_matches c s = rev (dropWhile (\<lambda>x. x = c) (rev (dropWhile (\<lambda>x. x = c) s)))"

lemma trim_start_id:
  "(\<And>a. s = a # tl s \<Longrightarrow> 33 \<le> ord a \<and> ord a < 128) \<Longrightarrow> trim_start s = s"
  by (cases s) (auto simp: ws1_def ws2_def ws3_def split: list.splits)

lemma trim_start_rev_id:
  "(\<And>a. s = a # tl s \<Longrightarrow> 33 \<le> ord a \<and> ord a < 128) \<Longrightarrow> trim_start_rev s = s"
  by (cases s) (auto simp: ws1_def ws2_def ws3_def split: list.splits)

text \<open>A string of printable ASCII characters without spaces is its own \<open>trim\<close>.\<close>

lemma trim_graphic:
  assumes "\<forall>a \<in> set s. 33 \<le> ord a \<and> ord a < 128"
  shows "trim s = s"
proof -
  have "trim_start s = s" using assms by (intro trim_start_id) (metis list.set_intros(1))
  moreover have "trim_start_rev (rev s) = rev s"
    using assms by (intro trim_start_rev_id) (metis list.set_intros(1) set_rev)
  ultimately show ?thesis by (simp add: trim_def trim_end_def)
qed

lemma trim_Nil [simp]: "trim [] = []"
  by (simp add: trim_def trim_end_def)


section \<open>Numbers\<close>

definition digit_char :: "nat \<Rightarrow> char" where
  "digit_char n = char_of (48 + n)"

fun dec_string :: "nat \<Rightarrow> string" where
  "dec_string n = (if n < 10 then [digit_char n] else dec_string (n div 10) @ [digit_char (n mod 10)])"

declare dec_string.simps [simp del]

definition hex_char :: "nat \<Rightarrow> char" where
  "hex_char n = (if n < 10 then char_of (48 + n) else char_of (87 + n))"

text \<open>\<open>format!("{:02x}")\<close> of a byte.\<close>

definition hex2 :: "nat \<Rightarrow> string" where
  "hex2 n = [hex_char (n div 16), hex_char (n mod 16)]"

definition digits_val :: "string \<Rightarrow> nat" where
  "digits_val s = foldl (\<lambda>a c. a * 10 + (ord c - 48)) 0 s"

definition all_digits :: "string \<Rightarrow> bool" where
  "all_digits s \<longleftrightarrow> s \<noteq> [] \<and> list_all is_ascii_digit s"

text \<open>\<open>s.parse::<uN>()\<close>: an optional \<open>+\<close>, then digits, no more than the type holds.\<close>

definition parse_unsigned :: "nat \<Rightarrow> string \<Rightarrow> nat option" where
  "parse_unsigned bits s =
     (let t = (case s of [] \<Rightarrow> s | c # r \<Rightarrow> if c = CHR ''+'' then r else s)
      in if all_digits t \<and> digits_val t < 2 ^ bits then Some (digits_val t) else None)"

text \<open>\<open>s.parse::<iN>()\<close>: an optional sign, then digits, within the type's range.\<close>

definition parse_signed :: "nat \<Rightarrow> string \<Rightarrow> int option" where
  "parse_signed bits s =
     (case s of
        [] \<Rightarrow> None
      | c # r \<Rightarrow>
          if c = CHR ''-'' then
            (if all_digits r \<and> digits_val r \<le> 2 ^ (bits - 1) then Some (- int (digits_val r)) else None)
          else
            (let t = (if c = CHR ''+'' then r else s)
             in if all_digits t \<and> digits_val t < 2 ^ (bits - 1) then Some (int (digits_val t)) else None))"

lemma ord_digit_char [simp]: "n < 10 \<Longrightarrow> ord (digit_char n) = 48 + n"
  by (simp add: ord_def digit_char_def)

lemma digits_val_append1: "digits_val (s @ [c]) = digits_val s * 10 + (ord c - 48)"
  by (simp add: digits_val_def)

lemma digits_val_dec_string [simp]: "digits_val (dec_string n) = n"
proof (induction n rule: dec_string.induct)
  case (1 n)
  show ?case
  proof (cases "n < 10")
    case True
    then show ?thesis by (subst dec_string.simps) (simp add: digits_val_def)
  next
    case False
    then show ?thesis
      using "1.IH" by (subst dec_string.simps) (simp add: digits_val_append1)
  qed
qed

lemma all_digits_dec_string [simp]: "all_digits (dec_string n)"
proof (induction n rule: dec_string.induct)
  case (1 n)
  then show ?case
    by (subst dec_string.simps) (auto simp: all_digits_def is_ascii_digit_def)
qed

lemma parse_unsigned_dec_string: "n < 2 ^ bits \<Longrightarrow> parse_unsigned bits (dec_string n) = Some n"
proof -
  assume n: "n < 2 ^ bits"
  obtain c r where cr: "dec_string n = c # r" and c: "is_ascii_digit c"
    using all_digits_dec_string [of n] unfolding all_digits_def by (cases "dec_string n") auto
  have "c \<noteq> CHR ''+''" using c by (auto simp: is_ascii_digit_def ord_def)
  then have "parse_unsigned bits (dec_string n) =
      (if all_digits (dec_string n) \<and> digits_val (dec_string n) < 2 ^ bits
       then Some (digits_val (dec_string n)) else None)"
    by (simp only: parse_unsigned_def cr list.case if_False Let_def)
  then show ?thesis using n by simp
qed

lemma dec_string_inject [simp]: "dec_string m = dec_string n \<longleftrightarrow> m = n"
  by (metis digits_val_dec_string)

text \<open>\<open>s.split_once(p)\<close>.\<close>

fun split_once :: "string \<Rightarrow> string \<Rightarrow> (string \<times> string) option" where
  "split_once p [] = (if p = [] then Some ([], []) else None)"
| "split_once p (c # s) =
     (if starts_with p (c # s) then Some ([], drop (length p) (c # s))
      else map_option (\<lambda>(a, b). (c # a, b)) (split_once p s))"

end
