(* ===== verification/Utf8.thy ===== *)
theory Utf8
  imports RustStr
begin

text \<open>
  The text decoders of the standard library that the WSP reader calls:
  \<open>String::from_utf8_lossy\<close>, which replaces each maximal invalid prefix of a UTF-8
  sequence by U+FFFD, \<open>String::from_utf16_lossy\<close>, and \<open>char::from\<close> on a byte (Latin-1),
  all producing UTF-8 bytes.
\<close>

unbundle bit_operations_syntax

section \<open>Encoding a code point\<close>

definition utf8_encode :: "nat \<Rightarrow> string" where
  "utf8_encode cp =
     (if cp < 0x80 then [char_of cp]
      else if cp < 0x800 then [char_of (0xC0 + cp div 64), char_of (0x80 + cp mod 64)]
      else if cp < 0x10000 then
        [char_of (0xE0 + cp div 4096), char_of (0x80 + cp div 64 mod 64), char_of (0x80 + cp mod 64)]
      else
        [char_of (0xF0 + cp div 262144), char_of (0x80 + cp div 4096 mod 64),
         char_of (0x80 + cp div 64 mod 64), char_of (0x80 + cp mod 64)])"

definition replacement :: string where
  "replacement = utf8_encode 0xFFFD"

section \<open>Lossy UTF-8\<close>

definition is_cont :: "u8 \<Rightarrow> bool" where
  "is_cont b \<longleftrightarrow> 0x80 \<le> b \<and> b \<le> 0xBF"

definition second_of_3 :: "u8 \<Rightarrow> u8 \<Rightarrow> bool" where
  "second_of_3 b c \<longleftrightarrow>
     (if b = 0xE0 then 0xA0 \<le> c \<and> c \<le> 0xBF
      else if b = 0xED then 0x80 \<le> c \<and> c \<le> 0x9F
      else is_cont c)"

definition second_of_4 :: "u8 \<Rightarrow> u8 \<Rightarrow> bool" where
  "second_of_4 b c \<longleftrightarrow>
     (if b = 0xF0 then 0x90 \<le> c \<and> c \<le> 0xBF
      else if b = 0xF4 then 0x80 \<le> c \<and> c \<le> 0x8F
      else is_cont c)"

text \<open>The tests on the bytes after the first, in order; each that passes is consumed.\<close>

fun run_tests :: "(u8 \<Rightarrow> bool) list \<Rightarrow> u8 list \<Rightarrow> nat \<times> bool" where
  "run_tests [] bs = (0, True)"
| "run_tests (t # ts) [] = (0, False)"
| "run_tests (t # ts) (c # bs) =
     (if t c then (case run_tests ts bs of (k, ok) \<Rightarrow> (Suc k, ok)) else (0, False))"

text \<open>The tests a first byte asks for; \<open>None\<close> for a byte that starts no sequence.\<close>

definition lead_tests :: "u8 \<Rightarrow> (u8 \<Rightarrow> bool) list option" where
  "lead_tests b =
     (if b < 0x80 then Some []
      else if 0xC2 \<le> b \<and> b \<le> 0xDF then Some [is_cont]
      else if 0xE0 \<le> b \<and> b \<le> 0xEF then Some [second_of_3 b, is_cont]
      else if 0xF0 \<le> b \<and> b \<le> 0xF4 then Some [second_of_4 b, is_cont, is_cont]
      else None)"

text \<open>How many bytes after \<open>b\<close> belong to its chunk, and whether the chunk is a character.\<close>

definition utf8_chunk :: "u8 \<Rightarrow> u8 list \<Rightarrow> nat \<times> bool" where
  "utf8_chunk b bs = (case lead_tests b of None \<Rightarrow> (0, False) | Some ts \<Rightarrow> run_tests ts bs)"

fun utf8_lossy :: "u8 list \<Rightarrow> string" where
  "utf8_lossy [] = []"
| "utf8_lossy (b # bs) =
     (case utf8_chunk b bs of (k, ok) \<Rightarrow>
        (if ok then of_bytes (b # take k bs) else replacement) @ utf8_lossy (drop k bs))"

fun valid_utf8 :: "u8 list \<Rightarrow> bool" where
  "valid_utf8 [] = True"
| "valid_utf8 (b # bs) = (case utf8_chunk b bs of (k, ok) \<Rightarrow> ok \<and> valid_utf8 (drop k bs))"

lemma utf8_lossy_valid: "valid_utf8 bs \<Longrightarrow> utf8_lossy bs = of_bytes bs"
proof (induction bs rule: valid_utf8.induct)
  case 1
  then show ?case by simp
next
  case (2 b bs)
  obtain k where ck: "utf8_chunk b bs = (k, True)" and v: "valid_utf8 (drop k bs)"
    using 2(2) by (auto split: prod.splits)
  have "utf8_lossy (drop k bs) = of_bytes (drop k bs)" using 2(1) [OF ck [symmetric] v] .
  then have "utf8_lossy (b # bs) = of_bytes (b # take k bs @ drop k bs)"
    by (simp only: utf8_lossy.simps ck of_bytes_append of_bytes_simps append_Cons) simp
  then show ?case by simp
qed

lemma run_tests_ok: "run_tests ts bs = (k, True) \<Longrightarrow> k = length ts \<and> k \<le> length bs
    \<and> run_tests ts (take k bs @ zs) = (k, True)"
  by (induction ts bs arbitrary: k rule: run_tests.induct) (auto split: if_splits prod.splits)

lemma valid_utf8_append: "valid_utf8 xs \<Longrightarrow> valid_utf8 (xs @ ys) \<longleftrightarrow> valid_utf8 ys"
proof (induction xs rule: valid_utf8.induct)
  case 1
  then show ?case by simp
next
  case (2 b bs)
  obtain ts k where ts: "lead_tests b = Some ts" and rt0: "run_tests ts bs = (k, True)"
    using 2(2) by (auto simp: utf8_chunk_def split: option.splits prod.splits)
  have k: "k = length ts" and le: "length ts \<le> length bs" using run_tests_ok [OF rt0] by auto
  note rt = rt0 [unfolded k]
  have "run_tests ts (take (length ts) bs @ drop (length ts) bs @ ys) = (length ts, True)"
    using run_tests_ok [OF rt] by blast
  then have "run_tests ts (bs @ ys) = (length ts, True)"
    by (simp only: append_assoc [symmetric] append_take_drop_id)
  then have "utf8_chunk b (bs @ ys) = (length ts, True)"
    by (simp only: utf8_chunk_def ts option.case)
  moreover have "utf8_chunk b bs = (length ts, True)" by (simp add: utf8_chunk_def ts rt)
  ultimately show ?case using 2 le by simp
qed

text \<open>ASCII text decodes to itself.\<close>

text \<open>An ASCII byte is never inside a character, so text may be cut before it.\<close>

lemma ascii_not_cont: "c < 0x80 \<Longrightarrow> \<not> is_cont c \<and> \<not> second_of_3 b c \<and> \<not> second_of_4 b c"
  by (auto simp: is_cont_def second_of_3_def second_of_4_def word_le_nat_alt word_less_nat_alt)

lemma lead_tests_cont: "lead_tests b = Some ts \<Longrightarrow> t \<in> set ts \<Longrightarrow> c < 0x80 \<Longrightarrow> \<not> t c"
  using ascii_not_cont [of c b] by (auto simp: lead_tests_def split: if_splits)

lemma run_tests_cut:
  "\<forall>t \<in> set ts. \<not> t c \<Longrightarrow> run_tests ts (bs @ c # ys) = (k, True) \<Longrightarrow>
    run_tests ts bs = (k, True) \<and> k \<le> length bs"
  by (induction ts bs arbitrary: k rule: run_tests.induct) (auto split: prod.splits if_splits)

lemma utf8_chunk_cut:
  assumes "utf8_chunk b (bs @ c # ys) = (k, True)" and "c < 0x80"
  shows "utf8_chunk b bs = (k, True) \<and> k \<le> length bs"
proof -
  obtain ts where ts: "lead_tests b = Some ts" "run_tests ts (bs @ c # ys) = (k, True)"
    using assms(1) by (auto simp: utf8_chunk_def split: option.splits)
  have "run_tests ts bs = (k, True) \<and> k \<le> length bs"
    using run_tests_cut [OF _ ts(2)] lead_tests_cont [OF ts(1) _ assms(2)] by blast
  then show ?thesis by (simp add: utf8_chunk_def ts(1))
qed

lemma valid_utf8_cut: "valid_utf8 (xs @ c # ys) \<Longrightarrow> c < 0x80 \<Longrightarrow> valid_utf8 xs"
proof (induction "length xs" arbitrary: xs rule: less_induct)
  case less
  show ?case
  proof (cases xs)
    case (Cons b bs)
    obtain k where k: "utf8_chunk b (bs @ c # ys) = (k, True)" "valid_utf8 (drop k (bs @ c # ys))"
      using less.prems(1) by (auto simp: Cons split: prod.splits)
    note cut = utf8_chunk_cut [OF k(1) less.prems(2)]
    have "valid_utf8 (drop k bs @ c # ys)" using k(2) cut by simp
    then have "valid_utf8 (drop k bs)" using less.hyps [of "drop k bs"] less.prems(2) Cons by simp
    then show ?thesis using cut by (simp add: Cons)
  qed simp
qed

lemma valid_utf8_ascii: "\<forall>b \<in> set bs. b < 0x80 \<Longrightarrow> valid_utf8 bs"
  by (induction bs) (auto simp: utf8_chunk_def lead_tests_def)

lemma valid_utf8_replacement: "valid_utf8 (as_bytes replacement)"
  by (simp add: replacement_def utf8_encode_def byte_of_char_def utf8_chunk_def lead_tests_def
      second_of_3_def is_cont_def)

text \<open>Whatever the bytes, the lossy decoder's result is valid UTF-8.\<close>

lemma valid_utf8_lossy: "valid_utf8 (as_bytes (utf8_lossy bs))"
proof (induction bs rule: utf8_lossy.induct)
  case 1
  then show ?case by simp
next
  case (2 b bs)
  obtain k ok where ck: "utf8_chunk b bs = (k, ok)" by fastforce
  show ?case
  proof (cases ok)
    case False
    with 2 ck show ?thesis by (simp add: valid_utf8_append valid_utf8_replacement)
  next
    case True
    then obtain ts where ts: "lead_tests b = Some ts" and rt: "run_tests ts bs = (k, True)"
      using ck by (auto simp: utf8_chunk_def split: option.splits)
    have "run_tests ts (take k bs @ []) = (k, True)" using run_tests_ok [OF rt] by blast
    then have "valid_utf8 (b # take k bs)" by (simp add: utf8_chunk_def ts)
    with True ck 2 show ?thesis
      using valid_utf8_append [of "b # take k bs"] by simp
  qed
qed

section \<open>Lossy UTF-16 and Latin-1\<close>

definition is_high_surrogate :: "nat \<Rightarrow> bool" where
  "is_high_surrogate u \<longleftrightarrow> 0xD800 \<le> u \<and> u < 0xDC00"

definition is_low_surrogate :: "nat \<Rightarrow> bool" where
  "is_low_surrogate u \<longleftrightarrow> 0xDC00 \<le> u \<and> u < 0xE000"

fun utf16_lossy :: "nat list \<Rightarrow> string" where
  "utf16_lossy [] = []"
| "utf16_lossy (u # us) =
     (if is_high_surrogate u then
        (case us of
           [] \<Rightarrow> replacement
         | v # vs \<Rightarrow>
             if is_low_surrogate v
             then utf8_encode (0x10000 + (u - 0xD800) * 1024 + (v - 0xDC00)) @ utf16_lossy vs
             else replacement @ utf16_lossy us)
      else if is_low_surrogate u then replacement @ utf16_lossy us
      else utf8_encode u @ utf16_lossy us)"

text \<open>\<open>as_chunks::<2>\<close> and \<open>from_be_bytes\<close>: an odd byte at the end is left out.\<close>

fun be_units :: "u8 list \<Rightarrow> nat list" where
  "be_units (a # b # bs) = (unat a * 256 + unat b) # be_units bs"
| "be_units bs = []"

definition latin1 :: "u8 list \<Rightarrow> string" where
  "latin1 bs = concat (map (\<lambda>b. utf8_encode (unat b)) bs)"

section \<open>Encoding is valid\<close>

lemma byte_of_char_of: "byte_of_char (char_of (n :: nat)) = word_of_nat n"
  by (rule word_unat_eq_iff [THEN iffD2]) (simp add: byte_of_char_def unat_of_nat)

lemma byte_compare:
  "a \<le> (word_of_nat n :: u8) \<longleftrightarrow> unat a \<le> n mod 256"
  "(word_of_nat n :: u8) \<le> a \<longleftrightarrow> n mod 256 \<le> unat a"
  "(word_of_nat n :: u8) < a \<longleftrightarrow> n mod 256 < unat a"
  "(word_of_nat n :: u8) = a \<longleftrightarrow> n mod 256 = unat a"
  by (simp_all add: word_le_nat_alt word_less_nat_alt word_unat_eq_iff unat_of_nat)

text \<open>A Unicode scalar value: a code point that is not a surrogate.\<close>

definition scalar :: "nat \<Rightarrow> bool" where
  "scalar cp \<longleftrightarrow> cp < 0x110000 \<and> \<not> (0xD800 \<le> cp \<and> cp < 0xE000)"

lemmas byte_tests = utf8_chunk_def lead_tests_def byte_compare is_cont_def second_of_3_def second_of_4_def

lemma valid_utf8_encode: "scalar cp \<Longrightarrow> valid_utf8 (as_bytes (utf8_encode cp))"
proof -
  assume cp: "scalar cp"
  then have "cp < 0x110000" by (simp add: scalar_def)
  then consider "cp < 0x80" | "0x80 \<le> cp" "cp < 0x800" | "0x800 \<le> cp" "cp < 0x10000" | "0x10000 \<le> cp"
    by linarith
  then show ?thesis
  proof cases
    case 1
    then show ?thesis by (simp add: utf8_encode_def byte_of_char_of byte_tests)
  next
    case 2
    define q where "q = cp div 64"
    define m where "m = cp mod 64"
    have q: "q < 32" "2 \<le> q" "m < 64" using 2 by (auto simp: q_def m_def)
    then have "(192 + q) mod 256 = 192 + q" "(128 + m) mod 256 = 128 + m" by simp_all
    with 2 q show ?thesis
      unfolding utf8_encode_def q_def [symmetric] m_def [symmetric]
      by (simp add: byte_of_char_of byte_tests del: of_nat_add)
  next
    case 3
    define a where "a = cp div 4096"
    define q where "q = cp div 64 mod 64"
    define m where "m = cp mod 64"
    have "cp = cp div 64 * 64 + m" "cp div 64 = cp div 64 div 64 * 64 + q"
      by (simp_all only: q_def m_def div_mult_mod_eq)
    moreover have "cp div 64 div 64 = a" by (simp add: a_def div_mult2_eq [symmetric])
    ultimately have cpe: "cp = a * 4096 + q * 64 + m" by linarith
    have b: "a < 16" "q < 64" "m < 64" using 3 by (auto simp: a_def q_def m_def)
    then have r: "(224 + a) mod 256 = 224 + a" "(128 + q) mod 256 = 128 + q" "(128 + m) mod 256 = 128 + m"
      by simp_all
    have "a = 0 \<Longrightarrow> 32 \<le> q" "a = 13 \<Longrightarrow> q < 32" using cpe b 3 cp by (auto simp: scalar_def)
    with 3 b r show ?thesis
      unfolding utf8_encode_def a_def [symmetric] q_def [symmetric] m_def [symmetric]
      by (auto simp: byte_of_char_of byte_tests simp del: of_nat_add)
  next
    case 4
    define a where "a = cp div 262144"
    define p where "p = cp div 4096 mod 64"
    define q where "q = cp div 64 mod 64"
    define m where "m = cp mod 64"
    have "cp = cp div 64 * 64 + m" "cp div 64 = cp div 64 div 64 * 64 + q"
      "cp div 4096 = cp div 4096 div 64 * 64 + p"
      by (simp_all only: p_def q_def m_def div_mult_mod_eq)
    moreover have "cp div 64 div 64 = cp div 4096" "cp div 4096 div 64 = a"
      by (simp_all add: a_def div_mult2_eq [symmetric])
    ultimately have cpe: "cp = a * 262144 + p * 4096 + q * 64 + m" by linarith
    have b: "p < 64" "q < 64" "m < 64" by (auto simp: p_def q_def m_def)
    have a: "a \<le> 4" using cp by (auto simp: a_def scalar_def)
    then have r: "(240 + a) mod 256 = 240 + a" "(128 + p) mod 256 = 128 + p"
      "(128 + q) mod 256 = 128 + q" "(128 + m) mod 256 = 128 + m"
      using b by simp_all
    have "a = 0 \<Longrightarrow> 16 \<le> p" "a = 4 \<Longrightarrow> p < 16" using cpe b 4 cp by (auto simp: scalar_def)
    with 4 a b r show ?thesis
      unfolding utf8_encode_def a_def [symmetric] p_def [symmetric] q_def [symmetric] m_def [symmetric]
      by (auto simp: byte_of_char_of byte_tests simp del: of_nat_add)
  qed
qed

lemma valid_utf8_concat: "(\<And>s. s \<in> set ss \<Longrightarrow> valid_utf8 (as_bytes s)) \<Longrightarrow> valid_utf8 (as_bytes (concat ss))"
  by (induction ss) (simp_all add: valid_utf8_append)

lemma valid_utf8_latin1: "valid_utf8 (as_bytes (latin1 bs))"
  unfolding latin1_def
proof (rule valid_utf8_concat)
  fix s
  assume "s \<in> set (map (\<lambda>b. utf8_encode (unat b)) bs)"
  then obtain b :: u8 where s: "s = utf8_encode (unat b)" by auto
  have "unat b < 256" using unsigned_less [of b] by simp
  then show "valid_utf8 (as_bytes s)" using s by (simp add: valid_utf8_encode scalar_def)
qed

lemma valid_utf8_utf16: "\<forall>u \<in> set us. u < 0x10000 \<Longrightarrow> valid_utf8 (as_bytes (utf16_lossy us))"
proof (induction us rule: utf16_lossy.induct)
  case 1
  then show ?case by simp
next
  case (2 u us)
  have high: "valid_utf8 (as_bytes (utf8_encode (0x10000 + (u - 0xD800) * 1024 + (v - 0xDC00))))"
    if "is_high_surrogate u" "is_low_surrogate v" for v
    using that by (intro valid_utf8_encode) (auto simp: scalar_def is_high_surrogate_def is_low_surrogate_def)
  have plain: "valid_utf8 (as_bytes (utf8_encode u))"
    if "\<not> is_high_surrogate u" "\<not> is_low_surrogate u"
    using that 2(5) by (intro valid_utf8_encode) (auto simp: scalar_def is_high_surrogate_def is_low_surrogate_def)
  show ?case
    using 2 high plain by (auto simp: valid_utf8_append valid_utf8_replacement split: list.splits)
qed

lemma be_units_bound: "\<forall>u \<in> set (be_units bs). u < 0x10000"
proof (induction bs rule: be_units.induct)
  case (1 a b bs)
  have "unat a < 256" "unat b < 256" using unsigned_less [of a] unsigned_less [of b] by simp_all
  with 1 show ?case by simp
qed simp_all

end
