(* ===== verification/Wsp.thy ===== *)
theory Wsp
  imports Utf8
begin

text \<open>
  The WSP value shapes and the multipart body (\<open>crates/libs/go-sms-mms/src/wsp.rs\<close>).
  A reader takes the cursor and returns an error or the value with the cursor moved past it,
  so the mutation through \<open>&mut Cursor\<close> is explicit; after an error the code never looks at
  the cursor again, except after \<open>short_integer\<close>, which has not moved it. \<open>usize\<close> is 64
  bits; positions are \<open>nat\<close> (a slice is shorter than \<open>2^63\<close>), and the declared lengths that
  are added to a position are below \<open>2^35\<close> (\<open>value_length_bound\<close>), so no sum wraps.
\<close>

unbundle bit_operations_syntax

section \<open>Errors and the cursor\<close>

record wsp_error =
  err_at :: nat
  err_what :: string

record cursor =
  cdata :: "u8 list"
  cpos :: nat

type_synonym 'a reader = "cursor \<Rightarrow> wsp_error + 'a \<times> cursor"

definition wsp_err :: "nat \<Rightarrow> string \<Rightarrow> wsp_error + 'a" where
  "wsp_err at w = Inl \<lparr>err_at = at, err_what = w\<rparr>"

definition cursor_new :: "u8 list \<Rightarrow> cursor" where
  "cursor_new d = \<lparr>cdata = d, cpos = 0\<rparr>"

definition remaining :: "cursor \<Rightarrow> nat" where
  "remaining c = length (cdata c) - cpos c"

definition peek :: "cursor \<Rightarrow> u8 option" where
  "peek c = nth_opt (cdata c) (cpos c)"

definition next_byte :: "string \<Rightarrow> u8 reader" where
  "next_byte w c =
     (case peek c of
        None \<Rightarrow> wsp_err (cpos c) w
      | Some b \<Rightarrow> Inr (b, c\<lparr>cpos := cpos c + 1\<rparr>))"

definition take_bytes :: "nat \<Rightarrow> string \<Rightarrow> u8 list reader" where
  "take_bytes n w c =
     (if remaining c < n then wsp_err (cpos c) w
      else Inr (take n (drop (cpos c) (cdata c)), c\<lparr>cpos := cpos c + n\<rparr>))"

definition high_bit :: "u8 \<Rightarrow> bool" where
  "high_bit b \<longleftrightarrow> b AND 0x80 \<noteq> 0"

section \<open>Integers and lengths\<close>

fun uintvar_loop :: "nat \<Rightarrow> nat \<Rightarrow> u64 \<Rightarrow> u64 reader" where
  "uintvar_loop start 0 value c = wsp_err start ''uintvar longer than five bytes''"
| "uintvar_loop start (Suc n) value c =
     bind_res (next_byte ''uintvar'' c) (\<lambda>(byte, c).
       let value = push_bit 7 value OR ucast (byte AND 0x7f)
       in if byte AND 0x80 = 0 then Inr (value, c) else uintvar_loop start n value c)"

definition uintvar :: "u64 reader" where
  "uintvar c = uintvar_loop (cpos c) 5 0 c"

definition value_length :: "nat reader" where
  "value_length c =
     bind_res (next_byte ''value-length'' c) (\<lambda>(byte, c).
       if byte \<le> 30 then Inr (unat byte, c)
       else if byte = 31 then bind_res (uintvar c) (\<lambda>(v, c). Inr (unat v, c))
       else wsp_err (cpos c - 1) ''value-length above 31'')"

definition short_integer :: "u8 reader" where
  "short_integer c =
     (case peek c of
        Some b \<Rightarrow>
          if high_bit b then Inr (b AND 0x7f, c\<lparr>cpos := cpos c + 1\<rparr>)
          else wsp_err (cpos c) ''short-integer''
      | None \<Rightarrow> wsp_err (cpos c) ''short-integer'')"

definition long_integer :: "u64 reader" where
  "long_integer c =
     bind_res (next_byte ''long-integer'' c) (\<lambda>(len, c).
       if len = 0 \<or> 30 < len then wsp_err (cpos c - 1) ''long-integer length outside 1 to 30''
       else bind_res (take_bytes (unat len) ''long-integer'' c) (\<lambda>(bytes, c).
         Inr (foldl (\<lambda>acc b. push_bit 8 acc OR ucast b) 0 bytes, c)))"

definition integer_value :: "u64 reader" where
  "integer_value c =
     (case peek c of
        Some b \<Rightarrow>
          if high_bit b then bind_res (short_integer c) (\<lambda>(v, c). Inr (ucast v, c))
          else long_integer c
      | None \<Rightarrow> long_integer c)"

section \<open>Text\<close>

definition text_string :: "u8 list reader" where
  "text_string c =
     (let c = (if peek c = Some 0x7f \<or> peek c = Some 0x22 then c\<lparr>cpos := cpos c + 1\<rparr> else c);
          start = cpos c
      in case position (\<lambda>b. b = 0) (drop start (cdata c)) of
           None \<Rightarrow> wsp_err start ''text-string without a NUL''
         | Some len \<Rightarrow>
             Inr (take len (drop start (cdata c)), c\<lparr>cpos := start + len + 1\<rparr>))"

record enc_str =
  es_charset :: "u64 option"
  es_bytes :: "u8 list"

definition encoded_string :: "enc_str reader" where
  "encoded_string c =
     (case peek c of
        Some b \<Rightarrow>
          if b \<le> 31 then
            (let start = cpos c in
             bind_res (value_length c) (\<lambda>(len, c).
               let end = cpos c + len in
               if length (cdata c) < end then wsp_err start ''encoded-string length past the end''
               else bind_res (integer_value c) (\<lambda>(charset, c).
                 bind_res (text_string c) (\<lambda>(bytes, c).
                   if cpos c \<noteq> end then wsp_err start ''encoded-string length does not match its text''
                   else Inr (\<lparr>es_charset = Some charset, es_bytes = bytes\<rparr>, c)))))
          else bind_res (text_string c) (\<lambda>(bytes, c). Inr (\<lparr>es_charset = None, es_bytes = bytes\<rparr>, c))
      | None \<Rightarrow> bind_res (text_string c) (\<lambda>(bytes, c). Inr (\<lparr>es_charset = None, es_bytes = bytes\<rparr>, c)))"

definition CHARSET_ISO_8859_1 :: u64 where "CHARSET_ISO_8859_1 = 4"
definition CHARSET_UTF8 :: u64 where "CHARSET_UTF8 = 106"
definition CHARSET_UCS2 :: u64 where "CHARSET_UCS2 = 1000"
definition CHARSET_UTF16 :: u64 where "CHARSET_UTF16 = 1015"

definition decode_text :: "u8 list \<Rightarrow> u64 option \<Rightarrow> string" where
  "decode_text bytes charset =
     (if charset = Some CHARSET_ISO_8859_1 then latin1 bytes
      else if charset = Some CHARSET_UCS2 \<or> charset = Some CHARSET_UTF16
      then utf16_lossy (be_units bytes)
      else utf8_lossy bytes)"


section \<open>The contract of a value-shape reader\<close>

text \<open>
  Every reader keeps the bytes, moves on when it succeeds, never past the end, and an error
  names an offset of the bytes it was given.
\<close>

definition wf_cur :: "cursor \<Rightarrow> bool" where
  "wf_cur c \<longleftrightarrow> cpos c \<le> length (cdata c)"

locale shape_reader =
  fixes rd :: "'a reader"
  assumes keeps_data: "rd c = Inr (v, c') \<Longrightarrow> cdata c' = cdata c"
    and moves_on: "rd c = Inr (v, c') \<Longrightarrow> cpos c < cpos c'"
    and in_bounds: "rd c = Inr (v, c') \<Longrightarrow> cpos c' \<le> length (cdata c)"
    and names_offset: "wf_cur c \<Longrightarrow> rd c = Inl e \<Longrightarrow> err_at e \<le> length (cdata c)"
begin

lemma keeps_wf: "rd c = Inr (v, c') \<Longrightarrow> wf_cur c'"
  using keeps_data [of c v c'] in_bounds [of c v c'] by (simp add: wf_cur_def)

lemma consumes: "rd c = Inr (v, c') \<Longrightarrow> remaining c' < remaining c"
  using keeps_data [of c v c'] moves_on [of c v c'] in_bounds [of c v c'] by (simp add: remaining_def)

lemma moves_only: "rd c = Inr (v, c') \<Longrightarrow> c' = c\<lparr>cpos := cpos c'\<rparr>"
  using keeps_data [of c v c'] by (cases c; cases c') simp

lemma fails_at_end: "cpos c = length (cdata c) \<Longrightarrow> \<exists>e. rd c = Inl e"
proof (cases "rd c")
  case (Inr p)
  moreover assume "cpos c = length (cdata c)"
  ultimately show ?thesis
    using moves_on [of c "fst p" "snd p"] in_bounds [of c "fst p" "snd p"] by (simp add: wf_cur_def)
qed simp

end

text \<open>
  The same for the result of one call, with the least distance \<open>k\<close> the cursor moves: the
  form that composes along \<open>?\<close>.
\<close>

definition reads_from :: "nat \<Rightarrow> cursor \<Rightarrow> wsp_error + 'a \<times> cursor \<Rightarrow> bool" where
  "reads_from k c r \<longleftrightarrow>
     (case r of
        Inl e \<Rightarrow> wf_cur c \<longrightarrow> err_at e \<le> length (cdata c)
      | Inr (v, c') \<Rightarrow> cdata c' = cdata c \<and> cpos c + k \<le> cpos c' \<and> cpos c' \<le> length (cdata c))"

lemma reads_from_err [reader_rules]: "(wf_cur c \<Longrightarrow> at \<le> length (cdata c)) \<Longrightarrow> reads_from k c (wsp_err at w)"
  by (simp add: reads_from_def wsp_err_def)

lemma reads_from_ret [reader_rules]:
  "cdata c' = cdata c \<Longrightarrow> cpos c + k \<le> cpos c' \<Longrightarrow> cpos c' \<le> length (cdata c) \<Longrightarrow>
   reads_from k c (Inr (v, c'))"
  by (simp add: reads_from_def)

lemma reads_from_bind:
  assumes "reads_from k c m"
    and "\<And>v c'. m = Inr (v, c') \<Longrightarrow> cdata c' = cdata c \<Longrightarrow> cpos c + k \<le> cpos c' \<Longrightarrow>
      cpos c' \<le> length (cdata c) \<Longrightarrow> wf_cur c' \<Longrightarrow> reads_from j c' (f v c')"
    and "i \<le> k + j"
  shows "reads_from i c (bind_res m (\<lambda>(v, c). f v c))"
proof (cases m)
  case (Inl e)
  with assms(1) show ?thesis by (simp add: reads_from_def)
next
  case (Inr p)
  obtain v c' where p: "p = (v, c')" by fastforce
  from assms(1) Inr p have c': "cdata c' = cdata c" "cpos c + k \<le> cpos c'" "cpos c' \<le> length (cdata c)"
    by (auto simp: reads_from_def)
  with assms(2) Inr p have "reads_from j c' (f v c')" by (simp add: wf_cur_def)
  with Inr p c' assms(3) show ?thesis
    by (auto simp: reads_from_def wf_cur_def split: sum.splits)
qed

lemma reads_from_mono: "reads_from k c r \<Longrightarrow> j \<le> k \<Longrightarrow> reads_from j c r"
  by (auto simp: reads_from_def split: sum.splits prod.splits)

lemma shape_readerI:
  assumes "\<And>c. reads_from (Suc 0) c (rd c)"
  shows "shape_reader rd"
proof
  fix c v c' e
  show "rd c = Inr (v, c') \<Longrightarrow> cdata c' = cdata c"
    and "rd c = Inr (v, c') \<Longrightarrow> cpos c < cpos c'"
    and "rd c = Inr (v, c') \<Longrightarrow> cpos c' \<le> length (cdata c)"
    and "wf_cur c \<Longrightarrow> rd c = Inl e \<Longrightarrow> err_at e \<le> length (cdata c)"
    using assms [of c] by (simp_all add: reads_from_def)
qed

lemma shape_reader_reads: "shape_reader rd \<Longrightarrow> reads_from (Suc 0) c (rd c)"
proof (cases "rd c")
  case (Inl e)
  then show "shape_reader rd \<Longrightarrow> reads_from (Suc 0) c (rd c)"
    using shape_reader.names_offset [of rd c e] by (simp add: reads_from_def)
next
  case (Inr p)
  then show "shape_reader rd \<Longrightarrow> reads_from (Suc 0) c (rd c)"
    using shape_reader.keeps_data [of rd c "fst p" "snd p"] shape_reader.moves_on [of rd c "fst p" "snd p"]
      shape_reader.in_bounds [of rd c "fst p" "snd p"] by (cases p) (simp add: reads_from_def)
qed

lemma peek_Some: "peek c = Some b \<Longrightarrow> cpos c < length (cdata c)"
  by (simp add: peek_def nth_opt_def split: if_splits)

lemma next_byte_reads [reader_rules]: "reads_from (Suc 0) c (next_byte w c)"
  unfolding next_byte_def
  by (auto split: option.splits intro!: reader_rules dest: peek_Some simp: wf_cur_def)

lemma take_bytes_reads [reader_rules]: "wf_cur c \<Longrightarrow> reads_from n c (take_bytes n w c)"
  unfolding take_bytes_def
  by (auto simp: wf_cur_def remaining_def intro!: reader_rules)

lemma uintvar_loop_reads:
  "start \<le> length (cdata c) \<Longrightarrow> reads_from (min n (Suc 0)) c (uintvar_loop start n acc c)"
proof (induction n arbitrary: c acc)
  case 0
  then show ?case by (auto intro: reader_rules)
next
  case (Suc n)
  show ?case
    unfolding uintvar_loop.simps Let_def
  proof (rule reads_from_bind [OF next_byte_reads, where j = "0"])
    fix v c'
    assume c': "cdata c' = cdata c" "cpos c' \<le> length (cdata c)" "wf_cur c'"
    show "reads_from 0 c' (if v AND 0x80 = 0
       then Inr (push_bit 7 acc OR ucast (v AND 0x7F), c')
       else uintvar_loop start n (push_bit 7 acc OR ucast (v AND 0x7F)) c')"
      using Suc.IH [of c'] Suc.prems c'
      by (auto intro: reader_rules reads_from_mono)
  qed simp
qed

lemma uintvar_reads [reader_rules]: "reads_from (Suc 0) c (uintvar c)"
proof (cases "wf_cur c")
  case True
  then show ?thesis using uintvar_loop_reads [of "cpos c" c 5] by (simp add: uintvar_def wf_cur_def)
next
  case False
  then have "uintvar c = wsp_err (cpos c) ''uintvar''"
    by (simp add: uintvar_def numeral_eq_Suc next_byte_def peek_def nth_opt_def wf_cur_def wsp_err_def)
  with False show ?thesis by (simp add: reads_from_def wsp_err_def)
qed

lemma value_length_reads [reader_rules]: "reads_from (Suc 0) c (value_length c)"
  unfolding value_length_def
  by (rule reads_from_bind [OF next_byte_reads, where j = "0"])
    (auto intro!: reader_rules reads_from_bind [OF uintvar_reads, where j = "0"])

lemma short_integer_reads [reader_rules]: "reads_from (Suc 0) c (short_integer c)"
  unfolding short_integer_def
  by (auto split: option.splits intro!: reader_rules dest: peek_Some simp: wf_cur_def)

lemma long_integer_reads [reader_rules]: "reads_from (Suc 0) c (long_integer c)"
  unfolding long_integer_def
  by (rule reads_from_bind [OF next_byte_reads, where j = "0"])
    (auto intro!: reader_rules reads_from_bind [OF take_bytes_reads, where j = "0"])

lemma integer_value_reads [reader_rules]: "reads_from (Suc 0) c (integer_value c)"
  unfolding integer_value_def
  by (auto split: option.splits intro!: reader_rules reads_from_bind [OF short_integer_reads, where j = "0"])

lemma text_string_reads [reader_rules]: "reads_from (Suc 0) c (text_string c)"
  unfolding text_string_def Let_def
  by (auto split: option.splits intro!: reader_rules dest: peek_Some simp: wf_cur_def position_Some)

lemma encoded_string_reads [reader_rules]: "reads_from (Suc 0) c (encoded_string c)"
  unfolding encoded_string_def Let_def
  by (auto split: option.splits intro!: reader_rules
      reads_from_bind [OF value_length_reads, where j = "0"]
      reads_from_bind [OF integer_value_reads, where j = "0"]
      reads_from_bind [OF text_string_reads, where j = "0"] simp: wf_cur_def)

interpretation uintvar: shape_reader uintvar by (intro shape_readerI reader_rules)
interpretation value_length: shape_reader value_length by (intro shape_readerI reader_rules)
interpretation short_integer: shape_reader short_integer by (intro shape_readerI reader_rules)
interpretation long_integer: shape_reader long_integer by (intro shape_readerI reader_rules)
interpretation integer_value: shape_reader integer_value by (intro shape_readerI reader_rules)
interpretation text_string: shape_reader text_string by (intro shape_readerI reader_rules)
interpretation encoded_string: shape_reader encoded_string by (intro shape_readerI reader_rules)

section \<open>Lengths and texts\<close>

text \<open>A declared length has at most five bytes of seven bits, so a position plus a length
  does not wrap.\<close>

lemma and_7f: "x AND 0x7f = take_bit 7 (x :: 'a::len word)"
  by (simp add: take_bit_eq_mask mask_eq_exp_minus_1)

lemma uintvar_step_bits:
  "take_bit k acc = acc \<Longrightarrow>
   take_bit (k + 7) (push_bit 7 acc OR ucast (b AND 0x7f)) = (push_bit 7 acc OR ucast ((b :: u8) AND 0x7f) :: u64)"
proof (rule bit_word_eqI)
  fix n
  assume acc: "take_bit k acc = acc" and n: "n < LENGTH(64)"
  have "bit acc m \<Longrightarrow> m < k" for m using acc by (metis bit_take_bit_iff)
  moreover have "bit (b AND 0x7f) m \<Longrightarrow> m < 7" for m
    by (simp only: and_7f bit_take_bit_iff)
  ultimately show "bit (take_bit (k + 7) (push_bit 7 acc OR ucast (b AND 0x7f))) n =
      bit (push_bit 7 acc OR ucast (b AND 0x7f) :: u64) n"
    by (fastforce simp: bit_simps)
qed

lemma uintvar_loop_bits:
  "uintvar_loop start n acc c = Inr (v, c') \<Longrightarrow> take_bit k acc = acc \<Longrightarrow> take_bit (k + 7 * n) v = v"
proof (induction n arbitrary: acc c k)
  case (Suc n)
  then obtain b c1 where b: "next_byte ''uintvar'' c = Inr (b, c1)"
    by (auto simp: bind_res_eq_Inr)
  have acc': "take_bit (k + 7) (push_bit 7 acc OR ucast (b AND 0x7f)) = (push_bit 7 acc OR ucast (b AND 0x7f) :: u64)"
    using uintvar_step_bits [OF Suc.prems(2)] .
  show ?case
  proof (cases "b AND 0x80 = 0")
    case True
    with Suc.prems b have "v = push_bit 7 acc OR ucast (b AND 0x7f)" by (simp add: Let_def)
    with acc' show ?thesis by (metis add.assoc add.commute le_add1 mult_Suc_right take_bit_of_exp take_bit_take_bit min.absorb2)
  next
    case False
    with Suc.prems b have "uintvar_loop start n (push_bit 7 acc OR ucast (b AND 0x7f)) c1 = Inr (v, c')"
      by (simp add: Let_def)
    from Suc.IH [OF this acc'] show ?thesis by (simp add: add.assoc)
  qed
qed (simp add: wsp_err_def)

lemma uintvar_bound: "uintvar c = Inr (v, c') \<Longrightarrow> unat v < 2 ^ 35"
proof -
  assume "uintvar c = Inr (v, c')"
  then have "take_bit 35 v = v" using uintvar_loop_bits [of "cpos c" 5 0 c v c' 0] by (simp add: uintvar_def)
  then have "unat v = take_bit 35 (unat v)" by (metis unsigned_take_bit_eq)
  then show ?thesis by (metis take_bit_nat_less_exp)
qed

lemma value_length_bound: "value_length c = Inr (n, c') \<Longrightarrow> n < 2 ^ 35"
proof -
  assume "value_length c = Inr (n, c')"
  then consider b where "b \<le> (30 :: u8)" "n = unat b" | v c1 where "uintvar c1 = Inr (v, c')" "n = unat v"
    by (auto simp: value_length_def bind_res_eq_Inr wsp_err_def split: if_splits)
  then show ?thesis
  proof cases
    case 1
    then show ?thesis by (simp add: word_le_nat_alt)
  next
    case 2
    then show ?thesis using uintvar_bound by simp
  qed
qed

lemma valid_utf8_decode_text: "valid_utf8 (as_bytes (decode_text bytes cs))"
  using valid_utf8_utf16 [OF be_units_bound] 
  by (simp add: decode_text_def valid_utf8_latin1 valid_utf8_lossy)
section \<open>Properties\<close>

text \<open>a declared length, in one byte or as a Uintvar, is below 2^35, so the sum of a
  position and a length never wraps a 64-bit \<open>usize\<close>.\<close>

theorem declared_length_bound:
  assumes "value_length c = Inr (n, c')"
  shows "n < 2 ^ 35"
  using value_length_bound [OF assms] .

lemma declared_length_bound_witness: "value_length (cursor_new [31, 0x81, 0x00]) = Inr (128, \<lparr>cdata = [31, 0x81, 0x00], cpos = 3\<rparr>) \<and> (128 :: nat) < 2 ^ 35"
proof
  show r: "value_length (cursor_new [31, 0x81, 0x00]) = Inr (128, \<lparr>cdata = [31, 0x81, 0x00], cpos = 3\<rparr>)"
    by code_simp
  show "(128 :: nat) < 2 ^ 35" by (rule declared_length_bound [OF r])
qed


end
