(* ===== verification/WspMultipart.thy ===== *)
theory WspMultipart
  imports Wsp
begin

text \<open>
  Content types, parts and the multipart body (the second half of
  \<open>crates/libs/go-sms-mms/src/wsp.rs\<close>). A \<open>HashMap<String, String>\<close> is a map. The two
  \<open>while\<close> loops are functions whose termination rests on the contract of the readers: every
  reader that succeeds has moved the cursor on.
\<close>

unbundle bit_operations_syntax

section \<open>Content types\<close>

definition WELL_KNOWN_CONTENT_TYPES :: "string list" where
  "WELL_KNOWN_CONTENT_TYPES =
   [
    ''*/*'', ''text/*'', ''text/html'', ''text/plain'', ''text/x-hdml'', ''text/x-ttml'',
    ''text/x-vCalendar'', ''text/x-vCard'', ''text/vnd.wap.wml'', ''text/vnd.wap.wmlscript'',
    ''text/vnd.wap.wta-event'', ''multipart/*'', ''multipart/mixed'', ''multipart/form-data'',
    ''multipart/byteranges'', ''multipart/alternative'', ''application/*'',
    ''application/java-vm'', ''application/x-www-form-urlencoded'', ''application/x-hdmlc'',
    ''application/vnd.wap.wmlc'', ''application/vnd.wap.wmlscriptc'',
    ''application/vnd.wap.wta-eventc'', ''application/vnd.wap.uaprof'',
    ''application/vnd.wap.wtls-ca-certificate'', ''application/vnd.wap.wtls-user-certificate'',
    ''application/x-x509-ca-cert'', ''application/x-x509-user-cert'', ''image/*'', ''image/gif'',
    ''image/jpeg'', ''image/tiff'', ''image/png'', ''image/vnd.wap.wbmp'',
    ''application/vnd.wap.multipart.*'', ''application/vnd.wap.multipart.mixed'',
    ''application/vnd.wap.multipart.form-data'', ''application/vnd.wap.multipart.byteranges'',
    ''application/vnd.wap.multipart.alternative'', ''application/xml'', ''text/xml'',
    ''application/vnd.wap.wbxml'', ''application/x-x968-cross-cert'',
    ''application/x-x968-ca-cert'', ''application/x-x968-user-cert'', ''text/vnd.wap.si'',
    ''application/vnd.wap.sic'', ''text/vnd.wap.sl'', ''application/vnd.wap.slc'',
    ''text/vnd.wap.co'', ''application/vnd.wap.coc'', ''application/vnd.wap.multipart.related'',
    ''application/vnd.wap.sia'', ''text/vnd.wap.connectivity-xml'',
    ''application/vnd.wap.connectivity-wbxml'', ''application/pkcs7-mime'',
    ''application/vnd.wap.hashed-certificate'', ''application/vnd.wap.signed-certificate'',
    ''application/vnd.wap.cert-response'', ''application/xhtml+xml'', ''application/wml+xml'',
    ''text/css'', ''application/vnd.wap.mms-message'',
    ''application/vnd.wap.rollover-certificate'', ''application/vnd.wap.locc+wbxml'',
    ''application/vnd.wap.loc+xml'', ''application/vnd.syncml.dm+wbxml'',
    ''application/vnd.syncml.dm+xml'', ''application/vnd.syncml.notification'',
    ''application/vnd.wap.xhtml+xml'', ''application/vnd.wv.csp.cir'',
    ''application/vnd.oma.dd+xml'', ''application/vnd.oma.drm.message'',
    ''application/vnd.oma.drm.content'', ''application/vnd.oma.drm.rights+xml'',
    ''application/vnd.oma.drm.rights+wbxml'']"

type_synonym params = "string \<rightharpoonup> string"

record ctype =
  media :: string
  params :: params

definition is_multipart :: "ctype \<Rightarrow> bool" where
  "is_multipart ct \<longleftrightarrow>
     starts_with ''multipart/'' (media ct) \<or> starts_with ''application/vnd.wap.multipart.'' (media ct)"

definition ct_charset :: "ctype \<Rightarrow> u64 option" where
  "ct_charset ct =
     (case params ct ''Charset'' of
        None \<Rightarrow> None
      | Some s \<Rightarrow> map_option word_of_nat (parse_unsigned 64 s))"

definition constrained_media :: "string reader" where
  "constrained_media c =
     (case peek c of
        Some b \<Rightarrow>
          if high_bit b then
            (let at = cpos c in
             bind_res (short_integer c) (\<lambda>(id, c).
               case nth_opt WELL_KNOWN_CONTENT_TYPES (unat id) of
                 Some s \<Rightarrow> Inr (s, c)
               | None \<Rightarrow> wsp_err at ''unassigned well-known content type''))
          else bind_res (text_string c) (\<lambda>(bytes, c). Inr (to_ascii_lowercase (utf8_lossy bytes), c))
      | None \<Rightarrow> bind_res (text_string c) (\<lambda>(bytes, c). Inr (to_ascii_lowercase (utf8_lossy bytes), c)))"

text \<open>A text parameter value: an Encoded-string-value decoded by its charset.\<close>

definition param_text :: "string reader" where
  "param_text c =
     bind_res (encoded_string c) (\<lambda>(s, c). Inr (decode_text (es_bytes s) (es_charset s), c))"

definition lossy_text :: "string reader" where
  "lossy_text c = bind_res (text_string c) (\<lambda>(bytes, c). Inr (utf8_lossy bytes, c))"

definition integer_text :: "string reader" where
  "integer_text c = bind_res (integer_value c) (\<lambda>(v, c). Inr (dec_string (unat v), c))"

text \<open>The value of an untyped parameter: an integer or a text.\<close>

definition untyped_value :: "string reader" where
  "untyped_value c =
     (case peek c of
        Some b \<Rightarrow> if high_bit b then integer_text c else lossy_text c
      | None \<Rightarrow> lossy_text c)"

text \<open>The name and the value shape of a parameter code; \<open>None\<close> is the \<open>break\<close> arm.\<close>

definition ct_param :: "u8 \<Rightarrow> (string \<times> string reader) option" where
  "ct_param code =
     (if code = 0x01 then Some (''Charset'', integer_text)
      else if code = 0x03 then Some (''Type'', integer_text)
      else if code = 0x09 then Some (''Type'', constrained_media)
      else if code = 0x05 \<or> code = 0x17 then Some (''Name'', param_text)
      else if code = 0x06 \<or> code = 0x18 then Some (''Filename'', param_text)
      else if code = 0x0a \<or> code = 0x19 then Some (''Start'', param_text)
      else if code = 0x0b \<or> code = 0x1a then Some (''Start-info'', param_text)
      else None)"

lemma constrained_media_reads [reader_rules]: "reads_from (Suc 0) c (constrained_media c)"
  unfolding constrained_media_def Let_def
  by (auto split: option.splits intro!: reader_rules
      reads_from_bind [OF short_integer_reads, where j = 0]
      reads_from_bind [OF text_string_reads, where j = 0] dest: peek_Some)

lemma param_text_reads [reader_rules]: "reads_from (Suc 0) c (param_text c)"
  unfolding param_text_def
  by (auto intro!: reader_rules reads_from_bind [OF encoded_string_reads, where j = 0])

lemma lossy_text_reads [reader_rules]: "reads_from (Suc 0) c (lossy_text c)"
  unfolding lossy_text_def
  by (auto intro!: reader_rules reads_from_bind [OF text_string_reads, where j = 0])

lemma integer_text_reads [reader_rules]: "reads_from (Suc 0) c (integer_text c)"
  unfolding integer_text_def
  by (auto intro!: reader_rules reads_from_bind [OF integer_value_reads, where j = 0])

lemma untyped_value_reads [reader_rules]: "reads_from (Suc 0) c (untyped_value c)"
  unfolding untyped_value_def by (auto split: option.splits intro!: reader_rules)

lemma ct_param_reads: "ct_param code = Some (name, rd) \<Longrightarrow> reads_from (Suc 0) c (rd c)"
  by (auto simp: ct_param_def intro!: reader_rules split: if_splits)

interpretation constrained_media: shape_reader constrained_media by (intro shape_readerI reader_rules)
interpretation param_text: shape_reader param_text by (intro shape_readerI reader_rules)
interpretation lossy_text: shape_reader lossy_text by (intro shape_readerI reader_rules)
interpretation untyped_value: shape_reader untyped_value by (intro shape_readerI reader_rules)

lemma ct_param_reader: "ct_param code = Some (name, rd) \<Longrightarrow> shape_reader rd"
  by (intro shape_readerI ct_param_reads)

text \<open>
  The parameter loop, up to the declared end. An untyped parameter is a name and a value;
  a code this decoder does not know ends the loop.
\<close>

function ct_params :: "nat \<Rightarrow> params \<Rightarrow> params reader" where
  "ct_params e ps c =
     (if cpos c < e then
        (case short_integer c of
           Inl _ \<Rightarrow>
             bind_res (lossy_text c) (\<lambda>(name, c).
               bind_res (untyped_value c) (\<lambda>(v, c). ct_params e (ps(name \<mapsto> v)) c))
         | Inr (code, c) \<Rightarrow>
             (case ct_param code of
                None \<Rightarrow> Inr (ps, c)
              | Some (name, rd) \<Rightarrow> bind_res (rd c) (\<lambda>(v, c). ct_params e (ps(name \<mapsto> v)) c)))
      else Inr (ps, c))"
  by pat_completeness auto
termination
proof (relation "measure (\<lambda>(e, ps, c). e - cpos c)", goal_cases)
  case 1
  show ?case by simp
next
  case (2 e ps c err x1 name c1 x2 v c2)
  then have "cpos c < cpos c1" "cpos c1 < cpos c2"
    by (metis lossy_text.moves_on) (metis 2 untyped_value.moves_on)
  with 2 show ?case by simp
next
  case (3 e ps c x1 code c1 x2 name rd x3 v c2)
  then have "cpos c < cpos c1" "cpos c1 < cpos c2"
    by (metis short_integer.moves_on) (metis 3 ct_param_reader shape_reader.moves_on)
  with 3 show ?case by simp
qed

declare ct_params.simps [simp del]

lemma ct_params_reads [reader_rules]: "wf_cur c \<Longrightarrow> reads_from 0 c (ct_params e ps c)"
proof (induction e ps c rule: ct_params.induct)
  case (1 e ps c)
  show ?case
  proof (cases "cpos c < e")
    case False
    with "1.prems" show ?thesis
      by (simp add: ct_params.simps [of e ps c] reads_from_def wf_cur_def)
  next
    case True
    show ?thesis
    proof (cases "short_integer c")
      case (Inl err)
      have "reads_from 0 c (bind_res (lossy_text c) (\<lambda>(name, c).
               bind_res (untyped_value c) (\<lambda>(v, c). ct_params e (ps(name \<mapsto> v)) c)))"
      proof (rule reads_from_bind [OF lossy_text_reads, where j = 0])
        fix name c1
        assume name: "lossy_text c = Inr (name, c1)"
        show "reads_from 0 c1 (bind_res (untyped_value c1) (\<lambda>(v, c). ct_params e (ps(name \<mapsto> v)) c))"
          by (rule reads_from_bind [OF untyped_value_reads, where j = 0])
            (rule "1.IH"(1) [OF True Inl name refl _ refl], simp_all only: zero_le)
      qed simp
      with True Inl show ?thesis by (simp add: ct_params.simps [of e ps c])
    next
      case (Inr p)
      obtain code c1 where p: "p = (code, c1)" by fastforce
      have c1: "cdata c1 = cdata c" "cpos c < cpos c1" "cpos c1 \<le> length (cdata c)"
        using Inr p short_integer.keeps_data short_integer.moves_on short_integer.in_bounds by blast+
      show ?thesis
      proof (cases "ct_param code")
        case None
        with True Inr p c1 show ?thesis
          by (simp add: ct_params.simps [of e ps c] reads_from_def)
      next
        case (Some nr)
        obtain name rd where nr: "nr = (name, rd)" by fastforce
        have "reads_from 0 c1 (bind_res (rd c1) (\<lambda>(v, c). ct_params e (ps(name \<mapsto> v)) c))"
          by (rule reads_from_bind [OF ct_param_reads [OF Some [unfolded nr]], where j = 0])
            (rule "1.IH"(2) [OF True Inr p [symmetric] Some nr [symmetric] _ refl], simp_all only: zero_le)
        with True Inr p Some nr c1 show ?thesis
          by (auto simp: ct_params.simps [of e ps c] reads_from_def wf_cur_def split: sum.splits prod.splits)
      qed
    qed
  qed
qed

text \<open>The media type in the general form: a Long-integer id, or Constrained-media.\<close>

definition general_media :: "string reader" where
  "general_media c =
     (case peek c of
        Some b \<Rightarrow>
          if b \<le> 30 then
            (let at = cpos c in
             bind_res (long_integer c) (\<lambda>(id, c).
               case nth_opt WELL_KNOWN_CONTENT_TYPES (unat id) of
                 Some s \<Rightarrow> Inr (s, c)
               | None \<Rightarrow> wsp_err at ''unassigned well-known content type''))
          else constrained_media c
      | None \<Rightarrow> constrained_media c)"

lemma general_media_reads [reader_rules]: "reads_from (Suc 0) c (general_media c)"
  unfolding general_media_def Let_def
  by (auto split: option.splits intro!: reader_rules
      reads_from_bind [OF long_integer_reads, where j = 0] dest: peek_Some)

text \<open>
  Content-type-value. The cursor is set to the declared end whatever the media and the
  parameters consumed.
\<close>

definition content_type :: "ctype reader" where
  "content_type c =
     (case peek c of
        None \<Rightarrow> wsp_err (cpos c) ''content-type''
      | Some first \<Rightarrow>
          if 31 < first then
            bind_res (constrained_media c) (\<lambda>(m, c). Inr (\<lparr>media = m, params = Map.empty\<rparr>, c))
          else
            (let start = cpos c in
             bind_res (value_length c) (\<lambda>(len, c).
               let e = cpos c + len in
               if length (cdata c) < e then wsp_err start ''content-type length past the end''
               else
                 bind_res (general_media c) (\<lambda>(m, c).
                   bind_res (ct_params e Map.empty c) (\<lambda>(ps, c).
                     Inr (\<lparr>media = m, params = ps\<rparr>, c\<lparr>cpos := e\<rparr>))))))"

lemma reads_from_rewind:
  assumes m: "reads_from (Suc 0) c m"
    and f: "\<And>v c'. wf_cur c' \<Longrightarrow> reads_from 0 c' (f v c')"
    and e: "cpos c \<le> e" "e \<le> length (cdata c)"
  shows "reads_from 0 c (bind_res m (\<lambda>(v, c). bind_res (f v c) (\<lambda>(w, c). Inr (g v w, c\<lparr>cpos := e\<rparr>))))"
proof (cases m)
  case (Inl x)
  with m show ?thesis by (simp add: reads_from_def)
next
  case (Inr p)
  obtain v c' where p: "p = (v, c')" by fastforce
  from m Inr p have c': "cdata c' = cdata c" "cpos c' \<le> length (cdata c)" by (auto simp: reads_from_def)
  then have "reads_from 0 c' (f v c')" by (intro f) (simp add: wf_cur_def)
  with Inr p c' e show ?thesis
    by (auto simp: reads_from_def wf_cur_def split: sum.splits prod.splits)
qed

lemma content_type_reads [reader_rules]: "reads_from (Suc 0) c (content_type c)"
  unfolding content_type_def Let_def
  by (auto split: option.splits dest: peek_Some
      intro!: reads_from_err reads_from_bind [OF constrained_media_reads, where j = 0]
        reads_from_bind [OF value_length_reads, where j = 0] reads_from_ret
        reads_from_rewind [OF general_media_reads ct_params_reads] simp: wf_cur_def)

interpretation content_type: shape_reader content_type by (intro shape_readerI reader_rules)

section \<open>Parts\<close>

record part =
  p_content_type :: ctype
  p_content_location :: "string option"
  p_content_id :: "string option"
  p_data :: "u8 list"

text \<open>\<open>a.or(b)\<close> on options.\<close>

definition or_opt :: "'a option \<Rightarrow> 'a option \<Rightarrow> 'a option" where
  "or_opt a b = (case a of None \<Rightarrow> b | Some x \<Rightarrow> Some x)"

definition part_name :: "part \<Rightarrow> string option" where
  "part_name p =
     or_opt (or_opt (or_opt (params (p_content_type p) ''Filename'') (params (p_content_type p) ''Name''))
       (p_content_location p)) (p_content_id p)"

definition unwrap_or :: "'a \<Rightarrow> 'a option \<Rightarrow> 'a" where
  "unwrap_or d x = (case x of None \<Rightarrow> d | Some y \<Rightarrow> y)"

definition strip_angle_brackets :: "string \<Rightarrow> string" where
  "strip_angle_brackets raw =
     (let s = trim raw;
          s = unwrap_or s (strip_prefix ''cid:'' s);
          s = unwrap_or s (strip_prefix ''<'' s)
      in unwrap_or s (strip_suffix ''>'' s))"

definition WSP_CONTENT_LOCATION :: u8 where "WSP_CONTENT_LOCATION = 0x0e"
definition WSP_CONTENT_DISPOSITION :: u8 where "WSP_CONTENT_DISPOSITION = 0x2e"
definition WSP_CONTENT_ID :: u8 where "WSP_CONTENT_ID = 0x40"

text \<open>A header with a Token-text name: only the two names a message uses are kept.\<close>

definition named_part_header :: "string \<Rightarrow> string \<Rightarrow> part \<Rightarrow> part" where
  "named_part_header name v p =
     (if to_ascii_lowercase name = ''content-id'' then p\<lparr>p_content_id := Some (strip_angle_brackets v)\<rparr>
      else if to_ascii_lowercase name = ''content-location'' then p\<lparr>p_content_location := Some v\<rparr>
      else p)"

lemma take_bytes_consumes: "take_bytes n w c = Inr (v, c') \<Longrightarrow> remaining c' \<le> remaining c"
  by (auto simp: take_bytes_def remaining_def wsp_err_def split: if_splits)

function part_headers_loop :: "part \<Rightarrow> cursor \<Rightarrow> wsp_error + part" where
  "part_headers_loop p c =
     (if 0 < remaining c then
        (case short_integer c of
           Inr (code, c) \<Rightarrow>
             if code = WSP_CONTENT_LOCATION then
               bind_res (param_text c) (\<lambda>(v, c). part_headers_loop (p\<lparr>p_content_location := Some v\<rparr>) c)
             else if code = WSP_CONTENT_ID then
               bind_res (lossy_text c) (\<lambda>(raw, c).
                 part_headers_loop (p\<lparr>p_content_id := Some (strip_angle_brackets raw)\<rparr>) c)
             else if code = WSP_CONTENT_DISPOSITION then
               bind_res (value_length c) (\<lambda>(len, c).
                 bind_res (take_bytes len ''content-disposition'' c) (\<lambda>(_, c). part_headers_loop p c))
             else Inr p
         | Inl _ \<Rightarrow>
             bind_res (lossy_text c) (\<lambda>(name, c).
               bind_res (lossy_text c) (\<lambda>(v, c). part_headers_loop (named_part_header name v p) c)))
      else Inr p)"
  by pat_completeness auto
termination
  by (relation "measure (\<lambda>(p, c). remaining c)")
    (auto dest!: short_integer.consumes param_text.consumes lossy_text.consumes
      value_length.consumes take_bytes_consumes)

declare part_headers_loop.simps [simp del]

definition part_from_headers :: "u8 list \<Rightarrow> u8 list \<Rightarrow> wsp_error + part" where
  "part_from_headers headers data =
     bind_res (content_type (cursor_new headers)) (\<lambda>(ct, c).
       part_headers_loop
         \<lparr>p_content_type = ct, p_content_location = None, p_content_id = None, p_data = data\<rparr> c)"

section \<open>The multipart body\<close>

fun parts_loop :: "nat \<Rightarrow> part list \<Rightarrow> part list reader" where
  "parts_loop 0 parts c = Inr (parts, c)"
| "parts_loop (Suc n) parts c =
     bind_res (uintvar c) (\<lambda>(headers_len, c).
       bind_res (uintvar c) (\<lambda>(data_len, c).
         bind_res (take_bytes (unat headers_len) ''part headers'' c) (\<lambda>(headers, c).
           bind_res (take_bytes (unat data_len) ''part data'' c) (\<lambda>(data, c).
             bind_res (part_from_headers headers data) (\<lambda>p. parts_loop n (parts @ [p]) c)))))"

definition multipart :: "part list reader" where
  "multipart c =
     (let start = cpos c in
      bind_res (uintvar c) (\<lambda>(n, c).
        if 256 < n then wsp_err start ''multipart with more than 256 parts''
        else parts_loop (unat n) [] c))"


text \<open>
  An error inside a part's headers names an offset of those headers, which are a slice of
  the body, so it is within the body as well.
\<close>

definition errs_within :: "nat \<Rightarrow> wsp_error + 'a \<Rightarrow> bool" where
  "errs_within n r \<longleftrightarrow> (case r of Inl e \<Rightarrow> err_at e \<le> n | Inr _ \<Rightarrow> True)"

lemma errs_within_bind:
  assumes "reads_from k c m" "wf_cur c" "cdata c = d"
    and "\<And>v c'. m = Inr (v, c') \<Longrightarrow> wf_cur c' \<Longrightarrow> cdata c' = d \<Longrightarrow> errs_within (length d) (f v c')"
  shows "errs_within (length d) (bind_res m (\<lambda>(v, c). f v c))"
  using assms by (cases m) (auto simp: errs_within_def reads_from_def wf_cur_def)

lemma part_headers_loop_err: "wf_cur c \<Longrightarrow> errs_within (length (cdata c)) (part_headers_loop p c)"
proof (induction p c rule: part_headers_loop.induct)
  case (1 p c)
  show ?case
  proof (cases "0 < remaining c")
    case False
    then show ?thesis by (simp add: part_headers_loop.simps [of p c] errs_within_def)
  next
    case rem: True
    show ?thesis
    proof (cases "short_integer c")
      case (Inl err)
      have "errs_within (length (cdata c)) (bind_res (lossy_text c) (\<lambda>(name, c).
          bind_res (lossy_text c) (\<lambda>(v, c). part_headers_loop (named_part_header name v p) c)))"
        using "1.IH"(1) [OF rem Inl _ refl _ refl] "1.prems"
        by (intro errs_within_bind [OF lossy_text_reads]) metis+
      with rem Inl show ?thesis by (simp add: part_headers_loop.simps [of p c])
    next
      case (Inr pr)
      obtain code c1 where pr: "pr = (code, c1)" by fastforce
      note si = Inr [unfolded pr]
      have c1: "wf_cur c1" "cdata c1 = cdata c"
        using short_integer.keeps_wf [OF si] short_integer.keeps_data [OF si] by auto
      have "errs_within (length (cdata c)) (bind_res (param_text c1)
          (\<lambda>(v, c). part_headers_loop (p\<lparr>p_content_location := Some v\<rparr>) c))"
        if "code = WSP_CONTENT_LOCATION"
        using "1.IH"(2) [OF rem Inr pr [symmetric] that _ refl] c1
        by (intro errs_within_bind [OF param_text_reads]) metis+
      moreover have "errs_within (length (cdata c)) (bind_res (lossy_text c1)
          (\<lambda>(raw, c). part_headers_loop (p\<lparr>p_content_id := Some (strip_angle_brackets raw)\<rparr>) c))"
        if "code \<noteq> WSP_CONTENT_LOCATION" "code = WSP_CONTENT_ID"
        using "1.IH"(3) [OF rem Inr pr [symmetric] that _ refl] c1
        by (intro errs_within_bind [OF lossy_text_reads]) metis+
      moreover have "errs_within (length (cdata c)) (bind_res (value_length c1) (\<lambda>(len, c).
          bind_res (take_bytes len ''content-disposition'' c) (\<lambda>(_, c). part_headers_loop p c)))"
        if "code \<noteq> WSP_CONTENT_LOCATION" "code \<noteq> WSP_CONTENT_ID" "code = WSP_CONTENT_DISPOSITION"
        using "1.IH"(4) [OF rem Inr pr [symmetric] that _ refl _ refl] c1
        by (intro errs_within_bind [OF value_length_reads] errs_within_bind [OF take_bytes_reads]) metis+
      ultimately show ?thesis
        using rem si by (simp add: part_headers_loop.simps [of p c] errs_within_def)
    qed
  qed
qed

lemma part_from_headers_err: "part_from_headers h d = Inl e \<Longrightarrow> err_at e \<le> length h"
proof -
  assume err: "part_from_headers h d = Inl e"
  have "errs_within (length h) (part_from_headers h d)"
    unfolding part_from_headers_def
    using part_headers_loop_err
    by (intro errs_within_bind [OF content_type_reads]) (auto simp: wf_cur_def cursor_new_def)
  with err show ?thesis by (simp add: errs_within_def)
qed

lemma parts_loop_reads: "wf_cur c \<Longrightarrow> reads_from 0 c (parts_loop n ps c)"
proof (induction n arbitrary: ps c)
  case 0
  then show ?case by (simp add: reads_from_def wf_cur_def)
next
  case (Suc n)
  have tail: "reads_from 0 c' (bind_res (part_from_headers h d) (\<lambda>p. parts_loop n (ps @ [p]) c'))"
    if "wf_cur c'" "length h \<le> length (cdata c')" for h d c'
    using Suc.IH [OF that(1)] part_from_headers_err [of h d] that
    by (cases "part_from_headers h d") (fastforce simp: reads_from_def)+
  show ?case
    unfolding parts_loop.simps
    by (intro reads_from_bind [OF uintvar_reads, where j = 0] reads_from_bind [OF take_bytes_reads, where j = 0] tail)
      (auto simp: take_bytes_def wsp_err_def split: if_splits)
qed

lemma multipart_reads [reader_rules]: "reads_from (Suc 0) c (multipart c)"
  unfolding multipart_def Let_def
  by (auto intro!: reads_from_bind [OF uintvar_reads, where j = 0] parts_loop_reads
      reader_rules simp: wf_cur_def)

interpretation multipart: shape_reader multipart by (intro shape_readerI reader_rules)

end
