(* ===== verification/Mms.thy ===== *)
theory Mms
  imports WspMultipart
begin

text \<open>
  MMS message decoding (\<open>crates/libs/go-sms-mms/src/mms.rs\<close>): the header walk, one value
  shape for each field code, and the body. The \<open>match\<close> from a field code to a header name
  and its value shape is a table, in the order of the match arms; the header fields that
  are kept under their own name come first, as they do in the code.
\<close>

unbundle bit_operations_syntax

section \<open>Messages\<close>

datatype message_type = SendReq | RetrieveConf | OtherType u8

definition type_name :: "message_type \<Rightarrow> string" where
  "type_name t =
     (case t of
        SendReq \<Rightarrow> ''m-send-req''
      | RetrieveConf \<Rightarrow> ''m-retrieve-conf''
      | OtherType t \<Rightarrow>
          if t = 0x81 then ''m-send-conf''
          else if t = 0x82 then ''m-notification-ind''
          else if t = 0x83 then ''m-notifyresp-ind''
          else if t = 0x85 then ''m-acknowledge-ind''
          else if t = 0x86 then ''m-delivery-ind''
          else if t = 0x87 then ''m-read-rec-ind''
          else if t = 0x88 then ''m-read-orig-ind''
          else ''0x'' @ hex2 (unat t))"

record message =
  m_type :: "message_type option"
  m_from :: "string option"
  m_to :: "string list"
  m_cc :: "string list"
  m_bcc :: "string list"
  m_date :: "u64 option"
  m_subject :: "string option"
  m_content_type :: "ctype option"
  m_headers :: "string \<rightharpoonup> string"
  m_parts :: "part list"

definition message_default :: message where
  "message_default =
     \<lparr>m_type = None, m_from = None, m_to = [], m_cc = [], m_bcc = [], m_date = None,
      m_subject = None, m_content_type = None, m_headers = Map.empty, m_parts = []\<rparr>"

definition BCC :: u8 where "BCC = 0x01"
definition CC :: u8 where "CC = 0x02"
definition CONTENT_TYPE :: u8 where "CONTENT_TYPE = 0x04"
definition DATE :: u8 where "DATE = 0x05"
definition FROM :: u8 where "FROM = 0x09"
definition MESSAGE_TYPE :: u8 where "MESSAGE_TYPE = 0x0c"
definition SUBJECT :: u8 where "SUBJECT = 0x16"
definition TO :: u8 where "TO = 0x17"

lemmas field_codes = BCC_def CC_def CONTENT_TYPE_def DATE_def FROM_def MESSAGE_TYPE_def SUBJECT_def TO_def

definition starts_with_message_type :: "u8 list \<Rightarrow> bool" where
  "starts_with_message_type d \<longleftrightarrow> nth_opt d 0 = Some (MESSAGE_TYPE OR 0x80)"

section \<open>Value shapes of the headers\<close>

definition mms_string :: "string reader" where
  "mms_string c =
     bind_res (encoded_string c) (\<lambda>(s, c). Inr (decode_text (es_bytes s) (es_charset s), c))"

definition from_value :: "string option reader" where
  "from_value c =
     (let start = cpos c in
      bind_res (value_length c) (\<lambda>(len, c).
        let e = cpos c + len in
        if length (cdata c) < e then wsp_err start ''from length past the end''
        else
          bind_res (next_byte ''from token'' c) (\<lambda>(tok, c).
            bind_res
              (if tok = 0x81 then Inr (None, c)
               else if tok = 0x80 then bind_res (mms_string c) (\<lambda>(s, c). Inr (Some s, c))
               else wsp_err (cpos c - 1) ''from address token'')
              (\<lambda>(sender, c).
                if cpos c \<noteq> e then wsp_err start ''from length does not match its address''
                else Inr (sender, c)))))"

definition absolute_or_relative :: "string reader" where
  "absolute_or_relative c =
     (let start = cpos c in
      bind_res (value_length c) (\<lambda>(len, c).
        let e = cpos c + len in
        bind_res (next_byte ''time token'' c) (\<lambda>(tok, c).
          bind_res (integer_value c) (\<lambda>(seconds, c).
            if cpos c \<noteq> e then wsp_err start ''time value length does not match''
            else if tok = 0x80 then Inr (''absolute:'' @ dec_string (unat seconds), c)
            else if tok = 0x81 then Inr (''relative:'' @ dec_string (unat seconds), c)
            else wsp_err (start + 1) ''time token''))))"

definition long_text :: "string reader" where
  "long_text c = bind_res (long_integer c) (\<lambda>(v, c). Inr (dec_string (unat v), c))"

definition short_text :: "string reader" where
  "short_text c = bind_res (short_integer c) (\<lambda>(v, c). Inr (dec_string (unat v), c))"

definition previously_sent :: "bool \<Rightarrow> string reader" where
  "previously_sent is_date c =
     (let start = cpos c in
      bind_res (value_length c) (\<lambda>(len, c).
        let e = cpos c + len in
        bind_res (integer_value c) (\<lambda>(count, c).
          bind_res (if is_date then long_text c else mms_string c) (\<lambda>(v, c).
            if cpos c \<noteq> e then wsp_err start ''previously-sent length does not match''
            else Inr (dec_string (unat count) @ '':'' @ v, c)))))"

definition token :: "string list \<Rightarrow> string reader" where
  "token names c =
     bind_res (short_integer c) (\<lambda>(v, c).
       Inr (unwrap_or (''0x'' @ hex2 (unat v)) (nth_opt names (unat v)), c))"

definition yes_no :: "string reader" where
  "yes_no = token [''yes'', ''no'']"

definition mm_flags :: "string reader" where
  "mm_flags c =
     (let start = cpos c in
      bind_res (value_length c) (\<lambda>(len, c).
        let e = cpos c + len in
        bind_res (token [''Add'', ''Remove'', ''Filter''] c) (\<lambda>(action, c).
          bind_res (mms_string c) (\<lambda>(keyword, c).
            if cpos c \<noteq> e then wsp_err start ''mm-flags length does not match''
            else Inr (action @ '':'' @ keyword, c)))))"

definition mbox_count :: "string reader" where
  "mbox_count c =
     (let start = cpos c in
      bind_res (value_length c) (\<lambda>(len, c).
        let e = cpos c + len in
        bind_res (token [''Message'', ''Size''] c) (\<lambda>(kind, c).
          bind_res (integer_value c) (\<lambda>(count, c).
            if cpos c \<noteq> e then wsp_err start ''mbox count length does not match''
            else Inr (kind @ '':'' @ dec_string (unat count), c)))))"

definition element_descriptor :: "string reader" where
  "element_descriptor c =
     (let start = cpos c in
      bind_res (value_length c) (\<lambda>(len, c).
        let e = cpos c + len in
        if length (cdata c) < e then wsp_err start ''element-descriptor length past the end''
        else
          bind_res (lossy_text c) (\<lambda>(reference, c).
            if e < cpos c then wsp_err start ''element-descriptor length does not match''
            else Inr (reference, c\<lparr>cpos := e\<rparr>))))"

definition message_class :: "string reader" where
  "message_class c =
     (case peek c of
        Some b \<Rightarrow>
          if high_bit b then token [''Personal'', ''Advertisement'', ''Informational'', ''Auto''] c
          else lossy_text c
      | None \<Rightarrow> lossy_text c)"

definition mms_version :: "string reader" where
  "mms_version c =
     bind_res (short_integer c) (\<lambda>(v, c).
       Inr (dec_string (unat (drop_bit 4 v)) @ ''.'' @ dec_string (unat (v AND 0x0f)), c))"

definition attributes :: "string reader" where
  "attributes c = bind_res (short_integer c) (\<lambda>(v, c). Inr (''0x'' @ hex2 (unat v), c))"

section \<open>The field codes and their shapes\<close>

definition header_table :: "(u8 \<times> string \<times> string reader) list" where
  "header_table =
     [(0x18, ''transaction-id'', mms_string),
      (0x0b, ''message-id'', mms_string),
      (0x03, ''content-location'', mms_string),
      (0x13, ''response-text'', mms_string),
      (0x1a, ''retrieve-text'', mms_string),
      (0x1e, ''reply-charging-id'', mms_string),
      (0x0d, ''mms-version'', mms_version),
      (0x0e, ''message-size'', long_text),
      (0x1f, ''reply-charging-size'', long_text),
      (0x20, ''previously-sent-by'', previously_sent False),
      (0x21, ''previously-sent-date'', previously_sent True),
      (0x07, ''delivery-time'', absolute_or_relative),
      (0x08, ''expiry'', absolute_or_relative),
      (0x1d, ''reply-charging-deadline'', absolute_or_relative),
      (0x0a, ''message-class'', message_class),
      (0x06, ''delivery-report'', yes_no),
      (0x10, ''read-report'', yes_no),
      (0x11, ''report-allowed'', yes_no),
      (0x0f, ''priority'', token [''Low'', ''Normal'', ''High'']),
      (0x14, ''sender-visibility'', token [''Hide'', ''Show'']),
      (0x15, ''status'',
        token [''Expired'', ''Retrieved'', ''Rejected'', ''Deferred'', ''Unrecognized'',
               ''Indeterminate'', ''Forwarded'', ''Unreachable'']),
      (0x12, ''response-status'', short_text),
      (0x19, ''retrieve-status'', short_text),
      (0x1b, ''read-status'', token [''Read'', ''Deleted without being read'']),
      (0x1c, ''reply-charging'',
        token [''Requested'', ''Requested text only'', ''Accepted'', ''Accepted text only'']),
      (0x22, ''store'', yes_no),
      (0x27, ''stored'', yes_no),
      (0x29, ''totals'', yes_no),
      (0x2b, ''quotas'', yes_no),
      (0x31, ''distribution-indicator'', yes_no),
      (0x3b, ''drm-content'', yes_no),
      (0x3c, ''adaptation-allowed'', yes_no),
      (0x23, ''mm-state'', token [''Draft'', ''Sent'', ''New'', ''Retrieved'', ''Forwarded'']),
      (0x24, ''mm-flags'', mm_flags),
      (0x25, ''store-status'', short_text),
      (0x26, ''store-status-text'', mms_string),
      (0x28, ''attributes'', attributes),
      (0x2a, ''mbox-totals'', mbox_count),
      (0x2c, ''mbox-quotas'', mbox_count),
      (0x2d, ''message-count'', integer_text),
      (0x2f, ''start'', integer_text),
      (0x33, ''limit'', integer_text),
      (0x32, ''element-descriptor'', element_descriptor),
      (0x34, ''recommended-retrieval-mode'', token [''Manual'']),
      (0x35, ''recommended-retrieval-mode-text'', mms_string),
      (0x36, ''status-text'', mms_string),
      (0x37, ''applic-id'', mms_string),
      (0x38, ''reply-applic-id'', mms_string),
      (0x39, ''aux-applic-info'', mms_string),
      (0x3d, ''replace-id'', mms_string),
      (0x3e, ''cancel-id'', mms_string),
      (0x3a, ''content-class'',
        token [''text'', ''image-basic'', ''image-rich'', ''video-basic'', ''video-rich'',
               ''megapixel'', ''content-basic'', ''content-rich'']),
      (0x3f, ''cancel-status'',
        token [''Cancel Request Successfully received'', ''Cancel Request corrupted''])]"

definition message_type_value :: "message_type reader" where
  "message_type_value c =
     (let at = cpos c in
      bind_res (map_err (\<lambda>_. \<lparr>err_at = at, err_what = ''message-type token''\<rparr>) (short_integer c)) (\<lambda>(t, c).
        Inr (if t = 0x00 then SendReq else if t = 0x04 then RetrieveConf else OtherType (t OR 0x80), c)))"

definition header :: "u8 \<Rightarrow> cursor \<Rightarrow> message \<Rightarrow> wsp_error + message \<times> cursor" where
  "header code c msg =
     (if code = MESSAGE_TYPE then
        bind_res (message_type_value c) (\<lambda>(t, c). Inr (msg\<lparr>m_type := Some t\<rparr>, c))
      else if code = FROM then bind_res (from_value c) (\<lambda>(f, c). Inr (msg\<lparr>m_from := f\<rparr>, c))
      else if code = TO then bind_res (mms_string c) (\<lambda>(s, c). Inr (msg\<lparr>m_to := m_to msg @ [s]\<rparr>, c))
      else if code = CC then bind_res (mms_string c) (\<lambda>(s, c). Inr (msg\<lparr>m_cc := m_cc msg @ [s]\<rparr>, c))
      else if code = BCC then bind_res (mms_string c) (\<lambda>(s, c). Inr (msg\<lparr>m_bcc := m_bcc msg @ [s]\<rparr>, c))
      else if code = DATE then bind_res (long_integer c) (\<lambda>(d, c). Inr (msg\<lparr>m_date := Some d\<rparr>, c))
      else if code = SUBJECT then bind_res (mms_string c) (\<lambda>(s, c). Inr (msg\<lparr>m_subject := Some s\<rparr>, c))
      else
        (case map_of header_table code of
           Some (name, rd) \<Rightarrow>
             bind_res (rd c) (\<lambda>(v, c). Inr (msg\<lparr>m_headers := (m_headers msg)(name \<mapsto> v)\<rparr>, c))
         | None \<Rightarrow> wsp_err (cpos c - 1) ''unknown header field code''))"


section \<open>The shapes keep the contract\<close>

lemma mms_string_reads [reader_rules]: "reads_from (Suc 0) c (mms_string c)"
  unfolding mms_string_def
  by (auto intro!: reader_rules reads_from_bind [OF encoded_string_reads, where j = 0])

lemma long_text_reads [reader_rules]: "reads_from (Suc 0) c (long_text c)"
  unfolding long_text_def
  by (auto intro!: reader_rules reads_from_bind [OF long_integer_reads, where j = 0])

lemma short_text_reads [reader_rules]: "reads_from (Suc 0) c (short_text c)"
  unfolding short_text_def
  by (auto intro!: reader_rules reads_from_bind [OF short_integer_reads, where j = 0])

lemma token_reads [reader_rules]: "reads_from (Suc 0) c (token names c)"
  unfolding token_def
  by (auto intro!: reader_rules reads_from_bind [OF short_integer_reads, where j = 0])

lemma yes_no_reads [reader_rules]: "reads_from (Suc 0) c (yes_no c)"
  unfolding yes_no_def by (rule token_reads)

lemma message_class_reads [reader_rules]: "reads_from (Suc 0) c (message_class c)"
  unfolding message_class_def by (auto split: option.splits intro!: reader_rules)

lemma mms_version_reads [reader_rules]: "reads_from (Suc 0) c (mms_version c)"
  unfolding mms_version_def
  by (auto intro!: reader_rules reads_from_bind [OF short_integer_reads, where j = 0])

lemma attributes_reads [reader_rules]: "reads_from (Suc 0) c (attributes c)"
  unfolding attributes_def
  by (auto intro!: reader_rules reads_from_bind [OF short_integer_reads, where j = 0])

text \<open>
  The shapes that start with a Value-length: a first reader, then readers that go forward,
  and an error at the start. \<open>reads_from\<close> composes along the binds.
\<close>

lemmas reads_binds =
  reads_from_bind [OF value_length_reads, where j = 0]
  reads_from_bind [OF next_byte_reads, where j = 0]
  reads_from_bind [OF integer_value_reads, where j = 0]
  reads_from_bind [OF mms_string_reads, where j = 0]
  reads_from_bind [OF token_reads, where j = 0]
  reads_from_bind [OF long_text_reads, where j = 0]
  reads_from_bind [OF lossy_text_reads, where j = 0]

lemma absolute_or_relative_reads [reader_rules]: "reads_from (Suc 0) c (absolute_or_relative c)"
  unfolding absolute_or_relative_def Let_def
  by (intro reads_binds) (auto intro!: reader_rules simp: wf_cur_def)

lemma mm_flags_reads [reader_rules]: "reads_from (Suc 0) c (mm_flags c)"
  unfolding mm_flags_def Let_def
  by (intro reads_binds) (auto intro!: reader_rules simp: wf_cur_def)

lemma mbox_count_reads [reader_rules]: "reads_from (Suc 0) c (mbox_count c)"
  unfolding mbox_count_def Let_def
  by (intro reads_binds) (auto intro!: reader_rules simp: wf_cur_def)

lemma previously_sent_reads [reader_rules]: "reads_from (Suc 0) c (previously_sent d c)"
  unfolding previously_sent_def Let_def
  by (cases d) (simp_all only: if_True if_False, (intro reads_binds; auto intro!: reader_rules simp: wf_cur_def)+)

lemma from_value_reads [reader_rules]: "reads_from (Suc 0) c (from_value c)"
proof -
  have tok: "reads_from 0 c (if t = 0x81 then Inr (None, c)
      else if t = 0x80 then bind_res (mms_string c) (\<lambda>(s, c). Inr (Some s, c))
      else wsp_err (cpos c - 1) w)" if "wf_cur c" for c w and t :: u8
    using that by (auto intro!: reader_rules reads_binds simp: wf_cur_def)
  show ?thesis
    unfolding from_value_def Let_def
    by (rule reads_binds)
      (auto intro!: reads_from_err reads_binds reads_from_bind [OF tok, where j = 0] reads_from_ret
        simp: wf_cur_def)
qed

lemma element_descriptor_reads [reader_rules]: "reads_from (Suc 0) c (element_descriptor c)"
  unfolding element_descriptor_def Let_def
  by (rule reads_binds) (auto intro!: reads_from_err reads_binds reads_from_ret simp: wf_cur_def)

text \<open>Every row of the table is a reader.\<close>

lemma header_table_reads: "map_of header_table code = Some (name, rd) \<Longrightarrow> reads_from (Suc 0) c (rd c)"
proof -
  assume "map_of header_table code = Some (name, rd)"
  then have "(code, name, rd) \<in> set header_table" by (rule map_of_SomeD)
  moreover have "list_all (\<lambda>(code, name, rd). reads_from (Suc 0) c (rd c)) header_table"
    unfolding header_table_def list.pred_inject prod.case
    by (intro conjI TrueI list.pred_inject(1) reader_rules)
  ultimately show ?thesis by (auto simp: list_all_iff)
qed

lemma message_type_value_reads [reader_rules]: "reads_from (Suc 0) c (message_type_value c)"
proof -
  have "reads_from (Suc 0) c (map_err (\<lambda>_. \<lparr>err_at = cpos c, err_what = w\<rparr>) (short_integer c))" for w
    using short_integer_reads [of c] by (cases "short_integer c") (auto simp: reads_from_def wf_cur_def)
  then show ?thesis
    unfolding message_type_value_def Let_def
    by (intro reads_from_bind [where j = 0 and k = "Suc 0"]) (auto intro!: reader_rules)
qed

lemma header_reads: "reads_from (Suc 0) c (header code c msg)"
  unfolding header_def
  by (auto split: option.splits intro!: reads_from_ret reads_from_err
      reads_from_bind [OF message_type_value_reads, where j = 0]
      reads_from_bind [OF from_value_reads, where j = 0]
      reads_from_bind [OF mms_string_reads, where j = 0]
      reads_from_bind [OF long_integer_reads, where j = 0]
      reads_from_bind [OF header_table_reads, where j = 0] simp: wf_cur_def)

interpretation mms_string: shape_reader mms_string by (intro shape_readerI reader_rules)
interpretation from_value: shape_reader from_value by (intro shape_readerI reader_rules)
interpretation message_type_value: shape_reader message_type_value by (intro shape_readerI reader_rules)
interpretation absolute_or_relative: shape_reader absolute_or_relative by (intro shape_readerI reader_rules)
interpretation element_descriptor: shape_reader element_descriptor by (intro shape_readerI reader_rules)

section \<open>The decoder\<close>

definition part_of_rest :: "ctype \<Rightarrow> cursor \<Rightarrow> part" where
  "part_of_rest ct c =
     \<lparr>p_content_type = ct, p_content_location = None, p_content_id = None,
      p_data = drop (cpos c) (cdata c)\<rparr>"

interpretation header: shape_reader "\<lambda>c. header code c msg" for code msg
  by (intro shape_readerI header_reads)

function decode_loop :: "message \<Rightarrow> cursor \<Rightarrow> wsp_error + message" where
  "decode_loop msg c =
     (let at = cpos c in
      bind_res (map_err (\<lambda>_. \<lparr>err_at = at, err_what = ''header field code''\<rparr>) (short_integer c)) (\<lambda>(code, c).
        if code = CONTENT_TYPE then
          bind_res (content_type c) (\<lambda>(ct, c).
            bind_res
              (if is_multipart ct then map_res fst (multipart c) else Inr [part_of_rest ct c])
              (\<lambda>parts. Inr (msg\<lparr>m_parts := parts, m_content_type := Some ct\<rparr>)))
        else bind_res (header code c msg) (\<lambda>(msg, c). decode_loop msg c)))"
  by pat_completeness auto
termination
  by (relation "measure (\<lambda>(msg, c). remaining c)") (auto dest!: short_integer.consumes header.consumes)

declare decode_loop.simps [simp del]

definition decode :: "u8 list \<Rightarrow> wsp_error + message" where
  "decode d =
     (if \<not> starts_with_message_type d then wsp_err 0 ''X-Mms-Message-Type header''
      else decode_loop message_default (cursor_new d))"

section \<open>Errors name a byte of the file\<close>

lemma decode_loop_err: "wf_cur c \<Longrightarrow> errs_within (length (cdata c)) (decode_loop msg c)"
proof (induction msg c rule: decode_loop.induct)
  case (1 msg c)
  have code: "reads_from (Suc 0) c (map_err (\<lambda>_. \<lparr>err_at = cpos c, err_what = w\<rparr>) (short_integer c))" for w
    using short_integer_reads [of c] by (cases "short_integer c") (auto simp: reads_from_def wf_cur_def)
  show ?case
    unfolding decode_loop.simps [of msg c] Let_def
  proof (rule errs_within_bind [OF code "1.prems" refl])
    fix code c1
    assume si: "map_err (\<lambda>_. \<lparr>err_at = cpos c, err_what = ''header field code''\<rparr>) (short_integer c) = Inr (code, c1)"
      and c1: "wf_cur c1" "cdata c1 = cdata c"
    have body: "errs_within (length (cdata c)) (bind_res (content_type c1) (\<lambda>(ct, c).
        bind_res (if is_multipart ct then map_res fst (multipart c) else Inr [part_of_rest ct c])
          (\<lambda>parts. Inr (msg\<lparr>m_parts := parts, m_content_type := Some ct\<rparr>))))"
    proof (rule errs_within_bind [OF content_type_reads c1])
      fix ct c2
      assume "wf_cur c2" "cdata c2 = cdata c"
      then show "errs_within (length (cdata c))
          (bind_res (if is_multipart ct then map_res fst (multipart c2) else Inr [part_of_rest ct c2])
            (\<lambda>parts. Inr (msg\<lparr>m_parts := parts, m_content_type := Some ct\<rparr>)))"
        using multipart_reads [of c2]
        by (cases "multipart c2") (auto simp: errs_within_def reads_from_def)
    qed
    have "errs_within (length (cdata c)) (bind_res (header code c1 msg) (\<lambda>(msg, c). decode_loop msg c))"
      if "code \<noteq> CONTENT_TYPE"
      using "1.IH" [OF refl si [unfolded refl] refl that _ refl]
      by (intro errs_within_bind [OF header_reads c1]) metis
    with body show "errs_within (length (cdata c))
        (if code = CONTENT_TYPE then bind_res (content_type c1) (\<lambda>(ct, c).
            bind_res (if is_multipart ct then map_res fst (multipart c) else Inr [part_of_rest ct c])
              (\<lambda>parts. Inr (msg\<lparr>m_parts := parts, m_content_type := Some ct\<rparr>)))
         else bind_res (header code c1 msg) (\<lambda>(msg, c). decode_loop msg c))"
      by simp
  qed
qed

lemma decode_error_offset: "decode d = Inl e \<Longrightarrow> err_at e \<le> length d"
  using decode_loop_err [of "cursor_new d" message_default]
  by (auto simp: decode_def errs_within_def wf_cur_def cursor_new_def wsp_err_def split: if_splits)

section \<open>What a decoded message holds\<close>

lemma named_part_data [simp]: "p_data (named_part_header name v p) = p_data p"
  by (simp add: named_part_header_def)

lemma part_headers_loop_data: "part_headers_loop p c = Inr q \<Longrightarrow> p_data q = p_data p"
proof (induction p c arbitrary: q rule: part_headers_loop.induct)
  case (1 p c)
  note IH = "1.IH"(1) [OF _ _ _ refl _ refl] "1.IH"(2) [OF _ _ refl refl _ refl]
    "1.IH"(3) [OF _ _ refl _ refl _ refl] "1.IH"(4) [OF _ _ refl _ _ refl _ refl _ refl]
  show ?case
    using "1.prems"
    by (auto simp: part_headers_loop.simps [of p c] bind_res_eq_Inr
        split: if_splits sum.splits)
      ((drule (3) IH(2) | drule (4) IH(3) | drule (6) IH(4) | drule (4) IH(1)), simp)+
qed

lemma part_from_headers_data: "part_from_headers h d = Inr p \<Longrightarrow> p_data p = d"
  by (auto simp: part_from_headers_def bind_res_eq_Inr dest!: part_headers_loop_data)

lemma take_bytes_Inr:
  "take_bytes n w c = Inr (v, c') \<longleftrightarrow>
     n \<le> remaining c \<and> v = take n (drop (cpos c) (cdata c)) \<and> c' = c\<lparr>cpos := cpos c + n\<rparr>"
  by (auto simp: take_bytes_def wsp_err_def)

text \<open>The bytes of the parts of a message.\<close>

definition part_bytes :: "part list \<Rightarrow> nat" where
  "part_bytes ps = sum_list (map (\<lambda>p. length (p_data p)) ps)"

lemma parts_loop_result:
  "parts_loop n ps c = Inr (ps', c') \<Longrightarrow>
   \<exists>qs. ps' = ps @ qs \<and> length qs = n \<and> part_bytes qs + cpos c \<le> cpos c' \<and> cdata c' = cdata c \<and>
     (\<forall>p \<in> set qs. sublist (p_data p) (cdata c))"
proof (induction n arbitrary: ps c)
  case 0
  then show ?case by (simp add: part_bytes_def)
next
  case (Suc n)
  from Suc.prems obtain h hl c1 dl c2 c3 c4 p where steps:
    "uintvar c = Inr (hl, c1)" "uintvar c1 = Inr (dl, c2)"
    "take_bytes (unat hl) ''part headers'' c2 = Inr (h, c3)"
    "take_bytes (unat dl) ''part data'' c3 = Inr (take (unat dl) (drop (cpos c3) (cdata c3)), c4)"
    "part_from_headers h (take (unat dl) (drop (cpos c3) (cdata c3))) = Inr p"
    "parts_loop n (ps @ [p]) c4 = Inr (ps', c')"
    by (fastforce simp: bind_res_eq_Inr take_bytes_Inr)
  from Suc.IH [OF steps(6)] obtain qs where qs: "ps' = (ps @ [p]) @ qs" "length qs = n"
    "part_bytes qs + cpos c4 \<le> cpos c'" "cdata c' = cdata c4" "\<forall>q \<in> set qs. sublist (p_data q) (cdata c4)"
    by blast
  have cur: "cpos c < cpos c1" "cpos c1 < cpos c2" "cdata c1 = cdata c" "cdata c2 = cdata c1"
    using uintvar.moves_on [OF steps(1)] uintvar.moves_on [OF steps(2)]
      uintvar.keeps_data [OF steps(1)] uintvar.keeps_data [OF steps(2)] by auto
  have p: "p_data p = take (unat dl) (drop (cpos c3) (cdata c3))"
    using part_from_headers_data [OF steps(5)] .
  have "sublist (p_data p) (cdata c)"
    using p steps(3) cur by (auto simp: take_bytes_Inr intro: sublist_order.order_trans [OF sublist_take sublist_drop])
  with qs cur p steps(3,4) show ?case
    by (intro exI [of _ "p # qs"]) (auto simp: part_bytes_def take_bytes_Inr)
qed

lemma multipart_result:
  assumes "multipart c = Inr (ps, c')"
  shows "length ps \<le> 256" "part_bytes ps \<le> remaining c" "\<forall>p \<in> set ps. sublist (p_data p) (cdata c)"
proof -
  obtain n c1 where n: "uintvar c = Inr (n, c1)" "\<not> 256 < n" "parts_loop (unat n) [] c1 = Inr (ps, c')"
    using assms by (auto simp: multipart_def bind_res_eq_Inr Let_def wsp_err_def split: if_splits)
  have c1: "cdata c1 = cdata c" "cpos c < cpos c1"
    using uintvar.keeps_data [OF n(1)] uintvar.moves_on [OF n(1)] by auto
  have c': "cpos c' \<le> length (cdata c)" using multipart.in_bounds [OF assms] .
  from parts_loop_result [OF n(3)] have ps: "length ps = unat n" "part_bytes ps + cpos c1 \<le> cpos c'"
    "\<forall>p \<in> set ps. sublist (p_data p) (cdata c1)"
    by auto
  have "unat n \<le> 256" using n(2) by (simp add: not_less word_le_nat_alt)
  with ps c1 c' show "length ps \<le> 256" "part_bytes ps \<le> remaining c"
    "\<forall>p \<in> set ps. sublist (p_data p) (cdata c)"
    by (auto simp: remaining_def)
qed

lemma header_keeps:
  assumes "header code c msg = Inr (msg', c')"
  shows "m_parts msg' = m_parts msg" "m_content_type msg' = m_content_type msg"
    "m_type msg \<noteq> None \<Longrightarrow> m_type msg' \<noteq> None"
    "code = MESSAGE_TYPE \<Longrightarrow> m_type msg' \<noteq> None"
  using assms by (auto simp: header_def bind_res_eq_Inr wsp_err_def split: if_splits option.splits)

text \<open>What the body of a decoded message is, for the bytes the decoder was given.\<close>

definition body_of_bytes :: "u8 list \<Rightarrow> message \<Rightarrow> bool" where
  "body_of_bytes d m \<longleftrightarrow>
     (case m_content_type m of
        None \<Rightarrow> False
      | Some ct \<Rightarrow>
          if is_multipart ct then length (m_parts m) \<le> 256
          else (case m_parts m of [p] \<Rightarrow> p_content_type p = ct \<and> suffix (p_data p) d | _ \<Rightarrow> False))
     \<and> part_bytes (m_parts m) \<le> length d \<and> (\<forall>p \<in> set (m_parts m). sublist (p_data p) d)"

lemma decode_loop_result:
  "decode_loop msg c = Inr m \<Longrightarrow>
     body_of_bytes (cdata c) m \<and> (m_type msg \<noteq> None \<longrightarrow> m_type m \<noteq> None)"
proof (induction msg c arbitrary: m rule: decode_loop.induct)
  case (1 msg c)
  then obtain code c1 where si: "short_integer c = Inr (code, c1)"
    by (auto simp: decode_loop.simps [of msg c] Let_def bind_res_eq_Inr)
  have c1: "cdata c1 = cdata c" using short_integer.keeps_data [OF si] .
  show ?case
  proof (cases "code = CONTENT_TYPE")
    case True
    with "1.prems" si obtain ct c2 ps where ct: "content_type c1 = Inr (ct, c2)"
      "(if is_multipart ct then map_res fst (multipart c2) else Inr [part_of_rest ct c2]) = Inr ps"
      "m = msg\<lparr>m_parts := ps, m_content_type := Some ct\<rparr>"
      by (auto simp: decode_loop.simps [of msg c] Let_def bind_res_eq_Inr)
    have c2: "cdata c2 = cdata c" using content_type.keeps_data [OF ct(1)] c1 by simp
    show ?thesis
    proof (cases "is_multipart ct")
      case True
      then obtain c3 where "multipart c2 = Inr (ps, c3)"
        using ct(2) by (cases "multipart c2") auto
      from multipart_result [OF this] True ct(3) c2 show ?thesis
        by (auto simp: body_of_bytes_def remaining_def)
    next
      case False
      then show ?thesis
        using ct c2 by (auto simp: body_of_bytes_def part_of_rest_def part_bytes_def suffix_drop)
    qed
  next
    case False
    with "1.prems" si obtain msg' c2 where h: "header code c1 msg = Inr (msg', c2)"
      "decode_loop msg' c2 = Inr m"
      by (auto simp: decode_loop.simps [of msg c] Let_def bind_res_eq_Inr)
    have "map_err (\<lambda>_. \<lparr>err_at = cpos c, err_what = w\<rparr>) (short_integer c) = Inr (code, c1)" for w
      using si by simp
    from "1.IH" [OF refl this refl False h(1) refl h(2)] header_keeps [OF h(1)]
      header.keeps_data [OF h(1)] c1
    show ?thesis by simp
  qed
qed

lemma decode_result:
  assumes "decode d = Inr m"
  shows "body_of_bytes d m \<and> m_type m \<noteq> None"
proof -
  from assms have start: "starts_with_message_type d" "decode_loop message_default (cursor_new d) = Inr m"
    by (auto simp: decode_def wsp_err_def split: if_splits)
  then obtain ds where d: "d = (MESSAGE_TYPE OR 0x80) # ds"
    by (cases d) (auto simp: starts_with_message_type_def)
  have si: "short_integer (cursor_new d) = Inr (MESSAGE_TYPE, (cursor_new d)\<lparr>cpos := 1\<rparr>)"
    by (simp add: d short_integer_def peek_def cursor_new_def high_bit_def MESSAGE_TYPE_def)
  have "MESSAGE_TYPE \<noteq> CONTENT_TYPE" by (simp add: field_codes)
  with start si obtain msg' c2 where h: "header MESSAGE_TYPE ((cursor_new d)\<lparr>cpos := 1\<rparr>) message_default = Inr (msg', c2)"
    "decode_loop msg' c2 = Inr m"
    by (auto simp: decode_loop.simps [of message_default "cursor_new d"] Let_def bind_res_eq_Inr)
  from decode_loop_result [OF h(2)] header_keeps(4) [OF h(1)] header.keeps_data [OF h(1)]
  show ?thesis by (simp add: cursor_new_def)
qed

text \<open>The codes the table and the match arms know, and the ones that end in an error.\<close>

definition known_code :: "u8 \<Rightarrow> bool" where
  "known_code code \<longleftrightarrow> code \<noteq> 0 \<and> code < 0x40 \<and> code \<noteq> 0x2e \<and> code \<noteq> 0x30 \<and> code \<noteq> CONTENT_TYPE"

definition header_codes :: "u8 list" where
  "header_codes = [MESSAGE_TYPE, FROM, TO, CC, BCC, DATE, SUBJECT] @ map fst header_table"

lemma header_codes_below: "list_all (\<lambda>code. code < 0x40) header_codes"
  unfolding header_codes_def header_table_def field_codes by simp

lemma header_codes_low:
  "list_all (\<lambda>n. (word_of_nat n \<in> set header_codes) = known_code (word_of_nat n)) [0..<64]"
  by code_simp

lemma header_codes_known: "set header_codes = {code. known_code code}"
proof -
  have "code \<in> set header_codes \<longleftrightarrow> known_code code" for code
  proof (cases "code < 0x40")
    case True
    then have "unat code \<in> set [0..<64]" by (simp add: word_less_nat_alt)
    with header_codes_low have
      "(word_of_nat (unat code) \<in> set header_codes) = known_code (word_of_nat (unat code))"
      unfolding list_all_iff by (rule bspec)
    moreover have "word_of_nat (unat code) = code" by simp
    ultimately show ?thesis by (simp only:)
  next
    case False
    then show ?thesis using header_codes_below by (auto simp: list_all_iff known_code_def)
  qed
  then show ?thesis by blast
qed

lemma header_unknown: "\<not> known_code code \<Longrightarrow> code \<noteq> CONTENT_TYPE \<Longrightarrow>
  header code c msg = wsp_err (cpos c - 1) ''unknown header field code''"
proof -
  assume "\<not> known_code code"
  then have code: "code \<notin> set header_codes" by (simp add: header_codes_known)
  then have "map_of header_table code = None" by (auto simp: header_codes_def map_of_eq_None_iff)
  with code show ?thesis by (simp add: header_codes_def header_def)
qed
end
