(* ===== verification/MmsParts.thy ===== *)
theory MmsParts
  imports Utf8
begin

text \<open>
  Which parts of an MMS are its text and which are attachments
  (\<open>crates/libs/mms-parts/src/lib.rs\<close>). The \<open>src\<close> values of a SMIL document come from a
  pattern of the regex crate, so the function that finds them is an argument \<open>srcs\<close>.
\<close>

datatype content = NoContent | TextContent string | BytesContent "u8 list" | Unreadable

record mms_part =
  mp_content_type :: string
  mp_keys :: "string list"
  mp_content :: content

record body =
  body_text :: string
  attachments :: "nat list"
  unreadable :: "nat list"

definition media_type :: "string \<Rightarrow> string" where
  "media_type ct = to_ascii_lowercase (trim (hd (split_on CHR '';'' ct)))"

definition is_text :: "string \<Rightarrow> bool" where
  "is_text ct \<longleftrightarrow> media_type ct = ''text/plain''"

definition is_smil :: "string \<Rightarrow> bool" where
  "is_smil ct \<longleftrightarrow> media_type ct = ''application/smil''"

section \<open>The order the SMIL gives\<close>

text \<open>
  \<open>src.get(..4)\<close> is \<open>None\<close> also when byte 4 is inside a character, and then the four bytes
  are not ASCII and no \<open>cid:\<close> either.
\<close>

definition src_key :: "string \<Rightarrow> string" where
  "src_key src =
     (let src = trim src
      in if 4 \<le> length src \<and> eq_ignore_ascii_case (take 4 src) ''cid:'' then drop 4 src else src)"

definition key_name :: "string \<Rightarrow> string" where
  "key_name key =
     (let key = trim key
      in trim (case strip_prefix ''<'' key of
           None \<Rightarrow> key
         | Some k \<Rightarrow> (case strip_suffix ''>'' k of None \<Rightarrow> key | Some k \<Rightarrow> k)))"

fun part_names_loop :: "string list \<Rightarrow> string list \<Rightarrow> string list" where
  "part_names_loop [] names = names"
| "part_names_loop (key # keys) names =
     (let key = key_name key
      in if key = [] \<or> eq_ignore_ascii_case key ''null'' \<or> eq_ignore_ascii_case key ''none''
         then part_names_loop keys names
         else
           (let names = names @ [key];
                base = last (split_on CHR ''/'' key)
            in part_names_loop keys (if base \<noteq> [] \<and> base \<noteq> key then names @ [base] else names)))"

definition part_names :: "mms_part \<Rightarrow> string list" where
  "part_names p = part_names_loop (mp_keys p) []"

definition smil_document :: "content \<Rightarrow> string option" where
  "smil_document c =
     (case c of
        TextContent text \<Rightarrow> Some text
      | BytesContent bytes \<Rightarrow> Some (utf8_lossy bytes)
      | NoContent \<Rightarrow> None
      | Unreadable \<Rightarrow> None)"

text \<open>\<open>(0..n).find(p)\<close>.\<close>

definition find_index :: "(nat \<Rightarrow> bool) \<Rightarrow> nat \<Rightarrow> nat option" where
  "find_index p n = find p [0..<n]"

text \<open>The loop over the \<open>src\<close> values: a part is taken by the first value that names it.\<close>

fun name_loop ::
  "mms_part list \<Rightarrow> nat \<Rightarrow> string list \<Rightarrow> bool list \<Rightarrow> int list \<Rightarrow> int list" where
  "name_loop parts pos [] named rank = rank"
| "name_loop parts pos (src # srcs) named rank =
     (case find_index (\<lambda>i. \<not> named ! i \<and> \<not> is_smil (mp_content_type (parts ! i)) \<and>
               src_key src \<in> set (part_names (parts ! i))) (length parts) of
        Some i \<Rightarrow> name_loop parts (pos + 1) srcs (named[i := True]) (rank[i := int pos])
      | None \<Rightarrow> name_loop parts (pos + 1) srcs named rank)"

text \<open>
  A rank is a \<open>usize\<close>; the sum \<open>usize::MAX / 2 + i\<close> does not wrap, a vector being shorter
  than \<open>2^63\<close>, so ranks are integers.
\<close>

definition unnamed_rank :: int where
  "unnamed_rank = 9223372036854775807"

definition smil_rank :: "(string \<Rightarrow> string list) \<Rightarrow> mms_part list \<Rightarrow> int list" where
  "smil_rank srcs parts =
     (let rank = map (\<lambda>i. unnamed_rank + int i) [0..<length parts]
      in case find (\<lambda>p. is_smil (mp_content_type p)) parts of
           None \<Rightarrow> rank
         | Some smil \<Rightarrow>
             (case smil_document (mp_content smil) of
                None \<Rightarrow> rank
              | Some doc \<Rightarrow> name_loop parts 0 (srcs doc) (replicate (length parts) False) rank))"

section \<open>Text and attachments\<close>

fun body_loop :: "mms_part list \<Rightarrow> nat list \<Rightarrow> string list \<Rightarrow> body \<Rightarrow> string list \<times> body" where
  "body_loop parts [] texts b = (texts, b)"
| "body_loop parts (index # order) texts b =
     (let part = parts ! index
      in if is_smil (mp_content_type part) then body_loop parts order texts b
         else if is_text (mp_content_type part) then
           (case mp_content part of
              TextContent text \<Rightarrow> body_loop parts order (if text \<noteq> [] then texts @ [text] else texts) b
            | BytesContent bytes \<Rightarrow>
                (let text = utf8_lossy bytes
                 in body_loop parts order (if text \<noteq> [] then texts @ [text] else texts) b)
            | Unreadable \<Rightarrow> body_loop parts order texts (b\<lparr>unreadable := unreadable b @ [index]\<rparr>)
            | NoContent \<Rightarrow> body_loop parts order texts b)
         else
           (case mp_content part of
              TextContent text \<Rightarrow>
                body_loop parts order texts
                  (if text \<noteq> [] then b\<lparr>attachments := attachments b @ [index]\<rparr> else b)
            | BytesContent _ \<Rightarrow> body_loop parts order texts (b\<lparr>attachments := attachments b @ [index]\<rparr>)
            | Unreadable \<Rightarrow> body_loop parts order texts (b\<lparr>unreadable := unreadable b @ [index]\<rparr>)
            | NoContent \<Rightarrow> body_loop parts order texts b))"

definition part_order :: "(string \<Rightarrow> string list) \<Rightarrow> mms_part list \<Rightarrow> nat list" where
  "part_order srcs parts = (let rank = smil_rank srcs parts in sort_key (\<lambda>i. rank ! i) [0..<length parts])"

definition body_of :: "(string \<Rightarrow> string list) \<Rightarrow> mms_part list \<Rightarrow> body" where
  "body_of srcs parts =
     (case body_loop parts (part_order srcs parts) [] \<lparr>body_text = [], attachments = [], unreadable = []\<rparr> of
        (texts, b) \<Rightarrow> b\<lparr>unreadable := sort (unreadable b), body_text := join [CHR 0x0A] texts\<rparr>)"

section \<open>What the loop collects\<close>

text \<open>The specification of the rules, part by part.\<close>

definition text_of :: "mms_part \<Rightarrow> string option" where
  "text_of p =
     (if is_smil (mp_content_type p) \<or> \<not> is_text (mp_content_type p) then None
      else (case smil_document (mp_content p) of Some t \<Rightarrow> if t \<noteq> [] then Some t else None | None \<Rightarrow> None))"

definition is_attachment :: "mms_part \<Rightarrow> bool" where
  "is_attachment p \<longleftrightarrow>
     \<not> is_smil (mp_content_type p) \<and> \<not> is_text (mp_content_type p) \<and>
     mp_content p \<noteq> NoContent \<and> mp_content p \<noteq> Unreadable \<and> mp_content p \<noteq> TextContent []"

definition is_unreadable :: "mms_part \<Rightarrow> bool" where
  "is_unreadable p \<longleftrightarrow> \<not> is_smil (mp_content_type p) \<and> mp_content p = Unreadable"

lemma body_loop_eq:
  "body_loop parts order texts b =
     (texts @ List.map_filter (\<lambda>i. text_of (parts ! i)) order,
      b\<lparr>attachments := attachments b @ filter (\<lambda>i. is_attachment (parts ! i)) order,
        unreadable := unreadable b @ filter (\<lambda>i. is_unreadable (parts ! i)) order\<rparr>)"
proof (induction order arbitrary: texts b)
  case (Cons i order)
  then show ?case
    by (auto simp: text_of_def is_attachment_def is_unreadable_def smil_document_def Let_def
        map_filter_simps split: content.splits option.splits)
qed (simp add: map_filter_simps)

lemma body_of_eq:
  "body_of srcs parts =
     \<lparr>body_text = join [CHR 0x0A] (List.map_filter (\<lambda>i. text_of (parts ! i)) (part_order srcs parts)),
      attachments = filter (\<lambda>i. is_attachment (parts ! i)) (part_order srcs parts),
      unreadable = sort (filter (\<lambda>i. is_unreadable (parts ! i)) (part_order srcs parts))\<rparr>"
  by (simp add: body_of_def body_loop_eq)

lemma part_order_set: "set (part_order srcs parts) = {0..<length parts}" "distinct (part_order srcs parts)"
  by (simp_all add: part_order_def Let_def)

section \<open>The ranks\<close>

lemma find_index_Some: "find_index p n = Some i \<Longrightarrow> i < n \<and> p i \<and> (\<forall>j < i. \<not> p j)"
  by (auto simp: find_index_def find_Some_iff)

text \<open>
  A part that was named has the position of a \<open>src\<close>, each position given once; a part that
  was not keeps its own rank behind all positions.
\<close>

definition ranks_ok :: "nat \<Rightarrow> bool list \<Rightarrow> int list \<Rightarrow> bool" where
  "ranks_ok pos named rank \<longleftrightarrow>
     length named = length rank \<and>
     (\<forall>i < length rank.
        if named ! i then 0 \<le> rank ! i \<and> rank ! i < int pos else rank ! i = unnamed_rank + int i) \<and>
     (\<forall>i < length rank. \<forall>j < length rank. named ! i \<longrightarrow> named ! j \<longrightarrow> rank ! i = rank ! j \<longrightarrow> i = j)"

lemma ranks_ok_init: "ranks_ok 0 (replicate n False) (map (\<lambda>i. unnamed_rank + int i) [0..<n])"
  by (simp add: ranks_ok_def)

lemma ranks_ok_mono: "ranks_ok pos named rank \<Longrightarrow> pos \<le> p \<Longrightarrow> ranks_ok p named rank"
  unfolding ranks_ok_def by (fastforce split: if_splits)

lemma ranks_ok_name:
  assumes "ranks_ok pos named rank" "i < length rank" "\<not> named ! i"
  shows "ranks_ok (Suc pos) (named[i := True]) (rank[i := int pos])"
  using assms unfolding ranks_ok_def
  by (auto simp: nth_list_update split: if_splits)

lemma name_loop_ranks:
  "ranks_ok pos named rank \<Longrightarrow> length rank = length parts \<Longrightarrow>
   \<exists>named'. ranks_ok (pos + length srcs) named' (name_loop parts pos srcs named rank) \<and>
     length (name_loop parts pos srcs named rank) = length parts"
proof (induction srcs arbitrary: pos named rank)
  case Nil
  then show ?case by auto
next
  case (Cons src srcs)
  show ?case
  proof (cases "find_index (\<lambda>i. \<not> named ! i \<and> \<not> is_smil (mp_content_type (parts ! i)) \<and>
      src_key src \<in> set (part_names (parts ! i))) (length parts)")
    case None
    with Cons.IH [OF ranks_ok_mono [OF Cons.prems(1)], of "Suc pos"] Cons.prems show ?thesis by simp
  next
    case (Some i)
    then have i: "i < length rank" "\<not> named ! i"
      using find_index_Some [OF Some] Cons.prems by auto
    with Some Cons.IH [OF ranks_ok_name [OF Cons.prems(1) i]] Cons.prems show ?thesis by simp
  qed
qed

lemma smil_rank_ok:
  assumes "\<And>doc. length (srcs doc) \<le> m"
  shows "\<exists>named. ranks_ok m named (smil_rank srcs parts) \<and> length (smil_rank srcs parts) = length parts"
proof -
  have init: "ranks_ok m (replicate (length parts) False) (map (\<lambda>i. unnamed_rank + int i) [0..<length parts])"
    using ranks_ok_mono [OF ranks_ok_init] by simp
  have "\<exists>named. ranks_ok m named (name_loop parts 0 (srcs doc) (replicate (length parts) False)
      (map (\<lambda>i. unnamed_rank + int i) [0..<length parts])) \<and>
    length (name_loop parts 0 (srcs doc) (replicate (length parts) False)
      (map (\<lambda>i. unnamed_rank + int i) [0..<length parts])) = length parts" for doc
    using name_loop_ranks [OF ranks_ok_init, of "length parts" parts "srcs doc"] ranks_ok_mono [OF _ assms [of doc]]
    by auto
  with init show ?thesis
    unfolding smil_rank_def Let_def by (auto split: option.splits)
qed

lemma smil_rank_distinct:
  assumes "\<And>doc. int (length (srcs doc)) \<le> unnamed_rank"
  shows "distinct (smil_rank srcs parts)"
proof -
  obtain named where "ranks_ok (nat unnamed_rank) named (smil_rank srcs parts)"
    using smil_rank_ok [of srcs "nat unnamed_rank" parts] assms by (auto simp: unnamed_rank_def)
  then show ?thesis
    unfolding distinct_conv_nth ranks_ok_def
    by (auto simp: unnamed_rank_def split: if_splits) (smt (verit) of_nat_less_0_iff of_nat_eq_iff)+
qed

text \<open>Without a SMIL part the parts keep their order.\<close>

lemma part_order_no_smil:
  assumes "\<forall>p \<in> set parts. \<not> is_smil (mp_content_type p)"
  shows "part_order srcs parts = [0..<length parts]"
proof -
  have "find (\<lambda>p. is_smil (mp_content_type p)) parts = None"
    using assms by (simp add: find_None_iff)
  then have "part_order srcs parts = sort_key (\<lambda>i. map (\<lambda>i. unnamed_rank + int i) [0..<length parts] ! i) [0..<length parts]"
    by (simp add: part_order_def smil_rank_def Let_def)
  also have "\<dots> = [0..<length parts]"
    by (rule sort_key_id_if_sorted) (simp add: sorted_iff_nth_mono)
  finally show ?thesis .
qed

end
