(* ===== verification/Pdu.thy ===== *)
theory Pdu
  imports Mms MmsParts
begin

text \<open>
  A GO SMS Pro \<open>.pdu\<close> file as one message (\<open>crates/libs/go-sms-mms/src/pdu.rs\<close>) and the
  emoji escapes of its text (\<open>emoji.rs\<close>). The escape pattern \<open>\+g([0-9a-fA-F]+)\<close> is read as
  its leftmost match with the longest run of digits. A path is a UTF-8 string or bytes that
  \<open>to_str\<close> refuses; the file read is an argument.
\<close>

section \<open>Emoji escapes\<close>

definition hex_val :: "char \<Rightarrow> nat" where
  "hex_val c =
     (if is_ascii_digit c then ord c - 48
      else if is_ascii_lower c then ord c - 87 else ord c - 55)"

definition hex_number :: "string \<Rightarrow> nat" where
  "hex_number s = foldl (\<lambda>acc c. acc * 16 + hex_val c) 0 s"

text \<open>\<open>char::from_u32\<close>, as the UTF-8 text of the character.\<close>

definition char_from_u32 :: "nat \<Rightarrow> string option" where
  "char_from_u32 n =
     (if n < 0x110000 \<and> \<not> (0xD800 \<le> n \<and> n < 0xE000) then Some (utf8_encode n) else None)"

definition hex_code_to_char :: "string \<Rightarrow> string option" where
  "hex_code_to_char h =
     (let n = hex_number h in if n < 2 ^ 32 then char_from_u32 n else None)"

function decode_gosms_emojis :: "string \<Rightarrow> string" where
  "decode_gosms_emojis s =
     (case strip_prefix ''+g'' s of
        Some r \<Rightarrow>
          (let h = takeWhile is_ascii_hexdigit r
           in if h \<noteq> [] then unwrap_or (''+g'' @ h) (hex_code_to_char h) @ decode_gosms_emojis (drop (length h) r)
              else ''+g'' @ decode_gosms_emojis r)
      | None \<Rightarrow> (case s of [] \<Rightarrow> [] | c # s \<Rightarrow> c # decode_gosms_emojis s))"
  by pat_completeness auto
termination
  by (relation "measure length") (auto simp: strip_prefix_Some)

declare decode_gosms_emojis.simps [simp del]

section \<open>Messages\<close>

record parsed_attachment =
  pa_content_type :: string
  pa_name :: "string option"
  pa_data :: "u8 list"

record parsed_pdu =
  pp_path :: string
  pp_timestamp :: int
  pp_is_sent :: bool
  pp_sender :: "string option"
  pp_recipients :: "string list"
  pp_body :: string
  pp_attachments :: "parsed_attachment list"
  pp_fields :: "string \<rightharpoonup> string"

datatype 'io pdu_error = ReadErr 'io | Stub | Malformed wsp_error | NotAMessage string

definition address_value :: "string \<Rightarrow> string option" where
  "address_value addr =
     (let base = trim (hd (split_on CHR ''/'' addr)) in if base \<noteq> [] then Some base else None)"

text \<open>\<open>Path::file_name\<close>: the last component, which empty and \<open>.\<close> ones are not; \<open>..\<close> has no
  name. \<open>to_str\<close> asks for UTF-8.\<close>

definition file_name_str :: "string \<Rightarrow> string option" where
  "file_name_str path =
     (case rev (filter (\<lambda>s. s \<noteq> [] \<and> s \<noteq> ''.'') (split_on CHR ''/'' path)) of
        [] \<Rightarrow> None
      | s # _ \<Rightarrow> if s = ''..'' \<or> \<not> valid_utf8 (as_bytes s) then None else Some s)"

definition timestamp_from_filename :: "string \<Rightarrow> int option" where
  "timestamp_from_filename path =
     (case file_name_str path of
        None \<Rightarrow> None
      | Some name \<Rightarrow>
          (case or_opt (strip_prefix ''I_'' name) (strip_prefix ''S_'' name) of
             None \<Rightarrow> None
           | Some r \<Rightarrow> parse_signed 64 (hd (split_on CHR ''_'' r))))"

definition option_list :: "'a option \<Rightarrow> 'a list" where
  "option_list x = (case x of None \<Rightarrow> [] | Some y \<Rightarrow> [y])"

definition shaped_part :: "part \<Rightarrow> mms_part" where
  "shaped_part p =
     \<lparr>mp_content_type = media (p_content_type p),
      mp_keys = option_list (params (p_content_type p) ''Filename'') @
        option_list (params (p_content_type p) ''Name'') @
        option_list (p_content_location p) @ option_list (p_content_id p),
      mp_content =
        (if is_text (media (p_content_type p)) then
           TextContent (decode_gosms_emojis (trim (trim_matches (CHR 0x00)
             (decode_text (p_data p) (ct_charset (p_content_type p))))))
         else BytesContent (p_data p))\<rparr>"

definition attachment :: "part \<Rightarrow> parsed_attachment" where
  "attachment p =
     \<lparr>pa_content_type = media (p_content_type p), pa_name = part_name p, pa_data = p_data p\<rparr>"

fun recipients_loop :: "string list \<Rightarrow> string list \<Rightarrow> string list" where
  "recipients_loop [] rs = rs"
| "recipients_loop (addr # addrs) rs =
     (case address_value addr of
        Some d \<Rightarrow> recipients_loop addrs (if d \<notin> set rs then rs @ [d] else rs)
      | None \<Rightarrow> recipients_loop addrs rs)"

definition sent_of :: "message_type option \<Rightarrow> 'io pdu_error + bool" where
  "sent_of t =
     (case t of
        Some SendReq \<Rightarrow> Inr True
      | Some RetrieveConf \<Rightarrow> Inr False
      | Some (OtherType c) \<Rightarrow> Inl (NotAMessage (type_name (OtherType c)))
      | None \<Rightarrow> Inl (NotAMessage ''a PDU without a type''))"

definition parse_pdu_bytes ::
  "(string \<Rightarrow> string list) \<Rightarrow> string \<Rightarrow> u8 list \<Rightarrow> 'io pdu_error + parsed_pdu" where
  "parse_pdu_bytes srcs path data =
     (if \<not> starts_with_message_type data then Inl Stub
      else bind_res (map_err Malformed (decode data)) (\<lambda>msg.
        bind_res (sent_of (m_type msg)) (\<lambda>is_sent.
          let sender = Option.bind (m_from msg) address_value;
              recipients = recipients_loop (m_to msg @ m_cc msg @ m_bcc msg) [];
              timestamp =
                unwrap_or 0
                  (or_opt (Option.bind (m_date msg) (\<lambda>d. if unat d < 2 ^ 63 then Some (int (unat d)) else None))
                    (timestamp_from_filename path));
              parts_body = body_of srcs (map shaped_part (m_parts msg));
              atts = map (\<lambda>i. attachment (m_parts msg ! i)) (attachments parts_body);
              body_t =
                (if body_text parts_body = [] then
                   unwrap_or [] (map_option (\<lambda>s. decode_gosms_emojis (trim s)) (m_subject msg))
                 else body_text parts_body);
              fields = m_headers msg;
              fields = (case m_subject msg of Some s \<Rightarrow> fields(''subject'' \<mapsto> s) | None \<Rightarrow> fields);
              fields = (case m_type msg of Some t \<Rightarrow> fields(''message-type'' \<mapsto> type_name t) | None \<Rightarrow> fields);
              fields = (case m_content_type msg of Some ct \<Rightarrow> fields(''content-type'' \<mapsto> media ct) | None \<Rightarrow> fields)
          in Inr \<lparr>pp_path = path, pp_timestamp = timestamp, pp_is_sent = is_sent, pp_sender = sender,
                  pp_recipients = recipients, pp_body = body_t, pp_attachments = atts,
                  pp_fields = fields\<rparr>)))"

definition parse_pdu_file ::
  "(string \<Rightarrow> string list) \<Rightarrow> (string \<Rightarrow> 'io + u8 list) \<Rightarrow> string \<Rightarrow> 'io pdu_error + parsed_pdu" where
  "parse_pdu_file srcs read path = bind_res (map_err ReadErr (read path)) (parse_pdu_bytes srcs path)"

section \<open>Recipients\<close>

lemma recipients_loop_distinct: "distinct rs \<Longrightarrow> distinct (recipients_loop as rs)"
  by (induction as rs rule: recipients_loop.induct) (auto split: option.splits)

lemma recipients_loop_set:
  "set (recipients_loop as rs) = set rs \<union> {d. \<exists>a \<in> set as. address_value a = Some d}"
  by (induction as rs rule: recipients_loop.induct) (auto split: option.splits)

end
