(* ===== verification/WspEncode.thy ===== *)
theory WspEncode
  imports WspMultipart
begin

text \<open>
  The encoders of \<open>crates/libs/go-sms-mms/src/testutil.rs\<close>, which write a PDU the way a phone
  does, and the round trips of the value shapes: a reader at the start of an encoding
  returns the value and stops right after it, whatever comes before and behind.
\<close>

unbundle bit_operations_syntax

section \<open>A cursor between two byte lists\<close>

definition cur_at :: "u8 list \<Rightarrow> u8 list \<Rightarrow> cursor" where
  "cur_at pre rest = \<lparr>cdata = pre @ rest, cpos = length pre\<rparr>"

definition reads_as :: "'a reader \<Rightarrow> u8 list \<Rightarrow> 'a \<Rightarrow> bool" where
  "reads_as rd u v \<longleftrightarrow> (\<forall>pre rest. rd (cur_at pre (u @ rest)) = Inr (v, cur_at (pre @ u) rest))"

named_theorems cur_simps "what a reader does at a cursor between two byte lists"

lemma cursor_new_cur_at [cur_simps]: "cursor_new d = cur_at [] d"
  by (simp add: cursor_new_def cur_at_def)

lemma cur_at_sel [cur_simps]:
  "cpos (cur_at pre rest) = length pre"
  "cdata (cur_at pre rest) = pre @ rest"
  "remaining (cur_at pre rest) = length rest"
  "wf_cur (cur_at pre rest)"
  by (simp_all add: cur_at_def remaining_def wf_cur_def)

lemma cur_at_set_pos:
  "(cur_at (pre @ u) rest)\<lparr>cpos := length pre + length u\<rparr> = cur_at (pre @ u) rest"
  by (simp add: cur_at_def)

lemma peek_cur_at [cur_simps]:
  "peek (cur_at pre (b # r)) = Some b"
  "peek (cur_at pre []) = None"
  by (simp_all add: peek_def cur_at_def nth_opt_def)

lemma next_byte_cur_at [cur_simps]:
  "next_byte w (cur_at pre (b # r)) = Inr (b, cur_at (pre @ [b]) r)"
  by (simp add: next_byte_def peek_def remaining_def nth_opt_def cur_at_def)

lemma take_bytes_cur_at:
  "length u = n \<Longrightarrow> take_bytes n w (cur_at pre (u @ rest)) = Inr (u, cur_at (pre @ u) rest)"
  by (simp add: take_bytes_def peek_def remaining_def nth_opt_def cur_at_def)

lemma short_integer_cur_at [cur_simps]:
  "high_bit b \<Longrightarrow> short_integer (cur_at pre (b # r)) = Inr (b AND 0x7f, cur_at (pre @ [b]) r)"
  by (simp add: short_integer_def peek_def remaining_def nth_opt_def cur_at_def)

lemma reads_asD: "reads_as rd u v \<Longrightarrow> rd (cur_at pre (u @ rest)) = Inr (v, cur_at (pre @ u) rest)"
  by (simp add: reads_as_def)

lemma reads_as_bind:
  "reads_as m u1 v1 \<Longrightarrow> reads_as (f v1) u2 v2 \<Longrightarrow>
   reads_as (\<lambda>c. bind_res (m c) (\<lambda>(v, c). f v c)) (u1 @ u2) v2"
  by (simp add: reads_as_def)

section \<open>The contract of an encoder and its reader\<close>

locale shape_codec = shape_reader rd for rd :: "'b reader" +
  fixes enc :: "'a \<Rightarrow> u8 list" and view :: "'a \<Rightarrow> 'b" and ok :: "'a \<Rightarrow> bool"
  assumes round_trip: "ok v \<Longrightarrow> reads_as rd (enc v) (view v)"
begin

lemma read_back: "ok v \<Longrightarrow> rd (cur_at pre (enc v @ rest)) = Inr (view v, cur_at (pre @ enc v) rest)"
  using round_trip by (rule reads_asD)

lemma nonempty: "ok v \<Longrightarrow> enc v \<noteq> []"
  using moves_on [of "cur_at [] (enc v)" "view v" "cur_at (enc v) []"] read_back [of v "[]" "[]"]
  by (auto simp: cur_simps)

text \<open>No encoding is a prefix of another one's, so encodings in a row can be told apart.\<close>

lemma prefix_free:
  assumes "ok v" "ok w" "enc v @ r = enc w @ s"
  shows "view v = view w" "r = s"
proof -
  have "(view v, cur_at (enc v) r) = (view w, cur_at (enc w) s)"
    using read_back [OF assms(1), of "[]" r] read_back [OF assms(2), of "[]" s] assms(3) by simp
  then show "view v = view w" "r = s" using assms(3) by (auto simp: cur_at_def)
qed

end

section \<open>Uintvar\<close>

lemma unat_drop7: "unat (drop_bit 7 v) = unat (v :: u64) div 128"
  by (simp add: drop_bit_eq_div unat_div_distrib)

lemma drop7_decreases: "0 < v \<Longrightarrow> unat (drop_bit 7 v) < unat (v :: u64)"
proof -
  assume "0 < v"
  then have "0 < unat v" by (simp add: unat_gt_0 word_gt_0)
  then show ?thesis by (simp add: unat_drop7)
qed

lemma or_80: "x OR 0x80 = set_bit 7 (x :: 'a::len word)"
  by (simp add: set_bit_eq_or)

lemma and_80: "x AND 0x80 = 0 \<longleftrightarrow> \<not> bit (x :: 'a::len word) 7"
  using and_exp_eq_0_iff_not_bit [of x 7] by simp

function uv_loop :: "u64 \<Rightarrow> u8 list \<Rightarrow> u8 list" where
  "uv_loop v bytes =
     (if 0 < v then uv_loop (drop_bit 7 v) (bytes @ [ucast (v AND 0x7f) OR 0x80]) else bytes)"
  by pat_completeness auto
termination
  by (relation "measure (\<lambda>(v, bytes). unat v)") (use drop7_decreases in auto)

declare uv_loop.simps [simp del]

definition enc_uintvar :: "u8 list \<Rightarrow> u64 \<Rightarrow> u8 list" where
  "enc_uintvar out v = out @ rev (uv_loop (drop_bit 7 v) [ucast (v AND 0x7f)])"

text \<open>The continuation bytes in the order they are written.\<close>

function cont_bytes :: "u64 \<Rightarrow> u8 list" where
  "cont_bytes v = (if 0 < v then cont_bytes (drop_bit 7 v) @ [ucast (v AND 0x7f) OR 0x80] else [])"
  by pat_completeness auto
termination
  by (relation "measure unat") (use drop7_decreases in auto)

declare cont_bytes.simps [simp del]

lemma uv_loop_eq: "rev (uv_loop v bytes) = cont_bytes v @ rev bytes"
proof (induction v bytes rule: uv_loop.induct)
  case (1 v bytes)
  then show ?case by (simp add: uv_loop.simps [of v bytes] cont_bytes.simps [of v])
qed

lemma enc_uintvar_eq:
  "enc_uintvar out v = out @ cont_bytes (drop_bit 7 v) @ [ucast (v AND 0x7f)]"
  by (simp add: enc_uintvar_def uv_loop_eq)

lemma cont_bytes_length: "unat v < 128 ^ k \<Longrightarrow> length (cont_bytes v) \<le> k"
proof (induction k arbitrary: v)
  case 0
  then show ?case by (simp add: cont_bytes.simps unat_eq_0)
next
  case (Suc k)
  then have "unat (drop_bit 7 v) < 128 ^ k"
    by (simp add: unat_drop7 less_mult_imp_div_less mult.commute)
  with Suc.IH show ?case by (simp add: cont_bytes.simps [of v])
qed

lemma cont_bytes_high: "b \<in> set (cont_bytes v) \<Longrightarrow> b AND 0x80 \<noteq> 0"
proof (induction v rule: cont_bytes.induct)
  case (1 v)
  have "(ucast (v AND 0x7f) OR 0x80 :: u8) AND 0x80 \<noteq> 0"
    unfolding and_80 or_80 by (simp add: bit_simps)
  with 1 show ?case by (auto simp: cont_bytes.simps [of v] split: if_splits)
qed

definition uv_value :: "u64 \<Rightarrow> u8 list \<Rightarrow> u64" where
  "uv_value acc bs = foldl (\<lambda>acc b. push_bit 7 acc OR ucast (b AND 0x7f)) acc bs"

lemma uv_value_snoc: "uv_value a (bs @ [b]) = push_bit 7 (uv_value a bs) OR ucast (b AND 0x7f)"
  by (simp add: uv_value_def)

lemma low_seven_rejoin:
  "push_bit 7 (drop_bit 7 v) OR ucast ((ucast (v AND 0x7f) OR 0x80 :: u8) AND 0x7f) = (v :: u64)"
  "push_bit 7 (drop_bit 7 v) OR ucast ((ucast (v AND 0x7f) :: u8) AND 0x7f) = (v :: u64)"
proof -
  have low: "ucast (take_bit 7 (set_bit 7 (ucast (take_bit 7 v) :: u8))) = take_bit 7 v"
    "ucast (take_bit 7 (ucast (take_bit 7 v) :: u8)) = take_bit 7 v"
    by (rule bit_word_eqI; auto simp: bit_simps)+
  have "push_bit 7 (drop_bit 7 v) OR take_bit 7 v = v"
  proof (rule bit_word_eqI)
    fix n
    assume "n < LENGTH(64)"
    then show "bit (push_bit 7 (drop_bit 7 v) OR take_bit 7 v) n = bit v n"
      by (cases "7 \<le> n") (auto simp: bit_simps)
  qed
  with low show "push_bit 7 (drop_bit 7 v) OR ucast ((ucast (v AND 0x7f) OR 0x80 :: u8) AND 0x7f) = v"
    "push_bit 7 (drop_bit 7 v) OR ucast ((ucast (v AND 0x7f) :: u8) AND 0x7f) = v"
    by (simp_all only: and_7f or_80)
qed

lemma uv_value_cont_bytes: "uv_value 0 (cont_bytes v) = v"
proof (induction v rule: cont_bytes.induct)
  case (1 v)
  show ?case
  proof (cases "0 < v")
    case True
    then show ?thesis
      using 1 by (simp add: cont_bytes.simps [of v] uv_value_snoc low_seven_rejoin)
  next
    case False
    then have "v = 0" by (simp add: word_gt_0)
    then show ?thesis by (simp add: cont_bytes.simps uv_value_def)
  qed
qed

text \<open>The reader on continuation bytes and a last byte.\<close>

lemma uintvar_loop_cont:
  assumes "\<forall>b \<in> set bs. b AND 0x80 \<noteq> 0" "l AND 0x80 = 0" "length bs < n"
  shows "uintvar_loop st n acc (cur_at pre (bs @ l # rest)) =
    Inr (uv_value acc (bs @ [l]), cur_at (pre @ bs @ [l]) rest)"
  using assms
proof (induction bs arbitrary: n acc pre)
  case Nil
  then show ?case by (cases n) (simp_all add: cur_simps uv_value_def Let_def)
next
  case (Cons b bs)
  then obtain m where m: "n = Suc m" "length bs < m" by (cases n) auto
  with Cons.IH [OF _ _ m(2), of _ "pre @ [b]"] Cons.prems show ?case
    by (simp add: cur_simps uv_value_def Let_def)
qed

lemma uintvar_round_trip:
  assumes "unat v < 2 ^ 35"
  shows "reads_as uintvar (enc_uintvar [] v) v"
proof -
  have "unat v div 128 < 128 ^ 4" using assms by (simp add: div_less_iff_less_mult)
  then have len: "length (cont_bytes (drop_bit 7 v)) < 5"
    using cont_bytes_length [of "drop_bit 7 v" 4] by (simp add: unat_drop7)
  have last: "(ucast (v AND 0x7f) :: u8) AND 0x80 = 0"
    unfolding and_80 and_7f by (simp add: bit_simps)
  have "uv_value 0 (cont_bytes (drop_bit 7 v) @ [ucast (v AND 0x7f)]) = v"
    by (simp only: uv_value_snoc uv_value_cont_bytes low_seven_rejoin)
  then show ?thesis
    using uintvar_loop_cont [OF _ last len] cont_bytes_high
    by (simp add: reads_as_def uintvar_def enc_uintvar_eq)
qed

interpretation uintvar_codec: shape_codec uintvar "enc_uintvar []" id "\<lambda>v. unat v < 2 ^ 35"
  by unfold_locales (simp add: uintvar_round_trip)

section \<open>Value-length and strings\<close>

definition enc_value_length :: "u8 list \<Rightarrow> nat \<Rightarrow> u8 list" where
  "enc_value_length out n =
     (if n \<le> 30 then out @ [word_of_nat n] else enc_uintvar (out @ [31]) (word_of_nat n))"

definition utf8_string :: "string \<Rightarrow> u8 list" where
  "utf8_string s = enc_value_length [] (1 + length s + 1) @ [0xea] @ as_bytes s @ [0]"

definition phone_address :: "string \<Rightarrow> string" where
  "phone_address a =
     (if contains ''/TYPE='' a \<or> CHR ''@'' \<in> set a then a
      else a @ ''/TYPE=PLMN'')"

lemma enc_uintvar_append: "enc_uintvar out v = out @ enc_uintvar [] v"
  by (simp add: enc_uintvar_def)

lemma value_length_round_trip:
  assumes "n < 2 ^ 35"
  shows "reads_as value_length (enc_value_length [] n) n"
proof (cases "n \<le> 30")
  case True
  then have "(word_of_nat n :: u8) \<le> 30" "unat (word_of_nat n :: u8) = n"
    by (simp_all add: word_le_nat_alt unat_of_nat)
  with True show ?thesis
    by (simp add: reads_as_def value_length_def enc_value_length_def cur_simps)
next
  case False
  have u: "unat (word_of_nat n :: u64) = n" using assms by (simp add: unat_of_nat)
  have "uintvar (cur_at (pre @ [31]) (enc_uintvar [] (word_of_nat n) @ rest)) =
      Inr (word_of_nat n, cur_at ((pre @ [31]) @ enc_uintvar [] (word_of_nat n)) rest)" for pre rest
    using uintvar_codec.read_back [of "word_of_nat n"] u assms by simp
  with False u show ?thesis
    by (simp add: reads_as_def value_length_def enc_value_length_def cur_simps
        enc_uintvar_append [of "[31]"])
qed

interpretation value_length_codec: shape_codec value_length "enc_value_length []" id "\<lambda>n. n < 2 ^ 35"
  by unfold_locales (simp add: value_length_round_trip)

text \<open>A text without a NUL that does not start with a quote byte.\<close>

definition plain_text :: "u8 list \<Rightarrow> bool" where
  "plain_text t \<longleftrightarrow> 0 \<notin> set t \<and> (case t of [] \<Rightarrow> True | b # _ \<Rightarrow> b \<noteq> 0x7f \<and> b \<noteq> 0x22)"

lemma position_NUL: "0 \<notin> set t \<Longrightarrow> position (\<lambda>b. b = 0) (t @ 0 # rest) = Some (length t)"
  by (rule position_append) auto

lemma text_string_round_trip: "plain_text t \<Longrightarrow> reads_as text_string (t @ [0]) t"
  unfolding reads_as_def
proof (intro allI)
  fix pre rest
  assume t: "plain_text t"
  have "peek (cur_at pre (t @ 0 # rest)) \<noteq> Some 0x7f \<and> peek (cur_at pre (t @ 0 # rest)) \<noteq> Some 0x22"
    using t by (cases t) (auto simp: plain_text_def cur_simps)
  moreover have "0 \<notin> set t" using t by (simp add: plain_text_def)
  ultimately show "text_string (cur_at pre ((t @ [0]) @ rest)) = Inr (t, cur_at (pre @ t @ [0]) rest)"
    by (simp add: text_string_def cur_at_def position_NUL Let_def)
qed

text \<open>A quote byte in front is dropped, so the text may then start with any byte but NUL.\<close>

lemma quoted_text_round_trip:
  assumes "q = 0x7f \<or> q = 0x22" "0 \<notin> set t"
  shows "reads_as text_string (q # t @ [0]) t"
  unfolding reads_as_def
proof (intro allI)
  fix pre rest
  have "peek (cur_at pre (q # t @ 0 # rest)) = Some q" by (simp add: cur_simps)
  moreover have "position (\<lambda>b. b = 0) (drop (Suc (length pre)) (pre @ q # t @ 0 # rest)) = Some (length t)"
    using position_NUL [OF assms(2)] by simp
  ultimately show "text_string (cur_at pre ((q # t @ [0]) @ rest)) = Inr (t, cur_at (pre @ q # t @ [0]) rest)"
    using assms(1) by (auto simp: text_string_def Let_def cur_at_def)
qed

interpretation text_codec: shape_codec text_string "\<lambda>t. t @ [0]" id plain_text
  by unfold_locales (simp add: text_string_round_trip)


section \<open>Encoded strings\<close>

text \<open>A string a phone writes as an Encoded-string-value and reads back: UTF-8 text without a
  NUL that does not start with a quote byte, short enough for a Uintvar length.\<close>

definition sendable :: "string \<Rightarrow> bool" where
  "sendable s \<longleftrightarrow> plain_text (as_bytes s) \<and> valid_utf8 (as_bytes s) \<and> length s + 2 < 2 ^ 35"

lemma enc_value_length_first:
  "\<exists>b bs. enc_value_length [] n = b # bs \<and> b \<le> 31"
proof (cases "n \<le> 30")
  case True
  then show ?thesis by (simp add: enc_value_length_def word_le_nat_alt unat_of_nat)
qed (simp add: enc_value_length_def enc_uintvar_append [of "[31]"])

lemma utf8_string_round_trip:
  assumes "sendable s"
  shows "reads_as encoded_string (utf8_string s) \<lparr>es_charset = Some 106, es_bytes = as_bytes s\<rparr>"
  unfolding reads_as_def
proof (intro allI)
  fix pre rest
  let ?n = "Suc (Suc (length s))" and ?body = "0xea # as_bytes s @ [0]"
  let ?len = "enc_value_length [] ?n"
  obtain b bs where b: "?len = b # bs" "b \<le> 31" using enc_value_length_first by blast
  have pk: "peek (cur_at pre (?len @ r)) = Some b" for r by (simp only: b append_Cons cur_simps)
  have vl: "value_length (cur_at pre (?len @ ?body @ rest)) =
      Inr (?n, cur_at (pre @ ?len) (?body @ rest))"
    using value_length_codec.read_back [of ?n pre "?body @ rest"] assms by (simp add: sendable_def)
  have iv: "integer_value (cur_at (pre @ ?len) (?body @ rest)) =
      Inr (106, cur_at (pre @ ?len @ [0xea]) (as_bytes s @ 0 # rest))"
    by (simp add: integer_value_def cur_simps high_bit_def)
  have ts: "text_string (cur_at (pre @ ?len @ [0xea]) (as_bytes s @ 0 # rest)) =
      Inr (as_bytes s, cur_at (pre @ ?len @ ?body) rest)"
    using text_codec.read_back [of "as_bytes s" "pre @ ?len @ [0xea]" rest] assms
    by (simp add: sendable_def)
  have u: "utf8_string s = ?len @ ?body" by (simp add: utf8_string_def)
  show "encoded_string (cur_at pre (utf8_string s @ rest)) =
      Inr (\<lparr>es_charset = Some 106, es_bytes = as_bytes s\<rparr>, cur_at (pre @ utf8_string s) rest)"
    using pk [of "?body @ rest"] vl iv ts b(2)
    by (simp add: encoded_string_def u cur_simps Let_def)
qed

interpretation utf8_string_codec:
  shape_codec encoded_string utf8_string
    "\<lambda>s. \<lparr>es_charset = Some 106, es_bytes = as_bytes s\<rparr>" sendable
  by unfold_locales (rule utf8_string_round_trip)

lemma decode_text_utf8: "valid_utf8 (as_bytes s) \<Longrightarrow> decode_text (as_bytes s) (Some 106) = s"
  by (simp add: decode_text_def CHARSET_ISO_8859_1_def CHARSET_UCS2_def CHARSET_UTF16_def
      utf8_lossy_valid)

lemma param_text_utf8_string:
  assumes "sendable s"
  shows "reads_as param_text (utf8_string s) s"
  using utf8_string_round_trip [OF assms] assms
  by (simp add: reads_as_def param_text_def decode_text_utf8 sendable_def)

section \<open>Properties\<close>

text \<open>C24: the Uintvar encoder and decoder agree exactly on the values below 2^35.\<close>

theorem uintvar_exact: "reads_as uintvar (enc_uintvar [] v) v \<longleftrightarrow> unat v < 2 ^ 35"
proof
  assume "reads_as uintvar (enc_uintvar [] v) v"
  then have "uintvar (cur_at [] (enc_uintvar [] v @ [])) = Inr (v, cur_at ([] @ enc_uintvar [] v) [])"
    by (rule reads_asD)
  then show "unat v < 2 ^ 35" by (rule uintvar_bound)
qed (rule uintvar_round_trip)

end
