(* ===== verification/PduBuild.thy ===== *)
theory PduBuild
  imports WspEncode Mms
begin

text \<open>
  \<open>PduBuilder\<close> of \<open>crates/libs/go-sms-mms/src/testutil.rs\<close>, which writes a PDU the way a
  phone does, and the round trip through the decoder: every header the builder writes is
  read back, every part comes out with its media type, its name and its bytes.
\<close>

unbundle bit_operations_syntax

section \<open>The builder\<close>

record build_part =
  bp_content_type :: string
  bp_name :: "string option"
  bp_charset_utf8 :: bool
  bp_data :: "u8 list"

record pdu_builder =
  b_sent :: bool
  b_from :: "string option"
  b_to :: "string list"
  b_cc :: "string list"
  b_date :: "u64 option"
  b_subject :: "string option"
  b_parts :: "build_part list"
  b_extra :: "u8 list"

definition bp_text :: "string \<Rightarrow> build_part" where
  "bp_text body =
     \<lparr>bp_content_type = ''text/plain'', bp_name = Some ''text_0.txt'', bp_charset_utf8 = True,
      bp_data = as_bytes body\<rparr>"

definition bp_jpeg :: "string \<Rightarrow> nat \<Rightarrow> build_part" where
  "bp_jpeg name len =
     (let magic = [0xff, 0xd8, 0xff, 0xe0, 0x00, 0x10] @ as_bytes ''JFIF''
      in \<lparr>bp_content_type = ''image/jpeg'', bp_name = Some name, bp_charset_utf8 = False,
          bp_data = magic @ replicate (max len (length magic) - length magic) 0x11\<rparr>)"

definition bp_smil :: build_part where
  "bp_smil =
     \<lparr>bp_content_type = ''application/smil'', bp_name = Some ''smil.xml'', bp_charset_utf8 = False,
      bp_data = as_bytes (''<smil><head><layout><root-layout/></layout></head><body><par dur='' @
        [CHR 0x22] @ ''5000ms'' @ [CHR 0x22] @ ''><text src='' @ [CHR 0x22] @ ''text_0.txt'' @
        [CHR 0x22] @ ''/></par></body></smil>'')\<rparr>"

definition b_received :: "string \<Rightarrow> pdu_builder" where
  "b_received from_addr =
     \<lparr>b_sent = False, b_from = Some from_addr, b_to = [], b_cc = [], b_date = Some 1609459200,
      b_subject = None, b_parts = [bp_smil], b_extra = []\<rparr>"

definition b_new_sent :: pdu_builder where
  "b_new_sent = (b_received [])\<lparr>b_sent := True, b_from := None\<rparr>"

definition add_to :: "string \<Rightarrow> pdu_builder \<Rightarrow> pdu_builder" where
  "add_to a b = b\<lparr>b_to := b_to b @ [a]\<rparr>"

definition add_cc :: "string \<Rightarrow> pdu_builder \<Rightarrow> pdu_builder" where
  "add_cc a b = b\<lparr>b_cc := b_cc b @ [a]\<rparr>"

definition set_date :: "u64 option \<Rightarrow> pdu_builder \<Rightarrow> pdu_builder" where
  "set_date d b = b\<lparr>b_date := d\<rparr>"

definition set_subject :: "string \<Rightarrow> pdu_builder \<Rightarrow> pdu_builder" where
  "set_subject s b = b\<lparr>b_subject := Some s\<rparr>"

definition add_part :: "build_part \<Rightarrow> pdu_builder \<Rightarrow> pdu_builder" where
  "add_part p b = b\<lparr>b_parts := b_parts b @ [p]\<rparr>"

definition add_text :: "string \<Rightarrow> pdu_builder \<Rightarrow> pdu_builder" where
  "add_text body b = add_part (bp_text body) b"

definition no_parts :: "pdu_builder \<Rightarrow> pdu_builder" where
  "no_parts b = b\<lparr>b_parts := []\<rparr>"

definition raw_header :: "u8 list \<Rightarrow> pdu_builder \<Rightarrow> pdu_builder" where
  "raw_header bytes b = b\<lparr>b_extra := b_extra b @ bytes\<rparr>"

section \<open>Writing\<close>

definition to_be_bytes32 :: "u32 \<Rightarrow> u8 list" where
  "to_be_bytes32 d = [ucast (drop_bit 24 d), ucast (drop_bit 16 d), ucast (drop_bit 8 d), ucast d]"

definition enc_media :: "string \<Rightarrow> u8 list" where
  "enc_media m =
     (if m = ''text/plain'' then [0x83]
      else if m = ''image/jpeg'' then [0x9e]
      else if m = ''image/gif'' then [0x9d]
      else if m = ''image/png'' then [0xa0]
      else as_bytes m @ [0])"

definition part_headers :: "build_part \<Rightarrow> u8 list" where
  "part_headers p =
     (let ct = enc_media (bp_content_type p)
            @ (case bp_name p of Some n \<Rightarrow> [0x85] @ as_bytes n @ [0] | None \<Rightarrow> [])
            @ (if bp_charset_utf8 p then [0x81, 0xea] else [])
      in enc_value_length [] (length ct) @ ct
         @ (case bp_name p of
              Some n \<Rightarrow> [0xc0, 0x22] @ as_bytes (''<'' @ n @ ''>'') @ [0] @ [0x8e] @ as_bytes n @ [0]
            | None \<Rightarrow> []))"

definition enc_part :: "build_part \<Rightarrow> u8 list" where
  "enc_part p =
     (let headers = part_headers p
      in enc_uintvar [] (word_of_nat (length headers)) @ enc_uintvar [] (word_of_nat (length (bp_data p)))
         @ headers @ bp_data p)"

definition enc_from :: "string option \<Rightarrow> u8 list" where
  "enc_from f =
     [0x89] @
     (case f of
        Some f \<Rightarrow>
          (let enc = utf8_string (phone_address f) in [word_of_nat (1 + length enc), 0x80] @ enc)
      | None \<Rightarrow> [0x01, 0x81])"

definition build_ct :: "u8 list" where
  "build_ct = [0xb3] @ ([0x8a] @ as_bytes ''<smil.xml>'' @ [0]) @ ([0x89] @ as_bytes ''application/smil'' @ [0])"

definition build :: "pdu_builder \<Rightarrow> u8 list" where
  "build b =
     [0x8c, if b_sent b then 0x80 else 0x84]
     @ [0x98] @ as_bytes ''T1'' @ [0]
     @ [0x8d, 0x90]
     @ (case b_date b of Some d \<Rightarrow> [0x85, 4] @ to_be_bytes32 (ucast d) | None \<Rightarrow> [])
     @ enc_from (b_from b)
     @ concat (map (\<lambda>t. [0x97] @ utf8_string (phone_address t)) (b_to b))
     @ concat (map (\<lambda>c. [0x82] @ utf8_string (phone_address c)) (b_cc b))
     @ (case b_subject b of Some s \<Rightarrow> [0x96] @ utf8_string s | None \<Rightarrow> [])
     @ [0x8a, 0x80]
     @ [0x8b] @ as_bytes ''MSG-1'' @ [0]
     @ [0x8f, 0x81]
     @ [0x86, 0x81]
     @ b_extra b
     @ [0x84] @ enc_value_length [] (length build_ct) @ build_ct
     @ enc_uintvar [] (word_of_nat (length (b_parts b)))
     @ concat (map enc_part (b_parts b))"

section \<open>Reading back one header\<close>

definition hdr_as :: "u8 \<Rightarrow> u8 list \<Rightarrow> (message \<Rightarrow> message) \<Rightarrow> bool" where
  "hdr_as code u f \<longleftrightarrow>
     (\<forall>pre rest msg. header code (cur_at pre (u @ rest)) msg = Inr (f msg, cur_at (pre @ u) rest))"

lemma decode_step:
  assumes "hdr_as code u f" "high_bit b" "b AND 0x7f = code" "code \<noteq> CONTENT_TYPE"
  shows "decode_loop msg (cur_at pre (b # u @ rest)) = decode_loop (f msg) (cur_at (pre @ b # u) rest)"
  using assms by (simp add: decode_loop.simps [of msg] cur_simps hdr_as_def Let_def)

lemma hdr_as_table:
  assumes "reads_as rd u v" "map_of header_table code = Some (name, rd)"
    "code \<notin> {MESSAGE_TYPE, FROM, TO, CC, BCC, DATE, SUBJECT}"
  shows "hdr_as code u (\<lambda>m. m\<lparr>m_headers := (m_headers m)(name \<mapsto> v)\<rparr>)"
  using assms by (simp add: hdr_as_def header_def reads_as_def)

lemma mms_string_reads_utf8: "sendable s \<Longrightarrow> reads_as mms_string (utf8_string s) s"
  using utf8_string_codec.round_trip [of s]
  by (simp add: reads_as_def mms_string_def decode_text_utf8 sendable_def)

lemma hdr_as_addresses:
  assumes "sendable s"
  shows "hdr_as TO (utf8_string s) (\<lambda>m. m\<lparr>m_to := m_to m @ [s]\<rparr>)"
    "hdr_as CC (utf8_string s) (\<lambda>m. m\<lparr>m_cc := m_cc m @ [s]\<rparr>)"
    "hdr_as SUBJECT (utf8_string s) (\<lambda>m. m\<lparr>m_subject := Some s\<rparr>)"
  using mms_string_reads_utf8 [OF assms]
  by (simp_all add: hdr_as_def header_def reads_as_def field_codes)

text \<open>An unquoted ASCII text, as \<open>T1\<close> or \<open>MSG-1\<close>: the reader sees no length byte in front.\<close>

definition token_text :: "string \<Rightarrow> bool" where
  "token_text s \<longleftrightarrow> plain_text (as_bytes s) \<and> valid_utf8 (as_bytes s) \<and> s \<noteq> [] \<and> 31 < hd (as_bytes s)"

lemma token_text_Cons: "token_text s \<Longrightarrow> \<exists>b bs. as_bytes s = b # bs \<and> 31 < b"
  by (cases s) (auto simp: token_text_def)

lemma token_text_encoded:
  assumes "token_text s"
  shows "reads_as encoded_string (as_bytes s @ [0]) \<lparr>es_charset = None, es_bytes = as_bytes s\<rparr>"
  unfolding reads_as_def
proof (intro allI)
  fix pre rest
  obtain b bs where b: "as_bytes s = b # bs" "31 < b" using token_text_Cons [OF assms] by blast
  then have "peek (cur_at pre ((as_bytes s @ [0]) @ rest)) = Some b" "\<not> b \<le> 31"
    by (simp_all add: cur_simps not_le)
  moreover have "text_string (cur_at pre ((as_bytes s @ [0]) @ rest)) =
      Inr (as_bytes s, cur_at (pre @ as_bytes s @ [0]) rest)"
    using text_codec.read_back [of "as_bytes s" pre rest] assms by (simp add: token_text_def)
  ultimately show "encoded_string (cur_at pre ((as_bytes s @ [0]) @ rest)) =
      Inr (\<lparr>es_charset = None, es_bytes = as_bytes s\<rparr>, cur_at (pre @ as_bytes s @ [0]) rest)"
    by (simp add: encoded_string_def)
qed

lemma token_text_reads:
  assumes "token_text s"
  shows "reads_as mms_string (as_bytes s @ [0]) s" "reads_as param_text (as_bytes s @ [0]) s"
    "reads_as lossy_text (as_bytes s @ [0]) s"
proof -
  have dec: "decode_text (as_bytes s) None = s" "utf8_lossy (as_bytes s) = s"
    using assms by (simp_all add: decode_text_def utf8_lossy_valid token_text_def)
  with token_text_encoded [OF assms]
  show "reads_as mms_string (as_bytes s @ [0]) s" "reads_as param_text (as_bytes s @ [0]) s"
    by (simp_all add: reads_as_def mms_string_def param_text_def)
  show "reads_as lossy_text (as_bytes s @ [0]) s"
    using text_codec.round_trip [of "as_bytes s"] dec assms
    by (simp add: reads_as_def lossy_text_def token_text_def)
qed

lemma reads_as_token:
  assumes "high_bit b" "unat (b AND 0x7f) < length names"
  shows "reads_as (token names) [b] (names ! unat (b AND 0x7f))"
  using assms by (simp add: reads_as_def token_def cur_simps nth_opt_def unwrap_or_def)

section \<open>The headers of a built PDU\<close>

lemma builder_tokens: "token_text ''T1''" "token_text ''MSG-1''" "token_text ''<smil.xml>''"
  "token_text ''application/smil''"
  by code_simp+

lemma hdr_type: "hdr_as MESSAGE_TYPE [if s then 0x80 else 0x84] (\<lambda>m. m\<lparr>m_type := Some (if s then SendReq else RetrieveConf)\<rparr>)"
  by (simp add: hdr_as_def header_def message_type_value_def cur_simps high_bit_def Let_def)

lemma hdr_fixed:
  "hdr_as 0x18 (as_bytes ''T1'' @ [0]) (\<lambda>m. m\<lparr>m_headers := (m_headers m)(''transaction-id'' \<mapsto> ''T1'')\<rparr>)"
  "hdr_as 0x0d [0x90] (\<lambda>m. m\<lparr>m_headers := (m_headers m)(''mms-version'' \<mapsto> ''1.0'')\<rparr>)"
  "hdr_as 0x0a [0x80] (\<lambda>m. m\<lparr>m_headers := (m_headers m)(''message-class'' \<mapsto> ''Personal'')\<rparr>)"
  "hdr_as 0x0b (as_bytes ''MSG-1'' @ [0]) (\<lambda>m. m\<lparr>m_headers := (m_headers m)(''message-id'' \<mapsto> ''MSG-1'')\<rparr>)"
  "hdr_as 0x0f [0x81] (\<lambda>m. m\<lparr>m_headers := (m_headers m)(''priority'' \<mapsto> ''Normal'')\<rparr>)"
  "hdr_as 0x06 [0x81] (\<lambda>m. m\<lparr>m_headers := (m_headers m)(''delivery-report'' \<mapsto> ''no'')\<rparr>)"
proof -
  show "hdr_as 0x18 (as_bytes ''T1'' @ [0]) (\<lambda>m. m\<lparr>m_headers := (m_headers m)(''transaction-id'' \<mapsto> ''T1'')\<rparr>)"
    by (rule hdr_as_table [OF token_text_reads(1) [OF builder_tokens(1)]]) (simp_all add: field_codes header_table_def)
  show "hdr_as 0x0b (as_bytes ''MSG-1'' @ [0]) (\<lambda>m. m\<lparr>m_headers := (m_headers m)(''message-id'' \<mapsto> ''MSG-1'')\<rparr>)"
    by (rule hdr_as_table [OF token_text_reads(1) [OF builder_tokens(2)]]) (simp_all add: field_codes header_table_def)
  have "reads_as mms_version [0x90] ''1.0''"
  proof -
    have "dec_string (unat (drop_bit 4 (0x10 :: u8))) @ ''.'' @ dec_string (unat ((0x10 :: u8) AND 0x0f)) = ''1.0''"
      by code_simp
    then show ?thesis by (simp add: reads_as_def mms_version_def cur_simps high_bit_def)
  qed
  then show "hdr_as 0x0d [0x90] (\<lambda>m. m\<lparr>m_headers := (m_headers m)(''mms-version'' \<mapsto> ''1.0'')\<rparr>)"
    by (intro hdr_as_table) (simp_all add: field_codes header_table_def)
  have "reads_as message_class [0x80] ''Personal''"
    by (simp add: reads_as_def message_class_def token_def cur_simps high_bit_def unwrap_or_def)
  then show "hdr_as 0x0a [0x80] (\<lambda>m. m\<lparr>m_headers := (m_headers m)(''message-class'' \<mapsto> ''Personal'')\<rparr>)"
    by (intro hdr_as_table) (simp_all add: field_codes header_table_def)
  have "reads_as (token [''Low'', ''Normal'', ''High'']) [0x81] ''Normal''" "reads_as yes_no [0x81] ''no''"
    using reads_as_token [of "0x81" "[''Low'', ''Normal'', ''High'']"] reads_as_token [of "0x81" "[''yes'', ''no'']"]
    by (simp_all add: yes_no_def high_bit_def)
  then show "hdr_as 0x0f [0x81] (\<lambda>m. m\<lparr>m_headers := (m_headers m)(''priority'' \<mapsto> ''Normal'')\<rparr>)"
    "hdr_as 0x06 [0x81] (\<lambda>m. m\<lparr>m_headers := (m_headers m)(''delivery-report'' \<mapsto> ''no'')\<rparr>)"
    by (intro hdr_as_table; simp add: field_codes header_table_def)+
qed


lemma be_bytes_rejoin:
  "foldl (\<lambda>acc b. push_bit 8 acc OR ucast b) (0 :: u64) (to_be_bytes32 d) = (ucast d :: u64)"
proof (rule bit_word_eqI)
  fix n
  assume "n < LENGTH(64)"
  consider "n < 8" | "8 \<le> n" "n < 16" | "16 \<le> n" "n < 24" | "24 \<le> n" "n < 32" | "32 \<le> n"
    by linarith
  then show "bit (foldl (\<lambda>acc b. push_bit 8 acc OR ucast b) (0 :: u64) (to_be_bytes32 d)) n = bit (ucast d :: u64) n"
    by cases (use \<open>n < LENGTH(64)\<close> in \<open>auto simp: to_be_bytes32_def bit_simps dest: bit_imp_le_length\<close>)
qed

lemma hdr_date:
  "hdr_as DATE (4 # to_be_bytes32 d) (\<lambda>m. m\<lparr>m_date := Some (ucast d)\<rparr>)"
proof -
  have "take_bytes 4 w (cur_at pre (to_be_bytes32 d @ rest)) = Inr (to_be_bytes32 d, cur_at (pre @ to_be_bytes32 d) rest)"
    for w pre rest by (rule take_bytes_cur_at) (simp add: to_be_bytes32_def)
  then show ?thesis
    by (simp add: hdr_as_def header_def long_integer_def cur_simps field_codes be_bytes_rejoin)
qed

text \<open>The From header holds a one-byte Value-length, so the address may not be long.\<close>

lemma utf8_string_short: "length s \<le> 26 \<Longrightarrow> length (utf8_string s) = length s + 3"
  by (simp add: utf8_string_def enc_value_length_def)

lemma hdr_from:
  assumes "sendable s" "length s \<le> 26"
  shows "hdr_as FROM (word_of_nat (1 + length (utf8_string s)) # 0x80 # utf8_string s) (\<lambda>m. m\<lparr>m_from := Some s\<rparr>)"
  unfolding hdr_as_def
proof (intro allI)
  fix pre rest msg
  let ?n = "1 + length (utf8_string s)"
  have n: "enc_value_length [] ?n = [word_of_nat ?n]" "?n < 2 ^ 35"
    using utf8_string_short [OF assms(2)] assms(2) by (simp_all add: enc_value_length_def)
  have vl: "value_length (cur_at pre (word_of_nat ?n # 0x80 # utf8_string s @ rest)) =
      Inr (?n, cur_at (pre @ [word_of_nat ?n]) (0x80 # utf8_string s @ rest))"
    using value_length_codec.read_back [of ?n pre "0x80 # utf8_string s @ rest"] n by simp
  have ms: "mms_string (cur_at p (utf8_string s @ rest)) = Inr (s, cur_at (p @ utf8_string s) rest)" for p
    using mms_string_reads_utf8 [OF assms(1)] by (simp add: reads_as_def)
  show "header FROM (cur_at pre ((word_of_nat ?n # 0x80 # utf8_string s) @ rest)) msg =
      Inr (msg\<lparr>m_from := Some s\<rparr>, cur_at (pre @ word_of_nat ?n # 0x80 # utf8_string s) rest)"
    using vl ms by (simp add: header_def from_value_def cur_simps field_codes Let_def)
qed

lemma hdr_no_from: "hdr_as FROM [0x01, 0x81] (\<lambda>m. m\<lparr>m_from := None\<rparr>)"
  by (simp add: hdr_as_def header_def from_value_def value_length_def cur_simps field_codes Let_def)

text \<open>A run of the same header.\<close>

lemma decode_steps:
  assumes "\<And>a. a \<in> set as \<Longrightarrow> hdr_as code (enc a) (f a)"
    and "high_bit b" "b AND 0x7f = code" "code \<noteq> CONTENT_TYPE"
  shows "decode_loop msg (cur_at pre (concat (map (\<lambda>a. [b] @ enc a) as) @ rest)) =
    decode_loop (fold f as msg) (cur_at (pre @ concat (map (\<lambda>a. [b] @ enc a) as)) rest)"
  using assms(1)
proof (induction as arbitrary: pre msg)
  case (Cons a as)
  from decode_step [OF Cons.prems assms(2-4)] Cons.IH [of "f a msg" "pre @ b # enc a"] Cons.prems
  show ?case by simp
qed simp

lemma fold_to: "fold (\<lambda>a m. m\<lparr>m_to := m_to m @ [g a]\<rparr>) as m = m\<lparr>m_to := m_to m @ map g as\<rparr>"
  by (induction as arbitrary: m) simp_all

lemma fold_cc: "fold (\<lambda>a m. m\<lparr>m_cc := m_cc m @ [g a]\<rparr>) as m = m\<lparr>m_cc := m_cc m @ map g as\<rparr>"
  by (induction as arbitrary: m) simp_all
section \<open>Content types and parts\<close>

lemma ct_params_done: "length pre = e \<Longrightarrow> ct_params e ps (cur_at pre rest) = Inr (ps, cur_at pre rest)"
  by (simp add: ct_params.simps [of e] cur_simps)

lemma ct_params_step:
  assumes "ct_param code = Some (name, rd)" "reads_as rd u v" "high_bit b" "b AND 0x7f = code"
    and "length pre < e"
  shows "ct_params e ps (cur_at pre (b # u @ rest)) = ct_params e (ps(name \<mapsto> v)) (cur_at (pre @ b # u) rest)"
  using assms by (simp add: ct_params.simps [of e ps "cur_at pre _"] cur_simps reads_as_def)

lemma content_type_general:
  assumes media: "reads_as general_media mb m"
    and ps: "\<And>pre rest. ct_params (length pre + length pb) Map.empty (cur_at pre (pb @ rest)) =
      Inr (ps, cur_at (pre @ pb) rest)"
    and len: "length mb + length pb < 2 ^ 35"
  shows "reads_as content_type (enc_value_length [] (length mb + length pb) @ mb @ pb) \<lparr>media = m, params = ps\<rparr>"
  unfolding reads_as_def
proof (intro allI)
  fix pre rest
  let ?vl = "enc_value_length [] (length mb + length pb)"
  obtain b bs where b: "?vl = b # bs" "b \<le> 31" using enc_value_length_first by blast
  have pk: "peek (cur_at pre (?vl @ r)) = Some b" for r by (simp only: b append_Cons cur_simps)
  have vl: "value_length (cur_at pre (?vl @ mb @ pb @ rest)) =
      Inr (length mb + length pb, cur_at (pre @ ?vl) (mb @ pb @ rest))"
    using value_length_codec.read_back [of "length mb + length pb" pre "mb @ pb @ rest"] len by simp
  have gm: "general_media (cur_at (pre @ ?vl) (mb @ pb @ rest)) = Inr (m, cur_at (pre @ ?vl @ mb) (pb @ rest))"
    using media by (simp add: reads_as_def)
  have cp: "ct_params (length pre + length ?vl + (length mb + length pb)) Map.empty
      (cur_at (pre @ ?vl @ mb) (pb @ rest)) = Inr (ps, cur_at (pre @ ?vl @ mb @ pb) rest)"
    using ps [of "pre @ ?vl @ mb" rest] by (simp add: add.assoc)
  have pos: "(cur_at (pre @ ?vl @ mb @ pb) rest)\<lparr>cpos := length pre + length ?vl + (length mb + length pb)\<rparr> =
      cur_at (pre @ ?vl @ mb @ pb) rest" by (simp add: cur_at_def)
  have "\<not> 31 < b" using b(2) by simp
  with pk [of "mb @ pb @ rest"] vl gm cp pos
  show "content_type (cur_at pre ((?vl @ mb @ pb) @ rest)) =
      Inr (\<lparr>media = m, params = ps\<rparr>, cur_at (pre @ ?vl @ mb @ pb) rest)"
    by (simp add: content_type_def cur_simps Let_def)
qed

text \<open>A media type the builder can write: one of the four codes, or a text in front of which
  no length, token or quote can be seen.\<close>

definition media_ok :: "string \<Rightarrow> bool" where
  "media_ok m \<longleftrightarrow> token_text m \<and> \<not> high_bit (hd (as_bytes m))"

lemma well_known_codes:
  "nth_opt WELL_KNOWN_CONTENT_TYPES 3 = Some ''text/plain''"
  "nth_opt WELL_KNOWN_CONTENT_TYPES 30 = Some ''image/jpeg''"
  "nth_opt WELL_KNOWN_CONTENT_TYPES 29 = Some ''image/gif''"
  "nth_opt WELL_KNOWN_CONTENT_TYPES 32 = Some ''image/png''"
  "nth_opt WELL_KNOWN_CONTENT_TYPES 51 = Some ''application/vnd.wap.multipart.related''"
  by (simp_all add: WELL_KNOWN_CONTENT_TYPES_def nth_opt_def)

lemma lower_codes:
  "to_ascii_lowercase ''text/plain'' = ''text/plain''" "to_ascii_lowercase ''image/jpeg'' = ''image/jpeg''"
  "to_ascii_lowercase ''image/gif'' = ''image/gif''" "to_ascii_lowercase ''image/png'' = ''image/png''"
  "to_ascii_lowercase ''application/smil'' = ''application/smil''"
  by code_simp+

lemma media_code_reads:
  assumes "high_bit b" "30 < b" "nth_opt WELL_KNOWN_CONTENT_TYPES (unat (b AND 0x7f)) = Some m"
  shows "reads_as general_media [b] m"
  using assms by (simp add: reads_as_def general_media_def constrained_media_def cur_simps not_le [symmetric])

lemma media_text_reads:
  assumes "media_ok m"
  shows "reads_as general_media (as_bytes m @ [0]) (to_ascii_lowercase m)"
    "reads_as constrained_media (as_bytes m @ [0]) (to_ascii_lowercase m)"
proof -
  obtain b bs where b: "as_bytes m = b # bs" "31 < b" "\<not> high_bit b"
    using token_text_Cons assms by (force simp: media_ok_def)
  then have pk: "peek (cur_at pre (as_bytes m @ r)) = Some b" "\<not> b \<le> 30" for pre r
    by (auto simp: cur_simps not_le word_less_nat_alt word_le_nat_alt)
  have tx: "text_string (cur_at pre (as_bytes m @ 0 # r)) = Inr (as_bytes m, cur_at (pre @ as_bytes m @ [0]) r)" for pre r
    using text_codec.read_back [of "as_bytes m" pre r] assms by (simp add: token_text_def media_ok_def)
  have "utf8_lossy (as_bytes m) = m" using assms by (simp add: utf8_lossy_valid media_ok_def token_text_def)
  with pk tx b show "reads_as constrained_media (as_bytes m @ [0]) (to_ascii_lowercase m)"
    "reads_as general_media (as_bytes m @ [0]) (to_ascii_lowercase m)"
    by (simp_all add: reads_as_def constrained_media_def general_media_def)
qed

lemma enc_media_reads:
  assumes "media_ok m"
  shows "reads_as general_media (enc_media m) (to_ascii_lowercase m)"
  using media_text_reads(1) [OF assms] media_code_reads [of "0x83" "''text/plain''"]
    media_code_reads [of "0x9e" "''image/jpeg''"] media_code_reads [of "0x9d" "''image/gif''"]
    media_code_reads [of "0xa0" "''image/png''"] well_known_codes
  by (simp add: enc_media_def high_bit_def lower_codes)

lemma media_ok_smil: "media_ok ''application/smil''"
  by code_simp

lemma build_ct_reads:
  "reads_as content_type (enc_value_length [] (length build_ct) @ build_ct)
     \<lparr>media = ''application/vnd.wap.multipart.related'',
      params = [''Start'' \<mapsto> ''<smil.xml>'', ''Type'' \<mapsto> ''application/smil'']\<rparr>"
proof -
  let ?start = "as_bytes ''<smil.xml>'' @ [0]" and ?type = "as_bytes ''application/smil'' @ [0]"
  have m: "reads_as general_media [0xb3] ''application/vnd.wap.multipart.related''"
    by (rule media_code_reads) (simp_all add: high_bit_def well_known_codes)
  have s: "ct_param 0x0a = Some (''Start'', param_text)" "ct_param 0x09 = Some (''Type'', constrained_media)"
    by (simp_all add: ct_param_def)
  have ps: "ct_params (length pre + length (0x8a # ?start @ 0x89 # ?type)) Map.empty
      (cur_at pre ((0x8a # ?start @ 0x89 # ?type) @ rest)) =
    Inr ([''Start'' \<mapsto> ''<smil.xml>'', ''Type'' \<mapsto> ''application/smil''],
      cur_at (pre @ 0x8a # ?start @ 0x89 # ?type) rest)" for pre rest
    using ct_params_step [OF s(1) token_text_reads(2) [OF builder_tokens(3)], of "0x8a" pre
        "length pre + length (0x8a # ?start @ 0x89 # ?type)" Map.empty "0x89 # ?type @ rest"]
      ct_params_step [OF s(2) media_text_reads(2) [OF media_ok_smil, unfolded lower_codes], of "0x89"
        "pre @ 0x8a # ?start" "length pre + length (0x8a # ?start @ 0x89 # ?type)" "[''Start'' \<mapsto> ''<smil.xml>'']" rest]
      ct_params_done [of "pre @ 0x8a # ?start @ 0x89 # ?type"]
    by (simp add: high_bit_def)
  show ?thesis
    using content_type_general [OF m, of "0x8a # ?start @ 0x89 # ?type", OF ps]
    by (simp add: build_ct_def)
qed

section \<open>One part\<close>

text \<open>A part the builder can write: its media type and its name can be read back, and its
  lengths fit a Uintvar.\<close>

definition part_ok :: "build_part \<Rightarrow> bool" where
  "part_ok p \<longleftrightarrow>
     media_ok (bp_content_type p) \<and> (case bp_name p of Some n \<Rightarrow> token_text n | None \<Rightarrow> True) \<and>
     length (part_headers p) < 2 ^ 35 \<and> length (bp_data p) < 2 ^ 35"

definition part_params :: "build_part \<Rightarrow> params" where
  "part_params p =
     (let ps = (case bp_name p of Some n \<Rightarrow> [''Name'' \<mapsto> n] | None \<Rightarrow> Map.empty)
      in if bp_charset_utf8 p then ps(''Charset'' \<mapsto> ''106'') else ps)"

definition read_part :: "build_part \<Rightarrow> part" where
  "read_part p =
     \<lparr>p_content_type = \<lparr>media = to_ascii_lowercase (bp_content_type p), params = part_params p\<rparr>,
      p_content_location = bp_name p, p_content_id = bp_name p, p_data = bp_data p\<rparr>"

definition enc_params :: "build_part \<Rightarrow> u8 list" where
  "enc_params p =
     (case bp_name p of Some n \<Rightarrow> [0x85] @ as_bytes n @ [0] | None \<Rightarrow> [])
     @ (if bp_charset_utf8 p then [0x81, 0xea] else [])"

definition enc_names :: "build_part \<Rightarrow> u8 list" where
  "enc_names p =
     (case bp_name p of
        Some n \<Rightarrow> [0xc0, 0x22] @ as_bytes (''<'' @ n @ ''>'') @ [0] @ [0x8e] @ as_bytes n @ [0]
      | None \<Rightarrow> [])"

lemma part_headers_eq:
  "part_headers p =
     (enc_value_length [] (length (enc_media (bp_content_type p)) + length (enc_params p))
        @ enc_media (bp_content_type p) @ enc_params p) @ enc_names p"
  by (simp add: part_headers_def enc_params_def enc_names_def Let_def)

lemma charset_text: "dec_string 106 = ''106''"
  by code_simp

lemma integer_text_charset: "reads_as integer_text [0xea] ''106''"
  by (simp add: reads_as_def integer_text_def integer_value_def cur_simps high_bit_def charset_text)

lemma enc_params_read:
  assumes "part_ok p"
  shows "ct_params (length pre + length (enc_params p)) Map.empty (cur_at pre (enc_params p @ rest)) =
    Inr (part_params p, cur_at (pre @ enc_params p) rest)"
proof -
  have c: "ct_param 0x05 = Some (''Name'', param_text)" "ct_param 0x01 = Some (''Charset'', integer_text)"
    by (simp_all add: ct_param_def)
  have cs: "ct_params (length q + 2) ps (cur_at q (0x81 # 0xea # rest)) =
      Inr (ps(''Charset'' \<mapsto> ''106''), cur_at (q @ [0x81, 0xea]) rest)" for q ps
    using ct_params_step [OF c(2) integer_text_charset, of "0x81" q "length q + 2" ps rest]
      ct_params_done [of "q @ [0x81, 0xea]"] by (simp add: high_bit_def)
  show ?thesis
  proof (cases "bp_name p")
    case None
    then show ?thesis
      using cs [of pre Map.empty] ct_params_done [of pre] by (simp add: enc_params_def part_params_def)
  next
    case (Some n)
    then have n: "reads_as param_text (as_bytes n @ [0]) n"
      using assms token_text_reads(2) by (simp add: part_ok_def)
    have nm: "ct_params e Map.empty (cur_at pre (0x85 # (as_bytes n @ [0]) @ r)) =
        ct_params e [''Name'' \<mapsto> n] (cur_at (pre @ 0x85 # as_bytes n @ [0]) r)"
      if "length pre < e" for e r
      using ct_params_step [OF c(1) n, of "0x85" pre e Map.empty r] that by (simp add: high_bit_def)
    show ?thesis
      using Some nm cs [of "pre @ 0x85 # as_bytes n @ [0]" "[''Name'' \<mapsto> n]"]
        ct_params_done [of "pre @ 0x85 # as_bytes n @ [0]"]
      by (simp add: enc_params_def part_params_def)
  qed
qed

text \<open>The Content-ID is written in angle brackets behind a quote byte, and read without both.\<close>

lemma trim_brackets: "trim (''<'' @ n @ ''>'') = ''<'' @ n @ ''>''"
proof -
  have "33 \<le> ord CHR ''<''" "ord CHR ''<'' < 128" "33 \<le> ord CHR ''>''" "ord CHR ''>'' < 128"
    by (simp_all add: ord_def)
  then have "trim_start (''<'' @ n @ ''>'') = ''<'' @ n @ ''>''" "trim_start_rev (rev (''<'' @ n @ ''>'')) = rev (''<'' @ n @ ''>'')"
    by (intro trim_start_id trim_start_rev_id; simp)+
  then show ?thesis by (simp only: trim_def trim_end_def rev_rev_ident)
qed

lemma strip_brackets: "strip_angle_brackets (''<'' @ n @ ''>'') = n"
proof -
  have "strip_prefix ''cid:'' (''<'' @ n @ ''>'') = None"
    by (simp add: strip_prefix_def)
  moreover have "strip_prefix ''<'' (''<'' @ n @ ''>'') = Some (n @ ''>'')"
    by (rule strip_prefix_append)
  moreover have "strip_suffix ''>'' (n @ ''>'') = Some n"
    by (simp only: strip_suffix_Some)
  ultimately show ?thesis
    by (simp only: strip_angle_brackets_def trim_brackets Let_def unwrap_or_def option.case)
qed

lemma bracketed_id_reads:
  assumes "token_text n"
  shows "reads_as lossy_text (0x22 # as_bytes (''<'' @ n @ ''>'') @ [0]) (''<'' @ n @ ''>'')"
proof -
  have v: "valid_utf8 (as_bytes (''<'' @ n @ ''>''))"
    using assms by (simp add: token_text_def valid_utf8_append byte_of_char_def utf8_chunk_def lead_tests_def)
  have "0 \<notin> set (as_bytes (''<'' @ n @ ''>''))"
    using assms by (simp add: token_text_def plain_text_def byte_of_char_def)
  from quoted_text_round_trip [OF _ this, of "0x22"] utf8_lossy_valid [OF v]
  show ?thesis by (simp add: reads_as_def lossy_text_def)
qed

lemma enc_names_read:
  assumes "part_ok p"
  shows "part_headers_loop q (cur_at pre (enc_names p)) =
    Inr (case bp_name p of None \<Rightarrow> q | Some n \<Rightarrow> q\<lparr>p_content_location := Some n, p_content_id := Some n\<rparr>)"
proof (cases "bp_name p")
  case None
  then show ?thesis by (simp add: enc_names_def part_headers_loop.simps cur_simps)
next
  case (Some n)
  then have n: "token_text n" using assms by (simp add: part_ok_def)
  let ?id = "0x22 # as_bytes (''<'' @ n @ ''>'') @ [0]" and ?loc = "as_bytes n @ [0]"
  have id: "lossy_text (cur_at (pre @ [0xc0]) (?id @ 0x8e # ?loc)) =
      Inr (''<'' @ n @ ''>'', cur_at (pre @ 0xc0 # ?id) (0x8e # ?loc))"
    using bracketed_id_reads [OF n] by (simp only: reads_as_def) simp
  have loc: "param_text (cur_at (pre @ 0xc0 # ?id @ [0x8e]) ?loc) =
      Inr (n, cur_at (pre @ 0xc0 # ?id @ 0x8e # ?loc) [])"
    using token_text_reads(2) [OF n] unfolding reads_as_def by (metis append.assoc append_Cons append_Nil append_Nil2)
  have fin: "part_headers_loop r (cur_at x []) = Inr r" for r x
    by (simp add: part_headers_loop.simps cur_simps)
  have second: "part_headers_loop r (cur_at (pre @ 0xc0 # ?id) (0x8e # ?loc)) = Inr (r\<lparr>p_content_location := Some n\<rparr>)" for r
    using loc by (simp add: part_headers_loop.simps [of r "cur_at _ (_ # _)"] cur_simps high_bit_def
        WSP_CONTENT_LOCATION_def fin)
  have "part_headers_loop q (cur_at pre (0xc0 # ?id @ 0x8e # ?loc)) =
      Inr (q\<lparr>p_content_id := Some n, p_content_location := Some n\<rparr>)"
    using id strip_brackets [of n] second
    by (simp add: part_headers_loop.simps [of q "cur_at pre _"] cur_simps high_bit_def
        WSP_CONTENT_LOCATION_def WSP_CONTENT_ID_def)
  with Some show ?thesis by (simp add: enc_names_def)
qed

lemma part_from_headers_read:
  assumes "part_ok p"
  shows "part_from_headers (part_headers p) (bp_data p) = Inr (read_part p)"
proof -
  have len: "length (enc_media (bp_content_type p)) + length (enc_params p) < 2 ^ 35"
    using assms by (simp add: part_ok_def part_headers_eq)
  have "media_ok (bp_content_type p)" using assms by (simp add: part_ok_def)
  from content_type_general [OF enc_media_reads [OF this] enc_params_read [OF assms] len]
  show ?thesis
    using enc_names_read [OF assms]
    by (simp add: part_from_headers_def part_headers_eq cursor_new_cur_at reads_as_def read_part_def
        split: option.splits)
qed

lemma enc_uintvar_read:
  assumes "n < 2 ^ 35"
  shows "uintvar (cur_at pre (enc_uintvar [] (word_of_nat n) @ rest)) =
    Inr (word_of_nat n, cur_at (pre @ enc_uintvar [] (word_of_nat n)) rest)"
    "unat (word_of_nat n :: u64) = n"
proof -
  show n: "unat (word_of_nat n :: u64) = n" using assms by (simp add: unat_of_nat)
  show "uintvar (cur_at pre (enc_uintvar [] (word_of_nat n) @ rest)) =
    Inr (word_of_nat n, cur_at (pre @ enc_uintvar [] (word_of_nat n)) rest)"
    using uintvar_codec.read_back [of "word_of_nat n" pre rest] n assms by simp
qed

lemma parts_loop_read:
  assumes "\<And>p. p \<in> set ps \<Longrightarrow> part_ok p"
  shows "parts_loop (length ps) qs (cur_at pre (concat (map enc_part ps) @ rest)) =
    Inr (qs @ map read_part ps, cur_at (pre @ concat (map enc_part ps)) rest)"
  using assms
proof (induction ps arbitrary: qs pre)
  case (Cons p ps)
  let ?h = "part_headers p" and ?d = "bp_data p" and ?more = "concat (map enc_part ps) @ rest"
  let ?uh = "enc_uintvar [] (word_of_nat (length ?h)) :: u8 list"
  let ?ud = "enc_uintvar [] (word_of_nat (length ?d)) :: u8 list"
  have p: "part_ok p" "length ?h < 2 ^ 35" "length ?d < 2 ^ 35"
    using Cons.prems by (simp_all add: part_ok_def)
  note uh = enc_uintvar_read [OF p(2)] and ud = enc_uintvar_read [OF p(3)]
  have th: "take_bytes (length ?h) w (cur_at q (?h @ r)) = Inr (?h, cur_at (q @ ?h) r)"
    "take_bytes (length ?d) w (cur_at q (?d @ r)) = Inr (?d, cur_at (q @ ?d) r)" for w q r
    by (simp_all add: take_bytes_cur_at)
  have "parts_loop (length ps) (qs @ [read_part p]) (cur_at (pre @ ?uh @ ?ud @ ?h @ ?d) ?more) =
      Inr ((qs @ [read_part p]) @ map read_part ps, cur_at ((pre @ ?uh @ ?ud @ ?h @ ?d) @ concat (map enc_part ps)) rest)"
    using Cons.prems by (intro Cons.IH) simp
  moreover have "enc_part p = ?uh @ ?ud @ ?h @ ?d" by (simp add: enc_part_def Let_def)
  ultimately show ?case using uh ud th part_from_headers_read [OF p(1)] by simp
qed simp

lemma multipart_read:
  assumes "\<And>p. p \<in> set ps \<Longrightarrow> part_ok p" "length ps \<le> 256"
  shows "reads_as multipart (enc_uintvar [] (word_of_nat (length ps)) @ concat (map enc_part ps)) (map read_part ps)"
  unfolding reads_as_def
proof (intro allI)
  fix pre rest
  have n: "length ps < 2 ^ 35" using assms(2) by simp
  have "\<not> 256 < (word_of_nat (length ps) :: u64)"
    using assms(2) enc_uintvar_read(2) [OF n] by (simp add: word_less_nat_alt)
  with enc_uintvar_read(1) [OF n, of pre "concat (map enc_part ps) @ rest"]
    enc_uintvar_read(2) [OF n] parts_loop_read [OF assms(1), of ps "[]" "pre @ enc_uintvar [] (word_of_nat (length ps))" rest]
  show "multipart (cur_at pre ((enc_uintvar [] (word_of_nat (length ps)) @ concat (map enc_part ps)) @ rest)) =
    Inr (map read_part ps, cur_at (pre @ enc_uintvar [] (word_of_nat (length ps)) @ concat (map enc_part ps)) rest)"
    by (simp add: multipart_def Let_def)
qed

section \<open>The whole message\<close>

definition builder_ok :: "pdu_builder \<Rightarrow> bool" where
  "builder_ok b \<longleftrightarrow>
     (case b_from b of Some f \<Rightarrow> sendable (phone_address f) \<and> length (phone_address f) \<le> 26 | None \<Rightarrow> True) \<and>
     list_all (\<lambda>a. sendable (phone_address a)) (b_to b) \<and> list_all (\<lambda>a. sendable (phone_address a)) (b_cc b) \<and>
     (case b_subject b of Some s \<Rightarrow> sendable s | None \<Rightarrow> True) \<and>
     list_all part_ok (b_parts b) \<and> length (b_parts b) \<le> 256 \<and> b_extra b = []"

text \<open>What the decoder makes of a built PDU. The Date header has four bytes.\<close>

definition read_builder :: "pdu_builder \<Rightarrow> message" where
  "read_builder b =
     \<lparr>m_type = Some (if b_sent b then SendReq else RetrieveConf),
      m_from = map_option phone_address (b_from b),
      m_to = map phone_address (b_to b),
      m_cc = map phone_address (b_cc b),
      m_bcc = [],
      m_date = map_option (\<lambda>d. ucast (ucast d :: u32)) (b_date b),
      m_subject = b_subject b,
      m_content_type =
        Some \<lparr>media = ''application/vnd.wap.multipart.related'',
              params = [''Start'' \<mapsto> ''<smil.xml>'', ''Type'' \<mapsto> ''application/smil'']\<rparr>,
      m_headers =
        [''transaction-id'' \<mapsto> ''T1'', ''mms-version'' \<mapsto> ''1.0'', ''message-class'' \<mapsto> ''Personal'',
         ''message-id'' \<mapsto> ''MSG-1'', ''priority'' \<mapsto> ''Normal'', ''delivery-report'' \<mapsto> ''no''],
      m_parts = map read_part (b_parts b)\<rparr>"

lemma decode_loop_body:
  assumes "list_all part_ok (b_parts b)" "length (b_parts b) \<le> 256"
  shows "decode_loop msg (cur_at pre (0x84 # enc_value_length [] (length build_ct) @ build_ct
      @ enc_uintvar [] (word_of_nat (length (b_parts b))) @ concat (map enc_part (b_parts b)))) =
    Inr (msg\<lparr>m_parts := map read_part (b_parts b),
      m_content_type := Some \<lparr>media = ''application/vnd.wap.multipart.related'',
        params = [''Start'' \<mapsto> ''<smil.xml>'', ''Type'' \<mapsto> ''application/smil'']\<rparr>\<rparr>)"
proof -
  let ?mp = "enc_uintvar [] (word_of_nat (length (b_parts b))) @ concat (map enc_part (b_parts b))"
  have ct: "content_type (cur_at (pre @ [0x84]) (enc_value_length [] (length build_ct) @ build_ct @ ?mp)) =
      Inr (\<lparr>media = ''application/vnd.wap.multipart.related'',
        params = [''Start'' \<mapsto> ''<smil.xml>'', ''Type'' \<mapsto> ''application/smil'']\<rparr>,
        cur_at ((pre @ [0x84]) @ enc_value_length [] (length build_ct) @ build_ct) ?mp)"
    using build_ct_reads by (simp add: reads_as_def)
  have mp: "multipart (cur_at p ?mp) = Inr (map read_part (b_parts b), cur_at (p @ ?mp) [])" for p
    using multipart_read [of "b_parts b"] assms unfolding reads_as_def list_all_iff
    by (metis append_Nil2)
  have "is_multipart \<lparr>media = ''application/vnd.wap.multipart.related'', params = ps\<rparr>" for ps
    by (simp add: is_multipart_def starts_with_def strip_prefix_def)
  with ct mp show ?thesis
    by (simp add: decode_loop.simps [of msg] cur_simps high_bit_def CONTENT_TYPE_def Let_def)
qed
text \<open>The header runs of the builder, one lemma per optional or repeated header.\<close>

lemma step_date:
  "decode_loop msg (cur_at pre ((case d of Some d \<Rightarrow> [0x85, 4] @ to_be_bytes32 (ucast d) | None \<Rightarrow> []) @ rest)) =
   decode_loop (case d of Some d \<Rightarrow> msg\<lparr>m_date := Some (ucast (ucast d :: u32))\<rparr> | None \<Rightarrow> msg)
     (cur_at (pre @ (case d of Some d \<Rightarrow> [0x85, 4] @ to_be_bytes32 (ucast d) | None \<Rightarrow> [])) rest)"
  for d :: "u64 option"
  using decode_step [OF hdr_date, of "0x85" msg pre _ rest]
  by (auto simp: high_bit_def field_codes split: option.splits)

lemma step_from:
  assumes "case f of Some f \<Rightarrow> sendable (phone_address f) \<and> length (phone_address f) \<le> 26 | None \<Rightarrow> True"
  shows "decode_loop msg (cur_at pre (enc_from f @ rest)) =
    decode_loop (msg\<lparr>m_from := map_option phone_address f\<rparr>) (cur_at (pre @ enc_from f) rest)"
proof (cases f)
  case None
  then show ?thesis
    using decode_step [OF hdr_no_from, of "0x89" msg pre rest]
    by (simp add: enc_from_def high_bit_def field_codes)
next
  case (Some a)
  with assms have a: "sendable (phone_address a)" "length (phone_address a) \<le> 26" by auto
  show ?thesis
    using Some decode_step [OF hdr_from [OF a], of "0x89" msg pre rest]
    by (simp add: enc_from_def high_bit_def field_codes Let_def)
qed

lemma step_to:
  assumes "list_all (\<lambda>a. sendable (phone_address a)) as"
  shows "decode_loop msg (cur_at pre (concat (map (\<lambda>t. [0x97] @ utf8_string (phone_address t)) as) @ rest)) =
    decode_loop (msg\<lparr>m_to := m_to msg @ map phone_address as\<rparr>)
      (cur_at (pre @ concat (map (\<lambda>t. [0x97] @ utf8_string (phone_address t)) as)) rest)"
proof -
  have "hdr_as TO (utf8_string (phone_address a)) (\<lambda>m. m\<lparr>m_to := m_to m @ [phone_address a]\<rparr>)" if "a \<in> set as" for a
    using hdr_as_addresses(1) assms that by (simp add: list_all_iff)
  then have "decode_loop msg (cur_at pre (concat (map (\<lambda>t. [0x97] @ utf8_string (phone_address t)) as) @ rest)) =
    decode_loop (fold (\<lambda>a m. m\<lparr>m_to := m_to m @ [phone_address a]\<rparr>) as msg)
      (cur_at (pre @ concat (map (\<lambda>t. [0x97] @ utf8_string (phone_address t)) as)) rest)"
    by (rule decode_steps) (simp_all add: high_bit_def field_codes)
  then show ?thesis by (simp only: fold_to)
qed

lemma step_cc:
  assumes "list_all (\<lambda>a. sendable (phone_address a)) as"
  shows "decode_loop msg (cur_at pre (concat (map (\<lambda>t. [0x82] @ utf8_string (phone_address t)) as) @ rest)) =
    decode_loop (msg\<lparr>m_cc := m_cc msg @ map phone_address as\<rparr>)
      (cur_at (pre @ concat (map (\<lambda>t. [0x82] @ utf8_string (phone_address t)) as)) rest)"
proof -
  have "hdr_as CC (utf8_string (phone_address a)) (\<lambda>m. m\<lparr>m_cc := m_cc m @ [phone_address a]\<rparr>)" if "a \<in> set as" for a
    using hdr_as_addresses(2) assms that by (simp add: list_all_iff)
  then have "decode_loop msg (cur_at pre (concat (map (\<lambda>t. [0x82] @ utf8_string (phone_address t)) as) @ rest)) =
    decode_loop (fold (\<lambda>a m. m\<lparr>m_cc := m_cc m @ [phone_address a]\<rparr>) as msg)
      (cur_at (pre @ concat (map (\<lambda>t. [0x82] @ utf8_string (phone_address t)) as)) rest)"
    by (rule decode_steps) (simp_all add: high_bit_def field_codes)
  then show ?thesis by (simp only: fold_cc)
qed

lemma step_subject:
  assumes "case s of Some s \<Rightarrow> sendable s | None \<Rightarrow> True"
  shows "decode_loop msg (cur_at pre ((case s of Some s \<Rightarrow> [0x96] @ utf8_string s | None \<Rightarrow> []) @ rest)) =
    decode_loop (case s of Some s \<Rightarrow> msg\<lparr>m_subject := Some s\<rparr> | None \<Rightarrow> msg)
      (cur_at (pre @ (case s of Some s \<Rightarrow> [0x96] @ utf8_string s | None \<Rightarrow> [])) rest)"
  using assms decode_step [OF hdr_as_addresses(3), of _ "0x96" msg pre rest]
  by (auto simp: high_bit_def field_codes split: option.splits)

definition fixed_head :: "bool \<Rightarrow> u8 list" where
  "fixed_head s = [0x8c, if s then 0x80 else 0x84] @ [0x98] @ as_bytes ''T1'' @ [0] @ [0x8d, 0x90]"

definition fixed_tail :: "u8 list" where
  "fixed_tail = [0x8a, 0x80] @ [0x8b] @ as_bytes ''MSG-1'' @ [0] @ [0x8f, 0x81] @ [0x86, 0x81]"

lemma step_fixed_head:
  "decode_loop msg (cur_at pre (fixed_head s @ rest)) =
   decode_loop (msg\<lparr>m_type := Some (if s then SendReq else RetrieveConf),
       m_headers := (m_headers msg)(''transaction-id'' \<mapsto> ''T1'', ''mms-version'' \<mapsto> ''1.0'')\<rparr>)
     (cur_at (pre @ fixed_head s) rest)"
  using decode_step [OF hdr_type, of "0x8c" msg pre s]
    decode_step [OF hdr_fixed(1), of "0x98"] decode_step [OF hdr_fixed(2), of "0x8d"]
  by (simp add: fixed_head_def high_bit_def field_codes)

lemma step_fixed_tail:
  "decode_loop msg (cur_at pre (fixed_tail @ rest)) =
   decode_loop (msg\<lparr>m_headers := (m_headers msg)(''message-class'' \<mapsto> ''Personal'', ''message-id'' \<mapsto> ''MSG-1'',
       ''priority'' \<mapsto> ''Normal'', ''delivery-report'' \<mapsto> ''no'')\<rparr>)
     (cur_at (pre @ fixed_tail) rest)"
  using decode_step [OF hdr_fixed(3), of "0x8a" msg pre]
    decode_step [OF hdr_fixed(4), of "0x8b"] decode_step [OF hdr_fixed(5), of "0x8f"]
    decode_step [OF hdr_fixed(6), of "0x86"]
  by (simp add: fixed_tail_def high_bit_def field_codes)

lemma build_eq:
  "b_extra b = [] \<Longrightarrow> build b =
     fixed_head (b_sent b)
     @ (case b_date b of Some d \<Rightarrow> [0x85, 4] @ to_be_bytes32 (ucast d) | None \<Rightarrow> [])
     @ enc_from (b_from b)
     @ concat (map (\<lambda>t. [0x97] @ utf8_string (phone_address t)) (b_to b))
     @ concat (map (\<lambda>c. [0x82] @ utf8_string (phone_address c)) (b_cc b))
     @ (case b_subject b of Some s \<Rightarrow> [0x96] @ utf8_string s | None \<Rightarrow> [])
     @ fixed_tail
     @ 0x84 # enc_value_length [] (length build_ct) @ build_ct
     @ enc_uintvar [] (word_of_nat (length (b_parts b)))
     @ concat (map enc_part (b_parts b))"
  by (simp add: build_def fixed_head_def fixed_tail_def)

lemma decode_build_read:
  assumes "builder_ok b"
  shows "decode (build b) = Inr (read_builder b)"
proof -
  have "starts_with_message_type (build b)"
    by (simp add: starts_with_message_type_def build_def MESSAGE_TYPE_def)
  then have "decode (build b) = decode_loop message_default (cur_at [] (build b))"
    by (simp add: decode_def cursor_new_cur_at)
  also have "\<dots> = Inr (read_builder b)"
    using assms unfolding builder_ok_def
    by (simp only: build_eq step_fixed_head step_date step_from step_to step_cc step_subject step_fixed_tail
        decode_loop_body)
      (auto simp: read_builder_def message_default_def split: option.splits)
  finally show ?thesis .
qed

section \<open>Properties of the decoder\<close>

text \<open>The offset of an error in a part's headers counts from the first byte of those headers and not
  of the file: here a value length is cut short at the file's end, byte 9, and the error says 2.\<close>

lemma part_error_counts_from_its_headers:
  "decode [0x8c, 0x84, 0x84, 0xb3, 1, 2, 0, 0x1f, 0x80] = Inl \<lparr>err_at = 2, err_what = ''uintvar''\<rparr>"
proof -
  have "err_of (decode [0x8c, 0x84, 0x84, 0xb3, 1, 2, 0, 0x1f, 0x80]) =
      Some \<lparr>err_at = 2, err_what = ''uintvar''\<rparr>"
    by code_simp
  then show ?thesis by (simp add: err_of_Some)
qed

text \<open>C23: a decoded message has a type and a Content-Type; its body is at most 256 parts when the
  type is multipart, else the one part that is the rest of the file; every part's bytes are a
  piece of the file, and the parts together are no longer than the file.\<close>

theorem decoded_body:
  assumes "decode d = Inr m"
  shows "m_type m \<noteq> None \<and> body_of_bytes d m"
  using decode_result [OF assms] by simp

text \<open>The smallest message: its type, then a Content-Type and nothing behind.\<close>

lemma smallest_message:
  "decode [0x8c, 0x84, 0x84, 0x83] =
     Inr (message_default\<lparr>m_type := Some RetrieveConf,
       m_parts := [\<lparr>p_content_type = \<lparr>media = ''text/plain'', params = Map.empty\<rparr>,
         p_content_location = None, p_content_id = None, p_data = []\<rparr>],
       m_content_type := Some \<lparr>media = ''text/plain'', params = Map.empty\<rparr>\<rparr>)"
proof -
  have ct: "content_type (cur_at [0x8c, 0x84, 0x84] [0x83]) =
      Inr (\<lparr>media = ''text/plain'', params = Map.empty\<rparr>, cur_at [0x8c, 0x84, 0x84, 0x83] [])"
    using well_known_codes(1) by (simp add: content_type_def constrained_media_def cur_simps high_bit_def)
  have "\<not> is_multipart \<lparr>media = ''text/plain'', params = Map.empty\<rparr>"
    by (simp add: is_multipart_def starts_with_def strip_prefix_def)
  with ct decode_step [OF hdr_type [of False], of "0x8c" message_default "[]" "[0x84, 0x83]"] show ?thesis
    by (simp add: decode_def cursor_new_cur_at starts_with_message_type_def field_codes high_bit_def
        decode_loop.simps [of _ "cur_at [0x8c, 0x84] _"] cur_simps Let_def part_of_rest_def)
qed

lemma decoded_body_witness:
  "\<exists>m. decode [0x8c, 0x84, 0x84, 0x83] = Inr m \<and> m_type m \<noteq> None \<and> body_of_bytes [0x8c, 0x84, 0x84, 0x83] m"
  using smallest_message decoded_body [OF smallest_message] by blast

text \<open>the header fields the decoder knows are the codes 1 to 0x3f less 0x2e, 0x30 and Content-Type,
  each handled by one arm under a name of its own; every other code is an error at the code's byte.\<close>

theorem header_codes_exact:
  "distinct header_codes \<and> distinct (map (fst \<circ> snd) header_table) \<and> set header_codes = {code. known_code code} \<and>
   (known_code code \<or> code = CONTENT_TYPE \<or>
      header code c msg = wsp_err (cpos c - 1) ''unknown header field code'')"
proof (intro conjI)
  show "distinct header_codes"
    unfolding header_codes_def header_table_def field_codes by simp
  show "distinct (map (fst \<circ> snd) header_table)"
    unfolding header_table_def by simp
  show "set header_codes = {code. known_code code}" by (rule header_codes_known)
  show "known_code code \<or> code = CONTENT_TYPE \<or> header code c msg = wsp_err (cpos c - 1) ''unknown header field code''"
    using header_unknown by blast
qed


definition sample_builder :: pdu_builder where
  "sample_builder = add_text ''hi'' (add_to ''+15550001'' (set_subject ''s'' (b_received ''+15550002'')))"

lemmas sample_builder_simps =
  sample_builder_def b_received_def add_to_def add_text_def add_part_def set_subject_def

lemma sample_addresses:
  "phone_address ''+15550001'' = ''+15550001/TYPE=PLMN''" "phone_address ''+15550002'' = ''+15550002/TYPE=PLMN''"
  by code_simp+

lemma sample_builder_ok: "builder_ok sample_builder"
proof -
  have sent: "plain_text (as_bytes ''+15550001/TYPE=PLMN'') \<and> valid_utf8 (as_bytes ''+15550001/TYPE=PLMN'')"
    "plain_text (as_bytes ''+15550002/TYPE=PLMN'') \<and> valid_utf8 (as_bytes ''+15550002/TYPE=PLMN'')"
    "plain_text (as_bytes ''s'') \<and> valid_utf8 (as_bytes ''s'')"
    by code_simp+
  have media: "media_ok ''text/plain''" "media_ok ''application/smil''" "token_text ''text_0.txt''" "token_text ''smil.xml''"
    by code_simp+
  have "length (part_headers bp_smil) < 200" "length (part_headers (bp_text ''hi'')) < 200"
    "length (bp_data bp_smil) < 200"
    by code_simp+
  then have "part_ok bp_smil" "part_ok (bp_text ''hi'')"
    using media by (simp_all add: part_ok_def bp_smil_def bp_text_def)
  with sent show ?thesis
    by (simp add: builder_ok_def sample_builder_simps sample_addresses sendable_def)
qed


end
