(* ===== verification/PduProps.thy ===== *)
theory PduProps
  imports Pdu PduBuild
begin

text \<open>
  What a \<open>.pdu\<close> file becomes: which files are messages, that no attachment and no text is
  lost or repeated, and what a message built by the phone's encoder reads as.
\<close>

section \<open>The parts of the body\<close>

lemma sort_filter_order:
  "sort (filter P (part_order srcs parts)) = filter P [0..<length parts]"
  by (rule sorted_distinct_set_unique) (auto simp: part_order_set sorted_wrt_filter)

text \<open>every part that is neither text nor SMIL and has content is an attachment, once; every
  part that could not be read is reported, once, in wire order; the text is made of the non-empty
  text parts, every one of them and nothing else.\<close>

theorem body_complete:
  "set (attachments (body_of srcs parts)) = {i. i < length parts \<and> is_attachment (parts ! i)} \<and>
   distinct (attachments (body_of srcs parts)) \<and>
   unreadable (body_of srcs parts) = filter (\<lambda>i. is_unreadable (parts ! i)) [0..<length parts] \<and>
   (\<exists>order. distinct order \<and> set order = {i. i < length parts \<and> text_of (parts ! i) \<noteq> None} \<and>
      body_text (body_of srcs parts) = join [CHR 0x0A] (map (\<lambda>i. the (text_of (parts ! i))) order))"
proof (intro conjI)
  let ?o = "part_order srcs parts"
  show "set (attachments (body_of srcs parts)) = {i. i < length parts \<and> is_attachment (parts ! i)}"
    by (auto simp: body_of_eq part_order_set)
  show "distinct (attachments (body_of srcs parts))"
    by (simp add: body_of_eq part_order_set)
  show "unreadable (body_of srcs parts) = filter (\<lambda>i. is_unreadable (parts ! i)) [0..<length parts]"
    by (simp add: body_of_eq sort_filter_order)
  have "body_text (body_of srcs parts) =
      join [CHR 0x0A] (map (\<lambda>i. the (text_of (parts ! i))) (filter (\<lambda>i. text_of (parts ! i) \<noteq> None) ?o))"
    by (simp add: body_of_eq List.map_filter_def comp_def)
  then show "\<exists>order. distinct order \<and> set order = {i. i < length parts \<and> text_of (parts ! i) \<noteq> None} \<and>
      body_text (body_of srcs parts) = join [CHR 0x0A] (map (\<lambda>i. the (text_of (parts ! i))) order)"
    by (intro exI [of _ "filter (\<lambda>i. text_of (parts ! i) \<noteq> None) ?o"]) (auto simp: part_order_set)
qed

text \<open>in a message without a SMIL part the text parts and the attachments keep the order
  they are written in, repeats included.\<close>

theorem body_wire_order:
  assumes "\<forall>p \<in> set parts. \<not> is_smil (mp_content_type p)"
  shows "body_text (body_of srcs parts) = join [CHR 0x0A] (List.map_filter text_of parts) \<and>
    attachments (body_of srcs parts) = filter (\<lambda>i. is_attachment (parts ! i)) [0..<length parts]"
proof
  have "List.map_filter (\<lambda>i. text_of (parts ! i)) [0..<length parts] = List.map_filter text_of (map ((!) parts) [0..<length parts])"
    by (simp add: List.map_filter_def filter_map comp_def)
  then show "body_text (body_of srcs parts) = join [CHR 0x0A] (List.map_filter text_of parts)"
    using part_order_no_smil [OF assms] by (simp add: body_of_eq map_nth)
  show "attachments (body_of srcs parts) = filter (\<lambda>i. is_attachment (parts ! i)) [0..<length parts]"
    using part_order_no_smil [OF assms] by (simp add: body_of_eq)
qed

definition ha_part :: mms_part where
  "ha_part = \<lparr>mp_content_type = ''text/plain'', mp_keys = [], mp_content = TextContent ''ha''\<rparr>"

lemma body_wire_order_witness:
  "body_text (body_of (\<lambda>_. []) [ha_part, ha_part]) = ''ha'' @ [CHR 0x0A] @ ''ha''"
proof -
  have "\<not> is_smil ''text/plain''" "is_text ''text/plain''" by code_simp+
  moreover from this have "body_text (body_of (\<lambda>_. []) [ha_part, ha_part]) = join [CHR 0x0A] (List.map_filter text_of [ha_part, ha_part])"
    by (intro conjunct1 [OF body_wire_order]) (simp add: ha_part_def)
  ultimately show ?thesis
    by (simp add: List.map_filter_def text_of_def ha_part_def smil_document_def)
qed

lemma name_loop_match:
  "length rank = length parts \<Longrightarrow> i < length parts \<Longrightarrow>
   name_loop parts pos srcs named rank ! i = rank ! i \<or>
   (\<exists>k < length srcs. name_loop parts pos srcs named rank ! i = int (pos + k) \<and>
      \<not> is_smil (mp_content_type (parts ! i)) \<and> src_key (srcs ! k) \<in> set (part_names (parts ! i)))"
proof (induction srcs arbitrary: pos named rank)
  case (Cons src srcs)
  have shift: "\<exists>k < length (src # srcs). x = int (pos + k) \<and> \<not> is_smil (mp_content_type (parts ! i)) \<and>
      src_key ((src # srcs) ! k) \<in> set (part_names (parts ! i))"
    if "\<exists>k < length srcs. x = int (Suc pos + k) \<and> \<not> is_smil (mp_content_type (parts ! i)) \<and>
      src_key (srcs ! k) \<in> set (part_names (parts ! i))" for x
  proof -
    from that obtain k where "k < length srcs" "x = int (Suc pos + k)" "\<not> is_smil (mp_content_type (parts ! i))"
      "src_key (srcs ! k) \<in> set (part_names (parts ! i))" by blast
    then show ?thesis by (intro exI [of _ "Suc k"]) simp
  qed
  show ?case
  proof (cases "find_index (\<lambda>i. \<not> named ! i \<and> \<not> is_smil (mp_content_type (parts ! i)) \<and>
      src_key src \<in> set (part_names (parts ! i))) (length parts)")
    case None
    with Cons.IH [of rank "Suc pos" named] Cons.prems shift show ?thesis by auto
  next
    case (Some j)
    note j = find_index_Some [OF Some]
    have "name_loop parts (Suc pos) srcs (named[j := True]) (rank[j := int pos]) ! i = rank[j := int pos] ! i \<or>
      (\<exists>k < length srcs. name_loop parts (Suc pos) srcs (named[j := True]) (rank[j := int pos]) ! i = int (Suc pos + k) \<and>
      \<not> is_smil (mp_content_type (parts ! i)) \<and> src_key (srcs ! k) \<in> set (part_names (parts ! i)))"
      using Cons.prems by (intro Cons.IH) simp_all
    then show ?thesis
    proof
      assume r: "name_loop parts (Suc pos) srcs (named[j := True]) (rank[j := int pos]) ! i = rank[j := int pos] ! i"
      show ?thesis
      proof (cases "i = j")
        case True
        with r j Some Cons.prems show ?thesis by (auto intro!: exI [of _ 0])
      next
        case False
        with r Some show ?thesis by simp
      qed
    next
      assume k: "\<exists>k < length srcs. name_loop parts (Suc pos) srcs (named[j := True]) (rank[j := int pos]) ! i = int (Suc pos + k) \<and>
      \<not> is_smil (mp_content_type (parts ! i)) \<and> src_key (srcs ! k) \<in> set (part_names (parts ! i))"
      from shift [OF k] Some show ?thesis by simp
    qed
  qed
qed simp

text \<open>when there is a SMIL document, each part's rank is the position of a \<open>src\<close> that names it, no
  position twice, or its own place behind all positions; text and attachments follow the ranks.\<close>

theorem smil_order:
  assumes "find (\<lambda>p. is_smil (mp_content_type p)) parts = Some smil"
    and "smil_document (mp_content smil) = Some doc"
    and "\<And>doc. int (length (srcs doc)) \<le> unnamed_rank"
  shows "sorted (map (\<lambda>i. smil_rank srcs parts ! i) (part_order srcs parts)) \<and>
    distinct (smil_rank srcs parts) \<and>
    (\<forall>i \<in> {0..<length parts}.
       smil_rank srcs parts ! i = unnamed_rank + int i \<or>
       (\<exists>k < length (srcs doc). smil_rank srcs parts ! i = int k \<and>
          \<not> is_smil (mp_content_type (parts ! i)) \<and> src_key (srcs doc ! k) \<in> set (part_names (parts ! i))))"
proof (intro conjI ballI)
  show "sorted (map (\<lambda>i. smil_rank srcs parts ! i) (part_order srcs parts))"
    by (simp add: part_order_def Let_def)
  show "distinct (smil_rank srcs parts)" using assms(3) by (rule smil_rank_distinct)
  fix i
  assume "i \<in> {0..<length parts}"
  then show "smil_rank srcs parts ! i = unnamed_rank + int i \<or>
       (\<exists>k < length (srcs doc). smil_rank srcs parts ! i = int k \<and>
          \<not> is_smil (mp_content_type (parts ! i)) \<and> src_key (srcs doc ! k) \<in> set (part_names (parts ! i)))"
    using name_loop_match [of "map (\<lambda>i. unnamed_rank + int i) [0..<length parts]" parts i 0 "srcs doc" "replicate (length parts) False"]
      assms(1,2) by (simp add: smil_rank_def Let_def)
qed

text \<open>A SMIL part that names the second of two pictures.\<close>

definition smil_sample :: "mms_part list" where
  "smil_sample =
     [\<lparr>mp_content_type = ''application/smil'', mp_keys = [], mp_content = TextContent ''doc''\<rparr>,
      \<lparr>mp_content_type = ''image/png'', mp_keys = [''a.png''], mp_content = BytesContent [1]\<rparr>,
      \<lparr>mp_content_type = ''image/png'', mp_keys = [''<b.png>''], mp_content = BytesContent [2]\<rparr>]"

lemma smil_order_witness:
  "distinct (smil_rank (\<lambda>_. [''cid:b.png'']) smil_sample) \<and>
   attachments (body_of (\<lambda>_. [''cid:b.png'']) smil_sample) = [2, 1]"
proof
  have "is_smil ''application/smil''" by code_simp
  then have f: "find (\<lambda>p. is_smil (mp_content_type p)) smil_sample = Some (smil_sample ! 0)"
    by (simp add: smil_sample_def)
  have d: "smil_document (mp_content (smil_sample ! 0)) = Some ''doc''"
    by (simp add: smil_sample_def smil_document_def)
  show "distinct (smil_rank (\<lambda>_. [''cid:b.png'']) smil_sample)"
    using smil_order [OF f d, of "\<lambda>_. [''cid:b.png'']"] by (simp add: unnamed_rank_def)
  show "attachments (body_of (\<lambda>_. [''cid:b.png'']) smil_sample) = [2, 1]"
    by code_simp
qed
section \<open>Addresses\<close>

definition plain_address :: "string \<Rightarrow> bool" where
  "plain_address a \<longleftrightarrow> a \<noteq> [] \<and> CHR ''/'' \<notin> set a \<and> trim a = a"

lemma split_on_append_sep: "c \<notin> set a \<Longrightarrow> split_on c (a @ c # s) = a # split_on c s"
  by (induction a) auto

lemma address_value_phone: "plain_address a \<Longrightarrow> address_value (phone_address a) = Some a"
proof -
  assume a: "plain_address a"
  have "hd (split_on CHR ''/'' (phone_address a)) = a"
    using a split_on_append_sep [of "CHR ''/''" a "''TYPE=PLMN''"]
    by (simp add: phone_address_def plain_address_def split_on_single)
  with a show ?thesis by (simp add: address_value_def plain_address_def)
qed

text \<open>the recipients are the addresses of To, Cc and Bcc, each once and none empty.\<close>

theorem recipients_exact:
  assumes "parse_pdu_bytes srcs path data = Inr p" "decode data = Inr m"
  shows "distinct (pp_recipients p) \<and>
    set (pp_recipients p) = {d. \<exists>a \<in> set (m_to m @ m_cc m @ m_bcc m). address_value a = Some d} \<and>
    [] \<notin> set (pp_recipients p)"
proof -
  have p: "pp_recipients p = recipients_loop (m_to m @ m_cc m @ m_bcc m) []"
    using assms by (auto simp: parse_pdu_bytes_def bind_res_eq_Inr Let_def split: if_splits)
  then show ?thesis
    by (auto simp: recipients_loop_distinct recipients_loop_set address_value_def Let_def split: if_splits)
qed

section \<open>From bytes to a message\<close>

text \<open>C22: what \<open>parse_pdu_bytes\<close> answers, on every path: a stub exactly for bytes that do not
  start with a message type, a malformed file with an offset inside it, a transaction that is not
  a message with its type's name, and a message whose direction is the type. The branch for a
  message without a type is never taken.\<close>

theorem parse_outcome:
  "case (parse_pdu_bytes srcs path data :: 'io pdu_error + parsed_pdu) of
     Inl e \<Rightarrow>
       e = Stub \<and> \<not> starts_with_message_type data \<or>
       (\<exists>w. e = Malformed w \<and> starts_with_message_type data \<and> decode data = Inl w \<and> err_at w \<le> length data) \<or>
       (\<exists>m c. e = NotAMessage (type_name (OtherType c)) \<and> decode data = Inr m \<and> m_type m = Some (OtherType c))
   | Inr p \<Rightarrow>
       \<exists>m. decode data = Inr m \<and> m_type m = Some (if pp_is_sent p then SendReq else RetrieveConf)"
proof (cases "starts_with_message_type data")
  case False
  then show ?thesis by (simp add: parse_pdu_bytes_def)
next
  case True
  show ?thesis
  proof (cases "decode data")
    case (Inl w)
    with True decode_error_offset [OF Inl] show ?thesis by (simp add: parse_pdu_bytes_def)
  next
    case (Inr m)
    then obtain t where "m_type m = Some t" using decode_result by blast
    with True Inr show ?thesis by (cases t) (simp_all add: parse_pdu_bytes_def sent_of_def Let_def)
  qed
qed

lemma parse_attachments:
  assumes "parse_pdu_bytes srcs path data = Inr p" "decode data = Inr m"
  shows "pp_attachments p = map (\<lambda>i. attachment (m_parts m ! i)) (attachments (body_of srcs (map shaped_part (m_parts m))))"
  using assms by (auto simp: parse_pdu_bytes_def bind_res_eq_Inr Let_def split: if_splits)

lemma shaped_attachment:
  "is_attachment (shaped_part p) \<longleftrightarrow>
   \<not> is_smil (media (p_content_type p)) \<and> \<not> is_text (media (p_content_type p))"
  by (auto simp: is_attachment_def shaped_part_def)

text \<open>The indices of the parts that are attachments.\<close>

definition attached :: "part list \<Rightarrow> nat set" where
  "attached ps =
     {i. i < length ps \<and> \<not> is_smil (media (p_content_type (ps ! i))) \<and> \<not> is_text (media (p_content_type (ps ! i)))}"

text \<open>C17: the attachments of a message are its parts that are neither text nor SMIL, every one of
  them exactly once, each with its media type, its name and its bytes unchanged.\<close>

theorem attachments_lossless:
  assumes "parse_pdu_bytes srcs path data = Inr p" "decode data = Inr m"
  shows "\<exists>order. distinct order \<and> set order = attached (m_parts m) \<and>
    pp_attachments p = map (\<lambda>i. attachment (m_parts m ! i)) order"
proof (intro exI conjI)
  let ?o = "attachments (body_of srcs (map shaped_part (m_parts m)))"
  show "distinct ?o" by (simp add: body_of_eq part_order_set)
  show "set ?o = attached (m_parts m)"
    by (auto simp: body_of_eq part_order_set shaped_attachment attached_def)
  show "pp_attachments p = map (\<lambda>i. attachment (m_parts m ! i)) ?o"
    by (rule parse_attachments [OF assms])
qed

text \<open>C21: A message built within the encoder's limits (no raw headers, at most 256 parts, a From of
  at most 26 bytes with its suffix, texts that can be sent) from plain addresses (not empty, no
  slash, no space at either end) parses to the message that was meant: its direction, its sender,
  its recipients without the address suffix, each once, and its attachments byte for byte.\<close>

theorem built_message_reads_back:
  assumes "builder_ok b"
    and "\<forall>a \<in> set (b_to b @ b_cc b). plain_address a"
    and "case b_from b of Some f \<Rightarrow> plain_address f | None \<Rightarrow> True"
  shows "\<exists>p order. (parse_pdu_bytes srcs path (build b) :: 'io pdu_error + parsed_pdu) = Inr p \<and>
    pp_is_sent p = b_sent b \<and> pp_sender p = b_from b \<and>
    distinct (pp_recipients p) \<and> set (pp_recipients p) = set (b_to b @ b_cc b) \<and>
    distinct order \<and> set order = attached (map read_part (b_parts b)) \<and>
    map pa_data (pp_attachments p) = map (\<lambda>i. bp_data (b_parts b ! i)) order"
proof -
  let ?m = "read_builder b"
  have start: "starts_with_message_type (build b)"
    by (simp add: starts_with_message_type_def build_def MESSAGE_TYPE_def)
  have m: "decode (build b) = Inr ?m" by (rule decode_build_read [OF assms(1)])
  have "\<exists>p. (parse_pdu_bytes srcs path (build b) :: 'io pdu_error + parsed_pdu) = Inr p \<and> pp_is_sent p = b_sent b \<and>
      pp_sender p = Option.bind (m_from ?m) address_value \<and>
      pp_recipients p = recipients_loop (m_to ?m @ m_cc ?m @ m_bcc ?m) []"
    using start m by (cases "b_sent b") (simp_all add: parse_pdu_bytes_def sent_of_def read_builder_def Let_def)
  then obtain p where p: "(parse_pdu_bytes srcs path (build b) :: 'io pdu_error + parsed_pdu) = Inr p"
    "pp_is_sent p = b_sent b" "pp_sender p = Option.bind (m_from ?m) address_value"
    "pp_recipients p = recipients_loop (m_to ?m @ m_cc ?m @ m_bcc ?m) []" by blast
  have sender: "pp_sender p = b_from b"
    using p(3) assms(3) by (cases "b_from b") (simp_all add: read_builder_def address_value_phone)
  have "address_value (phone_address a) = Some a" if "a \<in> set (b_to b @ b_cc b)" for a
    using assms(2) that address_value_phone by blast
  then have recips: "set (pp_recipients p) = set (b_to b @ b_cc b)"
    unfolding p(4) recipients_loop_set read_builder_def by (force simp: image_iff)
  let ?o = "attachments (body_of srcs (map shaped_part (m_parts ?m)))"
  have o: "distinct ?o" "set ?o = attached (m_parts ?m)" "\<And>i. i \<in> set ?o \<Longrightarrow> i < length (b_parts b)"
    by (auto simp: body_of_eq part_order_set shaped_attachment attached_def read_builder_def)
  have "map pa_data (pp_attachments p) = map (\<lambda>i. bp_data (b_parts b ! i)) ?o"
    using parse_attachments [OF p(1) m] o(3)
    by (simp add: read_builder_def attachment_def read_part_def)
  with p sender recips o show ?thesis
    by (intro exI [of _ p] exI [of _ ?o])
      (simp add: recipients_loop_distinct read_builder_def)
qed

lemma sample_plain: "plain_address ''+15550001''" "plain_address ''+15550002''"
  by code_simp+

lemma built_message_reads_back_witness:
  "\<exists>p. (parse_pdu_bytes (\<lambda>_. []) ''I_1_2_3.pdu'' (build sample_builder) :: unit pdu_error + parsed_pdu) = Inr p \<and>
     \<not> pp_is_sent p \<and> pp_sender p = Some ''+15550002'' \<and> set (pp_recipients p) = {''+15550001''}"
proof -
  have b: "b_to sample_builder = [''+15550001'']" "b_cc sample_builder = []" "b_from sample_builder = Some ''+15550002''"
    "\<not> b_sent sample_builder"
    by (simp_all add: sample_builder_simps)
  have "\<exists>p order. (parse_pdu_bytes (\<lambda>_. []) ''I_1_2_3.pdu'' (build sample_builder) :: unit pdu_error + parsed_pdu) = Inr p \<and>
    pp_is_sent p = b_sent sample_builder \<and> pp_sender p = b_from sample_builder \<and>
    distinct (pp_recipients p) \<and> set (pp_recipients p) = set (b_to sample_builder @ b_cc sample_builder) \<and>
    distinct order \<and> set order = attached (map read_part (b_parts sample_builder)) \<and>
    map pa_data (pp_attachments p) = map (\<lambda>i. bp_data (b_parts sample_builder ! i)) order"
    using sample_plain by (intro built_message_reads_back [OF sample_builder_ok]) (simp_all add: b)
  then show ?thesis unfolding b by (force simp: b)
qed

lemma parse_succeeds:
  assumes "decode data = Inr m" "m_type m = Some SendReq \<or> m_type m = Some RetrieveConf"
  shows "\<exists>p. parse_pdu_bytes srcs path data = Inr p"
  using assms by (auto simp: parse_pdu_bytes_def decode_def wsp_err_def sent_of_def Let_def split: if_splits)

lemma sample_parses:
  "\<exists>p. (parse_pdu_bytes (\<lambda>_. []) ''I_1_2_3.pdu'' (build sample_builder) :: unit pdu_error + parsed_pdu) = Inr p"
  by (rule parse_succeeds [OF decode_build_read [OF sample_builder_ok]]) (simp add: read_builder_def sample_builder_simps)

lemma recipients_exact_witness:
  "\<exists>p. (parse_pdu_bytes (\<lambda>_. []) ''I_1_2_3.pdu'' (build sample_builder) :: unit pdu_error + parsed_pdu) = Inr p \<and>
     distinct (pp_recipients p)"
  using sample_parses recipients_exact [OF _ decode_build_read [OF sample_builder_ok]] by blast

lemma attachments_lossless_witness:
  "\<exists>p order. (parse_pdu_bytes (\<lambda>_. []) ''I_1_2_3.pdu'' (build sample_builder) :: unit pdu_error + parsed_pdu) = Inr p \<and>
     set order = attached (m_parts (read_builder sample_builder)) \<and>
     pp_attachments p = map (\<lambda>i. attachment (m_parts (read_builder sample_builder) ! i)) order"
  using sample_parses attachments_lossless [OF _ decode_build_read [OF sample_builder_ok]] by blast

end
