(* ===== verification/SearchFields.thy ===== *)
theory SearchFields
  imports RustStr
begin

text \<open>
  The words of the search language (\<open>crates/server/server/src/search/fields.rs\<close>), the
  lists they work on, and the suggestion for a word that is not one.
\<close>

datatype list_kind = Contacts | Conversations | Messages

definition label :: "list_kind \<Rightarrow> string" where
  "label l = (case l of Contacts \<Rightarrow> ''Contacts'' | Conversations \<Rightarrow> ''Conversations'' | Messages \<Rightarrow> ''Messages'')"

datatype value_type =
  TextValue | NameValue | PersonValue | ChoiceValue | DateValue | CountValue | SizeValue | FlagValue

record field_spec =
  fs_word :: string
  fs_value_type :: value_type
  fs_lists :: "list_kind list"
  fs_values :: "string list"
  fs_help :: string
  fs_example :: string

definition spec_of ::
  "string \<Rightarrow> value_type \<Rightarrow> list_kind list \<Rightarrow> string list \<Rightarrow> string \<Rightarrow> string \<Rightarrow> field_spec" where
  "spec_of w vt ls vs h ex =
     \<lparr>fs_word = w, fs_value_type = vt, fs_lists = ls, fs_values = vs, fs_help = h, fs_example = ex\<rparr>"

definition NONE_ANY :: "string list" where "NONE_ANY = [''none'', ''any'']"

definition FIELDS :: "field_spec list" where
  "FIELDS =
     [
      spec_of ''body'' TextValue [Conversations, Messages] NONE_ANY
        ''message body only''
        ''body:avocado'',
      spec_of ''subject'' TextValue [Conversations, Messages] NONE_ANY
        ''subject line only''
        ''subject:dinner'',
      spec_of ''name'' TextValue [Contacts, Conversations, Messages] NONE_ANY
        (''a person'' @ [CHR 0x27] @ ''s name: this contact, or a participant'')
        ''name:jane'',
      spec_of ''title'' TextValue [Conversations, Messages] NONE_ANY
        (''the conversation'' @ [CHR 0x27] @ ''s title'')
        (''title:'' @ [CHR 0x22] @ ''book club'' @ [CHR 0x22]),
      spec_of ''identity'' TextValue [Contacts, Conversations, Messages] NONE_ANY
        ''a phone number, email, or username''
        ''identity:@gmail.com'',
      spec_of ''with'' PersonValue [Conversations, Messages] []
        ''this person is a participant''
        ''with:jane'',
      spec_of ''from'' PersonValue [Messages] [''me'']
        ''this person sent it''
        ''from:me'',
      spec_of ''to'' PersonValue [Messages] [''me'']
        ''it was sent to this person''
        ''to:jane'',
      spec_of ''in'' NameValue [Messages] []
        ''this one conversation''
        ''in:#19'',
      spec_of ''group'' NameValue [Contacts, Conversations, Messages] [''none'', ''unknown'']
        ''in this Contact Group: the contact itself, or a participant''
        ''group:Family'',
      spec_of ''tag'' NameValue [Contacts, Conversations, Messages] [''none'']
        ''the conversation carries this Message Tag''
        ''tag:Holiday'',
      spec_of ''kind'' ChoiceValue [Contacts, Conversations, Messages] [''direct'', ''group'']
        (''the conversation'' @ [CHR 0x27] @ ''s shape'')
        ''kind:direct'',
      spec_of ''service'' ChoiceValue [Contacts, Conversations, Messages] [''imessage'', ''sms'', ''mms'', ''rcs'', ''whatsapp'']
        ''the transport that carried the message''
        ''service:imessage'',
      spec_of ''source'' ChoiceValue [Conversations, Messages] [''imessage'', ''whatsapp'', ''sms-backup-restore'', ''imazing'', ''openextract'', ''go-sms-pro'', ''sms-backup-plus'']
        ''the kind of backup it was imported from''
        ''source:whatsapp'',
      spec_of ''import'' NameValue [Conversations, Messages] [''last'']
        ''brought in by this Import Run''
        ''import:last'',
      spec_of ''date'' DateValue [Contacts, Conversations, Messages] []
        ''when a message was sent; on Contacts, one the contact sent; on Conversations, one in it''
        ''date:2019..2021'',
      spec_of ''first-message'' DateValue [Contacts, Conversations, Messages] []
        (''the date of the first message: the contact'' @ [CHR 0x27] @ ''s own, or the conversation'' @ [CHR 0x27] @ ''s'')
        ''first-message:<2020'',
      spec_of ''last-message'' DateValue [Contacts, Conversations, Messages] []
        (''the date of the last message: the contact'' @ [CHR 0x27] @ ''s own, or the conversation'' @ [CHR 0x27] @ ''s'')
        ''last-message:<2022'',
      spec_of ''attachment'' ChoiceValue [Conversations, Messages] [''image'', ''video'', ''audio'', ''document'', ''pdf'', ''contact'', ''other'', ''any'', ''none'']
        ''what is attached''
        ''attachment:image'',
      spec_of ''filename'' TextValue [Conversations, Messages] []
        (''an attachment'' @ [CHR 0x27] @ ''s file name'')
        ''filename:IMG_*'',
      spec_of ''size'' SizeValue [Conversations, Messages] []
        (''an attachment'' @ [CHR 0x27] @ ''s size'')
        ''size:>1M'',
      spec_of ''messages'' CountValue [Contacts, Conversations] []
        ''how many messages: the contact sent, or the conversation holds''
        ''messages:>100'',
      spec_of ''conversations'' CountValue [Contacts] []
        ''how many conversations''
        ''conversations:0'',
      spec_of ''groups'' CountValue [Contacts] []
        ''how many Contact Groups''
        ''groups:>5'',
      spec_of ''participants'' CountValue [Conversations, Messages] []
        ''how many people in the conversation''
        ''participants:>2'',
      spec_of ''attachments'' CountValue [Messages] []
        ''how many attachments on the message''
        ''attachments:>0'',
      spec_of ''trashed'' FlagValue [Contacts, Conversations, Messages] [''yes'', ''no'', ''any'']
        ''in the trash''
        ''trashed:yes'']"

definition lookup :: "string \<Rightarrow> field_spec option" where
  "lookup w = find (\<lambda>f. fs_word f = w) FIELDS"

definition for_list :: "list_kind \<Rightarrow> field_spec list" where
  "for_list l = filter (\<lambda>f. l \<in> set (fs_lists f)) FIELDS"

section \<open>Edit distance\<close>

text \<open>
  One row of the table: \<open>cur[j]\<close> from \<open>prev[j]\<close>, \<open>cur[j - 1]\<close> and \<open>prev[j - 1]\<close>. The
  words are ASCII (\<open>is_field_word\<close>), so a character is a byte; the function is generic.
\<close>

fun dist_row :: "'a \<Rightarrow> 'a list \<Rightarrow> nat list \<Rightarrow> nat \<Rightarrow> nat list" where
  "dist_row x (y # ys) (p # q # ps) left =
     (let c = min (min (q + 1) (left + 1)) (p + (if x \<noteq> y then 1 else 0))
      in c # dist_row x ys (q # ps) c)"
| "dist_row x ys ps left = []"

fun dist_rows :: "'a list \<Rightarrow> 'a list \<Rightarrow> nat \<Rightarrow> nat list \<Rightarrow> nat list" where
  "dist_rows [] b i prev = prev"
| "dist_rows (x # a) b i prev = dist_rows a b (i + 1) (i # dist_row x b prev i)"

definition edit_distance :: "'a list \<Rightarrow> 'a list \<Rightarrow> nat" where
  "edit_distance a b = dist_rows a b 1 [0..<length b + 1] ! length b"

text \<open>\<open>min_by_key\<close> keeps the first of equals.\<close>

fun min_by_key :: "('a \<Rightarrow> nat) \<Rightarrow> 'a list \<Rightarrow> 'a option" where
  "min_by_key f [] = None"
| "min_by_key f (x # xs) =
     (case min_by_key f xs of None \<Rightarrow> Some x | Some y \<Rightarrow> Some (if f y < f x then y else x))"

definition nearest :: "string \<Rightarrow> list_kind \<Rightarrow> string option" where
  "nearest w l =
     map_option snd
       (min_by_key fst (filter (\<lambda>(d, _). d \<le> 2) (map (\<lambda>f. (edit_distance w (fs_word f), fs_word f)) (for_list l))))"

record field_doc =
  fd_word :: string
  fd_value_type :: value_type
  fd_values :: "string list"
  fd_help :: string
  fd_example :: string

definition describe :: "list_kind \<Rightarrow> field_doc list" where
  "describe l =
     map (\<lambda>f. \<lparr>fd_word = fs_word f, fd_value_type = fs_value_type f, fd_values = fs_values f,
              fd_help = fs_help f, fd_example = fs_example f\<rparr>) (for_list l)"

section \<open>The table computes the edit distance\<close>

text \<open>The recursive definition.\<close>

fun levenshtein :: "'a list \<Rightarrow> 'a list \<Rightarrow> nat" where
  "levenshtein [] b = length b"
| "levenshtein (x # a) [] = length (x # a)"
| "levenshtein (x # a) (y # b) =
     min (min (levenshtein a (y # b) + 1) (levenshtein (x # a) b + 1))
       (levenshtein a b + (if x \<noteq> y then 1 else 0))"

text \<open>The table is filled from the front: distances between reversed prefixes.\<close>

definition pdist :: "'a list \<Rightarrow> 'a list \<Rightarrow> nat" where
  "pdist a b = levenshtein (rev a) (rev b)"

fun prefix_row :: "('a list \<Rightarrow> nat) \<Rightarrow> 'a list \<Rightarrow> 'a list \<Rightarrow> nat list" where
  "prefix_row f bs [] = [f bs]"
| "prefix_row f bs (y # ys) = f bs # prefix_row f (bs @ [y]) ys"

lemma prefix_row_Cons: "prefix_row f bs ys = f bs # tl (prefix_row f bs ys)"
  by (cases ys) auto

lemma prefix_row_nth: "prefix_row f bs ys ! length ys = f (bs @ ys)"
  by (induction ys arbitrary: bs) auto

lemma pdist_Nil [simp]: "pdist a [] = length a" "pdist [] b = length b"
proof -
  have "levenshtein a [] = length a" for a :: "'a list" by (cases a) auto
  then show "pdist a [] = length a" "pdist [] b = length b" by (simp_all add: pdist_def)
qed

lemma pdist_snoc:
  "pdist (a @ [x]) (b @ [y]) =
     min (min (pdist a (b @ [y]) + 1) (pdist (a @ [x]) b + 1)) (pdist a b + (if x \<noteq> y then 1 else 0))"
  by (simp add: pdist_def)

lemma dist_row_correct:
  "dist_row x ys (prefix_row (pdist a) bs ys) (pdist (a @ [x]) bs) = tl (prefix_row (pdist (a @ [x])) bs ys)"
proof (induction ys arbitrary: bs)
  case (Cons y ys)
  obtain qs where q: "prefix_row (pdist a) (bs @ [y]) ys = pdist a (bs @ [y]) # qs"
    using prefix_row_Cons by blast
  have "prefix_row (pdist (a @ [x])) (bs @ [y]) ys =
      pdist (a @ [x]) (bs @ [y]) # dist_row x ys (pdist a (bs @ [y]) # qs) (pdist (a @ [x]) (bs @ [y]))"
    using Cons.IH [of "bs @ [y]"] q prefix_row_Cons [of "pdist (a @ [x])" "bs @ [y]" ys] by simp
  with q show ?case by (simp add: pdist_snoc Let_def)
qed simp

lemma dist_rows_correct:
  "dist_rows a b (length a0 + 1) (prefix_row (pdist a0) [] b) = prefix_row (pdist (a0 @ a)) [] b"
proof (induction a arbitrary: a0)
  case (Cons x a)
  have "(length a0 + 1) # dist_row x b (prefix_row (pdist a0) [] b) (length a0 + 1) = prefix_row (pdist (a0 @ [x])) [] b"
    using dist_row_correct [of x b a0 "[]"] prefix_row_Cons [of "pdist (a0 @ [x])" "[]" b] by simp
  with Cons.IH [of "a0 @ [x]"] show ?case by simp
qed simp

lemma first_row: "prefix_row length bs b = [length bs..<length bs + length b + 1]"
  by (induction b arbitrary: bs) (simp_all add: upt_conv_Cons del: upt_Suc)

lemma edit_distance_pdist: "edit_distance a b = pdist a b"
proof -
  have "pdist [] = (length :: 'a list \<Rightarrow> nat)" by (rule ext) simp
  then have "edit_distance a b = prefix_row (pdist a) [] b ! length b"
    using dist_rows_correct [of a b "[]"] first_row [of "[]" b] by (simp add: edit_distance_def)
  then show ?thesis by (simp add: prefix_row_nth)
qed

section \<open>The least number of edits\<close>

text \<open>An edit script of a given cost: keep or replace, delete, insert.\<close>

inductive edits :: "'a list \<Rightarrow> 'a list \<Rightarrow> nat \<Rightarrow> bool" where
  edits_done: "edits [] [] 0"
| edits_insert: "edits a b n \<Longrightarrow> edits a (y # b) (n + 1)"
| edits_delete: "edits a b n \<Longrightarrow> edits (x # a) b (n + 1)"
| edits_step: "edits a b n \<Longrightarrow> edits (x # a) (y # b) (n + (if x \<noteq> y then 1 else 0))"

lemma levenshtein_insert: "levenshtein a (y # b) \<le> levenshtein a b + 1"
  by (cases a) auto

lemma levenshtein_delete: "levenshtein (x # a) b \<le> levenshtein a b + 1"
proof (cases b)
  case Nil
  then show ?thesis by (cases a) auto
qed auto

lemma edits_lower: "edits a b n \<Longrightarrow> levenshtein a b \<le> n"
proof (induction rule: edits.induct)
  case (edits_insert a b n y)
  then show ?case using levenshtein_insert [of a y b] by simp
next
  case (edits_delete a b n x)
  then show ?case using levenshtein_delete [of x a b] by simp
qed auto

lemma edits_all_insert: "edits [] b (length b)"
  by (induction b) (use edits.intros in auto)

lemma edits_all_delete: "edits a [] (length a)"
  by (induction a) (use edits.intros in auto)

lemma edits_levenshtein: "edits a b (levenshtein a b)"
proof (induction a b rule: levenshtein.induct)
  case (3 x a y b)
  note ih = edits_delete [OF 3(1), of x] edits_insert [OF 3(2), of y] edits_step [OF 3(3), of x y]
  show ?case
    using ih by (simp add: min_def)
next
  case (1 b)
  then show ?case by (simp add: edits_all_insert)
next
  case (2 x a)
  then show ?case using edits_all_delete [of "x # a"] by simp
qed

lemma edits_append: "edits a b n \<Longrightarrow> edits c d m \<Longrightarrow> edits (a @ c) (b @ d) (n + m)"
proof (induction rule: edits.induct)
  case (edits_insert a b n y)
  then show ?case using edits.edits_insert [of "a @ c" "b @ d" "n + m" y] by simp
next
  case (edits_delete a b n x)
  then show ?case using edits.edits_delete [of "a @ c" "b @ d" "n + m" x] by simp
next
  case (edits_step a b n x y)
  then show ?case using edits.edits_step [of "a @ c" "b @ d" "n + m" x y] by (cases "x = y") simp_all
qed simp

lemma edits_rev: "edits a b n \<Longrightarrow> edits (rev a) (rev b) n"
proof (induction rule: edits.induct)
  case (edits_insert a b n y)
  then show ?case using edits_append [OF edits_insert.IH edits_all_insert [of "[y]"]] by simp
next
  case (edits_delete a b n x)
  then show ?case using edits_append [OF edits_delete.IH edits_all_delete [of "[x]"]] by simp
next
  case (edits_step a b n x y)
  then show ?case using edits_append [OF edits_step.IH edits.edits_step [OF edits_done, of x y]] by simp
qed (simp add: edits_done)

lemma levenshtein_rev: "levenshtein (rev a) (rev b) = levenshtein a b"
proof (rule antisym)
  show "levenshtein (rev a) (rev b) \<le> levenshtein a b"
    by (rule edits_lower [OF edits_rev [OF edits_levenshtein]])
  show "levenshtein a b \<le> levenshtein (rev a) (rev b)"
    using edits_lower [OF edits_rev [OF edits_levenshtein [of "rev a" "rev b"]]] by simp
qed

section \<open>The suggestion\<close>

lemma min_by_key_None: "min_by_key f xs = None \<longleftrightarrow> xs = []"
  by (cases xs) (auto split: option.splits)

lemma min_by_key_Some: "min_by_key f xs = Some x \<Longrightarrow> x \<in> set xs \<and> (\<forall>y \<in> set xs. f x \<le> f y)"
  by (induction xs arbitrary: x) (fastforce simp: min_by_key_None split: option.splits if_splits)+

section \<open>Properties\<close>

text \<open>C36: The distance the suggestion uses is the Levenshtein distance, the least cost of an
  edit script from one word to the other.\<close>

theorem edit_distance_least:
  "edit_distance a b = levenshtein a b \<and> edits a b (edit_distance a b) \<and>
   \<not> (\<exists>n < edit_distance a b. edits a b n)"
proof -
  have e: "edit_distance a b = levenshtein a b"
    by (simp add: edit_distance_pdist pdist_def levenshtein_rev)
  have "edits a b (edit_distance a b)" unfolding e by (rule edits_levenshtein)
  moreover have "\<not> edits a b n" if "n < edit_distance a b" for n
    using edits_lower [of a b n] that e by auto
  ultimately show ?thesis using e by blast
qed

text \<open>the registry holds each word once, in lower case, on at least one list, with an example
  that starts with the word; a word is looked up by its spelling, on every list it is on.\<close>

theorem fields_registry:
  "distinct (map fs_word FIELDS) \<and>
   list_all (\<lambda>f. to_ascii_lowercase (fs_word f) = fs_word f \<and> fs_lists f \<noteq> [] \<and> distinct (fs_lists f) \<and>
     distinct (fs_values f) \<and> starts_with (fs_word f @ '':'') (fs_example f) \<and> lookup (fs_word f) = Some f) FIELDS"
  unfolding FIELDS_def by code_simp

text \<open>a suggested word is on the requested list and no word on that list is closer; there is a
  suggestion exactly when some word on the list is within two edits.\<close>

theorem nearest_is_nearest:
  "case nearest w l of
     Some n \<Rightarrow>
       (\<exists>f \<in> set FIELDS. fs_word f = n \<and> l \<in> set (fs_lists f)) \<and> edit_distance w n \<le> 2 \<and>
       list_all (\<lambda>f. edit_distance w n \<le> edit_distance w (fs_word f)) (for_list l)
   | None \<Rightarrow> list_all (\<lambda>f. 2 < edit_distance w (fs_word f)) (for_list l)"
proof -
  let ?c = "filter (\<lambda>(d, _). d \<le> 2) (map (\<lambda>f. (edit_distance w (fs_word f), fs_word f)) (for_list l))"
  show ?thesis
  proof (cases "min_by_key fst ?c")
    case None
    then have "?c = []" by (simp only: min_by_key_None)
    with None show ?thesis by (auto simp: nearest_def list_all_iff filter_empty_conv)
  next
    case (Some p)
    obtain d n where p: "p = (d, n)" by fastforce
    have "p \<in> set ?c" "\<forall>y \<in> set ?c. fst p \<le> fst y" using min_by_key_Some [OF Some] by blast+
    then obtain f where f: "f \<in> set (for_list l)" "n = fs_word f" "d = edit_distance w n" "d \<le> 2"
      "\<forall>g \<in> set (for_list l). edit_distance w (fs_word g) \<le> 2 \<longrightarrow> d \<le> edit_distance w (fs_word g)"
      using p by auto
    from f Some p show ?thesis
      by (fastforce simp: nearest_def list_all_iff for_list_def)
  qed
qed

end
