(* ===== verification/SqlFrag.thy ===== *)
theory SqlFrag
  imports RustStr SearchFields
begin

text \<open>
  A SQL fragment with the values it binds, and what "this contact", "this conversation" and
  "this message" mean from each list's base row (\<open>crates/server/server/src/search/bridge.rs\<close>,
  with the trash clauses of \<open>search/emit.rs\<close>). The code appends to one \<open>Sql\<close>; here an
  emitter returns the fragment it appends, and \<open>cat\<close> puts fragments one behind the other. A
  wrapper takes the fragment its closure would write.
\<close>

datatype sql_param = PText string | PInt int

record sql =
  q_text :: string
  q_params :: "sql_param list"

abbreviation quote :: char where "quote \<equiv> CHR 0x27"
abbreviation bslash :: char where "bslash \<equiv> CHR 0x5C"
abbreviation newline :: char where "newline \<equiv> CHR 0x0A"
abbreviation qq :: string where "qq \<equiv> [CHR 0x27, CHR 0x27]"

definition lit :: "string \<Rightarrow> sql" where "lit s = \<lparr>q_text = s, q_params = []\<rparr>"

definition bind_text :: "string \<Rightarrow> sql" where "bind_text v = \<lparr>q_text = ''?'', q_params = [PText v]\<rparr>"

definition bind_int :: "int \<Rightarrow> sql" where "bind_int v = \<lparr>q_text = ''?'', q_params = [PInt v]\<rparr>"

definition like :: "string \<Rightarrow> string \<Rightarrow> sql" where
  "like column pat =
     \<lparr>q_text = (''lower('' @ column @ '') LIKE lower(?) ESCAPE '' @ [quote] @ [bslash] @ [quote]), q_params = [PText pat]\<rparr>"

definition cat :: "sql list \<Rightarrow> sql" where
  "cat qs = \<lparr>q_text = concat (map q_text qs), q_params = concat (map q_params qs)\<rparr>"

section \<open>The trash\<close>

definition not_trashed_contact_id :: "string \<Rightarrow> string \<Rightarrow> string" where
  "not_trashed_contact_id account_expr id_expr =
     (
       ''NOT EXISTS (SELECT 1 FROM trashed_contacts tct WHERE tct.account_id = '' @
       account_expr @
       '' AND tct.contact_id = '' @
       id_expr @
       '')'')"

definition not_trashed_contact :: "string \<Rightarrow> string" where
  "not_trashed_contact ct = not_trashed_contact_id (ct @ ''.account_id'') (ct @ ''.id'')"

definition not_trashed_conversation :: "string \<Rightarrow> string" where
  "not_trashed_conversation conv =
     (
       ''NOT EXISTS (SELECT 1 FROM trashed_conversations tc WHERE tc.account_id = '' @
       conv @
       ''.account_id AND tc.conversation_id = '' @
       conv @
       ''.id)'')"

definition NOT_TRASHED_CONTACT :: string where
  "NOT_TRASHED_CONTACT =
     (
       ''NOT EXISTS (SELECT 1 FROM trashed_contacts tct WHERE tct.account_id = ct.account_id AND '' @
       ''tct.contact_id = ct.id)'')"

definition NOT_TRASHED_CONVERSATION :: string where
  "NOT_TRASHED_CONVERSATION =
     (
       ''NOT EXISTS (SELECT 1 FROM trashed_conversations tc WHERE tc.account_id = c.account_id AND '' @
       ''tc.conversation_id = c.id)'')"

datatype trash_scope = LeftOut | Counted

definition conversation_clause :: "trash_scope \<Rightarrow> string \<Rightarrow> string" where
  "conversation_clause t conv = (case t of LeftOut \<Rightarrow> '' AND '' @ not_trashed_conversation conv | Counted \<Rightarrow> [])"

definition contact_clause :: "trash_scope \<Rightarrow> string \<Rightarrow> string" where
  "contact_clause t ct = (case t of LeftOut \<Rightarrow> '' AND '' @ not_trashed_contact ct | Counted \<Rightarrow> [])"

section \<open>From one list to another\<close>

definition conversation_involves :: "string \<Rightarrow> string \<Rightarrow> string" where
  "conversation_involves conv contact_expr =
     (
       ''EXISTS (SELECT 1 FROM contact_handles chi WHERE chi.account_id = '' @
       conv @
       ''.account_id AND chi.contact_id = '' @
       contact_expr @
       '' AND (chi.handle_id = '' @
       conv @
       ''.chat_handle_id OR EXISTS (SELECT 1 FROM participants pi WHERE pi.conversation_id = '' @
       conv @
       ''.id AND pi.handle_id = chi.handle_id)))'')"

definition contact_link :: "string \<Rightarrow> string" where
  "contact_link c2 = c2 @ ''.account_id = ct.account_id AND '' @ conversation_involves c2 ''ct.id''"

definition sent_messages_where :: "string \<Rightarrow> trash_scope \<Rightarrow> string" where
  "sent_messages_where handles trash =
     (
       ''FROM contact_handles chs JOIN messages m ON m.sender_handle_id = chs.handle_id AND '' @
       ''m.account_id = chs.account_id JOIN conversations c ON c.id = m.conversation_id WHERE '' @
       handles @
       '' AND m.is_from_me = 0 AND m.duplicate_of IS NULL'' @
       (conversation_clause trash ''c''))"

definition contact_sent_messages :: "trash_scope \<Rightarrow> string" where
  "contact_sent_messages trash =
     sent_messages_where ''chs.account_id = ct.account_id AND chs.contact_id = ct.id'' trash"

definition contact_sent_messages_from :: "string \<Rightarrow> trash_scope \<Rightarrow> string" where
  "contact_sent_messages_from handle_expr trash =
     sent_messages_where
       (
       ''chs.account_id = ct.account_id AND chs.contact_id = ct.id AND chs.handle_id = '' @
       handle_expr)
       trash"

text \<open>The account's zone is used for one thing, the instant a day begins as text: \<open>utc_instant\<close>
  with the zone, here a function of the day.\<close>

record 'd list_ctx =
  cx_list :: list_kind
  cx_account :: int
  cx_instant :: "'d \<Rightarrow> string option"
  cx_trash :: trash_scope

definition account_col :: "'d list_ctx \<Rightarrow> string" where
  "account_col cx =
     (case cx_list cx of
        Contacts \<Rightarrow> ''ct.account_id'' | Conversations \<Rightarrow> ''c.account_id'' | Messages \<Rightarrow> ''m.account_id'')"

definition contact_conversations_link :: "'d list_ctx \<Rightarrow> string \<Rightarrow> string" where
  "contact_conversations_link cx c2 = contact_link c2 @ conversation_clause (cx_trash cx) c2"

definition on_conversation :: "'d list_ctx \<Rightarrow> sql \<Rightarrow> sql" where
  "on_conversation cx inner =
     (case cx_list cx of
        Conversations \<Rightarrow> cat [lit ''('', inner, lit '')'']
      | Messages \<Rightarrow>
          cat [lit ''EXISTS (SELECT 1 FROM conversations c WHERE c.id = m.conversation_id AND ('', inner, lit ''))'']
      | Contacts \<Rightarrow>
          cat [lit (
       ''EXISTS (SELECT 1 FROM conversations c WHERE '' @
       (contact_conversations_link cx ''c'') @
       '' AND (''),
            inner, lit ''))''])"

definition on_message :: "'d list_ctx \<Rightarrow> sql \<Rightarrow> sql" where
  "on_message cx inner =
     (case cx_list cx of
        Messages \<Rightarrow>
          cat [lit ''EXISTS (SELECT 1 FROM conversations c WHERE c.id = m.conversation_id AND ('', inner, lit ''))'']
      | Conversations \<Rightarrow>
          cat [lit (
       ''EXISTS (SELECT 1 FROM messages m WHERE m.conversation_id = c.id AND m.duplicate_of IS NULL '' @
       ''AND (''),
            inner, lit ''))'']
      | Contacts \<Rightarrow>
          cat [lit (''EXISTS (SELECT 1 '' @ (contact_sent_messages (cx_trash cx)) @ '' AND (''), inner, lit ''))''])"

definition on_conversation_message :: "'d list_ctx \<Rightarrow> sql \<Rightarrow> sql" where
  "on_conversation_message cx inner =
     (case cx_list cx of
        Messages \<Rightarrow> on_message cx inner
      | Conversations \<Rightarrow> on_message cx inner
      | Contacts \<Rightarrow>
          cat [lit (
       ''EXISTS (SELECT 1 FROM conversations c JOIN messages m ON m.conversation_id = c.id AND '' @
       ''m.duplicate_of IS NULL WHERE '' @
       (contact_conversations_link cx ''c'') @
       '' AND (''),
            inner, lit ''))''])"

definition on_contact :: "'d list_ctx \<Rightarrow> sql \<Rightarrow> sql" where
  "on_contact cx inner =
     (case cx_list cx of
        Contacts \<Rightarrow> cat [lit ''('', inner, lit '')'']
      | Conversations \<Rightarrow>
          cat [lit (
       ''EXISTS (SELECT 1 FROM contacts ct WHERE ct.account_id = c.account_id AND '' @
       (conversation_involves ''c'' ''ct.id'') @
       (contact_clause (cx_trash cx) ''ct'') @
       '' AND (''),
            inner, lit ''))'']
      | Messages \<Rightarrow>
          cat [lit (
       ''EXISTS (SELECT 1 FROM conversations c JOIN contacts ct ON ct.account_id = c.account_id '' @
       ''WHERE c.id = m.conversation_id AND '' @
       (conversation_involves ''c'' ''ct.id'') @
       (contact_clause (cx_trash cx) ''ct'') @
       '' AND (''),
            inner, lit ''))''])"

definition reach :: "'d list_ctx \<Rightarrow> list_kind \<Rightarrow> sql \<Rightarrow> sql" where
  "reach cx l inner =
     (case l of
        Contacts \<Rightarrow> on_contact cx inner
      | Conversations \<Rightarrow> on_conversation cx inner
      | Messages \<Rightarrow> on_message cx inner)"

datatype message_agg = AggCount | AggFirst | AggLast

definition message_aggregate :: "'d list_ctx \<Rightarrow> message_agg \<Rightarrow> string" where
  "message_aggregate cx agg =
     (let per_conversation =
            (case agg of AggCount \<Rightarrow> ''COUNT(*)'' | AggFirst \<Rightarrow> ''MIN(m2.timestamp)'' | AggLast \<Rightarrow> ''MAX(m2.timestamp)'')
      in case cx_list cx of
           Messages \<Rightarrow>
             (
       ''(SELECT '' @
       per_conversation @
       '' FROM messages m2 WHERE m2.conversation_id = m.conversation_id AND m2.duplicate_of IS NULL)'')
         | Conversations \<Rightarrow>
             (
       ''(SELECT '' @
       per_conversation @
       '' FROM messages m2 WHERE m2.conversation_id = c.id AND m2.duplicate_of IS NULL)'')
         | Contacts \<Rightarrow>
             (let sent =
                    (case agg of AggCount \<Rightarrow> ''COUNT(*)'' | AggFirst \<Rightarrow> ''MIN(m.timestamp)'' | AggLast \<Rightarrow> ''MAX(m.timestamp)'')
              in (''(SELECT '' @ sent @ '' '' @ (contact_sent_messages (cx_trash cx)) @ '')'')))"

section \<open>The shape of SQL text\<close>

text \<open>
  What a text does to the nesting of parentheses: how far it goes below its start, where it
  ends, and how many placeholders it has. \<open>skel\<close> is the text at depth 0 alone, with \<open>()\<close> for
  each parenthesis that opens and closes there.
\<close>

primrec net :: "string \<Rightarrow> int" where
  "net [] = 0"
| "net (c # s) = (if c = CHR ''('' then 1 else if c = CHR '')'' then -1 else 0) + net s"

primrec low :: "string \<Rightarrow> int" where
  "low [] = 0"
| "low (c # s) = min 0 ((if c = CHR ''('' then 1 else if c = CHR '')'' then -1 else 0) + low s)"

primrec holes :: "string \<Rightarrow> nat" where
  "holes [] = 0"
| "holes (c # s) = (if c = CHR ''?'' then Suc (holes s) else holes s)"

primrec skel :: "nat \<Rightarrow> string \<Rightarrow> string" where
  "skel d [] = []"
| "skel d (c # s) =
     (if c = CHR ''('' then (if d = 0 then [c] else []) @ skel (Suc d) s
      else if c = CHR '')'' then (if d \<le> 1 then [c] else []) @ skel (d - 1) s
      else (if d = 0 then [c] else []) @ skel d s)"

lemma net_append [simp]: "net (s @ t) = net s + net t"
  by (induction s) auto

lemma low_le_0: "low s \<le> 0"
  by (cases s) auto

lemma low_append [simp]: "low (s @ t) = min (low s) (net s + low t)"
  by (induction s) (use low_le_0 [of t] in \<open>auto simp: min_def\<close>)

lemma holes_append [simp]: "holes (s @ t) = holes s + holes t"
  by (induction s) auto

lemma skel_append: "0 \<le> int d + low s \<Longrightarrow> skel d (s @ t) = skel d s @ skel (nat (int d + net s)) t"
proof (induction s arbitrary: d)
  case (Cons c s)
  consider "c = CHR ''(''" | "c = CHR '')''" "1 \<le> d" | "c \<noteq> CHR ''(''" "c \<noteq> CHR '')''"
    using Cons.prems low_le_0 [of s] by (cases "c = CHR '')''") (force split: if_splits)+
  then show ?case
  proof cases
    case 1
    with Cons.prems have "0 \<le> int (Suc d) + low s" by (simp add: min_def split: if_splits)
    from Cons.IH [OF this] 1 show ?thesis by (simp add: add.commute add.left_commute)
  next
    case 2
    with Cons.prems have "0 \<le> int (d - 1) + low s" by (simp add: min_def split: if_splits)
    from Cons.IH [OF this] 2 show ?thesis by (simp add: of_nat_diff algebra_simps)
  next
    case 3
    with Cons.prems have "0 \<le> int d + low s" by (simp add: min_def split: if_splits)
    from Cons.IH [OF this] 3 show ?thesis by simp
  qed
qed simp

lemma skel_inside: "1 \<le> int d + low s \<Longrightarrow> skel d s = []"
proof (induction s arbitrary: d)
  case (Cons c s)
  consider "c = CHR ''(''" | "c = CHR '')''" | "c \<noteq> CHR ''(''" "c \<noteq> CHR '')''" by blast
  then show ?case
  proof cases
    case 1
    with Cons.prems have "1 \<le> int (Suc d) + low s" "0 < d" by (simp_all add: min_def split: if_splits)
    with Cons.IH 1 show ?thesis by simp
  next
    case 2
    with Cons.prems low_le_0 [of s] have "1 \<le> int (d - 1) + low s" "2 \<le> d" by (simp_all add: min_def split: if_splits)
    with Cons.IH 2 show ?thesis by simp
  next
    case 3
    with Cons.prems have "1 \<le> int d + low s" "0 < d" by (simp_all add: min_def split: if_splits)
    with Cons.IH 3 show ?thesis by simp
  qed
qed simp

text \<open>Text whose parentheses close what they open, and fragments with a value for each
  placeholder besides.\<close>

definition closed :: "string \<Rightarrow> bool" where "closed s \<longleftrightarrow> net s = 0 \<and> low s = 0"

definition plain :: "string \<Rightarrow> bool" where "plain s \<longleftrightarrow> closed s \<and> holes s = 0"

definition sound_sql :: "sql \<Rightarrow> bool" where
  "sound_sql q \<longleftrightarrow> closed (q_text q) \<and> holes (q_text q) = length (q_params q)"

lemma skel_closed [simp]:
  "closed s \<Longrightarrow> skel d (s @ t) = skel d s @ skel d t"
  "closed s \<Longrightarrow> skel (Suc d) s = []"
  by (simp_all add: closed_def skel_append skel_inside)

lemma cat_simps [simp]:
  "q_text (cat []) = []" "q_params (cat []) = []"
  "q_text (cat (q # qs)) = q_text q @ q_text (cat qs)"
  "q_params (cat (q # qs)) = q_params q @ q_params (cat qs)"
  by (simp_all add: cat_def)

lemma frag_simps [simp]:
  "q_text (lit s) = s" "q_params (lit s) = []"
  "q_text (bind_text v) = ''?''" "q_params (bind_text v) = [PText v]"
  "q_text (bind_int n) = ''?''" "q_params (bind_int n) = [PInt n]"
  "q_params (like col pat) = [PText pat]"
  by (simp_all add: lit_def bind_text_def bind_int_def like_def)

lemma plain_append: "plain s \<Longrightarrow> plain t \<Longrightarrow> plain (s @ t)"
  by (simp add: plain_def closed_def)

lemma plain_trash:
  "plain a \<Longrightarrow> plain b \<Longrightarrow> plain (not_trashed_contact_id a b)"
  "plain a \<Longrightarrow> plain (not_trashed_contact a)"
  "plain a \<Longrightarrow> plain (not_trashed_conversation a)"
  "plain NOT_TRASHED_CONTACT" "plain NOT_TRASHED_CONVERSATION"
  by (simp_all add: plain_def closed_def not_trashed_contact_id_def not_trashed_contact_def
      not_trashed_conversation_def NOT_TRASHED_CONTACT_def NOT_TRASHED_CONVERSATION_def)

lemma plain_clause:
  "plain a \<Longrightarrow> plain (conversation_clause t a)" "plain a \<Longrightarrow> plain (contact_clause t a)"
  using plain_trash(2,3) [of a]
  by (cases t; simp add: conversation_clause_def contact_clause_def plain_def closed_def)+

lemma plain_links:
  "plain a \<Longrightarrow> plain b \<Longrightarrow> plain (conversation_involves a b)"
  "plain a \<Longrightarrow> plain (contact_link a)"
  "plain a \<Longrightarrow> plain (contact_conversations_link cx a)"
proof -
  show 1: "plain a \<Longrightarrow> plain b \<Longrightarrow> plain (conversation_involves a b)" for a b
    by (simp add: plain_def closed_def conversation_involves_def)
  show 2: "plain a \<Longrightarrow> plain (contact_link a)" for a
    using 1 [of a "''ct.id''"] by (simp add: plain_def closed_def contact_link_def)
  show "plain a \<Longrightarrow> plain (contact_conversations_link cx a)"
    unfolding contact_conversations_link_def by (rule plain_append [OF 2 plain_clause(1)])
qed

lemma plain_alias: "plain ''c''" "plain ''c2''" "plain ''ct''" "plain ''ct.id''" "plain ''pct''" "plain ''ctp''"
  by (simp_all add: plain_def closed_def)

lemma plain_sent:
  "plain h \<Longrightarrow> plain (sent_messages_where h t)"
  "plain (contact_sent_messages t)"
  "plain h \<Longrightarrow> plain (contact_sent_messages_from h t)"
proof -
  show 1: "plain h \<Longrightarrow> plain (sent_messages_where h t)" for h
    using plain_clause(1) [OF plain_alias(1), of t] by (simp add: plain_def closed_def sent_messages_where_def)
  show "plain (contact_sent_messages t)"
    unfolding contact_sent_messages_def by (rule 1) (simp add: plain_def closed_def)
  show "plain h \<Longrightarrow> plain (contact_sent_messages_from h t)"
    unfolding contact_sent_messages_from_def by (rule 1) (simp add: plain_def closed_def)
qed

lemma plain_aggregate: "plain (message_aggregate cx agg)"
  using plain_sent(2) [of "cx_trash cx"]
  by (cases "cx_list cx"; cases agg) (simp_all add: message_aggregate_def plain_def closed_def Let_def)

lemma sound_wrap:
  "sound_sql q \<Longrightarrow> sound_sql (on_conversation cx q)"
  "sound_sql q \<Longrightarrow> sound_sql (on_message cx q)"
  "sound_sql q \<Longrightarrow> sound_sql (on_conversation_message cx q)"
  "sound_sql q \<Longrightarrow> sound_sql (on_contact cx q)"
  "sound_sql q \<Longrightarrow> sound_sql (reach cx l q)"
proof -
  note plain = plain_links(3) [OF plain_alias(1), of cx] plain_sent(2) [of "cx_trash cx"]
    plain_links(1) [OF plain_alias(1,4)] plain_clause(2) [OF plain_alias(3), of "cx_trash cx"]
  note sound = plain [unfolded plain_def closed_def] sound_sql_def closed_def
  show 1: "sound_sql q \<Longrightarrow> sound_sql (on_conversation cx q)"
    using plain by (cases "cx_list cx") (simp_all add: on_conversation_def sound)
  show 2: "sound_sql q \<Longrightarrow> sound_sql (on_message cx q)"
    using plain by (cases "cx_list cx") (simp_all add: on_message_def sound)
  show "sound_sql q \<Longrightarrow> sound_sql (on_conversation_message cx q)"
    using 2 by (cases "cx_list cx") (simp_all add: on_conversation_message_def sound)
  show 3: "sound_sql q \<Longrightarrow> sound_sql (on_contact cx q)"
    by (cases "cx_list cx") (simp_all add: on_contact_def sound)
  show "sound_sql q \<Longrightarrow> sound_sql (reach cx l q)"
    using 1 2 3 by (cases l) (simp_all add: reach_def)
qed

end
