(* ===== verification/Lex.thy ===== *)
theory Lex
  imports Utf8
begin

text \<open>
  The search language's tokenizer (\<open>crates/server/server/src/search/lex.rs\<close>) and its
  errors (\<open>error.rs\<close>). The query is its UTF-8 bytes; positions are byte positions, as in
  the code. A slice is only taken between ASCII bytes, so it never splits a character.
\<close>

section \<open>Errors\<close>

datatype query_error_kind =
  UnknownWord | WrongList | BadValue | EmptyValue | Unbalanced | TooLong | TooComplex

record query_error =
  qe_kind :: query_error_kind
  qe_message :: string
  qe_span :: "nat \<times> nat"
  qe_field :: "string option"
  qe_did_you_mean :: "string option"

definition query_error_new :: "query_error_kind \<Rightarrow> nat \<times> nat \<Rightarrow> string \<Rightarrow> query_error" where
  "query_error_new k sp m =
     \<lparr>qe_kind = k, qe_message = m, qe_span = sp, qe_field = None, qe_did_you_mean = None\<rparr>"

section \<open>Tokens\<close>

definition MAX_QUERY_BYTES :: nat where "MAX_QUERY_BYTES = 2048"

datatype token_kind =
  LParen | RParen | OrTok | AndTok | NotTok
  | FieldTok (word: string) (val: string) (quoted: bool)
  | WordTok string bool
  | PhraseTok string

record tok =
  t_kind :: token_kind
  t_span :: "nat \<times> nat"
  t_negated :: bool

abbreviation quote_char :: char where "quote_char \<equiv> CHR 0x22"

fun read_quoted_loop :: "string \<Rightarrow> nat \<Rightarrow> string \<Rightarrow> (string \<times> nat) option" where
  "read_quoted_loop [] i out = None"
| "read_quoted_loop (b # bs) i out =
     (if b = quote_char then
        (case bs of
           c # cs \<Rightarrow>
             if c = quote_char then read_quoted_loop cs (i + 2) (out @ [quote_char])
             else Some (utf8_lossy (as_bytes out), i + 1)
         | [] \<Rightarrow> Some (utf8_lossy (as_bytes out), i + 1))
      else read_quoted_loop bs (i + 1) (out @ [b]))"

definition read_quoted :: "string \<Rightarrow> nat \<Rightarrow> (string \<times> nat) option" where
  "read_quoted bytes i = read_quoted_loop (drop i bytes) i []"

text \<open>A multi-byte character has no ASCII byte, so the test on characters is one on bytes.\<close>

definition is_field_word :: "string \<Rightarrow> bool" where
  "is_field_word s =
     (case s of
        [] \<Rightarrow> False
      | c # cs \<Rightarrow> is_ascii_alphabetic c \<and> list_all (\<lambda>c. is_ascii_alphabetic c \<or> c = CHR ''-'') cs)"

definition is_bare_end :: "char \<Rightarrow> bool" where
  "is_bare_end b \<longleftrightarrow> is_ascii_whitespace b \<or> b = CHR ''('' \<or> b = CHR '')''"

section \<open>The lexer\<close>

record lexer =
  l_bytes :: string
  l_pos :: nat
  l_tokens :: "tok list"

definition l_at :: "lexer \<Rightarrow> nat \<Rightarrow> char option" where
  "l_at l i = nth_opt (l_bytes l) i"

definition l_peek :: "lexer \<Rightarrow> char option" where
  "l_peek l = l_at l (l_pos l)"

definition scan_from :: "lexer \<Rightarrow> nat \<Rightarrow> (char \<Rightarrow> bool) \<Rightarrow> nat" where
  "scan_from l i keep = i + length (takeWhile keep (drop i (l_bytes l)))"

definition l_scan :: "lexer \<Rightarrow> (char \<Rightarrow> bool) \<Rightarrow> nat" where
  "l_scan l keep = scan_from l (l_pos l) keep"

definition l_slice :: "lexer \<Rightarrow> nat \<Rightarrow> nat \<Rightarrow> string" where
  "l_slice l a b = take (b - a) (drop a (l_bytes l))"

definition skip_whitespace :: "lexer \<Rightarrow> bool \<times> lexer" where
  "skip_whitespace l =
     (let l' = l\<lparr>l_pos := l_scan l is_ascii_whitespace\<rparr> in (l_pos l' < length (l_bytes l'), l'))"

definition push_tok :: "token_kind \<Rightarrow> nat \<Rightarrow> nat \<Rightarrow> bool \<Rightarrow> lexer \<Rightarrow> lexer" where
  "push_tok k start e negated l =
     l\<lparr>l_tokens := l_tokens l @ [\<lparr>t_kind = k, t_span = (start, e), t_negated = negated\<rparr>], l_pos := e\<rparr>"

definition quoted_after :: "lexer \<Rightarrow> nat \<Rightarrow> query_error + string \<times> nat" where
  "quoted_after l q =
     (case read_quoted (l_bytes l) (q + 1) of
        Some r \<Rightarrow> Inr r
      | None \<Rightarrow> Inl (query_error_new Unbalanced (q, length (l_bytes l)) ''A quote never closes.''))"

definition word_or_operator :: "string \<Rightarrow> bool \<Rightarrow> token_kind" where
  "word_or_operator t negated =
     (let low = to_ascii_lowercase t
      in if low = ''or'' \<and> \<not> negated then OrTok
         else if low = ''and'' \<and> \<not> negated then AndTok
         else if low = ''not'' \<and> \<not> negated then NotTok
         else (case strip_suffix ''*'' t of
             Some stem \<Rightarrow> if stem \<noteq> [] then WordTok stem True else WordTok t False
           | None \<Rightarrow> WordTok t False))"

definition read_field :: "nat \<Rightarrow> bool \<Rightarrow> string \<Rightarrow> nat \<Rightarrow> lexer \<Rightarrow> query_error + lexer" where
  "read_field start negated w value_start l =
     (if l_at l value_start = Some quote_char then
        bind_res (quoted_after l value_start) (\<lambda>(v, next_pos).
          Inr (push_tok (FieldTok w v True) start next_pos negated l))
      else
        (let e = scan_from l value_start (\<lambda>b. \<not> is_bare_end b)
         in Inr (push_tok (FieldTok w (l_slice l value_start e) False) start e negated l)))"

definition read_bare :: "nat \<Rightarrow> bool \<Rightarrow> lexer \<Rightarrow> query_error + lexer" where
  "read_bare start negated l =
     (let head_end = l_scan l (\<lambda>b. \<not> is_bare_end b \<and> b \<noteq> CHR '':'');
          head = l_slice l (l_pos l) head_end
      in if l_at l head_end = Some CHR '':'' \<and> is_field_word head \<and> l_at l (head_end + 1) \<noteq> Some CHR ''/''
         then read_field start negated (to_ascii_lowercase head) (head_end + 1) l
         else
           (let e = l_scan l (\<lambda>b. \<not> is_bare_end b)
            in Inr (push_tok (word_or_operator (l_slice l (l_pos l) e) negated) start e negated l)))"

text \<open>A \<open>-\<close> that negates the token after it.\<close>

definition leading_minus :: "lexer \<Rightarrow> bool" where
  "leading_minus l \<longleftrightarrow>
     l_peek l = Some CHR ''-'' \<and>
     (case l_at l (l_pos l + 1) of
        Some b \<Rightarrow> \<not> is_ascii_whitespace b \<and> b \<noteq> CHR '')''
      | None \<Rightarrow> False)"

definition next_token :: "lexer \<Rightarrow> query_error + lexer" where
  "next_token l =
     (let start = l_pos l
      in if l_peek l = Some CHR '')'' then Inr (push_tok RParen start (start + 1) False l)
         else
           (let negated = leading_minus l;
                l = (if negated then l\<lparr>l_pos := start + 1\<rparr> else l)
            in if l_peek l = Some CHR ''('' then Inr (push_tok LParen start (l_pos l + 1) negated l)
               else if l_peek l = Some quote_char then
                 bind_res (quoted_after l (l_pos l)) (\<lambda>(t, next_pos).
                   Inr (push_tok (PhraseTok t) start next_pos negated l))
               else read_bare start negated l))"

section \<open>Progress\<close>

lemma read_quoted_loop_bounds:
  "read_quoted_loop bs i out = Some (t, n) \<Longrightarrow> i < n \<and> n \<le> i + length bs"
  by (induction bs i out rule: read_quoted_loop.induct) (auto split: if_splits list.splits)

lemma quoted_after_bounds:
  assumes "quoted_after l q = Inr (t, n)"
  shows "q + 1 < n" "n \<le> length (l_bytes l)"
proof -
  have "read_quoted_loop (drop (q + 1) (l_bytes l)) (q + 1) [] = Some (t, n)"
    using assms by (auto simp: quoted_after_def read_quoted_def split: option.splits)
  from read_quoted_loop_bounds [OF this] show "q + 1 < n" "n \<le> length (l_bytes l)"
    by auto
qed

lemma scan_from_bounds: "i \<le> scan_from l i keep" "i \<le> length (l_bytes l) \<Longrightarrow> scan_from l i keep \<le> length (l_bytes l)"
  using length_takeWhile_le [of keep "drop i (l_bytes l)"] by (auto simp: scan_from_def)

lemma scan_from_first:
  "l_at l i = Some b \<Longrightarrow> keep b \<Longrightarrow> i < scan_from l i keep"
  by (auto simp: scan_from_def l_at_def nth_opt_def Cons_nth_drop_Suc [symmetric] split: if_splits)

text \<open>The one place a token comes from: the next token starts at the cursor, ends behind it
  and the cursor moves to its end.\<close>

definition pushes :: "lexer \<Rightarrow> lexer \<Rightarrow> bool" where
  "pushes l l' \<longleftrightarrow>
     (\<exists>t. l_tokens l' = l_tokens l @ [t] \<and> fst (t_span t) = l_pos l \<and> snd (t_span t) = l_pos l' \<and>
        l_bytes l' = l_bytes l \<and> l_pos l < l_pos l' \<and> l_pos l' \<le> length (l_bytes l))"

lemma pushesI:
  "start = l_pos l \<Longrightarrow> l_tokens l1 = l_tokens l \<Longrightarrow> l_bytes l1 = l_bytes l \<Longrightarrow> l_pos l < e \<Longrightarrow>
   e \<le> length (l_bytes l) \<Longrightarrow> pushes l (push_tok k start e negated l1)"
  by (auto simp: pushes_def push_tok_def)

lemma read_bare_pushes:
  assumes "read_bare start negated l1 = Inr l'" "start = l_pos l" "l_tokens l1 = l_tokens l"
    "l_bytes l1 = l_bytes l" "l_pos l \<le> l_pos l1" "l_peek l1 = Some b" "\<not> is_bare_end b"
  shows "pushes l l'"
proof -
  define h where "h = l_scan l1 (\<lambda>b. \<not> is_bare_end b \<and> b \<noteq> CHR '':'')"
  define e where "e = l_scan l1 (\<lambda>b. \<not> is_bare_end b)"
  have pos: "l_pos l1 < length (l_bytes l1)"
    using assms(6) by (auto simp: l_peek_def l_at_def nth_opt_def split: if_splits)
  have e: "l_pos l < e" "e \<le> length (l_bytes l)"
    using scan_from_first [of l1 "l_pos l1" b "\<lambda>b. \<not> is_bare_end b"] scan_from_bounds(2) [of "l_pos l1" l1] assms pos
    by (auto simp: e_def l_scan_def l_peek_def)
  show ?thesis
  proof (cases "l_at l1 h = Some CHR '':'' \<and> is_field_word (l_slice l1 (l_pos l1) h) \<and> l_at l1 (h + 1) \<noteq> Some CHR ''/''")
    case False
    with assms e show ?thesis
      by (auto simp: read_bare_def Let_def h_def [symmetric] e_def [symmetric] intro!: pushesI)
  next
    case True
    then have h: "h < length (l_bytes l1)" "l_pos l1 \<le> h"
      using scan_from_bounds(1) [of "l_pos l1" l1] by (auto simp: l_at_def nth_opt_def h_def l_scan_def split: if_splits)
    have f: "read_field start negated (to_ascii_lowercase (l_slice l1 (l_pos l1) h)) (h + 1) l1 = Inr l'"
      using assms(1) True by (simp add: read_bare_def Let_def h_def [symmetric])
    show ?thesis
    proof (cases "l_at l1 (h + 1) = Some quote_char")
      case True
      then obtain v n where n: "quoted_after l1 (h + 1) = Inr (v, n)"
        "l' = push_tok (FieldTok (to_ascii_lowercase (l_slice l1 (l_pos l1) h)) v True) start n negated l1"
        using f by (auto simp: read_field_def bind_res_eq_Inr)
      from quoted_after_bounds [OF n(1)] h n(2) assms show ?thesis by (auto intro!: pushesI)
    next
      case False
      have "h + 1 \<le> scan_from l1 (h + 1) (\<lambda>b. \<not> is_bare_end b)"
        "scan_from l1 (h + 1) (\<lambda>b. \<not> is_bare_end b) \<le> length (l_bytes l1)"
        using scan_from_bounds [of "h + 1" l1] h by auto
      with False f h assms show ?thesis by (auto simp: read_field_def Let_def intro!: pushesI)
    qed
  qed
qed

lemma next_token_peek:
  assumes "l_peek l = Some b" "\<not> is_ascii_whitespace b" "l_peek l \<noteq> Some CHR '')''"
  shows "\<exists>c. l_peek (if leading_minus l then l\<lparr>l_pos := l_pos l + 1\<rparr> else l) = Some c \<and>
    \<not> is_ascii_whitespace c \<and> c \<noteq> CHR '')''"
proof (cases "leading_minus l")
  case True
  then show ?thesis by (auto simp: leading_minus_def l_peek_def l_at_def split: option.splits)
qed (use assms in auto)

lemma next_token_pushes:
  assumes "next_token l = Inr l'" "l_peek l = Some b" "\<not> is_ascii_whitespace b"
  shows "pushes l l'"
proof -
  have pos: "l_pos l < length (l_bytes l)"
    using assms(2) by (auto simp: l_peek_def l_at_def nth_opt_def split: if_splits)
  let ?negated = "leading_minus l"
  define l1 where "l1 = (if ?negated then l\<lparr>l_pos := l_pos l + 1\<rparr> else l)"
  have l1: "l_tokens l1 = l_tokens l" "l_bytes l1 = l_bytes l" "l_pos l \<le> l_pos l1"
    by (simp_all add: l1_def)
  show ?thesis
  proof (cases "l_peek l = Some CHR '')''")
    case True
    with assms(1) pos show ?thesis by (auto simp: next_token_def Let_def intro!: pushesI)
  next
    case False
    from next_token_peek [OF assms(2,3) False] obtain c where
      c: "l_peek l1 = Some c" "\<not> is_ascii_whitespace c" "c \<noteq> CHR '')''"
      unfolding l1_def by blast
    have pos1: "l_pos l1 < length (l_bytes l)"
      using c(1) l1 by (auto simp: l_peek_def l_at_def nth_opt_def split: if_splits)
    have nt: "next_token l =
      (if l_peek l1 = Some CHR ''('' then Inr (push_tok LParen (l_pos l) (l_pos l1 + 1) ?negated l1)
       else if l_peek l1 = Some quote_char then
         bind_res (quoted_after l1 (l_pos l1)) (\<lambda>(t, n). Inr (push_tok (PhraseTok t) (l_pos l) n ?negated l1))
       else read_bare (l_pos l) ?negated l1)"
      using False by (simp add: next_token_def Let_def l1_def)
    consider "c = CHR ''(''" | "c = quote_char" | "\<not> is_bare_end c" "c \<noteq> quote_char" "c \<noteq> CHR ''(''"
      using c by (auto simp: is_bare_end_def)
    then show ?thesis
    proof cases
      case 1
      with nt assms(1) c pos1 l1 show ?thesis by (auto intro!: pushesI)
    next
      case 2
      then obtain t n where n: "quoted_after l1 (l_pos l1) = Inr (t, n)"
        "l' = push_tok (PhraseTok t) (l_pos l) n ?negated l1"
        using nt assms(1) c by (cases "quoted_after l1 (l_pos l1)") auto
      from quoted_after_bounds [OF n(1)] n(2) l1 show ?thesis by (auto intro!: pushesI)
    next
      case 3
      with nt assms(1) c have "read_bare (l_pos l) ?negated l1 = Inr l'" by simp
      from read_bare_pushes [OF this refl l1 c(1) 3(1)] show ?thesis .
    qed
  qed
qed

lemma skip_whitespace_peek:
  "skip_whitespace l = (True, l1) \<Longrightarrow>
   l1 = l\<lparr>l_pos := l_pos l1\<rparr> \<and> l_pos l \<le> l_pos l1 \<and> (\<exists>b. l_peek l1 = Some b \<and> \<not> is_ascii_whitespace b)"
proof -
  assume s: "skip_whitespace l = (True, l1)"
  define n where "n = length (takeWhile is_ascii_whitespace (drop (l_pos l) (l_bytes l)))"
  from s have l1: "l1 = l\<lparr>l_pos := l_pos l + n\<rparr>" "l_pos l + n < length (l_bytes l)"
    by (auto simp: skip_whitespace_def l_scan_def scan_from_def Let_def n_def)
  then have "\<not> is_ascii_whitespace (drop (l_pos l) (l_bytes l) ! n)"
    unfolding n_def by (intro nth_length_takeWhile) (simp add: n_def [symmetric])
  with l1 show ?thesis by (simp add: l_peek_def l_at_def nth_opt_def)
qed

function tokenize_loop :: "lexer \<Rightarrow> query_error + tok list" where
  "tokenize_loop l =
     (case skip_whitespace l of
        (False, l) \<Rightarrow> Inr (l_tokens l)
      | (True, l) \<Rightarrow> bind_res (next_token l) tokenize_loop)"
  by pat_completeness auto
termination
proof (relation "measure (\<lambda>l. length (l_bytes l) - l_pos l)", goal_cases)
  case 1
  show ?case by simp
next
  case (2 l p l1 l2)
  then have s: "skip_whitespace l = (True, l1)" "next_token l1 = Inr l2" by auto
  from skip_whitespace_peek [OF s(1)] obtain b where b: "l_bytes l1 = l_bytes l" "l_pos l \<le> l_pos l1"
    "l_peek l1 = Some b" "\<not> is_ascii_whitespace b"
    by (metis lexer.select_convs(1) lexer.surjective lexer.update_convs(2))
  from next_token_pushes [OF s(2) b(3,4)] b show ?case by (auto simp: pushes_def)
qed

declare tokenize_loop.simps [simp del]

definition nul_to_space :: "char \<Rightarrow> char" where
  "nul_to_space c = (if c = CHR 0x00 then CHR '' '' else c)"

definition tokenize :: "string \<Rightarrow> query_error + tok list" where
  "tokenize input =
     (if MAX_QUERY_BYTES < length input then
        Inl (query_error_new TooLong (0, length input)
          (''The search is longer than '' @ dec_string MAX_QUERY_BYTES @ '' bytes.''))
      else tokenize_loop \<lparr>l_bytes = map nul_to_space input, l_pos = 0, l_tokens = []\<rparr>)"

section \<open>What the loop collects\<close>

text \<open>
  The spans of the tokens read so far lie one behind the other up to the cursor, and every
  byte before the cursor that is in no span is white space.
\<close>

definition spans_ok :: "lexer \<Rightarrow> bool" where
  "spans_ok l \<longleftrightarrow>
     l_pos l \<le> length (l_bytes l) \<and>
     sorted_wrt (\<lambda>a b. snd (t_span a) \<le> fst (t_span b)) (l_tokens l) \<and>
     (\<forall>t \<in> set (l_tokens l). fst (t_span t) < snd (t_span t) \<and> snd (t_span t) \<le> l_pos l) \<and>
     (\<forall>i < l_pos l. (\<exists>t \<in> set (l_tokens l). fst (t_span t) \<le> i \<and> i < snd (t_span t)) \<or>
        is_ascii_whitespace (l_bytes l ! i))"

lemma spans_ok_push: "spans_ok l \<Longrightarrow> pushes l l' \<Longrightarrow> spans_ok l'"
proof -
  assume ok: "spans_ok l" and "pushes l l'"
  then obtain t where t: "l_tokens l' = l_tokens l @ [t]" "fst (t_span t) = l_pos l" "snd (t_span t) = l_pos l'"
    "l_bytes l' = l_bytes l" "l_pos l < l_pos l'" "l_pos l' \<le> length (l_bytes l)"
    by (auto simp: pushes_def)
  have "(\<exists>t \<in> set (l_tokens l'). fst (t_span t) \<le> i \<and> i < snd (t_span t)) \<or> is_ascii_whitespace (l_bytes l' ! i)"
    if "i < l_pos l'" for i
    using ok t that by (cases "i < l_pos l") (auto simp: spans_ok_def)
  with ok t show ?thesis by (fastforce simp: spans_ok_def sorted_wrt_append)
qed

lemma takeWhile_before: "i < length (takeWhile P xs) \<Longrightarrow> P (xs ! i)"
  by (metis nth_mem set_takeWhileD takeWhile_nth)

lemma spans_ok_skip: "spans_ok l \<Longrightarrow> skip_whitespace l = (more_input, l1) \<Longrightarrow> spans_ok l1"
proof -
  assume ok: "spans_ok l" and s: "skip_whitespace l = (more_input, l1)"
  define n where "n = length (takeWhile is_ascii_whitespace (drop (l_pos l) (l_bytes l)))"
  have l1: "l1 = l\<lparr>l_pos := l_pos l + n\<rparr>"
    using s by (auto simp: skip_whitespace_def l_scan_def scan_from_def Let_def n_def)
  have len: "l_pos l + n \<le> length (l_bytes l)"
    using ok length_takeWhile_le [of is_ascii_whitespace "drop (l_pos l) (l_bytes l)"]
    by (auto simp: n_def spans_ok_def)
  have "(\<exists>t \<in> set (l_tokens l). fst (t_span t) \<le> i \<and> i < snd (t_span t)) \<or> is_ascii_whitespace (l_bytes l ! i)"
    if i: "i < l_pos l + n" for i
  proof (cases "i < l_pos l")
    case False
    then have "is_ascii_whitespace (drop (l_pos l) (l_bytes l) ! (i - l_pos l))"
      using i by (intro takeWhile_before [of _ is_ascii_whitespace]) (auto simp: n_def)
    with False i len show ?thesis by simp
  qed (use ok in \<open>auto simp: spans_ok_def\<close>)
  with ok l1 len show ?thesis by (auto simp: spans_ok_def)
qed

lemma tokenize_loop_ok:
  "tokenize_loop l = Inr ts \<Longrightarrow> spans_ok l \<Longrightarrow>
   \<exists>l'. l_tokens l' = ts \<and> l_bytes l' = l_bytes l \<and> l_pos l' = length (l_bytes l) \<and> spans_ok l'"
proof (induction l rule: tokenize_loop.induct)
  case (1 l)
  obtain b l1 where s: "skip_whitespace l = (b, l1)" by fastforce
  have ok1: "spans_ok l1" by (rule spans_ok_skip [OF "1.prems"(2) s])
  have bytes: "l_bytes l1 = l_bytes l" using s by (auto simp: skip_whitespace_def Let_def)
  show ?case
  proof (cases b)
    case False
    then have "l_pos l1 = length (l_bytes l)"
      using s ok1 bytes by (auto simp: skip_whitespace_def spans_ok_def Let_def)
    with False s ok1 bytes "1.prems"(1) show ?thesis by (auto simp: tokenize_loop.simps [of l])
  next
    case True
    with s "1.prems"(1) obtain l2 where l2: "next_token l1 = Inr l2" "tokenize_loop l2 = Inr ts"
      by (auto simp: tokenize_loop.simps [of l] bind_res_eq_Inr)
    have st: "skip_whitespace l = (True, l1)" using s True by simp
    from skip_whitespace_peek [OF st] have "pushes l1 l2"
      using next_token_pushes [OF l2(1)] by blast
    then have "spans_ok l2" "l_bytes l2 = l_bytes l"
      using spans_ok_push [OF ok1] bytes by (auto simp: pushes_def)
    with "1.IH" [OF s [symmetric] _ l2(1) l2(2)] True show ?thesis by simp
  qed
qed

lemma tokenize_Inr:
  assumes "tokenize input = Inr ts"
  shows "length input \<le> MAX_QUERY_BYTES"
    "tokenize_loop \<lparr>l_bytes = map nul_to_space input, l_pos = 0, l_tokens = []\<rparr> = Inr ts"
  using assms by (auto simp: tokenize_def split: if_splits)

definition white :: "char \<Rightarrow> bool" where
  "white c \<longleftrightarrow> is_ascii_whitespace c \<or> c = CHR 0x00"

lemma tokenize_spans:
  assumes "tokenize input = Inr ts"
  shows "sorted_wrt (\<lambda>a b. snd (t_span a) \<le> fst (t_span b)) ts"
    and "\<forall>t \<in> set ts. fst (t_span t) < snd (t_span t) \<and> snd (t_span t) \<le> length input"
    and "\<forall>i \<in> {0..<length input}. (\<exists>t \<in> set ts. fst (t_span t) \<le> i \<and> i < snd (t_span t)) \<or> white (input ! i)"
proof -
  have "spans_ok \<lparr>l_bytes = map nul_to_space input, l_pos = 0, l_tokens = []\<rparr>" by (simp add: spans_ok_def)
  from tokenize_loop_ok [OF tokenize_Inr(2) [OF assms] this] obtain l' where l':
    "l_tokens l' = ts" "l_bytes l' = map nul_to_space input" "l_pos l' = length input" "spans_ok l'"
    by auto
  then show "sorted_wrt (\<lambda>a b. snd (t_span a) \<le> fst (t_span b)) ts"
    "\<forall>t \<in> set ts. fst (t_span t) < snd (t_span t) \<and> snd (t_span t) \<le> length input"
    by (auto simp: spans_ok_def)
  have "is_ascii_whitespace (nul_to_space c) \<longleftrightarrow> white c" for c
    by (simp add: nul_to_space_def white_def is_ascii_whitespace_def ord_def)
  with l' show "\<forall>i \<in> {0..<length input}. (\<exists>t \<in> set ts. fst (t_span t) \<le> i \<and> i < snd (t_span t)) \<or> white (input ! i)"
    by (auto simp: spans_ok_def)
qed

section \<open>What a token holds\<close>

lemma utf8_lossy_set: "set (utf8_lossy bs) \<subseteq> set (of_bytes bs) \<union> set replacement"
proof (induction bs rule: utf8_lossy.induct)
  case (2 b bs)
  obtain k ok where ck: "utf8_chunk b bs = (k, ok)" by fastforce
  have "set (of_bytes (drop k bs)) \<subseteq> set (of_bytes bs)" "set (of_bytes (take k bs)) \<subseteq> set (of_bytes bs)"
    using set_drop_subset [of k bs] set_take_subset [of k bs] by (auto simp: of_bytes_def)
  with "2.IH" [OF ck [symmetric]] ck show ?case by (auto simp: of_bytes_simps)
qed simp

lemma NUL_replacement: "CHR 0x00 \<notin> set replacement"
  by (simp add: replacement_def utf8_encode_def str_simps)

lemma NUL_lossy: "CHR 0x00 \<notin> set s \<Longrightarrow> CHR 0x00 \<notin> set (utf8_lossy (as_bytes s))"
  using utf8_lossy_set [of "as_bytes s"] NUL_replacement by auto

lemma read_quoted_loop_NUL:
  "read_quoted_loop bs i out = Some (t, n) \<Longrightarrow> CHR 0x00 \<notin> set bs \<Longrightarrow> CHR 0x00 \<notin> set out \<Longrightarrow>
   CHR 0x00 \<notin> set t"
  by (induction bs i out rule: read_quoted_loop.induct) (auto simp: NUL_lossy split: if_splits list.splits)

text \<open>No text has a NUL, and the word of a field is a lower-case field word.\<close>

definition kind_ok :: "token_kind \<Rightarrow> bool" where
  "kind_ok k \<longleftrightarrow>
     (case k of
        FieldTok w v q \<Rightarrow> is_field_word w \<and> to_ascii_lowercase w = w \<and> CHR 0x00 \<notin> set w \<and> CHR 0x00 \<notin> set v
      | WordTok t p \<Rightarrow> CHR 0x00 \<notin> set t \<and> t \<noteq> []
      | PhraseTok t \<Rightarrow> CHR 0x00 \<notin> set t
      | _ \<Rightarrow> True)"

lemma slice_set: "set (l_slice l a b) \<subseteq> set (l_bytes l)"
  by (auto simp: l_slice_def dest!: in_set_takeD in_set_dropD)

lemma is_field_word_lower: "is_field_word w \<Longrightarrow> is_field_word (to_ascii_lowercase w)"
proof -
  have "is_ascii_alphabetic (ascii_lower_char c) = is_ascii_alphabetic c" for c
    by (auto simp: is_ascii_alphabetic_def is_ascii_upper_def is_ascii_lower_def)
  moreover have "ascii_lower_char c = CHR ''-'' \<longleftrightarrow> c = CHR ''-''" for c
    by (auto simp: ord_inject [symmetric] is_ascii_upper_def) (simp_all add: ord_def)
  ultimately show "is_field_word w \<Longrightarrow> is_field_word (to_ascii_lowercase w)"
    by (auto simp: is_field_word_def to_ascii_lowercase_def list_all_iff split: list.splits)
qed

lemma word_or_operator_ok: "t \<noteq> [] \<Longrightarrow> CHR 0x00 \<notin> set t \<Longrightarrow> kind_ok (word_or_operator t n)"
  by (auto simp: word_or_operator_def kind_ok_def Let_def strip_suffix_Some split: option.splits)

lemma field_word_no_NUL: "is_field_word w \<Longrightarrow> CHR 0x00 \<notin> set w"
  by (cases w) (auto simp: is_field_word_def list_all_iff is_ascii_alphabetic_def is_ascii_upper_def is_ascii_lower_def ord_def)

lemma quoted_after_NUL: "quoted_after l q = Inr (t, n) \<Longrightarrow> CHR 0x00 \<notin> set (l_bytes l) \<Longrightarrow> CHR 0x00 \<notin> set t"
  using read_quoted_loop_NUL [of "drop (q + 1) (l_bytes l)" "q + 1" "[]"]
  by (auto simp: quoted_after_def read_quoted_def dest: in_set_dropD split: option.splits)

definition adds_ok :: "lexer \<Rightarrow> lexer \<Rightarrow> bool" where
  "adds_ok l l' \<longleftrightarrow> (\<exists>t. l_tokens l' = l_tokens l @ [t] \<and> kind_ok (t_kind t))"

lemma adds_ok_push: "kind_ok k \<Longrightarrow> l_tokens l1 = l_tokens l \<Longrightarrow> adds_ok l (push_tok k s e n l1)"
  by (auto simp: adds_ok_def push_tok_def)

lemma slice_NUL: "CHR 0x00 \<notin> set (l_bytes l) \<Longrightarrow> CHR 0x00 \<notin> set (l_slice l a b)"
  using slice_set by blast

lemma read_field_ok:
  "read_field s n w v l1 = Inr l' \<Longrightarrow> is_field_word w \<Longrightarrow> to_ascii_lowercase w = w \<Longrightarrow>
   CHR 0x00 \<notin> set (l_bytes l1) \<Longrightarrow> l_tokens l1 = l_tokens l \<Longrightarrow> adds_ok l l'"
  by (auto simp: read_field_def bind_res_eq_Inr Let_def kind_ok_def field_word_no_NUL slice_NUL
      intro!: adds_ok_push dest: quoted_after_NUL split: if_splits)

lemma read_bare_ok:
  assumes "read_bare s n l1 = Inr l'" "CHR 0x00 \<notin> set (l_bytes l1)" "l_tokens l1 = l_tokens l"
    "l_peek l1 = Some b" "\<not> is_bare_end b"
  shows "adds_ok l l'"
proof -
  define e where "e = l_scan l1 (\<lambda>b. \<not> is_bare_end b)"
  have pos: "l_pos l1 < length (l_bytes l1)"
    using assms(4) by (auto simp: l_peek_def l_at_def nth_opt_def split: if_splits)
  have "l_pos l1 < e"
    using scan_from_first [of l1 "l_pos l1" b "\<lambda>b. \<not> is_bare_end b"] assms by (simp add: e_def l_scan_def l_peek_def)
  then have "l_slice l1 (l_pos l1) e \<noteq> []" using pos by (simp add: l_slice_def)
  then have "kind_ok (word_or_operator (l_slice l1 (l_pos l1) e) n)"
    using slice_NUL assms(2) by (intro word_or_operator_ok)
  with assms show ?thesis
    by (auto simp: read_bare_def Let_def e_def is_field_word_lower intro: adds_ok_push read_field_ok split: if_splits)
qed

lemma next_token_ok:
  assumes "next_token l = Inr l'" "CHR 0x00 \<notin> set (l_bytes l)" "l_peek l = Some b" "\<not> is_ascii_whitespace b"
  shows "adds_ok l l'"
proof -
  define l1 where "l1 = (if leading_minus l then l\<lparr>l_pos := l_pos l + 1\<rparr> else l)"
  have l1: "l_tokens l1 = l_tokens l" "CHR 0x00 \<notin> set (l_bytes l1)" by (simp_all add: l1_def assms(2))
  show ?thesis
  proof (cases "l_peek l = Some CHR '')''")
    case True
    with assms(1) show ?thesis by (auto simp: next_token_def Let_def kind_ok_def intro!: adds_ok_push)
  next
    case False
    from next_token_peek [OF assms(3,4) False] obtain c where
      c: "l_peek l1 = Some c" "\<not> is_ascii_whitespace c" "c \<noteq> CHR '')''"
      unfolding l1_def by blast
    have nt: "next_token l =
      (if l_peek l1 = Some CHR ''('' then Inr (push_tok LParen (l_pos l) (l_pos l1 + 1) (leading_minus l) l1)
       else if l_peek l1 = Some quote_char then
         bind_res (quoted_after l1 (l_pos l1)) (\<lambda>(t, n). Inr (push_tok (PhraseTok t) (l_pos l) n (leading_minus l) l1))
       else read_bare (l_pos l) (leading_minus l) l1)"
      using False by (simp add: next_token_def Let_def l1_def)
    show ?thesis
    proof (cases "c = CHR ''('' \<or> c = quote_char")
      case True
      with nt assms(1) c l1 show ?thesis
        by (cases "quoted_after l1 (l_pos l1)")
          (auto simp: kind_ok_def intro!: adds_ok_push dest: quoted_after_NUL split: if_splits)
    next
      case False
      with nt assms(1) c have "read_bare (l_pos l) (leading_minus l) l1 = Inr l'" by simp
      moreover have "\<not> is_bare_end c" using c False by (simp add: is_bare_end_def)
      ultimately show ?thesis using read_bare_ok l1 c(1) by blast
    qed
  qed
qed

lemma tokenize_loop_kinds:
  "tokenize_loop l = Inr ts \<Longrightarrow> CHR 0x00 \<notin> set (l_bytes l) \<Longrightarrow> \<forall>t \<in> set (l_tokens l). kind_ok (t_kind t) \<Longrightarrow>
   \<forall>t \<in> set ts. kind_ok (t_kind t)"
proof (induction l rule: tokenize_loop.induct)
  case (1 l)
  obtain b l1 where s: "skip_whitespace l = (b, l1)" by fastforce
  have l1: "l_bytes l1 = l_bytes l" "l_tokens l1 = l_tokens l"
    using s by (auto simp: skip_whitespace_def Let_def)
  show ?case
  proof (cases b)
    case False
    with s l1 "1.prems" show ?thesis by (auto simp: tokenize_loop.simps [of l])
  next
    case True
    with s "1.prems"(1) obtain l2 where l2: "next_token l1 = Inr l2" "tokenize_loop l2 = Inr ts"
      by (auto simp: tokenize_loop.simps [of l] bind_res_eq_Inr)
    have st: "skip_whitespace l = (True, l1)" using s True by simp
    then obtain c where c: "l_peek l1 = Some c" "\<not> is_ascii_whitespace c"
      using skip_whitespace_peek by blast
    have "adds_ok l1 l2" using next_token_ok [OF l2(1) _ c] l1 "1.prems"(2) by simp
    moreover have "l_bytes l2 = l_bytes l1" using next_token_pushes [OF l2(1) c] by (auto simp: pushes_def)
    ultimately show ?thesis
      using "1.IH" [OF s [symmetric] _ l2(1) l2(2)] True l1 "1.prems" by (auto simp: adds_ok_def)
  qed
qed

lemma tokenize_kinds: "tokenize input = Inr ts \<Longrightarrow> t \<in> set ts \<Longrightarrow> kind_ok (t_kind t)"
proof -
  assume ts: "tokenize input = Inr ts" "t \<in> set ts"
  have "CHR 0x00 \<notin> set (map nul_to_space input)" by (auto simp: nul_to_space_def split: if_splits)
  with tokenize_loop_kinds [OF tokenize_Inr(2) [OF ts(1)]] ts(2) show ?thesis by simp
qed

section \<open>Errors\<close>

lemma tokenize_loop_err:
  "tokenize_loop l = Inl e \<Longrightarrow>
   qe_kind e = Unbalanced \<and> (\<exists>q. qe_span e = (q, length (l_bytes l)) \<and> l_at l q = Some quote_char)"
proof (induction l rule: tokenize_loop.induct)
  case (1 l)
  obtain b l1 where s: "skip_whitespace l = (b, l1)" by fastforce
  have l1: "l_bytes l1 = l_bytes l" using s by (auto simp: skip_whitespace_def Let_def)
  have st: "skip_whitespace l = (True, l1)" using s "1.prems" by (cases b) (auto simp: tokenize_loop.simps [of l])
  then obtain c where c: "l_peek l1 = Some c" "\<not> is_ascii_whitespace c"
    using skip_whitespace_peek by blast
  show ?case
  proof (cases "next_token l1")
    case (Inl x)
    then have "x = e" using st "1.prems" by (simp add: tokenize_loop.simps [of l])
    with Inl l1 show ?thesis
      by (auto simp: next_token_def read_bare_def read_field_def quoted_after_def query_error_new_def
          bind_res_eq_Inl Let_def l_at_def l_peek_def split: if_splits option.splits)
  next
    case (Inr l2)
    then have "tokenize_loop l2 = Inl e" using st "1.prems" by (simp add: tokenize_loop.simps [of l])
    moreover have "l_bytes l2 = l_bytes l1" using next_token_pushes [OF Inr c] by (auto simp: pushes_def)
    ultimately show ?thesis using "1.IH" [OF s [symmetric] _ Inr] st s l1 by (simp add: l_at_def)
  qed
qed

section \<open>Properties\<close>

text \<open>C33: the tokens of a query lie in it one behind the other, and a byte of the query that
  is in no token is white space or a NUL: no character a person typed is dropped.\<close>

theorem lex_covers_input:
  assumes "tokenize input = Inr ts"
  shows "sorted_wrt (\<lambda>a b. snd (t_span a) \<le> fst (t_span b)) ts \<and>
    (\<forall>t \<in> set ts. fst (t_span t) < snd (t_span t) \<and> snd (t_span t) \<le> length input) \<and>
    (\<forall>i \<in> {0..<length input}. (\<exists>t \<in> set ts. fst (t_span t) \<le> i \<and> i < snd (t_span t)) \<or> white (input ! i))"
  using tokenize_spans [OF assms] by blast

text \<open>A query with a negated word, a field and an operator.\<close>

definition sample_query :: string where
  "sample_query = ''-a OR from:me''"

definition sample_tokens :: "tok list" where
  "sample_tokens =
     [\<lparr>t_kind = WordTok ''a'' False, t_span = (0, 2), t_negated = True\<rparr>,
      \<lparr>t_kind = OrTok, t_span = (3, 5), t_negated = False\<rparr>,
      \<lparr>t_kind = FieldTok ''from'' ''me'' False, t_span = (6, 13), t_negated = False\<rparr>]"

lemma sample_tokenized: "tokenize sample_query = Inr sample_tokens"
  by code_simp

lemma lex_covers_input_witness:
  "tokenize sample_query = Inr sample_tokens \<and> sorted_wrt (\<lambda>a b. snd (t_span a) \<le> fst (t_span b)) sample_tokens"
  using lex_covers_input [OF sample_tokenized] sample_tokenized by blast

text \<open>no text of a token holds a NUL, so none can end a bound FTS value early; the word of a
  field is made of lower-case letters and hyphens, and a bare word is not empty.\<close>

theorem lex_token_texts:
  assumes "tokenize input = Inr ts"
  shows "\<forall>t \<in> set ts. kind_ok (t_kind t)"
  using tokenize_kinds [OF assms] by blast

lemma lex_token_texts_witness:
  "tokenize sample_query = Inr sample_tokens \<and> list_all (\<lambda>t. kind_ok (t_kind t)) sample_tokens"
  using lex_token_texts [OF sample_tokenized] sample_tokenized by (simp add: list_all_iff)

text \<open>a query is refused exactly for its length or for a quote that never closes, and the
  error points at the whole query or from that quote to the end.\<close>

theorem lex_errors:
  "case tokenize input of
     Inl e \<Rightarrow>
       qe_kind e = TooLong \<and> MAX_QUERY_BYTES < length input \<and> qe_span e = (0, length input) \<or>
       qe_kind e = Unbalanced \<and> length input \<le> MAX_QUERY_BYTES \<and>
         (\<exists>q < length input. qe_span e = (q, length input) \<and> input ! q = quote_char)
   | Inr _ \<Rightarrow> length input \<le> MAX_QUERY_BYTES"
proof (cases "MAX_QUERY_BYTES < length input")
  case True
  then show ?thesis by (simp add: tokenize_def query_error_new_def)
next
  case False
  show ?thesis
  proof (cases "tokenize_loop \<lparr>l_bytes = map nul_to_space input, l_pos = 0, l_tokens = []\<rparr>")
    case (Inl e)
    from tokenize_loop_err [OF Inl] obtain q where
      "qe_kind e = Unbalanced" "qe_span e = (q, length input)" "q < length input" "nul_to_space (input ! q) = quote_char"
      by (auto simp: l_at_def nth_opt_def split: if_splits)
    moreover from this have "input ! q = quote_char" by (auto simp: nul_to_space_def split: if_splits)
    ultimately show ?thesis using False Inl by (auto simp: tokenize_def)
  next
    case (Inr ts)
    with False show ?thesis by (simp add: tokenize_def)
  qed
qed

end
