(* ===== verification/Calendar.thy ===== *)
theory Calendar
  imports Main
begin

text \<open>
  The calendar the date values rest on. \<open>NaiveDate\<close> is a type of the chrono crate, so its
  operations are arguments of the model: a record of functions, with chrono's documented
  behaviour as the locale \<open>date_ops\<close>. A proleptic Gregorian calendar over chrono's range of
  years satisfies it (\<open>gregorian\<close>), so dates can be evaluated.
\<close>

record 'd calendar =
  cal_ymd :: "int \<Rightarrow> nat \<Rightarrow> nat \<Rightarrow> 'd option"
  cal_year :: "'d \<Rightarrow> int"
  cal_month :: "'d \<Rightarrow> nat"
  cal_day :: "'d \<Rightarrow> nat"
  cal_add_days :: "'d \<Rightarrow> nat \<Rightarrow> 'd option"
  cal_sub_days :: "'d \<Rightarrow> nat \<Rightarrow> 'd option"

text \<open>The order of dates, which chrono derives from year, month and day.\<close>

definition cal_less :: "'d calendar \<Rightarrow> 'd \<Rightarrow> 'd \<Rightarrow> bool" where
  "cal_less c a b \<longleftrightarrow>
     cal_year c a < cal_year c b \<or>
     cal_year c a = cal_year c b \<and>
       (cal_month c a < cal_month c b \<or> cal_month c a = cal_month c b \<and> cal_day c a < cal_day c b)"

definition cal_le :: "'d calendar \<Rightarrow> 'd \<Rightarrow> 'd \<Rightarrow> bool" where
  "cal_le c a b \<longleftrightarrow> \<not> cal_less c b a"

lemma cal_less_trans: "cal_less c x y \<Longrightarrow> cal_less c y z \<Longrightarrow> cal_less c x z"
  by (auto simp: cal_less_def)

lemma cal_le_less_trans: "cal_le c x y \<Longrightarrow> cal_less c y z \<Longrightarrow> cal_less c x z"
  by (auto simp: cal_less_def cal_le_def)

lemma cal_less_le_trans: "cal_less c x y \<Longrightarrow> cal_le c y z \<Longrightarrow> cal_less c x z"
  by (auto simp: cal_less_def cal_le_def)

locale date_ops =
  fixes cal :: "'d calendar" and valid :: "'d \<Rightarrow> bool"
  assumes ymd: "cal_ymd cal y m d = Some x \<Longrightarrow>
      valid x \<and> cal_year cal x = y \<and> cal_month cal x = m \<and> cal_day cal x = d"
    and month_range: "valid x \<Longrightarrow> 1 \<le> cal_month cal x \<and> cal_month cal x \<le> 12"
    and add_days: "valid x \<Longrightarrow> cal_add_days cal x n = Some z \<Longrightarrow>
      valid z \<and> (if n = 0 then z = x else cal_less cal x z)"
    and sub_days: "valid x \<Longrightarrow> cal_sub_days cal x n = Some z \<Longrightarrow>
      valid z \<and> (if n = 0 then z = x else cal_less cal z x)"
begin

lemma tomorrow_later: "valid x \<Longrightarrow> cal_add_days cal x (Suc 0) = Some y \<Longrightarrow> cal_less cal x y"
  using add_days [of x 1 y] by simp

lemma sub_days_le: "valid x \<Longrightarrow> cal_sub_days cal x n = Some y \<Longrightarrow> cal_le cal y x"
  using sub_days [of x n y] by (auto simp: cal_le_def cal_less_def split: if_splits)

lemma ymd_less:
  "cal_ymd cal y m d = Some a \<Longrightarrow> cal_ymd cal y' m' d' = Some b \<Longrightarrow>
   y < y' \<or> y = y' \<and> (m < m' \<or> m = m' \<and> d < d') \<Longrightarrow> cal_less cal a b"
  by (auto simp: cal_less_def dest!: ymd)

end

section \<open>A Gregorian calendar\<close>

type_synonym date = "int \<times> nat \<times> nat"

definition leap_year :: "int \<Rightarrow> bool" where
  "leap_year y \<longleftrightarrow> y mod 4 = 0 \<and> (y mod 100 \<noteq> 0 \<or> y mod 400 = 0)"

definition days_in_month :: "int \<Rightarrow> nat \<Rightarrow> nat" where
  "days_in_month y m =
     (if m = 2 then (if leap_year y then 29 else 28) else if m \<in> {4, 6, 9, 11} then 30 else 31)"

definition next_day :: "date \<Rightarrow> date" where
  "next_day = (\<lambda>(y, m, d).
     if d < days_in_month y m then (y, m, d + 1) else if m < 12 then (y, m + 1, 1) else (y + 1, 1, 1))"

definition prev_day :: "date \<Rightarrow> date" where
  "prev_day = (\<lambda>(y, m, d).
     if 1 < d then (y, m, d - 1)
     else if 1 < m then (y, m - 1, days_in_month y (m - 1)) else (y - 1, 12, 31))"

definition date_ok :: "date \<Rightarrow> bool" where
  "date_ok = (\<lambda>(y, m, d).
     -262143 \<le> y \<and> y \<le> 262142 \<and> 1 \<le> m \<and> m \<le> 12 \<and> 1 \<le> d \<and> d \<le> days_in_month y m)"

definition checked :: "date \<Rightarrow> date option" where
  "checked x = (if date_ok x then Some x else None)"

definition gregorian :: "date calendar" where
  "gregorian =
     \<lparr>cal_ymd = (\<lambda>y m d. checked (y, m, d)),
      cal_year = (\<lambda>(y, m, d). y), cal_month = (\<lambda>(y, m, d). m), cal_day = (\<lambda>(y, m, d). d),
      cal_add_days = (\<lambda>x n. checked ((next_day ^^ n) x)),
      cal_sub_days = (\<lambda>x n. checked ((prev_day ^^ n) x))\<rparr>"

text \<open>A calendar without an end of years, through which the days are counted.\<close>

definition day_ok :: "date \<Rightarrow> bool" where
  "day_ok = (\<lambda>(y, m, d). 1 \<le> m \<and> m \<le> 12 \<and> 1 \<le> d \<and> d \<le> days_in_month y m)"

lemma days_in_month_pos: "1 \<le> days_in_month y m" "days_in_month y 12 = 31" "days_in_month y 1 = 31"
  by (auto simp: days_in_month_def)

lemma next_day_ok: "day_ok x \<Longrightarrow> day_ok (next_day x) \<and> cal_less gregorian x (next_day x)"
  using days_in_month_pos by (cases x) (auto simp: day_ok_def next_day_def cal_less_def gregorian_def)

lemma prev_day_ok: "day_ok x \<Longrightarrow> day_ok (prev_day x) \<and> cal_less gregorian (prev_day x) x"
  using days_in_month_pos by (cases x) (auto simp: day_ok_def prev_day_def cal_less_def gregorian_def)

lemma next_days_ok: "day_ok x \<Longrightarrow> day_ok ((next_day ^^ n) x) \<and> (if n = 0 then (next_day ^^ n) x = x else cal_less gregorian x ((next_day ^^ n) x))"
  by (induction n) (use next_day_ok cal_less_trans in \<open>fastforce split: if_splits\<close>)+

lemma prev_days_ok: "day_ok x \<Longrightarrow> day_ok ((prev_day ^^ n) x) \<and> (if n = 0 then (prev_day ^^ n) x = x else cal_less gregorian ((prev_day ^^ n) x) x)"
  by (induction n) (use prev_day_ok cal_less_trans in \<open>fastforce split: if_splits\<close>)+

lemma checked_Some: "checked x = Some y \<longleftrightarrow> y = x \<and> date_ok x"
  by (auto simp: checked_def)

lemma date_ok_day: "date_ok x \<Longrightarrow> day_ok x"
  by (auto simp: date_ok_def day_ok_def)

interpretation gregorian: date_ops gregorian date_ok
proof
  fix y m d x n z
  show "cal_ymd gregorian y m d = Some x \<Longrightarrow>
      date_ok x \<and> cal_year gregorian x = y \<and> cal_month gregorian x = m \<and> cal_day gregorian x = d"
    by (auto simp: gregorian_def checked_Some)
  show "date_ok x \<Longrightarrow> 1 \<le> cal_month gregorian x \<and> cal_month gregorian x \<le> 12"
    by (cases x) (auto simp: gregorian_def date_ok_def)
  show "date_ok x \<Longrightarrow> cal_add_days gregorian x n = Some z \<Longrightarrow>
      date_ok z \<and> (if n = 0 then z = x else cal_less gregorian x z)"
    using next_days_ok [OF date_ok_day, of x n]
    by (auto simp: gregorian_def checked_Some split: if_splits)
  show "date_ok x \<Longrightarrow> cal_sub_days gregorian x n = Some z \<Longrightarrow>
      date_ok z \<and> (if n = 0 then z = x else cal_less gregorian z x)"
    using prev_days_ok [OF date_ok_day, of x n]
    by (auto simp: gregorian_def checked_Some split: if_splits)
qed

end
