(* ===== verification/SearchValue.thy ===== *)
theory SearchValue
  imports RustStr Calendar
begin

text \<open>
  The typed values of the search language (\<open>crates/server/server/src/search/value.rs\<close>):
  comparisons, counts, sizes, dates. The calendar is an argument. An \<open>f64\<close> is a mantissa of
  53 bits and an exponent: the values below the normal range and the infinite ones, which the
  pair leaves out, give 0 bytes and no size in both readings.
\<close>

section \<open>Comparisons\<close>

datatype 'a cmp = CmpEq 'a | CmpGt 'a | CmpGte 'a | CmpLt 'a | CmpLte 'a | CmpRange 'a 'a

definition parse_cmp :: "string \<Rightarrow> (string \<Rightarrow> ('a :: linorder) option) \<Rightarrow> 'a cmp option" where
  "parse_cmp raw scalar =
     (let t = trim raw
      in case split_once ''..'' t of
           Some (a, b) \<Rightarrow>
             Option.bind (scalar a) (\<lambda>a. Option.bind (scalar b) (\<lambda>b.
               if a \<le> b then Some (CmpRange a b) else None))
         | None \<Rightarrow>
             (case strip_prefix ''>='' t of
                Some r \<Rightarrow> map_option CmpGte (scalar r)
              | None \<Rightarrow>
                  (case strip_prefix ''<='' t of
                     Some r \<Rightarrow> map_option CmpLte (scalar r)
                   | None \<Rightarrow>
                       (case strip_prefix ''>'' t of
                          Some r \<Rightarrow> map_option CmpGt (scalar r)
                        | None \<Rightarrow>
                            (case strip_prefix ''<'' t of
                               Some r \<Rightarrow> map_option CmpLt (scalar r)
                             | None \<Rightarrow>
                                 map_option CmpEq
                                   (scalar (case strip_prefix ''='' t of None \<Rightarrow> t | Some r \<Rightarrow> r)))))))"

section \<open>Counts, ids and sizes\<close>

text \<open>\<open>all_digits\<close> is the function of the code: a non-empty string of ASCII digits.\<close>

definition parse_i64 :: "string \<Rightarrow> int option" where
  "parse_i64 s = parse_signed 64 s"

definition parse_count :: "string \<Rightarrow> int option" where
  "parse_count raw = (let t = trim raw in if \<not> all_digits t then None else parse_i64 t)"

definition parse_id :: "string \<Rightarrow> int option" where
  "parse_id raw =
     (case strip_prefix ''#'' (trim raw) of
        None \<Rightarrow> None
      | Some digits \<Rightarrow> if \<not> all_digits digits then None else parse_i64 digits)"

text \<open>The number of bits of a number.\<close>

function bit_len :: "int \<Rightarrow> nat" where
  "bit_len n = (if n \<le> 0 then 0 else Suc (bit_len (n div 2)))"
  by pat_completeness auto
termination by (relation "measure nat") auto

declare bit_len.simps [simp del]

definition round_half_even :: "int \<Rightarrow> int \<Rightarrow> int" where
  "round_half_even a b =
     (let q = a div b; r = a mod b
      in if 2 * r < b then q else if b < 2 * r then q + 1 else if even q then q else q + 1)"

text \<open>The \<open>f64\<close> nearest to \<open>a / b\<close>, as mantissa and exponent.\<close>

definition f64_ratio :: "int \<Rightarrow> int \<Rightarrow> int \<times> int" where
  "f64_ratio a b =
     (if a \<le> 0 then (0, 0)
      else
        (let e = int (bit_len a) - int (bit_len b) - 53;
             num = (if 0 \<le> e then a else a * 2 ^ nat (- e));
             den = (if 0 \<le> e then b * 2 ^ nat e else b)
         in if 2 ^ 53 * den \<le> num then (round_half_even num (2 * den), e + 1)
            else (round_half_even num den, e)))"

text \<open>\<open>f64::from_str\<close> on digits and points.\<close>

definition parse_f64 :: "string \<Rightarrow> (int \<times> int) option" where
  "parse_f64 t =
     (let digits = filter is_ascii_digit t;
          whole = takeWhile (\<lambda>c. c \<noteq> CHR ''.'') t
      in if length t \<le> length digits + 1 \<and> digits \<noteq> []
         then Some (f64_ratio (int (digits_val digits)) (10 ^ (length digits - length whole)))
         else None)"

text \<open>\<open>f64::round\<close>: half away from zero, on a value that is not negative.\<close>

definition f64_round :: "int \<times> int \<Rightarrow> int" where
  "f64_round = (\<lambda>(m, e).
     if 0 \<le> e then m * 2 ^ nat e else (2 * m + 2 ^ nat (- e)) div 2 ^ (nat (- e) + 1))"

definition size_shift :: "string \<Rightarrow> int option" where
  "size_shift u =
     (if u = '''' then Some 0 else if u = ''k'' then Some 10 else if u = ''m'' then Some 20
      else if u = ''g'' then Some 30 else None)"

definition trim_end_matches :: "char \<Rightarrow> string \<Rightarrow> string" where
  "trim_end_matches c s = rev (dropWhile (\<lambda>x. x = c) (rev s))"

text \<open>A multiplication by a power of two is exact; the cast to \<open>i64\<close> saturates.\<close>

definition parse_size_bytes :: "string \<Rightarrow> int option" where
  "parse_size_bytes raw =
     (let t = to_ascii_lowercase (trim raw);
          e = length (takeWhile (\<lambda>b. is_ascii_digit b \<or> b = CHR ''.'') t)
      in if e = 0 then None
         else
           Option.bind (parse_f64 (take e t)) (\<lambda>(m, x).
             Option.bind (size_shift (trim_end_matches CHR ''b'' (trim (drop e t)))) (\<lambda>k.
               let bytes = f64_round (m, x + k)
               in if bytes < 0 \<or> 2 ^ 63 < bytes then None else Some (min bytes (2 ^ 63 - 1)))))"

section \<open>Dates\<close>

definition MAX_LOOKBACK_DAYS :: nat where "MAX_LOOKBACK_DAYS = 3650"

record 'd date_span =
  ds_start :: 'd
  ds_end :: 'd

datatype 'd date_cmp = DateIn "'d date_span" | DateGte 'd | DateGt 'd | DateLt 'd | DateLte 'd

definition span :: "'d \<Rightarrow> 'd \<Rightarrow> 'd date_span" where
  "span a b = \<lparr>ds_start = a, ds_end = b\<rparr>"

datatype 'd search_value =
  VText string | VPrefix string | VId int | VKeyword string | VChoice string
  | VDate "'d date_cmp" | VCount "int cmp" | VSize "int cmp"

definition first_of_next_month :: "'d calendar \<Rightarrow> int \<Rightarrow> nat \<Rightarrow> 'd option" where
  "first_of_next_month c y m = (if m = 12 then cal_ymd c (y + 1) 1 1 else cal_ymd c y (m + 1) 1)"

definition i32_try :: "int \<Rightarrow> int option" where
  "i32_try n = (if - (2 ^ 31) \<le> n \<and> n < 2 ^ 31 then Some n else None)"

definition shift_months_back :: "'d calendar \<Rightarrow> 'd \<Rightarrow> nat \<Rightarrow> 'd option" where
  "shift_months_back c today months =
     (let total = cal_year c today * 12 + int (cal_month c today) - 1 - int months
      in Option.bind (i32_try (total div 12)) (\<lambda>year.
        let month = nat (total mod 12 + 1)
        in Option.bind (first_of_next_month c year month) (\<lambda>next.
          Option.bind (cal_sub_days c next 1) (\<lambda>last_day.
            cal_ymd c year month (min (cal_day c today) (cal_day c last_day))))))"

text \<open>The number of days the limit counts and the start of the last \<open>n\<close> units.\<close>

definition unit_days :: "char \<Rightarrow> nat \<Rightarrow> nat" where
  "unit_days u n =
     (if u = CHR ''d'' then n else if u = CHR ''w'' then n * 7 else if u = CHR ''m'' then n * 31 else n * 365)"

definition unit_start :: "'d calendar \<Rightarrow> 'd \<Rightarrow> char \<Rightarrow> nat \<Rightarrow> 'd option" where
  "unit_start c today u n =
     (if u = CHR ''d'' then cal_sub_days c today n
      else if u = CHR ''w'' then cal_sub_days c today (n * 7)
      else if u = CHR ''m'' then shift_months_back c today n
      else shift_months_back c today (n * 12))"

definition four_digits :: "string \<Rightarrow> bool" where
  "four_digits y \<longleftrightarrow> length y = 4 \<and> all_digits y"

definition two_digits :: "string \<Rightarrow> bool" where
  "two_digits y \<longleftrightarrow> length y = 2 \<and> all_digits y"

text \<open>Four digits fit an \<open>i32\<close> and two a \<open>u32\<close>, so \<open>parse\<close> gives their value.\<close>

definition calendar_span :: "'d calendar \<Rightarrow> string list \<Rightarrow> 'd date_span option" where
  "calendar_span c parts =
     (case parts of
        [y] \<Rightarrow>
          if four_digits y then
            Option.bind (cal_ymd c (int (digits_val y)) 1 1) (\<lambda>a.
              Option.bind (cal_ymd c (int (digits_val y) + 1) 1 1) (\<lambda>b. Some (span a b)))
          else None
      | [y, m] \<Rightarrow>
          if four_digits y \<and> two_digits m then
            Option.bind (cal_ymd c (int (digits_val y)) (digits_val m) 1) (\<lambda>a.
              Option.bind (first_of_next_month c (int (digits_val y)) (digits_val m)) (\<lambda>b. Some (span a b)))
          else None
      | [y, m, d] \<Rightarrow>
          if four_digits y \<and> two_digits m \<and> two_digits d then
            Option.bind (cal_ymd c (int (digits_val y)) (digits_val m) (digits_val d)) (\<lambda>a.
              Option.bind (cal_add_days c a 1) (\<lambda>b. Some (span a b)))
          else None
      | _ \<Rightarrow> None)"

definition date_unit :: "char \<Rightarrow> bool" where
  "date_unit u \<longleftrightarrow> u \<in> {CHR ''d'', CHR ''w'', CHR ''m'', CHR ''y''}"

definition parse_date_span :: "'d calendar \<Rightarrow> string \<Rightarrow> 'd \<Rightarrow> 'd date_span option" where
  "parse_date_span c raw today =
     (let t = to_ascii_lowercase (trim raw)
      in Option.bind (cal_add_days c today 1) (\<lambda>tomorrow.
        if t = '''' then None
        else if t = ''today'' then Some (span today tomorrow)
        else if t = ''yesterday'' then
          Option.bind (cal_sub_days c today 1) (\<lambda>a. Some (span a today))
        else if date_unit (last t) \<and> all_digits (butlast t) then
          Option.bind (parse_unsigned 32 (butlast t)) (\<lambda>n.
            if MAX_LOOKBACK_DAYS < unit_days (last t) n then None
            else Option.bind (unit_start c today (last t) n) (\<lambda>a. Some (span a tomorrow)))
        else calendar_span c (split_on CHR ''-'' t)))"

definition parse_date :: "'d calendar \<Rightarrow> string \<Rightarrow> 'd \<Rightarrow> 'd date_cmp option" where
  "parse_date c raw today =
     (let t = trim raw
      in if t = [] then None
         else
           (case split_once ''..'' t of
              Some (a, b) \<Rightarrow>
                Option.bind (parse_date_span c a today) (\<lambda>a.
                  Option.bind (parse_date_span c b today) (\<lambda>b.
                    if cal_le c (ds_end b) (ds_start a) then None
                    else Some (DateIn (span (ds_start a) (ds_end b)))))
            | None \<Rightarrow>
                (case strip_prefix ''>='' t of
                   Some r \<Rightarrow> map_option (\<lambda>s. DateGte (ds_start s)) (parse_date_span c r today)
                 | None \<Rightarrow>
                     (case strip_prefix ''<='' t of
                        Some r \<Rightarrow> map_option (\<lambda>s. DateLte (ds_end s)) (parse_date_span c r today)
                      | None \<Rightarrow>
                          (case strip_prefix ''>'' t of
                             Some r \<Rightarrow> map_option (\<lambda>s. DateGt (ds_end s)) (parse_date_span c r today)
                           | None \<Rightarrow>
                               (case strip_prefix ''<'' t of
                                  Some r \<Rightarrow> map_option (\<lambda>s. DateLt (ds_start s)) (parse_date_span c r today)
                                | None \<Rightarrow> map_option DateIn (parse_date_span c t today)))))))"

section \<open>Date spans hold a day\<close>

context date_ops begin

lemma next_month_later:
  assumes "cal_ymd cal y m 1 = Some a" "first_of_next_month cal y m = Some b"
  shows "cal_less cal a b"
  using assms ymd_less [of y m 1 a] by (auto simp: first_of_next_month_def split: if_splits)

lemma shift_months_back_le:
  assumes "valid today" "shift_months_back cal today n = Some a"
  shows "cal_le cal a today"
proof -
  define total where "total = cal_year cal today * 12 + int (cal_month cal today) - 1 - int n"
  obtain d where a: "cal_ymd cal (total div 12) (nat (total mod 12 + 1)) (min (cal_day cal today) d) = Some a"
    using assms(2) by (auto simp: shift_months_back_def Let_def total_def i32_try_def bind_eq_Some_conv split: if_splits)
  have m: "1 \<le> cal_month cal today" "cal_month cal today \<le> 12" using month_range [OF assms(1)] by auto
  have f: "cal_year cal a = total div 12" "cal_month cal a = nat (total mod 12 + 1)"
    "cal_day cal a = min (cal_day cal today) d"
    using ymd [OF a] by auto
  have "total div 12 < cal_year cal today \<or> total div 12 = cal_year cal today \<and> total mod 12 + 1 \<le> int (cal_month cal today)"
  proof -
    define k where "k = int (cal_month cal today) - 1 - int n"
    have k: "total = k + cal_year cal today * 12" "k \<le> 11" "k \<le> int (cal_month cal today) - 1"
      using m by (auto simp: total_def k_def)
    then have "total div 12 = cal_year cal today + k div 12" "total mod 12 = k mod 12" by simp_all
    moreover have "k div 12 \<le> 0" "k div 12 = 0 \<Longrightarrow> k mod 12 = k" using k(2) by auto
    ultimately show ?thesis using k(3) by linarith
  qed
  moreover have "0 \<le> total mod 12" by simp
  ultimately have "cal_year cal a < cal_year cal today \<or>
      cal_year cal a = cal_year cal today \<and> cal_month cal a \<le> cal_month cal today"
    unfolding f by (simp only: nat_le_iff)
  with f(3) show ?thesis unfolding cal_le_def cal_less_def by linarith
qed

lemma unit_start_le: "valid today \<Longrightarrow> unit_start cal today u n = Some a \<Longrightarrow> cal_le cal a today"
  by (auto simp: unit_start_def split: if_splits intro: sub_days_le shift_months_back_le)

lemma calendar_span_nonempty: "calendar_span cal parts = Some s \<Longrightarrow> cal_less cal (ds_start s) (ds_end s)"
  by (auto simp: calendar_span_def span_def bind_eq_Some_conv split: list.splits if_splits
      intro: ymd_less next_month_later tomorrow_later [OF ymd [THEN conjunct1]])

lemma date_span_nonempty:
  assumes "valid today" "parse_date_span cal raw today = Some s"
  shows "cal_less cal (ds_start s) (ds_end s)"
proof -
  from assms(2) obtain tomorrow where t: "cal_add_days cal today 1 = Some tomorrow"
    by (auto simp: parse_date_span_def Let_def bind_eq_Some_conv)
  then have "cal_less cal today tomorrow" using tomorrow_later [OF assms(1)] by simp
  moreover have "cal_less cal a today" if "cal_sub_days cal today 1 = Some a" for a
    using sub_days [OF assms(1) that] by simp
  ultimately show ?thesis
    using assms t
    by (auto simp: parse_date_span_def Let_def span_def bind_eq_Some_conv split: if_splits
        intro: cal_le_less_trans [OF unit_start_le [OF assms(1)]] calendar_span_nonempty)
qed

lemma date_range_nonempty:
  assumes "valid today" "parse_date cal raw today = Some (DateIn s)"
  shows "cal_less cal (ds_start s) (ds_end s)"
  using assms(2) date_span_nonempty [OF assms(1)]
  by (auto simp: parse_date_def Let_def bind_eq_Some_conv span_def cal_le_def
      split: if_splits option.splits)

end

section \<open>Sizes and comparisons\<close>

lemma bit_len_bounds: "0 < n \<Longrightarrow> 2 ^ (bit_len n - 1) \<le> n \<and> n < 2 ^ bit_len n \<and> 0 < bit_len n"
proof (induction n rule: bit_len.induct)
  case (1 n)
  show ?case
  proof (cases "n = 1")
    case True
    then show ?thesis by (simp add: bit_len.simps)
  next
    case False
    with 1 have h: "0 < n div 2" by (simp add: pos_imp_zdiv_pos_iff)
    then have "2 ^ (bit_len (n div 2) - 1) \<le> n div 2" "n div 2 < 2 ^ bit_len (n div 2)" "0 < bit_len (n div 2)"
      using 1 by auto
    moreover from this have "2 * 2 ^ (bit_len (n div 2) - 1) = (2 :: int) ^ bit_len (n div 2)"
      by (metis Suc_diff_1 power_Suc)
    moreover have "2 * (n div 2) \<le> n" "n < 2 * (n div 2) + 2" by linarith+
    ultimately have "2 ^ bit_len (n div 2) \<le> n" "n < 2 * 2 ^ bit_len (n div 2)" by linarith+
    then show ?thesis using 1(2) by (simp add: bit_len.simps [of n])
  qed
qed

lemma bit_len_1: "bit_len 1 = 1"
  by (simp add: bit_len.simps)

lemma f64_integer:
  assumes "0 < a" "a < 2 ^ 53"
  shows "\<exists>k m. f64_ratio a 1 = (m, - int k) \<and> m = a * 2 ^ k"
proof -
  have b: "0 < bit_len a" "2 ^ (bit_len a - 1) \<le> a" "a < 2 ^ bit_len a" using bit_len_bounds [OF assms(1)] by auto
  have "(2 :: int) ^ (bit_len a - 1) < 2 ^ 53" using b(2) assms(2) by linarith
  then have le: "bit_len a - 1 < 53" by (rule power_less_imp_less_exp [rotated]) simp
  define k where "k = nat (54 - int (bit_len a))"
  have e: "int (bit_len a) - int (bit_len 1) - 53 = - int k" "0 < k" using le b(1) by (simp_all add: k_def bit_len_1)
  have r: "round_half_even (a * 2 ^ k) 1 = a * 2 ^ k" "round_half_even (a * 2 ^ k) 2 = a * 2 ^ (k - 1)"
  proof -
    show "round_half_even (a * 2 ^ k) 1 = a * 2 ^ k" by (simp add: round_half_even_def)
    have "a * 2 ^ k = 2 * (a * 2 ^ (k - 1))" using e(2) by (cases k) simp_all
    moreover have "round_half_even (2 * t) 2 = t" for t by (simp add: round_half_even_def)
    ultimately show "round_half_even (a * 2 ^ k) 2 = a * 2 ^ (k - 1)" by (simp only:)
  qed
  show ?thesis
  proof (cases "2 ^ 53 * 1 \<le> a * 2 ^ k")
    case True
    then have "f64_ratio a 1 = (a * 2 ^ (k - 1), - int k + 1)"
      using assms(1) e r(2) by (simp add: f64_ratio_def Let_def)
    with e(2) show ?thesis by (intro exI [of _ "k - 1"]) auto
  next
    case False
    then have "f64_ratio a 1 = (a * 2 ^ k, - int k)"
      using assms(1) e r(1) by (simp add: f64_ratio_def Let_def)
    then show ?thesis by blast
  qed
qed

lemma f64_round_integer: "f64_round (a * 2 ^ k, - int k + int s) = a * 2 ^ s" if "0 \<le> a"
proof (cases "k \<le> s")
  case True
  then have "a * 2 ^ k * 2 ^ nat (- int k + int s) = a * 2 ^ s"
    by (simp add: power_add [symmetric] nat_diff_distrib' mult.assoc)
  with True show ?thesis by (simp add: f64_round_def)
next
  case False
  define j where "j = k - s"
  have j: "nat (int k - int s) = j" "k = s + j" "0 < j" using False by (auto simp: j_def)
  have "(2 * (a * 2 ^ k) + 2 ^ j) div 2 ^ (j + 1) = (a * 2 ^ s * 2 ^ (j + 1) + 2 ^ j) div 2 ^ (j + 1)"
    by (simp add: j(2) power_add algebra_simps)
  also have "\<dots> = a * 2 ^ s + 2 ^ j div 2 ^ (j + 1)" by simp
  also have "\<dots> = a * 2 ^ s" by (simp add: zdiv_eq_0_iff)
  finally show ?thesis using False j(1) by (simp add: f64_round_def)
qed

section \<open>Properties\<close>

text \<open>a date value names at least one day: the span of \<open>2019\<close>, \<open>2024-02\<close>, \<open>7d\<close> or
  \<open>a..b\<close> starts before it ends, for every calendar that behaves as chrono documents.\<close>

theorem date_values_nonempty:
  assumes "date_ops cal valid" "valid today"
  shows "(case parse_date_span cal raw today of Some s \<Rightarrow> cal_less cal (ds_start s) (ds_end s) | None \<Rightarrow> True) \<and>
    (case parse_date cal raw today of Some (DateIn s) \<Rightarrow> cal_less cal (ds_start s) (ds_end s) | _ \<Rightarrow> True)"
  using date_ops.date_span_nonempty [OF assms] date_ops.date_range_nonempty [OF assms]
  by (auto split: option.splits date_cmp.splits)

lemma date_values_nonempty_witness:
  "parse_date_span gregorian ''2024-02'' (2026, 9, 2) = Some (span (2024, 2, 1) (2024, 3, 1)) \<and>
   cal_less gregorian (2024, 2, 1) (2024, 3, 1)"
proof
  show p: "parse_date_span gregorian ''2024-02'' (2026, 9, 2) = Some (span (2024, 2, 1) (2024, 3, 1))"
    by code_simp
  have "date_ok (2026, 9, 2)" by code_simp
  from date_values_nonempty [OF gregorian.date_ops_axioms this, of "''2024-02''"] p
  show "cal_less gregorian (2024, 2, 1) (2024, 3, 1)" by (simp add: span_def)
qed

text \<open>What may stand behind the digits of a size, and the power of two it means.\<close>

definition size_unit :: "string \<Rightarrow> nat \<Rightarrow> bool" where
  "size_unit u s \<longleftrightarrow>
     list_all (\<lambda>c. 33 \<le> ord c \<and> ord c < 128) u \<and>
     (case u of [] \<Rightarrow> True | c # _ \<Rightarrow> is_ascii_alphabetic c) \<and>
     size_shift (trim_end_matches CHR ''b'' (to_ascii_lowercase u)) = Some (int s)"

lemma lower_graphic: "33 \<le> ord c \<and> ord c < 128 \<Longrightarrow> 33 \<le> ord (ascii_lower_char c) \<and> ord (ascii_lower_char c) < 128"
  by (auto simp: is_ascii_upper_def)

lemma digit_string: "all_digits s \<Longrightarrow> c \<in> set s \<Longrightarrow> is_ascii_digit c"
  by (auto simp: all_digits_def list_all_iff)

lemma parse_f64_digits: "all_digits s \<Longrightarrow> parse_f64 s = Some (f64_ratio (int (digits_val s)) 1)"
proof -
  assume s: "all_digits s"
  then have d: "\<forall>c \<in> set s. is_ascii_digit c" using digit_string by blast
  then have "filter is_ascii_digit s = s" by (simp add: filter_id_conv)
  moreover have "takeWhile (\<lambda>c. c \<noteq> CHR ''.'') s = s"
    unfolding takeWhile_eq_all_conv using d by (auto simp: is_ascii_digit_def ord_def)
  then have "length (takeWhile (\<lambda>c. c \<noteq> CHR ''.'') s) = length s" by (rule arg_cong)
  moreover have "s \<noteq> []" using s by (auto simp: all_digits_def)
  ultimately show ?thesis
    using \<open>length (takeWhile (\<lambda>c. c \<noteq> CHR ''.'') s) = length s\<close> by (simp add: parse_f64_def Let_def)
qed

text \<open>a whole number of bytes below 2^53 reads as itself, times the power of 1024 its unit
  names, as long as the size fits an \<open>i64\<close>; whatever else is written, a size that is read is
  not negative and fits an \<open>i64\<close>.\<close>

theorem size_exact:
  assumes "size_unit u s" "a < 2 ^ 53" "int a * 2 ^ s < 2 ^ 63"
  shows "parse_size_bytes (dec_string a @ u) = Some (int a * 2 ^ s) \<and>
    (case parse_size_bytes raw of Some n \<Rightarrow> 0 \<le> n \<and> n < 2 ^ 63 | None \<Rightarrow> True)"
proof
  let ?d = "dec_string a" and ?l = "to_ascii_lowercase u"
  have d: "\<forall>c \<in> set ?d. is_ascii_digit c" using digit_string all_digits_dec_string by blast
  have g: "\<forall>c \<in> set (?d @ u). 33 \<le> ord c \<and> ord c < 128"
    using d assms(1) by (auto simp: size_unit_def list_all_iff is_ascii_digit_def)
  have lower: "to_ascii_lowercase ?d = ?d"
    using d by (auto simp: to_ascii_lowercase_def ascii_lower_char_def is_ascii_digit_def is_ascii_upper_def intro!: map_idI)
  have gl: "\<forall>c \<in> set ?l. 33 \<le> ord c \<and> ord c < 128"
    using g lower_graphic by (auto simp: to_ascii_lowercase_def)
  have first: "takeWhile (\<lambda>b. is_ascii_digit b \<or> b = CHR ''.'') (?d @ ?l) = ?d"
  proof (cases u)
    case Nil
    with d show ?thesis by (auto simp: to_ascii_lowercase_def takeWhile_eq_all_conv)
  next
    case (Cons c cs)
    then have "is_ascii_alphabetic c" using assms(1) by (simp add: size_unit_def)
    then have h: "97 \<le> ord (ascii_lower_char c)" by (auto simp: is_ascii_alphabetic_def is_ascii_upper_def is_ascii_lower_def)
    have "ascii_lower_char c \<noteq> CHR ''.''"
    proof
      assume "ascii_lower_char c = CHR ''.''"
      with h have "97 \<le> ord CHR ''.''" by (simp only:)
      then show False by (simp add: ord_def)
    qed
    with h have "\<not> (is_ascii_digit (ascii_lower_char c) \<or> ascii_lower_char c = CHR ''.'')"
      unfolding is_ascii_digit_def by linarith
    with d Cons show ?thesis by (simp add: to_ascii_lowercase_def takeWhile_append2)
  qed
  have val: "parse_f64 ?d = Some (f64_ratio (int a) 1)" using parse_f64_digits [of ?d] by simp
  have shift: "size_shift (trim_end_matches CHR ''b'' (trim ?l)) = Some (int s)"
    using assms(1) trim_graphic [OF gl] by (simp add: size_unit_def)
  obtain m x where mx: "f64_ratio (int a) 1 = (m, x)" by fastforce
  have "f64_round (m, x + int s) = int a * 2 ^ s"
  proof (cases "a = 0")
    case True
    then show ?thesis using mx by (auto simp: f64_ratio_def f64_round_def)
  next
    case False
    then obtain k where "m = int a * 2 ^ k" "x = - int k"
      using f64_integer [of "int a"] assms(2) mx by (auto simp flip: of_nat_less_iff)
    then show ?thesis using f64_round_integer [of "int a" k s] by simp
  qed
  moreover have "\<not> int a * 2 ^ s < 0" by (simp add: not_less)
  moreover have "?d \<noteq> []" using all_digits_dec_string [of a] by (auto simp: all_digits_def)
  ultimately show "parse_size_bytes (dec_string a @ u) = Some (int a * 2 ^ s)"
    using trim_graphic [OF g] lower first val shift mx assms(3)
    by (simp add: parse_size_bytes_def Let_def)
next
  show "case parse_size_bytes raw of Some n \<Rightarrow> 0 \<le> n \<and> n < 2 ^ 63 | None \<Rightarrow> True"
    by (auto simp: parse_size_bytes_def Let_def bind_eq_Some_conv split: option.splits if_splits)
qed

lemma size_exact_witness: "parse_size_bytes (dec_string 500 @ ''kB'') = Some 512000"
proof -
  have "size_unit ''kB'' 10" by code_simp
  from size_exact [OF this, of 500] show ?thesis by simp
qed

end
