(* ===== verification/SearchParse.thy ===== *)
theory SearchParse
  imports Lex SearchFields SearchValue
begin

text \<open>
  Tokens to an expression tree (\<open>crates/server/server/src/search/parse.rs\<close>). The parser's
  index is the rest of the token list. The recursive descent takes fuel, of which six times
  the number of tokens and four is enough (\<open>parse_total\<close>).
\<close>

section \<open>The tree\<close>

datatype text_term = TermText string bool | PhraseText string

record 'd field_term =
  ft_spec :: field_spec
  ft_values :: "'d search_value list"
  ft_span :: "nat \<times> nat"

datatype 'd expr =
  EAnd "'d expr list" | EOr "'d expr list" | ENot "'d expr" | EField "'d field_term" | EText text_term

definition MAX_TEXT_TERMS :: nat where "MAX_TEXT_TERMS = 32"
definition MAX_NODES :: nat where "MAX_NODES = 64"
definition MAX_DEPTH :: nat where "MAX_DEPTH = 32"

fun uses :: "string \<Rightarrow> 'd expr \<Rightarrow> bool" where
  "uses w (EAnd es) = list_ex (uses w) es"
| "uses w (EOr es) = list_ex (uses w) es"
| "uses w (ENot e) = uses w e"
| "uses w (EField t) = (fs_word (ft_spec t) = w)"
| "uses w (EText _) = False"

fun positive_text_terms :: "'d expr \<Rightarrow> text_term list" where
  "positive_text_terms (EAnd es) = concat (map positive_text_terms es)"
| "positive_text_terms (EOr es) = concat (map positive_text_terms es)"
| "positive_text_terms (EText t) = [t]"
| "positive_text_terms (ENot e) = []"
| "positive_text_terms (EField t) = []"

fun nodes :: "'d expr \<Rightarrow> nat" where
  "nodes (EAnd es) = 1 + sum_list (map nodes es)"
| "nodes (EOr es) = 1 + sum_list (map nodes es)"
| "nodes (ENot e) = 1 + nodes e"
| "nodes (EField t) = length (ft_values t)"
| "nodes (EText _) = 1"

fun text_terms :: "'d expr \<Rightarrow> nat" where
  "text_terms (EAnd es) = sum_list (map text_terms es)"
| "text_terms (EOr es) = sum_list (map text_terms es)"
| "text_terms (ENot e) = text_terms e"
| "text_terms (EField _) = 0"
| "text_terms (EText _) = 1"

section \<open>One field\<close>

definition value_hint :: "field_spec \<Rightarrow> string" where
  "value_hint spec =
     (let choices = join '', '' (fs_values spec)
      in case fs_value_type spec of
           DateValue \<Rightarrow> ''Write a year, a month like 2024-05, a day, or a span like 7d, with >, >=, <, <=, or a..b.''
         | CountValue \<Rightarrow> ''Write a number, with >, >=, <, <=, or a..b.''
         | SizeValue \<Rightarrow> ''Write a size like 500k, 1M, or 2G, with >, >=, <, <=, or a..b.''
         | ChoiceValue \<Rightarrow> ''Write one of: '' @ choices @ ''.''
         | FlagValue \<Rightarrow> ''Write one of: '' @ choices @ ''.''
         | NameValue \<Rightarrow>
             if fs_word spec = ''import'' then ''Write #id or last.''
             else if fs_values spec = [] then ''Write a name, pre* for a prefix, or #id.''
             else ''Write a name, pre* for a prefix, #id, or one of: '' @ choices @ ''.''
         | PersonValue \<Rightarrow>
             if fs_values spec = [] then ''Write a name, an identity, pre* for a prefix, or #id.''
             else ''Write a name, an identity, pre* for a prefix, #id, or one of: '' @ choices @ ''.''
         | TextValue \<Rightarrow>
             if fs_values spec = [] then ''Write some text, or pre* for a prefix.''
             else ''Write some text, pre* for a prefix, or one of: '' @ choices @ ''.'')"

definition text_or_prefix :: "string \<Rightarrow> bool \<Rightarrow> 'd search_value" where
  "text_or_prefix raw q =
     (case strip_suffix ''*'' raw of
        Some p \<Rightarrow> if \<not> q \<and> p \<noteq> [] then VPrefix p else VText (trim raw)
      | None \<Rightarrow> VText (trim raw))"

definition parse_one_value ::
  "'d calendar \<Rightarrow> field_spec \<Rightarrow> string \<Rightarrow> bool \<Rightarrow> 'd \<Rightarrow> 'd search_value option" where
  "parse_one_value c spec raw q today =
     (let lower = to_ascii_lowercase (trim raw)
      in case find (\<lambda>v. v = lower) (fs_values spec) of
           Some kw \<Rightarrow>
             Some (if fs_value_type spec = ChoiceValue \<or> fs_value_type spec = FlagValue
                   then VChoice kw else VKeyword kw)
         | None \<Rightarrow>
             (case fs_value_type spec of
                ChoiceValue \<Rightarrow> None
              | FlagValue \<Rightarrow> None
              | TextValue \<Rightarrow> Some (text_or_prefix raw q)
              | NameValue \<Rightarrow>
                  if fs_word spec = ''import'' then map_option VId (parse_id raw)
                  else (case parse_id raw of
                      Some i \<Rightarrow> if \<not> q then Some (VId i) else Some (text_or_prefix raw q)
                    | None \<Rightarrow> Some (text_or_prefix raw q))
              | PersonValue \<Rightarrow>
                  (case parse_id raw of
                     Some i \<Rightarrow> if \<not> q then Some (VId i) else Some (text_or_prefix raw q)
                   | None \<Rightarrow> Some (text_or_prefix raw q))
              | DateValue \<Rightarrow> map_option VDate (parse_date c raw today)
              | CountValue \<Rightarrow> map_option VCount (parse_cmp raw parse_count)
              | SizeValue \<Rightarrow> map_option VSize (parse_cmp raw parse_size_bytes)))"

definition empty_value_error :: "field_spec \<Rightarrow> string \<Rightarrow> nat \<times> nat \<Rightarrow> query_error" where
  "empty_value_error spec w sp =
     (let also =
            (case find (\<lambda>v. w @ '':'' @ v \<noteq> fs_example spec) (fs_values spec) of
               Some v \<Rightarrow> '' or '' @ w @ '':'' @ v
             | None \<Rightarrow> '''')
      in (query_error_new EmptyValue sp (w @ '': needs a value, for example '' @ fs_example spec @ also @ ''.''))
           \<lparr>qe_field := Some (fs_word spec)\<rparr>)"

definition suggest :: "string option \<Rightarrow> query_error \<Rightarrow> query_error" where
  "suggest near err =
     (case near of
        Some n \<Rightarrow> err\<lparr>qe_message := qe_message err @ '' Did you mean '' @ n @ '':?'', qe_did_you_mean := Some n\<rparr>
      | None \<Rightarrow> err)"

definition bad_value_error :: "field_spec \<Rightarrow> string \<Rightarrow> string \<Rightarrow> nat \<times> nat \<Rightarrow> query_error" where
  "bad_value_error spec w piece sp =
     (query_error_new BadValue sp
        (if fs_word spec = ''import'' then ''import: needs #id or last.''
         else w @ '': does not understand '' @ trim piece @ ''. '' @ value_hint spec))
       \<lparr>qe_field := Some (fs_word spec)\<rparr>"

fun values_loop ::
  "'d calendar \<Rightarrow> field_spec \<Rightarrow> string \<Rightarrow> bool \<Rightarrow> nat \<times> nat \<Rightarrow> 'd \<Rightarrow> string list \<Rightarrow> 'd search_value list \<Rightarrow>
   query_error + 'd search_value list" where
  "values_loop c spec w q sp today [] vs = Inr vs"
| "values_loop c spec w q sp today (piece # pieces) vs =
     (case parse_one_value c spec piece q today of
        None \<Rightarrow> Inl (bad_value_error spec w piece sp)
      | Some v \<Rightarrow> values_loop c spec w q sp today pieces (vs @ [v]))"

definition field_term_of ::
  "'d calendar \<Rightarrow> list_kind \<Rightarrow> string \<Rightarrow> string \<Rightarrow> bool \<Rightarrow> nat \<times> nat \<Rightarrow> 'd \<Rightarrow> query_error + 'd field_term" where
  "field_term_of c l w raw q sp today =
     (case lookup w of
        None \<Rightarrow> Inl (suggest (nearest w l) (query_error_new UnknownWord sp (w @ '': is not a search word.'')))
      | Some spec \<Rightarrow>
          if l \<notin> set (fs_lists spec) then
            Inl (suggest (case nearest w l of Some n \<Rightarrow> if n \<noteq> fs_word spec then Some n else None | None \<Rightarrow> None)
              ((query_error_new WrongList sp
                  (w @ '': is not a '' @ label l @ '' word. It works on '' @
                   join '' and '' (map label (fs_lists spec)) @ ''.''))
                 \<lparr>qe_field := Some (fs_word spec)\<rparr>))
          else if trim raw = [] then Inl (empty_value_error spec w sp)
          else
            (let pieces = (if q then [raw] else filter (\<lambda>p. trim p \<noteq> []) (split_on CHR '','' raw))
             in if pieces = [] then Inl (empty_value_error spec w sp)
                else bind_res (values_loop c spec w q sp today pieces []) (\<lambda>vs.
                  Inr \<lparr>ft_spec = spec, ft_values = vs, ft_span = sp\<rparr>)))"

section \<open>The recursive descent\<close>

record 'd parser =
  px_cal :: "'d calendar"
  px_list :: list_kind
  px_today :: 'd
  px_end :: nat

definition unbalanced :: "nat \<times> nat \<Rightarrow> string \<Rightarrow> query_error" where
  "unbalanced sp m = query_error_new Unbalanced sp m"

definition at_operand_end :: "tok list \<Rightarrow> bool" where
  "at_operand_end ts =
     (case ts of [] \<Rightarrow> True | t # _ \<Rightarrow> t_kind t = RParen \<or> t_kind t = OrTok \<or> t_kind t = AndTok)"

text \<open>A result that may be missing for want of fuel.\<close>

definition fbind :: "('e + 'a) option \<Rightarrow> ('a \<Rightarrow> ('e + 'b) option) \<Rightarrow> ('e + 'b) option" where
  "fbind m f = (case m of None \<Rightarrow> None | Some (Inl e) \<Rightarrow> Some (Inl e) | Some (Inr x) \<Rightarrow> f x)"

lemma fbind_cong [fundef_cong]:
  "m = m' \<Longrightarrow> (\<And>x. m' = Some (Inr x) \<Longrightarrow> f x = g x) \<Longrightarrow> fbind m f = fbind m' g"
  by (auto simp: fbind_def split: option.splits sum.splits)

definition mk_or :: "'d expr list \<Rightarrow> 'd expr" where
  "mk_or parts = (case parts of [e] \<Rightarrow> e | _ \<Rightarrow> EOr parts)"

definition mk_and :: "'d expr list \<Rightarrow> 'd expr" where
  "mk_and parts = (case parts of [e] \<Rightarrow> e | _ \<Rightarrow> EAnd parts)"

text \<open>
  One definition for each method of the parser, over the calls it makes: \<open>call\<close> runs a job
  with one unit of fuel less. The loops of \<open>parse_or\<close> and \<open>parse_and\<close> are jobs too.
\<close>

type_synonym 'd parsed = "(query_error + 'd expr \<times> tok list) option"

datatype 'd job =
  JOr nat | JOrLoop nat "'d expr list" | JAnd nat | JAndLoop nat "'d expr list"
  | JUnary nat | JPrimary nat tok

definition parse_or :: "('d job \<Rightarrow> tok list \<Rightarrow> 'd parsed) \<Rightarrow> nat \<Rightarrow> tok list \<Rightarrow> 'd parsed" where
  "parse_or call d ts = fbind (call (JAnd d) ts) (\<lambda>(e, ts). call (JOrLoop d [e]) ts)"

definition or_loop ::
  "('d job \<Rightarrow> tok list \<Rightarrow> 'd parsed) \<Rightarrow> nat \<Rightarrow> 'd expr list \<Rightarrow> tok list \<Rightarrow> 'd parsed" where
  "or_loop call d parts ts =
     (case ts of
        t # ts' \<Rightarrow>
          if t_kind t = OrTok then
            if at_operand_end ts' then Some (Inl (unbalanced (t_span t) ''or needs something on both sides.''))
            else fbind (call (JAnd d) ts') (\<lambda>(e, ts). call (JOrLoop d (parts @ [e])) ts)
          else Some (Inr (mk_or parts, ts))
      | [] \<Rightarrow> Some (Inr (mk_or parts, ts)))"

definition parse_and :: "('d job \<Rightarrow> tok list \<Rightarrow> 'd parsed) \<Rightarrow> nat \<Rightarrow> tok list \<Rightarrow> 'd parsed" where
  "parse_and call d ts = fbind (call (JUnary d) ts) (\<lambda>(e, ts). call (JAndLoop d [e]) ts)"

definition and_loop ::
  "('d job \<Rightarrow> tok list \<Rightarrow> 'd parsed) \<Rightarrow> nat \<Rightarrow> 'd expr list \<Rightarrow> tok list \<Rightarrow> 'd parsed" where
  "and_loop call d parts ts =
     (case ts of
        [] \<Rightarrow> Some (Inr (mk_and parts, ts))
      | t # ts' \<Rightarrow>
          if t_kind t = OrTok \<or> t_kind t = RParen then Some (Inr (mk_and parts, ts))
          else if t_kind t = AndTok then
            if at_operand_end ts' then Some (Inl (unbalanced (t_span t) ''and needs something on both sides.''))
            else fbind (call (JUnary d) ts') (\<lambda>(e, ts). call (JAndLoop d (parts @ [e])) ts)
          else fbind (call (JUnary d) ts) (\<lambda>(e, ts). call (JAndLoop d (parts @ [e])) ts))"

definition parse_unary ::
  "'d parser \<Rightarrow> ('d job \<Rightarrow> tok list \<Rightarrow> 'd parsed) \<Rightarrow> nat \<Rightarrow> tok list \<Rightarrow> 'd parsed" where
  "parse_unary px call d ts =
     (if MAX_DEPTH < d then Some (Inl (query_error_new TooComplex (0, px_end px) ''The search nests too deeply.''))
      else
        (case ts of
           [] \<Rightarrow> Some (Inl (unbalanced (px_end px, px_end px) ''The search ends where a word was expected.''))
         | t # ts' \<Rightarrow>
             if t_kind t = NotTok then
               if at_operand_end ts' then Some (Inl (unbalanced (t_span t) ''not needs something after it.''))
               else fbind (call (JUnary (d + 1)) ts') (\<lambda>(e, ts). Some (Inr (ENot e, ts)))
             else fbind (call (JPrimary d t) ts') (\<lambda>(e, ts). Some (Inr (if t_negated t then ENot e else e, ts)))))"

text \<open>\<open>parse_primary\<close> has taken the token \<open>t\<close> off; \<open>ts\<close> are the tokens behind it.\<close>

definition parse_primary ::
  "'d parser \<Rightarrow> ('d job \<Rightarrow> tok list \<Rightarrow> 'd parsed) \<Rightarrow> nat \<Rightarrow> tok \<Rightarrow> tok list \<Rightarrow> 'd parsed" where
  "parse_primary px call d t ts =
     (case t_kind t of
        LParen \<Rightarrow>
          (if ts = [] \<or> t_kind (hd ts) = RParen
           then Some (Inl (unbalanced (t_span t) ''A parenthesis has nothing inside it.''))
           else fbind (call (JOr (d + 1)) ts) (\<lambda>(inner, ts).
             case ts of
               t' # ts' \<Rightarrow>
                 if t_kind t' = RParen then Some (Inr (inner, ts'))
                 else Some (Inl (unbalanced (t_span t) ''A parenthesis never closes.''))
             | [] \<Rightarrow> Some (Inl (unbalanced (t_span t) ''A parenthesis never closes.''))))
      | RParen \<Rightarrow> Some (Inl (unbalanced (t_span t) ''A closing parenthesis has no opening one.''))
      | OrTok \<Rightarrow> Some (Inl (unbalanced (t_span t) ''or and and need something on both sides.''))
      | AndTok \<Rightarrow> Some (Inl (unbalanced (t_span t) ''or and and need something on both sides.''))
      | NotTok \<Rightarrow> Some (Inl (unbalanced (t_span t) ''not needs something after it.''))
      | FieldTok w v q \<Rightarrow>
          Some (bind_res (field_term_of (px_cal px) (px_list px) w v q (t_span t) (px_today px)) (\<lambda>f.
            Inr (EField f, ts)))
      | WordTok txt p \<Rightarrow> Some (Inr (EText (TermText txt p), ts))
      | PhraseTok txt \<Rightarrow>
          if trim txt = []
          then Some (Inl (query_error_new EmptyValue (t_span t) ''A quoted phrase needs some text between the quotes.''))
          else Some (Inr (EText (PhraseText txt), ts)))"

fun run :: "'d parser \<Rightarrow> nat \<Rightarrow> 'd job \<Rightarrow> tok list \<Rightarrow> 'd parsed" where
  "run px 0 j ts = None"
| "run px (Suc n) (JOr d) ts = parse_or (run px n) d ts"
| "run px (Suc n) (JOrLoop d parts) ts = or_loop (run px n) d parts ts"
| "run px (Suc n) (JAnd d) ts = parse_and (run px n) d ts"
| "run px (Suc n) (JAndLoop d parts) ts = and_loop (run px n) d parts ts"
| "run px (Suc n) (JUnary d) ts = parse_unary px (run px n) d ts"
| "run px (Suc n) (JPrimary d t) ts = parse_primary px (run px n) d t ts"

definition parse ::
  "'d calendar \<Rightarrow> nat \<Rightarrow> list_kind \<Rightarrow> tok list \<Rightarrow> 'd \<Rightarrow> (query_error + 'd expr option) option" where
  "parse c fuel l tokens today =
     (if tokens = [] then Some (Inr None)
      else
        (let e = snd (t_span (last tokens))
         in fbind (run \<lparr>px_cal = c, px_list = l, px_today = today, px_end = e\<rparr> fuel (JOr 0) tokens) (\<lambda>(x, rest).
           case rest of
             extra # _ \<Rightarrow> Some (Inl (unbalanced (t_span extra) ''A closing parenthesis has no opening one.''))
           | [] \<Rightarrow>
               if MAX_TEXT_TERMS < text_terms x then
                 Some (Inl (query_error_new TooComplex (0, e)
                   (''The search has more than '' @ dec_string MAX_TEXT_TERMS @ '' words.'')))
               else if MAX_NODES < nodes x then
                 Some (Inl (query_error_new TooComplex (0, e) ''The search has too many parts.''))
               else Some (Inr (Some x)))))"

definition parse_fuel :: "tok list \<Rightarrow> nat" where
  "parse_fuel ts = 6 * length ts + 4"

section \<open>The fuel is enough\<close>

text \<open>A result that is there and, when it is a tree, has used at least \<open>k\<close> tokens.\<close>

definition done_by :: "nat \<Rightarrow> tok list \<Rightarrow> (query_error + 'd expr \<times> tok list) option \<Rightarrow> bool" where
  "done_by k ts r \<longleftrightarrow>
     (case r of None \<Rightarrow> False | Some (Inl e) \<Rightarrow> True | Some (Inr (e, ts')) \<Rightarrow> length ts' + k \<le> length ts)"

lemma done_by_simps [simp]:
  "done_by k ts (Some (Inl err))"
  "done_by k ts (Some (Inr (e, ts'))) \<longleftrightarrow> length ts' + k \<le> length ts"
  "\<not> done_by k ts None"
  by (simp_all add: done_by_def)

lemma done_by_bind:
  assumes "done_by k us m" "\<And>e ts'. m = Some (Inr (e, ts')) \<Longrightarrow> length ts' + k \<le> length us \<Longrightarrow> done_by j ts (f e ts')"
  shows "done_by j ts (fbind m (\<lambda>(e, ts). f e ts))"
  using assms by (auto simp: fbind_def done_by_def split: option.splits sum.splits)

text \<open>The fuel a job needs for the tokens in front of it, and the tokens it uses at least.\<close>

fun job_fuel :: "'d job \<Rightarrow> nat \<Rightarrow> nat" where
  "job_fuel (JOr d) n = 6 * n + 4"
| "job_fuel (JOrLoop d ps) n = 6 * n + 1"
| "job_fuel (JAnd d) n = 6 * n + 3"
| "job_fuel (JAndLoop d ps) n = 6 * n + 3"
| "job_fuel (JUnary d) n = 6 * n + 2"
| "job_fuel (JPrimary d t) n = 6 * n + 7"

fun job_uses :: "'d job \<Rightarrow> nat" where
  "job_uses (JOr d) = 1"
| "job_uses (JOrLoop d ps) = 0"
| "job_uses (JAnd d) = 1"
| "job_uses (JAndLoop d ps) = 0"
| "job_uses (JUnary d) = 1"
| "job_uses (JPrimary d t) = 0"

lemma done_by_callD:
  assumes "\<And>j ts. job_fuel j (length ts) \<le> n \<Longrightarrow> done_by (job_uses j) ts (call j ts)"
    and "job_fuel j (length us) \<le> n"
    and "\<And>e ts'. length ts' + job_uses j \<le> length us \<Longrightarrow> done_by k ts (f e ts')"
  shows "done_by k ts (fbind (call j us) (\<lambda>(e, ts). f e ts))"
  using assms(1) [OF assms(2)] assms(3) by (rule done_by_bind)

lemma done_by_less: "done_by k ts r \<Longrightarrow> j + length ts \<le> k + length us \<Longrightarrow> done_by j us r"
  by (auto simp: done_by_def split: option.splits sum.splits)

lemma run_done: "job_fuel j (length ts) \<le> n \<Longrightarrow> done_by (job_uses j) ts (run px n j ts)"
proof (induction n arbitrary: j ts)
  case 0
  then show ?case by (cases j) auto
next
  case (Suc n)
  note call = done_by_callD [of n "run px n", OF Suc.IH]
  show ?case
  proof (cases j)
    case (JOr d)
    with Suc.prems show ?thesis
      by (auto simp: parse_or_def intro!: call done_by_less [OF Suc.IH])
  next
    case (JOrLoop d parts)
    with Suc.prems show ?thesis
      by (auto simp: or_loop_def intro!: call done_by_less [OF Suc.IH] split: list.splits)
  next
    case (JAnd d)
    with Suc.prems show ?thesis
      by (auto simp: parse_and_def intro!: call done_by_less [OF Suc.IH])
  next
    case (JAndLoop d parts)
    with Suc.prems show ?thesis
      by (auto simp: and_loop_def intro!: call done_by_less [OF Suc.IH] split: list.splits)
  next
    case (JUnary d)
    with Suc.prems show ?thesis
      by (auto simp: parse_unary_def intro!: call split: list.splits)
  next
    case (JPrimary d t)
    with Suc.prems show ?thesis
      by (auto simp: parse_primary_def bind_res_def intro!: call split: list.splits token_kind.splits sum.splits)
  qed
qed

section \<open>The grammar\<close>

text \<open>
  What the language is: an \<open>or\<close> of \<open>and\<close>s of terms, a term negated by \<open>not\<close> or by a minus on its
  first token. Each relation holds of the tokens of a phrase and the tree it means.
\<close>

inductive g_ors :: "'d parser \<Rightarrow> tok list \<Rightarrow> 'd expr list \<Rightarrow> bool"
  and g_ands :: "'d parser \<Rightarrow> tok list \<Rightarrow> 'd expr list \<Rightarrow> bool"
  and g_unary :: "'d parser \<Rightarrow> tok list \<Rightarrow> 'd expr \<Rightarrow> bool"
  and g_primary :: "'d parser \<Rightarrow> tok list \<Rightarrow> 'd expr \<Rightarrow> bool"
  for px :: "'d parser"
where
  ors_one: "g_ands px u es \<Longrightarrow> g_ors px u [mk_and es]"
| ors_more: "g_ors px u ps \<Longrightarrow> t_kind t = OrTok \<Longrightarrow> g_ands px v es \<Longrightarrow> g_ors px (u @ t # v) (ps @ [mk_and es])"
| ands_one: "g_unary px u e \<Longrightarrow> g_ands px u [e]"
| ands_and: "g_ands px u ps \<Longrightarrow> t_kind t = AndTok \<Longrightarrow> g_unary px v e \<Longrightarrow> g_ands px (u @ t # v) (ps @ [e])"
| ands_next: "g_ands px u ps \<Longrightarrow> g_unary px v e \<Longrightarrow> g_ands px (u @ v) (ps @ [e])"
| unary_not: "t_kind t = NotTok \<Longrightarrow> g_unary px u e \<Longrightarrow> g_unary px (t # u) (ENot e)"
| unary_primary: "t_kind t \<noteq> NotTok \<Longrightarrow> g_primary px (t # u) e \<Longrightarrow>
    g_unary px (t # u) (if t_negated t then ENot e else e)"
| primary_group: "t_kind t = LParen \<Longrightarrow> g_ors px u es \<Longrightarrow> t_kind t' = RParen \<Longrightarrow>
    g_primary px (t # u @ [t']) (mk_or es)"
| primary_field: "t_kind t = FieldTok w v q \<Longrightarrow>
    field_term_of (px_cal px) (px_list px) w v q (t_span t) (px_today px) = Inr f \<Longrightarrow>
    g_primary px [t] (EField f)"
| primary_word: "t_kind t = WordTok txt p \<Longrightarrow> g_primary px [t] (EText (TermText txt p))"
| primary_phrase: "t_kind t = PhraseTok txt \<Longrightarrow> trim txt \<noteq> [] \<Longrightarrow> g_primary px [t] (EText (PhraseText txt))"

text \<open>How deep negations nest, for the depth limit.\<close>

fun not_depth :: "'d expr \<Rightarrow> nat" where
  "not_depth (EAnd es) = fold max (map not_depth es) 0"
| "not_depth (EOr es) = fold max (map not_depth es) 0"
| "not_depth (ENot e) = Suc (not_depth e)"
| "not_depth (EField f) = 0"
| "not_depth (EText t) = 0"

lemma fold_max_le: "fold max ns m \<le> k \<longleftrightarrow> m \<le> k \<and> (\<forall>n \<in> set ns. n \<le> (k :: nat))"
  by (induction ns arbitrary: m) auto

lemma not_depth_mk [simp]:
  "not_depth (mk_or es) \<le> k \<longleftrightarrow> (\<forall>e \<in> set es. not_depth e \<le> k)"
  "not_depth (mk_and es) \<le> k \<longleftrightarrow> (\<forall>e \<in> set es. not_depth e \<le> k)"
  by (auto simp: mk_or_def mk_and_def fold_max_le split: list.splits)

text \<open>What a job returns: a tree of the grammar over the tokens it used, within the depth left.\<close>

definition shallow :: "nat \<Rightarrow> 'd expr \<Rightarrow> bool" where
  "shallow d e \<longleftrightarrow> d + not_depth e \<le> Suc MAX_DEPTH"

fun job_ok :: "'d parser \<Rightarrow> 'd job \<Rightarrow> tok list \<Rightarrow> 'd expr \<Rightarrow> bool" where
  "job_ok px (JOr d) u e = (\<exists>es. g_ors px u es \<and> e = mk_or es \<and> (\<forall>x \<in> set es. shallow d x))"
| "job_ok px (JOrLoop d ps) u e =
     (\<forall>w. g_ors px w ps \<and> (\<forall>x \<in> set ps. shallow d x) \<longrightarrow>
       (\<exists>es. g_ors px (w @ u) es \<and> e = mk_or es \<and> (\<forall>x \<in> set es. shallow d x)))"
| "job_ok px (JAnd d) u e = (\<exists>es. g_ands px u es \<and> e = mk_and es \<and> (\<forall>x \<in> set es. shallow d x))"
| "job_ok px (JAndLoop d ps) u e =
     (\<forall>w. g_ands px w ps \<and> (\<forall>x \<in> set ps. shallow d x) \<longrightarrow>
       (\<exists>es. g_ands px (w @ u) es \<and> e = mk_and es \<and> (\<forall>x \<in> set es. shallow d x)))"
| "job_ok px (JUnary d) u e = (g_unary px u e \<and> shallow d e)"
| "job_ok px (JPrimary d t) u e =
     (g_primary px (t # u) e \<and> shallow (Suc d) e)"

lemma fbind_Inr: "fbind m f = Some (Inr y) \<longleftrightarrow> (\<exists>x. m = Some (Inr x) \<and> f x = Some (Inr y))"
  by (auto simp: fbind_def split: option.splits sum.splits)

lemma shallow_mk:
  assumes "d \<le> Suc MAX_DEPTH"
  shows "shallow d (mk_or es) \<longleftrightarrow> (\<forall>e \<in> set es. shallow d e)"
    and "shallow d (mk_and es) \<longleftrightarrow> (\<forall>e \<in> set es. shallow d e)"
proof -
  have "shallow d e \<longleftrightarrow> not_depth e \<le> Suc MAX_DEPTH - d" for e :: "'a expr"
    using assms by (auto simp: shallow_def)
  then show "shallow d (mk_or es) \<longleftrightarrow> (\<forall>e \<in> set es. shallow d e)"
    and "shallow d (mk_and es) \<longleftrightarrow> (\<forall>e \<in> set es. shallow d e)"
    by simp_all
qed

lemma shallow_leaf [simp]: "shallow d (EField f) \<longleftrightarrow> d \<le> Suc MAX_DEPTH" "shallow d (EText t) \<longleftrightarrow> d \<le> Suc MAX_DEPTH"
  and shallow_not [simp]: "shallow d (ENot e) \<longleftrightarrow> shallow (Suc d) e"
  by (auto simp: shallow_def)

lemma shallow_SucD: "shallow (Suc d) e \<Longrightarrow> shallow d e"
  by (simp add: shallow_def)

fun job_depth :: "'d job \<Rightarrow> nat" where
  "job_depth (JOr d) = d"
| "job_depth (JOrLoop d ps) = d"
| "job_depth (JAnd d) = d"
| "job_depth (JAndLoop d ps) = d"
| "job_depth (JUnary d) = d"
| "job_depth (JPrimary d t) = Suc d"

lemma run_sound:
  assumes "run px n j ts = Some (Inr (e, ts'))" "job_depth j \<le> Suc MAX_DEPTH"
  shows "\<exists>u. ts = u @ ts' \<and> job_ok px j u e"
  using assms
proof (induction n arbitrary: j ts e ts')
  case 0
  then show ?case by simp
next
  case (Suc n)
  show ?case
  proof (cases j)
    case (JOr d)
    then obtain a us where 1: "run px n (JAnd d) ts = Some (Inr (a, us))"
      and 2: "run px n (JOrLoop d [a]) us = Some (Inr (e, ts'))"
      using Suc.prems by (auto simp: parse_or_def fbind_Inr)
    from Suc.IH [OF 1] Suc.IH [OF 2] Suc.prems JOr obtain u v es where
      "ts = u @ us" "us = v @ ts'" "g_ands px u es" "a = mk_and es" "\<forall>x \<in> set es. shallow d x"
      "job_ok px (JOrLoop d [a]) v e"
      by auto
    with JOr Suc.prems show ?thesis
      by (auto simp: shallow_mk dest: ors_one)
  next
    case (JOrLoop d parts)
    show ?thesis
    proof (cases "\<exists>t us. ts = t # us \<and> t_kind t = OrTok")
      case False
      with JOrLoop Suc.prems show ?thesis
        by (auto simp: or_loop_def split: list.splits if_splits)
    next
      case True
      then obtain t us where ts: "ts = t # us" "t_kind t = OrTok" by blast
      with JOrLoop Suc.prems obtain a vs where 1: "run px n (JAnd d) us = Some (Inr (a, vs))"
        and 2: "run px n (JOrLoop d (parts @ [a])) vs = Some (Inr (e, ts'))"
        by (auto simp: or_loop_def fbind_Inr split: if_splits)
      from Suc.IH [OF 1] Suc.IH [OF 2] Suc.prems JOrLoop obtain u v es where
        u: "us = u @ vs" "vs = v @ ts'" "g_ands px u es" "a = mk_and es" "\<forall>x \<in> set es. shallow d x"
        and v: "job_ok px (JOrLoop d (parts @ [a])) v e"
        by auto
      have "job_ok px j (t # u @ v) e"
        unfolding JOrLoop job_ok.simps
      proof (intro allI impI, elim conjE)
        fix w
        assume w: "g_ors px w parts" "\<forall>x\<in>set parts. shallow d x"
        then have "g_ors px (w @ t # u) (parts @ [a])" "\<forall>x\<in>set (parts @ [a]). shallow d x"
          using u ts(2) Suc.prems(2) JOrLoop by (auto simp: shallow_mk intro: ors_more)
        with v show "\<exists>es. g_ors px (w @ t # u @ v) es \<and> e = mk_or es \<and> (\<forall>x\<in>set es. shallow d x)"
          by fastforce
      qed
      with u ts show ?thesis by (intro exI [of _ "t # u @ v"]) simp
    qed
  next
    case (JAnd d)
    then obtain a us where 1: "run px n (JUnary d) ts = Some (Inr (a, us))"
      and 2: "run px n (JAndLoop d [a]) us = Some (Inr (e, ts'))"
      using Suc.prems by (auto simp: parse_and_def fbind_Inr)
    from Suc.IH [OF 1] Suc.IH [OF 2] Suc.prems JAnd obtain u v where
      "ts = u @ us" "us = v @ ts'" "g_unary px u a" "shallow d a"
      "job_ok px (JAndLoop d [a]) v e"
      by auto
    with JAnd Suc.prems show ?thesis
      by (auto dest: ands_one)
  next
    case (JAndLoop d parts)
    show ?thesis
    proof (cases "\<exists>t us. ts = t # us \<and> t_kind t \<noteq> OrTok \<and> t_kind t \<noteq> RParen")
      case False
      with JAndLoop Suc.prems show ?thesis
        by (auto simp: and_loop_def split: list.splits if_splits)
    next
      case True
      then obtain t us where ts: "ts = t # us" "t_kind t \<noteq> OrTok" "t_kind t \<noteq> RParen" by blast
      define sep where "sep = (if t_kind t = AndTok then [t] else [])"
      define rst where "rst = (if t_kind t = AndTok then us else ts)"
      have split: "ts = sep @ rst" by (simp add: sep_def rst_def ts)
      obtain a vs where 1: "run px n (JUnary d) rst = Some (Inr (a, vs))"
        and 2: "run px n (JAndLoop d (parts @ [a])) vs = Some (Inr (e, ts'))"
        using JAndLoop Suc.prems ts by (auto simp: rst_def and_loop_def fbind_Inr split: if_splits)
      from Suc.IH [OF 1] Suc.IH [OF 2] Suc.prems JAndLoop obtain u v where
        u: "rst = u @ vs" "vs = v @ ts'" "g_unary px u a" "shallow d a"
        and v: "job_ok px (JAndLoop d (parts @ [a])) v e"
        by auto
      have "job_ok px j (sep @ u @ v) e"
        unfolding JAndLoop job_ok.simps
      proof (intro allI impI, elim conjE)
        fix w
        assume w: "g_ands px w parts" "\<forall>x\<in>set parts. shallow d x"
        then have "g_ands px (w @ sep @ u) (parts @ [a])" "\<forall>x\<in>set (parts @ [a]). shallow d x"
          using u by (auto simp: sep_def intro: ands_and ands_next)
        with v show "\<exists>es. g_ands px (w @ sep @ u @ v) es \<and> e = mk_and es \<and> (\<forall>x\<in>set es. shallow d x)"
          by fastforce
      qed
      with u split show ?thesis by (intro exI [of _ "sep @ u @ v"]) simp
    qed
  next
    case (JUnary d)
    then have d: "d \<le> MAX_DEPTH"
      using Suc.prems by (auto simp: parse_unary_def split: if_splits)
    then obtain t us where ts: "ts = t # us"
      using JUnary Suc.prems by (auto simp: parse_unary_def split: list.splits)
    show ?thesis
    proof (cases "t_kind t = NotTok")
      case True
      with JUnary Suc.prems ts d obtain a where
        1: "run px n (JUnary (Suc d)) us = Some (Inr (a, ts'))" and e: "e = ENot a"
        by (auto simp: parse_unary_def fbind_Inr split: if_splits)
      from Suc.IH [OF 1] d obtain u where "us = u @ ts'" "g_unary px u a" "shallow (Suc d) a" by auto
      with True e ts JUnary show ?thesis
        by (intro exI [of _ "t # u"]) (simp add: unary_not)
    next
      case False
      with JUnary Suc.prems ts d obtain a where
        1: "run px n (JPrimary d t) us = Some (Inr (a, ts'))" and e: "e = (if t_negated t then ENot a else a)"
        by (auto simp: parse_unary_def fbind_Inr split: if_splits)
      from Suc.IH [OF 1] d obtain u where "us = u @ ts'" "g_primary px (t # u) a" "shallow (Suc d) a" by auto
      with unary_primary [OF False, of px u a] e ts JUnary show ?thesis
        by (intro exI [of _ "t # u"]) (auto dest: shallow_SucD)
    qed
  next
    case (JPrimary d t)
    then have d: "d \<le> MAX_DEPTH" using Suc.prems by simp
    show ?thesis
    proof (cases "t_kind t = LParen")
      case True
      with JPrimary Suc.prems obtain t' where
        1: "run px n (JOr (Suc d)) ts = Some (Inr (e, t' # ts'))" and t': "t_kind t' = RParen"
        by (auto simp: parse_primary_def fbind_Inr neq_Nil_conv split: if_splits list.splits)
      from Suc.IH [OF 1] d obtain u es where "ts = u @ t' # ts'" "g_ors px u es" "e = mk_or es"
        "\<forall>x \<in> set es. shallow (Suc d) x" by auto
      with True t' d JPrimary show ?thesis
        by (intro exI [of _ "u @ [t']"]) (simp add: primary_group shallow_mk)
    next
      case False
      with JPrimary Suc.prems d show ?thesis
        by (auto simp: parse_primary_def bind_res_eq_Inr split: token_kind.splits if_splits
            intro: primary_field primary_word primary_phrase)
    qed
  qed
qed

section \<open>The parser without its fuel\<close>

definition calls_more :: "('d job \<Rightarrow> tok list \<Rightarrow> 'd parsed) \<Rightarrow> ('d job \<Rightarrow> tok list \<Rightarrow> 'd parsed) \<Rightarrow> bool" where
  "calls_more f g \<longleftrightarrow> (\<forall>j ts r. f j ts = Some r \<longrightarrow> g j ts = Some r)"

lemma fbind_Some: "fbind m f = Some r \<longleftrightarrow> (\<exists>e. m = Some (Inl e) \<and> r = Inl e) \<or> (\<exists>x. m = Some (Inr x) \<and> f x = Some r)"
  by (auto simp: fbind_def split: option.splits sum.splits)

lemma fbind_more:
  assumes "fbind (f j ts) h = Some r" "calls_more f g" "\<And>x r. h x = Some r \<Longrightarrow> h' x = Some r"
  shows "fbind (g j ts) h' = Some r"
  using assms unfolding fbind_Some calls_more_def by blast

lemma calls_moreD: "f j ts = Some r \<Longrightarrow> calls_more f g \<Longrightarrow> g j ts = Some r"
  by (simp add: calls_more_def)

lemma step_more:
  assumes "calls_more f g"
  shows "parse_or f d ts = Some r \<Longrightarrow> parse_or g d ts = Some r"
    and "or_loop f d ps ts = Some r \<Longrightarrow> or_loop g d ps ts = Some r"
    and "parse_and f d ts = Some r \<Longrightarrow> parse_and g d ts = Some r"
    and "and_loop f d ps ts = Some r \<Longrightarrow> and_loop g d ps ts = Some r"
    and "parse_unary px f d ts = Some r \<Longrightarrow> parse_unary px g d ts = Some r"
    and "parse_primary px f d t ts = Some r \<Longrightarrow> parse_primary px g d t ts = Some r"
  unfolding parse_or_def or_loop_def parse_and_def and_loop_def parse_unary_def parse_primary_def
  by (auto elim!: fbind_more [OF _ assms] intro: calls_moreD [OF _ assms]
      split: list.splits if_splits token_kind.splits)

lemma run_more: "calls_more (run px n) (run px (Suc n))"
proof (induction n)
  case 0
  then show ?case by (simp add: calls_more_def)
next
  case (Suc n)
  have "run px (Suc (Suc n)) j ts = Some r" if "run px (Suc n) j ts = Some r" for j ts r
    using that by (cases j) (simp_all only: run.simps step_more [OF Suc])
  then show ?case by (simp add: calls_more_def)
qed

lemma run_mono: "run px n j ts = Some r \<Longrightarrow> n \<le> m \<Longrightarrow> run px m j ts = Some r"
proof (induction m)
  case (Suc m)
  show ?case
  proof (cases "n = Suc m")
    case False
    with Suc show ?thesis by (intro calls_moreD [OF _ run_more]) simp
  qed (use Suc in simp)
qed simp

definition eval_job :: "'d parser \<Rightarrow> 'd job \<Rightarrow> tok list \<Rightarrow> query_error + 'd expr \<times> tok list" where
  "eval_job px j ts = the (run px (job_fuel j (length ts)) j ts)"

lemma run_eval:
  assumes "job_fuel j (length ts) \<le> n"
  shows "run px n j ts = Some (eval_job px j ts)"
proof -
  have "run px (job_fuel j (length ts)) j ts = Some (eval_job px j ts)"
    using run_done [OF order_refl, of j ts px] by (auto simp: eval_job_def done_by_def split: option.splits)
  then show ?thesis using assms by (rule run_mono)
qed

definition ev :: "'d parser \<Rightarrow> 'd job \<Rightarrow> tok list \<Rightarrow> 'd parsed" where
  "ev px j ts = Some (eval_job px j ts)"

lemma run_ev: "calls_more (run px n) (ev px)"
proof -
  have "eval_job px j ts = r" if "run px n j ts = Some r" for j ts r
    using run_mono [OF that, of "max n (job_fuel j (length ts))"]
      run_eval [of j ts "max n (job_fuel j (length ts))" px] by simp
  then show ?thesis by (simp add: calls_more_def ev_def)
qed

lemma ev_eq:
  "ev px (JOr d) ts = parse_or (ev px) d ts"
  "ev px (JOrLoop d ps) ts = or_loop (ev px) d ps ts"
  "ev px (JAnd d) ts = parse_and (ev px) d ts"
  "ev px (JAndLoop d ps) ts = and_loop (ev px) d ps ts"
  "ev px (JUnary d) ts = parse_unary px (ev px) d ts"
  "ev px (JPrimary d t) ts = parse_primary px (ev px) d t ts"
proof -
  have ev: "run px (Suc (job_fuel j (length ts))) j ts = Some (eval_job px j ts)" for j
    by (rule run_eval) simp
  show "ev px (JOr d) ts = parse_or (ev px) d ts"
    and "ev px (JOrLoop d ps) ts = or_loop (ev px) d ps ts"
    and "ev px (JAnd d) ts = parse_and (ev px) d ts"
    and "ev px (JAndLoop d ps) ts = and_loop (ev px) d ps ts"
    and "ev px (JUnary d) ts = parse_unary px (ev px) d ts"
    and "ev px (JPrimary d t) ts = parse_primary px (ev px) d t ts"
    using step_more(1) [OF run_ev ev [of "JOr d", unfolded run.simps]]
      step_more(2) [OF run_ev ev [of "JOrLoop d ps", unfolded run.simps]]
      step_more(3) [OF run_ev ev [of "JAnd d", unfolded run.simps]]
      step_more(4) [OF run_ev ev [of "JAndLoop d ps", unfolded run.simps]]
      step_more(5) [OF run_ev ev [of "JUnary d", unfolded run.simps]]
      step_more(6) [OF run_ev ev [of "JPrimary d t", unfolded run.simps]]
    by (simp_all only: ev_def)
qed

section \<open>Every phrase of the grammar is accepted\<close>

text \<open>A job that returns \<open>r\<close>, or stops because the search is too complex.\<close>

definition gives :: "'d parsed \<Rightarrow> 'd parsed \<Rightarrow> bool" where
  "gives m r \<longleftrightarrow> m = r \<or> (\<exists>err. m = Some (Inl err) \<and> qe_kind err = TooComplex)"

lemma gives_refl [simp]: "gives m m" by (simp add: gives_def)

lemma gives_bind:
  assumes "gives m (Some (Inr (e, ts)))" "gives (f e ts) r"
  shows "gives (fbind m (\<lambda>(e, ts). f e ts)) r"
  using assms by (auto simp: gives_def fbind_def)

lemma gives_trans: "gives m r \<Longrightarrow> gives r r' \<Longrightarrow> gives m r'"
  by (auto simp: gives_def)

definition and_end :: "tok list \<Rightarrow> bool" where
  "and_end ts \<longleftrightarrow> (case ts of [] \<Rightarrow> True | t # _ \<Rightarrow> t_kind t = OrTok \<or> t_kind t = RParen)"

lemma at_operand_end_append: "u \<noteq> [] \<Longrightarrow> at_operand_end (u @ v) \<longleftrightarrow> at_operand_end u"
  by (cases u) (auto simp: at_operand_end_def)

lemma at_operand_end_Cons:
  "at_operand_end (t # ts) \<longleftrightarrow> t_kind t = RParen \<or> t_kind t = OrTok \<or> t_kind t = AndTok"
  by (simp add: at_operand_end_def)

lemma phrase_starts:
  "g_ors px u ps \<Longrightarrow> u \<noteq> [] \<and> \<not> at_operand_end u"
  "g_ands px u ps \<Longrightarrow> u \<noteq> [] \<and> \<not> at_operand_end u"
  "g_unary px u e \<Longrightarrow> u \<noteq> [] \<and> \<not> at_operand_end u"
  "g_primary px u e \<Longrightarrow> u \<noteq> [] \<and> \<not> at_operand_end u \<and> t_kind (hd u) \<noteq> NotTok"
  by (induction rule: g_ors_g_ands_g_unary_g_primary.inducts)
    (auto simp: at_operand_end_append at_operand_end_Cons)

lemma phrase_parses:
  "g_ors px u ps \<Longrightarrow> and_end ts \<Longrightarrow> gives (ev px (JOr d) (u @ ts)) (ev px (JOrLoop d ps) ts)"
  "g_ands px u ps \<Longrightarrow> gives (ev px (JAnd d) (u @ ts)) (ev px (JAndLoop d ps) ts)"
  "g_unary px u e \<Longrightarrow> gives (ev px (JUnary d) (u @ ts)) (Some (Inr (e, ts)))"
  "g_primary px u e \<Longrightarrow> gives (ev px (JPrimary d (hd u)) (tl u @ ts)) (Some (Inr (e, ts)))"
proof (induction arbitrary: d ts and d ts and d ts and d ts rule: g_ors_g_ands_g_unary_g_primary.inducts)
  case (ors_one u es)
  have "gives (ev px (JAnd d) (u @ ts)) (Some (Inr (mk_and es, ts)))"
    using ors_one by (intro gives_trans [OF ors_one.IH(2)]) (auto simp: ev_eq(4) and_loop_def and_end_def split: list.splits)
  then show ?case by (auto simp: ev_eq(1) parse_or_def intro: gives_bind)
next
  case (ors_more u ps t v es)
  have t: "and_end (t # v @ ts)" using ors_more by (simp add: and_end_def)
  have v: "\<not> at_operand_end (v @ ts)" using phrase_starts(2) [OF ors_more.IH(3)] by (simp add: at_operand_end_append)
  have "gives (ev px (JAnd d) (v @ ts)) (Some (Inr (mk_and es, ts)))"
    using ors_more.prems by (intro gives_trans [OF ors_more.IH(4)]) (auto simp: ev_eq(4) and_loop_def and_end_def split: list.splits)
  then have "gives (ev px (JOrLoop d ps) (t # v @ ts)) (ev px (JOrLoop d (ps @ [mk_and es])) ts)"
    using v ors_more.hyps by (auto simp: ev_eq(2) [of _ _ _ "t # _"] or_loop_def intro: gives_bind)
  then show ?case using gives_trans [OF ors_more.IH(2) [OF t]] by simp
next
  case (ands_one u e)
  show ?case unfolding ev_eq(3) parse_and_def by (rule gives_bind [OF ands_one.IH(2)]) simp
next
  case (ands_and u ps t v e)
  have v: "\<not> at_operand_end (v @ ts)" using phrase_starts(3) [OF ands_and.IH(3)] by (simp add: at_operand_end_append)
  have "gives (ev px (JAndLoop d ps) (t # v @ ts)) (ev px (JAndLoop d (ps @ [e])) ts)"
    using v ands_and.hyps by (auto simp: ev_eq(4) [of _ _ _ "t # _"] and_loop_def intro!: gives_bind [OF ands_and.IH(4)])
  then show ?case using gives_trans [OF ands_and.IH(2)] by simp
next
  case (ands_next u ps v e)
  obtain t v' where v: "v = t # v'" "t_kind t \<noteq> OrTok" "t_kind t \<noteq> RParen" "t_kind t \<noteq> AndTok"
    using phrase_starts(3) [OF ands_next.IH(3)] by (cases v) (auto simp: at_operand_end_def)
  have "gives (ev px (JAndLoop d ps) (v @ ts)) (ev px (JAndLoop d (ps @ [e])) ts)"
    using v gives_bind [OF ands_next.IH(4) gives_refl] by (simp add: ev_eq(4) [of _ _ _ "t # _"] and_loop_def)
  then show ?case using gives_trans [OF ands_next.IH(2)] by simp
next
  case (unary_not t u e)
  have u: "\<not> at_operand_end (u @ ts)" using phrase_starts(3) [OF unary_not.IH(1)] by (simp add: at_operand_end_append)
  show ?case
  proof (cases "MAX_DEPTH < d")
    case False
    with u unary_not.hyps show ?thesis
      by (auto simp: ev_eq(5) [of _ _ "t # _"] parse_unary_def intro!: gives_bind [OF unary_not.IH(2)])
  qed (simp add: ev_eq(5) parse_unary_def gives_def query_error_new_def)
next
  case (unary_primary t u e)
  show ?case
  proof (cases "MAX_DEPTH < d")
    case False
    have "gives (ev px (JPrimary d t) (u @ ts)) (Some (Inr (e, ts)))" using unary_primary.IH(2) by simp
    note bind = gives_bind [OF this]
    from False unary_primary.hyps show ?thesis
      by (auto simp: ev_eq(5) [of _ _ "t # _"] parse_unary_def intro!: bind)
  qed (simp add: ev_eq(5) parse_unary_def gives_def query_error_new_def)
next
  case (primary_group t u es t')
  have u: "u \<noteq> []" "t_kind (hd u) \<noteq> RParen"
    using phrase_starts(1) [OF primary_group.IH(1)] by (cases u; auto simp: at_operand_end_def)+
  have "gives (ev px (JOr (Suc d)) (u @ t' # ts)) (ev px (JOrLoop (Suc d) es) (t' # ts))"
    using primary_group by (simp add: and_end_def)
  also have "ev px (JOrLoop (Suc d) es) (t' # ts) = Some (Inr (mk_or es, t' # ts))"
    using primary_group by (simp add: ev_eq(2) or_loop_def)
  finally have bind: "gives (ev px (JOr (Suc d)) (u @ t' # ts)) (Some (Inr (mk_or es, t' # ts)))" .
  show ?case using u primary_group.hyps
    by (auto simp: ev_eq(6) parse_primary_def intro!: gives_bind [OF bind])
next
  case (primary_field t w v q f)
  then show ?case by (simp add: ev_eq(6) parse_primary_def)
next
  case (primary_word t s p)
  then show ?case by (simp add: ev_eq(6) parse_primary_def)
next
  case (primary_phrase t s)
  then show ?case by (simp add: ev_eq(6) parse_primary_def)
qed

section \<open>Queries\<close>

definition parser_of :: "'d calendar \<Rightarrow> list_kind \<Rightarrow> tok list \<Rightarrow> 'd \<Rightarrow> 'd parser" where
  "parser_of c l ts today =
     \<lparr>px_cal = c, px_list = l, px_today = today, px_end = (if ts = [] then 0 else snd (t_span (last ts)))\<rparr>"

text \<open>The tokens \<open>ts\<close> mean the tree \<open>e\<close> in the grammar.\<close>

definition meaning :: "'d calendar \<Rightarrow> list_kind \<Rightarrow> 'd \<Rightarrow> tok list \<Rightarrow> 'd expr \<Rightarrow> bool" where
  "meaning c l today ts e \<longleftrightarrow> (\<exists>es. g_ors (parser_of c l ts today) ts es \<and> e = mk_or es)"

lemma parse_alt:
  assumes "ts \<noteq> []" "parse_fuel ts \<le> n"
  shows "parse c n l ts today =
     fbind (ev (parser_of c l ts today) (JOr 0) ts) (\<lambda>(x, rest).
       case rest of
         extra # _ \<Rightarrow> Some (Inl (unbalanced (t_span extra) ''A closing parenthesis has no opening one.''))
       | [] \<Rightarrow>
           if MAX_TEXT_TERMS < text_terms x then
             Some (Inl (query_error_new TooComplex (0, snd (t_span (last ts)))
               (''The search has more than '' @ dec_string MAX_TEXT_TERMS @ '' words.'')))
           else if MAX_NODES < nodes x then
             Some (Inl (query_error_new TooComplex (0, snd (t_span (last ts))) ''The search has too many parts.''))
           else Some (Inr (Some x)))"
proof -
  have "run px n (JOr 0) ts = ev px (JOr 0) ts" for px :: "'a parser"
    using assms(2) run_eval [of "JOr 0" ts n px] by (simp add: parse_fuel_def ev_def)
  with assms(1) show ?thesis by (simp add: parse_def parser_of_def Let_def)
qed

text \<open>C29: The parser returns on every token list, with a tree, no tree for an empty query, or an
  error: fuel of six times the number of tokens and four is enough, and more fuel changes
  nothing.\<close>

theorem parse_total: "\<exists>r. \<forall>k. parse c (parse_fuel ts + k) l ts today = Some r"
proof (cases "ts = []")
  case False
  have "\<exists>r. fbind (ev px j us) f = Some r" if "\<And>x. \<exists>r. f x = Some r" for px :: "'a parser" and j us
    and f :: "'a expr \<times> tok list \<Rightarrow> (query_error + 'a expr option) option"
    using that by (auto simp: ev_def fbind_def split: sum.splits)
  with False show ?thesis by (fastforce simp: parse_alt [OF False] split: list.splits)
qed (simp add: parse_def)

lemma parse_Inr:
  assumes "parse c (parse_fuel ts) l ts today = Some (Inr (Some e))"
  shows "ts \<noteq> []" "ev (parser_of c l ts today) (JOr 0) ts = Some (Inr (e, []))"
    "text_terms e \<le> MAX_TEXT_TERMS" "nodes e \<le> MAX_NODES"
proof -
  show ne: "ts \<noteq> []" using assms by (auto simp: parse_def)
  obtain x rest where "ev (parser_of c l ts today) (JOr 0) ts = Some (Inr (x, rest))"
    using assms by (auto simp: parse_alt [OF ne] fbind_Inr)
  with assms show "ev (parser_of c l ts today) (JOr 0) ts = Some (Inr (e, []))"
    "text_terms e \<le> MAX_TEXT_TERMS" "nodes e \<le> MAX_NODES"
    by (cases rest; simp add: parse_alt [OF ne] fbind_def split: if_splits)+
qed

lemma parse_meaning:
  assumes "parse c (parse_fuel ts) l ts today = Some (Inr (Some e))"
  shows "meaning c l today ts e" "shallow 0 e"
proof -
  let ?px = "parser_of c l ts today"
  have "run ?px (job_fuel (JOr 0) (length ts)) (JOr 0) ts = Some (Inr (e, []))"
    using parse_Inr(2) [OF assms] run_eval [of "JOr 0" ts _ ?px] by (simp add: ev_def)
  from run_sound [OF this] obtain es where "g_ors ?px ts es" "e = mk_or es" "\<forall>x \<in> set es. shallow 0 x"
    by auto
  then show "meaning c l today ts e" "shallow 0 e"
    by (auto simp: meaning_def shallow_mk)
qed

text \<open>C6: A query that is accepted is a phrase of the grammar from its first token to its last,
  its tree is the one the grammar gives it (\<open>or\<close> of \<open>and\<close>s of terms, a negated term under a
  \<open>Not\<close>), and it keeps the limits: 32 words, 64 nodes, nesting of at most 33 negations.\<close>

theorem parse_sound:
  assumes "parse c (parse_fuel ts) l ts today = Some (Inr (Some e))"
  shows "meaning c l today ts e \<and> text_terms e \<le> 32 \<and> nodes e \<le> 64 \<and> not_depth e \<le> 33"
  using parse_Inr [OF assms] parse_meaning [OF assms]
  by (simp add: MAX_TEXT_TERMS_def MAX_NODES_def MAX_DEPTH_def shallow_def)

text \<open>C7: Every phrase of the grammar is accepted with its tree, unless it is refused as too
  complex: no other error is given for a well-formed query. So a token list has at most one
  tree that is accepted.\<close>

theorem parse_complete:
  assumes "meaning c l today ts e"
  shows "parse c (parse_fuel ts) l ts today = Some (Inr (Some e)) \<or>
    (\<exists>err. parse c (parse_fuel ts) l ts today = Some (Inl err) \<and> qe_kind err = TooComplex)"
proof -
  let ?px = "parser_of c l ts today"
  obtain es where es: "g_ors ?px ts es" "e = mk_or es" using assms by (auto simp: meaning_def)
  have ne: "ts \<noteq> []" using phrase_starts(1) [OF es(1)] by simp
  have "gives (ev ?px (JOr 0) ts) (Some (Inr (e, [])))"
    using phrase_parses(1) [OF es(1), of "[]" 0] es(2) by (simp add: and_end_def ev_eq(2) or_loop_def)
  then consider "ev ?px (JOr 0) ts = Some (Inr (e, []))"
    | err where "ev ?px (JOr 0) ts = Some (Inl err)" "qe_kind err = TooComplex"
    by (auto simp: gives_def)
  then show ?thesis
  proof cases
    case 1
    then show ?thesis
      by (cases "MAX_TEXT_TERMS < text_terms e"; cases "MAX_NODES < nodes e")
        (simp_all add: parse_alt [OF ne] fbind_def query_error_new_def)
  next
    case 2
    then show ?thesis by (simp add: parse_alt [OF ne] fbind_def)
  qed
qed

section \<open>Nothing lost\<close>

text \<open>The terms of a tree from left to right: a field by the place it was written at, a free
  text as it is. And the same of a token, of which the operators have none.\<close>

fun leaves :: "'d expr \<Rightarrow> (nat \<times> nat + text_term) list" where
  "leaves (EAnd es) = concat (map leaves es)"
| "leaves (EOr es) = concat (map leaves es)"
| "leaves (ENot e) = leaves e"
| "leaves (EField f) = [Inl (ft_span f)]"
| "leaves (EText t) = [Inr t]"

definition token_leaf :: "tok \<Rightarrow> (nat \<times> nat + text_term) list" where
  "token_leaf t =
     (case t_kind t of
        FieldTok w v q \<Rightarrow> [Inl (t_span t)]
      | WordTok s p \<Rightarrow> [Inr (TermText s p)]
      | PhraseTok s \<Rightarrow> [Inr (PhraseText s)]
      | _ \<Rightarrow> [])"

fun field_terms :: "'d expr \<Rightarrow> 'd field_term list" where
  "field_terms (EAnd es) = concat (map field_terms es)"
| "field_terms (EOr es) = concat (map field_terms es)"
| "field_terms (ENot e) = field_terms e"
| "field_terms (EField f) = [f]"
| "field_terms (EText t) = []"

lemma leaves_mk [simp]:
  "leaves (mk_or es) = concat (map leaves es)" "leaves (mk_and es) = concat (map leaves es)"
  "field_terms (mk_or es) = concat (map field_terms es)" "field_terms (mk_and es) = concat (map field_terms es)"
  by (auto simp: mk_or_def mk_and_def split: list.splits)

lemma field_term_of_Inr:
  "field_term_of c l w v q sp today = Inr f \<longleftrightarrow>
     (\<exists>spec vs. lookup w = Some spec \<and> l \<in> set (fs_lists spec) \<and> trim v \<noteq> [] \<and>
        (let pieces = (if q then [v] else filter (\<lambda>p. trim p \<noteq> []) (split_on CHR '','' v))
         in pieces \<noteq> [] \<and> values_loop c spec w q sp today pieces [] = Inr vs) \<and>
        f = \<lparr>ft_spec = spec, ft_values = vs, ft_span = sp\<rparr>)"
  by (auto simp: field_term_of_def Let_def bind_res_eq_Inr split: option.splits)

lemma phrase_leaves:
  "g_ors px u ps \<Longrightarrow> concat (map leaves ps) = concat (map token_leaf u)"
  "g_ands px u ps \<Longrightarrow> concat (map leaves ps) = concat (map token_leaf u)"
  "g_unary px u e \<Longrightarrow> leaves e = concat (map token_leaf u)"
  "g_primary px u e \<Longrightarrow> leaves e = concat (map token_leaf u)"
  by (induction rule: g_ors_g_ands_g_unary_g_primary.inducts)
    (auto simp: token_leaf_def field_term_of_Inr Let_def)

lemma values_loop_Inr:
  "values_loop c spec w q sp today pieces vs = Inr vs' \<Longrightarrow>
    \<exists>us. vs' = vs @ us \<and> map Some us = map (\<lambda>p. parse_one_value c spec p q today) pieces"
  by (induction c spec w q sp today pieces vs rule: values_loop.induct) (fastforce split: option.splits)+

definition term_ok :: "'d parser \<Rightarrow> 'd field_term \<Rightarrow> bool" where
  "term_ok px f \<longleftrightarrow>
     px_list px \<in> set (fs_lists (ft_spec f)) \<and> ft_values f \<noteq> [] \<and>
     (\<exists>w. lookup w = Some (ft_spec f)) \<and>
     (\<forall>v \<in> set (ft_values f). \<exists>p q. parse_one_value (px_cal px) (ft_spec f) p q (px_today px) = Some v)"

lemma field_term_ok:
  assumes "field_term_of (px_cal px) (px_list px) w v q sp (px_today px) = Inr f"
  shows "term_ok px f"
proof -
  from assms [unfolded field_term_of_Inr Let_def] obtain spec vs pieces where f: "lookup w = Some spec" "px_list px \<in> set (fs_lists spec)"
    "pieces \<noteq> []" "values_loop (px_cal px) spec w q sp (px_today px) pieces [] = Inr vs"
    "f = \<lparr>ft_spec = spec, ft_values = vs, ft_span = sp\<rparr>"
    by blast
  from values_loop_Inr [OF f(4)]
  have vs: "map Some vs = map (\<lambda>p. parse_one_value (px_cal px) spec p q (px_today px)) pieces" by auto
  have "\<exists>p q. parse_one_value (px_cal px) spec p q (px_today px) = Some v" if "v \<in> set vs" for v
  proof -
    from that have "Some v \<in> set (map Some vs)" by simp
    then have "Some v \<in> set (map (\<lambda>p. parse_one_value (px_cal px) spec p q (px_today px)) pieces)" unfolding vs .
    then show ?thesis unfolding set_map image_iff by metis
  qed
  moreover have "vs \<noteq> []" using vs f(3) by auto
  ultimately show ?thesis using f by (auto simp: term_ok_def)
qed

lemma lookup_word: "lookup w = Some s \<Longrightarrow> lookup (fs_word s) = Some s"
  by (auto simp: lookup_def find_Some_iff)

lemma phrase_terms:
  "g_ors px u ps \<Longrightarrow> list_all (term_ok px) (concat (map field_terms ps))"
  "g_ands px u ps \<Longrightarrow> list_all (term_ok px) (concat (map field_terms ps))"
  "g_unary px u e \<Longrightarrow> list_all (term_ok px) (field_terms e)"
  "g_primary px u e \<Longrightarrow> list_all (term_ok px) (field_terms e)"
  by (induction rule: g_ors_g_ands_g_unary_g_primary.inducts) (auto simp: field_term_ok)

text \<open>C30: No term of an accepted query is lost, repeated or moved: the terms of the tree from
  left to right are those of the tokens.\<close>

theorem parse_keeps_terms:
  assumes "parse c (parse_fuel ts) l ts today = Some (Inr (Some e))"
  shows "leaves e = concat (map token_leaf ts)"
  using parse_meaning(1) [OF assms] by (auto simp: meaning_def dest: phrase_leaves)

text \<open>C31: Every field term of an accepted query is a word of the list that was searched, and it
  has at least one value, each read by that word's value type.\<close>

theorem parse_fields:
  assumes "parse c (parse_fuel ts) l ts today = Some (Inr (Some e))"
  shows "\<forall>f \<in> set (field_terms e). l \<in> set (fs_lists (ft_spec f)) \<and> ft_values f \<noteq> [] \<and>
    lookup (fs_word (ft_spec f)) = Some (ft_spec f) \<and>
    (\<forall>v \<in> set (ft_values f). \<exists>p q. parse_one_value c (ft_spec f) p q today = Some v)"
proof -
  from parse_meaning(1) [OF assms] have "list_all (term_ok (parser_of c l ts today)) (field_terms e)"
    by (auto simp: meaning_def dest: phrase_terms)
  then show ?thesis
    by (auto simp: list_all_iff term_ok_def parser_of_def dest: lookup_word)
qed

section \<open>Errors\<close>

definition points_at :: "nat \<Rightarrow> tok list \<Rightarrow> query_error \<Rightarrow> bool" where
  "points_at n ts err \<longleftrightarrow>
     (\<exists>t \<in> set ts. qe_span err = t_span t) \<or>
     (if qe_kind err = TooComplex then qe_span err = (0, n) else qe_kind err = Unbalanced \<and> qe_span err = (n, n))"

lemma points_at_mono: "points_at n ts err \<Longrightarrow> set ts \<subseteq> set us \<Longrightarrow> points_at n us err"
  by (auto simp: points_at_def)

lemma points_at_token: "t \<in> set ts \<Longrightarrow> qe_span err = t_span t \<Longrightarrow> points_at n ts err"
  by (auto simp: points_at_def)

lemma values_loop_span: "values_loop c spec w q sp today ps vs = Inl err \<Longrightarrow> qe_span err = sp"
  by (induction c spec w q sp today ps vs rule: values_loop.induct)
    (auto simp: bad_value_error_def query_error_new_def split: option.splits)

lemma field_term_span: "field_term_of c l w v q sp today = Inl err \<Longrightarrow> qe_span err = sp"
  by (auto simp: field_term_of_def suggest_def empty_value_error_def bad_value_error_def query_error_new_def Let_def
      bind_res_eq_Inl
      dest: values_loop_span split: option.splits if_splits)

fun job_toks :: "'d job \<Rightarrow> tok list" where
  "job_toks (JPrimary d t) = [t]"
| "job_toks _ = []"

text \<open>A result over some of the tokens \<open>us\<close>: an error points at one of them or at the end of the
  query, a tree leaves only some of them.\<close>

definition within :: "nat \<Rightarrow> tok list \<Rightarrow> 'd parsed \<Rightarrow> bool" where
  "within n us r \<longleftrightarrow>
     (case r of
        None \<Rightarrow> True
      | Some (Inl err) \<Rightarrow> points_at n us err
      | Some (Inr (e, ts')) \<Rightarrow> set ts' \<subseteq> set us)"

lemma within_simps [simp]:
  "within n us None"
  "within n us (Some (Inl err)) \<longleftrightarrow> points_at n us err"
  "within n us (Some (Inr (e, ts'))) \<longleftrightarrow> set ts' \<subseteq> set us"
  by (simp_all add: within_def)

lemma within_mono: "within n us r \<Longrightarrow> set us \<subseteq> set vs \<Longrightarrow> within n vs r"
  by (auto simp: within_def intro: points_at_mono split: option.splits sum.splits)

lemma within_bind:
  assumes "within n us m" "\<And>e ts'. set ts' \<subseteq> set us \<Longrightarrow> within n us (f e ts')"
  shows "within n us (fbind m (\<lambda>(e, ts). f e ts))"
proof (cases "\<exists>e ts. m = Some (Inr (e, ts))")
  case True
  with assms show ?thesis by (auto simp: fbind_def)
next
  case False
  with assms show ?thesis by (auto simp: fbind_def split: option.splits sum.splits)
qed

lemma within_error: "t \<in> set us \<Longrightarrow> within n us (Some (Inl (query_error_new k (t_span t) m)))"
  by (auto simp: query_error_new_def intro: points_at_token)

lemma run_within: "within (px_end px) (job_toks j @ ts) (run px n j ts)"
proof (induction n arbitrary: j ts)
  case (Suc n)
  have call: "within (px_end px) us (run px n j' ts')" if "set (job_toks j' @ ts') \<subseteq> set us" for j' ts' us
    using Suc.IH that by (rule within_mono)
  note intros = within_bind call within_error
  show ?case
  proof (cases j)
    case (JOr d)
    then show ?thesis by (auto simp: parse_or_def intro!: within_bind call)
  next
    case (JOrLoop d parts)
    then show ?thesis
      by (auto simp del: within_simps(2) simp: or_loop_def unbalanced_def intro!: intros split: list.splits)
  next
    case (JAnd d)
    then show ?thesis by (auto simp: parse_and_def intro!: within_bind call)
  next
    case (JAndLoop d parts)
    then show ?thesis
      by (auto simp del: within_simps(2) simp: and_loop_def unbalanced_def intro!: intros split: list.splits)
  next
    case (JUnary d)
    have e: "within n us (Some (Inl (query_error_new TooComplex (0, n) m)))"
      "within n us (Some (Inl (query_error_new Unbalanced (n, n) m)))" for n us m
      by (simp_all add: points_at_def query_error_new_def)
    from JUnary show ?thesis
      by (auto simp del: within_simps(2) simp: parse_unary_def unbalanced_def intro!: intros e split: list.splits)
  next
    case (JPrimary d t)
    have e: "within n (t # us) (Some (bind_res (field_term_of c l w v q (t_span t) today) (\<lambda>f. Inr (EField f, us))))"
      for n us w v q today c l
      by (auto simp: bind_res_def intro: points_at_token dest: field_term_span split: sum.splits)
    from JPrimary show ?thesis
      by (auto simp del: within_simps(2) simp: parse_primary_def unbalanced_def intro!: intros e
          split: list.splits token_kind.splits) blast
  qed
qed simp

text \<open>C32: An error of the parser points into the query: at one of its tokens, at its end when it
  stops short, or at the whole of it when it is too complex.\<close>

theorem parse_error_span:
  assumes "parse c (parse_fuel ts) l ts today = Some (Inl err)"
  shows "(\<exists>t \<in> set ts. qe_span err = t_span t) \<or>
    (let n = snd (t_span (last ts)) in
     if qe_kind err = TooComplex then qe_span err = (0, n) else qe_kind err = Unbalanced \<and> qe_span err = (n, n))"
proof -
  let ?px = "parser_of c l ts today" and ?n = "snd (t_span (last ts))"
  have ne: "ts \<noteq> []" using assms by (auto simp: parse_def)
  have "points_at ?n ts err"
  proof (cases "\<exists>e rest. ev ?px (JOr 0) ts = Some (Inr (e, rest))")
    case False
    then have "ev ?px (JOr 0) ts = Some (Inl err)"
      using assms by (auto simp: parse_alt [OF ne] fbind_def split: option.splits sum.splits)
    then show ?thesis
      using run_within [of ?px "JOr 0" ts "job_fuel (JOr 0) (length ts)"] ne run_eval [of "JOr 0" ts _ ?px]
      by (simp add: ev_def parser_of_def)
  next
    case True
    then obtain e rest where r: "ev ?px (JOr 0) ts = Some (Inr (e, rest))" by blast
    then have "set rest \<subseteq> set ts"
      using run_within [of ?px "JOr 0" ts "job_fuel (JOr 0) (length ts)"] run_eval [of "JOr 0" ts _ ?px]
      by (simp add: ev_def)
    with assms show ?thesis
      by (cases rest; simp add: parse_alt [OF ne] r fbind_def points_at_def unbalanced_def query_error_new_def
          split: if_splits) auto
  qed
  then show ?thesis by (simp add: points_at_def Let_def)
qed

section \<open>A query\<close>

definition sample_tree :: "date expr" where
  "sample_tree =
     EOr [ENot (EText (TermText ''a'' False)),
          EField \<lparr>ft_spec = the (lookup ''from''), ft_values = [VKeyword ''me''], ft_span = (6, 13)\<rparr>]"

lemma sample_parsed:
  "parse gregorian (parse_fuel sample_tokens) Messages sample_tokens (2026, 9, 2) = Some (Inr (Some sample_tree))"
  by code_simp

lemma parse_sound_witness:
  "meaning gregorian Messages (2026, 9, 2) sample_tokens sample_tree \<and> nodes sample_tree \<le> 64"
  using parse_sound [OF sample_parsed] by blast

lemma parse_complete_witness:
  "meaning gregorian Messages (2026, 9, 2) sample_tokens sample_tree \<and>
   parse gregorian (parse_fuel sample_tokens) Messages sample_tokens (2026, 9, 2) = Some (Inr (Some sample_tree))"
  using parse_complete [OF parse_meaning(1) [OF sample_parsed]] parse_meaning(1) [OF sample_parsed] sample_parsed
  by simp

lemma parse_keeps_terms_witness:
  "leaves sample_tree = [Inr (TermText ''a'' False), Inl (6, 13)]"
  using parse_keeps_terms [OF sample_parsed] by (simp add: sample_tokens_def token_leaf_def)

lemma parse_fields_witness:
  "let f = hd (field_terms sample_tree) in Messages \<in> set (fs_lists (ft_spec f)) \<and> ft_values f \<noteq> []"
  using parse_fields [OF sample_parsed] by (simp add: sample_tree_def)

text \<open>A query of one closing parenthesis is refused where it stands.\<close>

lemma parse_error_span_witness:
  "let t = \<lparr>t_kind = RParen, t_span = (0, 1), t_negated = False\<rparr>
   in \<exists>err. parse gregorian (parse_fuel [t]) Messages [t] (2026, 9, 2) = Some (Inl err) \<and> qe_span err = (0, 1)"
proof -
  let ?t = "\<lparr>t_kind = RParen, t_span = (0, 1), t_negated = False\<rparr>"
  let ?err = "unbalanced (0, 1) ''A closing parenthesis has no opening one.''"
  have p: "parse gregorian (parse_fuel [?t]) Messages [?t] (2026, 9, 2) = Some (Inl ?err)"
    by code_simp
  from parse_error_span [OF p] have "qe_span ?err = (0, 1)"
    by (auto simp: unbalanced_def query_error_new_def)
  with p show ?thesis by (auto simp: Let_def)
qed

end
