(* ===== verification/Emit.thy ===== *)
theory Emit
  imports SqlFrag SearchParse
begin

text \<open>
  From the tree to one WHERE fragment: the defaults of each list, one emitter per word, and
  the full-text query (\<open>crates/server/server/src/search/emit.rs\<close>, \<open>search/fts.rs\<close>, and the
  \<open>Filter\<close> of \<open>search/mod.rs\<close>). An emitter returns the fragment it appends, or the error.
\<close>

section \<open>The full-text index\<close>

definition fts5_literal :: "string \<Rightarrow> string" where
  "fts5_literal term =
     [quote_char] @ concat (map (\<lambda>c. if c = quote_char then [quote_char, quote_char] else [c]) term) @ [quote_char]"

definition match_expr :: "text_term \<Rightarrow> string" where
  "match_expr t =
     (case t of
        TermText s True \<Rightarrow> fts5_literal s @ ''*''
      | TermText s False \<Rightarrow> fts5_literal s
      | PhraseText s \<Rightarrow> fts5_literal s)"

definition matching_ids :: "text_term \<Rightarrow> sql" where
  "matching_ids t = cat [lit ''SELECT rowid FROM messages_fts WHERE messages_fts MATCH '', bind_text (match_expr t)]"

definition rank_query :: "text_term list \<Rightarrow> string option" where
  "rank_query terms = (if terms = [] then None else Some (join '' OR '' (map match_expr terms)))"

section \<open>Text\<close>

definition like_escape :: "string \<Rightarrow> string" where
  "like_escape s =
     concat (map (\<lambda>c. if c = bslash \<or> c = CHR ''%'' \<or> c = CHR ''_'' then [bslash, c] else [c]) s)"

definition like_contains :: "string \<Rightarrow> string \<Rightarrow> bool \<Rightarrow> sql" where
  "like_contains column s p =
     (let s = like_escape s
      in if p then cat [lit ''('', like column (s @ ''%''), lit '' OR '', like column (''% '' @ s @ ''%''), lit '')'']
         else like column (''%'' @ s @ ''%''))"

text \<open>\<open>coalesce(column, '')\<close>, the columns that may be NULL.\<close>

definition or_empty :: "string \<Rightarrow> string" where "or_empty column = (''coalesce('' @ column @ '', '' @ qq @ '')'')"

definition free_text_match :: "string \<Rightarrow> text_term \<Rightarrow> sql" where
  "free_text_match column t =
     (case t of TermText s p \<Rightarrow> like_contains column s p | PhraseText s \<Rightarrow> like_contains column s False)"

definition PARTICIPANT_NAME :: string where
  "PARTICIPANT_NAME = (
       ''coalesce(NULLIF(trim(pct.preferred_name), '' @
       qq @
       ''), NULLIF(trim(p.name_alias), '' @
       qq @
       ''), '' @
       qq @
       '')'')"

definition participants_with_contact :: "trash_scope \<Rightarrow> string" where
  "participants_with_contact trash =
     (
       ''participants p LEFT JOIN contact_handles pch ON pch.handle_id = p.handle_id AND '' @
       ''pch.account_id = c.account_id LEFT JOIN contacts pct ON pct.id = pch.contact_id AND '' @
       ''pct.account_id = c.account_id'' @
       (contact_clause trash ''pct''))"

definition emit_text :: "'d list_ctx \<Rightarrow> text_term \<Rightarrow> sql" where
  "emit_text cx t =
     (case cx_list cx of
        Contacts \<Rightarrow>
          cat [lit ''('', free_text_match ''ct.preferred_name'' t,
            lit (
       '' OR EXISTS (SELECT 1 FROM contact_handles ch JOIN handles h ON h.id = ch.handle_id WHERE '' @
       ''ch.account_id = ct.account_id AND ch.contact_id = ct.id AND (''),
            free_text_match ''h.raw'' t, lit '' OR '', free_text_match (or_empty ''h.normalized'') t, lit '')))'']
      | Conversations \<Rightarrow>
          cat [lit ''('', free_text_match (or_empty ''c.group_title'') t,
            lit '' OR EXISTS (SELECT 1 FROM handles hc WHERE hc.id = c.chat_handle_id AND '',
            free_text_match ''hc.raw'' t,
            lit (
       '') OR EXISTS (SELECT 1 FROM '' @
       (participants_with_contact (cx_trash cx)) @
       '' LEFT JOIN handles ph ON ph.id = p.handle_id WHERE p.conversation_id = c.id AND (''),
            free_text_match (or_empty ''ph.raw'') t, lit '' OR '', free_text_match PARTICIPANT_NAME t, lit '')))'']
      | Messages \<Rightarrow>
          cat [lit ''m.id IN ('', matching_ids t,
            lit '' UNION ALL SELECT a.message_id FROM attachments a WHERE '',
            free_text_match (or_empty ''a.original_name'') t, lit '')''])"

section \<open>One word\<close>

type_synonym emitted = "query_error + sql"

definition bad_value :: "'d field_term \<Rightarrow> string \<Rightarrow> query_error" where
  "bad_value t what = query_error_new BadValue (ft_span t) (fs_word (ft_spec t) @ '': '' @ what)"

definition text_match :: "string \<Rightarrow> 'd field_term \<Rightarrow> 'd search_value \<Rightarrow> emitted" where
  "text_match column t v =
     (case v of
        VText s \<Rightarrow> Inr (like_contains column s False)
      | VPrefix p \<Rightarrow> Inr (like_contains column p True)
      | VKeyword k \<Rightarrow>
          if k = ''none'' then Inr (lit (''NULLIF(trim('' @ column @ ''), '' @ qq @ '') IS NULL''))
          else if k = ''any'' then Inr (lit (''NULLIF(trim('' @ column @ ''), '' @ qq @ '') IS NOT NULL''))
          else Inl (bad_value t ''needs text, a prefix, or none/any.'')
      | _ \<Rightarrow> Inl (bad_value t ''needs text, a prefix, or none/any.''))"

text \<open>The two columns of a handle, behind \<open>pre\<close>, which opens two parentheses.\<close>

definition identity_match :: "string \<Rightarrow> 'd field_term \<Rightarrow> 'd search_value \<Rightarrow> emitted" where
  "identity_match pre t v =
     bind_res (text_match ''h.raw'' t v) (\<lambda>a.
     bind_res (text_match (or_empty ''h.normalized'') t v) (\<lambda>b.
       Inr (cat [lit pre, a, lit '' OR '', b, lit ''))''])))"

definition contact_handles_from :: string where
  "contact_handles_from = (
       ''EXISTS (SELECT 1 FROM contact_handles ch JOIN handles h ON h.id = ch.handle_id WHERE '' @
       ''ch.account_id = ct.account_id AND ch.contact_id = ct.id AND '')"

definition participant_address :: string where
  "participant_address = (
       ''EXISTS (SELECT 1 FROM participants p JOIN handles h ON h.id = p.handle_id WHERE '' @
       ''p.conversation_id = c.id AND h.handle_type <> 'other')'')"

definition conversation_handles_from :: string where
  "conversation_handles_from = (
       ''EXISTS (SELECT 1 FROM handles h WHERE (h.id = c.chat_handle_id OR EXISTS (SELECT 1 FROM '' @
       ''participants p WHERE p.conversation_id = c.id AND p.handle_id = h.id)) AND ('')"

definition emit_identity :: "'d list_ctx \<Rightarrow> 'd field_term \<Rightarrow> 'd search_value \<Rightarrow> emitted" where
  "emit_identity cx t v =
     (if cx_list cx = Contacts then
        (case v of
           VText s \<Rightarrow> identity_match (contact_handles_from @ ''('') t v
         | VPrefix s \<Rightarrow> identity_match (contact_handles_from @ ''('') t v
         | VKeyword k \<Rightarrow>
             if k = ''none'' then Inr (lit (''NOT '' @ contact_handles_from @ ''h.handle_type <> 'other')''))
             else if k = ''any'' then Inr (lit (contact_handles_from @ ''h.handle_type <> 'other')''))
             else Inl (bad_value t ''needs text, a prefix, or none/any.'')
         | _ \<Rightarrow> Inl (bad_value t ''needs text, a prefix, or none/any.''))
      else
        map_res (on_conversation cx)
          (case v of
             VText s \<Rightarrow> identity_match conversation_handles_from t v
           | VPrefix s \<Rightarrow> identity_match conversation_handles_from t v
           | VKeyword k \<Rightarrow>
               if k = ''none'' then Inr (lit (''NOT '' @ participant_address))
               else if k = ''any'' then Inr (lit participant_address)
               else Inl (bad_value t ''needs text, a prefix, or none/any.'')
           | _ \<Rightarrow> Inl (bad_value t ''needs text, a prefix, or none/any.'')))"

definition emit_text_word :: "'d list_ctx \<Rightarrow> 'd field_term \<Rightarrow> 'd search_value \<Rightarrow> emitted" where
  "emit_text_word cx t v =
     (let w = fs_word (ft_spec t)
      in if w = ''body'' then map_res (on_message cx) (text_match (or_empty ''m.body'') t v)
         else if w = ''subject'' then map_res (on_message cx) (text_match (or_empty ''m.subject'') t v)
         else if w = ''title'' then map_res (on_conversation cx) (text_match (or_empty ''c.group_title'') t v)
         else if w = ''name'' then
           if cx_list cx = Contacts then text_match ''ct.preferred_name'' t v
           else
             map_res
               (\<lambda>q. on_conversation cx
                  (cat [lit (
       ''EXISTS (SELECT 1 FROM '' @
       (participants_with_contact (cx_trash cx)) @
       '' WHERE p.conversation_id = c.id AND ''), q, lit '')'']))
               (text_match PARTICIPANT_NAME t v)
         else if w = ''identity'' then emit_identity cx t v
         else if w = ''filename'' then
           map_res
             (\<lambda>q. on_message cx
                (cat [lit ''EXISTS (SELECT 1 FROM attachments a WHERE a.message_id = m.id AND '', q, lit '')'']))
             (text_match (or_empty ''a.original_name'') t v)
         else Inl (query_error_new BadValue (ft_span t) (w @ '': is not built yet.'')))"

section \<open>People, sets and Import Runs\<close>

text \<open>A value that is text: \<open>Text\<close> or \<open>Prefix\<close>, with whether it is a prefix.\<close>

definition text_value :: "'d search_value \<Rightarrow> (string \<times> bool) option" where
  "text_value v = (case v of VText s \<Rightarrow> Some (s, False) | VPrefix s \<Rightarrow> Some (s, True) | _ \<Rightarrow> None)"

definition person_matches ::
  "'d list_ctx \<Rightarrow> string \<Rightarrow> 'd field_term \<Rightarrow> 'd search_value \<Rightarrow> emitted" where
  "person_matches cx handle_id_expr t v =
     (case v of
        VId i \<Rightarrow>
          Inr (cat
            ([lit (
       ''EXISTS (SELECT 1 FROM contact_handles chp WHERE chp.handle_id = '' @
       handle_id_expr @
       '' AND chp.contact_id = ''),
              bind_int i] @
             (if cx_trash cx = LeftOut
              then [lit '' AND '', lit (not_trashed_contact_id ''chp.account_id'' ''chp.contact_id'')] else []) @
             [lit '')'']))
      | _ \<Rightarrow>
          (case text_value v of
             Some (s, p) \<Rightarrow>
               Inr (cat
                 [lit (
       ''EXISTS (SELECT 1 FROM handles hp LEFT JOIN contact_handles chp ON chp.handle_id = hp.id AND '' @
       ''chp.account_id = hp.account_id LEFT JOIN contacts ctp ON ctp.id = chp.contact_id'' @
       (contact_clause (cx_trash cx) ''ctp'') @
       '' WHERE hp.id = '' @
       handle_id_expr @
       '' AND (''),
                  like_contains ''hp.raw'' s p, lit '' OR '', like_contains (or_empty ''hp.normalized'') s p,
                  lit '' OR '', like_contains (or_empty ''ctp.preferred_name'') s p, lit ''))''])
           | None \<Rightarrow> Inl (bad_value t ''needs a name, an identity, or #id.'')))"

definition participant_matches :: "'d field_term \<Rightarrow> 'd search_value \<Rightarrow> emitted" where
  "participant_matches t v =
     (case v of
        VId i \<Rightarrow> Inr (lit ''0'')
      | _ \<Rightarrow>
          (case text_value v of
             Some (s, p) \<Rightarrow> Inr (like_contains PARTICIPANT_NAME s p)
           | None \<Rightarrow> Inl (bad_value t ''needs a name, an identity, or #id.'')))"

definition with_person :: "'d list_ctx \<Rightarrow> 'd field_term \<Rightarrow> 'd search_value \<Rightarrow> emitted" where
  "with_person cx t v =
     bind_res (person_matches cx ''c.chat_handle_id'' t v) (\<lambda>a.
     bind_res (person_matches cx ''p.handle_id'' t v) (\<lambda>b.
     bind_res (participant_matches t v) (\<lambda>q.
       Inr (on_conversation cx
         (cat [lit ''('', a,
            lit (
       '' OR EXISTS (SELECT 1 FROM '' @
       (participants_with_contact (cx_trash cx)) @
       '' WHERE p.conversation_id = c.id AND (''),
            b, lit '' OR '', q, lit '')))''])))))"

record named_set =
  ns_home :: list_kind
  ns_table :: string
  ns_members :: string
  ns_set_col :: string
  ns_member_col :: string
  ns_row_expr :: string
  ns_account_expr :: string

definition CONTACT_GROUPS :: named_set where
  "CONTACT_GROUPS =
     \<lparr>ns_home = Contacts, ns_table = ''contact_groups'', ns_members = ''contact_group_members'',
      ns_set_col = ''group_id'', ns_member_col = ''contact_id'', ns_row_expr = ''ct.id'',
      ns_account_expr = ''ct.account_id''\<rparr>"

definition MESSAGE_TAGS :: named_set where
  "MESSAGE_TAGS =
     \<lparr>ns_home = Conversations, ns_table = ''message_tags'', ns_members = ''message_tag_members'',
      ns_set_col = ''tag_id'', ns_member_col = ''conversation_id'', ns_row_expr = ''c.id'',
      ns_account_expr = ''c.account_id''\<rparr>"

definition membership_from :: "named_set \<Rightarrow> string" where
  "membership_from ns =
     (
       ''SELECT 1 FROM '' @
       (ns_members ns) @
       '' nm JOIN '' @
       (ns_table ns) @
       '' ns ON ns.id = nm.'' @
       (ns_set_col ns) @
       '' WHERE nm.'' @
       (ns_member_col ns) @
       '' = '' @
       (ns_row_expr ns) @
       '' AND ns.account_id = '' @
       (ns_account_expr ns))"

text \<open>\<open>UNKNOWN_CONTACT_SQL\<close> (\<open>crates/server/server/src/db/contacts.rs\<close>), line breaks and all.\<close>

definition UNKNOWN_CONTACT_SQL :: string where
  "UNKNOWN_CONTACT_SQL =
     (
       ''('' @
       [newline] @
       ''    trim(ct.preferred_name) = '' @
       qq @
       [newline] @
       ''    OR NOT EXISTS ('' @
       [newline] @
       ''        SELECT 1 FROM contact_handles ch2'' @
       [newline] @
       ''        JOIN handles h2 ON h2.id = ch2.handle_id'' @
       [newline] @
       ''        WHERE ch2.account_id = ct.account_id AND ch2.contact_id = ct.id'' @
       [newline] @
       ''          AND h2.handle_type <> 'other'' @
       [quote] @
       [newline] @
       ''    )'' @
       [newline] @
       '')'')"

definition set_contains :: "named_set \<Rightarrow> 'd field_term \<Rightarrow> 'd search_value \<Rightarrow> emitted" where
  "set_contains ns t v =
     map_res (\<lambda>q. cat [lit (''EXISTS ('' @ membership_from ns @ '' AND ''), q, lit '')''])
       (case v of
          VId i \<Rightarrow> Inr (cat [lit ''ns.id = '', bind_int i])
        | VText s \<Rightarrow> Inr (cat [lit ''lower(ns.name) = lower('', bind_text s, lit '')''])
        | VPrefix s \<Rightarrow> Inr (like_contains ''ns.name'' s True)
        | _ \<Rightarrow> Inl (bad_value t ''needs a name or #id.''))"

definition set_none :: "named_set \<Rightarrow> sql" where
  "set_none ns =
     (if ns_home ns = Contacts
      then lit (''(NOT EXISTS ('' @ membership_from ns @ '') AND NOT '' @ UNKNOWN_CONTACT_SQL @ '')'')
      else lit (''NOT EXISTS ('' @ membership_from ns @ '')''))"

definition emit_from :: "'d list_ctx \<Rightarrow> 'd field_term \<Rightarrow> 'd search_value \<Rightarrow> emitted" where
  "emit_from cx t v =
     (if (case v of VKeyword k \<Rightarrow> k = ''me'' | _ \<Rightarrow> False) then Inr (lit ''m.is_from_me = 1'')
      else
        map_res
          (\<lambda>q. cat [lit ''(m.is_from_me = 0 AND m.sender_handle_id IS NOT NULL AND '', q, lit '')''])
          (person_matches cx ''m.sender_handle_id'' t v))"

definition emit_to :: "'d list_ctx \<Rightarrow> 'd field_term \<Rightarrow> 'd search_value \<Rightarrow> emitted" where
  "emit_to cx t v =
     (if (case v of VKeyword k \<Rightarrow> k = ''me'' | _ \<Rightarrow> False) then Inr (lit ''m.is_from_me = 0'')
      else
        bind_res (with_person cx t v) (\<lambda>a.
        bind_res (person_matches cx ''m.sender_handle_id'' t v) (\<lambda>b.
          Inr (cat [lit ''('', a, lit '' AND (m.is_from_me = 1 OR m.sender_handle_id IS NULL OR NOT '', b, lit ''))'']))))"

definition emit_in :: "'d list_ctx \<Rightarrow> 'd field_term \<Rightarrow> 'd search_value \<Rightarrow> emitted" where
  "emit_in cx t v =
     (case v of
        VId i \<Rightarrow> Inr (cat [lit ''m.conversation_id = '', bind_int i])
      | _ \<Rightarrow>
          (case text_value v of
             Some (s, p) \<Rightarrow>
               Inr (on_conversation cx
                 (cat [lit ''('', like_contains (or_empty ''c.group_title'') s p,
                    lit '' OR EXISTS (SELECT 1 FROM handles hc WHERE hc.id = c.chat_handle_id AND '',
                    like_contains ''hc.raw'' s p, lit ''))'']))
           | None \<Rightarrow> Inl (bad_value t ''needs a name or #id.'')))"

definition emit_set_word ::
  "'d list_ctx \<Rightarrow> 'd field_term \<Rightarrow> 'd search_value \<Rightarrow> named_set \<Rightarrow> emitted" where
  "emit_set_word cx t v ns =
     (let k = (case v of VKeyword k \<Rightarrow> k | _ \<Rightarrow> [])
      in if k = ''none'' \<and> cx_list cx = ns_home ns then Inr (set_none ns)
         else if k = ''none'' then
           Inr (cat [lit ''NOT '', reach cx (ns_home ns) (cat [lit ''NOT '', set_none ns])])
         else if k = ''unknown'' \<and> ns_home ns = Contacts then Inr (on_contact cx (lit UNKNOWN_CONTACT_SQL))
         else map_res (reach cx (ns_home ns)) (set_contains ns t v))"

definition emit_import :: "'d list_ctx \<Rightarrow> 'd field_term \<Rightarrow> 'd search_value \<Rightarrow> emitted" where
  "emit_import cx t v =
     (let write = (\<lambda>run.
            let on_messages = (cx_list cx = Messages);
                alias = (if on_messages then ''m'' else ''mi'')
            in cat
                 ((if on_messages then []
                   else [lit ''EXISTS (SELECT 1 FROM messages mi WHERE mi.conversation_id = c.id AND '']) @
                  [lit (alias @ ''.import_id = '')] @
                  (case run of
                     Some i \<Rightarrow> [bind_int i]
                   | None \<Rightarrow>
                       [lit ''(SELECT MAX(vi.id) FROM imports vi WHERE vi.account_id = '', bind_int (cx_account cx), lit '')'']) @
                  (if on_messages then [] else [lit '')''])))
      in case v of
           VKeyword k \<Rightarrow> if k = ''last'' then Inr (write None) else Inl (bad_value t ''needs #id or last.'')
         | VId i \<Rightarrow> Inr (write (Some i))
         | _ \<Rightarrow> Inl (bad_value t ''needs #id or last.''))"

definition emit_people_word :: "'d list_ctx \<Rightarrow> 'd field_term \<Rightarrow> 'd search_value \<Rightarrow> emitted" where
  "emit_people_word cx t v =
     (let w = fs_word (ft_spec t)
      in if w = ''with'' then with_person cx t v
         else if w = ''from'' then emit_from cx t v
         else if w = ''to'' then emit_to cx t v
         else if w = ''in'' then emit_in cx t v
         else if w = ''group'' then emit_set_word cx t v CONTACT_GROUPS
         else if w = ''tag'' then emit_set_word cx t v MESSAGE_TAGS
         else if w = ''import'' then emit_import cx t v
         else Inl (bad_value t ''is not built yet.''))"

section \<open>Kinds, sizes, dates and counts\<close>

definition cmp_sql :: "string \<Rightarrow> int cmp \<Rightarrow> sql" where
  "cmp_sql e c =
     (let one = (\<lambda>op v. cat [lit (e @ '' '' @ op @ '' ''), bind_int v])
      in case c of
           CmpEq v \<Rightarrow> one ''='' v
         | CmpGt v \<Rightarrow> one ''>'' v
         | CmpGte v \<Rightarrow> one ''>='' v
         | CmpLt v \<Rightarrow> one ''<'' v
         | CmpLte v \<Rightarrow> one ''<='' v
         | CmpRange a b \<Rightarrow>
             cat [lit (''('' @ e @ '' >= ''), bind_int a, lit ('' AND '' @ e @ '' <= ''), bind_int b, lit '')''])"

definition MIME :: string where "MIME = (''lower(coalesce(a.mime_type, '' @ qq @ ''))'')"

definition attachment_kind_sql :: "string \<Rightarrow> string" where
  "attachment_kind_sql kind =
     (let image = (MIME @ '' LIKE 'image/%'' @ [quote]);
          video = (MIME @ '' LIKE 'video/%'' @ [quote]);
          audio = (MIME @ '' LIKE 'audio/%'' @ [quote]);
          pdf = (MIME @ '' = 'application/pdf'' @ [quote]);
          contact = (MIME @ '' IN ('text/vcard', 'text/x-vcard')'');
          document = (
       ''('' @
       pdf @
       '' OR '' @
       MIME @
       '' LIKE 'text/%' OR '' @
       MIME @
       '' LIKE 'application/vnd.%' OR '' @
       MIME @
       '' IN ('application/msword', 'application/rtf'))'')
      in if kind = ''image'' then image
         else if kind = ''video'' then video
         else if kind = ''audio'' then audio
         else if kind = ''pdf'' then pdf
         else if kind = ''contact'' then contact
         else if kind = ''document'' then (''('' @ document @ '' AND NOT '' @ contact @ '')'')
         else (
       ''NOT ('' @
       image @
       '' OR '' @
       video @
       '' OR '' @
       audio @
       '' OR '' @
       document @
       '' OR '' @
       contact @
       '')''))"

definition emit_kind :: "'d list_ctx \<Rightarrow> string \<Rightarrow> sql" where
  "emit_kind cx k =
     on_conversation cx
       (cat [lit ''c.conversation_type = '', bind_text (if k = ''direct'' then ''individual'' else ''group'')])"

definition emit_service :: "'d list_ctx \<Rightarrow> string \<Rightarrow> sql" where
  "emit_service cx s = on_conversation_message cx (cat [lit (''lower(coalesce(m.service, '' @ qq @ '')) = ''), bind_text s])"

definition emit_source :: "'d list_ctx \<Rightarrow> string \<Rightarrow> sql" where
  "emit_source cx s =
     (if cx_list cx = Messages then cat [lit ''m.source = '', bind_text s]
      else cat [lit ''EXISTS (SELECT 1 FROM messages ms WHERE ms.conversation_id = c.id AND ms.source = '', bind_text s, lit '')''])"

definition emit_attachment :: "'d list_ctx \<Rightarrow> string \<Rightarrow> sql" where
  "emit_attachment cx k =
     on_message cx
       (lit (if k = ''any'' then ''EXISTS (SELECT 1 FROM attachments a WHERE a.message_id = m.id)''
             else if k = ''none'' then ''NOT EXISTS (SELECT 1 FROM attachments a WHERE a.message_id = m.id)''
             else (
       ''EXISTS (SELECT 1 FROM attachments a WHERE a.message_id = m.id AND '' @
       (attachment_kind_sql k) @
       '')'')))"

definition emit_size :: "'d list_ctx \<Rightarrow> int cmp \<Rightarrow> sql" where
  "emit_size cx c =
     on_message cx
       (cat [lit (
       ''EXISTS (SELECT 1 FROM attachments a WHERE a.message_id = m.id AND a.size_bytes IS NOT NULL '' @
       ''AND ''),
          cmp_sql ''a.size_bytes'' c, lit '')''])"

definition emit_trashed :: "'d list_ctx \<Rightarrow> string \<Rightarrow> sql" where
  "emit_trashed cx flag =
     (let not_trashed = (if cx_list cx = Contacts then NOT_TRASHED_CONTACT else NOT_TRASHED_CONVERSATION);
          write = lit (if flag = ''no'' then not_trashed
                       else if flag = ''yes'' then ''NOT ('' @ not_trashed @ '')'' else ''1=1'')
      in if cx_list cx = Messages then on_conversation cx write else write)"

definition emit_kind_word :: "'d list_ctx \<Rightarrow> 'd field_term \<Rightarrow> 'd search_value \<Rightarrow> emitted" where
  "emit_kind_word cx t v =
     (let w = fs_word (ft_spec t); bad = Inl (bad_value t ''needs a value this word accepts.'')
      in case v of
           VChoice k \<Rightarrow>
             if w = ''kind'' then Inr (emit_kind cx k)
             else if w = ''service'' then Inr (emit_service cx k)
             else if w = ''source'' then Inr (emit_source cx k)
             else if w = ''attachment'' then Inr (emit_attachment cx k)
             else if w = ''trashed'' then Inr (emit_trashed cx k)
             else bad
         | VSize c \<Rightarrow> if w = ''size'' then Inr (emit_size cx c) else bad
         | _ \<Rightarrow> bad)"

definition at_or_after_sql :: "string \<Rightarrow> ('d \<Rightarrow> string option) \<Rightarrow> 'd \<Rightarrow> sql" where
  "at_or_after_sql e inst day =
     (case inst day of Some i \<Rightarrow> cat [lit (e @ '' >= ''), bind_text i] | None \<Rightarrow> lit ''0=1'')"

definition before_sql :: "string \<Rightarrow> ('d \<Rightarrow> string option) \<Rightarrow> 'd \<Rightarrow> sql" where
  "before_sql e inst day =
     (case inst day of Some i \<Rightarrow> cat [lit (e @ '' < ''), bind_text i] | None \<Rightarrow> lit (e @ '' IS NOT NULL''))"

definition date_sql :: "string \<Rightarrow> 'd date_cmp \<Rightarrow> ('d \<Rightarrow> string option) \<Rightarrow> sql" where
  "date_sql e c inst =
     (case c of
        DateIn sp \<Rightarrow>
          cat [lit ''('', at_or_after_sql e inst (ds_start sp), lit '' AND '', before_sql e inst (ds_end sp), lit '')'']
      | DateGte d \<Rightarrow> at_or_after_sql e inst d
      | DateGt d \<Rightarrow> at_or_after_sql e inst d
      | DateLt d \<Rightarrow> before_sql e inst d
      | DateLte d \<Rightarrow> before_sql e inst d)"

definition emit_measure_word :: "'d list_ctx \<Rightarrow> 'd field_term \<Rightarrow> 'd search_value \<Rightarrow> emitted" where
  "emit_measure_word cx t v =
     (let w = fs_word (ft_spec t); bad = Inl (bad_value t ''needs a value this word accepts.'')
      in case v of
           VDate c \<Rightarrow>
             if w = ''date'' then Inr (on_message cx (date_sql ''m.timestamp'' c (cx_instant cx)))
             else if w = ''first-message'' then Inr (date_sql (message_aggregate cx AggFirst) c (cx_instant cx))
             else if w = ''last-message'' then Inr (date_sql (message_aggregate cx AggLast) c (cx_instant cx))
             else bad
         | VCount c \<Rightarrow>
             if w = ''messages'' then Inr (cmp_sql (message_aggregate cx AggCount) c)
             else if w = ''conversations'' then
               Inr (cmp_sql (
       ''(SELECT COUNT(*) FROM conversations c2 WHERE '' @
       (contact_conversations_link cx ''c2'') @
       '')'') c)
             else if w = ''groups'' then
               Inr (cmp_sql (
       ''(SELECT COUNT(*) FROM contact_group_members cgm JOIN contact_groups cg ON cg.id = '' @
       ''cgm.group_id WHERE cgm.contact_id = ct.id AND cg.account_id = ct.account_id)'') c)
             else if w = ''participants'' then
               Inr (on_conversation cx
                 (cmp_sql ''(SELECT COUNT(*) FROM participants p WHERE p.conversation_id = c.id)'' c))
             else if w = ''attachments'' then
               Inr (cmp_sql ''(SELECT COUNT(*) FROM attachments a WHERE a.message_id = m.id)'' c)
             else bad
         | _ \<Rightarrow> bad)"

section \<open>The whole tree\<close>

definition emit_one :: "'d list_ctx \<Rightarrow> 'd field_term \<Rightarrow> 'd search_value \<Rightarrow> emitted" where
  "emit_one cx t v =
     (let w = fs_word (ft_spec t)
      in if w \<in> set [''body'', ''subject'', ''name'', ''title'', ''identity'', ''filename''] then emit_text_word cx t v
         else if w \<in> set [''with'', ''from'', ''to'', ''in'', ''group'', ''tag'', ''import''] then emit_people_word cx t v
         else if w \<in> set [''kind'', ''service'', ''source'', ''attachment'', ''size'', ''trashed''] then emit_kind_word cx t v
         else if w \<in> set [''date'', ''first-message'', ''last-message'', ''messages'', ''conversations'', ''groups'',
                          ''participants'', ''attachments''] then emit_measure_word cx t v
         else Inl (query_error_new BadValue (ft_span t) (w @ '': has no emitter; add one in emit.rs'')))"

text \<open>The parts one behind the other with the joiner between them, inside parentheses; the first
  part that fails decides.\<close>

fun joined :: "string \<Rightarrow> sql list \<Rightarrow> sql" where
  "joined j [] = cat []"
| "joined j [q] = q"
| "joined j (q # qs) = cat [q, lit j, joined j qs]"

fun all_res :: "('e + 'a) list \<Rightarrow> 'e + 'a list" where
  "all_res [] = Inr []"
| "all_res (r # rs) = bind_res r (\<lambda>x. map_res ((#) x) (all_res rs))"

definition in_parens :: "string \<Rightarrow> sql list \<Rightarrow> sql" where
  "in_parens j qs = cat [lit ''('', joined j qs, lit '')'']"

definition emit_field :: "'d list_ctx \<Rightarrow> 'd field_term \<Rightarrow> emitted" where
  "emit_field cx t = map_res (in_parens '' OR '') (all_res (map (emit_one cx t) (ft_values t)))"

fun emit_expr :: "'d list_ctx \<Rightarrow> 'd expr \<Rightarrow> emitted" where
  "emit_expr cx (EAnd es) = map_res (in_parens '' AND '') (all_res (map (emit_expr cx) es))"
| "emit_expr cx (EOr es) = map_res (in_parens '' OR '') (all_res (map (emit_expr cx) es))"
| "emit_expr cx (ENot e) = map_res (\<lambda>q. cat [lit ''('', q, lit '') IS NOT TRUE'']) (emit_expr cx e)"
| "emit_expr cx (EText t) = Inr (emit_text cx t)"
| "emit_expr cx (EField t) = emit_field cx t"

record search_filter =
  f_where :: string
  f_params :: "sql_param list"
  f_rank :: "string option"

definition uses_word :: "'d expr option \<Rightarrow> string \<Rightarrow> bool" where
  "uses_word e w = (case e of Some e \<Rightarrow> uses w e | None \<Rightarrow> False)"

definition defaults :: "list_kind \<Rightarrow> 'd expr option \<Rightarrow> sql list" where
  "defaults l e =
     (case l of
        Contacts \<Rightarrow> if uses_word e ''trashed'' then [] else [lit '' AND '', lit NOT_TRASHED_CONTACT]
      | Conversations \<Rightarrow>
          (if uses_word e ''trashed'' then [] else [lit '' AND '', lit NOT_TRASHED_CONVERSATION]) @
          (if uses_word e ''source'' \<or> uses_word e ''import'' then []
           else [lit (
       '' AND EXISTS (SELECT 1 FROM messages m0 WHERE m0.conversation_id = c.id AND m0.duplicate_of '' @
       ''IS NULL)'')])
      | Messages \<Rightarrow>
          (if uses_word e ''source'' \<or> uses_word e ''import'' then [] else [lit '' AND m.duplicate_of IS NULL'']) @
          (if uses_word e ''trashed'' then []
           else [lit '' AND EXISTS (SELECT 1 FROM conversations c WHERE c.id = m.conversation_id AND '',
                 lit NOT_TRASHED_CONVERSATION, lit '')'']))"

definition ctx_of :: "list_kind \<Rightarrow> 'd expr option \<Rightarrow> int \<Rightarrow> ('d \<Rightarrow> string option) \<Rightarrow> 'd list_ctx" where
  "ctx_of l e account_id inst =
     \<lparr>cx_list = l, cx_account = account_id, cx_instant = inst,
      cx_trash = (if uses_word e ''trashed'' then Counted else LeftOut)\<rparr>"

definition emit_compile ::
  "list_kind \<Rightarrow> 'd expr option \<Rightarrow> int \<Rightarrow> ('d \<Rightarrow> string option) \<Rightarrow> query_error + search_filter" where
  "emit_compile l e account_id inst =
     (let cx = ctx_of l e account_id inst
      in bind_res
           (case e of None \<Rightarrow> Inr [] | Some e \<Rightarrow> map_res (\<lambda>q. [lit '' AND '', q]) (emit_expr cx e)) (\<lambda>search.
         let q = cat ([lit ''('', lit (account_col cx), lit '' = '', bind_int (cx_account cx)] @ defaults l e @
                      search @ [lit '')''])
         in Inr \<lparr>f_where = q_text q, f_params = q_params q,
                 f_rank = (case e of
                     Some e \<Rightarrow> if l = Messages then rank_query (positive_text_terms e) else None
                   | None \<Rightarrow> None)\<rparr>))"

definition and_where :: "search_filter \<Rightarrow> string \<Rightarrow> sql_param list \<Rightarrow> search_filter" where
  "and_where f fragment ps =
     f\<lparr>f_where := ''('' @ f_where f @ '' AND '' @ fragment @ '')'', f_params := f_params f @ ps\<rparr>"

text \<open>\<open>compile\<close> of \<open>search/mod.rs\<close>: the lexer, the parser and the emitters.\<close>

definition compile ::
  "'d calendar \<Rightarrow> list_kind \<Rightarrow> string \<Rightarrow> int \<Rightarrow> 'd \<Rightarrow> ('d \<Rightarrow> string option) \<Rightarrow> query_error + search_filter" where
  "compile c l query account_id today inst =
     bind_res (tokenize query) (\<lambda>tokens.
     bind_res (the (parse c (parse_fuel tokens) l tokens today)) (\<lambda>e.
       emit_compile l e account_id inst))"

definition compile_messages_of_conversations ::
  "'d calendar \<Rightarrow> string \<Rightarrow> int \<Rightarrow> 'd \<Rightarrow> ('d \<Rightarrow> string option) \<Rightarrow> query_error + search_filter" where
  "compile_messages_of_conversations c query account_id today inst =
     bind_res (compile c Conversations query account_id today inst) (\<lambda>convs.
       Inr \<lparr>f_where = (
       ''(m.account_id = ? AND m.duplicate_of IS NULL AND m.conversation_id IN (SELECT c.id FROM '' @
       ''conversations c WHERE '' @
       (f_where convs) @
       ''))''),
            f_params = PInt account_id # f_params convs, f_rank = None\<rparr>)"

end
