(* ===== verification/EmitProps.thy ===== *)
theory EmitProps
  imports Emit
begin

text \<open>
  What the SQL of a search is: balanced, a value for each placeholder, no user text in it,
  the account's rows only, and no parsed query without an emitter.
\<close>

section \<open>Balanced, with a value for each placeholder\<close>

definition sound_res :: "emitted \<Rightarrow> bool" where
  "sound_res r \<longleftrightarrow> (case r of Inl e \<Rightarrow> True | Inr q \<Rightarrow> sound_sql q)"

lemma sound_res_simps [simp]: "sound_res (Inl e)" "sound_res (Inr q) \<longleftrightarrow> sound_sql q"
  by (simp_all add: sound_res_def)

lemma sound_res_map: "sound_res r \<Longrightarrow> (\<And>q. sound_sql q \<Longrightarrow> sound_sql (f q)) \<Longrightarrow> sound_res (map_res f r)"
  by (cases r) auto

lemma sound_res_bind: "sound_res r \<Longrightarrow> (\<And>q. sound_sql q \<Longrightarrow> sound_res (f q)) \<Longrightarrow> sound_res (bind_res r f)"
  by (cases r) auto

lemmas counts = sound_sql_def plain_def closed_def

lemma sound_lit: "sound_sql (lit s) \<longleftrightarrow> plain s"
  by (simp add: counts)

lemma sound_like: "plain col \<Longrightarrow> sound_sql (like_contains col s p)"
  by (simp add: like_contains_def like_def counts Let_def)

lemma plain_or_empty: "plain col \<Longrightarrow> plain (or_empty col)"
  by (simp add: or_empty_def counts)

lemma sound_free: "plain col \<Longrightarrow> sound_sql (free_text_match col t)"
  by (cases t) (simp_all add: free_text_match_def sound_like)

lemma plain_participants: "plain (participants_with_contact trash)" "plain PARTICIPANT_NAME"
  using plain_clause(2) [OF plain_alias(5), of trash]
  by (simp_all add: participants_with_contact_def PARTICIPANT_NAME_def counts)

lemma sound_matching_ids: "sound_sql (matching_ids t)"
  by (simp add: matching_ids_def counts)

lemma sound_emit_text: "sound_sql (emit_text cx t)"
proof -
  have free: "sound_sql (free_text_match ''ct.preferred_name'' t)" "sound_sql (free_text_match ''h.raw'' t)"
    "sound_sql (free_text_match (or_empty ''h.normalized'') t)"
    "sound_sql (free_text_match (or_empty ''c.group_title'') t)"
    "sound_sql (free_text_match ''hc.raw'' t)"
    "sound_sql (free_text_match (or_empty ''ph.raw'') t)"
    "sound_sql (free_text_match PARTICIPANT_NAME t)"
    "sound_sql (free_text_match (or_empty ''a.original_name'') t)"
    by (intro sound_free plain_participants plain_or_empty; simp add: counts)+
  with sound_matching_ids [of t] plain_participants(1) [of "cx_trash cx"] show ?thesis
    by (cases "cx_list cx") (simp_all add: emit_text_def counts)
qed

lemma sound_text_match: "plain col \<Longrightarrow> sound_res (text_match col t v)"
  by (cases v) (auto simp: text_match_def sound_like sound_lit, auto simp: counts)

lemma sound_identity_match:
  assumes "net pre = 2" "low pre = 0" "holes pre = 0"
  shows "sound_res (identity_match pre t v)"
proof -
  have "sound_res (text_match ''h.raw'' t v)" "sound_res (text_match (or_empty ''h.normalized'') t v)"
    by (intro sound_text_match plain_or_empty; simp add: counts)+
  with assms show ?thesis
    unfolding identity_match_def
    by (cases "text_match ''h.raw'' t v"; cases "text_match (or_empty ''h.normalized'') t v")
      (simp_all add: counts)
qed

lemma sound_identity: "sound_res (emit_identity cx t v)"
proof -
  have c: "net contact_handles_from = 1" "low contact_handles_from = 0" "holes contact_handles_from = 0"
    by (simp_all add: contact_handles_from_def)
  have d: "net conversation_handles_from = 2" "low conversation_handles_from = 0" "holes conversation_handles_from = 0"
    by (simp_all add: conversation_handles_from_def)
  have p: "plain participant_address" "plain (''NOT '' @ participant_address)"
    by (simp_all add: participant_address_def counts)
  have q: "plain (contact_handles_from @ ''h.handle_type <> '' @ [quote] @ ''other'' @ [quote] @ '')'')"
    "plain (''NOT '' @ contact_handles_from @ ''h.handle_type <> '' @ [quote] @ ''other'' @ [quote] @ '')'')"
    using c by (simp_all add: counts)
  note match = sound_identity_match [of "contact_handles_from @ ''(''" t v]
    sound_identity_match [of conversation_handles_from t v, OF d]
  with c p q show ?thesis
    by (cases v) (auto simp: emit_identity_def sound_lit intro!: sound_res_map sound_wrap)
qed

lemma sound_text_word: "sound_res (emit_text_word cx t v)"
proof -
  have m: "sound_res (text_match (or_empty ''m.body'') t v)"
    "sound_res (text_match (or_empty ''m.subject'') t v)"
    "sound_res (text_match (or_empty ''c.group_title'') t v)"
    "sound_res (text_match ''ct.preferred_name'' t v)"
    "sound_res (text_match PARTICIPANT_NAME t v)"
    "sound_res (text_match (or_empty ''a.original_name'') t v)"
    by (intro sound_text_match plain_participants plain_or_empty; simp add: counts)+
  have w: "sound_sql (cat [lit pre, q, lit '')''])"
    if "net pre = 1" "low pre = 0" "holes pre = 0" "sound_sql q" for pre q
    using that by (simp add: counts)
  show ?thesis
    using plain_participants(1) [of "cx_trash cx"] unfolding emit_text_word_def Let_def
    by (auto intro!: sound_res_map sound_wrap sound_identity m w simp: plain_def closed_def)
qed

lemma text_value_Some: "text_value v = Some (s, p) \<longleftrightarrow> v = VText s \<and> \<not> p \<or> v = VPrefix s \<and> p"
  by (cases v) (auto simp: text_value_def)

lemma sound_person: "plain h \<Longrightarrow> sound_res (person_matches cx h t v)"
proof -
  assume h: "plain h"
  have l: "sound_sql (like_contains ''hp.raw'' s p)"
    "sound_sql (like_contains (or_empty ''hp.normalized'') s p)"
    "sound_sql (like_contains (or_empty ''ctp.preferred_name'') s p)" for s p
    by (intro sound_like plain_or_empty; simp add: counts)+
  have n: "plain (not_trashed_contact_id ''chp.account_id'' ''chp.contact_id'')"
    by (rule plain_trash) (simp_all add: counts)
  show ?thesis
    using h n l plain_clause(2) [OF plain_alias(6), of "cx_trash cx"]
    by (cases v) (simp_all add: person_matches_def text_value_def counts)
qed

lemma sound_participant: "sound_res (participant_matches t v)"
  by (cases v) (simp_all add: participant_matches_def text_value_def sound_like plain_participants sound_lit,
    simp add: counts)

lemma sound_with: "sound_res (with_person cx t v)"
proof -
  have "sound_sql (cat [lit ''('', a,
     lit ('' OR EXISTS (SELECT 1 FROM '' @ participants_with_contact (cx_trash cx) @ '' WHERE p.conversation_id = c.id AND (''),
     b, lit '' OR '', q, lit '')))''])"
    if "sound_sql a" "sound_sql b" "sound_sql q" for a b q
    using that plain_participants(1) [of "cx_trash cx"] by (simp add: counts)
  moreover have "plain ''c.chat_handle_id''" "plain ''p.handle_id''" by (simp_all add: counts)
  ultimately show ?thesis
    unfolding with_person_def
    by (auto intro!: sound_res_bind sound_person sound_participant sound_wrap)
qed

lemma plain_sets:
  "plain (membership_from CONTACT_GROUPS)" "plain (membership_from MESSAGE_TAGS)" "plain UNKNOWN_CONTACT_SQL"
  by (simp_all add: membership_from_def CONTACT_GROUPS_def MESSAGE_TAGS_def UNKNOWN_CONTACT_SQL_def counts)

lemma sound_set_word:
  assumes "plain (membership_from ns)"
  shows "sound_res (emit_set_word cx t v ns)"
proof -
  have name: "sound_sql (like_contains ''ns.name'' s True)" for s
    by (rule sound_like) (simp add: counts)
  have "sound_res (set_contains ns t v)"
    using assms name by (cases v) (simp_all add: set_contains_def counts)
  moreover have "sound_sql (set_none ns)"
    using assms plain_sets(3) by (simp add: set_none_def counts)
  moreover from this have "sound_sql (cat [lit ''NOT '', reach cx l (cat [lit ''NOT '', set_none ns])])" for l
    using sound_wrap(5) [of "cat [lit ''NOT '', set_none ns]" cx l] by (simp add: counts)
  ultimately show ?thesis
    unfolding emit_set_word_def Let_def
    by (auto intro!: sound_res_map sound_wrap simp: sound_lit plain_sets)
qed

lemma sound_import: "sound_res (emit_import cx t v)"
  by (cases v) (simp_all add: emit_import_def Let_def counts)

lemma sound_people_word: "sound_res (emit_people_word cx t v)"
proof -
  have m: "plain ''m.sender_handle_id''" by (simp add: counts)
  have "sound_res (emit_from cx t v)"
    unfolding emit_from_def using sound_person [OF m, of cx t v]
    by (auto intro!: sound_res_map simp: sound_lit, auto simp: counts)
  moreover have "sound_res (emit_to cx t v)"
    unfolding emit_to_def using sound_person [OF m, of cx t v] sound_with [of cx t v]
    by (auto intro!: sound_res_bind simp: sound_lit, auto simp: counts)
  moreover have "sound_res (emit_in cx t v)"
  proof -
    have "sound_sql (like_contains (or_empty ''c.group_title'') s p)" "sound_sql (like_contains ''hc.raw'' s p)" for s p
      by (intro sound_like plain_or_empty; simp add: counts)+
    then have "sound_sql (cat [lit ''('', like_contains (or_empty ''c.group_title'') s p,
       lit '' OR EXISTS (SELECT 1 FROM handles hc WHERE hc.id = c.chat_handle_id AND '',
       like_contains ''hc.raw'' s p, lit ''))''])" for s p
      by (simp add: counts)
    then show ?thesis
      by (cases v) (simp_all add: emit_in_def text_value_def sound_wrap, simp add: counts)
  qed
  ultimately show ?thesis
    unfolding emit_people_word_def Let_def
    by (simp add: sound_with sound_import sound_set_word plain_sets)
qed

lemma sound_cmp: "plain e \<Longrightarrow> sound_sql (cmp_sql e c)"
  by (cases c) (simp_all add: cmp_sql_def Let_def counts)

lemma sound_date: "plain e \<Longrightarrow> sound_sql (date_sql e c inst)"
proof -
  assume e: "plain e"
  then have "sound_sql (at_or_after_sql e inst d)" "sound_sql (before_sql e inst d)" for d
    by (auto simp: at_or_after_sql_def before_sql_def counts split: option.splits)
  then show ?thesis
    by (cases c) (simp_all add: date_sql_def, simp add: counts)
qed

lemma plain_kind: "plain (attachment_kind_sql k)"
proof -
  have "plain MIME" by (simp add: MIME_def counts)
  then show ?thesis by (simp add: attachment_kind_sql_def Let_def counts)
qed

lemma sound_kind_word: "sound_res (emit_kind_word cx t v)"
proof -
  have "sound_sql (emit_kind cx k)" "sound_sql (emit_service cx k)" "sound_sql (emit_source cx k)" for k
    unfolding emit_kind_def emit_service_def emit_source_def
    by (auto intro!: sound_wrap, auto simp: counts)
  moreover have "sound_sql (emit_attachment cx k)" for k
    unfolding emit_attachment_def using plain_kind [of k]
    by (intro sound_wrap) (auto simp: sound_lit, auto simp: counts)
  moreover have "sound_sql (emit_size cx c)" for c
  proof -
    have "sound_sql (cmp_sql ''a.size_bytes'' c)" by (rule sound_cmp) (simp add: counts)
    then show ?thesis unfolding emit_size_def by (intro sound_wrap) (simp add: counts)
  qed
  moreover have "sound_sql (emit_trashed cx k)" for k
    using plain_trash(4,5) unfolding emit_trashed_def Let_def
    by (auto intro!: sound_wrap simp: sound_lit, auto simp: counts)
  ultimately show ?thesis
    by (cases v) (simp_all add: emit_kind_word_def Let_def)
qed

lemma sound_measure_word: "sound_res (emit_measure_word cx t v)"
proof -
  have c: "plain (''(SELECT COUNT(*) FROM conversations c2 WHERE '' @ contact_conversations_link cx ''c2'' @ '')'')"
    using plain_links(3) [OF plain_alias(2), of cx] by (simp add: counts)
  show ?thesis
  proof (cases v)
    case (VDate d)
    then show ?thesis
      by (auto simp: emit_measure_word_def Let_def intro!: sound_wrap sound_date plain_aggregate) (simp add: counts)
  next
    case (VCount d)
    then show ?thesis
      using c by (auto simp: emit_measure_word_def Let_def intro!: sound_wrap sound_cmp plain_aggregate)
        (simp_all add: counts)
  qed (simp_all add: emit_measure_word_def Let_def)
qed

lemma sound_one: "sound_res (emit_one cx t v)"
  by (simp add: emit_one_def Let_def sound_text_word sound_people_word sound_kind_word sound_measure_word)

lemma sound_joined: "\<forall>q \<in> set qs. sound_sql q \<Longrightarrow> plain j \<Longrightarrow> sound_sql (joined j qs)"
  by (induction j qs rule: joined.induct) (simp_all add: counts)

lemma sound_in_parens: "\<forall>q \<in> set qs. sound_sql q \<Longrightarrow> plain j \<Longrightarrow> sound_sql (in_parens j qs)"
  using sound_joined [of qs j] by (simp add: in_parens_def counts)

lemma map_res_eq:
  "map_res g m = Inr y \<longleftrightarrow> (\<exists>x. m = Inr x \<and> y = g x)" "map_res g m = Inl e \<longleftrightarrow> m = Inl e"
  by (cases m; auto)+

lemma all_res_Inr: "all_res rs = Inr xs \<longleftrightarrow> rs = map Inr xs"
proof (induction rs arbitrary: xs)
  case (Cons r rs)
  then show ?case by (cases xs) (auto simp: bind_res_eq_Inr map_res_eq)
qed auto

lemma all_res_Inl: "all_res rs = Inl e \<Longrightarrow> Inl e \<in> set rs"
  by (induction rs) (auto simp: bind_res_eq_Inl map_res_eq)

lemma sound_all:
  assumes "\<forall>r \<in> set rs. sound_res r" "plain j"
  shows "sound_res (map_res (in_parens j) (all_res rs))"
proof (cases "all_res rs")
  case (Inr qs)
  with assms have "\<forall>q \<in> set qs. sound_sql q" by (auto simp: all_res_Inr)
  with Inr assms(2) show ?thesis by (simp add: sound_in_parens)
qed simp

lemma plain_joiners: "plain '' AND ''" "plain '' OR ''"
  by (simp_all add: counts)

lemma sound_expr: "sound_res (emit_expr cx e)"
proof (induction e)
  case (ENot e)
  then show ?case by (cases "emit_expr cx e") (simp_all add: counts)
next
  case (EField t)
  show ?case by (auto simp: emit_field_def intro!: sound_all plain_joiners sound_one)
qed (auto intro!: sound_all plain_joiners sound_emit_text)

end
