(* ===== verification/Compile.thy ===== *)
theory Compile
  imports EmitProps
begin

text \<open>
  The properties of the compiled search: where its SQL text comes from, which rows it can
  reach, and that a parsed query always compiles (\<open>search/mod.rs\<close>, \<open>search/emit.rs\<close>,
  \<open>search/fts.rs\<close>).
\<close>

section \<open>The text is the code's\<close>

text \<open>
  A tree with everything a person typed taken out: every text is empty and every number 0. Of a
  day only one thing is left, whether an instant is known at which it begins (the code emits
  another condition when none is), so that the days of the tree are truth values.
\<close>

fun blank_cmp :: "int cmp \<Rightarrow> int cmp" where
  "blank_cmp (CmpEq v) = CmpEq 0"
| "blank_cmp (CmpGt v) = CmpGt 0"
| "blank_cmp (CmpGte v) = CmpGte 0"
| "blank_cmp (CmpLt v) = CmpLt 0"
| "blank_cmp (CmpLte v) = CmpLte 0"
| "blank_cmp (CmpRange a b) = CmpRange 0 0"

definition known :: "('d \<Rightarrow> string option) \<Rightarrow> 'd \<Rightarrow> bool" where
  "known inst day \<longleftrightarrow> inst day \<noteq> None"

fun blank_date :: "('d \<Rightarrow> string option) \<Rightarrow> 'd date_cmp \<Rightarrow> bool date_cmp" where
  "blank_date inst (DateIn sp) = DateIn (span (known inst (ds_start sp)) (known inst (ds_end sp)))"
| "blank_date inst (DateGte d) = DateGte (known inst d)"
| "blank_date inst (DateGt d) = DateGt (known inst d)"
| "blank_date inst (DateLt d) = DateLt (known inst d)"
| "blank_date inst (DateLte d) = DateLte (known inst d)"

fun blank_value :: "('d \<Rightarrow> string option) \<Rightarrow> 'd search_value \<Rightarrow> bool search_value" where
  "blank_value inst (VText s) = VText []"
| "blank_value inst (VPrefix s) = VPrefix []"
| "blank_value inst (VId i) = VId 0"
| "blank_value inst (VCount c) = VCount (blank_cmp c)"
| "blank_value inst (VSize c) = VSize (blank_cmp c)"
| "blank_value inst (VDate c) = VDate (blank_date inst c)"
| "blank_value inst (VKeyword k) = VKeyword k"
| "blank_value inst (VChoice k) = VChoice k"

fun blank_text :: "text_term \<Rightarrow> text_term" where
  "blank_text (TermText s p) = TermText [] p"
| "blank_text (PhraseText s) = PhraseText []"

definition blank_field :: "('d \<Rightarrow> string option) \<Rightarrow> 'd field_term \<Rightarrow> bool field_term" where
  "blank_field inst t =
     \<lparr>ft_spec = ft_spec t, ft_values = map (blank_value inst) (ft_values t), ft_span = ft_span t\<rparr>"

fun blank :: "('d \<Rightarrow> string option) \<Rightarrow> 'd expr \<Rightarrow> bool expr" where
  "blank inst (EAnd es) = EAnd (map (blank inst) es)"
| "blank inst (EOr es) = EOr (map (blank inst) es)"
| "blank inst (ENot e) = ENot (blank inst e)"
| "blank inst (EField t) = EField (blank_field inst t)"
| "blank inst (EText t) = EText (blank_text t)"

text \<open>The instants of those days are empty texts.\<close>

definition blank_instant :: "bool \<Rightarrow> string option" where
  "blank_instant k = (if k then Some [] else None)"

definition blank_ctx :: "'d list_ctx \<Rightarrow> bool list_ctx" where
  "blank_ctx cx =
     \<lparr>cx_list = cx_list cx, cx_account = 0, cx_instant = blank_instant, cx_trash = cx_trash cx\<rparr>"

lemma blank_ctx_simps [simp]:
  "cx_list (blank_ctx cx) = cx_list cx" "cx_account (blank_ctx cx) = 0"
  "cx_instant (blank_ctx cx) = blank_instant" "cx_trash (blank_ctx cx) = cx_trash cx"
  by (simp_all add: blank_ctx_def)

text \<open>The code that passes from one list to another asks for the list and the trash alone.\<close>

lemma blank_ctx_text [simp]:
  "account_col (blank_ctx cx) = account_col cx"
  "contact_conversations_link (blank_ctx cx) = contact_conversations_link cx"
  "message_aggregate (blank_ctx cx) = message_aggregate cx"
  by (auto simp: fun_eq_iff account_col_def contact_conversations_link_def message_aggregate_def Let_def
      split: list_kind.split)

lemma blank_ctx_wrap [simp]:
  "on_conversation (blank_ctx cx) = on_conversation cx"
  "on_message (blank_ctx cx) = on_message cx"
  "on_contact (blank_ctx cx) = on_contact cx"
  by (auto simp: fun_eq_iff on_conversation_def on_message_def on_contact_def split: list_kind.split)

lemma blank_ctx_reach [simp]:
  "on_conversation_message (blank_ctx cx) = on_conversation_message cx"
  "reach (blank_ctx cx) = reach cx"
  by (auto simp: fun_eq_iff on_conversation_message_def reach_def split: list_kind.split)

lemma blank_ctx_choice [simp]:
  "emit_kind (blank_ctx cx) = emit_kind cx"
  "emit_service (blank_ctx cx) = emit_service cx"
  "emit_source (blank_ctx cx) = emit_source cx"
  "emit_attachment (blank_ctx cx) = emit_attachment cx"
  "emit_trashed (blank_ctx cx) = emit_trashed cx"
  by (simp_all add: fun_eq_iff emit_kind_def emit_service_def emit_source_def emit_attachment_def emit_trashed_def
      Let_def)

text \<open>Two results with the same SQL text, or the same error.\<close>

definition same_text :: "emitted \<Rightarrow> emitted \<Rightarrow> bool" where
  "same_text r r' \<longleftrightarrow> map_res q_text r = map_res q_text r'"

lemma same_text_refl [simp]: "same_text r r"
  by (simp add: same_text_def)

lemma same_text_Inr [simp]: "same_text (Inr q) (Inr q') \<longleftrightarrow> q_text q = q_text q'"
  by (simp add: same_text_def)

lemma same_textE:
  assumes "same_text r r'"
  obtains e where "r = Inl e" "r' = Inl e" | q q' where "r = Inr q" "r' = Inr q'" "q_text q = q_text q'"
  using assms by (cases r; cases r') (simp_all add: same_text_def)

lemma same_text_map:
  assumes "same_text r r'" and f: "\<And>q q'. q_text q = q_text q' \<Longrightarrow> q_text (f q) = q_text (f' q')"
  shows "same_text (map_res f r) (map_res f' r')"
  using assms(1)
proof (cases rule: same_textE)
  case (2 q q')
  from f [OF 2(3)] show ?thesis by (simp add: 2(1,2))
qed simp

lemma same_text_bind:
  assumes "same_text r r'" and f: "\<And>q q'. q_text q = q_text q' \<Longrightarrow> same_text (f q) (f' q')"
  shows "same_text (bind_res r f) (bind_res r' f')"
  using assms(1)
proof (cases rule: same_textE)
  case (2 q q')
  from f [OF 2(3)] show ?thesis by (simp add: 2(1,2))
qed simp

definition like_sql :: "string \<Rightarrow> bool \<Rightarrow> string" where
  "like_sql col p = q_text (like_contains col [] p)"

lemma like_text [simp]: "q_text (like_contains col s p) = like_sql col p"
  by (simp add: like_sql_def like_contains_def like_def Let_def)

lemma free_text [simp]:
  "q_text (free_text_match col t) = like_sql col (case t of TermText s p \<Rightarrow> p | PhraseText s \<Rightarrow> False)"
  by (cases t) (auto simp: free_text_match_def)

lemma blank_text_prefix [simp]:
  "(case blank_text t of TermText s p \<Rightarrow> p | PhraseText s \<Rightarrow> False) = (case t of TermText s p \<Rightarrow> p | PhraseText s \<Rightarrow> False)"
  by (cases t) auto

lemma wrap_text:
  "q_text q = q_text q' \<Longrightarrow> q_text (on_conversation cx q) = q_text (on_conversation cx q')"
  "q_text q = q_text q' \<Longrightarrow> q_text (on_message cx q) = q_text (on_message cx q')"
  "q_text q = q_text q' \<Longrightarrow> q_text (on_conversation_message cx q) = q_text (on_conversation_message cx q')"
  "q_text q = q_text q' \<Longrightarrow> q_text (on_contact cx q) = q_text (on_contact cx q')"
  "q_text q = q_text q' \<Longrightarrow> q_text (reach cx l q) = q_text (reach cx l q')"
proof -
  show 1: "q_text q = q_text q' \<Longrightarrow> q_text (on_conversation cx q) = q_text (on_conversation cx q')"
    by (simp add: on_conversation_def split: list_kind.split)
  show 2: "q_text q = q_text q' \<Longrightarrow> q_text (on_message cx q) = q_text (on_message cx q')"
    by (simp add: on_message_def split: list_kind.split)
  show "q_text q = q_text q' \<Longrightarrow> q_text (on_conversation_message cx q) = q_text (on_conversation_message cx q')"
    using 2 by (simp add: on_conversation_message_def split: list_kind.split)
  show 3: "q_text q = q_text q' \<Longrightarrow> q_text (on_contact cx q) = q_text (on_contact cx q')"
    by (simp add: on_contact_def split: list_kind.split)
  show "q_text q = q_text q' \<Longrightarrow> q_text (reach cx l q) = q_text (reach cx l q')"
    using 1 2 3 by (simp add: reach_def split: list_kind.split)
qed

lemma emit_text_text: "q_text (emit_text (blank_ctx cx) (blank_text t)) = q_text (emit_text cx t)"
  by (cases "cx_list cx") (simp_all add: emit_text_def matching_ids_def)

lemma bad_value_blank [simp]: "bad_value (blank_field inst t) s = bad_value t s"
  by (simp add: bad_value_def blank_field_def)

lemma blank_field_simps [simp]: "ft_spec (blank_field inst t) = ft_spec t" "ft_span (blank_field inst t) = ft_span t"
  by (simp_all add: blank_field_def)

lemma text_match_text: "same_text (text_match col (blank_field inst t) (blank_value inst v)) (text_match col t v)"
  by (cases v) (auto simp: text_match_def)

lemma identity_text: "same_text (emit_identity (blank_ctx cx) (blank_field inst t) (blank_value inst v)) (emit_identity cx t v)"
proof -
  have "same_text (identity_match pre (blank_field inst t) (blank_value inst v)) (identity_match pre t v)" for pre
    unfolding identity_match_def by (intro same_text_bind text_match_text) simp
  then show ?thesis
    by (cases v) (auto simp: emit_identity_def intro!: same_text_map wrap_text)
qed

lemma text_word_text: "same_text (emit_text_word (blank_ctx cx) (blank_field inst t) (blank_value inst v)) (emit_text_word cx t v)"
  unfolding emit_text_word_def Let_def
  by (auto intro!: same_text_map wrap_text text_match_text identity_text)

lemma person_text: "same_text (person_matches (blank_ctx cx) h (blank_field inst t) (blank_value inst v)) (person_matches cx h t v)"
  by (cases v) (auto simp: person_matches_def text_value_def)

lemma participant_text: "same_text (participant_matches (blank_field inst t) (blank_value inst v)) (participant_matches t v)"
  by (cases v) (auto simp: participant_matches_def text_value_def)

lemma with_text: "same_text (with_person (blank_ctx cx) (blank_field inst t) (blank_value inst v)) (with_person cx t v)"
  unfolding with_person_def
  by (intro same_text_bind person_text participant_text) (simp add: wrap_text)

lemma set_word_text: "same_text (emit_set_word (blank_ctx cx) (blank_field inst t) (blank_value inst v) ns) (emit_set_word cx t v ns)"
proof -
  have "same_text (set_contains ns (blank_field inst t) (blank_value inst v)) (set_contains ns t v)"
    by (cases v) (auto simp: set_contains_def)
  then have "same_text (map_res (reach cx l) (set_contains ns (blank_field inst t) (blank_value inst v)))
      (map_res (reach cx l) (set_contains ns t v))" for l
    by (intro same_text_map wrap_text)
  then show ?thesis by (cases v) (auto simp: emit_set_word_def Let_def)
qed

lemma people_word_text:
  "same_text (emit_people_word (blank_ctx cx) (blank_field inst t) (blank_value inst v)) (emit_people_word cx t v)"
proof -
  have me: "(case blank_value inst v of VKeyword k \<Rightarrow> k = ''me'' | _ \<Rightarrow> False) = (case v of VKeyword k \<Rightarrow> k = ''me'' | _ \<Rightarrow> False)"
    by (cases v) auto
  have "same_text (emit_from (blank_ctx cx) (blank_field inst t) (blank_value inst v)) (emit_from cx t v)"
    unfolding emit_from_def me by (auto intro!: same_text_map person_text)
  moreover have "same_text (emit_to (blank_ctx cx) (blank_field inst t) (blank_value inst v)) (emit_to cx t v)"
    unfolding emit_to_def me by (auto intro!: same_text_bind person_text with_text)
  moreover have "same_text (emit_in (blank_ctx cx) (blank_field inst t) (blank_value inst v)) (emit_in cx t v)"
    by (cases v) (auto simp: emit_in_def text_value_def intro!: wrap_text)
  moreover have "same_text (emit_import (blank_ctx cx) (blank_field inst t) (blank_value inst v)) (emit_import cx t v)"
    by (cases v) (auto simp: emit_import_def Let_def)
  ultimately show ?thesis
    unfolding emit_people_word_def Let_def by (simp add: with_text set_word_text)
qed

lemma cmp_text: "q_text (cmp_sql e (blank_cmp c)) = q_text (cmp_sql e c)"
  by (cases c) (simp_all add: cmp_sql_def Let_def)

text \<open>A bound of a date is the same text for every day with an instant.\<close>

lemma bound_text:
  "q_text (at_or_after_sql e blank_instant (known inst d)) = q_text (at_or_after_sql e inst d)"
  "q_text (before_sql e blank_instant (known inst d)) = q_text (before_sql e inst d)"
  by (auto simp: at_or_after_sql_def before_sql_def blank_instant_def known_def split: option.split)

lemma date_text: "q_text (date_sql e (blank_date inst c) blank_instant) = q_text (date_sql e c inst)"
  by (cases c) (simp_all add: date_sql_def bound_text span_def)

lemma kind_word_text: "same_text (emit_kind_word (blank_ctx cx) (blank_field inst t) (blank_value inst v)) (emit_kind_word cx t v)"
  by (cases v) (auto simp: emit_kind_word_def Let_def emit_size_def cmp_text intro!: wrap_text)

lemma measure_word_text:
  "same_text (emit_measure_word (blank_ctx cx) (blank_field (cx_instant cx) t) (blank_value (cx_instant cx) v)) (emit_measure_word cx t v)"
  by (cases v) (auto simp: emit_measure_word_def Let_def cmp_text date_text intro!: wrap_text)

lemma one_text: "same_text (emit_one (blank_ctx cx) (blank_field (cx_instant cx) t) (blank_value (cx_instant cx) v)) (emit_one cx t v)"
  by (simp add: emit_one_def Let_def text_word_text people_word_text kind_word_text measure_word_text)

lemma joined_text: "q_text (joined j qs) = join j (map q_text qs)"
  by (induction j qs rule: joined.induct) simp_all

lemma in_parens_text: "map q_text qs = map q_text qs' \<Longrightarrow> q_text (in_parens j qs) = q_text (in_parens j qs')"
  by (simp add: in_parens_def joined_text)

lemma all_texts:
  "list_all2 same_text rs rs' \<Longrightarrow> map_res (map q_text) (all_res rs) = map_res (map q_text) (all_res rs')"
proof (induction rule: list_all2_induct)
  case (Cons r rs r' rs')
  from Cons(1) show ?case
  proof (cases rule: same_textE)
    case (2 q q')
    with Cons(3) show ?thesis by (cases "all_res rs"; cases "all_res rs'") simp_all
  qed simp
qed simp

lemma all_text:
  assumes "list_all2 same_text rs rs'"
  shows "same_text (map_res (in_parens j) (all_res rs)) (map_res (in_parens j) (all_res rs'))"
proof (cases "all_res rs")
  case (Inl e)
  with all_texts [OF assms] show ?thesis by (cases "all_res rs'") (simp_all add: same_text_def)
next
  case (Inr qs)
  with all_texts [OF assms] obtain qs' where "all_res rs' = Inr qs'" "map q_text qs = map q_text qs'"
    by (cases "all_res rs'") simp_all
  with Inr in_parens_text [of qs qs'] show ?thesis by simp
qed

lemma emit_expr_text: "same_text (emit_expr (blank_ctx cx) (blank (cx_instant cx) e)) (emit_expr cx e)"
proof (induction e)
  case (EAnd es)
  then show ?case by (auto simp: list_all2_conv_all_nth intro!: all_text)
next
  case (EOr es)
  then show ?case by (auto simp: list_all2_conv_all_nth intro!: all_text)
next
  case (ENot e)
  then show ?case by (auto intro!: same_text_map)
next
  case (EField t)
  show ?case
    using one_text [of cx t] by (auto simp: emit_field_def list_all2_conv_all_nth blank_field_def intro!: all_text)
qed (simp add: emit_text_text)

lemma uses_blank [simp]: "uses w (blank inst e) = uses w e"
  by (induction e) (auto simp: list_ex_iff)

lemma blank_ctx_of: "ctx_of l (Some (blank inst e)) 0 blank_instant = blank_ctx (ctx_of l (Some e) account_id inst)"
  by (simp add: ctx_of_def blank_ctx_def uses_word_def)

text \<open>C18: Nothing a person typed is ever part of the SQL: the WHERE text of a query is the WHERE
  text of the same tree with every text empty, every number and the account's own number 0, and
  the instant of every day the empty text. Only the bound values differ. What is left of the tree
  is its shape, the fixed words of the list and, of a day, whether an instant is known for it.\<close>

theorem no_text_in_sql:
  "map_res f_where (emit_compile l (Some e) account_id inst) =
   map_res f_where (emit_compile l (Some (blank inst e)) 0 blank_instant)"
proof -
  have d: "defaults l (Some (blank inst e)) = defaults l (Some e)"
    by (simp add: defaults_def uses_word_def)
  have app: "q_text (cat (qs @ qs')) = q_text (cat qs) @ q_text (cat qs')" for qs qs'
    by (simp add: cat_def)
  have i: "cx_instant (ctx_of l (Some e) account_id inst) = inst" by (simp add: ctx_of_def)
  from emit_expr_text [of "ctx_of l (Some e) account_id inst" e, unfolded i] show ?thesis
    by (cases rule: same_textE) (simp_all add: emit_compile_def Let_def blank_ctx_of [of l inst e account_id] d app)
qed

section \<open>A parsed query compiles\<close>

text \<open>The values the parser reads for a word.\<close>

definition value_fits :: "field_spec \<Rightarrow> 'd search_value \<Rightarrow> bool" where
  "value_fits spec v \<longleftrightarrow>
     (case v of
        VText s \<Rightarrow> fs_value_type spec \<in> {TextValue, NameValue, PersonValue} \<and> fs_word spec \<noteq> ''import''
      | VPrefix s \<Rightarrow> fs_value_type spec \<in> {TextValue, NameValue, PersonValue} \<and> fs_word spec \<noteq> ''import''
      | VId i \<Rightarrow> fs_value_type spec \<in> {NameValue, PersonValue}
      | VKeyword k \<Rightarrow> k \<in> set (fs_values spec) \<and> fs_value_type spec \<notin> {ChoiceValue, FlagValue}
      | VChoice k \<Rightarrow> k \<in> set (fs_values spec) \<and> fs_value_type spec \<in> {ChoiceValue, FlagValue}
      | VDate c \<Rightarrow> fs_value_type spec = DateValue
      | VCount c \<Rightarrow> fs_value_type spec = CountValue
      | VSize c \<Rightarrow> fs_value_type spec = SizeValue)"

lemma fits_text:
  "fs_value_type spec \<in> {TextValue, NameValue, PersonValue} \<Longrightarrow> fs_word spec \<noteq> ''import'' \<Longrightarrow>
    value_fits spec (text_or_prefix raw q)"
  by (auto simp: text_or_prefix_def value_fits_def split: option.splits)

lemma value_fits_simps [simp]:
  "value_fits spec (VId i) \<longleftrightarrow> fs_value_type spec \<in> {NameValue, PersonValue}"
  "value_fits spec (VKeyword k) \<longleftrightarrow> k \<in> set (fs_values spec) \<and> fs_value_type spec \<notin> {ChoiceValue, FlagValue}"
  "value_fits spec (VChoice k) \<longleftrightarrow> k \<in> set (fs_values spec) \<and> fs_value_type spec \<in> {ChoiceValue, FlagValue}"
  "value_fits spec (VDate c) \<longleftrightarrow> fs_value_type spec = DateValue"
  "value_fits spec (VCount n) \<longleftrightarrow> fs_value_type spec = CountValue"
  "value_fits spec (VSize n) \<longleftrightarrow> fs_value_type spec = SizeValue"
  by (simp_all add: value_fits_def)

lemma parse_one_fits:
  assumes "parse_one_value c spec raw q today = Some v" "spec \<in> set FIELDS"
  shows "value_fits spec v"
proof (cases "find (\<lambda>v. v = to_ascii_lowercase (trim raw)) (fs_values spec)")
  case (Some k)
  then have "k \<in> set (fs_values spec)" by (auto simp: find_Some_iff) (metis nth_mem)
  with Some assms(1) show ?thesis by (auto simp: parse_one_value_def Let_def split: if_splits)
next
  case None
  have i: "fs_word spec \<noteq> ''import''" if "fs_value_type spec \<in> {TextValue, PersonValue}"
    using assms(2) that by (auto simp: FIELDS_def spec_of_def)
  with None assms(1) show ?thesis
    by (cases "fs_value_type spec")
      (auto simp: parse_one_value_def Let_def fits_text split: if_splits option.splits)
qed

definition emits :: "emitted \<Rightarrow> bool" where "emits r \<longleftrightarrow> (\<exists>q. r = Inr q)"

lemma emits_Inr [simp]: "emits (Inr q)" and emits_map [simp]: "emits (map_res f r) = emits r"
  by (auto simp: emits_def map_res_eq)

lemma emits_bind: "emits r \<Longrightarrow> (\<And>q. emits (f q)) \<Longrightarrow> emits (bind_res r f)"
  by (auto simp: emits_def)

lemma emits_all: "(\<And>r. r \<in> set rs \<Longrightarrow> emits r) \<Longrightarrow> \<exists>qs. all_res rs = Inr qs"
proof (induction rs)
  case (Cons r rs)
  from Cons.prems [of r] obtain q where "r = Inr q" by (auto simp: emits_def)
  moreover from Cons obtain qs where "all_res rs = Inr qs" by auto
  ultimately show ?case by simp
qed simp

definition value_is_text :: "'d search_value \<Rightarrow> bool" where "value_is_text v \<longleftrightarrow> text_value v \<noteq> None"

lemma emits_text_match: "value_is_text v \<or> v = VKeyword ''none'' \<or> v = VKeyword ''any'' \<Longrightarrow> emits (text_match col t v)"
  by (cases v) (auto simp: text_match_def value_is_text_def text_value_def)

lemma emits_identity: "value_is_text v \<or> v = VKeyword ''none'' \<or> v = VKeyword ''any'' \<Longrightarrow> emits (emit_identity cx t v)"
proof -
  assume v: "value_is_text v \<or> v = VKeyword ''none'' \<or> v = VKeyword ''any''"
  then have "emits (identity_match pre t v)" for pre
    unfolding identity_match_def by (intro emits_bind emits_text_match) simp_all
  with v show ?thesis by (cases v) (auto simp: emit_identity_def value_is_text_def text_value_def)
qed

lemma emits_person: "value_is_text v \<or> (\<exists>i. v = VId i) \<Longrightarrow> emits (person_matches cx h t v) \<and> emits (participant_matches t v)"
  by (cases v) (auto simp: person_matches_def participant_matches_def value_is_text_def text_value_def)

lemma emits_with: "value_is_text v \<or> (\<exists>i. v = VId i) \<Longrightarrow> emits (with_person cx t v)"
  unfolding with_person_def using emits_person [of v] by (blast intro: emits_bind emits_Inr)

lemma emits_from_to:
  assumes "value_is_text v \<or> (\<exists>i. v = VId i) \<or> v = VKeyword ''me''"
  shows "emits (emit_from cx t v)" "emits (emit_to cx t v)"
  using assms emits_person [of v] emits_with [of v cx t]
  by (auto simp: emit_from_def emit_to_def value_is_text_def text_value_def intro!: emits_bind)

lemma emits_in: "value_is_text v \<or> (\<exists>i. v = VId i) \<Longrightarrow> emits (emit_in cx t v)"
  by (cases v) (auto simp: emit_in_def value_is_text_def text_value_def)

lemma emits_set_word:
  "value_is_text v \<or> (\<exists>i. v = VId i) \<or> v = VKeyword ''none'' \<or> v = VKeyword ''unknown'' \<and> ns_home ns = Contacts \<Longrightarrow>
    emits (emit_set_word cx t v ns)"
  by (cases v) (auto simp: emit_set_word_def set_contains_def value_is_text_def text_value_def Let_def)

lemma emits_import: "v = VKeyword ''last'' \<or> (\<exists>i. v = VId i) \<Longrightarrow> emits (emit_import cx t v)"
  by (auto simp: emit_import_def Let_def)

lemmas emits_rules =
  emits_text_match emits_identity emits_with emits_from_to emits_in emits_set_word emits_import

lemma emit_one_total:
  assumes "ft_spec t \<in> set FIELDS" "value_fits (ft_spec t) v"
  shows "emits (emit_one cx t v)"
proof (cases v)
  case (VText s)
  then have "value_is_text v" by (simp add: value_is_text_def text_value_def)
  with VText assms show ?thesis
    by (simp add: FIELDS_def) (elim disjE; simp add: spec_of_def value_fits_def emit_one_def emit_text_word_def
        emit_people_word_def Let_def emits_rules)
next
  case (VPrefix s)
  then have "value_is_text v" by (simp add: value_is_text_def text_value_def)
  with VPrefix assms show ?thesis
    by (simp add: FIELDS_def) (elim disjE; simp add: spec_of_def value_fits_def emit_one_def emit_text_word_def
        emit_people_word_def Let_def emits_rules)
next
  case (VId i)
  with assms show ?thesis
    by (simp add: FIELDS_def) (elim disjE; simp add: spec_of_def value_fits_def emit_one_def emit_text_word_def
        emit_people_word_def Let_def emits_rules)
next
  case (VKeyword k)
  with assms show ?thesis
    by (simp add: FIELDS_def) (elim disjE; auto simp: spec_of_def value_fits_def emit_one_def emit_text_word_def
        NONE_ANY_def emit_people_word_def CONTACT_GROUPS_def Let_def emits_rules)
next
  case (VChoice k)
  with assms show ?thesis
    by (simp add: FIELDS_def) (elim disjE; simp add: spec_of_def value_fits_def emit_one_def emit_kind_word_def Let_def)
next
  case (VDate c)
  with assms show ?thesis
    by (simp add: FIELDS_def) (elim disjE; simp add: spec_of_def value_fits_def emit_one_def emit_measure_word_def Let_def)
next
  case (VCount c)
  with assms show ?thesis
    by (simp add: FIELDS_def) (elim disjE; simp add: spec_of_def value_fits_def emit_one_def emit_measure_word_def Let_def)
next
  case (VSize c)
  with assms show ?thesis
    by (simp add: FIELDS_def) (elim disjE; simp add: spec_of_def value_fits_def emit_one_def emit_kind_word_def Let_def)
qed

lemma emit_field_total:
  assumes "ft_spec t \<in> set FIELDS" "\<forall>v \<in> set (ft_values t). value_fits (ft_spec t) v"
  shows "emits (emit_field cx t)"
proof -
  have "\<exists>qs. all_res (map (emit_one cx t) (ft_values t)) = Inr qs"
    using assms by (intro emits_all) (auto intro: emit_one_total)
  then show ?thesis by (auto simp: emit_field_def)
qed

lemma emit_expr_total:
  "\<forall>t \<in> set (field_terms e). ft_spec t \<in> set FIELDS \<and> (\<forall>v \<in> set (ft_values t). value_fits (ft_spec t) v) \<Longrightarrow>
    emits (emit_expr cx e)"
proof (induction e)
  case (EAnd es)
  then have "\<exists>qs. all_res (map (emit_expr cx) es) = Inr qs"
    by (intro emits_all) auto
  then show ?case by auto
next
  case (EOr es)
  then have "\<exists>qs. all_res (map (emit_expr cx) es) = Inr qs"
    by (intro emits_all) auto
  then show ?case by auto
qed (auto intro: emit_field_total)

lemma parse_fits:
  assumes "parse c (parse_fuel ts) l ts today = Some (Inr (Some e))" "t \<in> set (field_terms e)"
  shows "ft_spec t \<in> set FIELDS \<and> (\<forall>v \<in> set (ft_values t). value_fits (ft_spec t) v)"
proof -
  from parse_meaning(1) [OF assms(1)] have "list_all (term_ok (parser_of c l ts today)) (field_terms e)"
    by (auto simp: meaning_def dest: phrase_terms)
  with assms(2) obtain w where t: "term_ok (parser_of c l ts today) t" and w: "lookup w = Some (ft_spec t)"
    by (auto simp: list_all_iff term_ok_def)
  from w have "ft_spec t \<in> set FIELDS" by (auto simp: lookup_def find_Some_iff)
  with t show ?thesis by (auto simp: term_ok_def parse_one_fits)
qed

text \<open>C35: A query that the lexer and the parser accept always compiles: every word of the
  registry has an emitter for every value it can have, so a search is refused for what the
  person wrote and never for want of an emitter.\<close>

theorem compile_total:
  assumes "tokenize query = Inr ts" "parse c (parse_fuel ts) l ts today = Some (Inr e)"
  shows "\<exists>f. compile c l query account_id today inst = Inr f"
proof (cases e)
  case None
  with assms show ?thesis by (simp add: compile_def emit_compile_def Let_def)
next
  case (Some x)
  have "emits (emit_expr (ctx_of l e account_id inst) x)"
    using assms(2) Some by (intro emit_expr_total ballI) (auto dest: parse_fits)
  with assms Some show ?thesis by (auto simp: compile_def emit_compile_def Let_def emits_def)
qed

section \<open>The rows a search can reach\<close>

lemma skel_parens:
  assumes "closed s"
  shows "skel 0 (''('' @ s @ '')'' @ t) = ''()'' @ skel 0 t"
  using assms by simp

lemma sound_closed: "sound_sql q \<Longrightarrow> closed (q_text q)"
  by (simp add: sound_sql_def)

lemma skel_in_parens:
  assumes "all_res rs = Inr qs" "\<forall>r \<in> set rs. sound_res r" "plain j"
  shows "skel 0 (q_text (in_parens j qs)) = ''()''"
proof -
  have "\<forall>q \<in> set qs. sound_sql q" using assms(1,2) by (auto simp: all_res_Inr)
  from skel_parens [OF sound_closed [OF sound_joined [OF this assms(3)]], of "[]"]
  show ?thesis by (simp add: in_parens_def)
qed

lemma skel_emit_text: "skel 0 (q_text (emit_text cx t)) \<in> {''()'', ''m.id IN ()''}"
proof -
  have free: "closed (q_text (free_text_match ''ct.preferred_name'' t))" "closed (q_text (free_text_match ''h.raw'' t))"
    "closed (q_text (free_text_match (or_empty ''h.normalized'') t))"
    "closed (q_text (free_text_match (or_empty ''c.group_title'') t))"
    "closed (q_text (free_text_match ''hc.raw'' t))"
    "closed (q_text (free_text_match (or_empty ''ph.raw'') t))"
    "closed (q_text (free_text_match PARTICIPANT_NAME t))"
    "closed (q_text (free_text_match (or_empty ''a.original_name'') t))"
    by (intro sound_closed sound_free plain_participants plain_or_empty; simp add: counts)+
  have p: "closed (participants_with_contact (cx_trash cx))"
    using plain_participants(1) by (simp add: plain_def)
  show ?thesis
    by (cases "cx_list cx") (simp_all del: free_text add: emit_text_def free p sound_closed sound_matching_ids)
qed

lemma skel_expr:
  assumes "emit_expr cx e = Inr q"
  shows "skel 0 (q_text q) \<in> {''()'', ''() IS NOT TRUE'', ''m.id IN ()''}"
proof (cases e)
  case (EAnd es)
  with assms skel_in_parens [OF _ _ plain_joiners(1)] sound_expr show ?thesis by (fastforce simp: map_res_eq)
next
  case (EOr es)
  with assms skel_in_parens [OF _ _ plain_joiners(2)] sound_expr show ?thesis by (fastforce simp: map_res_eq)
next
  case (ENot x)
  with assms obtain q' where q: "emit_expr cx x = Inr q'" "q = cat [lit ''('', q', lit '') IS NOT TRUE'']"
    by (auto simp: map_res_eq)
  have "closed (q_text q')" using sound_expr [of cx x] q(1) by (simp add: sound_closed)
  from skel_parens [OF this, of "'' IS NOT TRUE''"] q(2) show ?thesis by simp
next
  case (EField t)
  with assms skel_in_parens [OF _ _ plain_joiners(2)] sound_one show ?thesis
    by (fastforce simp: emit_field_def map_res_eq)
next
  case (EText t)
  with assms skel_emit_text [of cx t] show ?thesis by auto
qed

text \<open>What may stand beside the account at the top of a WHERE fragment.\<close>

definition conjunct :: "string \<Rightarrow> bool" where
  "conjunct s \<longleftrightarrow>
     s \<in> {''NOT EXISTS ()'', ''EXISTS ()'', ''m.duplicate_of IS NULL'', ''()'', ''() IS NOT TRUE'', ''m.id IN ()''}"

definition default_conjuncts :: "list_kind \<Rightarrow> 'd expr option \<Rightarrow> string list" where
  "default_conjuncts l e =
     (let trash = (if uses_word e ''trashed'' then [] else [if l = Messages then ''EXISTS ()'' else ''NOT EXISTS ()'']);
          copies = (if uses_word e ''source'' \<or> uses_word e ''import'' then []
                    else [if l = Messages then ''m.duplicate_of IS NULL'' else ''EXISTS ()''])
      in case l of Contacts \<Rightarrow> trash | Conversations \<Rightarrow> trash @ copies | Messages \<Rightarrow> copies @ trash)"

lemma skel_trash:
  "skel 0 (NOT_TRASHED_CONTACT @ t) = ''NOT EXISTS ()'' @ skel 0 t"
  "skel 0 (NOT_TRASHED_CONVERSATION @ t) = ''NOT EXISTS ()'' @ skel 0 t"
  "skel (Suc d) (NOT_TRASHED_CONVERSATION @ t) = skel (Suc d) t"
  by (simp_all add: NOT_TRASHED_CONTACT_def NOT_TRASHED_CONVERSATION_def)

lemma skel_defaults:
  "skel 0 (q_text (cat (defaults l e)) @ t) = concat (map (\<lambda>s. '' AND '' @ s) (default_conjuncts l e)) @ skel 0 t"
  by (cases l) (simp_all add: defaults_def default_conjuncts_def Let_def skel_trash)

lemma sound_defaults: "sound_sql (cat (defaults l e))"
  using plain_trash(4,5) by (cases l) (simp_all add: defaults_def counts)

lemma sound_account: "plain (account_col cx)" "skel d (account_col cx) = (if d = 0 then account_col cx else [])"
  by (cases "cx_list cx"; cases d; simp add: account_col_def counts)+

lemma cat_append: "cat (qs @ qs') = cat [cat qs, cat qs']"
  by (simp add: cat_def)

lemma emit_compile_Inr:
  assumes "emit_compile l e account_id inst = Inr f"
  obtains search where
    "(case e of None \<Rightarrow> Inr [] | Some x \<Rightarrow> map_res (\<lambda>q. [lit '' AND '', q]) (emit_expr (ctx_of l e account_id inst) x)) = Inr search"
    "f_where f = ''('' @ (account_col (ctx_of l e account_id inst) @ '' = ?'' @ q_text (cat (defaults l e)) @ q_text (cat search)) @ '')''"
    "f_params f = PInt account_id # q_params (cat (defaults l e)) @ q_params (cat search)"
    "sound_sql (cat search)"
proof -
  let ?cx = "ctx_of l e account_id inst"
  let ?r = "case e of None \<Rightarrow> Inr [] | Some x \<Rightarrow> map_res (\<lambda>q. [lit '' AND '', q]) (emit_expr ?cx x)"
  from assms obtain search where s: "?r = Inr search"
    and f: "f_where f = q_text (cat ([lit ''('', lit (account_col ?cx), lit '' = '', bind_int (cx_account ?cx)] @ defaults l e @ search @ [lit '')'']))"
      "f_params f = q_params (cat ([lit ''('', lit (account_col ?cx), lit '' = '', bind_int (cx_account ?cx)] @ defaults l e @ search @ [lit '')'']))"
    by (auto simp: emit_compile_def Let_def bind_res_eq_Inr)
  have "sound_sql (cat search)"
  proof (cases e)
    case (Some x)
    with s obtain q where "emit_expr ?cx x = Inr q" "search = [lit '' AND '', q]" by (auto simp: map_res_eq)
    with sound_expr [of ?cx x] show ?thesis by (simp add: counts)
  qed (use s in \<open>simp add: counts\<close>)
  with that s f show thesis by (simp add: cat_append ctx_of_def)
qed

text \<open>C34: Every compiled search is balanced and has exactly one bound value for each
  placeholder.\<close>

theorem filter_sound:
  assumes "emit_compile l e account_id inst = Inr f"
  shows "closed (f_where f) \<and> holes (f_where f) = length (f_params f)"
  using assms
proof (cases rule: emit_compile_Inr)
  case (1 search)
  with sound_account(1) [of "ctx_of l e account_id inst"] sound_defaults [of l e] show ?thesis
    by (simp add: counts)
qed

text \<open>C8: A search reaches the account's own rows only: its WHERE text is one pair of
  parentheses around a conjunction, the account's column bound to the account first, then the
  list's defaults and the query, each a single balanced conjunct. No \<open>OR\<close> of the query stands
  beside the account's condition.\<close>

theorem account_scope:
  assumes "emit_compile l e account_id inst = Inr f"
  shows "\<exists>body cs ps. f_where f = ''('' @ body @ '')'' \<and> closed body \<and> f_params f = PInt account_id # ps \<and>
    list_all conjunct cs \<and> length cs = (if e = None then 0 else 1) \<and>
    skel 0 body = account_col (ctx_of l e account_id inst) @ '' = ?'' @
      concat (map (\<lambda>s. '' AND '' @ s) (default_conjuncts l e @ cs))"
  using assms
proof (cases rule: emit_compile_Inr)
  case (1 search)
  let ?cx = "ctx_of l e account_id inst"
  let ?body = "account_col ?cx @ '' = ?'' @ q_text (cat (defaults l e)) @ q_text (cat search)"
  obtain cs where cs: "list_all conjunct cs" "length cs = (if e = None then 0 else 1)" "skel 0 (q_text (cat search)) = concat (map (\<lambda>s. '' AND '' @ s) cs)"
  proof (cases e)
    case None
    with 1 that [of "[]"] show thesis by simp
  next
    case (Some x)
    with 1 obtain q where q: "emit_expr ?cx x = Inr q" "search = [lit '' AND '', q]" by (auto simp: map_res_eq)
    from skel_expr [OF q(1)] have "conjunct (skel 0 (q_text q))" by (auto simp: conjunct_def)
    with that [of "[skel 0 (q_text q)]"] q(2) Some show thesis by simp
  qed
  have "skel 0 ?body = account_col ?cx @ '' = ?'' @ concat (map (\<lambda>s. '' AND '' @ s) (default_conjuncts l e @ cs))"
  proof -
    have "closed (account_col ?cx)" using sound_account(1) [of ?cx] by (simp add: plain_def)
    then show ?thesis by (simp add: sound_account(2) skel_defaults cs(3))
  qed
  moreover have "closed ?body"
    using 1(4) sound_account(1) [of ?cx] sound_defaults [of l e] by (simp add: counts)
  ultimately show ?thesis using 1(2,3) cs(1,2) by blast
qed

section \<open>A search from its text\<close>

definition sample_filter :: search_filter where
  "sample_filter =
     \<lparr>f_where = ''(m.account_id = ? AND m.duplicate_of IS NULL AND EXISTS (SELECT 1 FROM conversations c '' @
        ''WHERE c.id = m.conversation_id AND '' @ NOT_TRASHED_CONVERSATION @ '') AND ((m.id IN (SELECT rowid '' @
        ''FROM messages_fts WHERE messages_fts MATCH ? UNION ALL SELECT a.message_id FROM attachments a '' @
        ''WHERE lower(coalesce(a.original_name, '' @ qq @ '')) LIKE lower(?) ESCAPE '' @ [quote, bslash, quote] @
        '')) IS NOT TRUE OR (m.is_from_me = 1)))'',
      f_params = [PInt 7, PText ([quote_char] @ ''a'' @ [quote_char]), PText ''%a%''], f_rank = None\<rparr>"

lemma sample_emitted: "emit_compile Messages (Some sample_tree) 7 (\<lambda>d. None) = Inr sample_filter"
  by code_simp

lemma filter_sound_witness:
  "emit_compile Messages (Some sample_tree) 7 (\<lambda>d. None) = Inr sample_filter \<and> holes (f_where sample_filter) = 3"
  using filter_sound [OF sample_emitted] sample_emitted by (simp add: sample_filter_def)

lemma account_scope_witness:
  "\<exists>body ps. f_where sample_filter = ''('' @ body @ '')'' \<and> closed body \<and> f_params sample_filter = PInt 7 # ps"
  using account_scope [OF sample_emitted] by blast

lemma compile_total_witness:
  "\<exists>f. compile gregorian Messages sample_query 7 (2026, 9, 2) (\<lambda>d. None) = Inr f"
  by (rule compile_total [OF sample_tokenized sample_parsed])

end
