(* ===== verification/Instant.thy ===== *)
theory Instant
  imports Prelude
begin

text \<open>
  The instant a day begins in a time zone (\<open>utc_instant\<close> and \<open>first_instant_at_or_after\<close> of
  \<open>crates/server/server/src/search/value.rs\<close>). The zone is chrono-tz's and a parameter: the
  instant of a clock reading, when there is one, and the clock reading of an instant. Instants
  and readings are nanoseconds, as chrono divides durations down to them.
\<close>

definition NANOS :: int where "NANOS = 1000000000"
definition DAY :: int where "DAY = 86400 * NANOS"

text \<open>\<open>z_earliest\<close> is \<open>from_local_datetime(..).earliest()\<close>, \<open>z_local\<close> is
  \<open>with_timezone(..).naive_local()\<close>, \<open>z_midnight\<close> the reading at the start of a day, \<open>z_year\<close>
  the UTC year of an instant and \<open>z_text\<close> its RFC 3339 text, which drops fractions of a second.\<close>

record 'd zone =
  z_earliest :: "int \<Rightarrow> int option"
  z_local :: "int \<Rightarrow> int"
  z_midnight :: "'d \<Rightarrow> int"
  z_year :: "int \<Rightarrow> int"
  z_text :: "int \<Rightarrow> string"

function bisect :: "(int \<Rightarrow> bool) \<Rightarrow> int \<Rightarrow> int \<Rightarrow> int" where
  "bisect late before after =
     (if after - before > NANOS then
        (let mid = before + (after - before) div 2
         in if late mid then bisect late before mid else bisect late mid after)
      else after)"
  by auto
termination
  by (relation "measure (\<lambda>(late, before, after). nat (after - before))") (auto simp: NANOS_def)

declare bisect.simps [simp del]

definition first_instant_at_or_after :: "'d zone \<Rightarrow> int \<Rightarrow> int" where
  "first_instant_at_or_after z local =
     (case z_earliest z local of
        Some t \<Rightarrow> t
      | None \<Rightarrow> bisect (\<lambda>t. local \<le> z_local z t) (local - DAY) (local + DAY))"

definition utc_instant :: "'d zone \<Rightarrow> 'd \<Rightarrow> string option" where
  "utc_instant z day =
     (let i = first_instant_at_or_after z (z_midnight z day)
      in if z_year z i \<le> 9999 then Some (z_text z i) else None)"

text \<open>The search keeps an early instant before it and a late one behind it.\<close>

lemma bisect_bounds:
  assumes "\<not> late before" "late after" "before < after"
  shows "\<exists>b. \<not> late b \<and> late (bisect late before after) \<and> b < bisect late before after \<and>
    bisect late before after - b \<le> NANOS \<and> before \<le> b \<and> bisect late before after \<le> after"
  using assms
proof (induction late before after rule: bisect.induct)
  case (1 late before after)
  let ?mid = "before + (after - before) div 2"
  show ?case
  proof (cases "after - before > NANOS")
    case False
    with 1(3-5) show ?thesis by (auto simp: bisect.simps [of late before after] intro!: exI [of _ before])
  next
    case True
    then have mid: "before < ?mid" "?mid < after" by (auto simp: NANOS_def)
    show ?thesis
    proof (cases "late ?mid")
      case late: True
      from 1(1) [OF True refl late 1(3) late mid(1)] True late mid show ?thesis
        by (auto simp: bisect.simps [of late before after] Let_def)
    next
      case early: False
      from 1(2) [OF True refl early early 1(4) mid(2)] True early mid show ?thesis
        by (auto simp: bisect.simps [of late before after] Let_def)
    qed
  qed
qed

text \<open>A zone's clock around a reading that it skips: it passes the reading at \<open>g\<close>, a whole
  second, and is before it until then, as every offset from UTC is shorter than a day.\<close>

definition gap_at :: "'d zone \<Rightarrow> int \<Rightarrow> int \<Rightarrow> bool" where
  "gap_at z local g \<longleftrightarrow>
     z_earliest z local = None \<and> local - DAY < g \<and> g \<le> local + DAY \<and> NANOS dvd g \<and>
     (\<forall>t. local - DAY \<le> t \<and> t \<le> local + DAY \<longrightarrow> (local \<le> z_local z t \<longleftrightarrow> g \<le> t))"

lemma first_instant_gap:
  assumes "gap_at z local g"
  shows "first_instant_at_or_after z local div NANOS = g div NANOS"
proof -
  let ?late = "\<lambda>t. local \<le> z_local z t" and ?r = "bisect (\<lambda>t. local \<le> z_local z t) (local - DAY) (local + DAY)"
  have late: "?late t \<longleftrightarrow> g \<le> t" if "local - DAY \<le> t" "t \<le> local + DAY" for t
    using assms that by (auto simp: gap_at_def)
  have "\<not> ?late (local - DAY)" "?late (local + DAY)" "local - DAY < local + DAY"
    using assms late by (auto simp: gap_at_def DAY_def NANOS_def)
  from bisect_bounds [of ?late, OF this] obtain b where
    b: "\<not> ?late b" "?late ?r" "b < ?r" "?r - b \<le> NANOS" "local - DAY \<le> b" "?r \<le> local + DAY" by blast
  then have "b < g" "g \<le> ?r" using late [of b] late [of ?r] by auto
  with b(4) have "g \<le> ?r" "?r < g + NANOS" by auto
  moreover obtain k where "g = NANOS * k" using assms by (auto simp: gap_at_def)
  ultimately have "?r div NANOS = k" by (intro int_div_pos_eq [where r = "?r - g"]) (auto simp: NANOS_def)
  with \<open>g = NANOS * k\<close> assms show ?thesis by (simp add: first_instant_at_or_after_def gap_at_def NANOS_def)
qed

text \<open>A day whose midnight the zone skips begins, to the second, when the gap ends, however
  long the gap; and a day that begins after the year 9999 has no instant. The text of an instant
  and its year depend on its whole second only.\<close>

theorem utc_instant_gap:
  assumes "gap_at z (z_midnight z day) g"
    and "\<And>s t. s div NANOS = t div NANOS \<Longrightarrow> z_text z s = z_text z t \<and> z_year z s = z_year z t"
  shows "utc_instant z day = (if z_year z g \<le> 9999 then Some (z_text z g) else None)"
  using assms(2) [OF first_instant_gap [OF assms(1)]] by (simp add: utc_instant_def Let_def)

text \<open>A zone that is at UTC and skips the readings from 500 to 1000 seconds.\<close>

definition skipping_zone :: "int zone" where
  "skipping_zone =
     \<lparr>z_earliest = (\<lambda>l. if l < 500 * NANOS then Some l else if 1000 * NANOS \<le> l then Some (l - 500 * NANOS) else None),
      z_local = (\<lambda>t. if t < 500 * NANOS then t else t + 500 * NANOS),
      z_midnight = (\<lambda>d. d * NANOS), z_year = (\<lambda>t. 1970), z_text = (\<lambda>t. if t div NANOS < 500 then ''early'' else ''late'')\<rparr>"

lemma skipping_gap: "gap_at skipping_zone (z_midnight skipping_zone 600) (500 * NANOS)"
  by (auto simp: gap_at_def skipping_zone_def NANOS_def DAY_def)

lemma utc_instant_gap_witness: "utc_instant skipping_zone 600 = Some ''late''"
proof -
  have "z_text skipping_zone s = z_text skipping_zone t \<and> z_year skipping_zone s = z_year skipping_zone t"
    if "s div NANOS = t div NANOS" for s t
    using that by (simp add: skipping_zone_def)
  from utc_instant_gap [OF skipping_gap this] show ?thesis by (simp add: skipping_zone_def NANOS_def)
qed

end
