(* ===== verification/Phone.thy ===== *)
theory Phone
  imports RustStr "HOL-Library.List_Lexorder" "HOL-Library.Char_ord"
begin

text \<open>
  Phone numbers, handle keys and the owner's handles (\<open>crates/libs/phone/src/lib.rs\<close>). The
  Unicode lower case of an email address and the SHA-256 of a long group id are parameters.
\<close>

section \<open>Numbers\<close>

definition MIN_PHONE_DIGITS :: nat where "MIN_PHONE_DIGITS = 4"
definition MAX_PHONE_DIGITS :: nat where "MAX_PHONE_DIGITS = 15"
definition MIN_NATIONAL_DIGITS :: nat where "MIN_NATIONAL_DIGITS = 7"

datatype phone_region = Usa | International

definition digits_of :: "string \<Rightarrow> string" where
  "digits_of s = filter is_ascii_digit s"

definition for_raw :: "string \<Rightarrow> phone_region" where
  "for_raw raw = (if CHR ''+'' \<in> set (takeWhile (\<lambda>c. \<not> is_ascii_digit c) raw) then International else Usa)"

definition sanitize_number :: "string \<Rightarrow> string option" where
  "sanitize_number num =
     (if num = [] then None
      else
        (let digits = digits_of num;
             digits = (if length digits = 11 \<and> starts_with ''1'' digits then drop 1 digits else digits)
         in if length digits < MIN_PHONE_DIGITS then None else Some digits))"

definition PHONE_PUNCTUATION :: "char list" where
  "PHONE_PUNCTUATION = [CHR ''+'', CHR ''-'', CHR ''('', CHR '')'', CHR ''.'', CHR '' '', CHR 0x09]"

definition sanitize_phone_shaped :: "string \<Rightarrow> string option" where
  "sanitize_phone_shaped v =
     (let v = trim v
      in if v = [] \<or> \<not> list_all (\<lambda>c. is_ascii_digit c \<or> c \<in> set PHONE_PUNCTUATION) v then None
         else
           (case sanitize_number v of
              None \<Rightarrow> None
            | Some digits \<Rightarrow> if length digits \<le> MAX_PHONE_DIGITS then Some digits else None))"

definition COUNTRY_CALLING_CODES :: "string list" where
  "COUNTRY_CALLING_CODES =
     [''211'', ''212'', ''213'', ''216'', ''218'', ''220'', ''221'', ''222'', ''223'', ''224'',
      ''225'', ''226'', ''227'', ''228'', ''229'', ''230'', ''231'', ''232'', ''233'', ''234'',
      ''235'', ''236'', ''237'', ''238'', ''239'', ''240'', ''241'', ''242'', ''243'', ''244'',
      ''245'', ''246'', ''248'', ''249'', ''250'', ''251'', ''252'', ''253'', ''254'', ''255'',
      ''256'', ''257'', ''258'', ''260'', ''261'', ''262'', ''263'', ''264'', ''265'', ''266'',
      ''267'', ''268'', ''269'', ''290'', ''291'', ''297'', ''298'', ''299'', ''350'', ''351'',
      ''352'', ''353'', ''354'', ''355'', ''356'', ''357'', ''358'', ''359'', ''370'', ''371'',
      ''372'', ''373'', ''374'', ''375'', ''376'', ''377'', ''378'', ''380'', ''381'', ''382'',
      ''383'', ''385'', ''386'', ''387'', ''389'', ''420'', ''421'', ''423'', ''500'', ''501'',
      ''502'', ''503'', ''504'', ''505'', ''506'', ''507'', ''508'', ''509'', ''590'', ''591'',
      ''592'', ''593'', ''594'', ''595'', ''596'', ''597'', ''598'', ''599'', ''670'', ''672'',
      ''673'', ''674'', ''675'', ''676'', ''677'', ''678'', ''679'', ''680'', ''681'', ''682'',
      ''683'', ''685'', ''686'', ''687'', ''688'', ''689'', ''690'', ''691'', ''692'', ''850'',
      ''852'', ''853'', ''855'', ''856'', ''880'', ''886'', ''960'', ''961'', ''962'', ''963'',
      ''964'', ''965'', ''966'', ''967'', ''968'', ''970'', ''971'', ''972'', ''973'', ''974'',
      ''975'', ''976'', ''977'', ''992'', ''993'', ''994'', ''995'', ''996'', ''998'', ''20'',
      ''27'', ''30'', ''31'', ''32'', ''33'', ''34'', ''36'', ''39'', ''40'', ''41'', ''43'',
      ''44'', ''45'', ''46'', ''47'', ''48'', ''49'', ''51'', ''52'', ''53'', ''54'', ''55'',
      ''56'', ''57'', ''58'', ''60'', ''61'', ''62'', ''63'', ''64'', ''65'', ''66'', ''81'',
      ''82'', ''84'', ''86'', ''90'', ''91'', ''92'', ''93'', ''94'', ''95'', ''98'', ''1'', ''7'']"

definition split_country_calling_code :: "string \<Rightarrow> bool \<Rightarrow> string \<times> string" where
  "split_country_calling_code digits had_plus =
     (if had_plus then
        (case find (\<lambda>cc. starts_with cc digits \<and> MIN_NATIONAL_DIGITS \<le> length digits - length cc) COUNTRY_CALLING_CODES of
           Some cc \<Rightarrow> (cc, drop (length cc) digits)
         | None \<Rightarrow> ([], digits))
      else if length digits = 11 \<and> starts_with ''1'' digits then (''1'', drop 1 digits)
      else ([], digits))"

definition normalize_checked :: "string \<Rightarrow> phone_region \<Rightarrow> string + string" where
  "normalize_checked raw region =
     (let raw = trim raw
      in if raw = [] then Inl ''empty phone''
         else
           (let digits = digits_of raw
            in case region of
                 Usa \<Rightarrow>
                   if length digits = 10 then Inr (''+1'' @ digits)
                   else if length digits = 11 \<and> starts_with ''1'' digits then Inr (''+'' @ digits)
                   else if digits = [] then Inl ''no digits''
                   else Inl ''USA needs 10 digits or 11 starting with 1''
               | International \<Rightarrow>
                   if CHR ''+'' \<notin> set raw then Inl ''international mode requires a leading +''
                   else if starts_with ''0'' digits then Inl ''international country code cannot start with 0''
                   else if 8 \<le> length digits \<and> length digits \<le> 15 then Inr (''+'' @ digits)
                   else Inl (''international needs 8'' @ [CHR 0xE2, CHR 0x80, CHR 0x93] @ ''15 digits after +'')))"

record guarded_normalize =
  gn_normalized :: string
  gn_note :: "string option"

definition normalize_guarded :: "string \<Rightarrow> phone_region \<Rightarrow> guarded_normalize" where
  "normalize_guarded raw region =
     (case normalize_checked raw region of
        Inr e164 \<Rightarrow> \<lparr>gn_normalized = e164, gn_note = None\<rparr>
      | Inl reason \<Rightarrow>
          \<lparr>gn_normalized = (case sanitize_number raw of Some d \<Rightarrow> d | None \<Rightarrow> []), gn_note = Some reason\<rparr>)"

definition normalize_lenient :: "string \<Rightarrow> string" where
  "normalize_lenient raw = gn_normalized (normalize_guarded raw (for_raw raw))"

definition normalize_digits_us :: "string \<Rightarrow> string option" where
  "normalize_digits_us raw =
     map_option (\<lambda>digits. gn_normalized (normalize_guarded digits Usa)) (sanitize_number raw)"

section \<open>Handles\<close>

datatype handle_type = PhoneHandle | EmailHandle | UsernameHandle | OtherHandle

text \<open>\<open>lower\<close> is \<open>str::to_lowercase\<close>.\<close>

definition normalize_typed_handle ::
  "(string \<Rightarrow> string) \<Rightarrow> string \<Rightarrow> handle_type \<Rightarrow> string \<times> string option" where
  "normalize_typed_handle lower raw ht =
     (case ht of
        PhoneHandle \<Rightarrow>
          (let guarded = normalize_guarded raw (for_raw raw)
           in if gn_normalized guarded = [] then (trim raw, None)
              else (gn_normalized guarded, gn_note guarded))
      | EmailHandle \<Rightarrow> (lower (trim raw), None)
      | UsernameHandle \<Rightarrow> (trim raw, None)
      | OtherHandle \<Rightarrow> (trim raw, None))"

record handle =
  h_kind :: handle_type
  h_key :: string
  h_raw :: string

definition handle_typed :: "(string \<Rightarrow> string) \<Rightarrow> string \<Rightarrow> handle_type \<Rightarrow> handle" where
  "handle_typed lower raw kind =
     \<lparr>h_kind = kind, h_key = fst (normalize_typed_handle lower raw kind), h_raw = trim raw\<rparr>"

definition is_written_as_a_number :: "string \<Rightarrow> bool" where
  "is_written_as_a_number v =
     (let number = (if 4 \<le> length v \<and> eq_ignore_ascii_case (take 4 v) ''tel:'' then drop 4 v else v)
      in list_ex is_ascii_digit number \<and>
         list_all (\<lambda>c. is_ascii_digit c \<or> c \<in> set PHONE_PUNCTUATION \<or> c = CHR ''#'' \<or> c = CHR ''*'') number)"

definition handle_parse :: "(string \<Rightarrow> string) \<Rightarrow> string \<Rightarrow> handle option" where
  "handle_parse lower raw =
     (let v = trim raw
      in if v = [] then None
         else
           (let kind =
                  (if CHR ''@'' \<in> set v then EmailHandle
                   else if is_written_as_a_number v then PhoneHandle else OtherHandle)
            in Some (handle_typed lower v kind)))"

section \<open>The owner\<close>

type_synonym owner_set = "(string \<times> handle_type) list"

fun owner_loop ::
  "(string \<Rightarrow> string) \<Rightarrow> (string \<times> handle_type) list \<Rightarrow> owner_set \<Rightarrow> string + owner_set" where
  "owner_loop lower [] keyed = Inr keyed"
| "owner_loop lower ((raw, ht) # hs) keyed =
     (if ht = PhoneHandle \<and> sanitize_number raw = None then Inl (''owner phone has no usable digits: '' @ raw)
      else
        (let entry = (fst (normalize_typed_handle lower raw ht), ht)
         in owner_loop lower hs (if entry \<in> set keyed then keyed else keyed @ [entry])))"

definition owner_new :: "(string \<Rightarrow> string) \<Rightarrow> (string \<times> handle_type) list \<Rightarrow> string + owner_set" where
  "owner_new lower hs =
     (if hs = [] then Inl (''the backup device'' @ [CHR 0x27] @ ''s phone number or email address is required'')
      else owner_loop lower hs [])"

definition owner_from_phones :: "(string \<Rightarrow> string) \<Rightarrow> string list \<Rightarrow> string + owner_set" where
  "owner_from_phones lower phones = owner_new lower (map (\<lambda>p. (p, PhoneHandle)) phones)"

definition phone_keys :: "owner_set \<Rightarrow> string list" where
  "phone_keys os = map fst (filter (\<lambda>(v, t). t = PhoneHandle) os)"

definition primary_owner_handle :: "owner_set \<Rightarrow> string option" where
  "primary_owner_handle os = (case phone_keys os of [] \<Rightarrow> None | k # _ \<Rightarrow> Some k)"

definition is_national_form_of :: "string \<Rightarrow> string \<Rightarrow> bool" where
  "is_national_form_of digits owner =
     (case strip_prefix ''+'' owner of
        None \<Rightarrow> False
      | Some owner_digits \<Rightarrow>
          (let (country, national) = split_country_calling_code owner_digits True
           in country \<noteq> [] \<and> (digits = national \<or> strip_prefix ''0'' digits = Some national)))"

definition is_owner :: "owner_set \<Rightarrow> handle \<Rightarrow> bool" where
  "is_owner os h =
     (if h_kind h \<noteq> PhoneHandle then list_ex (\<lambda>(v, t). t = h_kind h \<and> v = h_key h) os
      else
        (case sanitize_number (h_raw h) of
           None \<Rightarrow> False
         | Some digits \<Rightarrow>
             (let national_form = (CHR ''+'' \<notin> set (h_raw h))
              in list_ex
                   (\<lambda>owner.
                      owner = h_key h \<or>
                      sanitize_number owner = Some digits \<or>
                      (national_form \<and> is_national_form_of digits owner))
                   (phone_keys os))))"

section \<open>Group chats\<close>

definition group_id_slug :: "string list \<Rightarrow> string" where
  "group_id_slug ds = join ''_'' (map (\<lambda>d. dec_string (length d) @ '':'' @ d) ds)"

text \<open>\<open>hash16\<close> is the first 16 hexadecimal digits of the SHA-256 of a text.\<close>

definition group_chat_id :: "(string \<Rightarrow> string) \<Rightarrow> string \<Rightarrow> string list \<Rightarrow> string \<times> string" where
  "group_chat_id hash16 pre others =
     (let sorted = remdups_adj (sort others);
          title =
            (if sorted = [] then ''Group''
             else if length sorted \<le> 4 then ''Group: '' @ join '', '' sorted
             else ''Group: '' @ join '', '' (take 4 sorted) @ '', and '' @ dec_string (length sorted - 4) @ '' others'');
          i = pre @ group_id_slug sorted
      in (if 180 < length i then pre @ hash16 i else i, title))"

section \<open>Lemmas on numbers\<close>

definition visible :: "(char \<Rightarrow> bool) \<Rightarrow> bool" where
  "visible P \<longleftrightarrow> (\<forall>c. P c \<longrightarrow> 33 \<le> ord c \<and> ord c < 128)"

lemma visible_ws:
  assumes "visible P"
  shows "ws1 (ord a) \<Longrightarrow> \<not> P a" "ws2 (ord a) (ord b) \<Longrightarrow> \<not> P a \<and> \<not> P b"
    "ws3 (ord a) (ord b) (ord c) \<Longrightarrow> \<not> P a \<and> \<not> P b \<and> \<not> P c"
  using assms [unfolded visible_def, rule_format, of a] assms [unfolded visible_def, rule_format, of b]
    assms [unfolded visible_def, rule_format, of c]
  by (auto simp: ws1_def ws2_def ws3_def)

lemma trim_start_filter: "visible P \<Longrightarrow> filter P (trim_start s) = filter P s"
proof (induction s rule: trim_start.induct)
  case (2 a s)
  show ?case
    by (subst trim_start.simps) (use 2 visible_ws [OF 2(4)] in \<open>simp del: trim_start.simps split: list.split\<close>)
qed simp

lemma trim_start_rev_filter: "visible P \<Longrightarrow> filter P (trim_start_rev s) = filter P s"
proof (induction s rule: trim_start_rev.induct)
  case (2 a s)
  show ?case
    by (subst trim_start_rev.simps) (use 2 visible_ws [OF 2(4)] in \<open>simp del: trim_start_rev.simps split: list.split\<close>)
qed simp

lemma trim_filter: "visible P \<Longrightarrow> filter P (trim s) = filter P s"
proof -
  assume P: "visible P"
  have "filter P (trim s) = rev (filter P (trim_start_rev (rev (trim_start s))))"
    by (simp add: trim_def trim_end_def rev_filter)
  also have "\<dots> = filter P s"
    by (simp add: trim_start_rev_filter [OF P] trim_start_filter [OF P] rev_filter [symmetric])
  finally show ?thesis .
qed

lemma digits_of_trim [simp]: "digits_of (trim s) = digits_of s"
  unfolding digits_of_def by (rule trim_filter) (simp add: visible_def is_ascii_digit_def)

lemma plus_in_trim [simp]: "CHR ''+'' \<in> set (trim s) \<longleftrightarrow> CHR ''+'' \<in> set s"
proof -
  have "filter ((=) CHR ''+'') (trim s) = filter ((=) CHR ''+'') s"
    by (rule trim_filter) (auto simp: visible_def ord_def)
  then have "set (filter ((=) CHR ''+'') (trim s)) = set (filter ((=) CHR ''+'') s)" by (rule arg_cong)
  then show ?thesis by auto
qed

lemma digits_of_idem [simp]: "digits_of (digits_of s) = digits_of s"
  by (simp add: digits_of_def)

lemma digits_of_append [simp]: "digits_of (s @ t) = digits_of s @ digits_of t"
  by (simp add: digits_of_def)

lemma digits_of_id: "list_all is_ascii_digit s \<Longrightarrow> digits_of s = s"
  by (induction s) (auto simp: digits_of_def)

lemma all_digits_of: "list_all is_ascii_digit (digits_of s)"
  by (simp add: digits_of_def list_all_iff)

lemma digit_chars [simp]: "is_ascii_digit CHR ''1''" "is_ascii_digit CHR ''0''" "\<not> is_ascii_digit CHR ''+''"
  by (simp_all add: is_ascii_digit_def ord_def)

lemma trim_nonempty: "digits_of s \<noteq> [] \<Longrightarrow> trim s \<noteq> []"
  using digits_of_trim [of s] by (metis digits_of_def filter.simps(1))

lemma for_raw_plus: "for_raw raw = International \<Longrightarrow> CHR ''+'' \<in> set raw"
  by (auto simp: for_raw_def dest: set_takeWhileD split: if_splits)

lemma sanitize_number_digits:
  "sanitize_number s = sanitize_number (digits_of s)"
  by (auto simp: sanitize_number_def MIN_PHONE_DIGITS_def digits_of_def)

lemma sanitize_trim [simp]: "sanitize_number (trim s) = sanitize_number s"
  by (metis digits_of_trim sanitize_number_digits)

lemma normalize_checked_Inr:
  assumes "normalize_checked raw region = Inr e"
  obtains ds where "e = CHR ''+'' # ds" "list_all is_ascii_digit ds" "8 \<le> length ds" "length ds \<le> 15"
    "\<not> starts_with ''0'' ds" "ds = digits_of raw \<or> region = Usa \<and> ds = CHR ''1'' # digits_of raw"
proof (cases region)
  case Usa
  show thesis
  proof (cases "length (digits_of raw) = 10")
    case True
    with Usa assms that [of "CHR ''1'' # digits_of raw"] all_digits_of [of raw] show thesis
      by (auto simp: normalize_checked_def Let_def starts_with_def split: if_splits)
  next
    case False
    with Usa assms that [of "digits_of raw"] all_digits_of [of raw] show thesis
      by (auto simp: normalize_checked_def Let_def starts_with_iff split: if_splits)
  qed
next
  case International
  with assms that [of "digits_of raw"] all_digits_of [of raw] show thesis
    by (auto simp: normalize_checked_def Let_def split: if_splits)
qed

text \<open>C37: A certain number is well-formed E.164: a plus, eight to fifteen digits, the first of them
  no zero, and the digits are those that were written, after a US 1 at most. And it is a normal
  form: normalizing it again gives the same key and no note.\<close>

theorem e164_normal_form:
  assumes "normalize_checked raw region = Inr e"
  shows "(\<exists>ds. e = CHR ''+'' # ds \<and> list_all is_ascii_digit ds \<and> 8 \<le> length ds \<and> length ds \<le> 15 \<and>
      \<not> starts_with ''0'' ds \<and> (ds = digits_of raw \<or> region = Usa \<and> ds = CHR ''1'' # digits_of raw)) \<and>
    normalize_typed_handle lower e PhoneHandle = (e, None)"
  using assms
proof (cases rule: normalize_checked_Inr)
  case (1 ds)
  then have ds: "digits_of ds = ds" by (simp add: digits_of_id)
  have e: "digits_of e = ds" by (simp add: 1 digits_of_def) (simp add: ds [unfolded digits_of_def])
  moreover have "for_raw e = International" by (simp add: for_raw_def 1)
  moreover have "trim e \<noteq> []" by (rule trim_nonempty) (use e 1 in auto)
  ultimately have "normalize_checked e (for_raw e) = Inr e"
    using 1 by (simp add: normalize_checked_def Let_def)
  with 1 show ?thesis by (auto simp: normalize_typed_handle_def normalize_guarded_def Let_def)
qed

text \<open>How a number is punctuated never changes its key: two writings with the same digits, both
  with or both without a plus before them, are one handle.\<close>

lemma format_irrelevant:
  assumes "digits_of a = digits_of b" "for_raw a = for_raw b"
  shows "normalize_lenient a = normalize_lenient b"
proof (cases "digits_of a = []")
  case True
  then have s: "sanitize_number a = None" "sanitize_number b = None"
    using assms(1) by (simp_all add: sanitize_number_def MIN_PHONE_DIGITS_def)
  have "\<exists>r. normalize_checked x region = Inl r" if "digits_of x = []" for x region
    using that by (cases region) (auto simp: normalize_checked_def Let_def starts_with_def)
  from this [OF True] this [of b] s True assms(1) show ?thesis
    by (metis normalize_lenient_def normalize_guarded_def guarded_normalize.select_convs(1) sum.case(1))
next
  case False
  then have "trim a \<noteq> []" "trim b \<noteq> []" using assms(1) trim_nonempty [of a] trim_nonempty [of b] by simp_all
  moreover have "CHR ''+'' \<in> set a \<and> CHR ''+'' \<in> set b" if "for_raw a = International"
    using that assms(2) for_raw_plus by metis
  ultimately have "normalize_checked a (for_raw a) = normalize_checked b (for_raw b)"
    using assms by (cases "for_raw b") (simp_all add: normalize_checked_def Let_def)
  moreover have "sanitize_number a = sanitize_number b" by (metis assms(1) sanitize_number_digits)
  ultimately show ?thesis by (simp add: normalize_lenient_def normalize_guarded_def split: sum.split)
qed

section \<open>Lemmas on the owner and on groups\<close>

lemma owner_loop_set:
  "owner_loop lower hs keyed = Inr os \<Longrightarrow>
    set os = set keyed \<union> (\<lambda>(raw, t). (fst (normalize_typed_handle lower raw t), t)) ` set hs \<and>
    (distinct keyed \<longrightarrow> distinct os) \<and>
    (\<forall>(raw, t) \<in> set hs. t = PhoneHandle \<longrightarrow> sanitize_number raw \<noteq> None)"
  by (induction lower hs keyed rule: owner_loop.induct) (auto simp: Let_def split: if_splits)

lemma phone_keys_set: "k \<in> set (phone_keys os) \<longleftrightarrow> (k, PhoneHandle) \<in> set os"
  by (force simp: phone_keys_def)

text \<open>The owner's set holds each configured handle once under its key, and knows each of them
  again however it was written; it is refused only when it is empty or a phone has no usable
  digits.\<close>

theorem owner_recognised:
  "case owner_new lower hs of
     Inl _ \<Rightarrow> hs = [] \<or> list_ex (\<lambda>(raw, t). t = PhoneHandle \<and> sanitize_number raw = None) hs
   | Inr os \<Rightarrow> distinct os \<and> list_all (\<lambda>(raw, t). is_owner os (handle_typed lower raw t)) hs"
proof (cases "owner_new lower hs")
  case (Inl e)
  have "owner_loop lower hs keyed = Inl e \<Longrightarrow> list_ex (\<lambda>(raw, t). t = PhoneHandle \<and> sanitize_number raw = None) hs" for keyed
    by (induction lower hs keyed rule: owner_loop.induct) (auto simp: Let_def split: if_splits)
  with Inl show ?thesis by (auto simp: owner_new_def split: if_splits)
next
  case (Inr os)
  then have "owner_loop lower hs [] = Inr os" by (simp add: owner_new_def split: if_splits)
  note os = owner_loop_set [OF this]
  have "is_owner os (handle_typed lower raw t)" if "(raw, t) \<in> set hs" for raw t
  proof -
    have k: "(fst (normalize_typed_handle lower raw t), t) \<in> set os" using os that by force
    show ?thesis
    proof (cases "t = PhoneHandle")
      case True
      with os that obtain d where "sanitize_number raw = Some d" by fastforce
      moreover from True k have "fst (normalize_typed_handle lower raw t) \<in> set (phone_keys os)"
        by (simp add: phone_keys_set)
      ultimately show ?thesis
        using True by (auto simp: is_owner_def handle_typed_def list_ex_iff)
    next
      case False
      with k show ?thesis by (auto simp: is_owner_def handle_typed_def list_ex_iff)
    qed
  qed
  with os Inr show ?thesis by (auto simp: list_all_iff)
qed

lemma colon_split:
  assumes "list_all is_ascii_digit a" "list_all is_ascii_digit b" "a @ CHR '':'' # r = b @ CHR '':'' # r'"
  shows "a = b \<and> r = r'"
proof -
  have c: "\<not> is_ascii_digit CHR '':''" by (simp add: is_ascii_digit_def ord_def)
  have "takeWhile is_ascii_digit (x @ CHR '':'' # y) = x" if "list_all is_ascii_digit x" for x y
    using that c by (simp add: list_all_iff)
  with assms have "a = b" by metis
  with assms(3) show ?thesis by simp
qed

lemma slug_Cons:
  "group_id_slug (d # ds) =
    dec_string (length d) @ CHR '':'' # d @ (if ds = [] then [] else CHR ''_'' # group_id_slug ds)"
  by (cases ds) (simp_all add: group_id_slug_def)

lemma digits_dec_string: "list_all is_ascii_digit (dec_string n)"
  using all_digits_dec_string [of n] by (auto simp: all_digits_def list_all_iff)

lemma slug_inject: "group_id_slug xs = group_id_slug ys \<Longrightarrow> xs = ys"
proof (induction xs arbitrary: ys)
  case Nil
  then show ?case by (cases ys) (simp_all add: slug_Cons, simp add: group_id_slug_def)
next
  case (Cons x xs)
  show ?case
  proof (cases ys)
    case Nil
    with Cons.prems show ?thesis by (simp add: slug_Cons) (simp add: group_id_slug_def)
  next
    case ys: (Cons y ys')
    let ?t = "\<lambda>us. if us = [] then [] else CHR ''_'' # group_id_slug us"
    have "dec_string (length x) = dec_string (length y) \<and> x @ ?t xs = y @ ?t ys'"
      by (rule colon_split [OF digits_dec_string digits_dec_string]) (use Cons.prems ys in \<open>simp only: slug_Cons\<close>)
    then have l: "length x = length y" and e: "x @ ?t xs = y @ ?t ys'" unfolding dec_string_inject by blast+
    have "x = y" "?t xs = ?t ys'" using e unfolding append_eq_append_conv [OF disjI1 [OF l]] by blast+
    moreover have "xs = ys'"
    proof (cases "xs = [] \<or> ys' = []")
      case True
      with \<open>?t xs = ?t ys'\<close> show ?thesis by (auto split: if_splits)
    next
      case False
      with \<open>?t xs = ?t ys'\<close> Cons.IH [of ys'] show ?thesis by simp
    qed
    ultimately show ?thesis using ys by simp
  qed
qed

lemma sorted_distinct: "sorted xs \<Longrightarrow> distinct (remdups_adj xs)" for xs :: "string list"
proof (induction xs rule: remdups_adj.induct)
  case (3 x y xs)
  show ?case
  proof (cases "x = y")
    case False
    with 3(3) have "\<forall>z \<in> set (y # xs). x < z" by auto
    then have "x \<notin> set (remdups_adj (y # xs))" by auto
    with False 3 show ?thesis by simp
  qed (use 3 in simp)
qed simp_all

lemma sorted_members:
  fixes xs :: "string list"
  shows "remdups_adj (sort xs) = sorted_list_of_set (set xs)"
  using sorted_list_of_set.idem_if_sorted_distinct [of "remdups_adj (sort xs)"] sorted_distinct [of "sort xs"]
  by simp

text \<open>A group chat's id and title depend only on who is in it, not on the order or how often
  a member is named; and two groups of different members have different ids, as long as neither
  id is so long that it is hashed.\<close>

theorem group_ids:
  "(set xs = set ys \<longrightarrow> group_chat_id hash16 pre xs = group_chat_id hash16 pre ys) \<and>
   (set xs \<noteq> set ys \<longrightarrow>
     180 < length (pre @ group_id_slug (remdups_adj (sort xs))) \<or>
     180 < length (pre @ group_id_slug (remdups_adj (sort ys))) \<or>
     fst (group_chat_id hash16 pre xs) \<noteq> fst (group_chat_id hash16 pre ys))"
proof -
  have "set xs = set ys" if "group_id_slug (remdups_adj (sort xs)) = group_id_slug (remdups_adj (sort ys))"
    using slug_inject [OF that] by (metis remdups_adj_set set_sort)
  then show ?thesis by (auto simp: group_chat_id_def Let_def sorted_members)
qed

section \<open>Examples\<close>

lemma e164_normal_form_witness:
  "normalize_checked ''(555) 555-0100'' Usa = Inr ''+15555550100'' \<and>
   normalize_typed_handle (\<lambda>s. s) ''+15555550100'' PhoneHandle = (''+15555550100'', None)"
proof
  show p: "normalize_checked ''(555) 555-0100'' Usa = Inr ''+15555550100''" by code_simp
  show "normalize_typed_handle (\<lambda>s. s) ''+15555550100'' PhoneHandle = (''+15555550100'', None)"
    using e164_normal_form [OF p] by blast
qed

lemma group_ids_witness:
  "group_chat_id (\<lambda>s. []) ''g-'' [''34'', ''12'', ''34''] = group_chat_id (\<lambda>s. []) ''g-'' [''12'', ''34''] \<and>
   fst (group_chat_id (\<lambda>s. []) ''g-'' [''12'', ''34'']) \<noteq> fst (group_chat_id (\<lambda>s. []) ''g-'' [''123'', ''4''])"
proof -
  have "length (''g-'' @ group_id_slug (remdups_adj (sort [''12'', ''34'']))) \<le> 180"
    "length (''g-'' @ group_id_slug (remdups_adj (sort [''123'', ''4'']))) \<le> 180"
    by code_simp+
  then show ?thesis
    using group_ids [of "[''34'', ''12'', ''34'']" "[''12'', ''34'']" "\<lambda>s. []" "''g-''"]
      group_ids [of "[''12'', ''34'']" "[''123'', ''4'']" "\<lambda>s. []" "''g-''"] by auto
qed

end
