(* ===== verification/Ir.thy ===== *)
theory Ir
  imports Phone "HOL-Library.Multiset"
begin

text \<open>
  The common-message documents (\<open>crates/libs/ir/src/lib.rs\<close>): the records of a conversation,
  the storage ids of its enums, the computed stats, and the name of the file a conversation is
  written to. \<open>Option<IrImessage>\<close> and \<open>Option<IrSource>\<close> hold JSON values that none of this
  code reads and are the type parameter \<open>'x\<close>; SHA-256 and the Unicode lower case are parameters.
\<close>

section \<open>The document\<close>

datatype ir_conversation_type = Individual | Group

definition conversation_type_as_str :: "ir_conversation_type \<Rightarrow> string" where
  "conversation_type_as_str t = (case t of Individual \<Rightarrow> ''individual'' | Group \<Rightarrow> ''group'')"

definition conversation_type_parse :: "string \<Rightarrow> ir_conversation_type" where
  "conversation_type_parse s = (if to_ascii_lowercase (trim s) = ''group'' then Group else Individual)"

datatype ir_service = Sms | IMessage | Whatsapp | Rcs | Discord | Signal | Telegram | Slack | UnknownService

definition service_as_str :: "ir_service \<Rightarrow> string" where
  "service_as_str v = (case v of
     Sms \<Rightarrow> ''sms'' | IMessage \<Rightarrow> ''imessage'' | Whatsapp \<Rightarrow> ''whatsapp'' | Rcs \<Rightarrow> ''rcs''
   | Discord \<Rightarrow> ''discord'' | Signal \<Rightarrow> ''signal'' | Telegram \<Rightarrow> ''telegram'' | Slack \<Rightarrow> ''slack''
   | UnknownService \<Rightarrow> ''unknown'')"

definition service_parse :: "string \<Rightarrow> ir_service" where
  "service_parse s =
     (let s = to_ascii_lowercase (trim s)
      in if s = ''sms'' then Sms
         else if s = ''imessage'' then IMessage
         else if s = ''whatsapp'' then Whatsapp
         else if s = ''rcs'' then Rcs
         else if s = ''discord'' then Discord
         else if s = ''signal'' then Signal
         else if s = ''telegram'' then Telegram
         else if s = ''slack'' then Slack
         else UnknownService)"

datatype handle_service = PhonePlatform | WhatsappPlatform

definition handle_service_as_str :: "handle_service \<Rightarrow> string" where
  "handle_service_as_str h = (case h of PhonePlatform \<Rightarrow> ''phone'' | WhatsappPlatform \<Rightarrow> ''whatsapp'')"

definition handle_service_parse :: "string \<Rightarrow> handle_service" where
  "handle_service_parse s =
     (let s = to_ascii_lowercase (trim s)
      in if s = ''whatsapp'' \<or> s = ''wa'' then WhatsappPlatform else PhonePlatform)"

definition from_ir_service :: "ir_service \<Rightarrow> handle_service" where
  "from_ir_service v = (case v of Whatsapp \<Rightarrow> WhatsappPlatform | _ \<Rightarrow> PhonePlatform)"

datatype ir_message_kind =
  KindSms | KindMms | KindIMessage | KindTapback | KindStickerTapback | KindAnnouncement
| KindLocationShare | KindBalloon | KindUnknown

definition kind_as_str :: "ir_message_kind \<Rightarrow> string" where
  "kind_as_str k = (case k of
     KindSms \<Rightarrow> ''sms'' | KindMms \<Rightarrow> ''mms'' | KindIMessage \<Rightarrow> ''imessage'' | KindTapback \<Rightarrow> ''tapback''
   | KindStickerTapback \<Rightarrow> ''sticker_tapback'' | KindAnnouncement \<Rightarrow> ''announcement''
   | KindLocationShare \<Rightarrow> ''location_share'' | KindBalloon \<Rightarrow> ''balloon'' | KindUnknown \<Rightarrow> ''unknown'')"

definition kind_parse :: "string \<Rightarrow> ir_message_kind" where
  "kind_parse s =
     (let s = to_ascii_lowercase (trim s)
      in if s = ''sms'' then KindSms
         else if s = ''mms'' then KindMms
         else if s = ''imessage'' then KindIMessage
         else if s = ''tapback'' then KindTapback
         else if s = ''sticker_tapback'' then KindStickerTapback
         else if s = ''announcement'' then KindAnnouncement
         else if s = ''location_share'' then KindLocationShare
         else if s = ''balloon'' then KindBalloon
         else KindUnknown)"

datatype ir_direction = Incoming | Outgoing

record ir_attachment =
  att_path :: "string option"
  att_original_name :: "string option"
  att_mime_type :: "string option"
  att_digest_sha256 :: "string option"
  att_is_sticker :: bool
  att_transcription :: "string option"
  att_sticker_effect :: "string option"
  att_size_bytes :: "u64 option"
  att_missing_reason :: "string option"
  att_bytes :: "u8 list option"

record 'x ir_message =
  msg_guid :: string
  msg_timestamp_unix_ms :: int
  msg_direction :: ir_direction
  msg_service :: ir_service
  msg_kind :: ir_message_kind
  msg_sender_handle :: "string option"
  msg_sender_display_name :: "string option"
  msg_owner_handle :: "string option"
  msg_subject :: "string option"
  msg_text :: string
  msg_attachments :: "ir_attachment list"
  msg_extras :: 'x

definition is_sms_or_mms :: "'x ir_message \<Rightarrow> bool" where
  "is_sms_or_mms msg =
     (case msg_service msg of
        Sms \<Rightarrow> True
      | UnknownService \<Rightarrow> msg_kind msg = KindSms \<or> msg_kind msg = KindMms
      | _ \<Rightarrow> False)"

record ir_participant =
  pt_handle :: "string option"
  pt_display_name :: "string option"
  pt_handle_type :: "handle_type option"

record conversation_stats =
  st_message_count :: u64
  st_attachment_count :: u64
  st_first_timestamp :: "int option"
  st_last_timestamp :: "int option"

record conversation_meta =
  conv_chat_identifier :: string
  conv_type :: ir_conversation_type
  conv_group_title :: "string option"
  conv_participants :: "ir_participant list"
  conv_stats :: conversation_stats

record export_meta =
  exp_source :: string
  exp_tool :: string
  exp_tool_version :: string
  exp_owner_handle :: "string option"
  exp_owner_display_name :: "string option"

record 'x conversation_document =
  doc_schema_version :: u32
  doc_export :: export_meta
  doc_conversation :: conversation_meta
  doc_messages :: "'x ir_message list"
  doc_packaging_stem_suffix :: "string option"

section \<open>Stats\<close>

fun stats_loop :: "'x ir_message list \<Rightarrow> int option \<Rightarrow> int option \<Rightarrow> int option \<times> int option" where
  "stats_loop [] f l = (f, l)"
| "stats_loop (msg # ms) f l =
     stats_loop ms
       (Some (case f of None \<Rightarrow> msg_timestamp_unix_ms msg | Some a \<Rightarrow> min a (msg_timestamp_unix_ms msg)))
       (Some (case l of None \<Rightarrow> msg_timestamp_unix_ms msg | Some a \<Rightarrow> max a (msg_timestamp_unix_ms msg)))"

definition compute_stats :: "'x ir_message list \<Rightarrow> conversation_stats" where
  "compute_stats msgs =
     (let (f, l) = stats_loop msgs None None
      in \<lparr>st_message_count = word_of_nat (length msgs),
          st_attachment_count = word_of_nat (sum_list (map (length \<circ> msg_attachments) msgs)),
          st_first_timestamp = f, st_last_timestamp = l\<rparr>)"

definition finalize_stats :: "'x conversation_document \<Rightarrow> 'x conversation_document" where
  "finalize_stats doc =
     doc\<lparr>doc_conversation := (doc_conversation doc)\<lparr>conv_stats := compute_stats (doc_messages doc)\<rparr>\<rparr>"

text \<open>The first line of a JSON Lines file, and the document a reader builds from it.\<close>

definition SCHEMA_VERSION :: u32 where "SCHEMA_VERSION = 4"

record conversation_header =
  hd_schema_version :: u32
  hd_export :: export_meta
  hd_conversation :: conversation_meta

definition from_document :: "'x conversation_document \<Rightarrow> conversation_header" where
  "from_document doc =
     \<lparr>hd_schema_version = doc_schema_version doc, hd_export = doc_export doc, hd_conversation = doc_conversation doc\<rparr>"

definition into_document :: "conversation_header \<Rightarrow> 'x ir_message list \<Rightarrow> 'x conversation_document" where
  "into_document h messages =
     finalize_stats
       \<lparr>doc_schema_version = SCHEMA_VERSION, doc_export = hd_export h, doc_conversation = hd_conversation h,
        doc_messages = messages, doc_packaging_stem_suffix = None\<rparr>"

section \<open>The name of a conversation's file\<close>

definition trimmed :: "string \<Rightarrow> string option" where
  "trimmed s = (let t = trim s in if t = [] then None else Some t)"

text \<open>\<open>hex::encode\<close> of a digest.\<close>

definition hex_encode :: "u8 list \<Rightarrow> string" where
  "hex_encode bs = concat (map (hex2 \<circ> unat) bs)"

definition GROUP_FILENAME_MAX_PHONES :: nat where "GROUP_FILENAME_MAX_PHONES = 10"

definition stem_char :: "char \<Rightarrow> bool" where
  "stem_char c \<longleftrightarrow>
     is_ascii_alphabetic c \<or> is_ascii_digit c \<or> c = CHR ''-'' \<or> c = CHR ''_'' \<or> c = CHR ''+''"

text \<open>
  One underscore for every character that may not stand in a stem: in UTF-8 such a character
  counts at its first byte, and its continuation bytes are dropped.
\<close>

definition continuation_byte :: "char \<Rightarrow> bool" where
  "continuation_byte c \<longleftrightarrow> 128 \<le> ord c \<and> ord c < 192"

definition sanitize_stem :: "string \<Rightarrow> string" where
  "sanitize_stem v = map (\<lambda>c. if stem_char c then c else CHR ''_'') (filter (Not \<circ> continuation_byte) v)"

definition is_phone_handle :: "string \<Rightarrow> bool" where
  "is_phone_handle v =
     (let v = trim v
      in if v = [] then False
         else
           (case strip_prefix ''+'' v of
              Some rest \<Rightarrow> rest \<noteq> [] \<and> list_all is_ascii_digit rest
            | None \<Rightarrow> list_all is_ascii_digit v))"

definition with_suffix :: "string \<Rightarrow> string option \<Rightarrow> string" where
  "with_suffix stem sfx =
     (case sfx of Some s \<Rightarrow> if s \<noteq> [] then stem @ s else stem | None \<Rightarrow> stem)"

definition unique_sorted_phone_handles :: "string list \<Rightarrow> string list" where
  "unique_sorted_phone_handles ps = remdups_adj (sort (filter is_phone_handle (map trim ps)))"

definition sha256_hex :: "(u8 list \<Rightarrow> u8 list) \<Rightarrow> string \<Rightarrow> string" where
  "sha256_hex sha s = hex_encode (sha (as_bytes s))"

text \<open>The untitled group: its phone handles, or what stands for an empty roster.\<close>

definition untitled_stem :: "(u8 list \<Rightarrow> u8 list) \<Rightarrow> string \<Rightarrow> string list \<Rightarrow> string" where
  "untitled_stem sha chat_id ps =
     (let phones = unique_sorted_phone_handles ps
      in if phones = [] then
           (if trim chat_id = [] then ''group_unknown''
            else ''group_'' @ take 16 (sha256_hex sha chat_id))
         else
           ''group'' @ concat (map (\<lambda>p. ''_'' @ p) (take GROUP_FILENAME_MAX_PHONES phones)) @
           (if GROUP_FILENAME_MAX_PHONES < length phones
            then ''_'' @ take 16 (sha256_hex sha (join ''|'' phones)) else []))"

definition conversation_stem ::
  "(u8 list \<Rightarrow> u8 list) \<Rightarrow> string \<Rightarrow> string \<Rightarrow> string option \<Rightarrow> string list \<Rightarrow> string option \<Rightarrow> string" where
  "conversation_stem sha conversation_type chat_id group_title ps sfx =
     (if \<not> eq_ignore_ascii_case conversation_type ''group'' then with_suffix (sanitize_stem chat_id) sfx
      else
        (case Option.bind group_title trimmed of
           Some title \<Rightarrow>
             (let stem = sanitize_stem title
              in if stem \<noteq> [] \<and> \<not> list_all (\<lambda>c. c = CHR ''_'') stem then with_suffix stem sfx
                 else with_suffix (untitled_stem sha chat_id ps) sfx)
         | None \<Rightarrow> with_suffix (untitled_stem sha chat_id ps) sfx))"

definition filename_stem :: "(u8 list \<Rightarrow> u8 list) \<Rightarrow> 'x conversation_document \<Rightarrow> string" where
  "filename_stem sha doc =
     conversation_stem sha
       (conversation_type_as_str (conv_type (doc_conversation doc)))
       (conv_chat_identifier (doc_conversation doc))
       (conv_group_title (doc_conversation doc))
       (List.map_filter pt_handle (conv_participants (doc_conversation doc)))
       (doc_packaging_stem_suffix doc)"

section \<open>A file of its own for every document\<close>

text \<open>The key of the map \<open>by_name\<close> and of the set \<open>names\<close>.\<close>

definition name_key :: "(string \<Rightarrow> string) \<Rightarrow> (u8 list \<Rightarrow> u8 list) \<Rightarrow> 'x conversation_document \<Rightarrow> string" where
  "name_key lower sha doc = lower (filename_stem sha doc)"

definition clash_suffix :: "(u8 list \<Rightarrow> u8 list) \<Rightarrow> 'x conversation_document \<Rightarrow> 'x conversation_document" where
  "clash_suffix sha doc =
     (let digest = sha256_hex sha (conv_chat_identifier (doc_conversation doc));
          sfx = (case doc_packaging_stem_suffix doc of None \<Rightarrow> [] | Some s \<Rightarrow> s)
      in doc\<lparr>doc_packaging_stem_suffix := Some (sfx @ ''__'' @ take 8 digest)\<rparr>)"

text \<open>The loop over the clashes: \<open>keys\<close> are the names of all the documents.\<close>

definition renamed_docs ::
  "(string \<Rightarrow> string) \<Rightarrow> (u8 list \<Rightarrow> u8 list) \<Rightarrow> string list \<Rightarrow>
   'x conversation_document list \<Rightarrow> 'x conversation_document list" where
  "renamed_docs lower sha keys docs =
     map (\<lambda>doc. if 1 < count_list keys (name_key lower sha doc) then clash_suffix sha doc else doc) docs"

fun claim_names ::
  "(string \<Rightarrow> string) \<Rightarrow> (u8 list \<Rightarrow> u8 list) \<Rightarrow> 'x conversation_document list \<Rightarrow> string list \<Rightarrow> string + unit" where
  "claim_names lower sha [] names = Inr ()"
| "claim_names lower sha (doc # docs) names =
     (let stem = filename_stem sha doc
      in if lower stem \<in> set names then Inl (''two conversations would both be written to '' @ stem)
         else claim_names lower sha docs (lower stem # names))"

definition give_each_document_its_own_file ::
  "(string \<Rightarrow> string) \<Rightarrow> (u8 list \<Rightarrow> u8 list) \<Rightarrow> 'x conversation_document list \<Rightarrow>
   string + 'x conversation_document list" where
  "give_each_document_its_own_file lower sha docs =
     (let named = renamed_docs lower sha (map (name_key lower sha) docs) docs
      in bind_res (claim_names lower sha named []) (\<lambda>_. Inr named))"

section \<open>Storage ids read back\<close>

lemma storage_ids_read_back:
  "conversation_type_parse (conversation_type_as_str t) = t" (is ?T)
  "service_parse (service_as_str v) = v" (is ?V)
  "handle_service_parse (handle_service_as_str h) = h" (is ?H)
  "kind_parse (kind_as_str k) = k" (is ?K)
proof -
  show ?T by (cases t; simp only:; code_simp)
  show ?V by (cases v; simp only:; code_simp)
  show ?H by (cases h; simp only:; code_simp)
  show ?K by (cases k; simp only:; code_simp)
qed

section \<open>Stems\<close>

lemma sanitize_stem_chars: "list_all stem_char (sanitize_stem v)"
  by (auto simp: sanitize_stem_def list_all_iff stem_char_def)

lemma stem_char_digit: "is_ascii_digit c \<Longrightarrow> stem_char c"
  by (simp add: stem_char_def)

lemma hex_char_stem: "n < 16 \<Longrightarrow> stem_char (hex_char n)"
  by (auto simp: hex_char_def stem_char_def ascii_defs)

lemma hex_encode_chars: "list_all stem_char (hex_encode bs)"
proof -
  have "stem_char c" if "c \<in> set (hex2 (unat b))" for b :: u8 and c
  proof -
    have "unat b < 256" using unsigned_less [of b] by simp
    then have "unat b div 16 < 16" by simp
    then show ?thesis using that by (auto simp: hex2_def hex_char_stem)
  qed
  then show ?thesis by (auto simp: hex_encode_def list_all_iff)
qed

lemma list_all_take: "list_all P xs \<Longrightarrow> list_all P (take n xs)"
  by (auto simp: list_all_iff dest: in_set_takeD)

text \<open>\<open>trim\<close> is idempotent, so a trimmed handle is judged as it stands.\<close>

definition ws_len :: "string \<Rightarrow> nat" where
  "ws_len s =
     (case s of [] \<Rightarrow> 0
      | a # t \<Rightarrow>
          if ws1 (ord a) then 1
          else (case t of [] \<Rightarrow> 0
                | b # u \<Rightarrow>
                    if ws2 (ord a) (ord b) then 2
                    else (case u of [] \<Rightarrow> 0 | c # v \<Rightarrow> if ws3 (ord a) (ord b) (ord c) then 3 else 0)))"

lemma trim_start_unfold:
  "trim_start s = (if ws_len s = 0 then s else trim_start (drop (ws_len s) s))"
  by (cases s) (auto simp: ws_len_def split: list.splits)

lemma ws_len_le: "ws_len s \<le> length s"
  by (auto simp: ws_len_def split: list.splits)

lemma ws_len_take: "ws_len s = 0 \<Longrightarrow> ws_len (take n s) = 0"
  by (auto simp: ws_len_def take_Cons split: list.splits nat.splits if_splits)

lemma ws_len_trim_start: "ws_len (trim_start s) = 0"
proof (induction "length s" arbitrary: s rule: less_induct)
  case less
  show ?case
  proof (cases "ws_len s = 0")
    case True
    then show ?thesis by (simp add: trim_start_unfold [of s])
  next
    case False
    then have "length (drop (ws_len s) s) < length s" using ws_len_le [of s] by simp
    then show ?thesis using less False by (simp add: trim_start_unfold [of s])
  qed
qed

definition ws_len_rev :: "string \<Rightarrow> nat" where
  "ws_len_rev s =
     (case s of [] \<Rightarrow> 0
      | a # t \<Rightarrow>
          if ws1 (ord a) then 1
          else (case t of [] \<Rightarrow> 0
                | b # u \<Rightarrow>
                    if ws2 (ord b) (ord a) then 2
                    else (case u of [] \<Rightarrow> 0 | c # v \<Rightarrow> if ws3 (ord c) (ord b) (ord a) then 3 else 0)))"

lemma trim_start_rev_unfold:
  "trim_start_rev s = (if ws_len_rev s = 0 then s else trim_start_rev (drop (ws_len_rev s) s))"
  by (cases s) (auto simp: ws_len_rev_def split: list.splits)

lemma ws_len_rev_le: "ws_len_rev s \<le> length s"
  by (auto simp: ws_len_rev_def split: list.splits)

lemma trim_start_rev_drop: "\<exists>k. trim_start_rev s = drop k s \<and> ws_len_rev (drop k s) = 0"
proof (induction "length s" arbitrary: s rule: less_induct)
  case less
  show ?case
  proof (cases "ws_len_rev s = 0")
    case True
    then have "trim_start_rev s = drop 0 s" by (subst trim_start_rev_unfold) simp
    then show ?thesis using True by (intro exI [of _ 0]) simp
  next
    case False
    let ?t = "drop (ws_len_rev s) s"
    have "length ?t < length s" using False ws_len_rev_le [of s] by simp
    then obtain k where k: "trim_start_rev ?t = drop k ?t" "ws_len_rev (drop k ?t) = 0"
      using less by blast
    have "trim_start_rev s = trim_start_rev ?t" using False by (subst trim_start_rev_unfold) simp
    then show ?thesis using k by (intro exI [of _ "k + ws_len_rev s"]) simp
  qed
qed

lemma trim_trim: "trim (trim s) = trim s"
proof -
  obtain k where k: "trim_start_rev (rev (trim_start s)) = drop k (rev (trim_start s))"
    "ws_len_rev (drop k (rev (trim_start s))) = 0"
    using trim_start_rev_drop by blast
  have t: "trim s = rev (drop k (rev (trim_start s)))"
    using k(1) by (simp add: trim_def trim_end_def)
  then have "trim s = take (length (trim_start s) - k) (trim_start s)"
    by (simp add: rev_drop)
  then have "ws_len (trim s) = 0" by (simp add: ws_len_take ws_len_trim_start)
  then have "trim_start (trim s) = trim s" by (simp add: trim_start_unfold [of "trim s"])
  moreover have "trim_start_rev (rev (trim s)) = rev (trim s)"
    using k(2) t by (subst trim_start_rev_unfold) simp
  ultimately show ?thesis by (simp add: trim_def [of "trim s"] trim_end_def)
qed

lemma phone_handle_chars:
  assumes "is_phone_handle (trim p)"
  shows "list_all stem_char (trim p)"
proof -
  have "list_all (\<lambda>c. is_ascii_digit c \<or> c = CHR ''+'') (trim p)"
    using assms
    by (auto simp: is_phone_handle_def trim_trim Let_def strip_prefix_Some list_all_iff split: if_splits option.splits)
  then show ?thesis by (auto simp: list_all_iff stem_char_def)
qed

lemma set_unique_sorted [simp]:
  "set (unique_sorted_phone_handles ps) = {p \<in> trim ` set ps. is_phone_handle p}"
  by (auto simp: unique_sorted_phone_handles_def)

lemma untitled_stem_chars: "list_all stem_char (untitled_stem sha chat_id ps)"
proof -
  have phones: "list_all stem_char p" if "p \<in> set (take n (unique_sorted_phone_handles ps))" for p n
    using in_set_takeD [OF that] phone_handle_chars by auto
  have hash: "list_all stem_char (take n (sha256_hex sha s))" for n s
    by (simp add: sha256_hex_def list_all_take hex_encode_chars)
  have lit: "list_all stem_char ''group_unknown''" "list_all stem_char ''group''" "list_all stem_char ''group_''"
    "list_all stem_char ''_''"
    by code_simp+
  have "list_all stem_char (concat (map (\<lambda>p. ''_'' @ p) (take n (unique_sorted_phone_handles ps))))" for n
    using phones [of _ n] lit(4) by (simp add: list_all_iff)
  then show ?thesis
    unfolding untitled_stem_def Let_def using hash lit
    by (auto simp only: list_all_append list.pred_inject(1) split: if_split)
qed

lemma with_suffix_chars:
  "list_all stem_char stem \<Longrightarrow> list_all stem_char (case sfx of None \<Rightarrow> [] | Some s \<Rightarrow> s) \<Longrightarrow>
   list_all stem_char (with_suffix stem sfx)"
  by (simp add: with_suffix_def split: option.splits)

lemma stem_chars:
  assumes "list_all stem_char (case sfx of None \<Rightarrow> [] | Some s \<Rightarrow> s)"
  shows "list_all stem_char (conversation_stem sha ty chat_id title ps sfx)"
  unfolding conversation_stem_def Let_def
  by (auto split: option.split intro!: with_suffix_chars assms sanitize_stem_chars untitled_stem_chars)

text \<open>The stem of a conversation's file holds ASCII letters, digits, \<open>-\<close>, \<open>_\<close> and
  \<open>+\<close> only, whatever the chat id, the title and the handles say, when its suffix does: no
  name of a backup reaches another folder or an extension of its own.\<close>

theorem stem_stays_in_folder:
  assumes "list_all stem_char (case sfx of None \<Rightarrow> [] | Some s \<Rightarrow> s)"
  shows "list_all stem_char (conversation_stem sha ty chat_id title ps sfx)"
  by (rule stem_chars [OF assms])

theorem stem_stays_in_folder_witness:
  "list_all stem_char
     (conversation_stem (\<lambda>_. replicate 32 0xAB) ''group'' ''x/../y'' (Some ''  ..  '')
        [''+1 555'', '' +15550001111 '', ''15550002222''] (Some ''__whatsapp'')) \<and>
   conversation_stem (\<lambda>_. replicate 32 0xAB) ''group'' ''x/../y'' (Some ''  ..  '')
        [''+1 555'', '' +15550001111 '', ''15550002222''] (Some ''__whatsapp'') =
   ''group_+15550001111_15550002222__whatsapp''"
proof
  show "list_all stem_char
     (conversation_stem (\<lambda>_. replicate 32 0xAB) ''group'' ''x/../y'' (Some ''  ..  '')
        [''+1 555'', '' +15550001111 '', ''15550002222''] (Some ''__whatsapp''))"
    by (rule stem_stays_in_folder) code_simp
qed code_simp

section \<open>No two documents share a file\<close>

lemma claim_names_Inr:
  "claim_names lower sha docs names = Inr () \<longleftrightarrow>
     distinct (map (name_key lower sha) docs) \<and> set (map (name_key lower sha) docs) \<inter> set names = {}"
  by (induction docs arbitrary: names) (auto simp: Let_def name_key_def)

lemma claim_names_Inl:
  "claim_names lower sha docs names = Inl e \<Longrightarrow>
     \<exists>doc \<in> set docs. e = ''two conversations would both be written to '' @ filename_stem sha doc"
  by (induction docs arbitrary: names) (auto simp: Let_def split: if_splits)

lemma own_file_Inr:
  "give_each_document_its_own_file lower sha docs = Inr docs' \<longleftrightarrow>
     docs' = renamed_docs lower sha (map (name_key lower sha) docs) docs \<and>
     distinct (map (name_key lower sha) docs')"
  by (auto simp: give_each_document_its_own_file_def bind_res_eq_Inr claim_names_Inr Let_def)

lemma own_file_Inl:
  assumes "give_each_document_its_own_file lower sha docs = Inl e"
  defines "named \<equiv> renamed_docs lower sha (map (name_key lower sha) docs) docs"
  shows "\<not> distinct (map (name_key lower sha) named)"
    and "\<exists>doc \<in> set named. e = ''two conversations would both be written to '' @ filename_stem sha doc"
proof -
  have e: "claim_names lower sha named [] = Inl e"
    using assms(1) by (auto simp: give_each_document_its_own_file_def named_def bind_res_eq_Inl Let_def)
  show "\<not> distinct (map (name_key lower sha) named)"
    using claim_names_Inr [of lower sha named "[]"] e by simp
  show "\<exists>doc \<in> set named. e = ''two conversations would both be written to '' @ filename_stem sha doc"
    by (rule claim_names_Inl [OF e])
qed

lemma clash_suffix_frame [simp]:
  "doc_messages (clash_suffix sha doc) = doc_messages doc"
  "doc_conversation (clash_suffix sha doc) = doc_conversation doc"
  "doc_export (clash_suffix sha doc) = doc_export doc"
  "doc_schema_version (clash_suffix sha doc) = doc_schema_version doc"
  by (simp_all add: clash_suffix_def Let_def)

lemma filename_stem_clash:
  "filename_stem sha (clash_suffix sha doc) =
     filename_stem sha doc @ ''__'' @ take 8 (sha256_hex sha (conv_chat_identifier (doc_conversation doc)))"
  by (simp add: filename_stem_def clash_suffix_def conversation_stem_def with_suffix_def Let_def split: option.split)

lemma count_list_map_mset: "mset xs = mset ys \<Longrightarrow> count_list (map f xs) k = count_list (map f ys) k"
  by (metis count_mset mset_map)

lemma count_list_clash:
  assumes "i < length xs"
  shows "1 < count_list xs (xs ! i) \<longleftrightarrow> (\<exists>j < length xs. j \<noteq> i \<and> xs ! j = xs ! i)"
proof -
  let ?S = "{j. j < length xs \<and> xs ! j = xs ! i}"
  have c: "count_list xs (xs ! i) = card ?S"
    by (simp add: count_list_eq_length_filter length_filter_conv_card eq_commute)
  have "card ?S = Suc (card (?S - {i}))"
    using assms by (intro card.remove) auto
  then have "1 < card ?S \<longleftrightarrow> ?S - {i} \<noteq> {}"
    by (simp add: card_gt_0_iff)
  then show ?thesis by (auto simp: c)
qed

text \<open>C16: When the run is not refused, every document has a file name no other document
  has, letter case aside; a document whose name was its own keeps it, and one in a clash gets
  the name and the first eight hexadecimal digits of its chat identifier's digest, its content
  untouched.\<close>

theorem own_file_names:
  assumes "give_each_document_its_own_file lower sha docs = Inr docs'"
  shows "distinct (map (name_key lower sha) docs') \<and>
    length docs' = length docs \<and>
    (\<forall>i < length docs.
       if \<exists>j < length docs. j \<noteq> i \<and> name_key lower sha (docs ! j) = name_key lower sha (docs ! i)
       then docs' ! i = clash_suffix sha (docs ! i) \<and>
            filename_stem sha (docs' ! i) =
              filename_stem sha (docs ! i) @ ''__'' @
              take 8 (sha256_hex sha (conv_chat_identifier (doc_conversation (docs ! i))))
       else docs' ! i = docs ! i)"
proof (intro conjI allI impI)
  let ?key = "name_key lower sha"
  have docs': "docs' = renamed_docs lower sha (map ?key docs) docs" and d: "distinct (map ?key docs')"
    using assms by (auto simp: own_file_Inr)
  show "distinct (map ?key docs')" by (rule d)
  show "length docs' = length docs" by (simp add: docs' renamed_docs_def)
  fix i assume i: "i < length docs"
  have c: "1 < count_list (map ?key docs) (?key (docs ! i)) \<longleftrightarrow>
      (\<exists>j < length docs. j \<noteq> i \<and> ?key (docs ! j) = ?key (docs ! i))"
    using count_list_clash [of i "map ?key docs"] i by (auto simp: nth_map)
  have "docs' ! i = (if 1 < count_list (map ?key docs) (?key (docs ! i))
      then clash_suffix sha (docs ! i) else docs ! i)"
    using i by (simp add: docs' renamed_docs_def)
  then show "if \<exists>j < length docs. j \<noteq> i \<and> ?key (docs ! j) = ?key (docs ! i)
       then docs' ! i = clash_suffix sha (docs ! i) \<and>
            filename_stem sha (docs' ! i) =
              filename_stem sha (docs ! i) @ ''__'' @
              take 8 (sha256_hex sha (conv_chat_identifier (doc_conversation (docs ! i))))
       else docs' ! i = docs ! i"
    unfolding c
    by (cases "\<exists>j < length docs. j \<noteq> i \<and> ?key (docs ! j) = ?key (docs ! i)")
      (simp_all only: if_True if_False filename_stem_clash simp_thms)
qed

text \<open>The names do not depend on the order the documents come in: any order of the same
  documents is refused or gets the same names.\<close>

theorem own_file_order:
  assumes "mset docs = mset docs2"
  shows "case give_each_document_its_own_file lower sha docs of
       Inl _ \<Rightarrow> (case give_each_document_its_own_file lower sha docs2 of Inl _ \<Rightarrow> True | Inr _ \<Rightarrow> False)
     | Inr named \<Rightarrow>
         (case give_each_document_its_own_file lower sha docs2 of
            Inl _ \<Rightarrow> False | Inr named2 \<Rightarrow> mset named2 = mset named)"
proof -
  let ?r = "\<lambda>ds. renamed_docs lower sha (map (name_key lower sha) ds) ds"
  have r: "mset (?r docs2) = mset (?r docs)"
    unfolding renamed_docs_def mset_map count_list_map_mset [OF assms] assms ..
  then have d: "distinct (map (name_key lower sha) (?r docs2)) = distinct (map (name_key lower sha) (?r docs))"
    by (metis mset_eq_imp_distinct_iff mset_map)
  show ?thesis
    using r d own_file_Inr [of lower sha docs] own_file_Inr [of lower sha docs2]
      own_file_Inl [of lower sha docs] own_file_Inl [of lower sha docs2]
    by (auto split: sum.split)
qed

definition sample_doc :: "string \<Rightarrow> string \<Rightarrow> unit conversation_document" where
  "sample_doc chat_id title =
     \<lparr>doc_schema_version = 4,
      doc_export = \<lparr>exp_source = ''x'', exp_tool = ''x'', exp_tool_version = ''1'',
         exp_owner_handle = None, exp_owner_display_name = None\<rparr>,
      doc_conversation = \<lparr>conv_chat_identifier = chat_id, conv_type = Group, conv_group_title = Some title,
         conv_participants = [],
         conv_stats = \<lparr>st_message_count = 0, st_attachment_count = 0, st_first_timestamp = None, st_last_timestamp = None\<rparr>\<rparr>,
      doc_messages = [], doc_packaging_stem_suffix = None\<rparr>"

definition sample_sha :: "u8 list \<Rightarrow> u8 list" where
  "sample_sha bs = take 32 (bs @ replicate 32 0)"

theorem own_file_names_witness:
  "let docs = [sample_doc ''a'' ''Team'', sample_doc ''b'' ''Home'', sample_doc ''c'' ''team''];
       named = renamed_docs to_ascii_lowercase sample_sha (map (name_key to_ascii_lowercase sample_sha) docs) docs
   in distinct (map (name_key to_ascii_lowercase sample_sha) named) \<and>
      map (filename_stem sample_sha) named = [''Team__61000000'', ''Home'', ''team__63000000'']"
proof -
  let ?docs = "[sample_doc ''a'' ''Team'', sample_doc ''b'' ''Home'', sample_doc ''c'' ''team'']"
  let ?named = "renamed_docs to_ascii_lowercase sample_sha
      (map (name_key to_ascii_lowercase sample_sha) ?docs) ?docs"
  have "give_each_document_its_own_file to_ascii_lowercase sample_sha ?docs = Inr ?named"
    by code_simp
  then have "distinct (map (name_key to_ascii_lowercase sample_sha) ?named)"
    using own_file_names by blast
  moreover have "map (filename_stem sample_sha) ?named = [''Team__61000000'', ''Home'', ''team__63000000'']"
    by code_simp
  ultimately show ?thesis by (simp only: Let_def)
qed

theorem own_file_order_witness:
  "case give_each_document_its_own_file to_ascii_lowercase sample_sha
         [sample_doc ''a'' ''Team'', sample_doc ''c'' ''team''] of
       Inl _ \<Rightarrow> False
     | Inr named \<Rightarrow>
         (case give_each_document_its_own_file to_ascii_lowercase sample_sha
                 [sample_doc ''c'' ''team'', sample_doc ''a'' ''Team''] of
            Inl _ \<Rightarrow> False | Inr named2 \<Rightarrow> mset named2 = mset named)"
proof -
  let ?docs = "[sample_doc ''a'' ''Team'', sample_doc ''c'' ''team'']"
  obtain named where n: "give_each_document_its_own_file to_ascii_lowercase sample_sha ?docs = Inr named"
    by (cases "give_each_document_its_own_file to_ascii_lowercase sample_sha ?docs")
      (insert own_file_Inl(1) [of to_ascii_lowercase sample_sha ?docs], code_simp, auto)
  show ?thesis
    using own_file_order [of ?docs "[sample_doc ''c'' ''team'', sample_doc ''a'' ''Team'']"
        to_ascii_lowercase sample_sha] n
    by simp
qed

end
