(* ===== verification/Durable.thy ===== *)
theory Durable
  imports Prelude
begin

text \<open>
  Files that survive a power loss (\<open>crates/libs/ir/src/durable.rs\<close>, \<open>is_complete_file\<close> of
  \<open>crates/libs/ir-format/src/util.rs\<close>). The operating system is a map from names to files with,
  for each name, the directory entries a power loss may still bring back; a Rust function that
  works on files is the list of the system calls it makes, with its result. A folder has an entry of
  its own in the folder above it, which is as safe as the last sync of that folder. Which call fails is an
  argument, so a theorem about every argument is one about every failure. The model is the one of
  Unix: on Windows \<open>sync_dir\<close> does nothing, because the file system journals the rename.
\<close>

section \<open>The disk\<close>

type_synonym path = string

record disk_file =
  f_content :: "u8 list"
  f_synced :: bool

record disk =
  d_now :: "path \<Rightarrow> disk_file option"
  d_kept :: "path \<Rightarrow> disk_file option list"
  d_dirs :: "path \<Rightarrow> bool option"

text \<open>
  \<open>d_dirs\<close> gives a folder that exists, with the truth of: its entry in the folder above is on disk.
  A folder is named with its last slash, and the export folder itself is the empty name.
\<close>

text \<open>\<open>path.parent()\<close> of a name below the export folder: all up to the last slash.\<close>

definition dir_of :: "path \<Rightarrow> path" where
  "dir_of p = rev (dropWhile (\<lambda>c. c \<noteq> CHR ''/'') (rev p))"

text \<open>The folders on the way to a folder, itself included.\<close>

definition folders_of :: "path \<Rightarrow> path list" where
  "folders_of q = map (\<lambda>n. take n q) (filter (\<lambda>n. n = 0 \<or> q ! (n - 1) = CHR ''/'') [0..<Suc (length q)])"

datatype fs_op =
  CreateDirAll path
| CreateFile path
| WriteAll path "u8 list"
| SyncFile path
| Rename path path
| SyncDir path
| RemoveFile path

text \<open>A name gets a new entry; the old one stays behind until the folder is synced.\<close>

definition set_entry :: "path \<Rightarrow> disk_file option \<Rightarrow> disk \<Rightarrow> disk" where
  "set_entry p e d = d\<lparr>d_now := (d_now d)(p := e), d_kept := (d_kept d)(p := d_now d p # d_kept d p)\<rparr>"

text \<open>The file behind a name changes in place.\<close>

definition set_file :: "path \<Rightarrow> (disk_file \<Rightarrow> disk_file) \<Rightarrow> disk \<Rightarrow> disk" where
  "set_file p g d = d\<lparr>d_now := (d_now d)(p := map_option g (d_now d p))\<rparr>"

text \<open>\<open>create_dir_all\<close> makes the folders that are missing and syncs nothing.\<close>

definition make_dirs :: "path \<Rightarrow> disk \<Rightarrow> disk" where
  "make_dirs q d =
     d\<lparr>d_dirs := (\<lambda>f. if d_dirs d f = None \<and> f \<in> set (folders_of q) then Some False else d_dirs d f)\<rparr>"

text \<open>The sync of a folder puts all its entries on disk, those of the folders in it too.\<close>

definition sync_entries :: "path \<Rightarrow> disk \<Rightarrow> disk" where
  "sync_entries q d =
     d\<lparr>d_kept := (\<lambda>p. if dir_of p = q then [] else d_kept d p),
       d_dirs := (\<lambda>f. if f \<noteq> [] \<and> dir_of (butlast f) = q then map_option (\<lambda>_. True) (d_dirs d f) else d_dirs d f)\<rparr>"

fun apply_op :: "fs_op \<Rightarrow> disk \<Rightarrow> disk" where
  "apply_op (CreateDirAll q) d = make_dirs q d"
| "apply_op (CreateFile p) d = set_entry p (Some \<lparr>f_content = [], f_synced = False\<rparr>) d"
| "apply_op (WriteAll p bs) d = set_file p (\<lambda>f. \<lparr>f_content = f_content f @ bs, f_synced = False\<rparr>) d"
| "apply_op (SyncFile p) d = set_file p (\<lambda>f. f\<lparr>f_synced := True\<rparr>) d"
| "apply_op (Rename p q) d = (case d_now d p of None \<Rightarrow> d | Some f \<Rightarrow> set_entry p None (set_entry q (Some f) d))"
| "apply_op (SyncDir q) d = sync_entries q d"
| "apply_op (RemoveFile p) d = set_entry p None d"

definition run_ops :: "fs_op list \<Rightarrow> disk \<Rightarrow> disk" where
  "run_ops ops d = fold apply_op ops d"

lemma run_ops_simps [simp]:
  "run_ops [] d = d"
  "run_ops (op # ops) d = run_ops ops (apply_op op d)"
  "run_ops (ops @ ops') d = run_ops ops' (run_ops ops d)"
  by (simp_all add: run_ops_def)

text \<open>
  What is left after a power loss: for each name one of its entries, current or old, and of a
  file that was not synced any prefix. \<open>choice\<close> says which entry and how long a prefix. A folder
  whose entry was never synced may be gone, with all that is in it; \<open>choice\<close> says that too.
\<close>

definition surviving :: "nat \<Rightarrow> disk_file \<Rightarrow> disk_file" where
  "surviving n f = (if f_synced f then f else \<lparr>f_content = take n (f_content f), f_synced = True\<rparr>)"

definition folder_lost :: "(path \<Rightarrow> nat \<times> nat) \<Rightarrow> disk \<Rightarrow> path \<Rightarrow> bool" where
  "folder_lost choice d q \<longleftrightarrow> list_ex (\<lambda>f. d_dirs d f = Some False \<and> fst (choice f) \<noteq> 0) (folders_of q)"

definition power_loss :: "(path \<Rightarrow> nat \<times> nat) \<Rightarrow> disk \<Rightarrow> disk" where
  "power_loss choice d =
     \<lparr>d_now = (\<lambda>p. if folder_lost choice d (dir_of p) then None
                else case nth_opt (d_now d p # d_kept d p) (fst (choice p)) of
                  None \<Rightarrow> map_option (surviving (snd (choice p))) (d_now d p)
                | Some e \<Rightarrow> map_option (surviving (snd (choice p))) e),
      d_kept = (\<lambda>_. []),
      d_dirs = (\<lambda>f. if folder_lost choice d f then None else map_option (\<lambda>_. True) (d_dirs d f))\<rparr>"

definition entries :: "disk \<Rightarrow> path \<Rightarrow> disk_file option set" where
  "entries d p = set (d_now d p # d_kept d p)"

text \<open>A folder is there to stay when no folder on the way to it can be lost.\<close>

definition folder_stays :: "disk \<Rightarrow> path \<Rightarrow> bool" where
  "folder_stays d q \<longleftrightarrow> list_all (\<lambda>f. d_dirs d f = Some True) (folders_of q)"

lemma folder_stays_not_lost: "folder_stays d q \<Longrightarrow> \<not> folder_lost choice d q"
  by (auto simp: folder_stays_def folder_lost_def list_all_iff list_ex_iff)

lemma power_loss_lost: "folder_lost choice d (dir_of p) \<Longrightarrow> d_now (power_loss choice d) p = None"
  by (simp add: power_loss_def)

lemma power_loss_entry:
  assumes "\<not> folder_lost choice d (dir_of p)"
  shows "\<exists>e \<in> entries d p. d_now (power_loss choice d) p = map_option (surviving (snd (choice p))) e"
  using assms by (auto simp: power_loss_def entries_def nth_opt_def nth_Cons' split: option.splits)

lemma power_loss_synced:
  assumes "\<And>f. Some f \<in> entries d p \<Longrightarrow> f_synced f" and "\<not> folder_lost choice d (dir_of p)"
  shows "d_now (power_loss choice d) p \<in> entries d p"
proof -
  obtain e where e: "e \<in> entries d p"
    "d_now (power_loss choice d) p = map_option (surviving (snd (choice p))) e"
    using power_loss_entry [OF assms(2)] by blast
  have "map_option (surviving (snd (choice p))) e = e"
    using assms(1) e(1) by (cases e) (auto simp: surviving_def)
  then show ?thesis using e by simp
qed

section \<open>Writing a file\<close>

text \<open>Where a write breaks, after how many bytes, with what error, and whether \<open>tmp\<close> could be removed.\<close>

datatype stage = AtDir | AtCreate | AtWrite nat | AtSync | AtRename | AtSyncDir

datatype fault = Works | Breaks stage string bool

fun write_and_sync :: "fault \<Rightarrow> path \<Rightarrow> u8 list \<Rightarrow> fs_op list \<times> (string + unit)" where
  "write_and_sync (Breaks AtCreate e _) tmp data = ([], Inl e)"
| "write_and_sync (Breaks (AtWrite n) e _) tmp data = ([CreateFile tmp, WriteAll tmp (take n data)], Inl e)"
| "write_and_sync (Breaks AtSync e _) tmp data = ([CreateFile tmp, WriteAll tmp data], Inl e)"
| "write_and_sync _ tmp data = ([CreateFile tmp, WriteAll tmp data, SyncFile tmp], Inr ())"

fun rename_synced :: "fault \<Rightarrow> path \<Rightarrow> path \<Rightarrow> fs_op list \<times> (string + unit)" where
  "rename_synced (Breaks AtRename e _) from_path to_path = ([], Inl e)"
| "rename_synced (Breaks AtSyncDir e _) from_path to_path = ([Rename from_path to_path], Inl e)"
| "rename_synced _ from_path to_path = ([Rename from_path to_path, SyncDir (dir_of to_path)], Inr ())"

definition cleanup :: "fault \<Rightarrow> path \<Rightarrow> fs_op list" where
  "cleanup flt tmp = (case flt of Breaks _ _ removed \<Rightarrow> if removed then [RemoveFile tmp] else [] | Works \<Rightarrow> [])"

definition write_atomic_via :: "fault \<Rightarrow> path \<Rightarrow> path \<Rightarrow> u8 list \<Rightarrow> fs_op list \<times> (string + unit)" where
  "write_atomic_via flt tmp p data =
     (case flt of
        Breaks AtDir e _ \<Rightarrow> ([], Inl e)
      | _ \<Rightarrow>
          (case write_and_sync flt tmp data of
             (ops, Inl e) \<Rightarrow> (CreateDirAll (dir_of p) # ops @ cleanup flt tmp, Inl e)
           | (ops, Inr _) \<Rightarrow>
               (case rename_synced flt tmp p of
                  (ops', Inl e) \<Rightarrow> (CreateDirAll (dir_of p) # ops @ ops' @ cleanup flt tmp, Inl e)
                | (ops', Inr _) \<Rightarrow> (CreateDirAll (dir_of p) # ops @ ops', Inr ()))))"

definition write_atomic :: "fault \<Rightarrow> path \<Rightarrow> u8 list \<Rightarrow> fs_op list \<times> (string + unit)" where
  "write_atomic flt p data = write_atomic_via flt (p @ ''.tmp'') p data"

text \<open>Renaming a file another program wrote.\<close>

definition rename_into_place :: "fault \<Rightarrow> path \<Rightarrow> path \<Rightarrow> fs_op list \<times> (string + unit)" where
  "rename_into_place flt from_path to_path =
     (case flt of
        Breaks AtSync e _ \<Rightarrow> ([], Inl e)
      | _ \<Rightarrow> (let (ops, r) = rename_synced flt from_path to_path in (SyncFile from_path # ops, r)))"

text \<open>\<open>is_complete_file\<close>: the file can be read, is not empty and ends with a newline.\<close>

definition is_complete_file :: "disk \<Rightarrow> path \<Rightarrow> bool" where
  "is_complete_file d p =
     (case d_now d p of
        None \<Rightarrow> False
      | Some f \<Rightarrow> f_content f \<noteq> [] \<and> last (f_content f) = 10)"

section \<open>What a power loss can leave of a write\<close>

fun states :: "fs_op list \<Rightarrow> disk \<Rightarrow> disk list" where
  "states [] d = [d]"
| "states (op # ops) d = d # states ops (apply_op op d)"

lemma states_take: "run_ops (take k ops) d \<in> set (states ops d)"
proof (induction ops arbitrary: k d)
  case (Cons op ops)
  then show ?case by (cases k) auto
qed simp

lemma states_append: "set (states (ops @ ops') d) = set (states ops d) \<union> set (states ops' (run_ops ops d))"
proof (induction ops arbitrary: d)
  case Nil
  then show ?case by (cases ops') auto
qed auto

lemma entries_simps [simp]:
  "entries (set_entry q e d) p = (if p = q then insert e (entries d p) else entries d p)"
  "q \<noteq> p \<Longrightarrow> entries (set_file q g d) p = entries d p"
  "d_now (set_entry q e d) p = (if p = q then e else d_now d p)"
  "d_now (set_file q g d) p = (if p = q then map_option g (d_now d p) else d_now d p)"
  by (auto simp: entries_def set_entry_def set_file_def)

lemma entries_folders [simp]:
  "entries (sync_entries q d) p = (if dir_of p = q then {d_now d p} else entries d p)"
  "d_now (sync_entries q d) p = d_now d p"
  "entries (make_dirs q d) p = entries d p"
  "d_now (make_dirs q d) p = d_now d p"
  by (auto simp: entries_def sync_entries_def make_dirs_def)

text \<open>No call takes a folder back from the disk.\<close>

lemma apply_op_dirs: "d_dirs d f = Some True \<Longrightarrow> d_dirs (apply_op op d) f = Some True"
  by (cases op) (auto simp: make_dirs_def sync_entries_def set_entry_def set_file_def split: option.splits)

lemma folder_stays_op: "folder_stays d q \<Longrightarrow> folder_stays (apply_op op d) q"
  by (auto simp: folder_stays_def list_all_iff apply_op_dirs)

lemma folder_stays_ops: "folder_stays d q \<Longrightarrow> folder_stays (run_ops ops d) q"
  by (induction ops arbitrary: d) (simp_all add: folder_stays_op)

lemma in_folders_of:
  "f \<in> set (folders_of q) \<longleftrightarrow> (\<exists>n \<le> length q. f = take n q \<and> (n = 0 \<or> q ! (n - 1) = CHR ''/''))"
  by (fastforce simp del: upt_Suc simp: folders_of_def less_Suc_eq_le)

lemma folders_of_folder:
  assumes "f \<in> set (folders_of q)"
  shows "set (folders_of f) \<subseteq> set (folders_of q)"
proof
  fix g assume "g \<in> set (folders_of f)"
  then obtain m where m: "m \<le> length f" "g = take m f" "m = 0 \<or> f ! (m - 1) = CHR ''/''" by (auto simp: in_folders_of)
  obtain n where n: "n \<le> length q" "f = take n q" using assms by (auto simp: in_folders_of)
  then have "m \<le> n" using m(1) by simp
  then have "g = take m q" "m \<le> length q" "m = 0 \<or> q ! (m - 1) = CHR ''/''"
    using m n by (simp_all add: min_absorb1) (cases m; simp)
  then show "g \<in> set (folders_of q)" by (auto simp: in_folders_of)
qed

lemma folder_stays_power_loss: "folder_stays d q \<Longrightarrow> folder_stays (power_loss choice d) q"
proof -
  assume stays: "folder_stays d q"
  have "folder_stays d f" if "f \<in> set (folders_of q)" for f
    using folders_of_folder [OF that] stays by (auto simp: folder_stays_def list_all_iff)
  then show ?thesis
    using stays folder_stays_not_lost by (auto simp: folder_stays_def list_all_iff power_loss_def)
qed

lemma write_entries:
  assumes "tmp \<noteq> p" and "write_atomic_via flt tmp p data = (ops, r)" and "s \<in> set (states ops d)"
  shows "entries s p \<subseteq> insert (Some \<lparr>f_content = data, f_synced = True\<rparr>) (entries d p)"
proof (cases flt)
  case Works
  then show ?thesis using assms by (auto simp: write_atomic_via_def split: if_splits)
next
  case (Breaks st e b)
  then show ?thesis using assms
    by (cases st) (auto simp: write_atomic_via_def cleanup_def split: if_splits)
qed

lemma write_done:
  assumes "tmp \<noteq> p" and "write_atomic_via flt tmp p data = (ops, Inr ())"
  shows "entries (run_ops ops d) p = {Some \<lparr>f_content = data, f_synced = True\<rparr>}"
proof (cases flt)
  case Works
  then show ?thesis using assms by (auto simp: write_atomic_via_def split: if_splits)
next
  case (Breaks st e b)
  then show ?thesis using assms
    by (cases st) (auto simp: write_atomic_via_def cleanup_def split: if_splits)
qed

text \<open>C10: Whatever system call of a write fails, and wherever in it the power goes, the name
  holds afterwards an entry it had before or the whole new file, and after a write that succeeds it
  holds the new file; all this while its folder is not lost, and a folder all of whose way was on
  disk before is never lost.\<close>

theorem write_survives_power_loss:
  assumes "tmp \<noteq> p" and "\<And>f. Some f \<in> entries d p \<Longrightarrow> f_synced f"
    and "write_atomic_via flt tmp p data = (ops, r)"
  shows "d_now (power_loss choice (run_ops (take k ops) d)) p
       \<in> (if folder_lost choice (run_ops (take k ops) d) (dir_of p) then {None}
          else insert (Some \<lparr>f_content = data, f_synced = True\<rparr>) (entries d p)) \<and>
     (r = Inr () \<and> \<not> folder_lost choice (run_ops ops d) (dir_of p) \<longrightarrow>
        d_now (power_loss choice (run_ops ops d)) p = Some \<lparr>f_content = data, f_synced = True\<rparr>) \<and>
     (folder_stays d (dir_of p) \<longrightarrow> \<not> folder_lost choice (run_ops (take k ops) d) (dir_of p))"
proof (intro conjI impI)
  let ?new = "Some \<lparr>f_content = data, f_synced = True\<rparr>" and ?s = "run_ops (take k ops) d"
  have kept: "d_now (power_loss choice s) p \<in> entries s p"
    if "entries s p \<subseteq> insert ?new (entries d p)" "\<not> folder_lost choice s (dir_of p)" for s
    by (rule power_loss_synced) (use that assms(2) in auto)
  show "d_now (power_loss choice ?s) p
      \<in> (if folder_lost choice ?s (dir_of p) then {None} else insert ?new (entries d p))"
    using write_entries [OF assms(1,3) states_take, of k d] kept [of ?s] by (auto simp: power_loss_lost)
  show "\<not> folder_lost choice ?s (dir_of p)" if "folder_stays d (dir_of p)"
    using that by (intro folder_stays_not_lost folder_stays_ops)
  assume "r = Inr () \<and> \<not> folder_lost choice (run_ops ops d) (dir_of p)"
  then have fin: "entries (run_ops ops d) p = {?new}" "\<not> folder_lost choice (run_ops ops d) (dir_of p)"
    using write_done assms(1,3) by simp_all
  then show "d_now (power_loss choice (run_ops ops d)) p = ?new" using kept [of "run_ops ops d"] by auto
qed

definition bare_disk :: disk where
  "bare_disk = \<lparr>d_now = (\<lambda>_. None), d_kept = (\<lambda>_. []), d_dirs = (\<lambda>f. if f = [] then Some True else None)\<rparr>"

theorem write_survives_power_loss_witness:
  "let (ops, r) = write_atomic_via (Breaks AtSyncDir ''disk'' True) ''a.jsonl.tmp'' ''a.jsonl'' [65, 10]
   in d_now (power_loss (\<lambda>_. (0, 1)) (run_ops (take 2 ops) bare_disk)) ''a.jsonl''
        \<in> {Some \<lparr>f_content = [65, 10], f_synced = True\<rparr>, None} \<and>
      r = Inl ''disk'' \<and>
      d_now (power_loss (\<lambda>_. (0, 1)) (run_ops ops bare_disk)) ''a.jsonl'' = Some \<lparr>f_content = [65, 10], f_synced = True\<rparr> \<and>
      d_now (power_loss (\<lambda>_. (1, 1)) (run_ops ops bare_disk)) ''a.jsonl'' = None"
proof -
  let ?w = "write_atomic_via (Breaks AtSyncDir ''disk'' True) ''a.jsonl.tmp'' ''a.jsonl'' [65, 10]"
  have "d_now (power_loss (\<lambda>_. (0, 1)) (run_ops (take 2 (fst ?w)) bare_disk)) ''a.jsonl''
        \<in> (if folder_lost (\<lambda>_. (0, 1)) (run_ops (take 2 (fst ?w)) bare_disk) (dir_of ''a.jsonl'') then {None}
           else insert (Some \<lparr>f_content = [65, 10], f_synced = True\<rparr>) (entries bare_disk ''a.jsonl''))"
    by (rule write_survives_power_loss [THEN conjunct1, of "''a.jsonl.tmp''" _ _ "Breaks AtSyncDir ''disk'' True" _ _ "snd ?w"])
      (auto simp: entries_def bare_disk_def)
  then have 1: "d_now (power_loss (\<lambda>_. (0, 1)) (run_ops (take 2 (fst ?w)) bare_disk)) ''a.jsonl''
        \<in> {Some \<lparr>f_content = [65, 10], f_synced = True\<rparr>, None}"
    by (auto simp: entries_def bare_disk_def split: if_splits)
  have 2: "snd ?w = Inl ''disk'' \<and>
      d_now (power_loss (\<lambda>_. (0, 1)) (run_ops (fst ?w) bare_disk)) ''a.jsonl'' = Some \<lparr>f_content = [65, 10], f_synced = True\<rparr> \<and>
      d_now (power_loss (\<lambda>_. (1, 1)) (run_ops (fst ?w) bare_disk)) ''a.jsonl'' = None"
    by code_simp
  show ?thesis using 1 2 by (simp only: Let_def case_prod_unfold)
qed

text \<open>
  What \<open>create_dir_all\<close> leaves open: a write into a new folder reports success and the power loss
  takes the file with the folder, whose own entry nothing has synced; a later write into the folder
  above syncs it.
\<close>

lemma new_folder_can_vanish:
  "let (ops, r) = write_atomic Works ''attachments/a'' [65];
       (ops', r') = write_atomic Works ''c.jsonl'' [10];
       lost = power_loss (\<lambda>p. (if p = ''attachments/'' then 1 else 0, 0))
   in r = Inr () \<and> r' = Inr () \<and>
      d_now (lost (run_ops ops bare_disk)) ''attachments/a'' = None \<and>
      d_now (lost (run_ops ops' (run_ops ops bare_disk))) ''attachments/a'' = Some \<lparr>f_content = [65], f_synced = True\<rparr>"
  by code_simp

end
