(* ===== verification/Staging.thy ===== *)
theory Staging
  imports Ir Durable
begin

text \<open>
  Staging attachment files (\<open>crates/core/message-crate-core/src/attachment_jobs.rs\<close> and
  \<open>attachments.rs\<close>, \<open>clear_attachments_when_disabled\<close> of
  \<open>crates/libs/ir-format/src/export_transforms.rs\<close>). A run returns the system calls it makes,
  the progress it reports and its result. Arguments stand for what the surroundings decide: the
  loader's answers, the cancel flag at each check, which write fails. SHA-256, chrono's date text
  and the convert and compress pass of the media library are parameters.
\<close>

section \<open>Names of staged files\<close>

definition digest_prefix :: "string \<Rightarrow> string" where
  "digest_prefix digest_hex = take (min 16 (length digest_hex)) digest_hex"

text \<open>\<open>to_string\<close> of an \<open>i64\<close>.\<close>

definition int_string :: "int \<Rightarrow> string" where
  "int_string n = (if n < 0 then ''-'' @ dec_string (nat (- n)) else dec_string (nat n))"

text \<open>\<open>utc\<close> is the text of \<open>%Y%m%d_%H%M%S\<close>, or \<open>None\<close> when chrono has no such time.\<close>

definition attachment_date_prefix :: "(int \<Rightarrow> string option) \<Rightarrow> int \<Rightarrow> string" where
  "attachment_date_prefix utc secs = (case utc secs of None \<Rightarrow> int_string secs | Some t \<Rightarrow> t)"

definition attachment_dest_name :: "(int \<Rightarrow> string option) \<Rightarrow> int \<Rightarrow> string \<Rightarrow> string \<Rightarrow> string" where
  "attachment_dest_name utc secs digest_hex ext =
     attachment_date_prefix utc secs @ ''-'' @ digest_prefix digest_hex @ ext"

definition MAX_EXTENSION_LEN :: nat where "MAX_EXTENSION_LEN = 10"

text \<open>
  \<open>Path::new(name).extension()\<close>: the last component that is not empty or \<open>.\<close>, unless it is
  \<open>..\<close>; of it the text after the last dot, when the dot is not its first character.
\<close>

definition path_file_name :: "string \<Rightarrow> string option" where
  "path_file_name name =
     (case rev (filter (\<lambda>c. c \<noteq> [] \<and> c \<noteq> ''.'') (split_on (CHR ''/'') name)) of
        [] \<Rightarrow> None
      | c # _ \<Rightarrow> if c = ''..'' then None else Some c)"

definition path_extension :: "string \<Rightarrow> string option" where
  "path_extension name =
     (case path_file_name name of
        None \<Rightarrow> None
      | Some f \<Rightarrow>
          (case rev (split_on (CHR ''.'') f) of
             ext # front # rest \<Rightarrow> if rest = [] \<and> front = [] then None else Some ext
           | _ \<Rightarrow> None))"

definition is_ascii_alphanumeric :: "char \<Rightarrow> bool" where
  "is_ascii_alphanumeric c \<longleftrightarrow> is_ascii_alphabetic c \<or> is_ascii_digit c"

definition extension_from_name :: "string option \<Rightarrow> string" where
  "extension_from_name original_name =
     (case Option.bind original_name path_extension of
        None \<Rightarrow> []
      | Some ext \<Rightarrow>
          if length ext \<le> MAX_EXTENSION_LEN \<and> list_all is_ascii_alphanumeric ext then CHR ''.'' # ext else [])"

section \<open>Jobs\<close>

datatype media_mode = Disabled | Clone | Convert | Compress

record attachment_progress =
  ap_done :: nat
  ap_total :: nat
  ap_bytes_done :: u64
  ap_bytes_total :: u64

record attachment_job =
  job_attachment :: ir_attachment
  job_timestamp_unix_ms :: int
  job_size_hint :: "u64 option"

definition saturating_sub :: "u64 \<Rightarrow> u64 \<Rightarrow> u64" where
  "saturating_sub a b = (if b \<le> a then a - b else 0)"

definition hex_sha256 :: "(u8 list \<Rightarrow> u8 list) \<Rightarrow> u8 list \<Rightarrow> string" where
  "hex_sha256 sha bytes = hex_encode (sha bytes)"

definition next_clone_temp_name :: "nat \<Rightarrow> string \<Rightarrow> string" where
  "next_clone_temp_name seq name = name @ ''.'' @ dec_string seq @ ''.tmp''"

definition staged_name :: "(u8 list \<Rightarrow> u8 list) \<Rightarrow> (int \<Rightarrow> string option) \<Rightarrow> attachment_job \<Rightarrow> u8 list \<Rightarrow> string" where
  "staged_name sha utc job bytes =
     attachment_dest_name utc (job_timestamp_unix_ms job div 1000) (hex_sha256 sha bytes)
       (extension_from_name (att_original_name (job_attachment job)))"

definition persist_clone ::
  "(u8 list \<Rightarrow> u8 list) \<Rightarrow> (int \<Rightarrow> string option) \<Rightarrow> fault \<Rightarrow> nat \<Rightarrow> attachment_job \<Rightarrow> u8 list \<Rightarrow>
   fs_op list \<times> (string + attachment_job)" where
  "persist_clone sha utc flt seq job bytes =
     (let name = staged_name sha utc job bytes;
          (ops, r) =
            write_atomic_via flt (''attachments/'' @ next_clone_temp_name seq name) (''attachments/'' @ name) bytes
      in (ops,
          map_res
            (\<lambda>_. job\<lparr>job_attachment := (job_attachment job)
                   \<lparr>att_path := Some (''attachments/'' @ name),
                    att_digest_sha256 := Some (hex_sha256 sha bytes),
                    att_size_bytes := Some (word_of_nat (length bytes)),
                    att_missing_reason := None\<rparr>\<rparr>)
            r))"

definition mark_missing :: "string \<Rightarrow> attachment_job \<Rightarrow> attachment_job" where
  "mark_missing reason job =
     job\<lparr>job_attachment := (job_attachment job)\<lparr>att_missing_reason := Some reason\<rparr>\<rparr>"

definition hint_or_zero :: "attachment_job \<Rightarrow> u64" where
  "hint_or_zero job = (case job_size_hint job of None \<Rightarrow> 0 | Some h \<Rightarrow> h)"

text \<open>
  One turn of the loop over the jobs, from the loader's answer on: the running totals are the
  number the next temporary file gets, \<open>bytes_done\<close> and \<open>bytes_total\<close>.
\<close>

record job_totals =
  jt_seq :: nat
  jt_bytes_done :: u64
  jt_bytes_total :: u64

definition stage_one ::
  "(u8 list \<Rightarrow> u8 list) \<Rightarrow> (int \<Rightarrow> string option) \<Rightarrow> fault \<Rightarrow> string + u8 list option \<Rightarrow>
   job_totals \<Rightarrow> attachment_job \<Rightarrow> fs_op list \<times> (string + attachment_job \<times> job_totals)" where
  "stage_one sha utc flt answer t job =
     (if answer = Inl ''cancelled'' then ([], Inl ''cancelled'')
      else
        (case (case answer of Inl _ \<Rightarrow> None | Inr loaded \<Rightarrow> loaded) of
           Some (b # bs) \<Rightarrow>
             (let bytes = b # bs;
                  len = word_of_nat (length bytes);
                  n_total = saturating_sub (jt_bytes_total t) (hint_or_zero job) + len;
                  seq = jt_seq t
              in case persist_clone sha utc flt seq job bytes of
                   (ops, Inl _) \<Rightarrow>
                     (ops, Inr (mark_missing ''file_missing'' job,
                        t\<lparr>jt_seq := seq + 1, jt_bytes_total := saturating_sub n_total len\<rparr>))
                 | (ops, Inr job') \<Rightarrow>
                     (ops, Inr (job',
                        \<lparr>jt_seq = seq + 1, jt_bytes_done = jt_bytes_done t + len, jt_bytes_total = n_total\<rparr>)))
         | _ \<Rightarrow>
             ([], Inr (mark_missing ''file_missing'' job,
                t\<lparr>jt_bytes_total := saturating_sub (jt_bytes_total t) (hint_or_zero job)\<rparr>))))"

record surroundings =
  env_cancel :: "nat \<Rightarrow> bool"
  env_load :: "nat \<Rightarrow> string + u8 list option"
  env_fault :: "nat \<Rightarrow> fault"
  env_dir :: "string option"

definition progress_of :: "nat \<Rightarrow> nat \<Rightarrow> job_totals \<Rightarrow> attachment_progress" where
  "progress_of completed n_total t =
     \<lparr>ap_done = completed, ap_total = n_total, ap_bytes_done = jt_bytes_done t, ap_bytes_total = jt_bytes_total t\<rparr>"

fun jobs_loop ::
  "(u8 list \<Rightarrow> u8 list) \<Rightarrow> (int \<Rightarrow> string option) \<Rightarrow> surroundings \<Rightarrow> nat \<Rightarrow> nat \<Rightarrow> job_totals \<Rightarrow>
   attachment_job list \<Rightarrow>
   fs_op list \<times> attachment_progress list \<times> (string + attachment_job list \<times> job_totals)" where
  "jobs_loop sha utc env i n_total t [] = ([], [], Inr ([], t))"
| "jobs_loop sha utc env i n_total t (job # jobs) =
     (if env_cancel env i then ([], [], Inl ''cancelled'')
      else
        (case stage_one sha utc (env_fault env i) (env_load env i) t job of
           (ops, Inl e) \<Rightarrow> (ops, [], Inl e)
         | (ops, Inr (job', t')) \<Rightarrow>
             (case jobs_loop sha utc env (i + 1) n_total t' jobs of
                (ops', ps, r) \<Rightarrow>
                  (ops @ ops', progress_of (i + 1) n_total t' # ps,
                   map_res (\<lambda>(jobs', t''). (job' # jobs', t'')) r))))"

definition hint_sum :: "attachment_job list \<Rightarrow> u64" where
  "hint_sum jobs = sum_list (map hint_or_zero jobs)"

text \<open>\<open>media_pass\<close> is \<open>apply_convert_or_compress\<close>, which runs external programs.\<close>

definition run_attachment_jobs ::
  "(u8 list \<Rightarrow> u8 list) \<Rightarrow> (int \<Rightarrow> string option) \<Rightarrow> (attachment_job list \<Rightarrow> string + attachment_job list) \<Rightarrow>
   surroundings \<Rightarrow> media_mode \<Rightarrow> nat \<Rightarrow> attachment_job list \<Rightarrow>
   fs_op list \<times> attachment_progress list \<times> (string + attachment_job list \<times> nat)" where
  "run_attachment_jobs sha utc media_pass env mode seq jobs =
     (let n_total = length jobs
      in if n_total = 0 then
           ([], [\<lparr>ap_done = 0, ap_total = 0, ap_bytes_done = 0, ap_bytes_total = 0\<rparr>], Inr ([], seq))
         else if mode = Disabled then
           ([], [\<lparr>ap_done = n_total, ap_total = n_total, ap_bytes_done = 0, ap_bytes_total = 0\<rparr>],
            Inr (map (mark_missing ''not_copied'') jobs, seq))
         else
           (case env_dir env of
              Some e \<Rightarrow> ([], [], Inl e)
            | None \<Rightarrow>
                (case jobs_loop sha utc env 0 n_total
                        \<lparr>jt_seq = seq, jt_bytes_done = 0, jt_bytes_total = hint_sum jobs\<rparr> jobs of
                   (ops, ps, Inl e) \<Rightarrow> (CreateDirAll ''attachments/'' # ops, ps, Inl e)
                 | (ops, ps, Inr (jobs', t)) \<Rightarrow>
                     (if mode = Convert \<or> mode = Compress then
                        (if env_cancel env n_total then
                           (CreateDirAll ''attachments/'' # ops, ps, Inl ''cancelled'')
                         else
                           (case media_pass jobs' of
                              Inl e \<Rightarrow> (CreateDirAll ''attachments/'' # ops, ps, Inl e)
                            | Inr jobs'' \<Rightarrow>
                                (CreateDirAll ''attachments/'' # ops, ps @ [progress_of n_total n_total t],
                                 Inr (jobs'', jt_seq t))))
                      else (CreateDirAll ''attachments/'' # ops, ps, Inr (jobs', jt_seq t))))))"

text \<open>The three ways a turn ends: cancelled by the loader, nothing to write, or written.\<close>

lemma stage_one_cases [consumes 1, case_names cancelled missing written]:
  assumes st: "stage_one sha utc flt answer t job = (ops, r)"
    and "ops = [] \<Longrightarrow> r = Inl ''cancelled'' \<Longrightarrow> answer = Inl ''cancelled'' \<Longrightarrow> Q"
    and "\<And>t'. ops = [] \<Longrightarrow> r = Inr (mark_missing ''file_missing'' job, t') \<Longrightarrow> jt_seq t' = jt_seq t \<Longrightarrow>
      (\<And>b bs. answer \<noteq> Inr (Some (b # bs))) \<Longrightarrow> Q"
    and "\<And>b bs r' t'. answer = Inr (Some (b # bs)) \<Longrightarrow>
      persist_clone sha utc flt (jt_seq t) job (b # bs) = (ops, r') \<Longrightarrow>
      r = Inr (case r' of Inl _ \<Rightarrow> mark_missing ''file_missing'' job | Inr job' \<Rightarrow> job', t') \<Longrightarrow>
      jt_seq t' = jt_seq t + 1 \<Longrightarrow> Q"
  shows Q
proof (cases "answer = Inl ''cancelled''")
  case True
  then show ?thesis using st assms(2) by (simp add: stage_one_def)
next
  case False
  show ?thesis
  proof (cases "\<exists>b bs. answer = Inr (Some (b # bs))")
    case True
    then obtain b bs where a: "answer = Inr (Some (b # bs))" by blast
    obtain r' where p: "persist_clone sha utc flt (jt_seq t) job (b # bs) = (ops, r')"
      using st by (cases "persist_clone sha utc flt (jt_seq t) job (b # bs)")
        (auto simp: stage_one_def a Let_def split: sum.splits)
    show ?thesis
      using st p assms(4) [OF a p] by (cases r') (auto simp: stage_one_def a Let_def)
  next
    case False2: False
    then have "stage_one sha utc flt answer t job =
        ([], Inr (mark_missing ''file_missing'' job,
           t\<lparr>jt_bytes_total := saturating_sub (jt_bytes_total t) (hint_or_zero job)\<rparr>))"
      using False by (cases answer) (auto simp: stage_one_def split: option.splits list.splits)
    then show ?thesis using st assms(3) False2 by simp
  qed
qed

section \<open>Jobs of messages\<close>

definition attachment_size_hint :: "ir_attachment \<Rightarrow> u64 option" where
  "attachment_size_hint att =
     (case att_size_bytes att of
        Some n \<Rightarrow> Some n
      | None \<Rightarrow> map_option (\<lambda>b. word_of_nat (length b)) (att_bytes att))"

definition attachment_jobs :: "'x ir_message list \<Rightarrow> attachment_job list" where
  "attachment_jobs messages =
     concat (map (\<lambda>msg.
       map (\<lambda>att. \<lparr>job_attachment = att, job_timestamp_unix_ms = msg_timestamp_unix_ms msg,
                   job_size_hint = attachment_size_hint att\<rparr>) (msg_attachments msg)) messages)"

text \<open>What the jobs wrote through their references, back in the messages.\<close>

fun put_attachments :: "'x ir_message list \<Rightarrow> ir_attachment list \<Rightarrow> 'x ir_message list" where
  "put_attachments [] atts = []"
| "put_attachments (msg # msgs) atts =
     (let n = length (msg_attachments msg)
      in msg\<lparr>msg_attachments := take n atts\<rparr> # put_attachments msgs (drop n atts))"

definition written_paths :: "ir_attachment list \<Rightarrow> string list" where
  "written_paths atts =
     List.map_filter (\<lambda>att. if att_digest_sha256 att = None then None else att_path att) atts"

definition drop_bytes :: "ir_attachment \<Rightarrow> ir_attachment" where
  "drop_bytes att = att\<lparr>att_bytes := None\<rparr>"

definition stage_conversation_attachments ::
  "(u8 list \<Rightarrow> u8 list) \<Rightarrow> (int \<Rightarrow> string option) \<Rightarrow> (attachment_job list \<Rightarrow> string + attachment_job list) \<Rightarrow>
   surroundings \<Rightarrow> media_mode \<Rightarrow> nat \<Rightarrow> 'x ir_message list \<Rightarrow>
   fs_op list \<times> attachment_progress list \<times> (string + 'x ir_message list \<times> u64)" where
  "stage_conversation_attachments sha utc media_pass env mode seq messages =
     (case run_attachment_jobs sha utc media_pass env mode seq (attachment_jobs messages) of
        (ops, ps, r) \<Rightarrow>
          (ops, ps,
           map_res
             (\<lambda>(jobs, _).
               let atts = map (drop_bytes \<circ> job_attachment) jobs
               in (put_attachments messages atts, word_of_nat (length (remdups (written_paths atts)))))
             r))"

definition clear_attachments_when_disabled ::
  "media_mode \<Rightarrow> 'x conversation_document \<Rightarrow> 'x conversation_document" where
  "clear_attachments_when_disabled mode doc =
     (if mode \<noteq> Disabled then doc
      else
        doc\<lparr>doc_messages :=
          map (\<lambda>msg. msg\<lparr>msg_attachments :=
            map (\<lambda>att. att\<lparr>att_path := None, att_bytes := None, att_digest_sha256 := None\<rparr>) (msg_attachments msg)\<rparr>)
            (doc_messages doc)\<rparr>)"

section \<open>The byte totals\<close>

definition loaded_len :: "string + u8 list option \<Rightarrow> nat" where
  "loaded_len answer = (case answer of Inr (Some bytes) \<Rightarrow> length bytes | _ \<Rightarrow> 0)"

definition hints :: "attachment_job list \<Rightarrow> nat" where
  "hints jobs = sum_list (map (unat \<circ> hint_or_zero) jobs)"

fun loads :: "surroundings \<Rightarrow> nat \<Rightarrow> nat \<Rightarrow> nat" where
  "loads env i 0 = 0"
| "loads env i (Suc n) = loaded_len (env_load env i) + loads env (i + 1) n"

lemma hints_simps [simp]:
  "hints [] = 0"
  "hints (job # jobs) = unat (hint_or_zero job) + hints jobs"
  by (simp_all add: hints_def)

lemma unat_saturating_sub: "unat (saturating_sub a b) = unat a - unat b"
  by (auto simp: saturating_sub_def unat_sub word_le_nat_alt)

lemma unat_word_sum: "unat a + unat b < 2 ^ 64 \<Longrightarrow> unat (a + b) = unat a + unat (b :: u64)"
  by (simp add: unat_word_ariths)

lemma unat_len: "n < 2 ^ 64 \<Longrightarrow> unat (word_of_nat n :: u64) = n"
  by (simp add: unat_of_nat)

lemma stage_one_totals:
  assumes "stage_one sha utc flt answer t job = (ops, Inr (job', t'))"
    and "unat (jt_bytes_total t) = unat (jt_bytes_done t) + unat (hint_or_zero job) + rest"
    and "unat (jt_bytes_total t) + loaded_len answer < 2 ^ 64"
  shows "unat (jt_bytes_total t') = unat (jt_bytes_done t') + rest \<and>
    unat (jt_bytes_done t') \<le> unat (jt_bytes_done t) + loaded_len answer"
proof (cases answer)
  case (Inl e)
  then show ?thesis using assms by (auto simp: stage_one_def unat_saturating_sub split: if_splits)
next
  case (Inr loaded)
  show ?thesis
  proof (cases "\<exists>b bs. loaded = Some (b # bs)")
    case False
    then have "stage_one sha utc flt answer t job =
        ([], Inr (mark_missing ''file_missing'' job,
           t\<lparr>jt_bytes_total := saturating_sub (jt_bytes_total t) (hint_or_zero job)\<rparr>))"
      by (auto simp: stage_one_def Inr split: option.splits list.splits)
    then show ?thesis using assms by (auto simp: unat_saturating_sub)
  next
    case True
    then obtain b bs where l: "loaded = Some (b # bs)" by blast
    let ?len = "word_of_nat (length (b # bs)) :: u64"
    have len: "unat ?len = length (b # bs)"
      using assms(3) by (intro unat_len) (simp add: Inr l loaded_len_def)
    have ll: "loaded_len answer = length (b # bs)" by (simp add: Inr l loaded_len_def)
    have d: "unat (jt_bytes_done t + ?len) = unat (jt_bytes_done t) + length (b # bs)"
      using assms(2,3) len ll by (simp add: unat_word_sum)
    have n: "unat (saturating_sub (jt_bytes_total t) (hint_or_zero job) + ?len) =
        unat (jt_bytes_done t) + rest + length (b # bs)"
      using assms(2,3) len ll by (simp add: unat_word_sum unat_saturating_sub)
    from assms(1) show ?thesis
      using d n len ll
      by (auto simp: stage_one_def Inr l Let_def unat_saturating_sub split: prod.splits sum.splits)
  qed
qed

lemma jobs_loop_totals:
  assumes "jobs_loop sha utc env i n t jobs = (ops, ps, Inr (jobs', t'))"
    and "unat (jt_bytes_total t) = unat (jt_bytes_done t) + hints jobs"
    and "unat (jt_bytes_total t) + loads env i (length jobs) < 2 ^ 64"
  shows "jt_bytes_total t' = jt_bytes_done t' \<and> map ap_done ps = [i + 1..<i + 1 + length jobs] \<and>
    list_all (\<lambda>p. ap_bytes_done p \<le> ap_bytes_total p) ps \<and>
    (jobs \<noteq> [] \<longrightarrow> last ps = progress_of (i + length jobs) n t')"
  using assms
proof (induction jobs arbitrary: i t ops ps jobs')
  case Nil
  then show ?case by (auto simp: word_unat_eq_iff)
next
  case (Cons job jobs)
  obtain ops1 job1 t1 where one: "stage_one sha utc (env_fault env i) (env_load env i) t job = (ops1, Inr (job1, t1))"
    and rest: "\<exists>ops2 ps2 jobs2. jobs_loop sha utc env (i + 1) n t1 jobs = (ops2, ps2, Inr (jobs2, t')) \<and>
      ps = progress_of (i + 1) n t1 # ps2"
    using Cons.prems(1) by (auto split: if_splits prod.splits sum.splits simp: map_res_def)
  then obtain ops2 ps2 jobs2 where loop: "jobs_loop sha utc env (i + 1) n t1 jobs = (ops2, ps2, Inr (jobs2, t'))"
    and ps: "ps = progress_of (i + 1) n t1 # ps2"
    by blast
  have s: "unat (jt_bytes_total t1) = unat (jt_bytes_done t1) + hints jobs \<and>
      unat (jt_bytes_done t1) \<le> unat (jt_bytes_done t) + loaded_len (env_load env i)"
    by (rule stage_one_totals [OF one]) (use Cons.prems(2,3) in simp_all)
  have ih: "jt_bytes_total t' = jt_bytes_done t' \<and> map ap_done ps2 = [i + 1 + 1..<i + 1 + 1 + length jobs] \<and>
      list_all (\<lambda>p. ap_bytes_done p \<le> ap_bytes_total p) ps2 \<and>
      (jobs \<noteq> [] \<longrightarrow> last ps2 = progress_of (i + 1 + length jobs) n t')"
    by (rule Cons.IH [OF loop]) (use s Cons.prems(2,3) in simp_all)
  have "jobs = [] \<longrightarrow> ps2 = [] \<and> t' = t1" using loop by auto
  moreover have "jobs \<noteq> [] \<longrightarrow> ps2 \<noteq> []" using ih by (cases jobs) auto
  ultimately show ?case
    using ih s ps by (auto simp: progress_of_def word_le_nat_alt upt_conv_Cons)
qed

end
