(* ===== verification/Vouch.thy ===== *)
theory Vouch
  imports Durable
begin

text \<open>
  Interleaved writers on one disk. Several threads write files through \<open>write_atomic_via\<close>, and a
  file may point at others. What makes that safe is stated once, for any rule of what a file may
  hold: a writer knows the temporary file it works on, the names it has put in place and the names
  no power loss can take away, and a script of system calls is safe when it only renames a synced
  file that the rule accepts. A name with at most one dot is a final name, one with two or more a
  temporary one.
\<close>

definition dots :: "path \<Rightarrow> nat" where
  "dots p = count_list p (CHR ''.'')"

definition held :: "disk \<Rightarrow> path set" where
  "held d = {p. dots p \<le> 1 \<and> None \<notin> entries d p}"

record know =
  k_tmp :: "(path \<times> disk_file) option"
  k_there :: "path set"
  k_held :: "path set"

definition know_nothing :: know where
  "know_nothing = \<lparr>k_tmp = None, k_there = {}, k_held = {}\<rparr>"

fun temps_of :: "fs_op \<Rightarrow> path set" where
  "temps_of (CreateFile t) = {t}"
| "temps_of (WriteAll t bs) = {t}"
| "temps_of (SyncFile t) = {t}"
| "temps_of (Rename t p) = {t}"
| "temps_of (RemoveFile t) = {t}"
| "temps_of _ = {}"

definition temps :: "fs_op list \<Rightarrow> path set" where
  "temps ops = (\<Union>op \<in> set ops. temps_of op)"

definition knows :: "disk \<Rightarrow> know \<Rightarrow> bool" where
  "knows d k \<longleftrightarrow>
     (\<forall>t f. k_tmp k = Some (t, f) \<longrightarrow> d_now d t = Some f \<and> 2 \<le> dots t) \<and>
     (\<forall>p \<in> k_there k. dots p \<le> 1 \<and> d_now d p \<noteq> None) \<and>
     k_held k \<subseteq> held d"

lemma temps_simps [simp]:
  "temps [] = {}"
  "temps (op # ops) = temps_of op \<union> temps ops"
  "temps (ops @ ops') = temps ops \<union> temps ops'"
  by (auto simp: temps_def)

lemma knows_nothing [simp]: "knows d know_nothing"
  by (simp add: knows_def know_nothing_def)

lemma now_entry: "d_now d p = e \<Longrightarrow> e \<in> entries d p"
  by (auto simp: entries_def)

text \<open>
  \<open>worthy H p c\<close>: the name \<open>p\<close> may hold \<open>c\<close> when the names \<open>H\<close> are there to stay. A name that
  stays can only make more contents acceptable.
\<close>

locale file_rule =
  fixes worthy :: "path set \<Rightarrow> path \<Rightarrow> u8 list \<Rightarrow> bool"
  assumes worthy_mono: "worthy H p c \<Longrightarrow> H \<subseteq> H' \<Longrightarrow> worthy H' p c"
begin

definition disk_ok :: "disk \<Rightarrow> bool" where
  "disk_ok d \<longleftrightarrow>
     (\<forall>p f. dots p \<le> 1 \<longrightarrow> Some f \<in> entries d p \<longrightarrow> f_synced f \<and> worthy (held d) p (f_content f))"

fun track1 :: "know \<Rightarrow> fs_op \<Rightarrow> know option" where
  "track1 k (CreateDirAll q) = Some k"
| "track1 k (CreateFile t) =
     (if 2 \<le> dots t then Some (k\<lparr>k_tmp := Some (t, \<lparr>f_content = [], f_synced = False\<rparr>)\<rparr>) else None)"
| "track1 k (WriteAll t bs) =
     (case k_tmp k of
        Some (t', f) \<Rightarrow>
          if t' = t then Some (k\<lparr>k_tmp := Some (t, \<lparr>f_content = f_content f @ bs, f_synced = False\<rparr>)\<rparr>) else None
      | None \<Rightarrow> None)"
| "track1 k (SyncFile t) =
     (case k_tmp k of
        Some (t', f) \<Rightarrow> if t' = t then Some (k\<lparr>k_tmp := Some (t, f\<lparr>f_synced := True\<rparr>)\<rparr>) else None
      | None \<Rightarrow> None)"
| "track1 k (Rename t p) =
     (case k_tmp k of
        Some (t', f) \<Rightarrow>
          if t' = t \<and> f_synced f \<and> dots p \<le> 1 \<and> worthy (k_held k) p (f_content f)
          then Some (k\<lparr>k_tmp := None, k_there := insert p (k_there k)\<rparr>) else None
      | None \<Rightarrow> None)"
| "track1 k (SyncDir q) = Some (k\<lparr>k_held := k_held k \<union> {p \<in> k_there k. dir_of p = q}\<rparr>)"
| "track1 k (RemoveFile t) = (if 2 \<le> dots t then Some (k\<lparr>k_tmp := None\<rparr>) else None)"

fun track :: "know \<Rightarrow> fs_op list \<Rightarrow> know option" where
  "track k [] = Some k"
| "track k (op # ops) = Option.bind (track1 k op) (\<lambda>k'. track k' ops)"

lemma track_append: "track k (ops @ ops') = Option.bind (track k ops) (\<lambda>k'. track k' ops')"
  by (induction ops arbitrary: k) (auto split: Option.bind_splits)

lemma track1_held_mono: "track1 k op = Some k' \<Longrightarrow> k_held k \<subseteq> k_held k'"
  by (cases op) (auto split: option.splits prod.splits if_splits)

text \<open>What a safe call does to a final name: nothing new, or a synced file the rule accepts.\<close>

lemma track1_final:
  assumes t: "track1 k op = Some k'" and kn: "knows d k" and p: "dots p \<le> 1"
  shows "d_now (apply_op op d) p = d_now d p \<and> entries (apply_op op d) p \<subseteq> entries d p \<or>
    (\<exists>u f. op = Rename u p \<and> k_tmp k = Some (u, f) \<and> f_synced f \<and> worthy (k_held k) p (f_content f) \<and>
       d_now (apply_op op d) p = Some f \<and> entries (apply_op op d) p = insert (Some f) (entries d p))"
proof -
  have ne: "u \<noteq> p" if "2 \<le> dots u" for u using p that by auto
  have tmp: "u \<noteq> p \<and> d_now d u = Some f" if "k_tmp k = Some (u, f)" for u f
    using kn that ne by (auto simp: knows_def)
  show ?thesis
  proof (cases op)
    case (Rename u q)
    then obtain f where f: "k_tmp k = Some (u, f)" "f_synced f" "worthy (k_held k) q (f_content f)"
      using t by (auto split: option.splits prod.splits if_splits)
    then show ?thesis using tmp [OF f(1)] Rename by (cases "q = p") auto
  next
    case (CreateFile u)
    then have "u \<noteq> p" using t ne by (simp split: if_splits)
    then show ?thesis using CreateFile by simp
  next
    case (WriteAll u bs)
    then obtain f where "k_tmp k = Some (u, f)" using t by (auto split: option.splits if_splits)
    from tmp [OF this] have "u \<noteq> p" by simp
    then show ?thesis using WriteAll by simp
  next
    case (SyncFile u)
    then obtain f where "k_tmp k = Some (u, f)" using t by (auto split: option.splits if_splits)
    from tmp [OF this] have "u \<noteq> p" by simp
    then show ?thesis using SyncFile by simp
  next
    case (RemoveFile u)
    then have "u \<noteq> p" using t ne by (simp split: if_splits)
    then show ?thesis using RemoveFile by simp
  next
    case (SyncDir q)
    then show ?thesis using now_entry [of d p] by simp
  qed simp
qed

lemma track1_now:
  assumes "track1 k op = Some k'" and "knows d k" and "dots p \<le> 1" and "d_now d p \<noteq> None"
  shows "d_now (apply_op op d) p \<noteq> None"
  using track1_final [OF assms(1-3)] assms(4) by auto

text \<open>A safe call never takes a final name away.\<close>

lemma track1_held:
  assumes "track1 k op = Some k'" and "knows d k"
  shows "held d \<subseteq> held (apply_op op d)"
  using track1_final [OF assms] by (fastforce simp: held_def)

lemma disk_ok_step:
  assumes ok: "disk_ok d" and t: "track1 k op = Some k'" and kn: "knows d k"
  shows "disk_ok (apply_op op d)"
  unfolding disk_ok_def
proof (intro allI impI)
  fix p f assume p: "dots p \<le> 1" and f: "Some f \<in> entries (apply_op op d) p"
  have mono: "worthy H p (f_content g) \<Longrightarrow> H \<subseteq> held d \<Longrightarrow> worthy (held (apply_op op d)) p (f_content g)" for H g
    using worthy_mono track1_held [OF t kn] by blast
  have old: "f_synced g \<and> worthy (held d) p (f_content g)" if "Some g \<in> entries d p" for g
    using ok that p unfolding disk_ok_def by blast
  have kh: "k_held k \<subseteq> held d" using kn by (simp add: knows_def)
  consider "Some f \<in> entries d p" | "f_synced f" "worthy (k_held k) p (f_content f)"
    using track1_final [OF t kn p] f by auto
  then show "f_synced f \<and> worthy (held (apply_op op d)) p (f_content f)"
    by cases (simp_all add: old mono [OF _ subset_refl] mono [OF _ kh])
qed

lemma knows_step:
  assumes t: "track1 k op = Some k'" and kn: "knows d k"
  shows "knows (apply_op op d) k'"
proof -
  have stay: "k_held k \<subseteq> held (apply_op op d)"
    using track1_held [OF t kn] kn by (auto simp: knows_def)
  have there: "\<forall>p \<in> k_there k. dots p \<le> 1 \<and> d_now (apply_op op d) p \<noteq> None"
    using track1_now [OF t kn] kn by (auto simp: knows_def)
  have tmp: "d_now d u = Some f \<and> 2 \<le> dots u" if "k_tmp k = Some (u, f)" for u f
    using kn that by (auto simp: knows_def)
  show ?thesis
  proof (cases op)
    case (SyncDir q)
    have "{p \<in> k_there k. dir_of p = q} \<subseteq> held (apply_op op d)"
      using kn SyncDir by (auto simp: knows_def held_def)
    then show ?thesis using t stay there tmp SyncDir by (auto simp: knows_def)
  qed (use t stay there tmp in \<open>auto simp: knows_def split: option.splits prod.splits if_splits\<close>)
qed

text \<open>Another writer's safe call changes nothing a writer knows, when it is not about its temporary file.\<close>

lemma knows_other:
  assumes t: "track1 k op = Some k'" and kn: "knows d k" and j: "knows d j"
    and own: "\<And>u f. k_tmp j = Some (u, f) \<Longrightarrow> u \<notin> temps_of op"
  shows "knows (apply_op op d) j"
proof -
  have stay: "k_held j \<subseteq> held (apply_op op d)"
    using track1_held [OF t kn] j by (auto simp: knows_def)
  have there: "\<forall>p \<in> k_there j. dots p \<le> 1 \<and> d_now (apply_op op d) p \<noteq> None"
    using track1_now [OF t kn] j by (auto simp: knows_def)
  have tmp: "d_now (apply_op op d) u = Some f \<and> 2 \<le> dots u" if u: "k_tmp j = Some (u, f)" for u f
  proof -
    have "d_now d u = Some f" "2 \<le> dots u" using j u by (auto simp: knows_def)
    then show ?thesis using own [OF u] t
      by (cases op) (auto split: option.splits prod.splits if_splits)
  qed
  show ?thesis using stay there tmp by (auto simp: knows_def)
qed

text \<open>
  A power loss keeps the disk sound when it takes no folder the rule looks into: what a lost folder
  held is gone, and what is left may not point there.
\<close>

lemma power_loss_ok:
  assumes ok: "disk_ok d"
    and homes: "\<And>H p c. worthy H p c \<Longrightarrow> worthy {q \<in> H. \<not> folder_lost choice d (dir_of q)} p c"
  shows "disk_ok (power_loss choice d)"
proof -
  let ?d = "power_loss choice d" and ?lost = "\<lambda>p. folder_lost choice d (dir_of p)"
  have now: "d_now ?d p \<in> entries d p" if "dots p \<le> 1" "\<not> ?lost p" for p
    using ok that by (intro power_loss_synced) (auto simp: disk_ok_def)
  have one: "entries ?d p = {d_now ?d p}" for p
    by (simp add: entries_def power_loss_def)
  have stay: "{q \<in> held d. \<not> ?lost q} \<subseteq> held ?d"
    using now one by (auto simp: held_def) (metis now)
  show ?thesis
    unfolding disk_ok_def
  proof (intro allI impI)
    fix p f assume p: "dots p \<le> 1" and f: "Some f \<in> entries ?d p"
    then have f': "d_now ?d p = Some f" by (simp add: one)
    then have "\<not> ?lost p" using power_loss_lost by fastforce
    with now [OF p] f' have "f_synced f \<and> worthy (held d) p (f_content f)"
      using ok p by (auto simp: disk_ok_def)
    then show "f_synced f \<and> worthy (held ?d) p (f_content f)"
      using homes worthy_mono [OF _ stay] by blast
  qed
qed

text \<open>A temporary file the remaining calls are not about may be forgotten.\<close>

definition forget :: "know \<Rightarrow> know" where
  "forget k = k\<lparr>k_tmp := None\<rparr>"

lemma knows_forget: "knows d k \<Longrightarrow> knows d (forget k)"
  by (simp add: knows_def forget_def)

lemma track_forget:
  assumes "track k ops = Some k'" and "\<And>t f. k_tmp k = Some (t, f) \<Longrightarrow> t \<notin> temps ops"
  shows "\<exists>k''. track (forget k) ops = Some k'' \<and> k_held k'' = k_held k'"
  using assms
proof (induction ops arbitrary: k)
  case Nil
  then show ?case by (simp add: forget_def)
next
  case (Cons op ops)
  then obtain k1 where k1: "track1 k op = Some k1" "track k1 ops = Some k'"
    by (auto split: Option.bind_splits)
  show ?case
  proof (cases "\<exists>t. op = CreateFile t")
    case True
    then have "track1 (forget k) op = Some k1" using k1(1) by (auto simp: forget_def split: if_splits)
    then show ?thesis using k1(2) by simp
  next
    case False
    have f: "track1 (forget k) op = Some (forget k1)"
      using k1(1) Cons.prems(2) False
      by (cases op) (auto simp: forget_def split: option.splits if_splits)
    have "t \<notin> temps ops" if "k_tmp k1 = Some (t, f)" for t f
      using k1(1) Cons.prems(2) False that
      by (cases op) (auto split: option.splits if_splits)
    from Cons.IH [OF k1(2) this] show ?thesis using f by simp
  qed
qed

text \<open>
  One call of a writer: the disk stays sound, the writer goes on knowing what it needs for the
  rest of its calls, and so does every writer that works on another temporary file.
\<close>

lemma track_call:
  assumes ok: "disk_ok d" and kn: "knows d k" and t: "track k (op # ops) = Some k'"
    and tmp: "\<And>t f. k_tmp k = Some (t, f) \<Longrightarrow> t \<in> temps (op # ops)"
  shows "disk_ok (apply_op op d) \<and>
    (\<exists>j j'. knows (apply_op op d) j \<and> track j ops = Some j' \<and> k_held j' = k_held k' \<and>
       (\<forall>t f. k_tmp j = Some (t, f) \<longrightarrow> t \<in> temps ops))"
proof -
  from t obtain k1 where k1: "track1 k op = Some k1" "track k1 ops = Some k'"
    by (auto split: Option.bind_splits)
  have kn1: "knows (apply_op op d) k1" by (rule knows_step [OF k1(1) kn])
  have "\<exists>j j'. knows (apply_op op d) j \<and> track j ops = Some j' \<and> k_held j' = k_held k' \<and>
       (\<forall>t f. k_tmp j = Some (t, f) \<longrightarrow> t \<in> temps ops)"
  proof (cases "\<exists>t f. k_tmp k1 = Some (t, f) \<and> t \<notin> temps ops")
    case True
    then obtain k'' where "track (forget k1) ops = Some k''" "k_held k'' = k_held k'"
      using track_forget [OF k1(2)] by auto
    then show ?thesis using knows_forget [OF kn1] by (auto simp: forget_def)
  next
    case False
    then show ?thesis using kn1 k1(2) by blast
  qed
  then show ?thesis using disk_ok_step [OF ok k1(1) kn] by blast
qed

lemma track_call_other:
  assumes kn: "knows d k" and t: "track k (op # ops) = Some k'" and j: "knows d j"
    and "\<And>u f. k_tmp j = Some (u, f) \<Longrightarrow> u \<notin> temps (op # ops)"
  shows "knows (apply_op op d) j"
proof -
  from t obtain k1 where k1: "track1 k op = Some k1" by (auto split: Option.bind_splits)
  show ?thesis by (rule knows_other [OF k1 kn j]) (use assms(4) in auto)
qed

text \<open>\<open>write_atomic_via\<close> is safe when the rule accepts what it writes, whichever call fails.\<close>

lemma track_write:
  assumes "write_atomic_via flt tmp p data = (ops, r)"
    and "2 \<le> dots tmp" and "dots p \<le> 1" and "worthy (k_held k) p data"
  shows "\<exists>k'. track k ops = Some k' \<and> k_held k \<subseteq> k_held k' \<and> (r = Inr () \<longrightarrow> p \<in> k_held k') \<and>
    (\<forall>t f. k_tmp k' = Some (t, f) \<longrightarrow> t = tmp \<or> k_tmp k = Some (t, f))"
proof (cases flt)
  case Works
  then show ?thesis using assms by (auto simp: write_atomic_via_def)
next
  case (Breaks st e b)
  then show ?thesis using assms
    by (cases st; cases b) (auto simp: write_atomic_via_def cleanup_def)
qed

end

lemma write_temps: "write_atomic_via flt tmp p data = (ops, r) \<Longrightarrow> temps ops \<subseteq> {tmp}"
proof (cases flt)
  case Works
  then show "write_atomic_via flt tmp p data = (ops, r) \<Longrightarrow> temps ops \<subseteq> {tmp}"
    by (auto simp: write_atomic_via_def)
next
  case (Breaks st e b)
  then show "write_atomic_via flt tmp p data = (ops, r) \<Longrightarrow> temps ops \<subseteq> {tmp}"
    by (cases st; cases b) (auto simp: write_atomic_via_def cleanup_def)
qed

end
