(* ===== verification/WriteQueue.thy ===== *)
theory WriteQueue
  imports Staging Vouch
begin

text \<open>
  The write queue (\<open>crates/libs/staging/src/write_queue.rs\<close>, the JSON Lines writer of
  \<open>crates/libs/ir-format/src/write.rs\<close>): units, one unit's work, the drain with one writer as a
  function, and the pool of writer threads as a step relation in which every system call, every
  check of a flag and every change of the shared state is a step of its own. The log output is left
  out, and so is the media pass that runs after a drain; the progress totals are those of the drain
  with one writer. serde\_json, SHA-256,
  chrono, the reading of a source file and the free space of the disk are parameters.
\<close>

section \<open>Units\<close>

datatype attachment_source = SrcPath path | SrcBytes "u8 list" | Missing

definition take_attachment_bytes :: "ir_attachment \<Rightarrow> ir_attachment \<times> attachment_source \<times> u64 option" where
  "take_attachment_bytes att =
     (let hint = attachment_size_hint att
      in case att_bytes att of
           Some bytes \<Rightarrow> (att\<lparr>att_bytes := None\<rparr>, SrcBytes bytes, hint)
         | None \<Rightarrow> (att, Missing, hint))"

record unit_attachment =
  ua_message_index :: nat
  ua_attachment_index :: nat
  ua_source :: attachment_source
  ua_timestamp_unix_ms :: int
  ua_size_hint :: "u64 option"

record 'x conversation_unit =
  unit_doc :: "'x conversation_document"
  unit_attachments :: "unit_attachment list"

type_synonym source_hook = "nat \<Rightarrow> ir_attachment \<Rightarrow> ir_attachment \<times> attachment_source \<times> u64 option"

fun from_attachments ::
  "source_hook \<Rightarrow> nat \<Rightarrow> nat \<Rightarrow> nat \<Rightarrow> int \<Rightarrow> ir_attachment list \<Rightarrow> ir_attachment list \<times> unit_attachment list" where
  "from_attachments source_for flat mi ai ts [] = ([], [])"
| "from_attachments source_for flat mi ai ts (att # atts) =
     (let (att', source, hint) = source_for flat att;
          hint = (if source = Missing then None else hint);
          (atts', uas) = from_attachments source_for (flat + 1) mi (ai + 1) ts atts
      in (att' # atts',
          \<lparr>ua_message_index = mi, ua_attachment_index = ai, ua_source = source,
           ua_timestamp_unix_ms = ts, ua_size_hint = hint\<rparr> # uas))"

fun from_messages ::
  "source_hook \<Rightarrow> nat \<Rightarrow> nat \<Rightarrow> 'x ir_message list \<Rightarrow> 'x ir_message list \<times> unit_attachment list" where
  "from_messages source_for flat mi [] = ([], [])"
| "from_messages source_for flat mi (msg # msgs) =
     (let (atts, uas) = from_attachments source_for flat mi 0 (msg_timestamp_unix_ms msg) (msg_attachments msg);
          (msgs', uas') = from_messages source_for (flat + length uas) (mi + 1) msgs
      in (msg\<lparr>msg_attachments := atts\<rparr> # msgs', uas @ uas'))"

definition from_doc :: "'x conversation_document \<Rightarrow> source_hook \<Rightarrow> 'x conversation_unit" where
  "from_doc doc source_for =
     (let (msgs, uas) = from_messages source_for 0 0 (doc_messages doc)
      in \<lparr>unit_doc = doc\<lparr>doc_messages := msgs\<rparr>, unit_attachments = uas\<rparr>)"

record write_queue_options =
  wq_media :: media_mode
  wq_resume :: bool
  wq_writer_count :: nat

record write_queue_report =
  conversations_written :: nat
  conversations_skipped :: nat
  attachments_saved :: nat

text \<open>\<open>read_file\<close> is \<open>fs::read\<close> of a file of the backup.\<close>

definition load_attachment_source :: "(path \<Rightarrow> string + u8 list) \<Rightarrow> attachment_source \<Rightarrow> string + u8 list option" where
  "load_attachment_source read_file source =
     (case source of
        SrcPath p \<Rightarrow> map_err (\<lambda>e. ''read '' @ p @ '': '' @ e) (map_res Some (read_file p))
      | SrcBytes bytes \<Rightarrow> Inr (Some bytes)
      | Missing \<Rightarrow> Inr None)"

section \<open>The headroom check\<close>

definition DISK_HEADROOM_SLACK :: u64 where "DISK_HEADROOM_SLACK = 64 * 1024 * 1024"

definition saturating_add :: "u64 \<Rightarrow> u64 \<Rightarrow> u64" where
  "saturating_add a b = (if unat a + unat b < 2 ^ 64 then a + b else - 1)"

definition headroom_shortfall :: "(u64 \<Rightarrow> string) \<Rightarrow> u64 \<Rightarrow> u64 \<Rightarrow> string option" where
  "headroom_shortfall format_bytes needed available =
     (let required = saturating_add needed DISK_HEADROOM_SLACK
      in if required \<le> available then None
         else Some (''Not enough space on the staging disk: this backup needs about '' @ format_bytes required @
           '', and '' @ format_bytes available @ '' is free.''))"

definition attachment_hints :: "unit_attachment list \<Rightarrow> u64" where
  "attachment_hints uas = sum_list (List.map_filter ua_size_hint uas)"

definition unit_hints :: "'x conversation_unit list \<Rightarrow> u64" where
  "unit_hints units = attachment_hints (concat (map unit_attachments units))"

definition check_headroom ::
  "(u64 \<Rightarrow> string) \<Rightarrow> u64 option \<Rightarrow> 'x conversation_unit list \<Rightarrow> media_mode \<Rightarrow> string + unit" where
  "check_headroom format_bytes available units media =
     (if media = Disabled then Inr ()
      else
        (case available of
           None \<Rightarrow> Inr ()
         | Some free \<Rightarrow>
             (case headroom_shortfall format_bytes (unit_hints units) free of
                Some message \<Rightarrow> Inl message
              | None \<Rightarrow> Inr ())))"

section \<open>The conversation file\<close>

record 'x tools =
  t_sha :: "u8 list \<Rightarrow> u8 list"
  t_lower :: "string \<Rightarrow> string"
  t_utc :: "int \<Rightarrow> string option"
  t_header_json :: "conversation_header \<Rightarrow> u8 list"
  t_message_json :: "'x ir_message \<Rightarrow> u8 list"
  t_format_bytes :: "u64 \<Rightarrow> string"

definition jsonl :: "'x tools \<Rightarrow> 'x conversation_document \<Rightarrow> u8 list" where
  "jsonl P doc =
     t_header_json P (from_document doc) @ [10] @
     concat (map (\<lambda>msg. t_message_json P msg @ [10]) (doc_messages doc))"

definition unit_path :: "'x tools \<Rightarrow> 'x conversation_document \<Rightarrow> path" where
  "unit_path P doc = filename_stem (t_sha P) doc @ ''.jsonl''"

definition write_conversation_jsonl ::
  "'x tools \<Rightarrow> fault \<Rightarrow> 'x conversation_document \<Rightarrow> fs_op list \<times> (string + unit)" where
  "write_conversation_jsonl P flt doc = write_atomic flt (unit_path P doc) (jsonl P doc)"

definition write_format_jsonl ::
  "'x tools \<Rightarrow> fault \<Rightarrow> 'x conversation_document \<Rightarrow> fs_op list \<times> (string + unit)" where
  "write_format_jsonl P flt doc = write_conversation_jsonl P flt (finalize_stats doc)"

section \<open>One unit\<close>

text \<open>The jobs of a unit, each with its source: the slot pinned to its place, or nothing to read.\<close>

definition slot_of :: "unit_attachment list \<Rightarrow> nat \<Rightarrow> nat \<Rightarrow> unit_attachment option" where
  "slot_of uas mi ai =
     map_of (rev (map (\<lambda>a. ((ua_message_index a, ua_attachment_index a), a)) uas)) (mi, ai)"

definition unit_job ::
  "unit_attachment list \<Rightarrow> nat \<Rightarrow> int \<Rightarrow> nat \<Rightarrow> ir_attachment \<Rightarrow> attachment_source \<times> attachment_job" where
  "unit_job uas mi fallback_ts ai att =
     (let (source, hint, ts) =
            (case slot_of uas mi ai of
               Some a \<Rightarrow> (ua_source a, ua_size_hint a, ua_timestamp_unix_ms a)
             | None \<Rightarrow> (Missing, None, fallback_ts))
      in (source, \<lparr>job_attachment = att, job_timestamp_unix_ms = ts, job_size_hint = hint\<rparr>))"

definition unit_jobs :: "'x conversation_unit \<Rightarrow> (attachment_source \<times> attachment_job) list" where
  "unit_jobs u =
     concat (map (\<lambda>(mi, msg).
         map (\<lambda>(ai, att). unit_job (unit_attachments u) mi (msg_timestamp_unix_ms msg) ai att)
           (enumerate 0 (msg_attachments msg)))
       (enumerate 0 (doc_messages (unit_doc u))))"

definition stage_mode :: "media_mode \<Rightarrow> media_mode" where
  "stage_mode media = (if media = Disabled then Disabled else Clone)"

definition saved_count :: "attachment_job list \<Rightarrow> nat" where
  "saved_count jobs =
     length (filter (\<lambda>j. att_path (job_attachment j) \<noteq> None \<and> att_digest_sha256 (job_attachment j) \<noteq> None) jobs)"

text \<open>The document after the jobs: without paths when media is off, without bytes in memory.\<close>

definition drop_all_bytes :: "'x conversation_document \<Rightarrow> 'x conversation_document" where
  "drop_all_bytes doc =
     doc\<lparr>doc_messages := map (\<lambda>msg. msg\<lparr>msg_attachments := map drop_bytes (msg_attachments msg)\<rparr>) (doc_messages doc)\<rparr>"

definition staged_doc ::
  "media_mode \<Rightarrow> 'x conversation_document \<Rightarrow> attachment_job list \<Rightarrow> 'x conversation_document" where
  "staged_doc media doc jobs =
     drop_all_bytes
       (clear_attachments_when_disabled media
         (doc\<lparr>doc_messages := put_attachments (doc_messages doc) (map job_attachment jobs)\<rparr>))"

record unit_surroundings =
  us_cancelled :: bool
  us_cancel :: "nat \<Rightarrow> bool"
  us_fault :: "nat \<Rightarrow> fault"
  us_dir :: "string option"
  us_write :: fault

definition job_surroundings ::
  "(attachment_source \<Rightarrow> string + u8 list option) \<Rightarrow> unit_surroundings \<Rightarrow> attachment_source list \<Rightarrow> surroundings" where
  "job_surroundings load us sources =
     \<lparr>env_cancel = us_cancel us,
      env_load = (\<lambda>i. case nth_opt sources i of Some source \<Rightarrow> load source | None \<Rightarrow> Inr None),
      env_fault = us_fault us, env_dir = us_dir us\<rparr>"

text \<open>
  What each report of the jobs changed: the jobs give the unit's running totals, the drain wants
  the difference to the report before. \<open>signed\<close> is \<open>i64::try_from\<close> with its cap.
\<close>

record unit_progress =
  up_done :: nat
  up_bytes_done :: u64
  up_bytes_total_change :: int

definition signed :: "u64 \<Rightarrow> int" where
  "signed bytes = min (uint bytes) (2 ^ 63 - 1)"

fun progress_changes :: "u64 \<Rightarrow> nat \<Rightarrow> u64 \<Rightarrow> int \<Rightarrow> attachment_progress list \<Rightarrow> unit_progress list" where
  "progress_changes hints_total reported_done bytes_done change [] = []"
| "progress_changes hints_total reported_done bytes_done change (p # ps) =
     (let total_change = signed (ap_bytes_total p) - signed hints_total
      in \<lparr>up_done = ap_done p - reported_done,
          up_bytes_done = saturating_sub (ap_bytes_done p) bytes_done,
          up_bytes_total_change = total_change - change\<rparr> #
         progress_changes hints_total (ap_done p) (ap_bytes_done p) total_change ps)"

definition write_one_unit ::
  "'x tools \<Rightarrow> write_queue_options \<Rightarrow> (attachment_source \<Rightarrow> string + u8 list option) \<Rightarrow> unit_surroundings \<Rightarrow>
   nat \<Rightarrow> disk \<Rightarrow> 'x conversation_unit \<Rightarrow>
   fs_op list \<times> unit_progress list \<times> (string + bool \<times> nat \<times> nat)" where
  "write_one_unit P opts load us seq d u =
     (if us_cancelled us then ([], [], Inl ''cancelled'')
      else
        (let p = unit_path P (unit_doc u);
             hints_total = attachment_hints (unit_attachments u)
         in if wq_resume opts \<and> is_complete_file d p then
              ([], [\<lparr>up_done = length (unit_attachments u), up_bytes_done = hints_total, up_bytes_total_change = 0\<rparr>],
               Inr (False, 0, seq))
            else
              (let jobs = unit_jobs u
               in case run_attachment_jobs (t_sha P) (t_utc P) Inr (job_surroundings load us (map fst jobs))
                         (stage_mode (wq_media opts)) seq (map snd jobs) of
                    (ops, ps, Inl e) \<Rightarrow> (ops, progress_changes hints_total 0 0 0 ps, Inl e)
                  | (ops, ps, Inr (jobs', seq')) \<Rightarrow>
                      (case write_format_jsonl P (us_write us) (staged_doc (wq_media opts) (unit_doc u) jobs') of
                         (ops', Inl e) \<Rightarrow>
                           (ops @ ops', progress_changes hints_total 0 0 0 ps, Inl (''write '' @ p @ '': '' @ e))
                       | (ops', Inr _) \<Rightarrow>
                           (ops @ ops', progress_changes hints_total 0 0 0 ps,
                            Inr (True, saved_count jobs', seq'))))))"

section \<open>One writer\<close>

definition give_each_unit_its_own_file ::
  "'x tools \<Rightarrow> 'x conversation_unit list \<Rightarrow> string + 'x conversation_unit list" where
  "give_each_unit_its_own_file P units =
     map_res (\<lambda>docs. map2 (\<lambda>u doc. u\<lparr>unit_doc := doc\<rparr>) units docs)
       (give_each_document_its_own_file (t_lower P) (t_sha P) (map unit_doc units))"

definition count_unit :: "bool \<Rightarrow> nat \<Rightarrow> write_queue_report \<Rightarrow> write_queue_report" where
  "count_unit written saved r =
     r\<lparr>attachments_saved := attachments_saved r + saved,
       conversations_written := conversations_written r + (if written then 1 else 0),
       conversations_skipped := conversations_skipped r + (if written then 0 else 1)\<rparr>"

definition empty_report :: write_queue_report where
  "empty_report = \<lparr>conversations_written = 0, conversations_skipped = 0, attachments_saved = 0\<rparr>"

text \<open>The drain's running totals, and what a report of a unit adds to them.\<close>

definition saturating_add_signed :: "u64 \<Rightarrow> int \<Rightarrow> u64" where
  "saturating_add_signed a n = word_of_int (max 0 (min (2 ^ 64 - 1) (uint a + n)))"

definition add_progress :: "unit_progress \<Rightarrow> attachment_progress \<Rightarrow> attachment_progress" where
  "add_progress p t =
     t\<lparr>ap_done := ap_done t + up_done p,
       ap_bytes_done := ap_bytes_done t + up_bytes_done p,
       ap_bytes_total := saturating_add_signed (ap_bytes_total t) (up_bytes_total_change p)\<rparr>"

definition start_progress :: "'x conversation_unit list \<Rightarrow> attachment_progress" where
  "start_progress units =
     \<lparr>ap_done = 0, ap_total = sum_list (map (length \<circ> unit_attachments) units), ap_bytes_done = 0,
      ap_bytes_total = unit_hints units\<rparr>"

record drain_state =
  ds_disk :: disk
  ds_seq :: nat
  ds_report :: write_queue_report
  ds_progress :: attachment_progress

fun drain_loop ::
  "'x tools \<Rightarrow> write_queue_options \<Rightarrow> (attachment_source \<Rightarrow> string + u8 list option) \<Rightarrow>
   (nat \<Rightarrow> unit_surroundings) \<Rightarrow> nat \<Rightarrow> drain_state \<Rightarrow> 'x conversation_unit list \<Rightarrow>
   drain_state \<times> (string + unit)" where
  "drain_loop P opts load env i ds [] = (ds, Inr ())"
| "drain_loop P opts load env i ds (u # units) =
     (case write_one_unit P opts load (env i) (ds_seq ds) (ds_disk ds) u of
        (ops, ps, Inl e) \<Rightarrow>
          (ds\<lparr>ds_disk := run_ops ops (ds_disk ds), ds_progress := fold add_progress ps (ds_progress ds)\<rparr>, Inl e)
      | (ops, ps, Inr (written, saved, seq')) \<Rightarrow>
          drain_loop P opts load env (i + 1)
            \<lparr>ds_disk = run_ops ops (ds_disk ds), ds_seq = seq',
             ds_report = count_unit written saved (ds_report ds),
             ds_progress = fold add_progress ps (ds_progress ds)\<rparr> units)"

text \<open>\<open>media_post_pass\<close> is \<open>transcode_staged\<close>, which runs external programs on the staged files.\<close>

definition drain_write_queue_with_loader ::
  "'x tools \<Rightarrow> write_queue_options \<Rightarrow> (attachment_source \<Rightarrow> string + u8 list option) \<Rightarrow>
   (nat \<Rightarrow> unit_surroundings) \<Rightarrow> u64 option \<Rightarrow> (disk \<Rightarrow> disk \<times> (string + unit)) \<Rightarrow> disk \<Rightarrow>
   'x conversation_unit list \<Rightarrow> disk \<times> (string + write_queue_report)" where
  "drain_write_queue_with_loader P opts load env available media_post_pass d units =
     (case give_each_unit_its_own_file P units of
        Inl e \<Rightarrow> (d, Inl e)
      | Inr units \<Rightarrow>
          (case check_headroom (t_format_bytes P) available units (wq_media opts) of
             Inl e \<Rightarrow> (d, Inl e)
           | Inr _ \<Rightarrow>
               (case drain_loop P opts load env 0
                       \<lparr>ds_disk = d, ds_seq = 0, ds_report = empty_report, ds_progress = start_progress units\<rparr> units of
                  (ds, Inl e) \<Rightarrow> (ds_disk ds, Inl e)
                | (ds, Inr _) \<Rightarrow>
                    if wq_media opts = Convert \<or> wq_media opts = Compress
                    then (let (d', m) = media_post_pass (ds_disk ds) in (d', map_res (\<lambda>_. ds_report ds) m))
                    else (ds_disk ds, Inr (ds_report ds)))))"

section \<open>The pool of writers\<close>

definition default_writer_count :: "nat option \<Rightarrow> nat" where
  "default_writer_count available_parallelism =
     (case available_parallelism of None \<Rightarrow> 1 | Some n \<Rightarrow> max 1 (min n 8))"

definition writer_count :: "write_queue_options \<Rightarrow> nat option \<Rightarrow> nat \<Rightarrow> nat" where
  "writer_count opts available_parallelism unit_count =
     min (if wq_writer_count opts = 0 then default_writer_count available_parallelism else wq_writer_count opts)
       (max unit_count 1)"

text \<open>
  Where a thread is: at the head of its loop, past the check of the abort flag, at the start of a
  unit, in the middle of one with the system calls it still has to make, or gone. After those calls
  it goes on with the next job, or it finishes the unit with its outcome.
\<close>

datatype after_calls =
  Stage "(attachment_source \<times> attachment_job) list" "attachment_job list"
| Finish "string + bool \<times> nat"

datatype 'x worker =
  Ready
| Popping
| Begin "'x conversation_unit"
| Busy "'x conversation_document" "fs_op list" "after_calls"
| Stopped

record 'x pool =
  pl_disk :: disk
  pl_queue :: "'x conversation_unit list"
  pl_abort :: bool
  pl_error :: "string option"
  pl_seq :: nat
  pl_report :: write_queue_report
  pl_workers :: "'x worker list"

text \<open>What the surroundings may do to a run: which writes fail, whether it may be cancelled, whether the folder can fail.\<close>

record weather =
  w_fault :: "fault \<Rightarrow> bool"
  w_cancel :: bool
  w_dir_fails :: bool

definition set_worker :: "nat \<Rightarrow> 'x worker \<Rightarrow> 'x pool \<Rightarrow> 'x pool" where
  "set_worker i wk s = s\<lparr>pl_workers := (pl_workers s)[i := wk]\<rparr>"

definition at :: "'x pool \<Rightarrow> nat \<Rightarrow> 'x worker \<Rightarrow> bool" where
  "at s i wk \<longleftrightarrow> i < length (pl_workers s) \<and> pl_workers s ! i = wk"

definition job_seq :: "nat \<Rightarrow> job_totals" where
  "job_seq seq = \<lparr>jt_seq = seq, jt_bytes_done = 0, jt_bytes_total = 0\<rparr>"

inductive pool_step ::
  "'x tools \<Rightarrow> write_queue_options \<Rightarrow> (path \<Rightarrow> string + u8 list) \<Rightarrow> weather \<Rightarrow> 'x pool \<Rightarrow> 'x pool \<Rightarrow> bool"
  for P opts read_file w where
  aborted: "at s i Ready \<Longrightarrow> pl_abort s \<Longrightarrow>
     pool_step P opts read_file w s (set_worker i Stopped s)"
| not_aborted: "at s i Ready \<Longrightarrow> \<not> pl_abort s \<Longrightarrow>
     pool_step P opts read_file w s (set_worker i Popping s)"
| empty_queue: "at s i Popping \<Longrightarrow> pl_queue s = [] \<Longrightarrow>
     pool_step P opts read_file w s (set_worker i Stopped s)"
| pop: "at s i Popping \<Longrightarrow> pl_queue s = u # us \<Longrightarrow>
     pool_step P opts read_file w s (set_worker i (Begin u) (s\<lparr>pl_queue := us\<rparr>))"
| cancelled_unit: "at s i (Begin u) \<Longrightarrow> w_cancel w \<Longrightarrow>
     pool_step P opts read_file w s (set_worker i (Busy (unit_doc u) [] (Finish (Inl ''cancelled''))) s)"
| already_written: "at s i (Begin u) \<Longrightarrow> wq_resume opts \<Longrightarrow>
     is_complete_file (pl_disk s) (unit_path P (unit_doc u)) \<Longrightarrow>
     pool_step P opts read_file w s (set_worker i (Busy (unit_doc u) [] (Finish (Inr (False, 0)))) s)"
| media_off: "at s i (Begin u) \<Longrightarrow>
     \<not> (wq_resume opts \<and> is_complete_file (pl_disk s) (unit_path P (unit_doc u))) \<Longrightarrow>
     wq_media opts = Disabled \<or> unit_jobs u = [] \<Longrightarrow>
     pool_step P opts read_file w s
       (set_worker i (Busy (unit_doc u) [] (Stage [] (map (mark_missing ''not_copied'' \<circ> snd) (unit_jobs u)))) s)"
| no_folder: "at s i (Begin u) \<Longrightarrow>
     \<not> (wq_resume opts \<and> is_complete_file (pl_disk s) (unit_path P (unit_doc u))) \<Longrightarrow>
     wq_media opts \<noteq> Disabled \<Longrightarrow> unit_jobs u \<noteq> [] \<Longrightarrow> w_dir_fails w \<Longrightarrow>
     pool_step P opts read_file w s (set_worker i (Busy (unit_doc u) [] (Finish (Inl e))) s)"
| folder: "at s i (Begin u) \<Longrightarrow>
     \<not> (wq_resume opts \<and> is_complete_file (pl_disk s) (unit_path P (unit_doc u))) \<Longrightarrow>
     wq_media opts \<noteq> Disabled \<Longrightarrow> unit_jobs u \<noteq> [] \<Longrightarrow>
     pool_step P opts read_file w s
       (set_worker i (Busy (unit_doc u) [CreateDirAll ''attachments/''] (Stage (unit_jobs u) [])) s)"
| call: "at s i (Busy doc (op # ops) nx) \<Longrightarrow>
     pool_step P opts read_file w s (set_worker i (Busy doc ops nx) (s\<lparr>pl_disk := apply_op op (pl_disk s)\<rparr>))"
| cancelled_job: "at s i (Busy doc [] (Stage (job # todo) finished)) \<Longrightarrow> w_cancel w \<Longrightarrow>
     pool_step P opts read_file w s (set_worker i (Busy doc [] (Finish (Inl ''cancelled''))) s)"
| job: "at s i (Busy doc [] (Stage ((source, job) # todo) finished)) \<Longrightarrow> w_fault w flt \<Longrightarrow>
     stage_one (t_sha P) (t_utc P) flt (load_attachment_source read_file source) (job_seq (pl_seq s)) job =
       (ops, Inr (job', t)) \<Longrightarrow>
     pool_step P opts read_file w s
       (set_worker i (Busy doc ops (Stage todo (finished @ [job']))) (s\<lparr>pl_seq := jt_seq t\<rparr>))"
| job_error: "at s i (Busy doc [] (Stage ((source, job) # todo) finished)) \<Longrightarrow> w_fault w flt \<Longrightarrow>
     stage_one (t_sha P) (t_utc P) flt (load_attachment_source read_file source) (job_seq (pl_seq s)) job =
       (ops, Inl e) \<Longrightarrow>
     pool_step P opts read_file w s (set_worker i (Busy doc ops (Finish (Inl e))) s)"
| save: "at s i (Busy doc [] (Stage [] finished)) \<Longrightarrow> w_fault w flt \<Longrightarrow>
     write_format_jsonl P flt (staged_doc (wq_media opts) doc finished) = (ops, r) \<Longrightarrow>
     pool_step P opts read_file w s
       (set_worker i
         (Busy doc ops
           (Finish (map_err (\<lambda>e. ''write '' @ unit_path P doc @ '': '' @ e)
              (map_res (\<lambda>_. (True, saved_count finished)) r)))) s)"
| unit_done: "at s i (Busy doc [] (Finish (Inr (written, saved)))) \<Longrightarrow>
     pool_step P opts read_file w s
       (set_worker i Ready (s\<lparr>pl_report := count_unit written saved (pl_report s)\<rparr>))"
| unit_failed: "at s i (Busy doc [] (Finish (Inl e))) \<Longrightarrow>
     pool_step P opts read_file w s
       (set_worker i Stopped
         (s\<lparr>pl_abort := True, pl_error := (case pl_error s of None \<Rightarrow> Some e | Some e' \<Rightarrow> Some e')\<rparr>))"

definition pool_start :: "nat \<Rightarrow> disk \<Rightarrow> 'x conversation_unit list \<Rightarrow> 'x pool" where
  "pool_start n d units =
     \<lparr>pl_disk = d, pl_queue = units, pl_abort = False, pl_error = None, pl_seq = 0,
      pl_report = empty_report, pl_workers = replicate n Ready\<rparr>"

inductive pool_run ::
  "'x tools \<Rightarrow> write_queue_options \<Rightarrow> (path \<Rightarrow> string + u8 list) \<Rightarrow> weather \<Rightarrow> 'x pool \<Rightarrow> 'x pool \<Rightarrow> bool"
  for P opts read_file w s0 where
  start: "pool_run P opts read_file w s0 s0"
| step: "pool_run P opts read_file w s0 s \<Longrightarrow> pool_step P opts read_file w s t \<Longrightarrow> pool_run P opts read_file w s0 t"

end
