(* ===== verification/WriteQueueProps.thy ===== *)
theory WriteQueueProps
  imports WriteQueue
begin

text \<open>
  What the write queue promises: in every state a pool of writers can reach, and after a power
  loss in any of them, a conversation file that is complete names only attachment files that are
  present, while the attachments folder itself is not lost (\<open>queue_vouches\<close>). The rule a file has to meet is an instance of the one of
  theory Vouch, so the invariant of the pool is about what each writer still has to do.
\<close>

section \<open>What a file may hold\<close>

text \<open>The attachment files a document names, each with the digest it gives.\<close>

definition doc_refs :: "'x conversation_document \<Rightarrow> (path \<times> string) list" where
  "doc_refs doc =
     List.map_filter
       (\<lambda>att. case (att_path att, att_digest_sha256 att) of (Some q, Some dg) \<Rightarrow> Some (q, dg) | _ \<Rightarrow> None)
       (concat (map msg_attachments (doc_messages doc)))"

text \<open>The digits of the digest in a staged name: the last sixteen characters before the extension.\<close>

definition name_digest :: "path \<Rightarrow> string" where
  "name_digest p = (let b = takeWhile (\<lambda>c. c \<noteq> CHR ''.'') p in drop (length b - 16) b)"

definition complete_text :: "u8 list \<Rightarrow> bool" where
  "complete_text c \<longleftrightarrow> c \<noteq> [] \<and> last c = 10"

definition attachment_name :: "path \<Rightarrow> string \<Rightarrow> bool" where
  "attachment_name q dg \<longleftrightarrow> dots q \<le> 1 \<and> dir_of q = ''attachments/'' \<and> name_digest q = take 16 dg"

definition worthy :: "'x tools \<Rightarrow> path set \<Rightarrow> path \<Rightarrow> u8 list \<Rightarrow> bool" where
  "worthy P H p c \<longleftrightarrow>
     (dir_of p = ''attachments/'' \<longrightarrow> c \<noteq> [] \<and> name_digest p = take 16 (hex_sha256 (t_sha P) c)) \<and>
     (strip_suffix ''.jsonl'' p \<noteq> None \<and> dir_of p = [] \<and> complete_text c \<longrightarrow>
        (\<exists>doc. c = jsonl P doc \<and> (\<forall>(q, dg) \<in> set (doc_refs doc). attachment_name q dg \<and> q \<in> H)))"

interpretation rule: file_rule "worthy P" for P
  by unfold_locales (fastforce simp: worthy_def)

definition sound_folder :: "'x tools \<Rightarrow> disk \<Rightarrow> bool" where
  "sound_folder P d \<longleftrightarrow>
     (\<forall>p f. dots p \<le> 1 \<longrightarrow> Some f \<in> entries d p \<longrightarrow> f_synced f \<and> worthy P (held d) p (f_content f))"

lemma sound_folder_disk_ok: "sound_folder P d \<longleftrightarrow> file_rule.disk_ok (worthy P) d"
  by (simp add: sound_folder_def rule.disk_ok_def)

lemma is_complete_file_iff:
  "is_complete_file d p \<longleftrightarrow> (\<exists>f. d_now d p = Some f \<and> complete_text (f_content f))"
  by (auto simp: is_complete_file_def complete_text_def split: option.splits)

text \<open>What the rule says of a folder read after a power loss.\<close>

lemma sound_folder_vouches:
  assumes "sound_folder P d" and "is_complete_file d p" and "dots p \<le> 1" and "dir_of p = []"
    and "strip_suffix ''.jsonl'' p \<noteq> None"
  shows "\<exists>doc. map_option f_content (d_now d p) = Some (jsonl P doc) \<and>
    (\<forall>(q, dg) \<in> set (doc_refs doc).
       \<exists>f. d_now d q = Some f \<and> f_content f \<noteq> [] \<and> take 16 (hex_sha256 (t_sha P) (f_content f)) = take 16 dg)"
proof -
  obtain f where f: "d_now d p = Some f" "complete_text (f_content f)"
    using assms(2) by (auto simp: is_complete_file_iff)
  have "worthy P (held d) p (f_content f)"
    using assms(1,3) now_entry [OF f(1)] by (simp add: sound_folder_def)
  then obtain doc where doc: "f_content f = jsonl P doc"
    "\<forall>(q, dg) \<in> set (doc_refs doc). attachment_name q dg \<and> q \<in> held d"
    using f assms(4,5) by (auto simp: worthy_def)
  have "\<exists>g. d_now d q = Some g \<and> f_content g \<noteq> [] \<and> take 16 (hex_sha256 (t_sha P) (f_content g)) = take 16 dg"
    if "(q, dg) \<in> set (doc_refs doc)" for q dg
  proof -
    have q: "attachment_name q dg" "q \<in> held d" using doc(2) that by auto
    then obtain g where g: "d_now d q = Some g"
      using now_entry [of d q] by (cases "d_now d q") (auto simp: held_def)
    then have "worthy P (held d) q (f_content g)"
      using assms(1) q now_entry [OF g] by (auto simp: sound_folder_def attachment_name_def)
    then show ?thesis using g q by (auto simp: worthy_def attachment_name_def)
  qed
  then show ?thesis using f doc(1) by auto
qed

section \<open>Names\<close>

lemma dots_append [simp]: "dots (p @ q) = dots p + dots q"
  by (simp add: dots_def)

lemma dots_Cons [simp]: "dots (c # p) = (if c = CHR ''.'' then 1 else 0) + dots p"
  by (simp add: dots_def)

lemma dots_Nil [simp]: "dots [] = 0"
  by (simp add: dots_def)

lemma dots_zero: "CHR ''.'' \<notin> set p \<Longrightarrow> dots p = 0"
  by (simp add: dots_def count_list_0_iff)

lemma stem_char_plain:
  assumes "list_all stem_char s"
  shows "CHR ''.'' \<notin> set s" "CHR ''/'' \<notin> set s"
proof -
  have "\<not> stem_char (CHR ''.'')" "\<not> stem_char (CHR ''/'')" by code_simp+
  then show "CHR ''.'' \<notin> set s" "CHR ''/'' \<notin> set s" using assms by (auto simp: list_all_iff)
qed

lemma dir_of_attachments:
  assumes "CHR ''/'' \<notin> set n"
  shows "dir_of (''attachments/'' @ n) = ''attachments/''"
proof -
  have "dropWhile (\<lambda>c. c \<noteq> CHR ''/'') (rev n @ rev ''attachments/'') = rev ''attachments/''"
    using assms by (subst dropWhile_append2) auto
  then show ?thesis by (simp add: dir_of_def)
qed

lemma dir_of_plain: "CHR ''/'' \<notin> set n \<Longrightarrow> dir_of n = []"
  by (simp add: dir_of_def) (metis dropWhile_eq_Nil_conv set_rev)

lemma dec_string_chars: "list_all is_ascii_digit (dec_string n)"
  using all_digits_dec_string [of n] by (simp add: all_digits_def)

lemma dec_string_plain: "CHR ''.'' \<notin> set (dec_string n)" "CHR ''/'' \<notin> set (dec_string n)"
  using dec_string_chars [of n] by (auto simp: list_all_iff is_ascii_digit_def ord_def)

text \<open>Chrono's text of a time, and SHA-256, as their documentation has them.\<close>

definition time_text :: "string \<Rightarrow> bool" where
  "time_text s \<longleftrightarrow> list_all (\<lambda>c. is_ascii_digit c \<or> c \<in> {CHR ''_'', CHR ''+'', CHR ''-''}) s"

definition tools_ok :: "'x tools \<Rightarrow> bool" where
  "tools_ok P \<longleftrightarrow> (\<forall>b. length (t_sha P b) = 32) \<and> (\<forall>t s. t_utc P t = Some s \<longrightarrow> time_text s)"

lemma time_text_plain: "time_text s \<Longrightarrow> CHR ''.'' \<notin> set s \<and> CHR ''/'' \<notin> set s"
  by (auto simp: time_text_def list_all_iff is_ascii_digit_def ord_def)

lemma int_string_text: "time_text (int_string n)"
  using dec_string_chars by (auto simp: time_text_def int_string_def list_all_iff)

lemma length_hex_encode: "length (hex_encode bs) = 2 * length bs"
  by (induction bs) (auto simp: hex_encode_def hex2_def)

lemma extension_chars:
  "\<exists>ext. extension_from_name o_name = ext \<and> (ext = [] \<or> (\<exists>e. ext = CHR ''.'' # e \<and> list_all is_ascii_alphanumeric e))"
  by (auto simp: extension_from_name_def split: option.splits)

lemma alphanumeric_plain: "list_all is_ascii_alphanumeric e \<Longrightarrow> CHR ''.'' \<notin> set e \<and> CHR ''/'' \<notin> set e"
  by (auto simp: list_all_iff is_ascii_alphanumeric_def ascii_defs)

lemma hex_plain: "CHR ''.'' \<notin> set (hex_encode bs)" "CHR ''/'' \<notin> set (hex_encode bs)"
  using stem_char_plain [OF hex_encode_chars] by blast+

lemma takeWhile_neq: "c \<notin> set xs \<Longrightarrow> takeWhile (\<lambda>x. x \<noteq> c) (xs @ c # ys) = xs"
  by (induction xs) auto

lemma takeWhile_neq_all: "c \<notin> set xs \<Longrightarrow> takeWhile (\<lambda>x. x \<noteq> c) xs = xs"
  by (induction xs) auto

lemma drop_last: "drop (length (a @ b) - length b) (a @ b) = b"
  by simp

text \<open>A staged file's name lies in its folder, has at most the dot of its extension, and shows its digest.\<close>

lemma staged_name_ok:
  assumes "tools_ok P"
  shows "attachment_name (''attachments/'' @ staged_name (t_sha P) (t_utc P) job bytes) (hex_sha256 (t_sha P) bytes)"
proof -
  let ?hex = "hex_sha256 (t_sha P) bytes"
  define date where "date = attachment_date_prefix (t_utc P) (job_timestamp_unix_ms job div 1000)"
  define ext where "ext = extension_from_name (att_original_name (job_attachment job))"
  have len: "length ?hex = 64"
    using assms by (simp add: hex_sha256_def length_hex_encode tools_ok_def)
  have name: "staged_name (t_sha P) (t_utc P) job bytes = (date @ ''-'' @ take 16 ?hex) @ ext"
    using len by (simp add: staged_name_def attachment_dest_name_def digest_prefix_def date_def ext_def)
  have "time_text date"
    using assms int_string_text by (auto simp: date_def attachment_date_prefix_def tools_ok_def split: option.split)
  then have base: "CHR ''.'' \<notin> set (date @ ''-'' @ take 16 ?hex)" "CHR ''/'' \<notin> set (date @ ''-'' @ take 16 ?hex)"
    using hex_plain [of "t_sha P bytes"] by (auto simp: time_text_plain hex_sha256_def dest: in_set_takeD)
  have e: "ext = [] \<or> (\<exists>e. ext = CHR ''.'' # e \<and> list_all is_ascii_alphanumeric e)"
    using extension_chars [of "att_original_name (job_attachment job)"] by (simp add: ext_def)
  then have plain: "dots ext \<le> 1" "CHR ''/'' \<notin> set ext"
    using alphanumeric_plain by (auto simp: dots_zero)
  have folder: "CHR ''.'' \<notin> set ''attachments/''" by simp
  let ?b = "''attachments/'' @ (date @ ''-'' @ take 16 ?hex)"
  have nodot: "CHR ''.'' \<notin> set ?b" using base(1) folder by simp
  then have "takeWhile (\<lambda>c. c \<noteq> CHR ''.'') (?b @ ext) = ?b"
    using e takeWhile_neq takeWhile_neq_all by (metis append_Nil2)
  moreover have "drop (length ?b - 16) ?b = take 16 ?hex"
    using len drop_last [of "''attachments/'' @ date @ ''-''" "take 16 ?hex"] by (simp only: append_assoc length_take min_def) simp
  ultimately have "name_digest (?b @ ext) = take 16 ?hex"
    by (simp only: name_digest_def Let_def)
  moreover have "dots (?b @ ext) \<le> 1"
    using plain(1) dots_zero [OF nodot] by (simp only: dots_append [of ?b ext])
  moreover have "dir_of (?b @ ext) = ''attachments/''"
    using dir_of_attachments [of "(date @ ''-'' @ take 16 ?hex) @ ext"] base(2) plain(2) by simp
  ultimately show ?thesis by (simp add: attachment_name_def name)
qed

lemma clone_temp_dots: "2 \<le> dots (''attachments/'' @ next_clone_temp_name n name)"
  by (simp add: next_clone_temp_name_def)

lemma last_dot_unique:
  assumes "xs @ CHR ''.'' # ys = xs' @ CHR ''.'' # ys'" and "CHR ''.'' \<notin> set ys" and "CHR ''.'' \<notin> set ys'"
  shows "ys = ys'"
proof -
  have r: "takeWhile (\<lambda>c. c \<noteq> CHR ''.'') (rev (as @ CHR ''.'' # bs)) = rev bs" if "CHR ''.'' \<notin> set bs" for as bs :: string
    using takeWhile_neq [of "CHR ''.''" "rev bs" "rev as"] that by simp
  show ?thesis using r [OF assms(2), of xs] r [OF assms(3), of xs'] assms(1) by simp
qed

lemma clone_temp_seq:
  assumes "''attachments/'' @ next_clone_temp_name m name = ''attachments/'' @ next_clone_temp_name n name'"
  shows "m = n"
proof -
  have "(''attachments/'' @ name) @ CHR ''.'' # dec_string m = (''attachments/'' @ name') @ CHR ''.'' # dec_string n"
    using assms by (simp add: next_clone_temp_name_def)
  from last_dot_unique [OF this] dec_string_plain show ?thesis by simp
qed

definition stem_suffix_ok :: "'x conversation_document \<Rightarrow> bool" where
  "stem_suffix_ok doc \<longleftrightarrow>
     list_all stem_char (case doc_packaging_stem_suffix doc of None \<Rightarrow> [] | Some s \<Rightarrow> s)"

lemma unit_path_ok:
  assumes "stem_suffix_ok doc"
  shows "dots (unit_path P doc) = 1" "dots (unit_path P doc @ ''.tmp'') = 2" "dir_of (unit_path P doc) = []"
    "strip_suffix ''.jsonl'' (unit_path P doc) \<noteq> None"
proof -
  have "list_all stem_char (filename_stem (t_sha P) doc)"
    unfolding filename_stem_def by (rule stem_chars) (use assms in \<open>simp add: stem_suffix_ok_def\<close>)
  note plain = stem_char_plain [OF this]
  show d: "dots (unit_path P doc) = 1" by (simp add: unit_path_def dots_zero [OF plain(1)])
  then show "dots (unit_path P doc @ ''.tmp'') = 2" by simp
  show "dir_of (unit_path P doc) = []" using plain(2) by (simp add: dir_of_plain unit_path_def)
  have "strip_suffix ''.jsonl'' (unit_path P doc) = Some (filename_stem (t_sha P) doc)"
    by (simp only: strip_suffix_Some unit_path_def)
  then show "strip_suffix ''.jsonl'' (unit_path P doc) \<noteq> None" by simp
qed

section \<open>The conversation file of a unit\<close>

definition staged_job_ok :: "path set \<Rightarrow> attachment_job \<Rightarrow> bool" where
  "staged_job_ok H job \<longleftrightarrow>
     (\<forall>q dg. att_path (job_attachment job) = Some q \<longrightarrow> att_digest_sha256 (job_attachment job) = Some dg \<longrightarrow>
        attachment_name q dg \<and> q \<in> H)"

lemma staged_job_ok_mono: "staged_job_ok H job \<Longrightarrow> H \<subseteq> H' \<Longrightarrow> staged_job_ok H' job"
  by (auto simp: staged_job_ok_def)

lemma unit_path_staged [simp]: "unit_path P (finalize_stats (staged_doc media doc jobs)) = unit_path P doc"
  by (simp add: unit_path_def filename_stem_def finalize_stats_def staged_doc_def drop_all_bytes_def
      clear_attachments_when_disabled_def)

lemma set_put_attachments:
  "set (concat (map msg_attachments (put_attachments msgs atts))) \<subseteq> set atts"
proof (induction msgs arbitrary: atts)
  case (Cons msg msgs)
  then show ?case by (auto simp: Let_def dest: in_set_takeD in_set_dropD)
qed simp

lemma staged_doc_attachment:
  assumes "att \<in> set (concat (map msg_attachments (doc_messages (finalize_stats (staged_doc media doc jobs)))))"
  shows "\<exists>job \<in> set jobs.
    att_path att = None \<or> att_digest_sha256 att = None \<or>
    att_path att = att_path (job_attachment job) \<and> att_digest_sha256 att = att_digest_sha256 (job_attachment job)"
proof -
  let ?atts = "concat (map msg_attachments (put_attachments (doc_messages doc) (map job_attachment jobs)))"
  have "\<exists>a \<in> set ?atts. att_path att = None \<or> att_path att = att_path a \<and> att_digest_sha256 att = att_digest_sha256 a"
  proof (cases "media = Disabled")
    case True
    then show ?thesis using assms
      by (fastforce simp: finalize_stats_def staged_doc_def drop_all_bytes_def clear_attachments_when_disabled_def drop_bytes_def)
  next
    case False
    then show ?thesis using assms
      by (fastforce simp: finalize_stats_def staged_doc_def drop_all_bytes_def clear_attachments_when_disabled_def drop_bytes_def)
  qed
  then obtain a where a: "a \<in> set ?atts"
    "att_path att = None \<or> att_path att = att_path a \<and> att_digest_sha256 att = att_digest_sha256 a"
    by blast
  from a(1) set_put_attachments have "a \<in> set (map job_attachment jobs)" by (rule subsetD [rotated])
  then show ?thesis using a(2) by auto
qed

lemma doc_refs_staged:
  assumes "(q, dg) \<in> set (doc_refs (finalize_stats (staged_doc media doc jobs)))"
  shows "\<exists>job \<in> set jobs. att_path (job_attachment job) = Some q \<and> att_digest_sha256 (job_attachment job) = Some dg"
proof -
  obtain att where "att \<in> set (concat (map msg_attachments (doc_messages (finalize_stats (staged_doc media doc jobs)))))"
    "att_path att = Some q" "att_digest_sha256 att = Some dg"
    using assms by (auto simp: doc_refs_def List.map_filter_def split: option.splits)
  from staged_doc_attachment [OF this(1)] this(2,3) show ?thesis by auto
qed

lemma worthy_save:
  assumes "stem_suffix_ok doc" and "\<And>job. job \<in> set jobs \<Longrightarrow> staged_job_ok H job"
  shows "worthy P H (unit_path P doc) (jsonl P (finalize_stats (staged_doc media doc jobs)))"
proof -
  have "\<forall>(q, dg) \<in> set (doc_refs (finalize_stats (staged_doc media doc jobs))). attachment_name q dg \<and> q \<in> H"
    using doc_refs_staged assms(2) by (fastforce simp: staged_job_ok_def)
  then show ?thesis using unit_path_ok(3) [OF assms(1)] by (auto simp: worthy_def)
qed

lemma worthy_stage:
  assumes "tools_ok P" and "bytes \<noteq> []"
  shows "worthy P H (''attachments/'' @ staged_name (t_sha P) (t_utc P) job bytes) bytes"
  using staged_name_ok [OF assms(1)] assms(2) by (auto simp: worthy_def attachment_name_def)

section \<open>The invariant of the pool\<close>

definition unit_ok :: "'x conversation_unit \<Rightarrow> bool" where
  "unit_ok u \<longleftrightarrow>
     stem_suffix_ok (unit_doc u) \<and>
     (\<forall>msg \<in> set (doc_messages (unit_doc u)). \<forall>att \<in> set (msg_attachments msg). att_path att = None)"

definition calls_of :: "'x worker \<Rightarrow> fs_op list" where
  "calls_of wk = (case wk of Busy _ ops _ \<Rightarrow> ops | _ \<Rightarrow> [])"

definition unit_path_of :: "'x tools \<Rightarrow> 'x worker \<Rightarrow> path option" where
  "unit_path_of P wk =
     (case wk of Begin u \<Rightarrow> Some (unit_path P (unit_doc u)) | Busy doc _ _ \<Rightarrow> Some (unit_path P doc) | _ \<Rightarrow> None)"

definition own_temp :: "'x tools \<Rightarrow> 'x conversation_document \<Rightarrow> nat \<Rightarrow> path \<Rightarrow> bool" where
  "own_temp P doc seq t \<longleftrightarrow>
     t = unit_path P doc @ ''.tmp'' \<or> (\<exists>name n. t = ''attachments/'' @ next_clone_temp_name n name \<and> n < seq)"

definition after_ok :: "path set \<Rightarrow> after_calls \<Rightarrow> bool" where
  "after_ok H nx =
     (case nx of
        Stage todo finished \<Rightarrow>
          (\<forall>(source, job) \<in> set todo. att_path (job_attachment job) = None) \<and> (\<forall>job \<in> set finished. staged_job_ok H job)
      | Finish _ \<Rightarrow> True)"

definition worker_ok :: "'x tools \<Rightarrow> disk \<Rightarrow> nat \<Rightarrow> 'x worker \<Rightarrow> bool" where
  "worker_ok P d seq wk =
     (case wk of
        Begin u \<Rightarrow> unit_ok u
      | Busy doc ops nx \<Rightarrow>
          stem_suffix_ok doc \<and>
          (\<exists>k k'. knows d k \<and> file_rule.track (worthy P) k ops = Some k' \<and> after_ok (k_held k') nx \<and>
             (\<forall>t f. k_tmp k = Some (t, f) \<longrightarrow> t \<in> temps ops)) \<and>
          (\<forall>t \<in> temps ops. own_temp P doc seq t)
      | _ \<Rightarrow> True)"

definition queue_paths :: "'x tools \<Rightarrow> 'x pool \<Rightarrow> path list" where
  "queue_paths P s = map (unit_path P \<circ> unit_doc) (pl_queue s)"

definition apart :: "'x tools \<Rightarrow> 'x worker \<Rightarrow> 'x worker \<Rightarrow> bool" where
  "apart P wk wk' \<longleftrightarrow>
     temps (calls_of wk) \<inter> temps (calls_of wk') = {} \<and>
     (unit_path_of P wk = None \<or> unit_path_of P wk \<noteq> unit_path_of P wk')"

definition pool_inv :: "'x tools \<Rightarrow> 'x pool \<Rightarrow> bool" where
  "pool_inv P s \<longleftrightarrow>
     sound_folder P (pl_disk s) \<and>
     (\<forall>i < length (pl_workers s). worker_ok P (pl_disk s) (pl_seq s) (pl_workers s ! i) \<and>
        unit_path_of P (pl_workers s ! i) \<notin> Some ` set (queue_paths P s)) \<and>
     (\<forall>i < length (pl_workers s). \<forall>j < length (pl_workers s).
        i \<noteq> j \<longrightarrow> apart P (pl_workers s ! i) (pl_workers s ! j)) \<and>
     distinct (queue_paths P s) \<and> list_all unit_ok (pl_queue s)"

lemma own_temp_mono: "own_temp P doc m t \<Longrightarrow> m \<le> n \<Longrightarrow> own_temp P doc n t"
  unfolding own_temp_def by (elim disjE exE conjE) (auto dest: less_le_trans)

lemma worker_ok_mono: "worker_ok P d m wk \<Longrightarrow> m \<le> n \<Longrightarrow> worker_ok P d n wk"
  using own_temp_mono by (fastforce simp: worker_ok_def split: worker.splits)

lemma apart_sym: "apart P wk wk' \<Longrightarrow> apart P wk' wk"
  by (auto simp: apart_def)

lemma apart_no_unit: "unit_path_of P wk = None \<Longrightarrow> apart P wk wk'"
  by (auto simp: apart_def calls_of_def unit_path_of_def split: worker.splits)

lemma pool_inv_worker:
  assumes "pool_inv P s" and "i < length (pl_workers s)"
    and "pl_disk t = pl_disk s" "pl_queue t = pl_queue s" "pl_workers t = (pl_workers s)[i := wk]" "pl_seq s \<le> pl_seq t"
    and "worker_ok P (pl_disk s) (pl_seq t) wk"
    and "unit_path_of P wk \<in> {None, unit_path_of P (pl_workers s ! i)}"
    and "\<And>j. j < length (pl_workers s) \<Longrightarrow> j \<noteq> i \<Longrightarrow> temps (calls_of wk) \<inter> temps (calls_of (pl_workers s ! j)) = {}"
  shows "pool_inv P t"
proof -
  have q: "queue_paths P t = queue_paths P s" using assms(4) by (simp add: queue_paths_def)
  have ap: "apart P wk (pl_workers s ! j)" if j: "j < length (pl_workers s)" "j \<noteq> i" for j
  proof (cases "unit_path_of P wk = None")
    case True
    then show ?thesis by (rule apart_no_unit)
  next
    case False
    then have "unit_path_of P wk = unit_path_of P (pl_workers s ! i)" using assms(8) by auto
    moreover have "apart P (pl_workers s ! i) (pl_workers s ! j)"
      using assms(1,2) j by (auto simp: pool_inv_def)
    ultimately show ?thesis using assms(9) [OF j] by (auto simp: apart_def)
  qed
  have workers: "worker_ok P (pl_disk t) (pl_seq t) (pl_workers t ! j) \<and>
      unit_path_of P (pl_workers t ! j) \<notin> Some ` set (queue_paths P t)" if "j < length (pl_workers t)" for j
    using assms(1,2,3,5,6,7,8) that worker_ok_mono [of P "pl_disk s" "pl_seq s" _ "pl_seq t"]
    by (auto simp: pool_inv_def q nth_list_update)
  moreover have "apart P (pl_workers t ! j) (pl_workers t ! l)"
    if "j < length (pl_workers t)" "l < length (pl_workers t)" "j \<noteq> l" for j l
    using assms(1,2,5) ap [of j] ap [of l] that
    by (auto simp: pool_inv_def nth_list_update intro: apart_sym)
  ultimately show ?thesis
    using assms(1,3,4) q by (simp add: pool_inv_def)
qed

text \<open>One job: its calls are safe, and what it leaves in the record is on disk after them.\<close>

lemma stage_one_safe:
  assumes "tools_ok P" and fresh: "att_path (job_attachment job) = None" and k: "k_tmp k = None"
    and st: "stage_one (t_sha P) (t_utc P) flt answer t job = (ops, r)"
  shows "(\<exists>name. temps ops \<subseteq> {''attachments/'' @ next_clone_temp_name (jt_seq t) name}) \<and>
    (\<exists>k'. file_rule.track (worthy P) k ops = Some k' \<and> k_held k \<subseteq> k_held k' \<and>
      (\<forall>job' t'. r = Inr (job', t') \<longrightarrow> staged_job_ok (k_held k') job')) \<and>
    (\<forall>job' t'. r = Inr (job', t') \<longrightarrow> jt_seq t \<le> jt_seq t' \<and> (ops = [] \<or> jt_seq t < jt_seq t'))"
proof -
  have missing: "staged_job_ok H (mark_missing reason job)" for H reason
    using fresh by (simp add: staged_job_ok_def mark_missing_def)
  from st show ?thesis
  proof (cases rule: stage_one_cases)
    case cancelled
    then show ?thesis by (auto simp: rule.track.simps)
  next
    case (missing t')
    then show ?thesis using \<open>\<And>H reason. staged_job_ok H (mark_missing reason job)\<close> by (auto simp: rule.track.simps)
  next
    case (written b bs r' t')
    let ?q = "''attachments/'' @ staged_name (t_sha P) (t_utc P) job (b # bs)"
    let ?tmp = "''attachments/'' @ next_clone_temp_name (jt_seq t) (staged_name (t_sha P) (t_utc P) job (b # bs))"
    have name: "attachment_name ?q (hex_sha256 (t_sha P) (b # bs))" by (rule staged_name_ok [OF assms(1)])
    obtain r1 where w: "write_atomic_via flt ?tmp ?q (b # bs) = (ops, r1)"
      and r': "r' = map_res (\<lambda>_. job\<lparr>job_attachment := (job_attachment job)
                   \<lparr>att_path := Some ?q,
                    att_digest_sha256 := Some (hex_sha256 (t_sha P) (b # bs)),
                    att_size_bytes := Some (word_of_nat (length (b # bs))),
                    att_missing_reason := None\<rparr>\<rparr>) r1"
      using written(2) by (auto simp: persist_clone_def Let_def split: prod.splits)
    have d: "dots ?q \<le> 1" using name by (simp only: attachment_name_def)
    obtain k' where k': "file_rule.track (worthy P) k ops = Some k'" "k_held k \<subseteq> k_held k'"
      "r1 = Inr () \<longrightarrow> ?q \<in> k_held k'"
      using rule.track_write [OF w clone_temp_dots d worthy_stage [OF assms(1) list.simps(3)], of k] by blast
    have "staged_job_ok (k_held k') (case r' of Inl _ \<Rightarrow> mark_missing ''file_missing'' job | Inr job' \<Rightarrow> job')"
      using k'(3) name missing unfolding r' by (cases r1) (simp_all add: staged_job_ok_def)
    then show ?thesis using k' write_temps [OF w] written by auto
  qed
qed

lemma unit_temp_plain: "stem_suffix_ok doc \<Longrightarrow> CHR ''/'' \<notin> set (unit_path P doc @ ''.tmp'')"
proof -
  assume "stem_suffix_ok doc"
  then have "list_all stem_char (filename_stem (t_sha P) doc)"
    unfolding filename_stem_def by (intro stem_chars) (simp add: stem_suffix_ok_def)
  from stem_char_plain(2) [OF this] show ?thesis by (simp add: unit_path_def)
qed

lemma calls_own:
  assumes "worker_ok P d seq wk" and "t \<in> temps (calls_of wk)"
  shows "\<exists>doc. unit_path_of P wk = Some (unit_path P doc) \<and> stem_suffix_ok doc \<and> own_temp P doc seq t"
  using assms by (auto simp: worker_ok_def calls_of_def unit_path_of_def split: worker.splits)

lemma clone_temp_apart:
  assumes "worker_ok P d seq wk" and "t \<in> temps (calls_of wk)"
  shows "t \<noteq> ''attachments/'' @ next_clone_temp_name seq name"
proof
  assume t: "t = ''attachments/'' @ next_clone_temp_name seq name"
  obtain doc where doc: "stem_suffix_ok doc" "own_temp P doc seq t"
    using calls_own [OF assms] by blast
  have "CHR ''/'' \<in> set t" by (simp add: t)
  then have "t \<noteq> unit_path P doc @ ''.tmp''" using unit_temp_plain [OF doc(1)] by metis
  then obtain name' n where n: "t = ''attachments/'' @ next_clone_temp_name n name'" "n < seq"
    using doc(2) by (auto simp only: own_temp_def)
  then show False using clone_temp_seq t by (metis less_irrefl)
qed

lemma save_temp_apart:
  assumes "worker_ok P d seq wk" and "t \<in> temps (calls_of wk)" and "stem_suffix_ok doc"
    and "unit_path_of P wk \<noteq> Some (unit_path P doc)"
  shows "t \<noteq> unit_path P doc @ ''.tmp''"
proof
  assume t: "t = unit_path P doc @ ''.tmp''"
  obtain doc' where doc': "unit_path_of P wk = Some (unit_path P doc')" "own_temp P doc' seq t"
    using calls_own [OF assms(1,2)] by blast
  have "CHR ''/'' \<notin> set t" using unit_temp_plain [OF assms(3)] t by simp
  then have "t = unit_path P doc' @ ''.tmp''" using doc'(2) by (auto simp: own_temp_def)
  then show False using t doc'(1) assms(4) by simp
qed

lemma unit_jobs_fresh:
  assumes "unit_ok u" and "(source, job) \<in> set (unit_jobs u)"
  shows "att_path (job_attachment job) = None"
proof -
  obtain msg att where "msg \<in> set (doc_messages (unit_doc u))" "att \<in> set (msg_attachments msg)"
    "job_attachment job = att"
    using assms(2)
    by (auto simp: unit_jobs_def unit_job_def in_set_enumerate_eq split: option.splits) (metis nth_mem)+
  then show ?thesis using assms(1) by (simp add: unit_ok_def)
qed

lemma worker_ok_idle [simp]:
  "worker_ok P d seq Ready" "worker_ok P d seq Popping" "worker_ok P d seq Stopped"
  by (simp_all add: worker_ok_def)

text \<open>A writer between two runs of calls knows of no temporary file.\<close>

lemma worker_ok_between:
  "worker_ok P d seq (Busy doc [] nx) \<longleftrightarrow>
     stem_suffix_ok doc \<and> (\<exists>k. knows d k \<and> k_tmp k = None \<and> after_ok (k_held k) nx)"
proof -
  have "(\<forall>t f. k_tmp k \<noteq> Some (t, f)) \<longleftrightarrow> k_tmp k = None" for k
    by (cases "k_tmp k") auto
  then show ?thesis by (auto simp: worker_ok_def rule.track.simps)
qed

lemma worker_ok_fresh:
  assumes "stem_suffix_ok doc" and "after_ok {} nx"
  shows "worker_ok P d seq (Busy doc [] nx)"
  unfolding worker_ok_between
  using assms by (intro conjI exI [of _ know_nothing]) (simp_all, simp_all add: know_nothing_def)

text \<open>A worker that has nothing left to call.\<close>

lemma pool_inv_idle:
  assumes "pool_inv P s" and "i < length (pl_workers s)"
    and "pl_disk t = pl_disk s" "pl_queue t = pl_queue s" "pl_workers t = (pl_workers s)[i := wk]" "pl_seq s \<le> pl_seq t"
    and "worker_ok P (pl_disk s) (pl_seq t) wk" and "calls_of wk = []"
    and "unit_path_of P wk \<in> {None, unit_path_of P (pl_workers s ! i)}"
  shows "pool_inv P t"
  by (rule pool_inv_worker [OF assms(1-7,9)]) (simp add: assms(8))

lemma pool_inv_at: "pool_inv P s \<Longrightarrow> at s i wk \<Longrightarrow> worker_ok P (pl_disk s) (pl_seq s) wk"
  by (auto simp: pool_inv_def at_def)

text \<open>Steps between units, at the start of one and at its end.\<close>

lemma pool_inv_leave:
  assumes "pool_inv P s" and "at s i wk0" and "wk \<in> {Ready, Popping, Stopped}"
    and "pl_disk t = pl_disk s" "pl_queue t = pl_queue s" "pl_workers t = (pl_workers s)[i := wk]" "pl_seq t = pl_seq s"
  shows "pool_inv P t"
  using assms(2,3)
  by (intro pool_inv_idle [OF assms(1) _ assms(4,5,6)])
    (auto simp: at_def assms(7) calls_of_def unit_path_of_def)

lemma pool_inv_begin:
  assumes "pool_inv P s" and "at s i (Begin u)" and "after_ok {} nx" and "set ops \<subseteq> {CreateDirAll q}"
  shows "pool_inv P (set_worker i (Busy (unit_doc u) ops nx) s)"
proof (rule pool_inv_worker [OF assms(1)])
  have u: "stem_suffix_ok (unit_doc u)"
    using pool_inv_at [OF assms(1,2)] by (simp add: worker_ok_def unit_ok_def)
  have tr: "file_rule.track (worthy P) know_nothing ops = Some know_nothing"
    using assms(4) by (induction ops) (auto simp: rule.track.simps rule.track1.simps)
  have tm: "temps ops = {}" using assms(4) by (induction ops) auto
  show "worker_ok P (pl_disk s) (pl_seq (set_worker i (Busy (unit_doc u) ops nx) s)) (Busy (unit_doc u) ops nx)"
    using u tr tm assms(3) knows_nothing unfolding worker_ok_def worker.case
    by (intro conjI exI [of _ know_nothing]) (simp_all add: know_nothing_def)
  show "temps (calls_of (Busy (unit_doc u) ops nx)) \<inter> temps (calls_of (pl_workers s ! j)) = {}" for j
    by (simp add: calls_of_def tm)
qed (use assms(2) in \<open>auto simp: at_def set_worker_def unit_path_of_def\<close>)

lemma pool_inv_finish:
  assumes "pool_inv P s" and "at s i (Busy doc [] nx)"
  shows "pool_inv P (set_worker i (Busy doc [] (Finish r)) s)"
  using assms(2) pool_inv_at [OF assms]
  by (intro pool_inv_idle [OF assms(1)])
    (auto simp: at_def set_worker_def calls_of_def unit_path_of_def worker_ok_between after_ok_def)

lemma pool_inv_pop:
  assumes inv: "pool_inv P s" and at: "at s i Popping" and q: "pl_queue s = u # us"
  shows "pool_inv P (set_worker i (Begin u) (s\<lparr>pl_queue := us\<rparr>))" (is "pool_inv P ?t")
proof -
  have i: "i < length (pl_workers s)" using at by (simp add: at_def)
  have paths: "queue_paths P s = unit_path P (unit_doc u) # queue_paths P ?t"
    using q by (simp add: queue_paths_def set_worker_def)
  have ap: "apart P (Begin u) (pl_workers s ! j)" if "j < length (pl_workers s)" for j
    using inv that paths by (auto simp: pool_inv_def apart_def calls_of_def unit_path_of_def image_iff)
  have "worker_ok P (pl_disk ?t) (pl_seq ?t) (pl_workers ?t ! j) \<and>
      unit_path_of P (pl_workers ?t ! j) \<notin> Some ` set (queue_paths P ?t)" if "j < length (pl_workers ?t)" for j
  proof (cases "j = i")
    case True
    then show ?thesis
      using inv i q paths by (auto simp: pool_inv_def set_worker_def worker_ok_def unit_path_of_def)
  next
    case False
    then show ?thesis using inv that paths by (auto simp: pool_inv_def set_worker_def)
  qed
  moreover have "apart P (pl_workers ?t ! j) (pl_workers ?t ! l)"
    if "j < length (pl_workers ?t)" "l < length (pl_workers ?t)" "j \<noteq> l" for j l
    using inv i that ap [of j] ap [of l]
    by (auto simp: pool_inv_def set_worker_def nth_list_update intro: apart_sym)
  ultimately show ?thesis
    using inv q paths by (simp add: pool_inv_def set_worker_def)
qed

text \<open>One system call.\<close>

lemma pool_inv_call:
  assumes inv: "pool_inv P s" and at: "at s i (Busy doc (op # ops) nx)"
  shows "pool_inv P (set_worker i (Busy doc ops nx) (s\<lparr>pl_disk := apply_op op (pl_disk s)\<rparr>))" (is "pool_inv P ?t")
proof -
  let ?d = "pl_disk s" and ?ws = "pl_workers s"
  have i: "i < length ?ws" "?ws ! i = Busy doc (op # ops) nx" using at by (auto simp: at_def)
  have ok: "file_rule.disk_ok (worthy P) ?d"
    using inv by (simp add: pool_inv_def sound_folder_disk_ok)
  obtain k k' where k: "knows ?d k" "file_rule.track (worthy P) k (op # ops) = Some k'" "after_ok (k_held k') nx"
    "\<And>t f. k_tmp k = Some (t, f) \<Longrightarrow> t \<in> temps (op # ops)"
    and doc: "stem_suffix_ok doc" "\<forall>t \<in> temps (op # ops). own_temp P doc (pl_seq s) t"
    using pool_inv_at [OF inv at] unfolding worker_ok_def by auto
  have step: "file_rule.disk_ok (worthy P) (apply_op op ?d)"
    "\<exists>j j'. knows (apply_op op ?d) j \<and> file_rule.track (worthy P) j ops = Some j' \<and> k_held j' = k_held k' \<and>
       (\<forall>t f. k_tmp j = Some (t, f) \<longrightarrow> t \<in> temps ops)"
    using rule.track_call [OF ok k(1,2,4)] by auto
  have me: "worker_ok P (apply_op op ?d) (pl_seq s) (Busy doc ops nx)"
    using step(2) k(3) doc unfolding worker_ok_def by (auto; metis)
  have other: "worker_ok P (apply_op op ?d) (pl_seq s) (?ws ! j)" if j: "j < length ?ws" "j \<noteq> i" for j
  proof -
    have old: "worker_ok P ?d (pl_seq s) (?ws ! j)" using inv j by (auto simp: pool_inv_def)
    have "apart P (?ws ! j) (?ws ! i)" using inv i(1) j by (auto simp: pool_inv_def)
    then have dis: "temps (calls_of (?ws ! j)) \<inter> temps (op # ops) = {}"
      using i by (auto simp: apart_def calls_of_def)
    show ?thesis
    proof (cases "?ws ! j")
      case (Busy doc' ops' nx')
      have "knows (apply_op op ?d) k2" if "knows ?d k2" "\<And>t f. k_tmp k2 = Some (t, f) \<Longrightarrow> t \<in> temps ops'" for k2
        using that dis Busy by (intro rule.track_call_other [OF k(1,2)]) (auto simp: calls_of_def)
      then show ?thesis using old unfolding Busy worker_ok_def worker.case by meson
    qed (use old in \<open>auto simp: worker_ok_def\<close>)
  qed
  have paths: "queue_paths P ?t = queue_paths P s" by (simp add: queue_paths_def set_worker_def)
  have "apart P (Busy doc ops nx) (?ws ! j)" if "apart P (?ws ! i) (?ws ! j)" for j
    using that i by (auto simp: apart_def calls_of_def unit_path_of_def)
  then have "apart P (pl_workers ?t ! j) (pl_workers ?t ! l)"
    if "j < length (pl_workers ?t)" "l < length (pl_workers ?t)" "j \<noteq> l" for j l
    using inv i(1) that by (auto simp: pool_inv_def set_worker_def nth_list_update intro: apart_sym)
  moreover have "worker_ok P (pl_disk ?t) (pl_seq ?t) (pl_workers ?t ! j) \<and>
      unit_path_of P (pl_workers ?t ! j) \<notin> Some ` set (queue_paths P ?t)" if "j < length (pl_workers ?t)" for j
    using inv that me other [of j] i paths
    by (auto simp: pool_inv_def set_worker_def nth_list_update unit_path_of_def)
  ultimately show ?thesis
    using inv step(1) paths by (simp add: pool_inv_def sound_folder_disk_ok set_worker_def)
qed

text \<open>The start of a job and of the conversation file, where new calls appear.\<close>

lemma pool_inv_job:
  assumes tools: "tools_ok P" and inv: "pool_inv P s"
    and at: "at s i (Busy doc [] (Stage ((source, job) # todo) finished))"
    and st: "stage_one (t_sha P) (t_utc P) flt answer (job_seq (pl_seq s)) job = (ops, Inr (job', t'))"
  shows "pool_inv P (set_worker i (Busy doc ops (Stage todo (finished @ [job']))) (s\<lparr>pl_seq := jt_seq t'\<rparr>))"
proof (rule pool_inv_worker [OF inv])
  obtain k where k: "stem_suffix_ok doc" "knows (pl_disk s) k" "k_tmp k = None"
    "after_ok (k_held k) (Stage ((source, job) # todo) finished)"
    using pool_inv_at [OF inv at] unfolding worker_ok_between by blast
  have fresh: "att_path (job_attachment job) = None" using k(4) by (auto simp: after_ok_def)
  have seq0: "jt_seq (job_seq (pl_seq s)) = pl_seq s" by (simp add: job_seq_def)
  from stage_one_safe [OF tools fresh k(3) st, unfolded seq0] obtain name k' where name: "temps ops \<subseteq> {''attachments/'' @ next_clone_temp_name (pl_seq s) name}"
    and k': "file_rule.track (worthy P) k ops = Some k'" "k_held k \<subseteq> k_held k'" "staged_job_ok (k_held k') job'"
    and seq: "pl_seq s \<le> jt_seq t'" "ops = [] \<or> pl_seq s < jt_seq t'"
    by blast
  have "after_ok (k_held k') (Stage todo (finished @ [job']))"
    using k(4) k'(2,3) staged_job_ok_mono by (auto simp: after_ok_def)
  moreover have "\<forall>t \<in> temps ops. own_temp P doc (jt_seq t') t"
    using name seq(2) unfolding own_temp_def by (cases "ops = []") auto
  ultimately show "worker_ok P (pl_disk s)
      (pl_seq (set_worker i (Busy doc ops (Stage todo (finished @ [job']))) (s\<lparr>pl_seq := jt_seq t'\<rparr>)))
      (Busy doc ops (Stage todo (finished @ [job'])))"
    using k k'(1) unfolding worker_ok_def by (auto simp: set_worker_def)
  show "pl_seq s \<le> pl_seq (set_worker i (Busy doc ops (Stage todo (finished @ [job']))) (s\<lparr>pl_seq := jt_seq t'\<rparr>))"
    using seq(1) by (simp add: set_worker_def)
  fix j assume j: "j < length (pl_workers s)" "j \<noteq> i"
  then have "worker_ok P (pl_disk s) (pl_seq s) (pl_workers s ! j)" using inv by (simp add: pool_inv_def)
  from clone_temp_apart [OF this] name
  show "temps (calls_of (Busy doc ops (Stage todo (finished @ [job'])))) \<inter> temps (calls_of (pl_workers s ! j)) = {}"
    unfolding calls_of_def worker.case by blast
qed (use at in \<open>auto simp: at_def set_worker_def unit_path_of_def\<close>)

lemma pool_inv_save:
  assumes inv: "pool_inv P s" and at: "at s i (Busy doc [] (Stage [] finished))"
    and w: "write_format_jsonl P flt (staged_doc media doc finished) = (ops, r)"
  shows "pool_inv P (set_worker i (Busy doc ops (Finish res)) s)"
proof (rule pool_inv_worker [OF inv])
  obtain k where k: "stem_suffix_ok doc" "knows (pl_disk s) k" "k_tmp k = None"
    "after_ok (k_held k) (Stage [] finished)"
    using pool_inv_at [OF inv at] unfolding worker_ok_between by blast
  have wa: "write_atomic_via flt (unit_path P doc @ ''.tmp'') (unit_path P doc)
      (jsonl P (finalize_stats (staged_doc media doc finished))) = (ops, r)"
    using w by (simp add: write_format_jsonl_def write_conversation_jsonl_def write_atomic_def)
  have "worthy P (k_held k) (unit_path P doc) (jsonl P (finalize_stats (staged_doc media doc finished)))"
    using k(4) by (intro worthy_save k(1)) (auto simp: after_ok_def)
  moreover have "2 \<le> dots (unit_path P doc @ ''.tmp'')" "dots (unit_path P doc) \<le> 1"
    using unit_path_ok(1,2) [OF k(1), of P] by simp_all
  ultimately obtain k' where k': "file_rule.track (worthy P) k ops = Some k'"
    using rule.track_write [OF wa] by blast
  note tmp = write_temps [OF wa]
  show "worker_ok P (pl_disk s) (pl_seq (set_worker i (Busy doc ops (Finish res)) s)) (Busy doc ops (Finish res))"
    using k k' tmp unfolding worker_ok_def by (auto simp: after_ok_def own_temp_def)
  fix j assume j: "j < length (pl_workers s)" "j \<noteq> i"
  have ok: "worker_ok P (pl_disk s) (pl_seq s) (pl_workers s ! j)" using inv j by (simp add: pool_inv_def)
  have "apart P (pl_workers s ! i) (pl_workers s ! j)" using inv at j by (auto simp: pool_inv_def at_def)
  then have "unit_path_of P (pl_workers s ! j) \<noteq> Some (unit_path P doc)"
    using at by (auto simp: at_def apart_def unit_path_of_def)
  from save_temp_apart [OF ok _ k(1) this] tmp
  show "temps (calls_of (Busy doc ops (Finish res))) \<inter> temps (calls_of (pl_workers s ! j)) = {}"
    unfolding calls_of_def worker.case by blast
qed (use at in \<open>auto simp: at_def set_worker_def unit_path_of_def\<close>)

lemma pool_step_inv:
  assumes tools: "tools_ok P" and "pool_step P opts read_file w s t" and inv: "pool_inv P s"
  shows "pool_inv P t"
  using assms(2)
proof (cases rule: pool_step.cases)
  case (aborted i)
  show ?thesis by (rule pool_inv_leave [OF inv aborted(2), of Stopped]) (simp_all add: aborted(1) set_worker_def)
next
  case (not_aborted i)
  show ?thesis by (rule pool_inv_leave [OF inv not_aborted(2), of Popping]) (simp_all add: not_aborted(1) set_worker_def)
next
  case (empty_queue i)
  show ?thesis by (rule pool_inv_leave [OF inv empty_queue(2), of Stopped]) (simp_all add: empty_queue(1) set_worker_def)
next
  case (pop i u us)
  show ?thesis unfolding pop(1) by (rule pool_inv_pop [OF inv pop(2,3)])
next
  case (cancelled_unit i u)
  show ?thesis unfolding cancelled_unit(1)
    by (rule pool_inv_begin [OF inv cancelled_unit(2)]) (simp_all add: after_ok_def)
next
  case (already_written i u)
  show ?thesis unfolding already_written(1)
    by (rule pool_inv_begin [OF inv already_written(2)]) (simp_all add: after_ok_def)
next
  case (media_off i u)
  have "unit_ok u" using pool_inv_at [OF inv media_off(2)] by (simp add: worker_ok_def)
  then show ?thesis unfolding media_off(1)
    by (intro pool_inv_begin [OF inv media_off(2)])
      (auto simp: after_ok_def staged_job_ok_def mark_missing_def dest: unit_jobs_fresh)
next
  case (no_folder i u e)
  show ?thesis unfolding no_folder(1)
    by (rule pool_inv_begin [OF inv no_folder(2)]) (simp_all add: after_ok_def)
next
  case (folder i u)
  have "unit_ok u" using pool_inv_at [OF inv folder(2)] by (simp add: worker_ok_def)
  then show ?thesis unfolding folder(1)
    by (intro pool_inv_begin [OF inv folder(2)]) (auto simp: after_ok_def dest: unit_jobs_fresh)
next
  case (call i doc op ops nx)
  show ?thesis unfolding call(1) by (rule pool_inv_call [OF inv call(2)])
next
  case (cancelled_job i doc job todo finished)
  show ?thesis unfolding cancelled_job(1) by (rule pool_inv_finish [OF inv cancelled_job(2)])
next
  case (job i doc source job todo finished flt ops job' t')
  show ?thesis unfolding job(1) by (rule pool_inv_job [OF tools inv job(2,4)])
next
  case (job_error i doc source job todo finished flt ops e)
  have "ops = []" using job_error(4) by (cases rule: stage_one_cases) auto
  then show ?thesis unfolding job_error(1) by (simp only:) (rule pool_inv_finish [OF inv job_error(2)])
next
  case (save i doc finished flt ops r)
  show ?thesis unfolding save(1) by (rule pool_inv_save [OF inv save(2,4)])
next
  case (unit_done i doc written saved)
  show ?thesis by (rule pool_inv_leave [OF inv unit_done(2), of Ready]) (simp_all add: unit_done(1) set_worker_def)
next
  case (unit_failed i doc e)
  show ?thesis by (rule pool_inv_leave [OF inv unit_failed(2), of Stopped]) (simp_all add: unit_failed(1) set_worker_def)
qed

section \<open>Complete conversation files keep their word\<close>

lemma clash_suffix_ok: "stem_suffix_ok doc \<Longrightarrow> stem_suffix_ok (clash_suffix sha doc)"
proof -
  assume "stem_suffix_ok doc"
  moreover have "list_all stem_char ''__''" by code_simp
  moreover have "list_all stem_char (take 8 (sha256_hex sha c))" for c
    by (simp add: sha256_hex_def list_all_take hex_encode_chars)
  ultimately show ?thesis
    unfolding stem_suffix_ok_def clash_suffix_def Let_def
    by (cases "doc_packaging_stem_suffix doc") (simp_all del: append.simps)
qed

lemma own_units:
  assumes "give_each_unit_its_own_file P units = Inr named" and "list_all unit_ok units"
  shows "list_all unit_ok named" "distinct (map (unit_path P \<circ> unit_doc) named)" "length named = length units"
proof -
  obtain docs where docs: "give_each_document_its_own_file (t_lower P) (t_sha P) (map unit_doc units) = Inr docs"
    and named: "named = map2 (\<lambda>u doc. u\<lparr>unit_doc := doc\<rparr>) units docs"
    using assms(1) by (auto simp: give_each_unit_its_own_file_def map_res_def split: sum.splits)
  have r: "docs = renamed_docs (t_lower P) (t_sha P) (map (name_key (t_lower P) (t_sha P)) (map unit_doc units)) (map unit_doc units)"
    and dist: "distinct (map (name_key (t_lower P) (t_sha P)) docs)"
    using docs unfolding own_file_Inr by blast+
  have len: "length docs = length units" by (simp add: r renamed_docs_def)
  then show "length named = length units" by (simp add: named)
  have nd: "map unit_doc named = docs" using len by (auto simp: named intro!: nth_equalityI)
  have "distinct (map (unit_path P) docs)"
    using dist by (auto simp: distinct_map inj_on_def name_key_def unit_path_def)
  then show "distinct (map (unit_path P \<circ> unit_doc) named)"
    by (simp add: nd [symmetric] comp_def)
  have "unit_ok (named ! i)" if "i < length named" for i
  proof -
    have i: "i < length units" using that len by (simp add: named)
    then have u: "unit_ok (units ! i)" using assms(2) by (simp add: list_all_length)
    have "docs ! i = unit_doc (units ! i) \<or> docs ! i = clash_suffix (t_sha P) (unit_doc (units ! i))"
      using i by (auto simp: r renamed_docs_def)
    then show ?thesis using u i len clash_suffix_ok by (auto simp: named unit_ok_def)
  qed
  then show "list_all unit_ok named" by (simp add: list_all_length)
qed

lemma pool_start_inv:
  assumes "sound_folder P d" and "list_all unit_ok units" and "distinct (map (unit_path P \<circ> unit_doc) units)"
  shows "pool_inv P (pool_start n d units)"
  using assms
  by (auto simp: pool_inv_def pool_start_def queue_paths_def apart_def calls_of_def unit_path_of_def worker_ok_def comp_def)

lemma pool_run_inv:
  assumes "tools_ok P" and "pool_run P opts read_file w s0 s" and "pool_inv P s0"
  shows "pool_inv P s"
  using assms(2,3) by (induction rule: pool_run.induct) (auto intro: pool_step_inv [OF assms(1)])

lemma worthy_kept:
  assumes "worthy P H p c" and "\<not> folder_lost choice d ''attachments/''"
  shows "worthy P {q \<in> H. \<not> folder_lost choice d (dir_of q)} p c"
  using assms by (fastforce simp: worthy_def attachment_name_def)

lemma sound_folder_power_loss:
  assumes "sound_folder P d" and "\<not> folder_lost choice d ''attachments/''"
  shows "sound_folder P (power_loss choice d)"
  using assms(1) unfolding sound_folder_disk_ok by (rule rule.power_loss_ok) (rule worthy_kept [OF _ assms(2)])

lemma pool_step_folder:
  assumes "pool_step P opts read_file w s t" and "folder_stays (pl_disk s) q"
  shows "folder_stays (pl_disk t) q"
  using assms by (cases rule: pool_step.cases) (auto simp: set_worker_def folder_stays_op)

lemma pool_run_folder:
  assumes "pool_run P opts read_file w s0 s" and "folder_stays (pl_disk s0) q"
  shows "folder_stays (pl_disk s) q"
  using assms by (induction rule: pool_run.induct) (auto intro: pool_step_folder)

lemma queue_sound:
  assumes "tools_ok P" and "list_all unit_ok units" and "give_each_unit_its_own_file P units = Inr named"
    and "sound_folder P d" and "pool_run P opts read_file w (pool_start n d named) s"
  shows "sound_folder P (pl_disk s)"
  using pool_run_inv [OF assms(1,5)] pool_start_inv [OF assms(4) own_units(1,2) [OF assms(3,2)]]
  by (simp add: pool_inv_def)

text \<open>C1: Whatever writes fail, whenever the run is cancelled, however the writers interleave,
  and wherever a power loss stops them: when the attachments folder itself is still there, a
  conversation file that is complete afterwards is a conversation's whole text, and every
  attachment file it names is present, not empty, and has a digest that begins with the sixteen
  digits the document's digest begins with. The folder is again one a run may start from, so this
  holds after any number of interrupted and resumed runs. The attachments folder is still there
  whenever its entry was on disk when the run began.\<close>

theorem queue_vouches:
  assumes "tools_ok P" and "list_all unit_ok units" and "give_each_unit_its_own_file P units = Inr named"
    and "sound_folder P d" and "pool_run P opts read_file w (pool_start n d named) s"
  shows "(\<not> folder_lost choice (pl_disk s) ''attachments/'' \<longrightarrow>
      sound_folder P (power_loss choice (pl_disk s)) \<and>
      (is_complete_file (power_loss choice (pl_disk s)) p \<and>
         dots p \<le> 1 \<and> dir_of p = [] \<and> strip_suffix ''.jsonl'' p \<noteq> None \<longrightarrow>
       (\<exists>doc. map_option f_content (d_now (power_loss choice (pl_disk s)) p) = Some (jsonl P doc) \<and>
          (\<forall>(q, dg) \<in> set (doc_refs doc).
             \<exists>f. d_now (power_loss choice (pl_disk s)) q = Some f \<and> f_content f \<noteq> [] \<and>
               take 16 (hex_sha256 (t_sha P) (f_content f)) = take 16 dg)))) \<and>
    (folder_stays d ''attachments/'' \<longrightarrow>
       \<not> folder_lost choice (pl_disk s) ''attachments/'' \<and>
       folder_stays (power_loss choice (pl_disk s)) ''attachments/'')"
proof (intro conjI impI)
  let ?d = "power_loss choice (pl_disk s)"
  show stays: "\<not> folder_lost choice (pl_disk s) ''attachments/''" "folder_stays ?d ''attachments/''"
    if "folder_stays d ''attachments/''"
  proof -
    have "folder_stays (pl_disk s) ''attachments/''"
      by (rule pool_run_folder [OF assms(5)]) (use that in \<open>simp add: pool_start_def\<close>)
    then show "\<not> folder_lost choice (pl_disk s) ''attachments/''" "folder_stays ?d ''attachments/''"
      by (simp_all add: folder_stays_not_lost folder_stays_power_loss)
  qed
  assume "\<not> folder_lost choice (pl_disk s) ''attachments/''"
  then show sound: "sound_folder P ?d"
    by (rule sound_folder_power_loss [OF queue_sound [OF assms]])
  assume "is_complete_file ?d p \<and> dots p \<le> 1 \<and> dir_of p = [] \<and> strip_suffix ''.jsonl'' p \<noteq> None"
  then show "\<exists>doc. map_option f_content (d_now ?d p) = Some (jsonl P doc) \<and>
      (\<forall>(q, dg) \<in> set (doc_refs doc). \<exists>f. d_now ?d q = Some f \<and> f_content f \<noteq> [] \<and>
         take 16 (hex_sha256 (t_sha P) (f_content f)) = take 16 dg)"
    using sound_folder_vouches [OF sound] by blast
qed

end
