(* ===== verification/WriteQueueLive.thy ===== *)
theory WriteQueueLive
  imports WriteQueueProps
begin

text \<open>
  The pool of writers always finishes: every step uses up a part of a bounded amount of work, a
  step is possible until every thread is gone, and then every unit was written or skipped unless
  the run reports an error (\<open>queue_finishes\<close>). The step relation in calm weather is also given
  as a function, so that a run can be evaluated.
\<close>

section \<open>The steps in calm weather, as a function\<close>

definition calm :: weather where
  "calm = \<lparr>w_fault = (\<lambda>flt. flt = Works), w_cancel = False, w_dir_fails = False\<rparr>"

definition next_step ::
  "'x tools \<Rightarrow> write_queue_options \<Rightarrow> (path \<Rightarrow> string + u8 list) \<Rightarrow> nat \<Rightarrow> 'x pool \<Rightarrow> 'x pool option" where
  "next_step P opts read_file i s =
     (if length (pl_workers s) \<le> i then None
      else
        (case pl_workers s ! i of
           Ready \<Rightarrow> Some (set_worker i (if pl_abort s then Stopped else Popping) s)
         | Popping \<Rightarrow>
             (case pl_queue s of
                [] \<Rightarrow> Some (set_worker i Stopped s)
              | u # us \<Rightarrow> Some (set_worker i (Begin u) (s\<lparr>pl_queue := us\<rparr>)))
         | Begin u \<Rightarrow>
             (if wq_resume opts \<and> is_complete_file (pl_disk s) (unit_path P (unit_doc u)) then
                Some (set_worker i (Busy (unit_doc u) [] (Finish (Inr (False, 0)))) s)
              else if wq_media opts = Disabled \<or> unit_jobs u = [] then
                Some (set_worker i (Busy (unit_doc u) [] (Stage [] (map (mark_missing ''not_copied'' \<circ> snd) (unit_jobs u)))) s)
              else Some (set_worker i (Busy (unit_doc u) [CreateDirAll ''attachments/''] (Stage (unit_jobs u) [])) s))
         | Busy doc (op # ops) nx \<Rightarrow>
             Some (set_worker i (Busy doc ops nx) (s\<lparr>pl_disk := apply_op op (pl_disk s)\<rparr>))
         | Busy doc [] (Stage ((source, job) # todo) finished) \<Rightarrow>
             (case stage_one (t_sha P) (t_utc P) Works (load_attachment_source read_file source) (job_seq (pl_seq s)) job of
                (ops, Inr (job', t)) \<Rightarrow>
                  Some (set_worker i (Busy doc ops (Stage todo (finished @ [job']))) (s\<lparr>pl_seq := jt_seq t\<rparr>))
              | (ops, Inl e) \<Rightarrow> Some (set_worker i (Busy doc ops (Finish (Inl e))) s))
         | Busy doc [] (Stage [] finished) \<Rightarrow>
             (case write_format_jsonl P Works (staged_doc (wq_media opts) doc finished) of
                (ops, r) \<Rightarrow>
                  Some (set_worker i
                    (Busy doc ops
                      (Finish (map_err (\<lambda>e. ''write '' @ unit_path P doc @ '': '' @ e)
                         (map_res (\<lambda>_. (True, saved_count finished)) r)))) s))
         | Busy doc [] (Finish (Inr (written, saved))) \<Rightarrow>
             Some (set_worker i Ready (s\<lparr>pl_report := count_unit written saved (pl_report s)\<rparr>))
         | Busy doc [] (Finish (Inl e)) \<Rightarrow>
             Some (set_worker i Stopped
               (s\<lparr>pl_abort := True, pl_error := (case pl_error s of None \<Rightarrow> Some e | Some e' \<Rightarrow> Some e')\<rparr>))
         | Stopped \<Rightarrow> None))"

lemma next_step_step:
  assumes "next_step P opts read_file i s = Some t" and "w_fault w Works"
  shows "pool_step P opts read_file w s t"
proof -
  have i: "i < length (pl_workers s)" using assms(1) by (auto simp: next_step_def split: if_splits)
  show ?thesis
  proof (cases "pl_workers s ! i")
    case Ready
    then have "at s i Ready" using i by (simp add: at_def)
    then show ?thesis using assms(1) i Ready pool_step.aborted pool_step.not_aborted
      by (cases "pl_abort s") (auto simp: next_step_def)
  next
    case Popping
    then show ?thesis using assms(1) i
      by (auto simp: next_step_def at_def split: list.splits intro: pool_step.empty_queue pool_step.pop)
  next
    case (Begin u)
    then show ?thesis using assms(1) i
      by (auto simp: next_step_def at_def split: if_splits
          intro: pool_step.already_written pool_step.media_off pool_step.folder)
  next
    case (Busy doc ops nx)
    show ?thesis
    proof (cases ops)
      case (Cons op ops')
      then show ?thesis using assms(1) i Busy by (auto simp: next_step_def at_def intro: pool_step.call)
    next
      case Nil
      show ?thesis
      proof (cases nx)
        case (Stage todo finished)
        show ?thesis
        proof (cases todo)
          case Nil2: Nil
          obtain calls r where w: "write_format_jsonl P Works (staged_doc (wq_media opts) doc finished) = (calls, r)"
            by (cases "write_format_jsonl P Works (staged_doc (wq_media opts) doc finished)")
          have "at s i (Busy doc [] (Stage [] finished))" using i Busy Nil Nil2 Stage by (simp add: at_def)
          note save = pool_step.save [OF this assms(2) w, of read_file]
          have "t = set_worker i
              (Busy doc calls
                (Finish (map_err (\<lambda>e. ''write '' @ unit_path P doc @ '': '' @ e)
                   (map_res (\<lambda>_. (True, saved_count finished)) r)))) s"
            using assms(1) i Busy Nil Nil2 Stage w by (simp add: next_step_def)
          then show ?thesis using save by (simp only:)
        next
          case (Cons sj todo')
          then show ?thesis using assms i Busy Nil Stage
            by (cases sj) (auto simp: next_step_def at_def split: prod.splits sum.splits
                intro: pool_step.job pool_step.job_error)
        qed
      next
        case (Finish r)
        then show ?thesis using assms(1) i Busy Nil
          by (auto simp: next_step_def at_def split: sum.splits intro: pool_step.unit_done pool_step.unit_failed)
      qed
    qed
  next
    case Stopped
    then show ?thesis using assms(1) i by (simp add: next_step_def)
  qed
qed

section \<open>The work that is left\<close>

definition unit_cost :: "'x conversation_unit \<Rightarrow> nat" where
  "unit_cost u = 10 * length (unit_jobs u) + 20"

fun worker_cost :: "'x worker \<Rightarrow> nat" where
  "worker_cost Ready = 2"
| "worker_cost Popping = 1"
| "worker_cost (Begin u) = unit_cost u"
| "worker_cost (Busy doc ops (Stage todo finished)) = length ops + 10 * length todo + 12"
| "worker_cost (Busy doc ops (Finish r)) = length ops + 3"
| "worker_cost Stopped = 0"

definition pool_cost :: "'x pool \<Rightarrow> nat" where
  "pool_cost s = sum_list (map unit_cost (pl_queue s)) + sum_list (map worker_cost (pl_workers s))"

lemma length_write: "write_atomic_via flt tmp p data = (ops, r) \<Longrightarrow> length ops \<le> 7"
proof (cases flt)
  case Works
  then show "write_atomic_via flt tmp p data = (ops, r) \<Longrightarrow> length ops \<le> 7"
    by (auto simp: write_atomic_via_def)
next
  case (Breaks st e b)
  then show "write_atomic_via flt tmp p data = (ops, r) \<Longrightarrow> length ops \<le> 7"
    by (cases st; cases b) (auto simp: write_atomic_via_def cleanup_def)
qed

lemma length_stage_one: "stage_one sha utc flt answer t job = (ops, r) \<Longrightarrow> length ops \<le> 7"
  by (erule stage_one_cases) (auto simp: persist_clone_def Let_def split: prod.splits dest: length_write)

lemma length_save: "write_format_jsonl P flt doc = (ops, r) \<Longrightarrow> length ops \<le> 7"
  by (auto simp: write_format_jsonl_def write_conversation_jsonl_def write_atomic_def dest: length_write)

text \<open>A step replaces one thread's place by one with less work left.\<close>

lemma sum_list_worker:
  assumes "at s i wk"
  shows "sum_list (map worker_cost ((pl_workers s)[i := wk'])) + worker_cost wk =
    sum_list (map worker_cost (pl_workers s)) + worker_cost wk'"
proof -
  have "sum_list (map worker_cost (ws[i := wk'])) + worker_cost (ws ! i) =
      sum_list (map worker_cost ws) + worker_cost wk'" if "i < length ws" for ws :: "'a worker list"
    using that by (induction ws arbitrary: i) (auto split: nat.split simp: list_update.simps nth_Cons')
  from this [of "pl_workers s"] show ?thesis using assms by (simp add: at_def)
qed

lemma pool_cost_worker:
  assumes "at s i wk" and "worker_cost wk' < worker_cost wk"
    and "pl_queue s' = pl_queue s" and "pl_workers s' = pl_workers s"
  shows "pool_cost (set_worker i wk' s') < pool_cost s"
  using sum_list_worker [OF assms(1), of wk'] assms(2-4) by (simp add: pool_cost_def set_worker_def)

lemma pool_step_cost:
  assumes "pool_step P opts read_file w s t"
  shows "pool_cost t < pool_cost s"
  using assms
proof (cases rule: pool_step.cases)
  case (pop i u us)
  then show ?thesis
    using sum_list_worker [of s i Popping "Begin u"] by (simp add: pool_cost_def set_worker_def)
next
  case (job i doc source job todo finished flt ops job' t')
  show ?thesis unfolding job(1)
    by (rule pool_cost_worker [OF job(2)]) (use length_stage_one [OF job(4)] in simp_all)
next
  case (job_error i doc source job todo finished flt ops e)
  show ?thesis unfolding job_error(1)
    by (rule pool_cost_worker [OF job_error(2)]) (use length_stage_one [OF job_error(4)] in simp_all)
next
  case (save i doc finished flt ops r)
  show ?thesis unfolding save(1)
    by (rule pool_cost_worker [OF save(2)]) (use length_save [OF save(4)] in simp_all)
next
  case (call i doc op ops nx)
  have "worker_cost (Busy doc ops nx) < worker_cost (Busy doc (op # ops) nx)" by (cases nx) simp_all
  then show ?thesis unfolding call(1) by (rule pool_cost_worker [OF call(2)]) simp_all
next
  case (aborted i)
  show ?thesis unfolding aborted(1) by (rule pool_cost_worker [OF aborted(2)]) (simp_all add: unit_cost_def)
next
  case (not_aborted i)
  show ?thesis unfolding not_aborted(1) by (rule pool_cost_worker [OF not_aborted(2)]) (simp_all add: unit_cost_def)
next
  case (empty_queue i)
  show ?thesis unfolding empty_queue(1) by (rule pool_cost_worker [OF empty_queue(2)]) (simp_all add: unit_cost_def)
next
  case (cancelled_unit i u)
  show ?thesis unfolding cancelled_unit(1) by (rule pool_cost_worker [OF cancelled_unit(2)]) (simp_all add: unit_cost_def)
next
  case (already_written i u)
  show ?thesis unfolding already_written(1) by (rule pool_cost_worker [OF already_written(2)]) (simp_all add: unit_cost_def)
next
  case (media_off i u)
  show ?thesis unfolding media_off(1) by (rule pool_cost_worker [OF media_off(2)]) (simp_all add: unit_cost_def)
next
  case (no_folder i u e)
  show ?thesis unfolding no_folder(1) by (rule pool_cost_worker [OF no_folder(2)]) (simp_all add: unit_cost_def)
next
  case (folder i u)
  show ?thesis unfolding folder(1) by (rule pool_cost_worker [OF folder(2)]) (simp_all add: unit_cost_def)
next
  case (cancelled_job i doc job todo finished)
  show ?thesis unfolding cancelled_job(1) by (rule pool_cost_worker [OF cancelled_job(2)]) (simp_all add: unit_cost_def)
next
  case (unit_done i doc written saved)
  show ?thesis unfolding unit_done(1) by (rule pool_cost_worker [OF unit_done(2)]) (simp_all add: unit_cost_def)
next
  case (unit_failed i doc e)
  show ?thesis unfolding unit_failed(1) by (rule pool_cost_worker [OF unit_failed(2)]) (simp_all add: unit_cost_def)
qed

text \<open>A thread that is not gone can step.\<close>

lemma next_step_progress:
  assumes "i < length (pl_workers s)" and "pl_workers s ! i \<noteq> Stopped"
  shows "\<exists>t. next_step P opts read_file i s = Some t"
  using assms
  by (auto simp: next_step_def split: worker.splits list.splits after_calls.splits sum.splits prod.splits if_splits)

section \<open>Every unit is accounted for\<close>

fun has_unit :: "'x worker \<Rightarrow> bool" where
  "has_unit (Begin u) = True"
| "has_unit (Busy doc ops nx) = True"
| "has_unit wk = False"

definition units_in_work :: "'x pool \<Rightarrow> nat" where
  "units_in_work s = length (filter has_unit (pl_workers s))"

definition accounted :: "nat \<Rightarrow> 'x pool \<Rightarrow> bool" where
  "accounted n s \<longleftrightarrow>
     pl_abort s = (pl_error s \<noteq> None) \<and>
     (pl_error s = None \<longrightarrow>
        conversations_written (pl_report s) + conversations_skipped (pl_report s) +
          units_in_work s + length (pl_queue s) = n \<and>
        (Stopped \<in> set (pl_workers s) \<longrightarrow> pl_queue s = []))"

lemma filter_update:
  assumes "i < length ws"
  shows "length (filter f (ws[i := x])) + (if f (ws ! i) then 1 else 0) =
    length (filter f ws) + (if f x then 1 else 0)"
proof -
  have cut: "length (filter f ((xs @ a # ys)[length xs := x])) + (if f ((xs @ a # ys) ! length xs) then 1 else 0) =
      length (filter f (xs @ a # ys)) + (if f x then 1 else 0)" for xs a ys
    by simp
  have len: "length (take i ws) = i" using assms by simp
  show ?thesis
    using cut [of "take i ws" "ws ! i" "drop (Suc i) ws"]
    unfolding len id_take_nth_drop [OF assms, symmetric] .
qed

lemma units_in_work_set:
  assumes "at s i wk" and "pl_workers s' = pl_workers s"
  shows "units_in_work (set_worker i wk' s') + (if has_unit wk then 1 else 0) =
    units_in_work s + (if has_unit wk' then 1 else 0)"
  using filter_update [of i "pl_workers s" has_unit wk'] assms
  by (simp add: units_in_work_def set_worker_def at_def)

lemma stopped_set:
  "Stopped \<in> set (pl_workers (set_worker i wk' s')) \<Longrightarrow> wk' \<noteq> Stopped \<Longrightarrow> pl_workers s' = pl_workers s \<Longrightarrow>
   Stopped \<in> set (pl_workers s)"
  using set_update_subset_insert [of "pl_workers s" i wk'] by (auto simp: set_worker_def)

text \<open>A thread that goes on with its unit, or without one, changes no account.\<close>

lemma accounted_same:
  assumes "accounted n s" and "at s i wk" and "wk' \<noteq> Stopped" and "has_unit wk' = has_unit wk"
    and "pl_workers s' = pl_workers s" "pl_queue s' = pl_queue s" "pl_report s' = pl_report s"
    "pl_error s' = pl_error s" "pl_abort s' = pl_abort s"
  shows "accounted n (set_worker i wk' s')"
proof -
  have "units_in_work (set_worker i wk' s') = units_in_work s"
    using units_in_work_set [OF assms(2,5), of wk'] assms(4) by simp
  moreover have "Stopped \<in> set (pl_workers (set_worker i wk' s')) \<longrightarrow> Stopped \<in> set (pl_workers s)"
    using stopped_set [OF _ assms(3,5)] by blast
  ultimately show ?thesis using assms(1,6-9) by (auto simp: accounted_def set_worker_def)
qed

lemma pool_step_accounted:
  assumes "pool_step P opts read_file w s t" and "accounted n s"
  shows "accounted n t"
  using assms(1)
proof (cases rule: pool_step.cases)
  case (aborted i)
  then show ?thesis using assms(2) by (auto simp: accounted_def set_worker_def)
next
  case (empty_queue i)
  then show ?thesis
    using assms(2) units_in_work_set [of s i Popping s Stopped] by (auto simp: accounted_def set_worker_def)
next
  case (unit_failed i doc e)
  then show ?thesis using assms(2) by (simp add: accounted_def set_worker_def split: option.split)
next
  case (unit_done i doc written saved)
  let ?s = "s\<lparr>pl_report := count_unit written saved (pl_report s)\<rparr>"
  show ?thesis
    using assms(2) unit_done units_in_work_set [OF unit_done(2), of ?s Ready] stopped_set [of i Ready ?s s]
    by (auto simp: accounted_def set_worker_def count_unit_def)
next
  case (pop i u us)
  then show ?thesis
    using assms(2) units_in_work_set [of s i Popping "s\<lparr>pl_queue := us\<rparr>" "Begin u"]
      stopped_set [of i "Begin u" "s\<lparr>pl_queue := us\<rparr>" s]
    by (auto simp: accounted_def set_worker_def)
next
  case (not_aborted i)
  show ?thesis unfolding not_aborted(1) by (rule accounted_same [OF assms(2) not_aborted(2)]) simp_all
next
  case (cancelled_unit i u)
  show ?thesis unfolding cancelled_unit(1) by (rule accounted_same [OF assms(2) cancelled_unit(2)]) simp_all
next
  case (already_written i u)
  show ?thesis unfolding already_written(1) by (rule accounted_same [OF assms(2) already_written(2)]) simp_all
next
  case (media_off i u)
  show ?thesis unfolding media_off(1) by (rule accounted_same [OF assms(2) media_off(2)]) simp_all
next
  case (no_folder i u e)
  show ?thesis unfolding no_folder(1) by (rule accounted_same [OF assms(2) no_folder(2)]) simp_all
next
  case (folder i u)
  show ?thesis unfolding folder(1) by (rule accounted_same [OF assms(2) folder(2)]) simp_all
next
  case (call i doc op ops nx)
  show ?thesis unfolding call(1) by (rule accounted_same [OF assms(2) call(2)]) simp_all
next
  case (cancelled_job i doc job todo finished)
  show ?thesis unfolding cancelled_job(1) by (rule accounted_same [OF assms(2) cancelled_job(2)]) simp_all
next
  case (job i doc source job todo finished flt ops job' t')
  show ?thesis unfolding job(1) by (rule accounted_same [OF assms(2) job(2)]) simp_all
next
  case (job_error i doc source job todo finished flt ops e)
  show ?thesis unfolding job_error(1) by (rule accounted_same [OF assms(2) job_error(2)]) simp_all
next
  case (save i doc finished flt ops r)
  show ?thesis unfolding save(1) by (rule accounted_same [OF assms(2) save(2)]) simp_all
qed

lemma pool_step_workers:
  assumes "pool_step P opts read_file w s t"
  shows "length (pl_workers t) = length (pl_workers s)"
  using assms by (cases rule: pool_step.cases) (simp_all add: set_worker_def)

lemma pool_run_accounted:
  assumes "pool_run P opts read_file w (pool_start n d units) s"
  shows "accounted (length units) s \<and> length (pl_workers s) = n"
  using assms
proof (induction rule: pool_run.induct)
  case start
  show ?case by (auto simp: accounted_def pool_start_def empty_report_def units_in_work_def)
next
  case (step s t)
  then show ?case using pool_step_accounted pool_step_workers by metis
qed

section \<open>Every run ends\<close>

definition all_gone :: "'x pool \<Rightarrow> bool" where
  "all_gone s \<longleftrightarrow> list_all (\<lambda>wk. wk = Stopped) (pl_workers s)"

lemma all_gone_in_work: "all_gone s \<Longrightarrow> units_in_work s = 0"
  by (auto simp: all_gone_def units_in_work_def list_all_iff filter_empty_conv)

lemma run_length:
  assumes "\<And>k. k < m \<Longrightarrow> pool_step P opts read_file w (f k) (f (Suc k))"
  shows "pool_cost (f m) + m \<le> pool_cost (f 0)"
  using assms
proof (induction m)
  case (Suc m)
  then have "pool_cost (f m) + m \<le> pool_cost (f 0)" by simp
  moreover have "pool_cost (f (Suc m)) < pool_cost (f m)" by (rule pool_step_cost [OF Suc.prems]) simp
  ultimately show ?case by simp
qed simp

lemma pool_cost_start: "pool_cost (pool_start n d units) = sum_list (map unit_cost units) + 2 * n"
  by (simp add: pool_cost_def pool_start_def sum_list_replicate)

text \<open>C13: The pool cannot hang: no run makes more steps than ten for each attachment, twenty
  for each unit and two for each thread, and a state from which no step is possible is one where
  every thread is gone and, unless the run failed, every unit was written or skipped.\<close>

theorem queue_finishes:
  assumes "0 < n" and "w_fault w Works" and "pool_run P opts read_file w (pool_start n d units) s"
  shows "(\<forall>f m. f 0 = pool_start n d units \<and> (\<forall>k < m. pool_step P opts read_file w (f k) (f (Suc k))) \<longrightarrow>
        m \<le> sum_list (map unit_cost units) + 2 * n) \<and>
    ((\<exists>t. pool_step P opts read_file w s t) \<or>
     all_gone s \<and>
     (case pl_error s of
        Some e \<Rightarrow> pl_abort s
      | None \<Rightarrow> pl_queue s = [] \<and>
          conversations_written (pl_report s) + conversations_skipped (pl_report s) = length units))"
proof (intro conjI allI impI)
  fix f m assume f: "f 0 = pool_start n d units \<and> (\<forall>k < m. pool_step P opts read_file w (f k) (f (Suc k)))"
  then show "m \<le> sum_list (map unit_cost units) + 2 * n"
    using run_length [of m P opts read_file w f] by (simp add: pool_cost_start)
next
  have acc: "accounted (length units) s" "length (pl_workers s) = n"
    using pool_run_accounted [OF assms(3)] by blast+
  show "(\<exists>t. pool_step P opts read_file w s t) \<or>
     all_gone s \<and>
     (case pl_error s of
        Some e \<Rightarrow> pl_abort s
      | None \<Rightarrow> pl_queue s = [] \<and>
          conversations_written (pl_report s) + conversations_skipped (pl_report s) = length units)"
  proof (cases "all_gone s")
    case True
    have "Stopped \<in> set (pl_workers s)"
      using True acc(2) assms(1) by (cases "pl_workers s") (auto simp: all_gone_def)
    then show ?thesis
      using True acc(1) all_gone_in_work [OF True] by (auto simp: accounted_def split: option.splits)
  next
    case False
    then obtain i where "i < length (pl_workers s)" "pl_workers s ! i \<noteq> Stopped"
      by (auto simp: all_gone_def list_all_length)
    then show ?thesis using next_step_progress next_step_step assms(2) by metis
  qed
qed

section \<open>A schedule\<close>

fun run_schedule ::
  "'x tools \<Rightarrow> write_queue_options \<Rightarrow> (path \<Rightarrow> string + u8 list) \<Rightarrow> nat list \<Rightarrow> 'x pool \<Rightarrow> 'x pool" where
  "run_schedule P opts read_file [] s = s"
| "run_schedule P opts read_file (i # is) s =
     run_schedule P opts read_file is (case next_step P opts read_file i s of None \<Rightarrow> s | Some t \<Rightarrow> t)"

lemma run_schedule_run:
  assumes "pool_run P opts read_file w s0 s" and "w_fault w Works"
  shows "pool_run P opts read_file w s0 (run_schedule P opts read_file is s)"
  using assms(1)
proof (induction "is" arbitrary: s)
  case (Cons i "is")
  have "pool_run P opts read_file w s0 (case next_step P opts read_file i s of None \<Rightarrow> s | Some t \<Rightarrow> t)"
  proof (cases "next_step P opts read_file i s")
    case (Some t)
    have "pool_step P opts read_file w s t" by (rule next_step_step [OF Some assms(2)])
    with Cons.prems show ?thesis by (auto simp: Some intro: pool_run.step)
  qed (use Cons.prems in simp)
  from Cons.IH [OF this] show ?case by simp
qed simp

definition sample_tools :: "unit tools" where
  "sample_tools =
     \<lparr>t_sha = sample_sha, t_lower = to_ascii_lowercase, t_utc = (\<lambda>_. Some ''20240102_030405''),
      t_header_json = (\<lambda>h. as_bytes (conv_chat_identifier (hd_conversation h))),
      t_message_json = (\<lambda>msg. as_bytes (concat (List.map_filter att_path (msg_attachments msg)))),
      t_format_bytes = (\<lambda>_. ''many'')\<rparr>"

definition sample_attachment :: ir_attachment where
  "sample_attachment =
     \<lparr>att_path = None, att_original_name = Some ''a.txt'', att_mime_type = None, att_digest_sha256 = None,
      att_is_sticker = False, att_transcription = None, att_sticker_effect = None, att_size_bytes = None,
      att_missing_reason = None, att_bytes = Some [72, 105]\<rparr>"

definition sample_message :: "unit ir_message" where
  "sample_message =
     \<lparr>msg_guid = ''g'', msg_timestamp_unix_ms = 0, msg_direction = Incoming, msg_service = Sms,
      msg_kind = KindMms, msg_sender_handle = None, msg_sender_display_name = None, msg_owner_handle = None,
      msg_subject = None, msg_text = [], msg_attachments = [sample_attachment], msg_extras = ()\<rparr>"

definition sample_units :: "unit conversation_unit list" where
  "sample_units =
     map (\<lambda>doc. from_doc (doc\<lparr>doc_messages := [sample_message]\<rparr>) (\<lambda>_. take_attachment_bytes))
       [sample_doc ''a'' ''Team'', sample_doc ''b'' ''team'']"

definition sample_named :: "unit conversation_unit list" where
  "sample_named =
     (case give_each_unit_its_own_file sample_tools sample_units of Inr us \<Rightarrow> us | Inl _ \<Rightarrow> [])"

definition sample_options :: write_queue_options where
  "sample_options = \<lparr>wq_media = Clone, wq_resume = True, wq_writer_count = 2\<rparr>"

definition empty_disk :: disk where
  "empty_disk = \<lparr>d_now = (\<lambda>_. None), d_kept = (\<lambda>_. []), d_dirs = (\<lambda>_. Some True)\<rparr>"

text \<open>Two threads that take turns, until both are gone.\<close>

definition sample_run :: "nat \<Rightarrow> unit pool" where
  "sample_run n =
     run_schedule sample_tools sample_options (\<lambda>_. Inl ''no file'') (concat (replicate n [0, 1]))
       (pool_start 2 empty_disk sample_named)"

lemma sample_run_run:
  "w_fault w Works \<Longrightarrow> pool_run sample_tools sample_options (\<lambda>_. Inl ''no file'') w (pool_start 2 empty_disk sample_named) (sample_run n)"
  unfolding sample_run_def by (rule run_schedule_run [OF pool_run.start])

theorem queue_finishes_witness:
  "(\<exists>t. pool_step sample_tools sample_options (\<lambda>_. Inl ''no file'') calm (sample_run 24) t) \<or>
   all_gone (sample_run 24) \<and>
   (case pl_error (sample_run 24) of
      Some e \<Rightarrow> pl_abort (sample_run 24)
    | None \<Rightarrow> pl_queue (sample_run 24) = [] \<and>
        conversations_written (pl_report (sample_run 24)) + conversations_skipped (pl_report (sample_run 24)) =
          length sample_named)"
proof -
  have w: "w_fault calm Works" by (simp add: calm_def)
  show ?thesis
    by (rule queue_finishes [OF _ w sample_run_run [OF w], THEN conjunct2]) simp
qed

lemma sample_named_own: "give_each_unit_its_own_file sample_tools sample_units = Inr sample_named"
  unfolding sample_named_def by code_simp

lemma sample_tools_ok: "tools_ok sample_tools"
  by (auto simp: tools_ok_def sample_tools_def sample_sha_def time_text_def ascii_defs)

lemma sample_units_ok: "list_all unit_ok sample_units"
  by code_simp

lemma empty_disk_sound: "sound_folder P empty_disk"
  by (simp add: sound_folder_def empty_disk_def entries_def)

text \<open>Any weather: the sample's run is one of a disk that may fail, and the power goes in the middle of it.\<close>

theorem queue_vouches_witness:
  "sound_folder sample_tools (power_loss (\<lambda>_. (1, 0)) (pl_disk (sample_run 10)))"
proof -
  let ?w = "\<lparr>w_fault = (\<lambda>_. True), w_cancel = True, w_dir_fails = True\<rparr>"
  have w: "w_fault ?w Works" by simp
  have stays: "folder_stays empty_disk ''attachments/''"
    by (simp add: folder_stays_def empty_disk_def list_all_iff)
  note fact = queue_vouches [OF sample_tools_ok sample_units_ok sample_named_own empty_disk_sound sample_run_run [OF w]]
  have "\<not> folder_lost (\<lambda>_. (1, 0)) (pl_disk (sample_run 10)) ''attachments/''"
    using fact [THEN conjunct2] stays by blast
  then show ?thesis using fact [THEN conjunct1] by blast
qed

end
