(* ===== verification/WriteQueueRefine.thy ===== *)
theory WriteQueueRefine
  imports WriteQueueLive
begin

text \<open>
  The abstract specification of a drain, and its two implementations. What a drain of the units
  does is said without any step: each unit whose file is complete is skipped on a resumed run, each
  other unit's file becomes its document with every attachment staged or marked missing. The drain
  with one writer computes that (\<open>drain_loop_spec\<close>), and so does the pool, however its
  writers interleave (\<open>pool_spec\<close>), so the two agree (\<open>pool_refines_drain\<close>).
\<close>

section \<open>The specification\<close>

definition persisted :: "'x tools \<Rightarrow> attachment_job \<Rightarrow> u8 list \<Rightarrow> attachment_job" where
  "persisted P job bytes =
     job\<lparr>job_attachment := (job_attachment job)
       \<lparr>att_path := Some (''attachments/'' @ staged_name (t_sha P) (t_utc P) job bytes),
        att_digest_sha256 := Some (hex_sha256 (t_sha P) bytes),
        att_size_bytes := Some (word_of_nat (length bytes)),
        att_missing_reason := None\<rparr>\<rparr>"

fun final_job :: "'x tools \<Rightarrow> (path \<Rightarrow> string + u8 list) \<Rightarrow> attachment_source \<times> attachment_job \<Rightarrow> attachment_job" where
  "final_job P read_file (source, job) =
     (case load_attachment_source read_file source of
        Inr (Some (b # bs)) \<Rightarrow> persisted P job (b # bs)
      | _ \<Rightarrow> mark_missing ''file_missing'' job)"

definition spec_jobs ::
  "'x tools \<Rightarrow> write_queue_options \<Rightarrow> (path \<Rightarrow> string + u8 list) \<Rightarrow> 'x conversation_unit \<Rightarrow> attachment_job list" where
  "spec_jobs P opts read_file u =
     (if wq_media opts = Disabled then map (mark_missing ''not_copied'' \<circ> snd) (unit_jobs u)
      else map (final_job P read_file) (unit_jobs u))"

definition spec_skips :: "'x tools \<Rightarrow> write_queue_options \<Rightarrow> disk \<Rightarrow> 'x conversation_unit \<Rightarrow> bool" where
  "spec_skips P opts d u \<longleftrightarrow> wq_resume opts \<and> is_complete_file d (unit_path P (unit_doc u))"

definition spec_file ::
  "'x tools \<Rightarrow> write_queue_options \<Rightarrow> (path \<Rightarrow> string + u8 list) \<Rightarrow> disk \<Rightarrow> 'x conversation_unit \<Rightarrow> disk_file option" where
  "spec_file P opts read_file d u =
     (if spec_skips P opts d u then d_now d (unit_path P (unit_doc u))
      else Some \<lparr>f_content =
          jsonl P (finalize_stats (staged_doc (wq_media opts) (unit_doc u) (spec_jobs P opts read_file u))),
        f_synced = True\<rparr>)"

definition spec_outcome ::
  "'x tools \<Rightarrow> write_queue_options \<Rightarrow> (path \<Rightarrow> string + u8 list) \<Rightarrow> disk \<Rightarrow> 'x conversation_unit \<Rightarrow> bool \<times> nat" where
  "spec_outcome P opts read_file d u =
     (if spec_skips P opts d u then (False, 0) else (True, saved_count (spec_jobs P opts read_file u)))"

section \<open>Names a run of calls touches\<close>

fun touches_of :: "fs_op \<Rightarrow> path set" where
  "touches_of (CreateFile t) = {t}"
| "touches_of (WriteAll t bs) = {t}"
| "touches_of (SyncFile t) = {t}"
| "touches_of (Rename t p) = {t, p}"
| "touches_of (RemoveFile t) = {t}"
| "touches_of _ = {}"

definition touches :: "fs_op list \<Rightarrow> path set" where
  "touches ops = (\<Union>op \<in> set ops. touches_of op)"

lemma touches_simps [simp]:
  "touches [] = {}"
  "touches (op # ops) = touches_of op \<union> touches ops"
  "touches (ops @ ops') = touches ops \<union> touches ops'"
  by (auto simp: touches_def)

lemma apply_op_untouched: "p \<notin> touches_of op \<Longrightarrow> d_now (apply_op op d) p = d_now d p"
  by (cases op) (auto split: option.splits)

lemma run_ops_untouched: "p \<notin> touches ops \<Longrightarrow> d_now (run_ops ops d) p = d_now d p"
  by (induction ops arbitrary: d) (auto simp: apply_op_untouched)

lemma apply_op_local:
  assumes "\<And>q. q \<in> touches_of op \<Longrightarrow> d_now d q = d_now d' q" and "d_now d p = d_now d' p"
  shows "d_now (apply_op op d) p = d_now (apply_op op d') p"
proof (cases op)
  case (Rename t q)
  then have "d_now d t = d_now d' t" "d_now d q = d_now d' q" using assms(1) by simp_all
  then show ?thesis using Rename assms(2) by (cases "d_now d' t") simp_all
next
  case (SyncDir q)
  then show ?thesis using assms(2) by simp
qed (use assms in auto)

lemma run_ops_local:
  assumes "\<And>q. q \<in> A \<Longrightarrow> d_now d q = d_now d' q" and "touches ops \<subseteq> A" and "p \<in> A"
  shows "d_now (run_ops ops d) p = d_now (run_ops ops d') p"
  using assms
proof (induction ops arbitrary: d d')
  case (Cons op ops)
  have "d_now (apply_op op d) q = d_now (apply_op op d') q" if "q \<in> A" for q
  proof (rule apply_op_local)
    show "d_now d q = d_now d' q" by (rule Cons.prems(1) [OF that])
    show "d_now d q' = d_now d' q'" if "q' \<in> touches_of op" for q'
      by (rule Cons.prems(1)) (use Cons.prems(2) that in auto)
  qed
  moreover have "touches ops \<subseteq> A" using Cons.prems(2) by simp
  ultimately show ?case unfolding run_ops_simps by (rule Cons.IH [OF _ _ Cons.prems(3)])
qed simp

lemma write_touches: "write_atomic_via flt tmp p data = (ops, r) \<Longrightarrow> touches ops \<subseteq> {tmp, p}"
proof (cases flt)
  case Works
  then show "write_atomic_via flt tmp p data = (ops, r) \<Longrightarrow> touches ops \<subseteq> {tmp, p}"
    by (auto simp: write_atomic_via_def)
next
  case (Breaks st e b)
  then show "write_atomic_via flt tmp p data = (ops, r) \<Longrightarrow> touches ops \<subseteq> {tmp, p}"
    by (cases st; cases b) (auto simp: write_atomic_via_def cleanup_def)
qed

lemma write_works:
  assumes "tmp \<noteq> p" and "write_atomic_via Works tmp p data = (ops, r)"
  shows "r = Inr ()" "d_now (run_ops ops d) p = Some \<lparr>f_content = data, f_synced = True\<rparr>"
proof -
  show r: "r = Inr ()" using assms(2) by (auto simp: write_atomic_via_def)
  have "entries (run_ops ops d) p = {Some \<lparr>f_content = data, f_synced = True\<rparr>}"
    using write_done assms r by blast
  then show "d_now (run_ops ops d) p = Some \<lparr>f_content = data, f_synced = True\<rparr>"
    using now_entry [of "run_ops ops d" p] by auto
qed

definition in_folder :: "path set" where
  "in_folder = {q. CHR ''/'' \<in> set q}"

definition file_names :: "'x tools \<Rightarrow> 'x conversation_document \<Rightarrow> path set" where
  "file_names P doc = {unit_path P doc, unit_path P doc @ ''.tmp''}"

lemma file_names_apart:
  assumes "stem_suffix_ok doc" and "stem_suffix_ok doc'" and "unit_path P doc \<noteq> unit_path P doc'"
  shows "file_names P doc \<inter> file_names P doc' = {}" "file_names P doc \<inter> in_folder = {}"
proof -
  have "unit_path P a \<noteq> unit_path P b @ ''.tmp''" if "stem_suffix_ok a" "stem_suffix_ok b" for a b
    using unit_path_ok(1) [OF that(1), of P] unit_path_ok(2) [OF that(2), of P]
    by (metis one_eq_numeral_iff num.distinct(1))
  then show "file_names P doc \<inter> file_names P doc' = {}" using assms by (auto simp: file_names_def)
  show "file_names P doc \<inter> in_folder = {}"
    using unit_temp_plain [OF assms(1), of P] by (auto simp: file_names_def in_folder_def)
qed

lemma file_names_folder: "stem_suffix_ok doc \<Longrightarrow> file_names P doc \<inter> in_folder = {}"
  using unit_temp_plain [of doc P] by (auto simp: file_names_def in_folder_def)

section \<open>One job and one file without failure\<close>

lemma load_not_cancelled: "load_attachment_source read_file source \<noteq> Inl ''cancelled''"
  by (cases source) (auto simp: load_attachment_source_def map_err_def map_res_def split: sum.splits)

lemma stage_one_works:
  assumes "stage_one (t_sha P) (t_utc P) Works (load_attachment_source read_file source) t job = (ops, r)"
  shows "\<exists>t'. r = Inr (final_job P read_file (source, job), t')" "touches ops \<subseteq> in_folder"
proof -
  have "\<exists>t'. r = Inr (final_job P read_file (source, job), t') \<and> touches ops \<subseteq> in_folder"
    using assms
  proof (cases rule: stage_one_cases)
    case cancelled
    then show ?thesis using load_not_cancelled by blast
  next
    case (missing t')
    then have "final_job P read_file (source, job) = mark_missing ''file_missing'' job"
      by (auto split: sum.split option.split list.split)
    then show ?thesis using missing by simp
  next
    case (written b bs r' t')
    let ?name = "staged_name (t_sha P) (t_utc P) job (b # bs)"
    let ?tmp = "''attachments/'' @ next_clone_temp_name (jt_seq t) ?name"
    obtain r1 where w: "write_atomic_via Works ?tmp (''attachments/'' @ ?name) (b # bs) = (ops, r1)"
      and r': "r' = map_res (\<lambda>_. persisted P job (b # bs)) r1"
      using written(2) by (auto simp: persist_clone_def persisted_def Let_def split: prod.splits)
    have "r1 = Inr ()" using w by (auto simp: write_atomic_via_def)
    moreover have "touches ops \<subseteq> in_folder"
      using write_touches [OF w] by (auto simp: in_folder_def)
    ultimately show ?thesis using written(1,3) r' by simp
  qed
  then show "\<exists>t'. r = Inr (final_job P read_file (source, job), t')" "touches ops \<subseteq> in_folder" by blast+
qed

lemma save_works:
  assumes "write_format_jsonl P Works (staged_doc media doc jobs) = (ops, r)"
  shows "r = Inr ()" "touches ops \<subseteq> file_names P doc"
    "d_now (run_ops ops d) (unit_path P doc) =
       Some \<lparr>f_content = jsonl P (finalize_stats (staged_doc media doc jobs)), f_synced = True\<rparr>"
proof -
  have w: "write_atomic_via Works (unit_path P doc @ ''.tmp'') (unit_path P doc)
      (jsonl P (finalize_stats (staged_doc media doc jobs))) = (ops, r)"
    using assms by (simp add: write_format_jsonl_def write_conversation_jsonl_def write_atomic_def)
  have "unit_path P doc @ ''.tmp'' \<noteq> unit_path P doc" by simp
  note works = write_works [OF this w]
  show "r = Inr ()" by (rule works(1))
  show "d_now (run_ops ops d) (unit_path P doc) =
       Some \<lparr>f_content = jsonl P (finalize_stats (staged_doc media doc jobs)), f_synced = True\<rparr>"
    by (rule works(2))
  show "touches ops \<subseteq> file_names P doc" using write_touches [OF w] by (auto simp: file_names_def)
qed

section \<open>One writer computes the specification\<close>

definition calm_unit :: unit_surroundings where
  "calm_unit =
     \<lparr>us_cancelled = False, us_cancel = (\<lambda>_. False), us_fault = (\<lambda>_. Works), us_dir = None, us_write = Works\<rparr>"

lemma calm_unit_simps [simp]:
  "us_cancelled calm_unit = False" "us_cancel calm_unit i = False" "us_fault calm_unit i = Works"
  "us_dir calm_unit = None" "us_write calm_unit = Works"
  by (simp_all add: calm_unit_def)

lemma jobs_loop_works:
  assumes "sources = done_sources @ map fst sjs"
  shows "\<exists>ops ps t'. jobs_loop (t_sha P) (t_utc P) (job_surroundings (load_attachment_source read_file) calm_unit sources)
      (length done_sources) n t (map snd sjs) = (ops, ps, Inr (map (final_job P read_file) sjs, t')) \<and>
    touches ops \<subseteq> in_folder"
  using assms
proof (induction sjs arbitrary: done_sources t)
  case Nil
  show ?case by simp
next
  case (Cons sj sjs)
  let ?env = "job_surroundings (load_attachment_source read_file) calm_unit sources"
  obtain source job where sj: "sj = (source, job)" by (cases sj)
  have load: "env_load ?env (length done_sources) = load_attachment_source read_file source"
    using Cons.prems by (simp add: job_surroundings_def nth_opt_def sj nth_append)
  obtain ops r where st: "stage_one (t_sha P) (t_utc P) Works (load_attachment_source read_file source) t job = (ops, r)"
    by (cases "stage_one (t_sha P) (t_utc P) Works (load_attachment_source read_file source) t job")
  obtain t1 where r: "r = Inr (final_job P read_file sj, t1)" and tch: "touches ops \<subseteq> in_folder"
    using stage_one_works [OF st] sj by blast
  obtain ops' ps t' where rest: "jobs_loop (t_sha P) (t_utc P) ?env (length done_sources + 1) n t1 (map snd sjs) =
      (ops', ps, Inr (map (final_job P read_file) sjs, t'))" "touches ops' \<subseteq> in_folder"
    using Cons.IH [of "done_sources @ [source]" t1] Cons.prems sj by auto
  have "jobs_loop (t_sha P) (t_utc P) ?env (length done_sources) n t (map snd (sj # sjs)) =
      (ops @ ops', progress_of (length done_sources + 1) n t1 # ps, Inr (map (final_job P read_file) (sj # sjs), t'))"
    using st r rest(1) load sj by (simp add: job_surroundings_def)
  then show ?case using tch rest(2) by auto
qed

lemma write_one_unit_works:
  fixes read_file :: "path \<Rightarrow> string + u8 list"
  defines "load \<equiv> load_attachment_source read_file"
  shows "\<exists>ops ps seq'. write_one_unit P opts load calm_unit seq d u =
      (ops, ps, Inr (fst (spec_outcome P opts read_file d u), snd (spec_outcome P opts read_file d u), seq')) \<and>
    touches ops \<subseteq> in_folder \<union> file_names P (unit_doc u) \<and>
    (stem_suffix_ok (unit_doc u) \<longrightarrow>
      d_now (run_ops ops d) (unit_path P (unit_doc u)) = spec_file P opts read_file d u)"
proof (cases "spec_skips P opts d u")
  case True
  then show ?thesis
    by (simp add: write_one_unit_def spec_skips_def spec_outcome_def spec_file_def Let_def)
next
  case False
  let ?jobs = "unit_jobs u" and ?env = "job_surroundings load calm_unit (map fst (unit_jobs u))"
  have run: "\<exists>ops ps seq'. run_attachment_jobs (t_sha P) (t_utc P) Inr ?env (stage_mode (wq_media opts)) seq (map snd ?jobs) =
      (ops, ps, Inr (spec_jobs P opts read_file u, seq')) \<and> touches ops \<subseteq> in_folder"
  proof (cases "wq_media opts = Disabled \<or> ?jobs = []")
    case True
    then show ?thesis
      by (cases "?jobs = []") (auto simp: run_attachment_jobs_def stage_mode_def spec_jobs_def Let_def)
  next
    case enabled: False
    obtain ops ps t' where "jobs_loop (t_sha P) (t_utc P) ?env 0 (length ?jobs)
        \<lparr>jt_seq = seq, jt_bytes_done = 0, jt_bytes_total = hint_sum (map snd ?jobs)\<rparr> (map snd ?jobs) =
        (ops, ps, Inr (map (final_job P read_file) ?jobs, t'))" "touches ops \<subseteq> in_folder"
      using jobs_loop_works [of "map fst ?jobs" "[]" ?jobs] unfolding load_def by fastforce
    then show ?thesis using enabled
      by (simp add: run_attachment_jobs_def stage_mode_def spec_jobs_def Let_def job_surroundings_def)
  qed
  then obtain ops ps seq' where ops: "run_attachment_jobs (t_sha P) (t_utc P) Inr ?env (stage_mode (wq_media opts)) seq (map snd ?jobs) =
      (ops, ps, Inr (spec_jobs P opts read_file u, seq'))" "touches ops \<subseteq> in_folder"
    by blast
  obtain ops' r where save: "write_format_jsonl P Works
      (staged_doc (wq_media opts) (unit_doc u) (spec_jobs P opts read_file u)) = (ops', r)"
    by (cases "write_format_jsonl P Works (staged_doc (wq_media opts) (unit_doc u) (spec_jobs P opts read_file u))")
  note works = save_works [OF save]
  have "write_one_unit P opts load calm_unit seq d u =
      (ops @ ops', progress_changes (attachment_hints (unit_attachments u)) 0 0 0 ps,
       Inr (True, saved_count (spec_jobs P opts read_file u), seq'))"
    using False ops(1) save works(1)
    by (simp add: write_one_unit_def spec_skips_def Let_def)
  then show ?thesis
    using ops(2) works(2,3) False by (auto simp: spec_outcome_def spec_file_def)
qed

definition report_value :: "nat \<Rightarrow> write_queue_report \<Rightarrow> nat" where
  "report_value k r =
     (if k = 0 then conversations_written r else if k = 1 then conversations_skipped r else attachments_saved r)"

definition outcome_value :: "nat \<Rightarrow> bool \<times> nat \<Rightarrow> nat" where
  "outcome_value k bn =
     (if k = 0 then (if fst bn then 1 else 0) else if k = 1 then (if fst bn then 0 else 1) else snd bn)"

lemma report_value_count [simp]:
  "report_value k (count_unit written saved r) = report_value k r + outcome_value k (written, saved)"
  by (simp add: report_value_def outcome_value_def count_unit_def)

lemma report_value_eq:
  assumes "\<And>k. report_value k r = report_value k r'"
  shows "r = (r' :: write_queue_report)"
  using assms [of 0] assms [of 1] assms [of 2] by (simp add: report_value_def)

definition spec_value ::
  "'x tools \<Rightarrow> write_queue_options \<Rightarrow> (path \<Rightarrow> string + u8 list) \<Rightarrow> disk \<Rightarrow> nat \<Rightarrow> 'x conversation_unit list \<Rightarrow> nat" where
  "spec_value P opts read_file d k units =
     sum_list (map (\<lambda>u. outcome_value k (spec_outcome P opts read_file d u)) units)"

lemma spec_cong:
  assumes "d_now d (unit_path P (unit_doc u)) = d_now d' (unit_path P (unit_doc u))"
  shows "spec_skips P opts d u = spec_skips P opts d' u"
    "spec_outcome P opts read_file d u = spec_outcome P opts read_file d' u"
    "spec_file P opts read_file d u = spec_file P opts read_file d' u"
  using assms by (simp_all add: spec_skips_def spec_outcome_def spec_file_def is_complete_file_def)

text \<open>A unit's calls leave the files of the other units alone.\<close>

lemma unit_calls_other:
  assumes "touches ops \<subseteq> in_folder \<union> file_names P doc" and "stem_suffix_ok doc" and "stem_suffix_ok doc'"
    and "unit_path P doc \<noteq> unit_path P doc'"
  shows "d_now (run_ops ops d) (unit_path P doc') = d_now d (unit_path P doc')"
proof (rule run_ops_untouched)
  have "unit_path P doc' \<in> file_names P doc'" by (simp add: file_names_def)
  then show "unit_path P doc' \<notin> touches ops"
    using assms(1) file_names_apart [OF assms(3,2)] assms(4) by (metis IntI Un_iff empty_iff in_mono)
qed

lemma drain_loop_spec:
  fixes read_file :: "path \<Rightarrow> string + u8 list" and units :: "'x conversation_unit list"
  defines "load \<equiv> load_attachment_source read_file"
  assumes "\<And>u. u \<in> set units \<Longrightarrow> stem_suffix_ok (unit_doc u)" and "distinct (map (unit_path P \<circ> unit_doc) units)"
  shows "\<exists>ds'. drain_loop P opts load (\<lambda>_. calm_unit) i ds units = (ds', Inr ()) \<and>
    (\<forall>k. report_value k (ds_report ds') =
       report_value k (ds_report ds) + spec_value P opts read_file (ds_disk ds) k units) \<and>
    (\<forall>u \<in> set units. d_now (ds_disk ds') (unit_path P (unit_doc u)) = spec_file P opts read_file (ds_disk ds) u) \<and>
    (\<forall>doc. stem_suffix_ok doc \<and> unit_path P doc \<notin> set (map (unit_path P \<circ> unit_doc) units) \<longrightarrow>
       d_now (ds_disk ds') (unit_path P doc) = d_now (ds_disk ds) (unit_path P doc))"
  using assms(2,3)
proof (induction units arbitrary: i ds)
  case Nil
  show ?case by (simp add: spec_value_def)
next
  case (Cons u units)
  let ?d = "ds_disk ds" and ?oc = "spec_outcome P opts read_file (ds_disk ds) u"
  obtain ops ps seq' where one: "write_one_unit P opts load calm_unit (ds_seq ds) ?d u = (ops, ps, Inr (fst ?oc, snd ?oc, seq'))"
    and tch: "touches ops \<subseteq> in_folder \<union> file_names P (unit_doc u)"
    and written: "d_now (run_ops ops ?d) (unit_path P (unit_doc u)) = spec_file P opts read_file ?d u"
    using write_one_unit_works [of P opts read_file "ds_seq ds" ?d u] Cons.prems(1) [of u] unfolding load_def by auto
  define ds1 where "ds1 = \<lparr>ds_disk = run_ops ops ?d, ds_seq = seq',
      ds_report = count_unit (fst ?oc) (snd ?oc) (ds_report ds), ds_progress = fold add_progress ps (ds_progress ds)\<rparr>"
  have loop: "drain_loop P opts load (\<lambda>_. calm_unit) i ds (u # units) =
      drain_loop P opts load (\<lambda>_. calm_unit) (i + 1) ds1 units"
    using one by (simp add: ds1_def)
  have same: "d_now (ds_disk ds1) (unit_path P doc) = d_now ?d (unit_path P doc)"
    if "stem_suffix_ok doc" "unit_path P doc \<noteq> unit_path P (unit_doc u)" for doc
    using unit_calls_other [OF tch] Cons.prems(1) [of u] that by (simp add: ds1_def)
  have apart: "unit_path P (unit_doc v) \<noteq> unit_path P (unit_doc u)" if "v \<in> set units" for v
    using Cons.prems(2) imageI [OF that, of "\<lambda>v. unit_path P (unit_doc v)"] by auto
  have cong: "spec_outcome P opts read_file (ds_disk ds1) v = spec_outcome P opts read_file ?d v"
    "spec_file P opts read_file (ds_disk ds1) v = spec_file P opts read_file ?d v" if "v \<in> set units" for v
    using spec_cong [OF same] apart [OF that] Cons.prems(1) that by auto
  obtain ds' where ds': "drain_loop P opts load (\<lambda>_. calm_unit) (i + 1) ds1 units = (ds', Inr ())"
    "\<And>k. report_value k (ds_report ds') = report_value k (ds_report ds1) + spec_value P opts read_file (ds_disk ds1) k units"
    "\<And>v. v \<in> set units \<Longrightarrow> d_now (ds_disk ds') (unit_path P (unit_doc v)) = spec_file P opts read_file (ds_disk ds1) v"
    "\<And>doc. stem_suffix_ok doc \<Longrightarrow> unit_path P doc \<notin> set (map (unit_path P \<circ> unit_doc) units) \<Longrightarrow>
       d_now (ds_disk ds') (unit_path P doc) = d_now (ds_disk ds1) (unit_path P doc)"
    using Cons.IH [of "i + 1" ds1] Cons.prems by auto
  have "report_value k (ds_report ds') = report_value k (ds_report ds) + spec_value P opts read_file ?d k (u # units)" for k
    using ds'(2) [of k] cong(1) by (simp add: spec_value_def ds1_def cong: map_cong)
  moreover have "d_now (ds_disk ds') (unit_path P (unit_doc v)) = spec_file P opts read_file ?d v" if "v \<in> set (u # units)" for v
  proof (cases "v \<in> set units")
    case True
    then show ?thesis using ds'(3) cong(2) by simp
  next
    case False
    then have "v = u" using that by simp
    moreover have "d_now (ds_disk ds') (unit_path P (unit_doc u)) = d_now (ds_disk ds1) (unit_path P (unit_doc u))"
      by (rule ds'(4)) (use Cons.prems in auto)
    ultimately show ?thesis using written by (simp add: ds1_def)
  qed
  moreover have "d_now (ds_disk ds') (unit_path P doc) = d_now ?d (unit_path P doc)"
    if "stem_suffix_ok doc" "unit_path P doc \<notin> set (map (unit_path P \<circ> unit_doc) (u # units))" for doc
    using ds'(4) [of doc] same [of doc] that by auto
  ultimately show ?case using loop ds'(1) by auto
qed

section \<open>The pool in calm weather\<close>

definition worker_calm ::
  "'x tools \<Rightarrow> write_queue_options \<Rightarrow> (path \<Rightarrow> string + u8 list) \<Rightarrow> disk \<Rightarrow> 'x conversation_unit list \<Rightarrow> disk \<Rightarrow>
   'x worker \<Rightarrow> bool" where
  "worker_calm P opts read_file d0 units d wk =
     (case wk of
        Begin u \<Rightarrow> u \<in> set units \<and> d_now d (unit_path P (unit_doc u)) = d_now d0 (unit_path P (unit_doc u))
      | Busy doc ops nx \<Rightarrow>
          (\<exists>u \<in> set units. unit_doc u = doc \<and>
             (case nx of
                Stage todo finished \<Rightarrow>
                  \<not> spec_skips P opts d0 u \<and> touches ops \<subseteq> in_folder \<and>
                  finished @ map (final_job P read_file) todo = spec_jobs P opts read_file u
              | Finish r \<Rightarrow>
                  r = Inr (spec_outcome P opts read_file d0 u) \<and> touches ops \<subseteq> file_names P doc \<and>
                  d_now (run_ops ops d) (unit_path P doc) = spec_file P opts read_file d0 u))
      | _ \<Rightarrow> True)"

text \<open>What a writer's unit will add to the report.\<close>

definition due :: "'x tools \<Rightarrow> write_queue_options \<Rightarrow> (path \<Rightarrow> string + u8 list) \<Rightarrow> disk \<Rightarrow> nat \<Rightarrow> 'x worker \<Rightarrow> nat" where
  "due P opts read_file d0 k wk =
     (case wk of
        Begin u \<Rightarrow> outcome_value k (spec_outcome P opts read_file d0 u)
      | Busy _ _ (Stage todo finished) \<Rightarrow>
          outcome_value k (True, saved_count (finished @ map (final_job P read_file) todo))
      | Busy _ _ (Finish (Inr bn)) \<Rightarrow> outcome_value k bn
      | _ \<Rightarrow> 0)"

definition in_flight :: "'x tools \<Rightarrow> 'x pool \<Rightarrow> path set" where
  "in_flight P s = set (queue_paths P s) \<union> {p. Some p \<in> set (map (unit_path_of P) (pl_workers s))}"

definition calm_inv ::
  "'x tools \<Rightarrow> write_queue_options \<Rightarrow> (path \<Rightarrow> string + u8 list) \<Rightarrow> disk \<Rightarrow> 'x conversation_unit list \<Rightarrow> 'x pool \<Rightarrow> bool" where
  "calm_inv P opts read_file d0 units s \<longleftrightarrow>
     pl_error s = None \<and> \<not> pl_abort s \<and>
     (\<forall>wk \<in> set (pl_workers s). worker_calm P opts read_file d0 units (pl_disk s) wk) \<and>
     (\<forall>u \<in> set (pl_queue s). u \<in> set units \<and>
        d_now (pl_disk s) (unit_path P (unit_doc u)) = d_now d0 (unit_path P (unit_doc u))) \<and>
     (\<forall>u \<in> set units. unit_path P (unit_doc u) \<notin> in_flight P s \<longrightarrow>
        d_now (pl_disk s) (unit_path P (unit_doc u)) = spec_file P opts read_file d0 u) \<and>
     (\<forall>k. report_value k (pl_report s) + sum_list (map (due P opts read_file d0 k) (pl_workers s)) +
        spec_value P opts read_file d0 k (pl_queue s) = spec_value P opts read_file d0 k units)"

lemma sum_list_update_nat:
  fixes f :: "'b \<Rightarrow> nat"
  assumes "i < length ws"
  shows "sum_list (map f (ws[i := x])) + f (ws ! i) = sum_list (map f ws) + f x"
proof -
  have cut: "sum_list (map f ((xs @ a # ys)[length xs := x])) + f ((xs @ a # ys) ! length xs) =
      sum_list (map f (xs @ a # ys)) + f x" for xs a ys
    by simp
  have len: "length (take i ws) = i" using assms by simp
  show ?thesis
    using cut [of "take i ws" "ws ! i" "drop (Suc i) ws"]
    unfolding len id_take_nth_drop [OF assms, symmetric] .
qed

lemma map_update_same: "f x = f (ws ! i) \<Longrightarrow> map f (ws[i := x]) = map f ws"
  by (metis list_update_id map_update)

text \<open>A writer that goes on with the same unit, or without one.\<close>

lemma calm_inv_worker:
  assumes inv: "calm_inv P opts read_file d0 units s" and at: "at s i wk"
    and "worker_calm P opts read_file d0 units (pl_disk s) wk'"
    and "unit_path_of P wk' = unit_path_of P wk" and "\<And>k. due P opts read_file d0 k wk' = due P opts read_file d0 k wk"
    and t: "pl_workers t = (pl_workers s)[i := wk']" "pl_disk t = pl_disk s" "pl_queue t = pl_queue s"
    "pl_report t = pl_report s" "pl_error t = pl_error s" "pl_abort t = pl_abort s"
  shows "calm_inv P opts read_file d0 units t"
proof -
  have i: "i < length (pl_workers s)" "pl_workers s ! i = wk" using at by (auto simp: at_def)
  have "map (unit_path_of P) (pl_workers t) = map (unit_path_of P) (pl_workers s)"
    using assms(4) i by (simp add: t map_update_same)
  then have "in_flight P t = in_flight P s" by (simp only: in_flight_def queue_paths_def t)
  moreover have "map (due P opts read_file d0 k) (pl_workers t) = map (due P opts read_file d0 k) (pl_workers s)" for k
    using assms(5) i by (simp add: t map_update_same)
  moreover have "set (pl_workers t) \<subseteq> insert wk' (set (pl_workers s))"
    using set_update_subset_insert t(1) by metis
  ultimately show ?thesis using inv assms(3) t by (auto simp: calm_inv_def)
qed

lemma calm_at: "calm_inv P opts read_file d0 units s \<Longrightarrow> at s i wk \<Longrightarrow> worker_calm P opts read_file d0 units (pl_disk s) wk"
  by (auto simp: calm_inv_def at_def)

lemma calm_inv_pop:
  assumes inv: "calm_inv P opts read_file d0 units s" and at: "at s i Popping" and q: "pl_queue s = u # us"
  shows "calm_inv P opts read_file d0 units (set_worker i (Begin u) (s\<lparr>pl_queue := us\<rparr>))"
    (is "calm_inv _ _ _ _ _ ?t")
proof -
  have i: "i < length (pl_workers s)" "pl_workers s ! i = Popping" using at by (auto simp: at_def)
  have ws: "pl_workers ?t = (pl_workers s)[i := Begin u]" by (simp add: set_worker_def)
  have "p \<in> in_flight P ?t" if p: "p \<in> in_flight P s" for p
  proof -
    consider "p = unit_path P (unit_doc u)" | "p \<in> set (queue_paths P ?t)"
      | "Some p \<in> set (map (unit_path_of P) (pl_workers s))"
      using p q by (auto simp: in_flight_def queue_paths_def set_worker_def)
    then show ?thesis
    proof cases
      case 1
      have "Begin u \<in> set (pl_workers ?t)" unfolding ws by (rule set_update_memI [OF i(1)])
      then have "unit_path_of P (Begin u) \<in> set (map (unit_path_of P) (pl_workers ?t))"
        unfolding set_map by (rule imageI)
      then show ?thesis using 1 unfolding in_flight_def by (simp add: unit_path_of_def)
    next
      case 2
      then show ?thesis by (simp add: in_flight_def)
    next
      case 3
      then obtain j where j: "j < length (pl_workers s)" "unit_path_of P (pl_workers s ! j) = Some p"
        by (auto simp: in_set_conv_nth)
      then have "j \<noteq> i" using i(2) by (auto simp: unit_path_of_def)
      then have "pl_workers ?t ! j = pl_workers s ! j" "j < length (pl_workers ?t)" using j(1) ws by simp_all
      then have "Some p \<in> unit_path_of P ` set (pl_workers ?t)" using j(2) by (metis imageI nth_mem)
      then show ?thesis by (simp add: in_flight_def)
    qed
  qed
  then have "in_flight P s \<subseteq> in_flight P ?t" by blast
  moreover have "sum_list (map (due P opts read_file d0 k) (pl_workers ?t)) =
      sum_list (map (due P opts read_file d0 k) (pl_workers s)) + outcome_value k (spec_outcome P opts read_file d0 u)" for k
    using sum_list_update_nat [OF i(1), of "due P opts read_file d0 k" "Begin u"] i(2) ws by (simp add: due_def)
  moreover have "spec_value P opts read_file d0 k (pl_queue s) =
      outcome_value k (spec_outcome P opts read_file d0 u) + spec_value P opts read_file d0 k us" for k
    by (simp add: spec_value_def q)
  moreover have "set (pl_workers ?t) \<subseteq> insert (Begin u) (set (pl_workers s))"
    unfolding ws by (rule set_update_subset_insert)
  moreover have "worker_calm P opts read_file d0 units (pl_disk s) (Begin u)"
    using inv q by (simp add: calm_inv_def worker_calm_def)
  ultimately show ?thesis
    using inv q by (auto simp: calm_inv_def set_worker_def add.assoc)
qed

lemma calm_inv_done:
  assumes inv: "calm_inv P opts read_file d0 units s" and at: "at s i (Busy doc [] (Finish (Inr (written, saved))))"
    and dist: "distinct (map (unit_path P \<circ> unit_doc) units)"
  shows "calm_inv P opts read_file d0 units (set_worker i Ready (s\<lparr>pl_report := count_unit written saved (pl_report s)\<rparr>))"
    (is "calm_inv _ _ _ _ _ ?t")
proof -
  let ?wk = "Busy doc [] (Finish (Inr (written, saved)))"
  have i: "i < length (pl_workers s)" "pl_workers s ! i = ?wk" using at by (auto simp: at_def)
  have ws: "pl_workers ?t = (pl_workers s)[i := Ready]" by (simp add: set_worker_def)
  obtain u where u: "u \<in> set units" "unit_doc u = doc"
    and written: "d_now (pl_disk s) (unit_path P doc) = spec_file P opts read_file d0 u"
    using calm_at [OF inv at] by (auto simp: worker_calm_def)
  have files: "d_now (pl_disk ?t) (unit_path P (unit_doc v)) = spec_file P opts read_file d0 v"
    if v: "v \<in> set units" "unit_path P (unit_doc v) \<notin> in_flight P ?t" for v
  proof (cases "unit_path P (unit_doc v) = unit_path P doc")
    case True
    then have "v = u" using dist u v(1) by (simp add: distinct_map inj_on_def)
    then show ?thesis using written u(2) by (simp add: set_worker_def)
  next
    case False
    have "unit_path P (unit_doc v) \<notin> in_flight P s"
    proof
      assume "unit_path P (unit_doc v) \<in> in_flight P s"
      then consider "unit_path P (unit_doc v) \<in> set (queue_paths P ?t)"
        | "Some (unit_path P (unit_doc v)) \<in> set (map (unit_path_of P) (pl_workers s))"
        by (auto simp: in_flight_def queue_paths_def set_worker_def)
      then show False
      proof cases
        case 1
        then show False using v(2) by (simp add: in_flight_def)
      next
        case 2
        then obtain j where j: "j < length (pl_workers s)"
          "unit_path_of P (pl_workers s ! j) = Some (unit_path P (unit_doc v))"
          by (auto simp: in_set_conv_nth)
        then have "j \<noteq> i" using i(2) False by (auto simp: unit_path_of_def)
        then have "pl_workers ?t ! j = pl_workers s ! j" "j < length (pl_workers ?t)" using j(1) ws by simp_all
        then have "Some (unit_path P (unit_doc v)) \<in> unit_path_of P ` set (pl_workers ?t)"
          using j(2) by (metis imageI nth_mem)
        then show False using v(2) by (simp add: in_flight_def)
      qed
    qed
    then show ?thesis using inv v(1) by (simp add: calm_inv_def set_worker_def)
  qed
  moreover have "sum_list (map (due P opts read_file d0 k) (pl_workers s)) =
      sum_list (map (due P opts read_file d0 k) (pl_workers ?t)) + outcome_value k (written, saved)" for k
    using sum_list_update_nat [OF i(1), of "due P opts read_file d0 k" Ready] i(2) ws by (simp add: due_def)
  moreover have "set (pl_workers ?t) \<subseteq> insert Ready (set (pl_workers s))"
    unfolding ws by (rule set_update_subset_insert)
  moreover have "worker_calm P opts read_file d0 units (pl_disk s) Ready" by (simp add: worker_calm_def)
  ultimately show ?thesis
    using inv by (auto simp: calm_inv_def set_worker_def algebra_simps)
qed

text \<open>One system call touches only the writer's own file and the attachment folder.\<close>

lemma call_own_names:
  assumes "worker_calm P opts read_file d0 units d (Busy doc (op # ops) nx)"
  shows "touches_of op \<subseteq> in_folder \<union> file_names P doc"
  using assms by (cases nx) (auto simp: worker_calm_def)

lemma worker_calm_call:
  assumes "worker_calm P opts read_file d0 units d (Busy doc (op # ops) nx)"
  shows "worker_calm P opts read_file d0 units (apply_op op d) (Busy doc ops nx)"
  using assms by (cases nx) (auto simp: worker_calm_def)

lemma worker_calm_untouched:
  assumes "worker_calm P opts read_file d0 units d wk"
    and "\<And>doc q. unit_path_of P wk = Some (unit_path P doc) \<Longrightarrow> q \<in> file_names P doc \<Longrightarrow> d_now d' q = d_now d q"
  shows "worker_calm P opts read_file d0 units d' wk"
proof (cases wk)
  case (Begin u)
  have "d_now d' (unit_path P (unit_doc u)) = d_now d (unit_path P (unit_doc u))"
    by (rule assms(2) [of "unit_doc u"]) (simp_all add: Begin unit_path_of_def file_names_def)
  then show ?thesis using assms(1) by (simp add: Begin worker_calm_def)
next
  case (Busy doc ops nx)
  have same: "d_now d' q = d_now d q" if "q \<in> file_names P doc" for q
    by (rule assms(2) [OF _ that]) (simp add: Busy unit_path_of_def)
  have "d_now (run_ops ops d') (unit_path P doc) = d_now (run_ops ops d) (unit_path P doc)"
    if "touches ops \<subseteq> file_names P doc"
    by (rule run_ops_local [OF same that]) (simp_all add: file_names_def)
  then show ?thesis using assms(1) by (cases nx) (auto simp: Busy worker_calm_def)
qed (use assms in \<open>simp_all add: worker_calm_def\<close>)

lemma calm_inv_call:
  assumes inv: "calm_inv P opts read_file d0 units s" and pool: "pool_inv P s"
    and at: "at s i (Busy doc (op # ops) nx)" and units: "list_all unit_ok units"
  shows "calm_inv P opts read_file d0 units (set_worker i (Busy doc ops nx) (s\<lparr>pl_disk := apply_op op (pl_disk s)\<rparr>))"
proof -
  let ?d' = "apply_op op (pl_disk s)" and ?wk = "Busy doc (op # ops) nx" and ?wk' = "Busy doc ops nx"
  let ?t = "set_worker i ?wk' (s\<lparr>pl_disk := ?d'\<rparr>)"
  have i: "i < length (pl_workers s)" "pl_workers s ! i = ?wk" using at by (auto simp: at_def)
  have ws: "pl_workers ?t = (pl_workers s)[i := ?wk']" by (simp add: set_worker_def)
  have me: "worker_calm P opts read_file d0 units (pl_disk s) ?wk" by (rule calm_at [OF inv at])
  have doc: "stem_suffix_ok doc" using pool_inv_at [OF pool at] by (simp add: worker_ok_def)
  have names: "touches_of op \<subseteq> in_folder \<union> file_names P doc" by (rule call_own_names [OF me])
  have keep: "d_now ?d' q = d_now (pl_disk s) q"
    if "q \<in> file_names P doc'" "stem_suffix_ok doc'" "unit_path P doc' \<noteq> unit_path P doc" for q doc'
  proof (rule apply_op_untouched)
    show "q \<notin> touches_of op"
      using names that file_names_apart [OF that(2) doc that(3)] by blast
  qed
  have keep_path: "d_now ?d' (unit_path P doc') = d_now (pl_disk s) (unit_path P doc')"
    if "stem_suffix_ok doc'" "unit_path P doc' \<noteq> unit_path P doc" for doc'
    by (rule keep [OF _ that]) (simp add: file_names_def)
  have mine: "worker_calm P opts read_file d0 units ?d' ?wk'"
    using me by (rule worker_calm_call)
  have workers: "worker_calm P opts read_file d0 units ?d' (pl_workers ?t ! j)" if j: "j < length (pl_workers ?t)" for j
  proof (cases "j = i")
    case True
    then show ?thesis using mine i(1) ws by simp
  next
    case False
    then have same: "pl_workers ?t ! j = pl_workers s ! j" "j < length (pl_workers s)" using j ws by simp_all
    have old: "worker_calm P opts read_file d0 units (pl_disk s) (pl_workers s ! j)"
      using inv same(2) by (simp add: calm_inv_def)
    have ok: "worker_ok P (pl_disk s) (pl_seq s) (pl_workers s ! j)"
      using pool same(2) by (simp add: pool_inv_def)
    have "apart P (pl_workers s ! j) (pl_workers s ! i)"
      using pool same(2) i(1) False unfolding pool_inv_def by blast
    then have other: "unit_path_of P (pl_workers s ! j) \<noteq> Some (unit_path P doc)"
      unfolding i(2) by (auto simp: apart_def unit_path_of_def)
    show ?thesis unfolding same(1)
    proof (rule worker_calm_untouched [OF old])
      fix doc' q
      assume doc': "unit_path_of P (pl_workers s ! j) = Some (unit_path P doc')" and q: "q \<in> file_names P doc'"
      obtain doc2 where d2: "unit_path P doc2 = unit_path P doc'" "stem_suffix_ok doc2"
        using ok doc' by (auto simp: worker_ok_def unit_path_of_def unit_ok_def split: worker.splits)
      have q2: "q \<in> file_names P doc2" using q d2(1) by (simp add: file_names_def)
      have ne: "unit_path P doc2 \<noteq> unit_path P doc" using other doc' d2(1) by metis
      show "d_now ?d' q = d_now (pl_disk s) q" by (rule keep [OF q2 d2(2) ne])
    qed
  qed
  have "map (unit_path_of P) (pl_workers ?t) = map (unit_path_of P) (pl_workers s)"
    unfolding ws by (rule map_update_same) (simp add: i(2) unit_path_of_def)
  then have flight: "in_flight P ?t = in_flight P s" by (simp add: in_flight_def queue_paths_def set_worker_def)
  have "unit_path_of P ?wk \<in> set (map (unit_path_of P) (pl_workers s))"
    using i by (metis length_map nth_map nth_mem)
  then have flying: "unit_path P doc \<in> in_flight P s"
    by (simp add: in_flight_def unit_path_of_def)
  have queued: "unit_path P (unit_doc u) \<noteq> unit_path P doc" if "u \<in> set (pl_queue s)" for u
  proof -
    have "unit_path_of P (pl_workers s ! i) \<notin> Some ` set (queue_paths P s)"
      using pool i(1) by (simp add: pool_inv_def)
    then have "unit_path P doc \<notin> set (queue_paths P s)" unfolding i(2) by (auto simp: unit_path_of_def)
    then show ?thesis using imageI [OF that, of "\<lambda>x. unit_path P (unit_doc x)"] by (auto simp: queue_paths_def)
  qed
  have ok: "stem_suffix_ok (unit_doc u)" if "u \<in> set units" for u
    using units that by (simp add: list_all_iff unit_ok_def)
  have "map (due P opts read_file d0 k) (pl_workers ?t) = map (due P opts read_file d0 k) (pl_workers s)" for k
    unfolding ws by (rule map_update_same) (simp add: i(2) due_def split: after_calls.split)
  then have sums: "\<forall>k. report_value k (pl_report ?t) + sum_list (map (due P opts read_file d0 k) (pl_workers ?t)) +
        spec_value P opts read_file d0 k (pl_queue ?t) = spec_value P opts read_file d0 k units"
    using inv by (simp add: calm_inv_def set_worker_def)
  have q: "\<forall>u \<in> set (pl_queue ?t). u \<in> set units \<and>
        d_now (pl_disk ?t) (unit_path P (unit_doc u)) = d_now d0 (unit_path P (unit_doc u))"
    using inv queued ok keep_path by (simp add: calm_inv_def set_worker_def)
  have "d_now (pl_disk ?t) (unit_path P (unit_doc u)) = spec_file P opts read_file d0 u"
    if u: "u \<in> set units" "unit_path P (unit_doc u) \<notin> in_flight P ?t" for u
  proof -
    have "unit_path P (unit_doc u) \<noteq> unit_path P doc" using u(2) flying flight by auto
    then show ?thesis using inv u flight keep_path [OF ok [OF u(1)]] by (simp add: calm_inv_def set_worker_def)
  qed
  then show ?thesis
    using inv workers q sums unfolding calm_inv_def by (simp add: set_worker_def all_set_conv_all_nth)
qed

lemma calm_no_end: "w_cancel calm = False" "w_dir_fails calm = False" "w_fault calm flt = (flt = Works)"
  by (simp_all add: calm_def)

lemma calm_step:
  assumes "pool_step P opts read_file calm s t" and inv: "calm_inv P opts read_file d0 units s" and pool: "pool_inv P s"
    and units: "list_all unit_ok units" and dist: "distinct (map (unit_path P \<circ> unit_doc) units)"
  shows "calm_inv P opts read_file d0 units t"
  using assms(1)
proof (cases rule: pool_step.cases)
  case (aborted i)
  then show ?thesis using inv by (simp add: calm_inv_def)
next
  case (not_aborted i)
  show ?thesis
    by (rule calm_inv_worker [OF inv not_aborted(2), of Popping])
      (simp_all add: not_aborted(1) set_worker_def worker_calm_def unit_path_of_def due_def)
next
  case (empty_queue i)
  show ?thesis
    by (rule calm_inv_worker [OF inv empty_queue(2), of Stopped])
      (simp_all add: empty_queue(1) set_worker_def worker_calm_def unit_path_of_def due_def)
next
  case (pop i u us)
  show ?thesis unfolding pop(1) by (rule calm_inv_pop [OF inv pop(2,3)])
next
  case (already_written i u)
  have u: "u \<in> set units" "d_now (pl_disk s) (unit_path P (unit_doc u)) = d_now d0 (unit_path P (unit_doc u))"
    using calm_at [OF inv already_written(2)] by (simp_all add: worker_calm_def)
  then have "spec_skips P opts d0 u"
    using already_written(3,4) by (simp add: spec_skips_def is_complete_file_def)
  then show ?thesis using u
    by (intro calm_inv_worker [OF inv already_written(2), of "Busy (unit_doc u) [] (Finish (Inr (False, 0)))"])
      (auto simp: already_written(1) set_worker_def worker_calm_def unit_path_of_def due_def spec_outcome_def spec_file_def)
next
  case (media_off i u)
  have u: "u \<in> set units" "d_now (pl_disk s) (unit_path P (unit_doc u)) = d_now d0 (unit_path P (unit_doc u))"
    using calm_at [OF inv media_off(2)] by (simp_all add: worker_calm_def)
  then have skip: "\<not> spec_skips P opts d0 u"
    using media_off(3) by (simp add: spec_skips_def is_complete_file_def)
  have jobs: "map (mark_missing ''not_copied'' \<circ> snd) (unit_jobs u) = spec_jobs P opts read_file u"
    using media_off(4) by (auto simp: spec_jobs_def)
  show ?thesis using u skip
    by (intro calm_inv_worker [OF inv media_off(2), of "Busy (unit_doc u) [] (Stage [] (spec_jobs P opts read_file u))"])
      (auto simp: media_off(1) jobs set_worker_def worker_calm_def unit_path_of_def due_def spec_outcome_def)
next
  case (folder i u)
  have u: "u \<in> set units" "d_now (pl_disk s) (unit_path P (unit_doc u)) = d_now d0 (unit_path P (unit_doc u))"
    using calm_at [OF inv folder(2)] by (simp_all add: worker_calm_def)
  then have skip: "\<not> spec_skips P opts d0 u"
    using folder(3) by (simp add: spec_skips_def is_complete_file_def)
  have jobs: "map (final_job P read_file) (unit_jobs u) = spec_jobs P opts read_file u"
    using folder(4) by (simp add: spec_jobs_def)
  show ?thesis using u skip
    by (intro calm_inv_worker [OF inv folder(2),
          of "Busy (unit_doc u) [CreateDirAll ''attachments/''] (Stage (unit_jobs u) [])"])
      (auto simp: folder(1) jobs set_worker_def worker_calm_def unit_path_of_def due_def spec_outcome_def)
next
  case (call i doc op ops nx)
  show ?thesis unfolding call(1) by (rule calm_inv_call [OF inv pool call(2) units])
next
  case (job i doc source j todo finished flt ops job' t')
  have "flt = Works" using job(3) by (simp add: calm_no_end)
  note st = job(4) [unfolded this]
  have j: "job' = final_job P read_file (source, j)" "touches ops \<subseteq> in_folder"
    using stage_one_works [OF st] by auto
  show ?thesis using calm_at [OF inv job(2)] j
    by (intro calm_inv_worker [OF inv job(2), of "Busy doc ops (Stage todo (finished @ [job']))"])
      (auto simp del: final_job.simps simp: job(1) set_worker_def worker_calm_def unit_path_of_def due_def)
next
  case (job_error i doc source j todo finished flt ops e)
  have "flt = Works" using job_error(3) by (simp add: calm_no_end)
  then show ?thesis using stage_one_works(1) [OF job_error(4) [unfolded \<open>flt = Works\<close>]] by simp
next
  case (save i doc finished flt ops r)
  have "flt = Works" using save(3) by (simp add: calm_no_end)
  note works = save_works [OF save(4) [unfolded this]]
  obtain u where u: "u \<in> set units" "unit_doc u = doc" "\<not> spec_skips P opts d0 u"
    "finished = spec_jobs P opts read_file u"
    using calm_at [OF inv save(2)] by (auto simp: worker_calm_def)
  show ?thesis using u works
    by (intro calm_inv_worker [OF inv save(2), of "Busy doc ops (Finish (Inr (True, saved_count finished)))"])
      (auto simp: save(1) set_worker_def worker_calm_def unit_path_of_def due_def spec_outcome_def spec_file_def
        map_res_def map_err_def)
next
  case (unit_done i doc written saved)
  show ?thesis unfolding unit_done(1) by (rule calm_inv_done [OF inv unit_done(2) dist])
next
  case (unit_failed i doc e)
  then show ?thesis using calm_at [OF inv unit_failed(2)] by (simp add: worker_calm_def)
qed (simp_all add: calm_no_end)

lemma calm_start: "calm_inv P opts read_file d units (pool_start n d units)"
  by (auto simp: calm_inv_def pool_start_def worker_calm_def due_def in_flight_def queue_paths_def
      report_value_def empty_report_def sum_list_replicate)

lemma calm_run:
  assumes "pool_run P opts read_file calm (pool_start n d units) s" and "tools_ok P" and "sound_folder P d"
    and "list_all unit_ok units" and "distinct (map (unit_path P \<circ> unit_doc) units)"
  shows "calm_inv P opts read_file d units s"
  using assms(1)
proof (induction rule: pool_run.induct)
  case (step s t)
  have "pool_inv P s" by (rule pool_run_inv [OF assms(2) step(1) pool_start_inv [OF assms(3,4,5)]])
  then show ?case using calm_step step assms(4,5) by blast
qed (rule calm_start)

lemma pool_spec:
  assumes "pool_run P opts read_file calm (pool_start n d units) s" and "tools_ok P" and "sound_folder P d"
    and "list_all unit_ok units" and "distinct (map (unit_path P \<circ> unit_doc) units)" and "0 < n" and "all_gone s"
  shows "pl_error s = None" "report_value k (pl_report s) = spec_value P opts read_file d k units"
    "u \<in> set units \<Longrightarrow> d_now (pl_disk s) (unit_path P (unit_doc u)) = spec_file P opts read_file d u"
proof -
  have inv: "calm_inv P opts read_file d units s" by (rule calm_run [OF assms(1-5)])
  show err: "pl_error s = None" using inv by (simp add: calm_inv_def)
  have acc: "accounted (length units) s" "length (pl_workers s) = n"
    using pool_run_accounted [OF assms(1)] by blast+
  have gone: "wk = Stopped" if "wk \<in> set (pl_workers s)" for wk
    using assms(7) that by (simp add: all_gone_def list_all_iff)
  then have "Stopped \<in> set (pl_workers s)" using acc(2) assms(6) by (cases "pl_workers s") auto
  then have q: "pl_queue s = []" using acc(1) err by (simp add: accounted_def)
  have "sum_list (map (due P opts read_file d k) (pl_workers s)) = 0"
    using gone by (auto simp: due_def dest!: gone)
  then show "report_value k (pl_report s) = spec_value P opts read_file d k units"
    using inv q unfolding calm_inv_def by (metis add.right_neutral list.simps(8) spec_value_def sum_list.Nil)
  have "in_flight P s = {}" using q by (auto simp: in_flight_def queue_paths_def unit_path_of_def dest!: gone)
  then show "u \<in> set units \<Longrightarrow> d_now (pl_disk s) (unit_path P (unit_doc u)) = spec_file P opts read_file d u"
    using inv by (simp add: calm_inv_def)
qed

text \<open>From every state the threads can all come to their end.\<close>

lemma run_to_end:
  assumes "w_fault w Works" and "pool_run P opts read_file w s0 s"
  shows "\<exists>t. pool_run P opts read_file w s0 t \<and> all_gone t"
  using assms(2)
proof (induction "pool_cost s" arbitrary: s rule: less_induct)
  case less
  show ?case
  proof (cases "all_gone s")
    case False
    then obtain i where "i < length (pl_workers s)" "pl_workers s ! i \<noteq> Stopped"
      by (auto simp: all_gone_def list_all_length)
    then obtain t where t: "pool_step P opts read_file w s t"
      using next_step_progress next_step_step assms(1) by metis
    then show ?thesis using less pool_step_cost pool_run.step by metis
  qed (use less in blast)
qed

text \<open>C4: The pool of writers refines the drain with one writer in calm weather: when no call fails,
  every folder can be made and nobody cancels, then whatever the number of threads and however
  their steps interleave, once every thread is gone the report is the one writer's, and every
  conversation file has the content the one writer gives it, which is the content the
  specification names. (What holds when calls fail is the invariant \<open>queue_vouches\<close>.)\<close>

theorem pool_refines_drain:
  assumes "tools_ok P" and "list_all unit_ok units" and "give_each_unit_its_own_file P units = Inr named"
    and "sound_folder P d" and "0 < n" and "pool_run P opts read_file calm (pool_start n d named) s" and "all_gone s"
  shows "case drain_loop P opts (load_attachment_source read_file) (\<lambda>_. calm_unit) 0
      \<lparr>ds_disk = d, ds_seq = 0, ds_report = empty_report, ds_progress = start_progress named\<rparr> named of
    (ds, r) \<Rightarrow>
      r = Inr () \<and> pl_error s = None \<and> pl_report s = ds_report ds \<and>
      list_all (\<lambda>u.
        d_now (pl_disk s) (unit_path P (unit_doc u)) = d_now (ds_disk ds) (unit_path P (unit_doc u)) \<and>
        d_now (pl_disk s) (unit_path P (unit_doc u)) = spec_file P opts read_file d u) named"
proof -
  note named = own_units [OF assms(3,2)]
  note pool = pool_spec [OF assms(6,1,4) named(1,2) assms(5,7)]
  let ?ds = "\<lparr>ds_disk = d, ds_seq = 0, ds_report = empty_report, ds_progress = start_progress named\<rparr>"
  have ok: "stem_suffix_ok (unit_doc u)" if "u \<in> set named" for u
    using named(1) that by (simp add: list_all_iff unit_ok_def)
  obtain ds' where ds': "drain_loop P opts (load_attachment_source read_file) (\<lambda>_. calm_unit) 0 ?ds named = (ds', Inr ())"
    "\<And>k. report_value k (ds_report ds') = report_value k empty_report + spec_value P opts read_file d k named"
    "\<And>u. u \<in> set named \<Longrightarrow> d_now (ds_disk ds') (unit_path P (unit_doc u)) = spec_file P opts read_file d u"
    using drain_loop_spec [OF ok named(2), of opts read_file 0 ?ds] by auto
  have "report_value k (pl_report s) = report_value k (ds_report ds')" for k
    using pool(2) ds'(2) by (simp add: report_value_def empty_report_def)
  then have "pl_report s = ds_report ds'" by (rule report_value_eq)
  then show ?thesis using ds'(1,3) pool(1,3) by (simp add: list_all_iff)
qed

lemma sample_ends: "\<exists>t. pool_run sample_tools sample_options (\<lambda>_. Inl ''no file'') calm (pool_start 2 empty_disk sample_named) t \<and> all_gone t"
  by (rule run_to_end [OF _ pool_run.start]) (simp add: calm_def)

theorem pool_refines_drain_witness:
  "\<exists>s. pool_run sample_tools sample_options (\<lambda>_. Inl ''no file'') calm (pool_start 2 empty_disk sample_named) s \<and>
    pl_error s = None \<and>
    list_all (\<lambda>u. d_now (pl_disk s) (unit_path sample_tools (unit_doc u)) =
        spec_file sample_tools sample_options (\<lambda>_. Inl ''no file'') empty_disk u) sample_named"
proof -
  obtain s where s: "pool_run sample_tools sample_options (\<lambda>_. Inl ''no file'') calm (pool_start 2 empty_disk sample_named) s"
    "all_gone s"
    using sample_ends by blast
  show ?thesis
    using pool_refines_drain [OF sample_tools_ok sample_units_ok sample_named_own empty_disk_sound _ s] s(1)
    by (auto simp: list_all_iff split: prod.splits)
qed

end
