(* ===== verification/Identity.thy ===== *)
theory Identity
  imports Ir "HOL-Library.Product_Lexorder" "HOL-Library.Multiset"
begin

text \<open>
  One identity for every message (\<open>crates/libs/ir/src/identity.rs\<close>): the text a message's
  guid and content key are the SHA-256 of, and the step that keeps one copy per message. A time is
  an \<open>i64\<close> of milliseconds; \<open>div_euclid\<close> by a positive number is HOL's \<open>div\<close>.
  SHA-256 is a parameter. The main results: every copy is stood for by a kept one and no message is
  kept twice (\<open>one_copy_stands\<close>), and which messages are kept does not depend on the order the
  copies were read in (\<open>one_copy_order\<close>).
\<close>

section \<open>White space\<close>

text \<open>
  \<open>str::split_whitespace\<close>: the parts between the Unicode white space characters that are not
  empty. No white space character starts with a continuation byte, so the bytes may be scanned one
  by one.
\<close>

function ws_parts :: "string \<Rightarrow> string list" where
  "ws_parts [] = [[]]"
| "ws_parts (c # s) =
     (if ws_len (c # s) = 0 then (case ws_parts s of [] \<Rightarrow> [[c]] | p # ps \<Rightarrow> (c # p) # ps)
      else [] # ws_parts (drop (ws_len (c # s)) (c # s)))"
  by pat_completeness auto

termination
  by (relation "measure length") (auto simp: ws_len_le)

definition split_whitespace :: "string \<Rightarrow> string list" where
  "split_whitespace s = filter (\<lambda>p. p \<noteq> []) (ws_parts s)"

definition collapse_whitespace :: "string \<Rightarrow> string" where
  "collapse_whitespace s = join '' '' (split_whitespace s)"

section \<open>The identity of a message\<close>

datatype time_precision = Seconds | Milliseconds

record message_identity =
  mi_chat :: string
  mi_is_from_me :: bool
  mi_sender :: "string option"
  mi_timestamp_unix_ms :: int
  mi_text :: string
  mi_attachment_digests :: "string list"
  mi_vendor_key :: "string option"

definition sender_key :: "bool \<Rightarrow> string option \<Rightarrow> string" where
  "sender_key is_from_me sender =
     (if is_from_me then [] else (case sender of None \<Rightarrow> [] | Some s \<Rightarrow> trim s))"

text \<open>The digests that count: trimmed, not blank, sorted, each once.\<close>

definition clean_digests :: "string list \<Rightarrow> string list" where
  "clean_digests digests = remdups_adj (sort (filter (\<lambda>d. d \<noteq> []) (map trim digests)))"

definition time_at :: "time_precision \<Rightarrow> int \<Rightarrow> int" where
  "time_at precision ms = (case precision of Seconds \<Rightarrow> ms div 1000 | Milliseconds \<Rightarrow> ms)"

definition i64_string :: "int \<Rightarrow> string" where
  "i64_string n = (if n < 0 then ''-'' @ dec_string (nat (- n)) else dec_string (nat n))"

text \<open>What the hasher is fed.\<close>

definition identity_text :: "message_identity \<Rightarrow> time_precision \<Rightarrow> string" where
  "identity_text mi precision =
     mi_chat mi @ ''|'' @ (if mi_is_from_me mi then ''1'' else ''0'') @ ''|'' @
     sender_key (mi_is_from_me mi) (mi_sender mi) @ ''|'' @
     i64_string (time_at precision (mi_timestamp_unix_ms mi)) @ ''|'' @
     collapse_whitespace (mi_text mi) @
     concat (map (\<lambda>d. ''|'' @ d) (clean_digests (mi_attachment_digests mi))) @
     (case map_option trim (mi_vendor_key mi) of
        Some v \<Rightarrow> if v = [] then [] else ''|vendor:'' @ v
      | None \<Rightarrow> [])"

definition identity_key :: "(u8 list \<Rightarrow> u8 list) \<Rightarrow> message_identity \<Rightarrow> time_precision \<Rightarrow> string" where
  "identity_key sha mi precision = hex_encode (sha (as_bytes (identity_text mi precision)))"

definition message_guid :: "(u8 list \<Rightarrow> u8 list) \<Rightarrow> message_identity \<Rightarrow> string" where
  "message_guid sha mi = identity_key sha mi Milliseconds"

section \<open>One copy per message\<close>

record message_copy =
  cp_is_from_me :: bool
  cp_sender :: "string option"
  cp_timestamp_unix_ms :: int
  cp_precision :: time_precision
  cp_text :: string
  cp_attachment_digests :: "string list"
  cp_vendor_key :: "string option"

text \<open>Copies that can be one message share this key.\<close>

definition bucket_key :: "message_copy \<Rightarrow> bool \<times> string \<times> string \<times> string \<times> int" where
  "bucket_key c =
     (cp_is_from_me c, sender_key (cp_is_from_me c) (cp_sender c), collapse_whitespace (cp_text c),
      case cp_vendor_key c of None \<Rightarrow> [] | Some v \<Rightarrow> trim v, cp_timestamp_unix_ms c div 1000)"

definition copy_digests :: "message_copy \<Rightarrow> string list" where
  "copy_digests c = clean_digests (cp_attachment_digests c)"

record kept_copy =
  kc_index :: nat
  kc_timestamp_unix_ms :: int
  kc_exact :: bool
  kc_digests :: "string list"

text \<open>The order of the members of a bucket: \<open>false\<close> before \<open>true\<close>, as in Rust.\<close>

definition rank :: "message_copy \<Rightarrow> bool \<times> bool \<times> int \<times> string list" where
  "rank c = (copy_digests c = [], cp_precision c \<noteq> Milliseconds, cp_timestamp_unix_ms c, copy_digests c)"

definition same_message :: "message_copy \<Rightarrow> kept_copy \<Rightarrow> bool" where
  "same_message c k \<longleftrightarrow>
     (\<not> (kc_exact k \<and> cp_precision c = Milliseconds) \<or> kc_timestamp_unix_ms k = cp_timestamp_unix_ms c) \<and>
     (copy_digests c = [] \<or> kc_digests k = copy_digests c)"

definition keep_copy :: "nat \<times> message_copy \<Rightarrow> kept_copy list \<Rightarrow> kept_copy list" where
  "keep_copy ic kept =
     (let (i, c) = ic; exact = (cp_precision c = Milliseconds)
      in case position (same_message c) kept of
           Some j \<Rightarrow>
             (let k = kept ! j
              in if \<not> kc_exact k \<and> exact
                 then kept[j := k\<lparr>kc_timestamp_unix_ms := cp_timestamp_unix_ms c, kc_exact := True\<rparr>]
                 else kept)
         | None \<Rightarrow>
             kept @ [\<lparr>kc_index = i, kc_timestamp_unix_ms = cp_timestamp_unix_ms c, kc_exact = exact,
                      kc_digests = copy_digests c\<rparr>])"

definition keep_bucket :: "(nat \<times> message_copy) list \<Rightarrow> kept_copy list" where
  "keep_bucket members = fold keep_copy (sort_key (\<lambda>(i, c). (rank c, i)) members) []"

text \<open>
  The buckets come out of a hash map in an order of its own; no bucket sees another, so the order
  of the first copies stands for it.
\<close>

definition buckets :: "message_copy list \<Rightarrow> (nat \<times> message_copy) list list" where
  "buckets copies =
     map (\<lambda>key. filter (\<lambda>(i, c). bucket_key c = key) (enumerate 0 copies)) (remdups (map bucket_key copies))"

definition kept_copies :: "message_copy list \<Rightarrow> kept_copy list" where
  "kept_copies copies = concat (map keep_bucket (buckets copies))"

definition one_copy_per_message :: "message_copy list \<Rightarrow> int option list" where
  "one_copy_per_message copies =
     map (map_of (map (\<lambda>k. (kc_index k, kc_timestamp_unix_ms k)) (kept_copies copies))) [0..<length copies]"

section \<open>What is kept stands for what was read\<close>

definition exact :: "message_copy \<Rightarrow> bool" where
  "exact c \<longleftrightarrow> cp_precision c = Milliseconds"

definition stands_for :: "kept_copy \<Rightarrow> message_copy \<Rightarrow> bool" where
  "stands_for k c \<longleftrightarrow>
     (copy_digests c = [] \<or> kc_digests k = copy_digests c) \<and>
     (exact c \<longrightarrow> kc_exact k \<and> kc_timestamp_unix_ms k = cp_timestamp_unix_ms c)"

text \<open>Two kept copies that could be one message: the attachments agree, or one has none, and the times
  are not two different ones to the millisecond.\<close>

definition clash :: "kept_copy \<Rightarrow> kept_copy \<Rightarrow> bool" where
  "clash k k' \<longleftrightarrow>
     (kc_digests k = kc_digests k' \<or> kc_digests k = [] \<or> kc_digests k' = []) \<and>
     \<not> (kc_exact k \<and> kc_exact k' \<and> kc_timestamp_unix_ms k \<noteq> kc_timestamp_unix_ms k')"

definition kept_ok :: "(nat \<times> message_copy) set \<Rightarrow> kept_copy list \<Rightarrow> bool" where
  "kept_ok done kept \<longleftrightarrow>
     (\<forall>(i, c) \<in> done. \<exists>k \<in> set kept. stands_for k c) \<and>
     (\<forall>k \<in> set kept. \<exists>c. (kc_index k, c) \<in> done \<and> copy_digests c = kc_digests k) \<and>
     (\<forall>k \<in> set kept. \<exists>(i, c) \<in> done. kc_timestamp_unix_ms k = cp_timestamp_unix_ms c \<and> (kc_exact k \<longrightarrow> exact c)) \<and>
     sorted_wrt (\<lambda>k k'. \<not> clash k k') kept"

lemma clash_sym: "clash k k' \<Longrightarrow> clash k' k"
  by (auto simp: clash_def)

lemma sorted_wrt_update:
  assumes "sorted_wrt P xs" and "j < length xs" and "\<And>x y. P x y \<Longrightarrow> P y x"
    and "\<And>i. i < length xs \<Longrightarrow> i \<noteq> j \<Longrightarrow> P (xs ! i) y"
  shows "sorted_wrt P (xs[j := y])"
  using assms by (auto simp: sorted_wrt_iff_nth_less nth_list_update)

lemma keep_copy_ok:
  assumes "kept_ok done kept" and richest: "\<And>k. copy_digests c \<noteq> [] \<Longrightarrow> k \<in> set kept \<Longrightarrow> kc_digests k \<noteq> []"
  shows "kept_ok (insert (i, c) done) (keep_copy (i, c) kept)"
proof (cases "position (same_message c) kept")
  case None
  then have new: "\<not> same_message c k" if "k \<in> set kept" for k using that by (simp add: position_None)
  let ?k = "\<lparr>kc_index = i, kc_timestamp_unix_ms = cp_timestamp_unix_ms c, kc_exact = exact c, kc_digests = copy_digests c\<rparr>"
  have kept': "keep_copy (i, c) kept = kept @ [?k]" using None by (simp add: keep_copy_def exact_def)
  have "\<not> clash k ?k" if "k \<in> set kept" for k
    using new [OF that] richest that by (auto simp: clash_def same_message_def exact_def)
  moreover have "stands_for ?k c" by (simp add: stands_for_def)
  ultimately show ?thesis
    using assms(1) unfolding kept' kept_ok_def by (auto simp: sorted_wrt_append)
next
  case (Some j)
  then have j: "j < length kept" "same_message c (kept ! j)" by (simp_all add: position_Some)
  let ?k = "kept ! j"
  show ?thesis
  proof (cases "\<not> kc_exact ?k \<and> exact c")
    case False
    then have "keep_copy (i, c) kept = kept" using Some by (auto simp: keep_copy_def exact_def Let_def)
    moreover have "stands_for ?k c" using j(2) False by (auto simp: stands_for_def same_message_def exact_def)
    moreover have "?k \<in> set kept" using j(1) by simp
    ultimately show ?thesis using assms(1) unfolding kept_ok_def by fastforce
  next
    case True
    let ?k' = "?k\<lparr>kc_timestamp_unix_ms := cp_timestamp_unix_ms c, kc_exact := True\<rparr>"
    have kept': "keep_copy (i, c) kept = kept[j := ?k']" using Some True by (simp add: keep_copy_def exact_def Let_def)
    have k': "?k' \<in> set (kept[j := ?k'])" using j(1) by (rule set_update_memI)
    have old: "k \<in> set (kept[j := ?k']) \<or> k = ?k" if "k \<in> set kept" for k
      using that j(1) by (metis in_set_conv_nth length_list_update nth_list_update_neq)
    have stands: "stands_for ?k' c" using j(2) True by (auto simp: stands_for_def same_message_def exact_def)
    have up: "stands_for ?k' a" if "stands_for ?k a" for a using that True by (auto simp: stands_for_def)
    have "\<exists>k \<in> set (kept[j := ?k']). stands_for k a" if a: "(l, a) \<in> insert (i, c) done" for l a
    proof (cases "(l, a) = (i, c)")
      case True
      then show ?thesis using stands k' by auto
    next
      case False
      then obtain k where k: "k \<in> set kept" "stands_for k a" using assms(1) a by (fastforce simp: kept_ok_def)
      then show ?thesis using old [OF k(1)] up k' by metis
    qed
    moreover have "(\<exists>a. (kc_index k, a) \<in> insert (i, c) done \<and> copy_digests a = kc_digests k) \<and>
        (\<exists>(l, a) \<in> insert (i, c) done. kc_timestamp_unix_ms k = cp_timestamp_unix_ms a \<and> (kc_exact k \<longrightarrow> exact a))"
      if "k \<in> set (kept[j := ?k'])" for k
    proof -
      have "k = ?k' \<or> k \<in> set kept" using that set_update_subset_insert by fast
      then show ?thesis
      proof
        assume k: "k = ?k'"
        have "\<exists>a. (kc_index ?k, a) \<in> done \<and> copy_digests a = kc_digests ?k"
          using assms(1) nth_mem [OF j(1)] unfolding kept_ok_def by blast
        then show ?thesis unfolding k using True by auto
      next
        assume "k \<in> set kept"
        then show ?thesis using assms(1) unfolding kept_ok_def by blast
      qed
    qed
    moreover have "sorted_wrt (\<lambda>k k'. \<not> clash k k') (kept[j := ?k'])"
    proof (rule sorted_wrt_update)
      show srt: "sorted_wrt (\<lambda>k k'. \<not> clash k k') kept" using assms(1) by (simp add: kept_ok_def)
      show "\<not> clash (kept ! l) ?k'" if l: "l < length kept" "l \<noteq> j" for l
      proof -
        have "\<not> clash (kept ! l) ?k"
          using srt l j(1) clash_sym unfolding sorted_wrt_iff_nth_less by (metis linorder_neqE_nat)
        then show ?thesis using True by (auto simp: clash_def)
      qed
    qed (use j(1) clash_sym in blast)+
    ultimately show ?thesis unfolding kept' kept_ok_def by blast
  qed
qed

text \<open>The members come richest first: none without attachments before one with some.\<close>

lemma keep_all_ok:
  "kept_ok done kept \<Longrightarrow> sorted_wrt (\<lambda>(i, a) (j, b). copy_digests b \<noteq> [] \<longrightarrow> copy_digests a \<noteq> []) members \<Longrightarrow>
   (\<And>i a j b. (i, a) \<in> done \<Longrightarrow> (j, b) \<in> set members \<Longrightarrow> copy_digests b \<noteq> [] \<Longrightarrow> copy_digests a \<noteq> []) \<Longrightarrow>
   kept_ok (set members \<union> done) (fold keep_copy members kept)"
proof (induction members arbitrary: kept "done")
  case (Cons ic members)
  obtain i c where ic: "ic = (i, c)" by (cases ic)
  have "kc_digests k \<noteq> []" if "copy_digests c \<noteq> []" "k \<in> set kept" for k
  proof -
    obtain a where "(kc_index k, a) \<in> done" "copy_digests a = kc_digests k"
      using Cons.prems(1) \<open>k \<in> set kept\<close> by (auto simp: kept_ok_def)
    then show ?thesis using Cons.prems(3) [of "kc_index k" a i c] that(1) by (simp add: ic)
  qed
  then have "kept_ok (insert ic done) (keep_copy ic kept)"
    unfolding ic by (intro keep_copy_ok [OF Cons.prems(1)])
  then have "kept_ok (set members \<union> insert ic done) (fold keep_copy members (keep_copy ic kept))"
    by (rule Cons.IH) (use Cons.prems(2,3) in \<open>auto simp: ic\<close>)
  then show ?case by simp
qed simp

lemma keep_bucket_ok: "kept_ok (set members) (keep_bucket members)"
proof -
  let ?ms = "sort_key (\<lambda>(i, c). (rank c, i)) members"
  have "sorted_wrt (\<lambda>x y. (case x of (i, a) \<Rightarrow> (rank a, i)) \<le> (case y of (j, b) \<Rightarrow> (rank b, j))) ?ms"
    using sorted_sort_key [of "\<lambda>(i, c). (rank c, i)" members] by (simp only: sorted_map)
  then have "sorted_wrt (\<lambda>(i, a) (j, b). copy_digests b \<noteq> [] \<longrightarrow> copy_digests a \<noteq> []) ?ms"
    by (rule sorted_wrt_mono_rel [rotated]) (auto simp: rank_def less_eq_prod_def)
  then have "kept_ok (set ?ms \<union> {}) (fold keep_copy ?ms [])"
    by (intro keep_all_ok) (simp_all add: kept_ok_def)
  then show ?thesis by (simp add: keep_bucket_def)
qed

section \<open>The whole conversation\<close>

lemma in_buckets: "ms \<in> set (buckets copies) \<longleftrightarrow>
    (\<exists>a \<in> set copies. ms = filter (\<lambda>(i, c). bucket_key c = bucket_key a) (enumerate 0 copies))"
  by (auto simp: buckets_def)

lemma kept_index:
  assumes "k \<in> set (keep_bucket ms)" and "ms \<in> set (buckets copies)"
  shows "kc_index k < length copies" "(kc_index k, copies ! kc_index k) \<in> set ms"
    "copy_digests (copies ! kc_index k) = kc_digests k"
proof -
  obtain c where c: "(kc_index k, c) \<in> set ms" "copy_digests c = kc_digests k"
    using keep_bucket_ok [of ms] assms(1) by (auto simp: kept_ok_def)
  then have "(kc_index k, c) \<in> set (enumerate 0 copies)" using assms(2) by (auto simp: in_buckets)
  then have "kc_index k < length copies \<and> c = copies ! kc_index k" by (auto simp: in_set_enumerate_eq)
  then show "kc_index k < length copies" "(kc_index k, copies ! kc_index k) \<in> set ms"
    "copy_digests (copies ! kc_index k) = kc_digests k"
    using c by auto
qed

lemma distinct_kept_index: "distinct (map kc_index (keep_bucket members))" if "distinct (map fst members)" for members
proof -
  have "distinct (map kc_index kept) \<and> kc_index ` set kept \<subseteq> D \<Longrightarrow> distinct (map fst ms) \<Longrightarrow> D \<inter> fst ` set ms = {} \<Longrightarrow>
      distinct (map kc_index (fold keep_copy ms kept)) \<and> kc_index ` set (fold keep_copy ms kept) \<subseteq> D \<union> fst ` set ms"
    for ms kept D
  proof (induction ms arbitrary: kept D)
    case (Cons ic ms)
    obtain i c where ic: "ic = (i, c)" by (cases ic)
    have "distinct (map kc_index (keep_copy (i, c) kept)) \<and> kc_index ` set (keep_copy (i, c) kept) \<subseteq> insert i D"
    proof (cases "position (same_message c) kept")
      case None
      then show ?thesis using Cons.prems ic by (auto simp: keep_copy_def)
    next
      case (Some j)
      then have j: "j < length kept" by (simp add: position_Some)
      have "map kc_index (kept[j := (kept ! j)\<lparr>kc_timestamp_unix_ms := t, kc_exact := b\<rparr>]) = map kc_index kept" for t b
        using j by (auto simp: map_update list_update_same_conv)
      then have "map kc_index (keep_copy (i, c) kept) = map kc_index kept" using Some by (simp add: keep_copy_def Let_def)
      then show ?thesis using Cons.prems(1) by (metis list.set_map subset_insertI2)
    qed
    then show ?case using Cons.IH [of "keep_copy (i, c) kept" "insert i D"] Cons.prems(2,3) ic by auto
  qed simp
  from this [of "[]" "{}" "sort_key (\<lambda>(i, c). (rank c, i)) members"] that show ?thesis
    by (simp add: keep_bucket_def distinct_map inj_on_def) 
qed

lemma bucket_members:
  assumes "ms \<in> set (buckets copies)"
  shows "\<exists>key. \<forall>i c. (i, c) \<in> set ms \<longleftrightarrow> i < length copies \<and> c = copies ! i \<and> bucket_key c = key"
    and "distinct (map fst ms)"
proof -
  obtain a where ms: "ms = filter (\<lambda>(i, c). bucket_key c = bucket_key a) (enumerate 0 copies)"
    using assms by (auto simp: in_buckets)
  then show "\<exists>key. \<forall>i c. (i, c) \<in> set ms \<longleftrightarrow> i < length copies \<and> c = copies ! i \<and> bucket_key c = key"
    by (intro exI [of _ "bucket_key a"]) (auto simp: in_set_enumerate_eq)
  have "distinct (map fst (enumerate 0 copies))" by simp
  then show "distinct (map fst ms)" unfolding ms by (rule distinct_map_filter)
qed

lemma bucket_of:
  assumes "i < length copies"
  shows "\<exists>ms \<in> set (buckets copies). (i, copies ! i) \<in> set ms"
proof
  let ?ms = "filter (\<lambda>(l, c). bucket_key c = bucket_key (copies ! i)) (enumerate 0 copies)"
  show "?ms \<in> set (buckets copies)" using assms by (auto simp: in_buckets)
  show "(i, copies ! i) \<in> set ?ms" using assms by (simp add: in_set_enumerate_eq)
qed

lemma bucket_same:
  assumes "ms \<in> set (buckets copies)" and "ms' \<in> set (buckets copies)"
    and "(i, c) \<in> set ms" and "(i', c') \<in> set ms'" and "bucket_key c = bucket_key c'"
  shows "ms = ms'"
proof -
  obtain a where a: "ms = filter (\<lambda>(i, c). bucket_key c = bucket_key a) (enumerate 0 copies)"
    using assms(1) by (auto simp: in_buckets)
  moreover obtain a' where a': "ms' = filter (\<lambda>(i, c). bucket_key c = bucket_key a') (enumerate 0 copies)"
    using assms(2) by (auto simp: in_buckets)
  ultimately have "bucket_key a = bucket_key a'" using assms(3-5) by auto
  then show ?thesis using a a' by simp
qed

lemma index_unique:
  assumes "k \<in> set (keep_bucket ms)" "ms \<in> set (buckets copies)"
    and "k' \<in> set (keep_bucket ms')" "ms' \<in> set (buckets copies)" and "kc_index k = kc_index k'"
  shows "k = k' \<and> ms = ms'"
proof -
  have "ms = ms'"
    using bucket_same [OF assms(2,4) kept_index(2) [OF assms(1,2)]] kept_index(2) [OF assms(3,4)] assms(5) by simp
  moreover have "distinct (map kc_index (keep_bucket ms))"
    by (rule distinct_kept_index [OF bucket_members(2) [OF assms(2)]])
  ultimately show ?thesis using assms(1,3,5) by (auto simp: distinct_map inj_on_def)
qed

lemma map_of_unique: "(i, t) \<in> set xs \<Longrightarrow> (\<And>t'. (i, t') \<in> set xs \<Longrightarrow> t' = t) \<Longrightarrow> map_of xs i = Some t"
  by (metis (no_types) map_of_SomeD map_of_eq_None_iff fst_conv image_eqI not_None_eq)

lemma fate_Some:
  assumes "i < length copies"
  shows "one_copy_per_message copies ! i = Some t \<longleftrightarrow>
    (\<exists>ms \<in> set (buckets copies). \<exists>k \<in> set (keep_bucket ms). kc_index k = i \<and> kc_timestamp_unix_ms k = t)"
proof -
  let ?xs = "map (\<lambda>k. (kc_index k, kc_timestamp_unix_ms k)) (kept_copies copies)"
  have at: "one_copy_per_message copies ! i = map_of ?xs i"
    using assms by (simp add: one_copy_per_message_def)
  have mem: "(i, t) \<in> set ?xs \<longleftrightarrow>
      (\<exists>ms \<in> set (buckets copies). \<exists>k \<in> set (keep_bucket ms). kc_index k = i \<and> kc_timestamp_unix_ms k = t)" for t
    by (auto simp: kept_copies_def)
  have same: "t' = t" if a: "(i, t) \<in> set ?xs" and b: "(i, t') \<in> set ?xs" for t t'
  proof -
    obtain ms k where k: "ms \<in> set (buckets copies)" "k \<in> set (keep_bucket ms)" "kc_index k = i" "kc_timestamp_unix_ms k = t"
      using a unfolding mem by blast
    obtain ms' k' where k': "ms' \<in> set (buckets copies)" "k' \<in> set (keep_bucket ms')" "kc_index k' = i" "kc_timestamp_unix_ms k' = t'"
      using b unfolding mem by blast
    show ?thesis using index_unique [OF k(2,1) k'(2,1)] k(3,4) k'(3,4) by simp
  qed
  have "map_of ?xs i = Some t" if "(i, t) \<in> set ?xs"
    by (rule map_of_unique [OF that same [OF that]])
  then have "map_of ?xs i = Some t \<longleftrightarrow> (i, t) \<in> set ?xs" using map_of_SomeD by fast
  then show ?thesis unfolding at mem .
qed

lemma length_fate [simp]: "length (one_copy_per_message copies) = length copies"
  by (simp add: one_copy_per_message_def)

lemma fate_stands:
  assumes i: "i < length copies"
  shows "\<exists>j t. j < length copies \<and> one_copy_per_message copies ! j = Some t \<and>
    bucket_key (copies ! j) = bucket_key (copies ! i) \<and>
    (copy_digests (copies ! i) = [] \<or> copy_digests (copies ! j) = copy_digests (copies ! i)) \<and>
    (exact (copies ! i) \<longrightarrow> t = cp_timestamp_unix_ms (copies ! i)) \<and>
    t div 1000 = cp_timestamp_unix_ms (copies ! i) div 1000"
proof -
  obtain ms where ms: "ms \<in> set (buckets copies)" "(i, copies ! i) \<in> set ms"
    using bucket_of [OF i] by blast
  obtain key where key: "\<And>i c. (i, c) \<in> set ms \<longleftrightarrow> i < length copies \<and> c = copies ! i \<and> bucket_key c = key"
    using bucket_members(1) [OF ms(1)] by blast
  obtain k where k: "k \<in> set (keep_bucket ms)" "stands_for k (copies ! i)"
    using keep_bucket_ok [of ms] ms(2) by (auto simp: kept_ok_def)
  obtain l c where c: "(l, c) \<in> set ms" "kc_timestamp_unix_ms k = cp_timestamp_unix_ms c"
    using keep_bucket_ok [of ms] k(1) by (fastforce simp: kept_ok_def)
  note at = kept_index [OF k(1) ms(1)]
  have same: "bucket_key c = bucket_key (copies ! i)" "bucket_key (copies ! kc_index k) = bucket_key (copies ! i)"
    using c(1) ms(2) at(2) unfolding key by auto
  have "one_copy_per_message copies ! kc_index k = Some (kc_timestamp_unix_ms k)"
    using fate_Some [OF at(1)] ms(1) k(1) by blast
  moreover have "kc_timestamp_unix_ms k div 1000 = cp_timestamp_unix_ms (copies ! i) div 1000"
    using same(1) c(2) by (simp add: bucket_key_def)
  ultimately show ?thesis
    using k(2) at same(2) by (intro exI [of _ "kc_index k"] exI [of _ "kc_timestamp_unix_ms k"]) (auto simp: stands_for_def)
qed

text \<open>Two kept copies that agree are two messages: their times are different, and both are of copies
  with milliseconds.\<close>

definition ms_time :: "message_copy list \<Rightarrow> message_copy \<Rightarrow> int \<Rightarrow> bool" where
  "ms_time copies c t \<longleftrightarrow>
     (\<exists>a \<in> set copies. bucket_key a = bucket_key c \<and> cp_precision a = Milliseconds \<and> cp_timestamp_unix_ms a = t)"

lemma fate_apart:
  assumes "i < length copies" "j < length copies" "i \<noteq> j"
    and "one_copy_per_message copies ! i = Some t" "one_copy_per_message copies ! j = Some u"
    and "bucket_key (copies ! i) = bucket_key (copies ! j)"
    and "copy_digests (copies ! i) = copy_digests (copies ! j) \<or> copy_digests (copies ! i) = [] \<or> copy_digests (copies ! j) = []"
  shows "t \<noteq> u \<and> ms_time copies (copies ! i) t \<and> ms_time copies (copies ! i) u"
proof -
  obtain ms k where k: "ms \<in> set (buckets copies)" "k \<in> set (keep_bucket ms)" "kc_index k = i" "kc_timestamp_unix_ms k = t"
    using assms(4) unfolding fate_Some [OF assms(1)] by blast
  obtain ms' k' where k': "ms' \<in> set (buckets copies)" "k' \<in> set (keep_bucket ms')" "kc_index k' = j" "kc_timestamp_unix_ms k' = u"
    using assms(5) unfolding fate_Some [OF assms(2)] by blast
  note at = kept_index [OF k(2,1)] and at' = kept_index [OF k'(2,1)]
  have ms: "ms' = ms" using bucket_same [OF k'(1) k(1) at'(2) at(2)] assms(6) k(3) k'(3) by simp
  have agree: "kc_digests k = kc_digests k' \<or> kc_digests k = [] \<or> kc_digests k' = []"
    using at(3) at'(3) assms(7) k(3) k'(3) by simp
  have "\<not> clash k k'"
  proof -
    have srt: "sorted_wrt (\<lambda>k k'. \<not> clash k k') (keep_bucket ms)" using keep_bucket_ok by (auto simp: kept_ok_def)
    have "k \<noteq> k'" using k(3) k'(3) assms(3) by auto
    then show ?thesis
      using k(2) k'(2) srt clash_sym unfolding ms sorted_wrt_iff_nth_less in_set_conv_nth
      by (metis linorder_neqE_nat)
  qed
  then have both: "kc_exact k" "kc_exact k'" "t \<noteq> u" using agree k(4) k'(4) by (auto simp: clash_def)
  obtain key where key: "\<And>i c. (i, c) \<in> set ms \<longleftrightarrow> i < length copies \<and> c = copies ! i \<and> bucket_key c = key"
    using bucket_members(1) [OF k(1)] by blast
  have "bucket_key (copies ! i) = key" using at(2) k(3) by (simp add: key)
  moreover have "\<exists>(l, a) \<in> set ms. kc_timestamp_unix_ms m = cp_timestamp_unix_ms a \<and> (kc_exact m \<longrightarrow> exact a)"
    if "m \<in> set (keep_bucket ms)" for m
    using keep_bucket_ok [of ms] that by (auto simp: kept_ok_def)
  ultimately have "ms_time copies (copies ! i) (kc_timestamp_unix_ms m)" if "m \<in> set (keep_bucket ms)" "kc_exact m" for m
    using that unfolding ms_time_def by (fastforce simp: key exact_def)
  from this [OF k(2) both(1)] this [OF _ both(2)] show ?thesis
    using k'(2) both(3) k(4) k'(4) by (simp add: ms)
qed

section \<open>The order the copies come in\<close>

text \<open>What is kept, without the places it is kept at.\<close>

definition kept_messages :: "message_copy list \<Rightarrow> ((bool \<times> string \<times> string \<times> string \<times> int) \<times> string list \<times> int) multiset" where
  "kept_messages copies =
     mset (List.map_filter (\<lambda>(c, f). map_option (\<lambda>t. (bucket_key c, copy_digests c, t)) f)
       (zip copies (one_copy_per_message copies)))"

text \<open>The step of a bucket on what the order of its members looks at.\<close>

definition keep_rank :: "bool \<times> bool \<times> int \<times> string list \<Rightarrow> (int \<times> bool \<times> string list) list \<Rightarrow> (int \<times> bool \<times> string list) list" where
  "keep_rank r kept =
     (let (plain, coarse, ts, dg) = r
      in case position (\<lambda>(t, ex, d). (\<not> (ex \<and> \<not> coarse) \<or> t = ts) \<and> (plain \<or> d = dg)) kept of
           Some j \<Rightarrow> (case kept ! j of (t, ex, d) \<Rightarrow> if \<not> ex \<and> \<not> coarse then kept[j := (ts, True, d)] else kept)
         | None \<Rightarrow> kept @ [(ts, \<not> coarse, dg)])"

definition outline :: "kept_copy \<Rightarrow> int \<times> bool \<times> string list" where
  "outline k = (kc_timestamp_unix_ms k, kc_exact k, kc_digests k)"

lemma position_map: "position p (map f xs) = position (p \<circ> f) xs"
  by (induction xs) auto

lemma outline_keep: "map outline (keep_copy (i, c) kept) = keep_rank (rank c) (map outline kept)"
proof -
  have same: "(\<lambda>(t, ex, d). (\<not> (ex \<and> \<not> (cp_precision c \<noteq> Milliseconds)) \<or> t = cp_timestamp_unix_ms c) \<and>
      (copy_digests c = [] \<or> d = copy_digests c)) \<circ> outline = same_message c"
    by (auto simp: fun_eq_iff outline_def same_message_def)
  show ?thesis
  proof (cases "position (same_message c) kept")
    case None
    then show ?thesis
      unfolding keep_rank_def rank_def Let_def prod.case position_map same
      by (simp add: keep_copy_def outline_def)
  next
    case (Some j)
    then have j: "j < length kept" by (simp add: position_Some)
    show ?thesis
      unfolding keep_rank_def rank_def Let_def prod.case position_map same
      using Some j by (auto simp: keep_copy_def outline_def map_update)
  qed
qed

lemma outline_fold: "map outline (fold keep_copy ms kept) = fold keep_rank (map (rank \<circ> snd) ms) (map outline kept)"
proof (induction ms arbitrary: kept)
  case (Cons ic ms)
  show ?case using Cons.IH [of "keep_copy ic kept"] outline_keep [of "fst ic" "snd ic" kept] by simp
qed simp

lemma sorted_ranks:
  "map (rank \<circ> snd) (sort_key (\<lambda>(i, c). (rank c, i)) ms) = sorted_list_of_multiset (mset (map (rank \<circ> snd) ms))"
    (is "?l = _")
proof -
  have "sorted (map (\<lambda>(i, c). (rank c, i)) (sort_key (\<lambda>(i, c). (rank c, i)) ms))" by simp
  then have "sorted ?l"
    unfolding sorted_map by (rule sorted_wrt_mono_rel [rotated]) auto
  then have "sort ?l = ?l" by (rule sorted_sort_id)
  moreover have "mset ?l = mset (map (rank \<circ> snd) ms)" by (simp add: mset_map)
  ultimately show ?thesis by (metis sorted_list_of_multiset_mset)
qed

definition bucket_result :: "bool \<times> string \<times> string \<times> string \<times> int \<Rightarrow> (bool \<times> bool \<times> int \<times> string list) multiset \<Rightarrow> ((bool \<times> string \<times> string \<times> string \<times> int) \<times> string list \<times> int) multiset" where
  "bucket_result key ranks =
     image_mset (\<lambda>(t, ex, d). (key, d, t)) (mset (fold keep_rank (sorted_list_of_multiset ranks) []))"

lemma bucket_result_keep:
  "image_mset (\<lambda>k. (key, kc_digests k, kc_timestamp_unix_ms k)) (mset (keep_bucket ms)) =
   bucket_result key (mset (map (rank \<circ> snd) ms))"
proof -
  have "map (\<lambda>k. (key, kc_digests k, kc_timestamp_unix_ms k)) (keep_bucket ms) =
      map (\<lambda>(t, ex, d). (key, d, t)) (map outline (keep_bucket ms))"
    by (simp add: outline_def)
  also have "map outline (keep_bucket ms) = fold keep_rank (sorted_list_of_multiset (mset (map (rank \<circ> snd) ms))) []"
    unfolding keep_bucket_def outline_fold sorted_ranks by simp
  finally show ?thesis unfolding bucket_result_def mset_map [symmetric] by (rule arg_cong)
qed

lemma distinct_concat_map:
  "distinct xs \<Longrightarrow> (\<And>x. x \<in> set xs \<Longrightarrow> distinct (f x)) \<Longrightarrow>
   (\<And>x y. x \<in> set xs \<Longrightarrow> y \<in> set xs \<Longrightarrow> x \<noteq> y \<Longrightarrow> set (f x) \<inter> set (f y) = {}) \<Longrightarrow> distinct (concat (map f xs))"
  by (induction xs) fastforce+

lemma map_filter_map: "List.map_filter f (map g xs) = List.map_filter (f \<circ> g) xs"
  by (induction xs) (simp_all add: map_filter_simps split: option.split)

lemma map_of_map_filter: "map g (List.map_filter f xs) = List.map_filter (map_option g \<circ> f) xs"
  by (induction xs) (simp_all add: map_filter_simps split: option.split)

lemma set_map_filter: "x \<in> set (List.map_filter f xs) \<longleftrightarrow> (\<exists>a \<in> set xs. f a = Some x)"
  by (induction xs) (auto simp: map_filter_simps split: option.split)

lemma distinct_kept_copies: "distinct (map kc_index (kept_copies copies))"
proof -
  have ne: "\<exists>i c. (i, c) \<in> set (filter (\<lambda>(i, c). bucket_key c = key) (enumerate 0 copies)) \<and> bucket_key c = key"
    if key: "key \<in> bucket_key ` set copies" for key
  proof -
    obtain i where i: "i < length copies" "bucket_key (copies ! i) = key"
      using key by (auto simp: in_set_conv_nth)
    then show ?thesis by (intro exI [of _ i] exI [of _ "copies ! i"]) (simp add: in_set_enumerate_eq)
  qed
  have "distinct (buckets copies)"
    unfolding buckets_def
  proof (rule distinct_map [THEN iffD2], intro conjI inj_onI)
    fix key key' assume "key \<in> set (remdups (map bucket_key copies))"
      and eq: "filter (\<lambda>(i, c). bucket_key c = key) (enumerate 0 copies) = filter (\<lambda>(i, c). bucket_key c = key') (enumerate 0 copies)"
    then obtain i c where ic: "(i, c) \<in> set (filter (\<lambda>(i, c). bucket_key c = key) (enumerate 0 copies))" "bucket_key c = key"
      using ne by fastforce
    then have "(i, c) \<in> set (filter (\<lambda>(i, c). bucket_key c = key') (enumerate 0 copies))" unfolding eq by blast
    then show "key = key'" using ic(2) by auto
  qed simp
  then have "distinct (concat (map (\<lambda>ms. map kc_index (keep_bucket ms)) (buckets copies)))"
  proof (rule distinct_concat_map)
    show "distinct (map kc_index (keep_bucket ms))" if "ms \<in> set (buckets copies)" for ms
      by (rule distinct_kept_index [OF bucket_members(2) [OF that]])
    show "set (map kc_index (keep_bucket ms)) \<inter> set (map kc_index (keep_bucket ms')) = {}"
      if ms: "ms \<in> set (buckets copies)" "ms' \<in> set (buckets copies)" "ms \<noteq> ms'" for ms ms'
    proof -
      have "False" if "k \<in> set (keep_bucket ms)" "k' \<in> set (keep_bucket ms')" "kc_index k = kc_index k'" for k k'
        using index_unique [OF that(1) ms(1) that(2) ms(2) that(3)] ms(3) by blast
      then show ?thesis by auto
    qed
  qed
  then show ?thesis by (simp add: kept_copies_def map_concat comp_def)
qed

lemma mset_map_filter_pairs:
  "mset (List.map_filter (\<lambda>i. map_option (\<lambda>t. (i, t)) (one_copy_per_message copies ! i)) [0..<length copies]) =
   mset (map (\<lambda>k. (kc_index k, kc_timestamp_unix_ms k)) (kept_copies copies))" (is "mset ?xs = mset ?ys")
proof -
  have "distinct (map fst ?xs)"
  proof -
    have "map fst ?xs = filter (\<lambda>i. one_copy_per_message copies ! i \<noteq> None) [0..<length copies]"
      by (auto simp: List.map_filter_def comp_def intro!: filter_cong [OF refl] map_idI)
    then show ?thesis by simp
  qed
  moreover have "distinct (map fst ?ys)" using distinct_kept_copies by (simp add: comp_def)
  moreover have "set ?xs = set ?ys"
  proof -
    have "(i, t) \<in> set ?xs \<longleftrightarrow> i < length copies \<and> one_copy_per_message copies ! i = Some t" for i t
      by (auto simp: set_map_filter)
    moreover have "(i, t) \<in> set ?ys \<longleftrightarrow> i < length copies \<and> one_copy_per_message copies ! i = Some t" for i t
      using fate_Some [of i copies t] kept_index(1) by (fastforce simp: kept_copies_def)
    ultimately have "x \<in> set ?xs \<longleftrightarrow> x \<in> set ?ys" for x by (cases x) (simp only:)
    then show ?thesis by blast
  qed
  ultimately show ?thesis by (metis distinct_map set_eq_iff_mset_eq_distinct)
qed

lemma kept_messages_buckets:
  "kept_messages copies =
     sum_list (map (\<lambda>key. bucket_result key (image_mset rank (filter_mset (\<lambda>c. bucket_key c = key) (mset copies))))
       (remdups (map bucket_key copies)))"
proof -
  let ?g = "\<lambda>(i, t). (bucket_key (copies ! i), copy_digests (copies ! i), t)"
  have zip: "zip copies (one_copy_per_message copies) =
      map (\<lambda>i. (copies ! i, one_copy_per_message copies ! i)) [0..<length copies]"
    by (rule nth_equalityI) simp_all
  have "List.map_filter (\<lambda>(c, f). map_option (\<lambda>t. (bucket_key c, copy_digests c, t)) f)
       (zip copies (one_copy_per_message copies)) =
      map ?g (List.map_filter (\<lambda>i. map_option (\<lambda>t. (i, t)) (one_copy_per_message copies ! i)) [0..<length copies])"
    unfolding zip map_filter_map map_of_map_filter by (simp add: comp_def option.map_comp)
  then have "kept_messages copies =
      image_mset ?g (mset (map (\<lambda>k. (kc_index k, kc_timestamp_unix_ms k)) (kept_copies copies)))"
    unfolding kept_messages_def mset_map_filter_pairs [symmetric] by (simp only: mset_map)
  also have "\<dots> = mset (map (\<lambda>k. (bucket_key (copies ! kc_index k), copy_digests (copies ! kc_index k), kc_timestamp_unix_ms k))
      (kept_copies copies))"
    by (simp add: multiset.map_comp comp_def)
  also have "\<dots> = sum_list (map (\<lambda>ms. mset (map (\<lambda>k. (bucket_key (copies ! kc_index k), copy_digests (copies ! kc_index k),
      kc_timestamp_unix_ms k)) (keep_bucket ms))) (buckets copies))"
    unfolding kept_copies_def map_concat mset_concat by (simp add: comp_def)
  also have "\<dots> = sum_list (map (\<lambda>key. bucket_result key (image_mset rank (filter_mset (\<lambda>c. bucket_key c = key) (mset copies))))
       (remdups (map bucket_key copies)))"
    unfolding buckets_def map_map
  proof (intro arg_cong [where f = sum_list] map_cong [OF refl], unfold comp_def)
    fix key assume key: "key \<in> set (remdups (map bucket_key copies))"
    let ?ms = "filter (\<lambda>(i, c). bucket_key c = key) (enumerate 0 copies)"
    have b: "?ms \<in> set (buckets copies)" using key by (auto simp: buckets_def)
    have "map (\<lambda>k. (bucket_key (copies ! kc_index k), copy_digests (copies ! kc_index k), kc_timestamp_unix_ms k)) (keep_bucket ?ms) =
        map (\<lambda>k. (key, kc_digests k, kc_timestamp_unix_ms k)) (keep_bucket ?ms)"
      using kept_index [OF _ b] by (intro map_cong refl) auto
    moreover have "mset (map (rank \<circ> snd) ?ms) = image_mset rank (filter_mset (\<lambda>c. bucket_key c = key) (mset copies))"
    proof -
      have "map snd ?ms = filter (\<lambda>c. bucket_key c = key) (map snd (enumerate 0 copies))"
        unfolding filter_map by (simp add: comp_def case_prod_unfold)
      then show ?thesis by (simp only: map_map [symmetric] map_snd_enumerate mset_map mset_filter)
    qed
    ultimately show "mset (map (\<lambda>k. (bucket_key (copies ! kc_index k), copy_digests (copies ! kc_index k), kc_timestamp_unix_ms k))
        (keep_bucket ?ms)) = bucket_result key (image_mset rank (filter_mset (\<lambda>c. bucket_key c = key) (mset copies)))"
      using bucket_result_keep [of key ?ms] by (simp only: mset_map)
  qed
  finally show ?thesis .
qed

text \<open>C11: No message is lost and none is kept twice. Every copy read is stood for by a kept one of
  the same direction, sender, text, vendor key and second, with its attachments, and with its very
  time when it has milliseconds. No two kept copies could be one message: when they agree in
  direction, sender, text, vendor key and second, and in their attachments or one has none, their
  times are different and are both times a copy of that message recorded to the millisecond.\<close>

theorem one_copy_stands:
  "length (one_copy_per_message copies) = length copies \<and>
   (\<forall>i < length copies. \<exists>j t. j < length copies \<and> one_copy_per_message copies ! j = Some t \<and>
      bucket_key (copies ! j) = bucket_key (copies ! i) \<and>
      (copy_digests (copies ! i) = [] \<or> copy_digests (copies ! j) = copy_digests (copies ! i)) \<and>
      (cp_precision (copies ! i) = Milliseconds \<longrightarrow> t = cp_timestamp_unix_ms (copies ! i)) \<and>
      t div 1000 = cp_timestamp_unix_ms (copies ! i) div 1000) \<and>
   (\<forall>i < length copies. \<forall>j < length copies. \<forall>t u.
      i \<noteq> j \<and> one_copy_per_message copies ! i = Some t \<and> one_copy_per_message copies ! j = Some u \<and>
      bucket_key (copies ! i) = bucket_key (copies ! j) \<and>
      (copy_digests (copies ! i) = copy_digests (copies ! j) \<or> copy_digests (copies ! i) = [] \<or> copy_digests (copies ! j) = []) \<longrightarrow>
      t \<noteq> u \<and> ms_time copies (copies ! i) t \<and> ms_time copies (copies ! i) u)"
proof -
  have "t \<noteq> u \<and> ms_time copies (copies ! i) t \<and> ms_time copies (copies ! i) u"
    if "i < length copies" "j < length copies"
      "i \<noteq> j \<and> one_copy_per_message copies ! i = Some t \<and> one_copy_per_message copies ! j = Some u \<and>
       bucket_key (copies ! i) = bucket_key (copies ! j) \<and>
       (copy_digests (copies ! i) = copy_digests (copies ! j) \<or> copy_digests (copies ! i) = [] \<or> copy_digests (copies ! j) = [])"
    for i j t u
    using that fate_apart [of i copies j t u] by blast
  then show ?thesis
    using fate_stands [of _ copies, unfolded exact_def] by (intro conjI) (simp, blast+)
qed

text \<open>C27: Which messages are kept, with which attachments and which times, does not depend on
  the order the copies were read in.\<close>

theorem one_copy_order:
  assumes "mset copies = mset copies'"
  shows "kept_messages copies = kept_messages copies'"
proof -
  have keys: "mset (remdups (map bucket_key copies)) = mset (remdups (map bucket_key copies'))"
    by (subst set_eq_iff_mset_remdups_eq [symmetric]) (simp only: set_map mset_eq_setD [OF assms])
  have "sum_list (map f (remdups (map bucket_key copies))) = sum_list (map f (remdups (map bucket_key copies')))"
    for f :: "_ \<Rightarrow> ((bool \<times> string \<times> string \<times> string \<times> int) \<times> string list \<times> int) multiset"
    unfolding sum_mset_sum_list [symmetric] mset_map keys ..
  then show ?thesis unfolding kept_messages_buckets assms .
qed

text \<open>The two copies of an MMS that GO SMS Pro writes, in both orders.\<close>

definition sample_copy :: "int \<Rightarrow> time_precision \<Rightarrow> string list \<Rightarrow> message_copy" where
  "sample_copy ms precision digests =
     \<lparr>cp_is_from_me = False, cp_sender = Some ''+15555550122'', cp_timestamp_unix_ms = ms, cp_precision = precision,
      cp_text = ''lol'', cp_attachment_digests = digests, cp_vendor_key = None\<rparr>"

lemma sample_fate:
  "one_copy_per_message [sample_copy 1000 Seconds [''aa''], sample_copy 1250 Milliseconds []] = [Some 1250, None]"
  by code_simp

theorem one_copy_stands_witness:
  "\<exists>j. one_copy_per_message [sample_copy 1000 Seconds [''aa''], sample_copy 1250 Milliseconds []] ! j = Some 1250"
proof -
  let ?cs = "[sample_copy 1000 Seconds [''aa''], sample_copy 1250 Milliseconds []]"
  have "1 < length ?cs" by simp
  from one_copy_stands [of ?cs, THEN conjunct2, THEN conjunct1, rule_format, OF this]
  obtain j t where "one_copy_per_message ?cs ! j = Some t"
    "cp_precision (?cs ! 1) = Milliseconds \<longrightarrow> t = cp_timestamp_unix_ms (?cs ! 1)" by blast
  moreover have "cp_precision (?cs ! 1) = Milliseconds" "cp_timestamp_unix_ms (?cs ! 1) = 1250"
    by (simp_all add: sample_copy_def)
  ultimately show ?thesis by auto
qed

theorem one_copy_order_witness:
  "kept_messages [sample_copy 1000 Seconds [''aa''], sample_copy 1250 Milliseconds []] =
   kept_messages [sample_copy 1250 Milliseconds [], sample_copy 1000 Seconds [''aa'']]"
  by (rule one_copy_order) simp

section \<open>What an identity depends on\<close>

lemma distinct_remdups_adj_sorted: "sorted xs \<Longrightarrow> distinct (remdups_adj xs)"
proof (induction xs rule: remdups_adj.induct)
  case (3 x y xs)
  then show ?case by (cases "x = y") auto
qed simp_all

lemma clean_digests_set:
  assumes "{d \<in> trim ` set ds. d \<noteq> []} = {d \<in> trim ` set ds'. d \<noteq> []}"
  shows "clean_digests ds = clean_digests ds'"
proof -
  have "set (clean_digests ds) = {d \<in> trim ` set ds. d \<noteq> []}" for ds by (auto simp: clean_digests_def)
  moreover have "sorted (clean_digests ds)" "distinct (clean_digests ds)" for ds
    by (simp_all add: clean_digests_def distinct_remdups_adj_sorted)
  ultimately show ?thesis using assms by (intro sorted_distinct_set_unique) simp_all
qed

lemma identity_depends:
  assumes "mi_chat a = mi_chat b" and "mi_is_from_me a = mi_is_from_me b"
    and "mi_is_from_me a \<or> mi_sender a = mi_sender b"
    and "time_at precision (mi_timestamp_unix_ms a) = time_at precision (mi_timestamp_unix_ms b)"
    and "split_whitespace (mi_text a) = split_whitespace (mi_text b)"
    and "{d \<in> trim ` set (mi_attachment_digests a). d \<noteq> []} = {d \<in> trim ` set (mi_attachment_digests b). d \<noteq> []}"
    and "mi_vendor_key a = mi_vendor_key b"
  shows "identity_key sha a precision = identity_key sha b precision"
  using assms clean_digests_set [OF assms(6)]
  by (auto simp: identity_key_def identity_text_def collapse_whitespace_def sender_key_def)

text \<open>
  The parts are joined by a bar that may also stand in them: a body that ends like a digest and a
  message with that digest are hashed as one text.
\<close>

definition plain_identity :: "string \<Rightarrow> string list \<Rightarrow> message_identity" where
  "plain_identity body digests =
     \<lparr>mi_chat = ''c'', mi_is_from_me = True, mi_sender = None, mi_timestamp_unix_ms = 0, mi_text = body,
      mi_attachment_digests = digests, mi_vendor_key = None\<rparr>"

lemma identity_ambiguous:
  "message_guid sha (plain_identity ''hi|ab'' []) = message_guid sha (plain_identity ''hi'' [''ab''])"
proof -
  have "identity_text (plain_identity ''hi|ab'' []) Milliseconds = identity_text (plain_identity ''hi'' [''ab'']) Milliseconds"
    by code_simp
  then show ?thesis by (simp add: message_guid_def identity_key_def)
qed

end
