(* ===== verification/Dedupe.thy ===== *)
theory Dedupe
  imports Identity
begin

text \<open>
  The cross-source dedupe of an account's messages (\<open>crates/server/server/src/dedupe.rs\<close>): the
  content key of a row, the exact pass over the rows of one key, the near-time pass over each
  conversation, and the run that clears and sets the flags. The tables are read as lists of rows
  with what the SQL selects; chrono's RFC 3339 reader and SHA-256 are parameters. A hidden row
  never stands for one of the winner's own source (\<open>group_flags\<close>), no pass hides a row it keeps
  for another (\<open>near_flags\<close>), and over both passes a hidden row leads to a shown one in at
  most two steps (\<open>hidden_leads_to_shown\<close>).
\<close>

section \<open>Content keys\<close>

definition normalize_body :: "string option \<Rightarrow> string" where
  "normalize_body body = collapse_whitespace (case body of None \<Rightarrow> [] | Some s \<Rightarrow> s)"

definition chat_identity_for_content_key :: "string \<Rightarrow> string list option \<Rightarrow> string" where
  "chat_identity_for_content_key chat_identifier group_handles =
     (case group_handles of
        Some (h # hs) \<Rightarrow> ''group:'' @ join ''|'' (remdups_adj (sort (filter (\<lambda>h. h \<noteq> []) (h # hs))))
      | _ \<Rightarrow> chat_identifier)"

text \<open>\<open>i64::saturating_mul\<close>.\<close>

definition saturating_mul :: "int \<Rightarrow> int \<Rightarrow> int" where
  "saturating_mul a b = max (- (2 ^ 63)) (min (2 ^ 63 - 1) (a * b))"

definition parse_rfc3339_utc_secs :: "(string \<Rightarrow> int option) \<Rightarrow> string \<Rightarrow> int option" where
  "parse_rfc3339_utc_secs rfc3339 ts = rfc3339 (trim ts)"

definition compute_content_key ::
  "(u8 list \<Rightarrow> u8 list) \<Rightarrow> (string \<Rightarrow> int option) \<Rightarrow> string \<Rightarrow> bool \<Rightarrow> string option \<Rightarrow> string \<Rightarrow> string option \<Rightarrow>
   string list \<Rightarrow> string option" where
  "compute_content_key sha rfc3339 chat_identifier is_from_me sender_normalized timestamp body attachment_shas =
     map_option
       (\<lambda>secs. identity_key sha
         \<lparr>mi_chat = chat_identifier, mi_is_from_me = is_from_me, mi_sender = sender_normalized,
          mi_timestamp_unix_ms = saturating_mul secs 1000,
          mi_text = (case body of None \<Rightarrow> [] | Some s \<Rightarrow> s),
          mi_attachment_digests = attachment_shas, mi_vendor_key = None\<rparr> Seconds)
       (parse_rfc3339_utc_secs rfc3339 (trim timestamp))"

text \<open>A row of \<open>messages\<close> with what the queries join to it.\<close>

record message_row =
  mr_id :: int
  mr_conversation :: int
  mr_chat_id :: string
  mr_conversation_type :: string
  mr_source :: string
  mr_is_from_me :: int
  mr_timestamp :: string
  mr_body :: "string option"
  mr_sender :: "string option"
  mr_shas :: "string list"
  mr_content_key :: "string option"
  mr_duplicate_of :: "int option"

definition content_key_for_row ::
  "(u8 list \<Rightarrow> u8 list) \<Rightarrow> (string \<Rightarrow> int option) \<Rightarrow> (int \<Rightarrow> string list option) \<Rightarrow> message_row \<Rightarrow> string option" where
  "content_key_for_row sha rfc3339 group_handles m =
     (let identity =
            (if mr_conversation_type m = ''group''
             then chat_identity_for_content_key (mr_chat_id m) (group_handles (mr_conversation m))
             else mr_chat_id m)
      in compute_content_key sha rfc3339 identity (mr_is_from_me m \<noteq> 0) (mr_sender m) (mr_timestamp m)
           (mr_body m) (mr_shas m))"

text \<open>Every key is recomputed; a row whose time does not parse keeps the key it has.\<close>

definition refresh_content_keys ::
  "(u8 list \<Rightarrow> u8 list) \<Rightarrow> (string \<Rightarrow> int option) \<Rightarrow> (int \<Rightarrow> string list option) \<Rightarrow> message_row list \<Rightarrow> message_row list" where
  "refresh_content_keys sha rfc3339 group_handles rows =
     map (\<lambda>m. case content_key_for_row sha rfc3339 group_handles m of
                None \<Rightarrow> m
              | Some key \<Rightarrow> m\<lparr>mr_content_key := Some key\<rparr>) rows"

section \<open>The exact pass\<close>

record cand =
  cd_id :: int
  cd_source :: string
  cd_att_count :: int

definition source_rank :: "(string \<Rightarrow> nat option) \<Rightarrow> string \<Rightarrow> nat" where
  "source_rank prio s = (case prio s of None \<Rightarrow> 2 ^ 64 - 1 | Some n \<Rightarrow> n)"

definition winner_rank :: "(string \<Rightarrow> nat option) \<Rightarrow> cand \<Rightarrow> int \<times> nat \<times> int" where
  "winner_rank prio c = (- cd_att_count c, source_rank prio (cd_source c), cd_id c)"

text \<open>\<open>None\<close> is the panic of \<open>cands[0]\<close> on no candidates.\<close>

definition pick_winner :: "cand list \<Rightarrow> (string \<Rightarrow> nat option) \<Rightarrow> int option" where
  "pick_winner cands prio =
     (if cands = [] then None else Some (cd_id (arg_min_list (winner_rank prio) cands)))"

definition held_by :: "cand list \<Rightarrow> string \<Rightarrow> cand list" where
  "held_by cands s = filter (\<lambda>c. cd_source c = s) cands"

definition shown_count :: "cand list \<Rightarrow> nat" where
  "shown_count cands = fold max (map (\<lambda>s. length (held_by cands s)) (remdups (map cd_source cands))) 0"

text \<open>All the candidates in the order they are kept.\<close>

definition keep_order :: "(string \<Rightarrow> nat option) \<Rightarrow> string \<Rightarrow> cand list \<Rightarrow> cand list" where
  "keep_order prio winner_source cands =
     concat (map (\<lambda>s. sort_key (\<lambda>c. (- cd_att_count c, cd_id c)) (held_by cands s))
       (sort_key (\<lambda>s. (s \<noteq> winner_source, source_rank prio s, s)) (remdups (map cd_source cands))))"

definition exact_group_flags :: "cand list \<Rightarrow> (string \<Rightarrow> nat option) \<Rightarrow> (int \<times> int) list" where
  "exact_group_flags cands prio =
     (case pick_winner cands prio of
        None \<Rightarrow> []
      | Some winner \<Rightarrow>
          (let winner_source = (case find (\<lambda>c. cd_id c = winner) cands of None \<Rightarrow> [] | Some c \<Rightarrow> cd_source c)
           in map (\<lambda>c. (cd_id c, winner)) (drop (shown_count cands) (keep_order prio winner_source cands))))"

definition row_cand :: "message_row \<Rightarrow> cand" where
  "row_cand m = \<lparr>cd_id = mr_id m, cd_source = mr_source m, cd_att_count = int (length (mr_shas m))\<rparr>"

text \<open>The rows by key; an empty key counts as none. The map's order does not matter: the groups are apart.\<close>

definition key_groups :: "message_row list \<Rightarrow> cand list list" where
  "key_groups rows =
     (let keyed = filter (\<lambda>m. mr_content_key m \<noteq> None \<and> mr_content_key m \<noteq> Some []) rows
      in map (\<lambda>key. map row_cand (filter (\<lambda>m. mr_content_key m = key) keyed)) (remdups (map mr_content_key keyed)))"

definition flag_exact_content_key_dupes :: "(string \<Rightarrow> nat option) \<Rightarrow> message_row list \<Rightarrow> nat \<times> (int \<times> int) list" where
  "flag_exact_content_key_dupes prio rows =
     (let groups = filter (\<lambda>cands. 2 \<le> length (remdups (map cd_source cands))) (key_groups rows)
      in (length groups, concat (map (\<lambda>cands. exact_group_flags cands prio) groups)))"

section \<open>The near-time pass\<close>

record near_row =
  nr_id :: int
  nr_source :: string
  nr_is_from_me :: int
  nr_sender_norm :: string
  nr_secs :: int
  nr_body_norm :: string
  nr_att_fp :: string
  nr_att_count :: int
  nr_content_key :: string

definition is_twin_of :: "near_row \<Rightarrow> near_row \<Rightarrow> bool" where
  "is_twin_of self other \<longleftrightarrow>
     (let same_body = nr_body_norm self \<noteq> [] \<and> nr_body_norm other = nr_body_norm self;
          same_attachments = nr_att_fp self \<noteq> [] \<and> nr_att_fp other = nr_att_fp self;
          same_key = nr_content_key self \<noteq> [] \<and> nr_content_key other = nr_content_key self
      in nr_is_from_me other = nr_is_from_me self \<and> nr_sender_norm other = nr_sender_norm self \<and>
         nr_source other \<noteq> nr_source self \<and> \<not> same_key \<and> (same_body \<or> same_attachments))"

definition candidate :: "near_row \<Rightarrow> cand" where
  "candidate r = \<lparr>cd_id = nr_id r, cd_source = nr_source r, cd_att_count = nr_att_count r\<rparr>"

definition or_blank :: "string option \<Rightarrow> string" where
  "or_blank s = (case s of None \<Rightarrow> [] | Some t \<Rightarrow> t)"

definition near_row_of :: "(string \<Rightarrow> int option) \<Rightarrow> message_row \<Rightarrow> near_row option" where
  "near_row_of rfc3339 m =
     map_option
       (\<lambda>secs. \<lparr>nr_id = mr_id m, nr_source = mr_source m, nr_is_from_me = mr_is_from_me m,
          nr_sender_norm = (if mr_is_from_me m \<noteq> 0 then [] else or_blank (mr_sender m)), nr_secs = secs,
          nr_body_norm = normalize_body (mr_body m), nr_att_fp = join '','' (sort (mr_shas m)),
          nr_att_count = int (length (mr_shas m)), nr_content_key = or_blank (mr_content_key m)\<rparr>)
       (parse_rfc3339_utc_secs rfc3339 (trim (mr_timestamp m)))"

definition load_near_rows :: "(string \<Rightarrow> int option) \<Rightarrow> message_row list \<Rightarrow> near_row list list" where
  "load_near_rows rfc3339 rows =
     (let shown = filter (\<lambda>m. mr_duplicate_of m = None) rows
      in map (\<lambda>conv. List.map_filter (near_row_of rfc3339) (filter (\<lambda>m. mr_conversation m = conv) shown))
           (remdups (map mr_conversation shown)))"

text \<open>The loop over the rows of one conversation, in time order, with the ids already clustered.\<close>

definition cluster_at :: "int \<Rightarrow> int set \<Rightarrow> near_row \<Rightarrow> near_row list \<Rightarrow> near_row list" where
  "cluster_at window_secs clustered r rest =
     r # filter (\<lambda>row. is_twin_of r row \<and> nr_id row \<notin> clustered)
           (takeWhile (\<lambda>row. nr_secs row - nr_secs r \<le> window_secs) rest)"

fun near_loop :: "(string \<Rightarrow> nat option) \<Rightarrow> int \<Rightarrow> near_row list \<Rightarrow> int set \<Rightarrow> (int \<times> int) list \<times> int set" where
  "near_loop prio window_secs [] clustered = ([], clustered)"
| "near_loop prio window_secs (r # rest) clustered =
     (if nr_id r \<in> clustered then near_loop prio window_secs rest clustered
      else
        (let cluster = map candidate (cluster_at window_secs clustered r rest)
         in if length (remdups (map cd_source cluster)) < 2 then near_loop prio window_secs rest clustered
            else
              (let cluster_flags = exact_group_flags cluster prio;
                   (flags, clustered') =
                     near_loop prio window_secs rest (clustered \<union> fst ` set cluster_flags \<union> snd ` set cluster_flags)
               in (cluster_flags @ flags, clustered'))))"

fun conversations_loop :: "(string \<Rightarrow> nat option) \<Rightarrow> int \<Rightarrow> near_row list list \<Rightarrow> int set \<Rightarrow> (int \<times> int) list" where
  "conversations_loop prio window_secs [] clustered = []"
| "conversations_loop prio window_secs (rows # convs) clustered =
     (let (flags, clustered') = near_loop prio window_secs (sort_key (\<lambda>r. (nr_secs r, nr_id r)) rows) clustered
      in flags @ conversations_loop prio window_secs convs clustered')"

definition cluster_near_dupes :: "near_row list list \<Rightarrow> (string \<Rightarrow> nat option) \<Rightarrow> int \<Rightarrow> (int \<times> int) list" where
  "cluster_near_dupes by_conversation prio window_secs = conversations_loop prio window_secs by_conversation {}"

definition flag_near_time_dupes ::
  "(string \<Rightarrow> int option) \<Rightarrow> (string \<Rightarrow> nat option) \<Rightarrow> int \<Rightarrow> message_row list \<Rightarrow> (int \<times> int) list" where
  "flag_near_time_dupes rfc3339 prio window_secs rows = cluster_near_dupes (load_near_rows rfc3339 rows) prio window_secs"

section \<open>The run\<close>

definition apply_duplicate_flags :: "(int \<times> int) list \<Rightarrow> message_row list \<Rightarrow> message_row list" where
  "apply_duplicate_flags flags rows =
     map (\<lambda>m. case map_of flags (mr_id m) of None \<Rightarrow> m | Some w \<Rightarrow> m\<lparr>mr_duplicate_of := Some w\<rparr>) rows"

definition clear_flags :: "message_row list \<Rightarrow> message_row list" where
  "clear_flags rows = map (\<lambda>m. m\<lparr>mr_duplicate_of := None\<rparr>) rows"

record dedupe_stats =
  ds_keys_filled :: nat
  ds_exact_groups :: nat
  ds_exact_flagged :: nat
  ds_near_flagged :: nat

text \<open>The sources in the order of their first message; a blank source has no rank.\<close>

definition source_priority_from_db :: "message_row list \<Rightarrow> string list" where
  "source_priority_from_db rows =
     (let sources = remdups (filter (\<lambda>s. dropWhile (\<lambda>c. c = CHR '' '') s \<noteq> []) (map mr_source rows));
          first_id = (\<lambda>s. Min (set (map mr_id (filter (\<lambda>m. mr_source m = s) rows))))
      in sort_key (\<lambda>s. (first_id s, s)) sources)"

text \<open>Collected into a map, the last place of a source counts.\<close>

definition rank_of :: "string list \<Rightarrow> string \<Rightarrow> nat option" where
  "rank_of priority = map_of (rev (zip priority [0..<length priority]))"

definition dedupe_cross_source ::
  "(u8 list \<Rightarrow> u8 list) \<Rightarrow> (string \<Rightarrow> int option) \<Rightarrow> (int \<Rightarrow> string list option) \<Rightarrow> string list option \<Rightarrow> int \<Rightarrow>
   message_row list \<Rightarrow> message_row list \<times> dedupe_stats" where
  "dedupe_cross_source sha rfc3339 group_handles source_priority near_window_secs rows =
     (let priority = (case source_priority of Some p \<Rightarrow> p | None \<Rightarrow> source_priority_from_db rows);
          prio = rank_of priority;
          keyed = refresh_content_keys sha rfc3339 group_handles rows;
          filled = length (filter (\<lambda>(m, m'). mr_content_key m \<noteq> mr_content_key m') (zip rows keyed));
          cleared = clear_flags keyed;
          (groups, flags) = flag_exact_content_key_dupes prio cleared;
          exact = apply_duplicate_flags flags cleared;
          near = flag_near_time_dupes rfc3339 prio near_window_secs exact
      in (apply_duplicate_flags near exact,
          \<lparr>ds_keys_filled = filled, ds_exact_groups = groups, ds_exact_flagged = length flags,
           ds_near_flagged = length near\<rparr>))"

section \<open>One group\<close>

lemma fold_max_ge: "x \<in> set xs \<Longrightarrow> x \<le> fold max xs (m :: nat)"
proof (induction xs arbitrary: m)
  case (Cons y ys)
  have "m \<le> fold max ys m" for m
    by (induction ys arbitrary: m) (auto intro: order_trans [OF max.cobounded2])
  then show ?case using Cons by (auto intro: order_trans [OF max.cobounded1])
qed simp

lemma held_le_shown: "length (held_by cands s) \<le> shown_count cands"
proof (cases "s \<in> set (map cd_source cands)")
  case True
  then show ?thesis unfolding shown_count_def by (intro fold_max_ge) auto
next
  case False
  then have "held_by cands s = []" by (auto simp: held_by_def filter_empty_conv)
  then show ?thesis by simp
qed

lemma fold_max_in: "fold max xs (m :: nat) \<in> insert m (set xs)"
proof (induction xs arbitrary: m)
  case (Cons x xs)
  then show ?case using Cons [of "max x m"] by (auto simp: max_def split: if_splits)
qed simp

lemma shown_is_held: "cands \<noteq> [] \<Longrightarrow> \<exists>s. shown_count cands = length (held_by cands s)"
proof -
  assume "cands \<noteq> []"
  then obtain c where c: "c \<in> set cands" by (cases cands) auto
  then have "0 < length (held_by cands (cd_source c))" by (auto simp: held_by_def filter_empty_conv)
  then have "shown_count cands \<noteq> 0" using held_le_shown [of cands "cd_source c"] by linarith
  then show ?thesis
    using fold_max_in [of "map (\<lambda>s. length (held_by cands s)) (remdups (map cd_source cands))" 0]
    by (auto simp: shown_count_def)
qed

lemma mset_held: "mset (concat (map (held_by cands) ss)) = mset (filter (\<lambda>c. cd_source c \<in> set ss) cands)" if "distinct ss"
  using that
proof (induction ss)
  case (Cons s ss)
  have "mset (filter (\<lambda>c. cd_source c \<in> set (s # ss)) cands) =
      mset (filter (\<lambda>c. cd_source c = s) cands) + mset (filter (\<lambda>c. cd_source c \<in> set ss) cands)"
    using Cons.prems by (induction cands) auto
  then show ?case using Cons by (simp add: held_by_def)
qed simp

lemma mset_keep_order [simp]: "mset (keep_order prio w cands) = mset cands"
proof -
  let ?ss = "sort_key (\<lambda>s. (s \<noteq> w, source_rank prio s, s)) (remdups (map cd_source cands))"
  have "mset (keep_order prio w cands) = mset (concat (map (held_by cands) ?ss))"
    unfolding keep_order_def mset_concat by (simp add: comp_def)
  also have "\<dots> = mset (filter (\<lambda>c. cd_source c \<in> set ?ss) cands)" by (rule mset_held) simp
  also have "filter (\<lambda>c. cd_source c \<in> set ?ss) cands = cands" by (simp add: filter_id_conv)
  finally show ?thesis .
qed

lemma arg_min_list_least:
  "xs \<noteq> [] \<Longrightarrow> arg_min_list f xs \<in> set xs \<and> (\<forall>x \<in> set xs. f (arg_min_list f xs) \<le> f x)" for f :: "'a \<Rightarrow> 'b :: linorder"
  by (induction f xs rule: arg_min_list.induct) (auto simp: Let_def intro: order_trans)

lemma find_key: "distinct (map f xs) \<Longrightarrow> x \<in> set xs \<Longrightarrow> find (\<lambda>y. f y = f x) xs = Some x"
  by (induction xs) auto

lemma pick_winner_Some:
  assumes "pick_winner cands prio = Some w" and "distinct (map cd_id cands)"
  shows "\<exists>c \<in> set cands. cd_id c = w \<and> find (\<lambda>c. cd_id c = w) cands = Some c \<and>
    (\<forall>c' \<in> set cands. winner_rank prio c \<le> winner_rank prio c')"
proof -
  let ?c = "arg_min_list (winner_rank prio) cands"
  have ne: "cands \<noteq> []" and w: "w = cd_id ?c" using assms(1) by (auto simp: pick_winner_def split: if_splits)
  note least = arg_min_list_least [OF ne, of "winner_rank prio"]
  then have "find (\<lambda>c. cd_id c = w) cands = Some ?c"
    unfolding w by (intro find_key [OF assms(2)]) blast
  then show ?thesis using least w by (intro bexI [of _ ?c]) auto
qed

text \<open>The rows of the winner's source come first, the winner before all.\<close>

lemma keep_order_first:
  assumes "c \<in> set cands" and "w = cd_source c"
  shows "\<exists>rest. keep_order prio w cands = sort_key (\<lambda>c. (- cd_att_count c, cd_id c)) (held_by cands w) @ rest"
proof -
  let ?f = "\<lambda>s. (s \<noteq> w, source_rank prio s, s)"
  let ?ss = "sort_key ?f (remdups (map cd_source cands))"
  have w: "w \<in> set ?ss" using assms by auto
  then obtain s ss where ss: "?ss = s # ss" by (cases ?ss) auto
  have "sorted (map ?f ?ss)" by simp
  then have "?f s \<le> ?f w" using w unfolding ss by auto
  then have "s = w" by (auto simp: less_eq_prod_def)
  then show ?thesis unfolding keep_order_def ss by simp
qed

text \<open>A group keeps as many rows as the source that holds most; the others are hidden, each once,
  each for one winner, and none for a winner of its own source.\<close>

lemma group_flags:
  assumes "cands \<noteq> []" and "distinct (map cd_id cands)"
  shows "length (exact_group_flags cands prio) + shown_count cands = length cands"
    and "distinct (map fst (exact_group_flags cands prio))"
    and "\<exists>c \<in> set cands. (\<forall>c' \<in> set cands. winner_rank prio c \<le> winner_rank prio c') \<and>
      (\<forall>(l, w) \<in> set (exact_group_flags cands prio). w = cd_id c \<and>
         (\<exists>d \<in> set cands. cd_id d = l \<and> cd_source d \<noteq> cd_source c))"
proof -
  obtain w where pw: "pick_winner cands prio = Some w" using assms(1) by (auto simp: pick_winner_def)
  obtain c where c: "c \<in> set cands" "cd_id c = w" "find (\<lambda>c. cd_id c = w) cands = Some c"
    "\<forall>c' \<in> set cands. winner_rank prio c \<le> winner_rank prio c'"
    using pick_winner_Some [OF pw assms(2)] by blast
  let ?all = "keep_order prio (cd_source c) cands"
  have flags: "exact_group_flags cands prio = map (\<lambda>c. (cd_id c, w)) (drop (shown_count cands) ?all)"
    using pw c(3) by (simp add: exact_group_flags_def)
  have len: "length ?all = length cands" by (metis mset_keep_order size_mset)
  obtain s where "shown_count cands = length (held_by cands s)" using shown_is_held [OF assms(1)] by blast
  then have "shown_count cands \<le> length cands" by (simp add: held_by_def)
  then show "length (exact_group_flags cands prio) + shown_count cands = length cands" by (simp add: flags len)
  have "mset (map cd_id ?all) = mset (map cd_id cands)" by (simp only: mset_map mset_keep_order)
  then have dist: "distinct (map cd_id ?all)" using assms(2) by (metis mset_eq_imp_distinct_iff)
  then show "distinct (map fst (exact_group_flags cands prio))"
    by (simp add: flags comp_def) (metis distinct_drop drop_map)
  obtain rest where rest: "?all = sort_key (\<lambda>c. (- cd_att_count c, cd_id c)) (held_by cands (cd_source c)) @ rest"
    using keep_order_first [OF c(1) refl] by blast
  have "d \<in> set cands \<and> cd_source d \<noteq> cd_source c" if d: "d \<in> set (drop (shown_count cands) ?all)" for d
  proof -
    have all: "set ?all = set cands" by (metis mset_keep_order set_mset_mset)
    have "d \<in> set rest" using d held_le_shown [of cands "cd_source c"] unfolding rest by (auto dest: in_set_dropD)
    then have "d \<notin> set (held_by cands (cd_source c))" "d \<in> set ?all"
      using dist unfolding rest by (auto simp: distinct_map)
    then show ?thesis using all by (auto simp: held_by_def)
  qed
  then show "\<exists>c \<in> set cands. (\<forall>c' \<in> set cands. winner_rank prio c \<le> winner_rank prio c') \<and>
      (\<forall>(l, w) \<in> set (exact_group_flags cands prio). w = cd_id c \<and>
         (\<exists>d \<in> set cands. cd_id d = l \<and> cd_source d \<noteq> cd_source c))"
    using c by (intro bexI [of _ c]) (auto simp: flags)
qed

lemma group_flags_Nil [simp]: "exact_group_flags [] prio = []"
  by (simp add: exact_group_flags_def pick_winner_def)

section \<open>The near-time pass\<close>

text \<open>What a flag of the near-time pass may join.\<close>

definition near_pair :: "int \<Rightarrow> near_row list \<Rightarrow> int \<times> int \<Rightarrow> bool" where
  "near_pair window_secs rows lw \<longleftrightarrow>
     (\<exists>a \<in> set rows. \<exists>b \<in> set rows. nr_id a = fst lw \<and> nr_id b = snd lw \<and> nr_source a \<noteq> nr_source b \<and>
        \<bar>nr_secs a - nr_secs b\<bar> \<le> window_secs \<and>
        nr_is_from_me a = nr_is_from_me b \<and> nr_sender_norm a = nr_sender_norm b)"

lemma near_pair_mono: "near_pair window_secs rows lw \<Longrightarrow> set rows \<subseteq> set rows' \<Longrightarrow> near_pair window_secs rows' lw"
  by (auto simp: near_pair_def)

lemma cluster_member:
  assumes "x \<in> set (cluster_at window_secs C r rest)" and "sorted (map nr_secs (r # rest))"
  shows "x = r \<or> nr_id x \<notin> C \<and> x \<in> set rest \<and> is_twin_of r x \<and> nr_secs r \<le> nr_secs x \<and> nr_secs x - nr_secs r \<le> window_secs"
proof -
  have "nr_secs r \<le> nr_secs x" if "x \<in> set rest" using assms(2) that by auto
  then show ?thesis using assms(1) by (auto simp: cluster_at_def dest: set_takeWhileD)
qed

lemma cluster_flags_ok:
  assumes "distinct (map nr_id (r # rest))" and "sorted (map nr_secs (r # rest))" and "nr_id r \<notin> C"
    and "flags = exact_group_flags (map candidate (cluster_at window_secs C r rest)) prio"
  shows "distinct (map fst flags)" "fst ` set flags \<inter> snd ` set flags = {}"
    "fst ` set flags \<union> snd ` set flags \<subseteq> nr_id ` set (r # rest) - C"
    "lw \<in> set flags \<Longrightarrow> near_pair window_secs (r # rest) lw"
proof -
  let ?cl = "cluster_at window_secs C r rest"
  have ids: "map cd_id (map candidate ?cl) = map nr_id ?cl" by (simp add: candidate_def)
  have "distinct ?cl" using assms(1) by (auto simp: cluster_at_def distinct_map dest: set_takeWhileD)
  moreover have "inj_on nr_id (set ?cl)"
  proof (rule inj_on_subset)
    show "inj_on nr_id (set (r # rest))" using assms(1) unfolding distinct_map by blast
    show "set ?cl \<subseteq> set (r # rest)" by (auto simp: cluster_at_def dest: set_takeWhileD)
  qed
  ultimately have dist: "distinct (map cd_id (map candidate ?cl))" unfolding ids by (simp add: distinct_map)
  have ne: "map candidate ?cl \<noteq> []" by (simp add: cluster_at_def)
  note g = group_flags [OF ne dist, of prio, folded assms(4)]
  show "distinct (map fst flags)" by (rule g(2))
  obtain c where c: "c \<in> set ?cl"
    "\<And>l w. (l, w) \<in> set flags \<Longrightarrow> w = nr_id c \<and> (\<exists>d \<in> set ?cl. nr_id d = l \<and> nr_source d \<noteq> nr_source c)"
    using g(3) by (auto simp: candidate_def) blast
  have mem: "x = r \<or> nr_id x \<notin> C \<and> x \<in> set rest \<and> is_twin_of r x \<and> nr_secs r \<le> nr_secs x \<and> nr_secs x - nr_secs r \<le> window_secs"
    if "x \<in> set ?cl" for x
    by (rule cluster_member [OF that assms(2)])
  have inj: "x = y" if "x \<in> set (r # rest)" "y \<in> set (r # rest)" "nr_id x = nr_id y" for x y
    using assms(1) that unfolding distinct_map by (blast dest: inj_onD)
  show "fst ` set flags \<inter> snd ` set flags = {}"
  proof -
    have False if f: "(l, w) \<in> set flags" "(l', l) \<in> set flags" for l w l'
    proof -
      obtain d where d: "d \<in> set ?cl" "nr_id d = l" "nr_source d \<noteq> nr_source c" using c(2) [OF f(1)] by blast
      have "nr_id d = nr_id c" using c(2) [OF f(2)] d(2) by simp
      then have "d = c" using inj mem [OF d(1)] mem [OF c(1)] by auto
      then show False using d(3) by simp
    qed
    then show ?thesis by fastforce
  qed
  show "fst ` set flags \<union> snd ` set flags \<subseteq> nr_id ` set (r # rest) - C"
    using c mem assms(3) by (fastforce)
  show "near_pair window_secs (r # rest) lw" if f: "lw \<in> set flags"
  proof -
    obtain l w where lw: "lw = (l, w)" by (cases lw)
    obtain d where d: "d \<in> set ?cl" "nr_id d = l" "nr_source d \<noteq> nr_source c" "w = nr_id c"
      using c(2) f lw by blast
    have "d \<in> set (r # rest)" "c \<in> set (r # rest)" using mem d(1) c(1) by auto
    moreover have "\<bar>nr_secs d - nr_secs c\<bar> \<le> window_secs \<and> nr_is_from_me d = nr_is_from_me c \<and> nr_sender_norm d = nr_sender_norm c"
      using mem [OF d(1)] mem [OF c(1)] d(3) by (auto simp: is_twin_of_def Let_def)
    ultimately show ?thesis using d lw unfolding near_pair_def by auto
  qed
qed

lemma near_loop_ok:
  assumes "near_loop prio window_secs rows C = (flags, C')" and "distinct (map nr_id rows)" and "sorted (map nr_secs rows)"
  shows "distinct (map fst flags) \<and> fst ` set flags \<inter> snd ` set flags = {} \<and>
    fst ` set flags \<union> snd ` set flags \<subseteq> nr_id ` set rows - C \<and> (\<forall>lw \<in> set flags. near_pair window_secs rows lw) \<and>
    C \<union> fst ` set flags \<union> snd ` set flags \<subseteq> C' \<and> C' \<subseteq> C \<union> nr_id ` set rows"
  using assms
proof (induction prio window_secs rows C arbitrary: flags C' rule: near_loop.induct)
  case (1 prio window_secs C)
  then show ?case by simp
next
  case (2 prio window_secs r rest C)
  let ?cluster = "map candidate (cluster_at window_secs C r rest)"
  have rest: "distinct (map nr_id rest)" "sorted (map nr_secs rest)" using 2(5,6) by simp_all
  show ?case
  proof (cases "nr_id r \<in> C \<or> length (remdups (map cd_source ?cluster)) < 2")
    case True
    then have "near_loop prio window_secs rest C = (flags, C')"
      using 2(4) unfolding near_loop.simps Let_def by (metis (no_types, lifting))
    then have "distinct (map fst flags) \<and> fst ` set flags \<inter> snd ` set flags = {} \<and>
      fst ` set flags \<union> snd ` set flags \<subseteq> nr_id ` set rest - C \<and> (\<forall>lw \<in> set flags. near_pair window_secs rest lw) \<and>
      C \<union> fst ` set flags \<union> snd ` set flags \<subseteq> C' \<and> C' \<subseteq> C \<union> nr_id ` set rest"
      using 2(1) [OF _ _ rest] 2(2) [OF _ refl _ _ rest] True by (cases "nr_id r \<in> C") auto
    then show ?thesis by (auto intro: near_pair_mono)
  next
    case False
    define cf where "cf = exact_group_flags ?cluster prio"
    let ?D = "C \<union> fst ` set cf \<union> snd ` set cf"
    obtain fl where fl: "near_loop prio window_secs rest ?D = (fl, C')" "flags = cf @ fl"
      using 2(4) False unfolding cf_def near_loop.simps Let_def
      by (auto simp del: map_map split: prod.splits if_splits)
    have IH: "distinct (map fst fl) \<and> fst ` set fl \<inter> snd ` set fl = {} \<and>
      fst ` set fl \<union> snd ` set fl \<subseteq> nr_id ` set rest - ?D \<and> (\<forall>lw \<in> set fl. near_pair window_secs rest lw) \<and>
      ?D \<union> fst ` set fl \<union> snd ` set fl \<subseteq> C' \<and> C' \<subseteq> ?D \<union> nr_id ` set rest"
      using 2(3) [OF _ refl _ refl, of fl C'] False fl(1) rest unfolding cf_def by simp
    have nC: "nr_id r \<notin> C" using False by simp
    note c = cluster_flags_ok [OF 2(5,6) nC cf_def]
    have pairs: "near_pair window_secs (r # rest) lw" if "lw \<in> set flags" for lw
    proof (cases "lw \<in> set cf")
      case True
      then show ?thesis by (rule c(4))
    next
      case False
      then have "near_pair window_secs rest lw" using that fl(2) IH by auto
      then show ?thesis by (rule near_pair_mono) auto
    qed
    have apart: "(fst ` set fl \<union> snd ` set fl) \<inter> (fst ` set cf \<union> snd ` set cf) = {}" using IH by blast
    then have "distinct (map fst flags)" using IH c(1) fl(2) by auto
    moreover have "fst ` set flags \<inter> snd ` set flags = {}" using IH c(2) fl(2) apart by auto
    moreover have "fst ` set flags \<union> snd ` set flags \<subseteq> nr_id ` set (r # rest) - C" using IH c(3) fl(2) by auto
    moreover have "C \<union> fst ` set flags \<union> snd ` set flags \<subseteq> C'" using IH fl(2) by auto
    moreover have "C' \<subseteq> C \<union> nr_id ` set (r # rest)"
    proof -
      have "C' \<subseteq> ?D \<union> nr_id ` set rest" using IH by blast
      then show ?thesis using c(3) by (simp only: list.set image_insert) blast
    qed
    ultimately show ?thesis using pairs by blast
  qed
qed

lemma flag_ids_append:
  "fst ` set fl \<union> snd ` set fl \<subseteq> A \<Longrightarrow> fst ` set fl' \<union> snd ` set fl' \<subseteq> B \<Longrightarrow>
   fst ` set (fl @ fl') \<union> snd ` set (fl @ fl') \<subseteq> A \<union> B"
  by auto

lemma flags_append:
  assumes "distinct (map fst fl)" "distinct (map fst fl')"
    and "fst ` set fl \<inter> snd ` set fl = {}" "fst ` set fl' \<inter> snd ` set fl' = {}"
    and "(fst ` set fl \<union> snd ` set fl) \<inter> (fst ` set fl' \<union> snd ` set fl') = {}"
  shows "distinct (map fst (fl @ fl'))" "fst ` set (fl @ fl') \<inter> snd ` set (fl @ fl') = {}"
proof -
  show "distinct (map fst (fl @ fl'))" using assms(1,2,5) by (simp add: Int_Un_distrib Int_Un_distrib2)
  show "fst ` set (fl @ fl') \<inter> snd ` set (fl @ fl') = {}"
    using assms(3-5) by (simp add: image_Un Int_Un_distrib Int_Un_distrib2 Int_commute)
qed

lemma disjoint_mono: "X \<subseteq> A \<Longrightarrow> Y \<subseteq> B \<Longrightarrow> A \<inter> B = {} \<Longrightarrow> X \<inter> Y = {}"
  by blast

lemma conversations_loop_ok:
  assumes "distinct (map nr_id (concat convs))" and "C \<inter> nr_id ` set (concat convs) = {}"
    and "flags = conversations_loop prio window_secs convs C"
  shows "distinct (map fst flags) \<and> fst ` set flags \<inter> snd ` set flags = {} \<and>
    fst ` set flags \<union> snd ` set flags \<subseteq> nr_id ` set (concat convs) \<and>
    (\<forall>lw \<in> set flags. \<exists>rows \<in> set convs. near_pair window_secs rows lw)"
  using assms
proof (induction prio window_secs convs C arbitrary: flags rule: conversations_loop.induct)
  case (1 prio window_secs C)
  then show ?case by simp
next
  case (2 prio window_secs rows convs C)
  let ?sorted = "sort_key (\<lambda>r. (nr_secs r, nr_id r)) rows"
  obtain fl C' where fl: "near_loop prio window_secs ?sorted C = (fl, C')"
    by (cases "near_loop prio window_secs ?sorted C")
  have "mset (map nr_id ?sorted) = mset (map nr_id rows)" by (simp only: mset_map mset_sort)
  moreover have "distinct (map nr_id rows)" using 2(2) by simp
  ultimately have dist: "distinct (map nr_id ?sorted)" by (metis mset_eq_imp_distinct_iff)
  have "sorted (map (\<lambda>r. (nr_secs r, nr_id r)) ?sorted)" by simp
  then have srt: "sorted (map nr_secs ?sorted)" unfolding sorted_map by (rule sorted_wrt_mono_rel [rotated]) auto
  note one = near_loop_ok [OF fl dist srt]
  let ?rest = "conversations_loop prio window_secs convs C'"
  have flags: "flags = fl @ ?rest" using 2(4) fl by simp
  have rest: "distinct (map nr_id (concat convs))" using 2(2) by simp
  have apart: "nr_id ` set rows \<inter> nr_id ` set (concat convs) = {}" using 2(2) by (auto simp: distinct_map)
  have "C' \<subseteq> C \<union> nr_id ` set rows" using one by simp
  moreover have "C \<inter> nr_id ` set (concat convs) = {}" using 2(3) by auto
  ultimately have "C' \<inter> nr_id ` set (concat convs) = {}" using apart by blast
  from 2(1) [OF fl [symmetric] refl rest this refl]
  have IH: "distinct (map fst ?rest) \<and> fst ` set ?rest \<inter> snd ` set ?rest = {} \<and>
    fst ` set ?rest \<union> snd ` set ?rest \<subseteq> nr_id ` set (concat convs) \<and>
    (\<forall>lw \<in> set ?rest. \<exists>rows \<in> set convs. near_pair window_secs rows lw)" .
  have mine: "fst ` set fl \<union> snd ` set fl \<subseteq> nr_id ` set rows" using one by auto
  have pairs: "near_pair window_secs rows lw" if "lw \<in> set fl" for lw
    using one that near_pair_mono [of window_secs ?sorted lw rows] by auto
  have apart2: "(fst ` set fl \<union> snd ` set fl) \<inter> (fst ` set ?rest \<union> snd ` set ?rest) = {}"
    by (rule disjoint_mono [OF mine _ apart]) (use IH in \<open>elim conjE\<close>)
  note ends = conjunct1 [OF one] conjunct1 [OF IH] conjunct1 [OF conjunct2 [OF one]] conjunct1 [OF conjunct2 [OF IH]]
  have "distinct (map fst flags)" unfolding flags by (rule flags_append(1) [OF ends apart2])
  moreover have "fst ` set flags \<inter> snd ` set flags = {}" unfolding flags by (rule flags_append(2) [OF ends apart2])
  moreover have "fst ` set flags \<union> snd ` set flags \<subseteq> nr_id ` set (concat (rows # convs))"
    unfolding flags concat.simps set_append [of rows] image_Un [of nr_id]
    by (rule flag_ids_append [OF mine]) (use IH in \<open>elim conjE\<close>)
  ultimately show ?case using IH pairs unfolding flags by auto
qed

text \<open>The near-time pass hides each row once, only for a row of another source in the same
  conversation, of the same direction and sender and within the window, and never hides a row that
  it keeps for another.\<close>

theorem near_flags:
  assumes "distinct (map nr_id (concat convs))"
  shows "distinct (map fst (cluster_near_dupes convs prio window_secs)) \<and>
    fst ` set (cluster_near_dupes convs prio window_secs) \<inter> snd ` set (cluster_near_dupes convs prio window_secs) = {} \<and>
    list_all (\<lambda>lw. list_ex (\<lambda>rows. near_pair window_secs rows lw) convs) (cluster_near_dupes convs prio window_secs)"
  using conversations_loop_ok [OF assms, of "{}" _ prio window_secs]
  by (auto simp: cluster_near_dupes_def list_all_iff list_ex_iff)

section \<open>The exact pass\<close>

lemma key_groups_ok:
  assumes "distinct (map mr_id rows)" and "cands \<in> set (key_groups rows)"
  shows "cands \<noteq> []" "distinct (map cd_id cands)"
    "\<exists>key. key \<noteq> [] \<and> (\<forall>c \<in> set cands. \<exists>m \<in> set rows. c = row_cand m \<and> mr_content_key m = Some key)"
proof -
  let ?keyed = "filter (\<lambda>m. mr_content_key m \<noteq> None \<and> mr_content_key m \<noteq> Some []) rows"
  obtain key where key: "key \<in> set (map mr_content_key ?keyed)"
    and cands: "cands = map row_cand (filter (\<lambda>m. mr_content_key m = key) ?keyed)"
    using assms(2) by (auto simp: key_groups_def Let_def)
  then show "cands \<noteq> []" by (auto simp: filter_empty_conv)
  have "map cd_id cands = map mr_id (filter (\<lambda>m. mr_content_key m = key) ?keyed)" by (simp add: cands row_cand_def)
  then show "distinct (map cd_id cands)" using assms(1) by (simp only: distinct_map_filter)
  show "\<exists>key. key \<noteq> [] \<and> (\<forall>c \<in> set cands. \<exists>m \<in> set rows. c = row_cand m \<and> mr_content_key m = Some key)"
  proof -
    obtain k where k: "key = Some k" "k \<noteq> []" using key by auto
    then show ?thesis by (intro exI [of _ k]) (auto simp: cands)
  qed
qed

lemma key_groups_apart:
  assumes "distinct (map mr_id rows)"
  shows "distinct (map cd_id (concat (key_groups rows)))"
proof -
  let ?keyed = "filter (\<lambda>m. mr_content_key m \<noteq> None \<and> mr_content_key m \<noteq> Some []) rows"
  have kd: "distinct (map mr_id ?keyed)" using assms by (rule distinct_map_filter)
  have "map cd_id (concat (key_groups rows)) =
      concat (map (\<lambda>key. map mr_id (filter (\<lambda>m. mr_content_key m = key) ?keyed)) (remdups (map mr_content_key ?keyed)))"
    by (simp add: key_groups_def Let_def map_concat row_cand_def comp_def)
  also have "distinct \<dots>"
  proof (rule distinct_concat_map)
    show "distinct (remdups (map mr_content_key ?keyed))" by simp
    show "distinct (map mr_id (filter (\<lambda>m. mr_content_key m = key) ?keyed))" for key
      using kd by (rule distinct_map_filter)
    show "set (map mr_id (filter (\<lambda>m. mr_content_key m = key) ?keyed)) \<inter>
        set (map mr_id (filter (\<lambda>m. mr_content_key m = key') ?keyed)) = {}" if "key \<noteq> key'" for key key'
      using assms that by (auto simp: distinct_map dest: inj_onD)
  qed
  finally show ?thesis .
qed

text \<open>What a flag of the exact pass joins.\<close>

definition exact_pair :: "message_row list \<Rightarrow> int \<times> int \<Rightarrow> bool" where
  "exact_pair rows lw \<longleftrightarrow>
     (\<exists>a \<in> set rows. \<exists>b \<in> set rows. mr_id a = fst lw \<and> mr_id b = snd lw \<and> mr_source a \<noteq> mr_source b \<and>
        mr_content_key a = mr_content_key b \<and> mr_content_key a \<noteq> None)"

lemma flags_concat:
  assumes "distinct (map cd_id (concat groups))" and "\<And>g. g \<in> set groups \<Longrightarrow> g \<noteq> []"
    and "flags = concat (map (\<lambda>g. exact_group_flags g prio) groups)"
  shows "distinct (map fst flags) \<and> fst ` set flags \<inter> snd ` set flags = {} \<and>
    fst ` set flags \<union> snd ` set flags \<subseteq> cd_id ` set (concat groups) \<and>
    (\<forall>(l, w) \<in> set flags. \<exists>g \<in> set groups. \<exists>c \<in> set g. \<exists>d \<in> set g. cd_id d = l \<and> cd_id c = w \<and> cd_source d \<noteq> cd_source c)"
  using assms
proof (induction groups arbitrary: flags)
  case (Cons g groups)
  let ?f = "exact_group_flags g prio" and ?rest = "concat (map (\<lambda>g. exact_group_flags g prio) groups)"
  have ne: "g \<noteq> []" and dist: "distinct (map cd_id g)" using Cons.prems(1,2) by auto
  note one = group_flags [OF ne dist, of prio]
  obtain c where c: "c \<in> set g"
    "\<And>l w. (l, w) \<in> set ?f \<Longrightarrow> w = cd_id c \<and> (\<exists>d \<in> set g. cd_id d = l \<and> cd_source d \<noteq> cd_source c)"
    using one(3) by blast
  have IH: "distinct (map fst ?rest) \<and> fst ` set ?rest \<inter> snd ` set ?rest = {} \<and>
    fst ` set ?rest \<union> snd ` set ?rest \<subseteq> cd_id ` set (concat groups) \<and>
    (\<forall>(l, w) \<in> set ?rest. \<exists>g \<in> set groups. \<exists>c \<in> set g. \<exists>d \<in> set g. cd_id d = l \<and> cd_id c = w \<and> cd_source d \<noteq> cd_source c)"
  proof (rule Cons.IH)
    show "distinct (map cd_id (concat groups))" using Cons.prems(1) by simp
    show "g' \<noteq> []" if "g' \<in> set groups" for g' using Cons.prems(2) that by simp
  qed (rule refl)
  have mine: "fst ` set ?f \<union> snd ` set ?f \<subseteq> cd_id ` set g"
  proof -
    have "l \<in> cd_id ` set g \<and> w \<in> cd_id ` set g" if "(l, w) \<in> set ?f" for l w
      using c(2) [OF that] c(1) by blast
    then show ?thesis by auto
  qed
  have "cd_id ` set g \<inter> cd_id ` set (concat groups) = {}" using Cons.prems(1) by auto
  then have apart: "(fst ` set ?f \<union> snd ` set ?f) \<inter> (fst ` set ?rest \<union> snd ` set ?rest) = {}"
    by (intro disjoint_mono [OF mine]) (use IH in \<open>elim conjE\<close>)
  have inj: "inj_on cd_id (set g)" using dist by (simp add: distinct_map)
  have own: "fst ` set ?f \<inter> snd ` set ?f = {}"
  proof -
    have False if f: "(l, w) \<in> set ?f" "(l', l) \<in> set ?f" for l w l'
    proof -
      obtain d where d: "d \<in> set g" "cd_id d = l" "cd_source d \<noteq> cd_source c" using c(2) [OF f(1)] by blast
      have "cd_id d = cd_id c" using c(2) [OF f(2)] d(2) by simp
      then have "d = c" by (rule inj_onD [OF inj _ d(1) c(1)])
      then show False using d(3) by simp
    qed
    then show ?thesis by fastforce
  qed
  have flags: "flags = ?f @ ?rest" using Cons.prems(3) by simp
  note ends = conjunct1 [OF IH] conjunct1 [OF conjunct2 [OF IH]]
  have "distinct (map fst flags)" unfolding flags by (rule flags_append(1) [OF one(2) ends(1) own ends(2) apart])
  moreover have "fst ` set flags \<inter> snd ` set flags = {}"
    unfolding flags by (rule flags_append(2) [OF one(2) ends(1) own ends(2) apart])
  moreover have "fst ` set flags \<union> snd ` set flags \<subseteq> cd_id ` set (concat (g # groups))"
    unfolding flags concat.simps set_append [of g] image_Un [of cd_id]
    by (rule flag_ids_append [OF mine]) (use IH in \<open>elim conjE\<close>)
  moreover have "\<exists>g \<in> set (g # groups). \<exists>c \<in> set g. \<exists>d \<in> set g. cd_id d = l \<and> cd_id c = w \<and> cd_source d \<noteq> cd_source c"
    if "(l, w) \<in> set flags" for l w
  proof (cases "(l, w) \<in> set ?f")
    case True
    then show ?thesis using c(2) [OF True] c(1) by auto
  next
    case False
    then have "(l, w) \<in> set ?rest" using that unfolding flags by simp
    then show ?thesis using IH by auto
  qed
  ultimately show ?case by blast
qed simp

lemma exact_flags_ok:
  assumes "distinct (map mr_id rows)" and "flags = snd (flag_exact_content_key_dupes prio rows)"
  shows "distinct (map fst flags)" "fst ` set flags \<inter> snd ` set flags = {}" "\<forall>lw \<in> set flags. exact_pair rows lw"
proof -
  let ?groups = "filter (\<lambda>cands. 2 \<le> length (remdups (map cd_source cands))) (key_groups rows)"
  have flags: "flags = concat (map (\<lambda>g. exact_group_flags g prio) ?groups)"
    using assms(2) by (simp add: flag_exact_content_key_dupes_def Let_def)
  have "distinct (map cd_id (concat (filter P gs)))" if "distinct (map cd_id (concat gs))" for P gs
    using that by (induction gs) auto
  then have dist: "distinct (map cd_id (concat ?groups))" using key_groups_apart [OF assms(1)] by blast
  have ne: "g \<noteq> []" if "g \<in> set ?groups" for g using key_groups_ok(1) [OF assms(1)] that by simp
  note all = flags_concat [OF dist ne flags]
  show "distinct (map fst flags)" by (rule conjunct1 [OF all])
  show "fst ` set flags \<inter> snd ` set flags = {}" by (rule conjunct1 [OF conjunct2 [OF all]])
  show "\<forall>lw \<in> set flags. exact_pair rows lw"
  proof
    fix lw assume "lw \<in> set flags"
    moreover have "\<forall>(l, w) \<in> set flags. \<exists>g \<in> set ?groups. \<exists>c \<in> set g. \<exists>d \<in> set g.
        cd_id d = l \<and> cd_id c = w \<and> cd_source d \<noteq> cd_source c"
      by (rule conjunct2 [OF conjunct2 [OF conjunct2 [OF all]]])
    ultimately have "case lw of (l, w) \<Rightarrow> \<exists>g \<in> set ?groups. \<exists>c \<in> set g. \<exists>d \<in> set g.
        cd_id d = l \<and> cd_id c = w \<and> cd_source d \<noteq> cd_source c"
      by (rule bspec [rotated])
    then obtain g c d where g: "g \<in> set ?groups" "c \<in> set g" "d \<in> set g" "cd_id d = fst lw" "cd_id c = snd lw"
      "cd_source d \<noteq> cd_source c"
      unfolding case_prod_unfold by blast
    obtain key where key: "\<And>c. c \<in> set g \<Longrightarrow> \<exists>m \<in> set rows. c = row_cand m \<and> mr_content_key m = Some key"
      using key_groups_ok(3) [OF assms(1)] g(1) by fastforce
    obtain a b where "a \<in> set rows" "d = row_cand a" "mr_content_key a = Some key"
      "b \<in> set rows" "c = row_cand b" "mr_content_key b = Some key"
      using key [OF g(2)] key [OF g(3)] by blast
    then show "exact_pair rows lw"
      using g(4-6) unfolding exact_pair_def by (intro bexI [of _ a] bexI [of _ b]) (simp_all add: row_cand_def)
  qed
qed

section \<open>The run\<close>

lemma near_rows_ids:
  assumes "distinct (map mr_id rows)"
  shows "distinct (map nr_id (concat (load_near_rows rfc3339 rows)))"
    and "x \<in> set (concat (load_near_rows rfc3339 rows)) \<Longrightarrow>
      \<exists>m \<in> set rows. near_row_of rfc3339 m = Some x \<and> mr_duplicate_of m = None"
proof -
  let ?shown = "filter (\<lambda>m. mr_duplicate_of m = None) rows"
  have near: "near_row_of rfc3339 m = Some y \<Longrightarrow> nr_id y = mr_id m" for m y by (auto simp: near_row_of_def)
  have sd: "distinct (map mr_id ?shown)" using assms by (rule distinct_map_filter)
  have dist: "distinct (map nr_id (List.map_filter (near_row_of rfc3339) ms))" if "distinct (map mr_id ms)" for ms
    using that
  proof (induction ms)
    case (Cons m ms)
    then show ?case by (auto simp: map_filter_simps set_map_filter near split: option.split)
  qed simp
  show "distinct (map nr_id (concat (load_near_rows rfc3339 rows)))"
    unfolding load_near_rows_def Let_def map_concat map_map comp_def
  proof (rule distinct_concat_map)
    show "distinct (remdups (map mr_conversation ?shown))" by simp
    show "distinct (map nr_id (List.map_filter (near_row_of rfc3339) (filter (\<lambda>m. mr_conversation m = conv) ?shown)))" for conv
      by (rule dist [OF distinct_map_filter [OF sd]])
    show "set (map nr_id (List.map_filter (near_row_of rfc3339) (filter (\<lambda>m. mr_conversation m = conv) ?shown))) \<inter>
        set (map nr_id (List.map_filter (near_row_of rfc3339) (filter (\<lambda>m. mr_conversation m = conv') ?shown))) = {}"
      if "conv \<noteq> conv'" for conv conv'
    proof -
      have False if "m \<in> set rows" "m' \<in> set rows" "mr_id m = mr_id m'" "mr_conversation m \<noteq> mr_conversation m'" for m m'
        using assms that by (auto simp: distinct_map dest: inj_onD)
      then show ?thesis using \<open>conv \<noteq> conv'\<close> by (auto simp: set_map_filter) (metis near)
    qed
  qed
  show "\<exists>m \<in> set rows. near_row_of rfc3339 m = Some x \<and> mr_duplicate_of m = None"
    if "x \<in> set (concat (load_near_rows rfc3339 rows))"
    using that by (auto simp: load_near_rows_def Let_def set_map_filter)
qed

lemma near_flags_rows:
  assumes "distinct (map mr_id rows)" and "flags = flag_near_time_dupes rfc3339 prio window_secs rows" and "lw \<in> set flags"
  shows "\<exists>a \<in> set rows. \<exists>b \<in> set rows. mr_id a = fst lw \<and> mr_id b = snd lw \<and> mr_source a \<noteq> mr_source b \<and>
    mr_duplicate_of a = None \<and> mr_duplicate_of b = None"
proof -
  let ?convs = "load_near_rows rfc3339 rows"
  have "lw \<in> set (cluster_near_dupes ?convs prio window_secs)" using assms(2,3) by (simp add: flag_near_time_dupes_def)
  then obtain conv where conv: "conv \<in> set ?convs" "near_pair window_secs conv lw"
    using conversations_loop_ok [OF near_rows_ids(1) [OF assms(1), of rfc3339], of "{}" _ prio window_secs]
    by (fastforce simp: cluster_near_dupes_def)
  then obtain x y where xy: "x \<in> set (concat ?convs)" "y \<in> set (concat ?convs)" "nr_id x = fst lw" "nr_id y = snd lw"
    "nr_source x \<noteq> nr_source y"
    by (auto simp: near_pair_def)
  obtain a where "a \<in> set rows" "near_row_of rfc3339 a = Some x" "mr_duplicate_of a = None"
    using near_rows_ids(2) [OF assms(1) xy(1)] by blast
  moreover obtain b where "b \<in> set rows" "near_row_of rfc3339 b = Some y" "mr_duplicate_of b = None"
    using near_rows_ids(2) [OF assms(1) xy(2)] by blast
  ultimately show ?thesis
    using xy by (intro bexI [of _ a] bexI [of _ b]) (auto simp: near_row_of_def)
qed

lemma apply_flags_row:
  "m \<in> set (apply_duplicate_flags flags rows) \<longleftrightarrow>
    (\<exists>m0 \<in> set rows. m = (case map_of flags (mr_id m0) of None \<Rightarrow> m0 | Some w \<Rightarrow> m0\<lparr>mr_duplicate_of := Some w\<rparr>))"
  by (auto simp: apply_duplicate_flags_def)

lemma apply_flags_same [simp]:
  "map mr_id (apply_duplicate_flags flags rows) = map mr_id rows"
  by (auto simp: apply_duplicate_flags_def split: option.split)

text \<open>A row with its flag set, or left as it was.\<close>

definition flagged :: "(int \<times> int) list \<Rightarrow> message_row \<Rightarrow> message_row" where
  "flagged flags m = (case map_of flags (mr_id m) of None \<Rightarrow> m | Some w \<Rightarrow> m\<lparr>mr_duplicate_of := Some w\<rparr>)"

lemma apply_flagged: "apply_duplicate_flags flags rows = map (flagged flags) rows"
  by (simp add: apply_duplicate_flags_def flagged_def)

lemma flagged_simps [simp]:
  "mr_id (flagged flags m) = mr_id m" "mr_source (flagged flags m) = mr_source m"
  "mr_content_key (flagged flags m) = mr_content_key m" "mr_conversation (flagged flags m) = mr_conversation m"
  "mr_duplicate_of (flagged flags m) = (case map_of flags (mr_id m) of None \<Rightarrow> mr_duplicate_of m | Some w \<Rightarrow> Some w)"
  by (simp_all add: flagged_def split: option.split)

lemma map_of_winner: "fst ` set flags \<inter> snd ` set flags = {} \<Longrightarrow> map_of flags l = Some w \<Longrightarrow> map_of flags w = None"
  by (metis Int_iff emptyE fst_conv image_eqI map_of_SomeD map_of_eq_None_iff snd_conv)

lemma two_passes:
  assumes "distinct (map mr_id rows)" and "\<And>m. m \<in> set rows \<Longrightarrow> mr_duplicate_of m = None"
    and "flags = snd (flag_exact_content_key_dupes prio rows)"
    and "near = flag_near_time_dupes rfc3339 prio window_secs (apply_duplicate_flags flags rows)"
    and "m \<in> set (apply_duplicate_flags near (apply_duplicate_flags flags rows))" and "mr_duplicate_of m = Some w"
  shows "\<exists>m1 \<in> set (apply_duplicate_flags near (apply_duplicate_flags flags rows)).
    mr_id m1 = w \<and> mr_source m1 \<noteq> mr_source m \<and>
    (case mr_duplicate_of m1 of
       None \<Rightarrow> True
     | Some w' \<Rightarrow> \<exists>m2 \<in> set (apply_duplicate_flags near (apply_duplicate_flags flags rows)).
         mr_id m2 = w' \<and> mr_source m2 \<noteq> mr_source m1 \<and> mr_duplicate_of m2 = None)"
proof -
  let ?e = "apply_duplicate_flags flags rows"
  let ?out = "\<lambda>m0. flagged near (flagged flags m0)"
  have dist: "distinct (map mr_id ?e)" using assms(1) by simp
  note ex = exact_flags_ok [OF assms(1,3)]
  have nd: "fst ` set near \<inter> snd ` set near = {}"
    using conversations_loop_ok [OF near_rows_ids(1) [OF dist, of rfc3339], of "{}" _ prio window_secs]
    by (simp add: assms(4) flag_near_time_dupes_def cluster_near_dupes_def)
  have rows: "set (apply_duplicate_flags near ?e) = ?out ` set rows" by (simp add: apply_flagged image_image)
  have same: "a = b" if "a \<in> set rows" "b \<in> set rows" "mr_id a = mr_id b" for a b
    using assms(1) that by (auto simp: distinct_map dest: inj_onD)
  have near_row: "\<exists>a \<in> set rows. \<exists>b \<in> set rows. mr_id a = l \<and> mr_id b = v \<and> mr_source a \<noteq> mr_source b \<and>
      map_of flags l = None \<and> map_of flags v = None \<and> map_of near v = None" if lv: "map_of near l = Some v" for l v
  proof -
    obtain a b where "a \<in> set rows" "b \<in> set rows" "mr_id (flagged flags a) = l" "mr_id (flagged flags b) = v"
      "mr_source (flagged flags a) \<noteq> mr_source (flagged flags b)"
      "mr_duplicate_of (flagged flags a) = None" "mr_duplicate_of (flagged flags b) = None"
      using near_flags_rows [OF dist assms(4) map_of_SomeD [OF lv]] by (auto simp: apply_flagged)
    then show ?thesis using map_of_winner [OF nd lv]
      by (intro bexI [of _ a] bexI [of _ b]) (auto split: option.splits)
  qed
  obtain m0 where m0: "m0 \<in> set rows" "m = ?out m0" using assms(5) rows by blast
  show ?thesis
  proof (cases "map_of near (mr_id m0)")
    case (Some v)
    then have "v = w" using assms(6) m0(2) by simp
    obtain a b where ab: "a \<in> set rows" "b \<in> set rows" "mr_id a = mr_id m0" "mr_id b = w" "mr_source a \<noteq> mr_source b"
      "map_of flags w = None" "map_of near w = None"
      using near_row [OF Some] \<open>v = w\<close> by blast
    have "a = m0" using same ab(1,3) m0(1) by blast
    moreover have "mr_duplicate_of (?out b) = None" using ab assms(2) by simp
    ultimately show ?thesis using ab m0 unfolding rows by (intro bexI [of _ "?out b"]) auto
  next
    case None
    then have lw: "map_of flags (mr_id m0) = Some w"
      using assms(2) [OF m0(1)] assms(6) m0 by (auto split: option.splits)
    obtain a b where ab: "a \<in> set rows" "b \<in> set rows" "mr_id a = mr_id m0" "mr_id b = w" "mr_source a \<noteq> mr_source b"
      using ex(3) map_of_SomeD [OF lw] by (fastforce simp: exact_pair_def)
    have am: "a = m0" using same ab(1,3) m0(1) by blast
    have fw: "map_of flags w = None" by (rule map_of_winner [OF ex(2) lw])
    have dup: "mr_duplicate_of (?out b) = map_of near w" using fw ab assms(2) by (simp split: option.split)
    have "case mr_duplicate_of (?out b) of None \<Rightarrow> True
      | Some w' \<Rightarrow> \<exists>m2 \<in> set (apply_duplicate_flags near ?e).
          mr_id m2 = w' \<and> mr_source m2 \<noteq> mr_source (?out b) \<and> mr_duplicate_of m2 = None"
    proof (cases "map_of near w")
      case (Some v)
      obtain b' c where bc: "b' \<in> set rows" "mr_id b' = w" "mr_source b' \<noteq> mr_source c"
        and c: "c \<in> set rows" "mr_id c = v" "map_of flags v = None" "map_of near v = None"
        using near_row [OF Some] by metis
      have "b' = b" using same bc(1,2) ab(2,4) by blast
      moreover have "mr_id (?out c) = v" "mr_source (?out c) = mr_source c" "mr_duplicate_of (?out c) = None"
        using c assms(2) by simp_all
      ultimately show ?thesis using c(1) bc(3) Some unfolding rows dup by auto
    next
      case None
      show ?thesis unfolding dup None by simp
    qed
    then show ?thesis using ab am m0 rows by (intro bexI [of _ "?out b"]) auto
  qed
qed

text \<open>C12: After a run every hidden message names the message it stands behind, which is of another
  source. That one is shown, or the near-time pass hid it behind a third message, of a source other
  than its own, which is shown: at most two steps lead to a shown message and no chain ends in a
  hidden one. Each step changes the source; the two together need not, for the third message can
  be of the first one's source.\<close>

theorem hidden_leads_to_shown:
  assumes "distinct (map mr_id rows)"
    and "out = fst (dedupe_cross_source sha rfc3339 group_handles source_priority window_secs rows)"
    and "m \<in> set out" and "mr_duplicate_of m = Some w"
  shows "\<exists>m1 \<in> set out. mr_id m1 = w \<and> mr_source m1 \<noteq> mr_source m \<and>
    (case mr_duplicate_of m1 of
       None \<Rightarrow> True
     | Some w' \<Rightarrow> \<exists>m2 \<in> set out. mr_id m2 = w' \<and> mr_source m2 \<noteq> mr_source m1 \<and> mr_duplicate_of m2 = None)"
proof -
  let ?prio = "rank_of (case source_priority of Some p \<Rightarrow> p | None \<Rightarrow> source_priority_from_db rows)"
  let ?rows = "clear_flags (refresh_content_keys sha rfc3339 group_handles rows)"
  let ?flags = "snd (flag_exact_content_key_dupes ?prio ?rows)"
  let ?near = "flag_near_time_dupes rfc3339 ?prio window_secs (apply_duplicate_flags ?flags ?rows)"
  have out: "out = apply_duplicate_flags ?near (apply_duplicate_flags ?flags ?rows)"
    using assms(2) by (simp add: dedupe_cross_source_def Let_def split: prod.split)
  have "map mr_id ?rows = map mr_id rows"
    by (simp add: clear_flags_def refresh_content_keys_def comp_def split: option.split)
  then have dist: "distinct (map mr_id ?rows)" using assms(1) by simp
  have clear: "mr_duplicate_of a = None" if "a \<in> set ?rows" for a using that by (auto simp: clear_flags_def)
  show ?thesis
    using two_passes [OF dist clear refl refl] assms(3,4) unfolding out by blast
qed

text \<open>C28: What a group of one message's copies keeps shown: exactly as many rows as the source
  that holds most of them, so that a person who sent the same text twice still sees it twice and
  no source's count is added to another's. Each other row is hidden once, for one winner of the
  best rank and of another source.\<close>

theorem exact_group_keeps:
  assumes "cands \<noteq> []" and "distinct (map cd_id cands)"
  shows "length (exact_group_flags cands prio) + shown_count cands = length cands \<and>
    (\<forall>s. length (held_by cands s) \<le> shown_count cands) \<and>
    (\<exists>s. length (held_by cands s) = shown_count cands) \<and>
    distinct (map fst (exact_group_flags cands prio)) \<and>
    list_ex (\<lambda>c. list_all (\<lambda>c'. winner_rank prio c \<le> winner_rank prio c') cands \<and>
      list_all (\<lambda>(l, w). w = cd_id c \<and> list_ex (\<lambda>d. cd_id d = l \<and> cd_source d \<noteq> cd_source c) cands)
        (exact_group_flags cands prio)) cands"
  using group_flags [OF assms, of prio] held_le_shown [of cands] shown_is_held [OF assms(1)]
  by (simp add: list_all_iff list_ex_iff case_prod_unfold eq_commute [of "shown_count cands"])

section \<open>Three copies\<close>

definition sample_row :: "int \<Rightarrow> string \<Rightarrow> string \<Rightarrow> string list \<Rightarrow> message_row" where
  "sample_row i src ts shas =
     \<lparr>mr_id = i, mr_conversation = 1, mr_chat_id = ''c'', mr_conversation_type = ''individual'', mr_source = src,
      mr_is_from_me = 1, mr_timestamp = ts, mr_body = Some ''hi'', mr_sender = None, mr_shas = shas,
      mr_content_key = None, mr_duplicate_of = None\<rparr>"

definition sample_rows :: "message_row list" where
  "sample_rows = [sample_row 1 ''A'' ''t0'' [], sample_row 2 ''B'' ''t0'' [], sample_row 3 ''C'' ''t1'' [''ab'']]"

definition sample_rfc3339 :: "string \<Rightarrow> int option" where
  "sample_rfc3339 ts = (if ts = ''t0'' then Some 100 else if ts = ''t1'' then Some 101 else None)"

definition sample_out :: "message_row list" where
  "sample_out = fst (dedupe_cross_source (\<lambda>bs. bs) sample_rfc3339 (\<lambda>_. None) None 2 sample_rows)"

text \<open>The second message stands for the first, which the near-time pass hides for the third.\<close>

lemma sample_chain: "map mr_duplicate_of sample_out = [Some 3, Some 1, None]"
  unfolding sample_out_def by code_simp

theorem hidden_leads_to_shown_witness:
  "\<exists>m1 \<in> set sample_out. mr_id m1 = 1 \<and> mr_source m1 \<noteq> mr_source (sample_out ! 1)"
proof -
  have len: "length sample_out = 3" using arg_cong [OF sample_chain, of length] by simp
  then have "mr_duplicate_of (sample_out ! 1) = Some 1"
    using arg_cong [OF sample_chain, of "\<lambda>xs. xs ! 1"] by simp
  moreover have "sample_out ! 1 \<in> set sample_out" using len by simp
  moreover have "distinct (map mr_id sample_rows)" by code_simp
  ultimately show ?thesis
    using hidden_leads_to_shown [of sample_rows sample_out, OF _ sample_out_def] by blast
qed

theorem near_flags_witness:
  "fst ` set (cluster_near_dupes (load_near_rows sample_rfc3339 sample_rows) (\<lambda>_. None) 2) \<inter>
   snd ` set (cluster_near_dupes (load_near_rows sample_rfc3339 sample_rows) (\<lambda>_. None) 2) = {}"
proof -
  have "distinct (map nr_id (concat (load_near_rows sample_rfc3339 sample_rows)))" by code_simp
  from near_flags [OF this] show ?thesis by blast
qed

theorem exact_group_keeps_witness:
  "length (exact_group_flags (map row_cand sample_rows) (\<lambda>_. None)) + shown_count (map row_cand sample_rows) = 3"
proof -
  have "distinct (map cd_id (map row_cand sample_rows))" "map row_cand sample_rows \<noteq> []" by code_simp+
  from exact_group_keeps [OF this(2,1)] show ?thesis by (simp add: sample_rows_def)
qed

end
