(* ===== verification/Journal.thy ===== *)
theory Journal
  imports Ir Durable Utf8 "HOL-Library.Sublist"
begin

text \<open>
  The append-only state journals (\<open>crates/libs/journal/src/lib.rs\<close>). A journal file is the bytes
  that were synced, those written since, and, while its folder entry is not on disk, what a power
  loss brings back in its place. serde\_json is a pair of parameters: the row of an event, and the
  event of a line. Writes run under one lock, so they are modelled one after the other. The main
  result is what the faults of a disk can do to the rows (\<open>journal_keeps_rows\<close>); \<open>Absent\<close> also stands
  for a journal gone with its folder.
\<close>

section \<open>Reading\<close>

text \<open>\<open>BufRead::lines\<close>: a newline ends a line, with the carriage return before it.\<close>

definition strip_cr :: "u8 list \<Rightarrow> u8 list" where
  "strip_cr l = (case rev l of b # bs \<Rightarrow> if b = 13 then rev bs else l | [] \<Rightarrow> l)"

fun lines_from :: "u8 list \<Rightarrow> u8 list \<Rightarrow> u8 list list" where
  "lines_from line [] = (if line = [] then [] else [line])"
| "lines_from line (b # bs) =
     (if b = 10 then strip_cr line # lines_from [] bs else lines_from (line @ [b]) bs)"

definition file_lines :: "u8 list \<Rightarrow> u8 list list" where
  "file_lines content = lines_from [] content"

text \<open>The events and the numbers of the corrupt lines, or the error of a line that is not text.\<close>

fun load_lines ::
  "string \<Rightarrow> (string \<Rightarrow> 'e option) \<Rightarrow> nat \<Rightarrow> u8 list list \<Rightarrow> string + 'e list \<times> nat list" where
  "load_lines label parse i [] = Inr ([], [])"
| "load_lines label parse i (line # rest) =
     (if \<not> valid_utf8 line then Inl (''read '' @ label @ '' line '' @ dec_string (i + 1))
      else if trim (of_bytes line) = [] then load_lines label parse (i + 1) rest
      else
        (case parse (of_bytes line) of
           Some event \<Rightarrow> map_res (\<lambda>(events, corrupt). (event # events, corrupt)) (load_lines label parse (i + 1) rest)
         | None \<Rightarrow> map_res (\<lambda>(events, corrupt). (events, (i + 1) # corrupt)) (load_lines label parse (i + 1) rest)))"

definition load_events :: "string \<Rightarrow> (string \<Rightarrow> 'e option) \<Rightarrow> u8 list option \<Rightarrow> string + 'e list \<times> nat list" where
  "load_events label parse content =
     (case content of None \<Rightarrow> Inr ([], []) | Some bytes \<Rightarrow> load_lines label parse 0 (file_lines bytes))"

section \<open>The file\<close>

text \<open>
  \<open>Unsettled\<close>: the folder entry was not synced since the file was created or renamed here, so a
  power loss may bring back what was there before.
\<close>

datatype journal_file =
  Absent
| Settled "u8 list" "u8 list"
| Unsettled "u8 list" "u8 list" journal_file

fun content_of :: "journal_file \<Rightarrow> u8 list option" where
  "content_of Absent = None"
| "content_of (Settled kept fresh) = Some (kept @ fresh)"
| "content_of (Unsettled kept fresh old) = Some (kept @ fresh)"

text \<open>Bytes that were not synced survive up to some length.\<close>

fun lose_power :: "(bool \<times> nat) list \<Rightarrow> journal_file \<Rightarrow> journal_file" where
  "lose_power choices Absent = Absent"
| "lose_power choices (Settled kept fresh) =
     Settled (kept @ take (case choices of [] \<Rightarrow> 0 | (back, n) # _ \<Rightarrow> n) fresh) []"
| "lose_power choices (Unsettled kept fresh old) =
     (case choices of
        [] \<Rightarrow> Settled kept []
      | (back, n) # rest \<Rightarrow> if back then lose_power rest old else Settled (kept @ take n fresh) [])"

fun write_bytes :: "u8 list \<Rightarrow> journal_file \<Rightarrow> journal_file" where
  "write_bytes bs Absent = Absent"
| "write_bytes bs (Settled kept fresh) = Settled kept (fresh @ bs)"
| "write_bytes bs (Unsettled kept fresh old) = Unsettled kept (fresh @ bs) old"

fun sync_data :: "journal_file \<Rightarrow> journal_file" where
  "sync_data Absent = Absent"
| "sync_data (Settled kept fresh) = Settled (kept @ fresh) []"
| "sync_data (Unsettled kept fresh old) = Unsettled (kept @ fresh) [] old"

section \<open>Appending\<close>

datatype append_fault = AppendWorks | CannotOpen string | CannotRead string | CannotSerialize string | WriteStops nat string | CannotSync string

definition ends_in_a_torn_row :: "u8 list \<Rightarrow> bool" where
  "ends_in_a_torn_row content \<longleftrightarrow> content \<noteq> [] \<and> last content \<noteq> 10"

definition row_bytes :: "('e \<Rightarrow> u8 list) \<Rightarrow> u8 list \<Rightarrow> 'e \<Rightarrow> u8 list" where
  "row_bytes ser content event = (if ends_in_a_torn_row content then [10] else []) @ ser event @ [10]"

definition open_journal :: "journal_file \<Rightarrow> journal_file" where
  "open_journal j = (if j = Absent then Unsettled [] [] Absent else j)"

definition append :: "('e \<Rightarrow> u8 list) \<Rightarrow> append_fault \<Rightarrow> journal_file \<Rightarrow> 'e \<Rightarrow> journal_file \<times> (string + unit)" where
  "append ser flt j event =
     (case flt of
        CannotOpen e \<Rightarrow> (j, Inl e)
      | _ \<Rightarrow>
          (let opened = open_journal j;
               content = (case content_of opened of None \<Rightarrow> [] | Some c \<Rightarrow> c);
               buf = row_bytes ser content event
           in case flt of
                CannotRead e \<Rightarrow> (opened, Inl e)
              | CannotSerialize e \<Rightarrow> (opened, Inl e)
              | WriteStops n e \<Rightarrow> (write_bytes (take n buf) opened, Inl e)
              | CannotSync e \<Rightarrow> (write_bytes buf opened, Inl e)
              | _ \<Rightarrow> (sync_data (write_bytes buf opened), Inr ())))"

section \<open>Compaction\<close>

definition rows_of :: "('e \<Rightarrow> u8 list) \<Rightarrow> 'e list \<Rightarrow> u8 list" where
  "rows_of ser events = concat (map (\<lambda>event. ser event @ [10]) events)"

text \<open>
  What the system calls of \<open>write_atomic\<close> do to the files of a folder, each in the states of a
  journal: a rename puts the temporary file in the journal's place, unsettled, and the sync of the
  folder settles it.
\<close>

fun settle_entry :: "journal_file \<Rightarrow> journal_file" where
  "settle_entry (Unsettled kept fresh old) = Settled kept fresh"
| "settle_entry j = j"

fun put_over :: "journal_file \<Rightarrow> journal_file \<Rightarrow> journal_file" where
  "put_over old Absent = old"
| "put_over old (Settled kept fresh) = Unsettled kept fresh old"
| "put_over old (Unsettled kept fresh _) = Unsettled kept fresh old"

fun journal_call :: "fs_op \<Rightarrow> (path \<Rightarrow> journal_file) \<Rightarrow> path \<Rightarrow> journal_file" where
  "journal_call (CreateDirAll q) files = files"
| "journal_call (CreateFile p) files = files(p := Unsettled [] [] (files p))"
| "journal_call (WriteAll p bs) files = files(p := write_bytes bs (files p))"
| "journal_call (SyncFile p) files = files(p := sync_data (files p))"
| "journal_call (Rename p q) files = files(q := put_over (files q) (files p), p := Absent)"
| "journal_call (SyncDir q) files = (\<lambda>p. if dir_of p = q then settle_entry (files p) else files p)"
| "journal_call (RemoveFile p) files = files(p := Absent)"

definition journal_calls :: "fs_op list \<Rightarrow> path \<Rightarrow> journal_file \<Rightarrow> journal_file" where
  "journal_calls ops p j = fold journal_call ops ((\<lambda>_. Absent)(p := j)) p"

definition write_unlocked ::
  "path \<Rightarrow> ('e \<Rightarrow> u8 list) \<Rightarrow> fault \<Rightarrow> journal_file \<Rightarrow> 'e list \<Rightarrow> journal_file \<times> (string + unit)" where
  "write_unlocked p ser flt j events =
     (let (ops, result) = write_atomic flt p (rows_of ser events) in (journal_calls ops p j, result))"

definition compact_with ::
  "string \<Rightarrow> path \<Rightarrow> ('e \<Rightarrow> u8 list) \<Rightarrow> (string \<Rightarrow> 'e option) \<Rightarrow> fault \<Rightarrow> journal_file \<Rightarrow>
   ('e list \<Rightarrow> 'e list) \<Rightarrow> journal_file \<times> (string + unit)" where
  "compact_with label p ser parse flt j rebuild =
     (case load_events label parse (content_of j) of
        Inl e \<Rightarrow> (j, Inl e)
      | Inr (events, _) \<Rightarrow> write_unlocked p ser flt j (rebuild events))"

section \<open>What the format promises\<close>

text \<open>
  JSON as serde writes it, for the events \<open>ok\<close> allows: one line of UTF-8 without carriage return,
  never blank, read back as the event, and no strict part of a row is a whole JSON text.
\<close>

definition codec_ok :: "('e \<Rightarrow> bool) \<Rightarrow> ('e \<Rightarrow> u8 list) \<Rightarrow> (string \<Rightarrow> 'e option) \<Rightarrow> bool" where
  "codec_ok ok ser parse \<longleftrightarrow>
     (\<forall>e. ok e \<longrightarrow> valid_utf8 (ser e) \<and> 13 \<notin> set (ser e) \<and> 10 \<notin> set (ser e) \<and> trim (of_bytes (ser e)) \<noteq> [] \<and>
        parse (of_bytes (ser e)) = Some e \<and>
        (\<forall>n < length (ser e). valid_utf8 (take n (ser e)) \<longrightarrow>
           trim (of_bytes (take n (ser e))) = [] \<or> parse (of_bytes (take n (ser e))) = None))"

text \<open>The event of a line, if it is text and has one, and the events whose whole rows a file holds.\<close>

definition line_event :: "(string \<Rightarrow> 'e option) \<Rightarrow> u8 list \<Rightarrow> 'e option" where
  "line_event parse line = (if \<not> valid_utf8 line \<or> trim (of_bytes line) = [] then None else parse (of_bytes line))"

definition events_in :: "(string \<Rightarrow> 'e option) \<Rightarrow> u8 list \<Rightarrow> 'e list" where
  "events_in parse content = List.map_filter (line_event parse) (file_lines content)"

definition text_lines :: "u8 list \<Rightarrow> bool" where
  "text_lines content \<longleftrightarrow> list_all valid_utf8 (file_lines content)"

text \<open>What a write that stops inside a character leaves of a row.\<close>

definition torn_rows :: "('e \<Rightarrow> u8 list) \<Rightarrow> 'e list \<Rightarrow> u8 list set" where
  "torn_rows ser es = {l. \<not> valid_utf8 l \<and> (\<exists>e \<in> set es. \<exists>n. l = take n (ser e))}"

lemma torn_rows_mono: "set es \<subseteq> set es' \<Longrightarrow> torn_rows ser es \<subseteq> torn_rows ser es'"
  by (auto simp: torn_rows_def)

lemma ascii_never_torn: "(\<And>e. e \<in> set es \<Longrightarrow> \<forall>b \<in> set (ser e). b < 0x80) \<Longrightarrow> torn_rows ser es = {}"
  by (auto simp: torn_rows_def) (meson in_set_takeD valid_utf8_ascii)

lemma map_filter_append [simp]: "List.map_filter f (xs @ ys) = List.map_filter f xs @ List.map_filter f ys"
  by (simp add: List.map_filter_def)

lemma map_filter_Cons [simp]:
  "List.map_filter f [] = []"
  "List.map_filter f (x # xs) = (case f x of None \<Rightarrow> List.map_filter f xs | Some y \<Rightarrow> y # List.map_filter f xs)"
  by (simp_all add: map_filter_simps)

text \<open>A load gives exactly the events of the file, or fails on a line that is not text.\<close>

lemma load_lines_text:
  "list_all valid_utf8 ls \<Longrightarrow>
    \<exists>corrupt. load_lines label parse i ls = Inr (List.map_filter (line_event parse) ls, corrupt)"
proof (induction ls arbitrary: i)
  case (Cons line ls)
  obtain corrupt where "load_lines label parse (i + 1) ls = Inr (List.map_filter (line_event parse) ls, corrupt)"
    using Cons by fastforce
  moreover have "line_event parse line = (if trim (of_bytes line) = [] then None else parse (of_bytes line))"
    using Cons.prems by (simp add: line_event_def)
  ultimately show ?case using Cons.prems by (cases "parse (of_bytes line)") simp_all
qed simp

lemma load_lines_not_text: "\<not> list_all valid_utf8 ls \<Longrightarrow> \<exists>e. load_lines label parse i ls = Inl e"
proof (induction ls arbitrary: i)
  case (Cons line ls)
  show ?case
  proof (cases "valid_utf8 line")
    case True
    then obtain e where "load_lines label parse (i + 1) ls = Inl e" using Cons by fastforce
    then show ?thesis using True by (cases "parse (of_bytes line)") simp_all
  qed simp
qed simp

lemma load_text: "text_lines c \<Longrightarrow> \<exists>corrupt. load_events label parse (Some c) = Inr (events_in parse c, corrupt)"
  using load_lines_text [of "file_lines c"] by (simp add: text_lines_def load_events_def events_in_def)

lemma load_not_text: "\<not> text_lines c \<Longrightarrow> \<exists>e. load_events label parse (Some c) = Inl e"
  using load_lines_not_text [of "file_lines c"] by (simp add: text_lines_def load_events_def)

lemma load_Inr:
  "load_events label parse (Some c) = Inr (events, corrupt) \<Longrightarrow> text_lines c \<and> events = events_in parse c"
  using load_text [of c label parse] load_not_text [of c label parse] by fastforce

lemma lines_from_newline: "lines_from acc (c @ 10 # d) = lines_from acc (c @ [10]) @ lines_from [] d"
  by (induction acc c rule: lines_from.induct) auto

lemma strip_cr_plain: "13 \<notin> set l \<Longrightarrow> strip_cr l = l"
  by (auto simp: strip_cr_def split: list.split)

lemma line_event_blank [simp]: "line_event parse [] = None"
  by (simp add: line_event_def)

text \<open>The newline that ends a torn row makes no event of it and adds at most a blank line.\<close>

lemma lines_newline_last:
  assumes "13 \<notin> set acc" "13 \<notin> set c"
  shows "List.map_filter (line_event parse) (lines_from acc (c @ [10])) = List.map_filter (line_event parse) (lines_from acc c)"
    and "set (lines_from acc (c @ [10])) \<subseteq> insert [] (set (lines_from acc c))"
  using assms
  by (induction acc c rule: lines_from.induct) (auto simp: strip_cr_plain split: option.split if_splits)

lemma events_in_newline:
  assumes "13 \<notin> set c"
  shows "events_in parse (c @ 10 # d) = events_in parse c @ events_in parse d"
    and "set (file_lines (c @ 10 # d)) \<subseteq> insert [] (set (file_lines c) \<union> set (file_lines d))"
  using lines_newline_last(1) [of "[]" c parse] lines_newline_last(2) [of "[]" c] assms
  by (simp_all only: events_in_def file_lines_def lines_from_newline [of "[]" c d] map_filter_append)
    (auto simp: list.set)

lemma events_in_append:
  assumes "\<not> ends_in_a_torn_row c"
  shows "events_in parse (c @ d) = events_in parse c @ events_in parse d"
    and "set (file_lines (c @ d)) = set (file_lines c) \<union> set (file_lines d)"
proof -
  have "file_lines (c @ d) = file_lines c @ file_lines d"
  proof (cases "c = []")
    case False
    then obtain c' where c: "c = c' @ [10]" using assms by (metis append_butlast_last_id ends_in_a_torn_row_def)
    show ?thesis using lines_from_newline [of "[]" c' d] by (simp add: c file_lines_def)
  qed (simp add: file_lines_def)
  then show "events_in parse (c @ d) = events_in parse c @ events_in parse d"
    "set (file_lines (c @ d)) = set (file_lines c) \<union> set (file_lines d)"
    by (simp_all add: events_in_def)
qed

lemma lines_from_one: "10 \<notin> set l \<Longrightarrow> lines_from acc l = (if acc @ l = [] then [] else [acc @ l])"
  by (induction l arbitrary: acc) auto

lemma lines_from_row: "10 \<notin> set l \<Longrightarrow> 13 \<notin> set l \<Longrightarrow> lines_from [] (l @ 10 # rest) = l # lines_from [] rest"
proof -
  have "10 \<notin> set l \<Longrightarrow> lines_from acc (l @ 10 # rest) = strip_cr (acc @ l) # lines_from [] rest" for acc
    by (induction l arbitrary: acc) auto
  then show "10 \<notin> set l \<Longrightarrow> 13 \<notin> set l \<Longrightarrow> lines_from [] (l @ 10 # rest) = l # lines_from [] rest"
    by (simp add: strip_cr_plain)
qed

lemma row_part:
  assumes "codec_ok ok ser parse" and "ok e"
  shows "events_in parse (take n (ser e @ [10])) = (if n < length (ser e) then [] else [e])"
    and "set (file_lines (take n (ser e @ [10]))) \<subseteq> {take n (ser e)}"
    and "13 \<notin> set (take n (ser e @ [10]))"
proof -
  have e: "valid_utf8 (ser e)" "13 \<notin> set (ser e)" "10 \<notin> set (ser e)" "trim (of_bytes (ser e)) \<noteq> []"
    "parse (of_bytes (ser e)) = Some e"
    "\<And>n. n < length (ser e) \<Longrightarrow> valid_utf8 (take n (ser e)) \<Longrightarrow>
       trim (of_bytes (take n (ser e))) = [] \<or> parse (of_bytes (take n (ser e))) = None"
    using assms by (auto simp: codec_ok_def)
  have whole: "line_event parse (ser e) = Some e" using e by (simp add: line_event_def)
  have lines: "file_lines (take n (ser e @ [10])) =
      (if n \<le> length (ser e) then if take n (ser e) = [] then [] else [take n (ser e)] else [ser e])"
  proof (cases "n \<le> length (ser e)")
    case True
    then have "10 \<notin> set (take n (ser e))" using e(3) by (auto dest: in_set_takeD)
    then show ?thesis using True by (simp add: file_lines_def lines_from_one)
  next
    case False
    then have "take n (ser e @ [10]) = ser e @ 10 # []" by simp
    then show ?thesis using False lines_from_row [OF e(3,2), of "[]"] by (simp add: file_lines_def)
  qed
  then show "set (file_lines (take n (ser e @ [10]))) \<subseteq> {take n (ser e)}" by auto
  have "line_event parse (take n (ser e)) = (if n < length (ser e) then None else Some e)"
    using e(6) [of n] whole by (auto simp: line_event_def)
  moreover have "ser e \<noteq> []" using whole by auto
  ultimately show "events_in parse (take n (ser e @ [10])) = (if n < length (ser e) then [] else [e])"
    using lines whole by (auto simp: events_in_def)
  show "13 \<notin> set (take n (ser e @ [10]))" using e(2) by (auto dest: in_set_takeD)
qed

text \<open>A row added to a journal, whole or cut anywhere.\<close>

lemma append_part:
  assumes codec: "codec_ok ok ser parse" and ok: "ok e" and c: "13 \<notin> set c"
  shows "events_in parse (c @ take n (row_bytes ser c e)) \<in> {events_in parse c, events_in parse c @ [e]}"
    and "events_in parse (c @ row_bytes ser c e) = events_in parse c @ [e]"
    and "set (file_lines (c @ take n (row_bytes ser c e))) \<subseteq> set (file_lines c) \<union> range (\<lambda>k. take k (ser e))"
    and "13 \<notin> set (c @ take n (row_bytes ser c e))"
proof -
  note part = row_part [OF codec ok]
  have empty: "file_lines [] = []" by (simp add: file_lines_def)
  have whole: "events_in parse (ser e @ [10]) = [e]" using part(1) [of "Suc (length (ser e))"] by simp
  let ?cut = "range (\<lambda>k. take k (ser e))"
  have zero: "[] \<in> ?cut" by (auto intro: image_eqI [of _ _ 0])
  have lines: "set (file_lines (take m (ser e @ [10]))) \<subseteq> ?cut" for m
    using part(2) [of m] by blast
  show "events_in parse (c @ row_bytes ser c e) = events_in parse c @ [e]"
    using events_in_newline(1) [OF c, of parse "ser e @ [10]"] events_in_append(1) [of c parse "ser e @ [10]"] whole
    by (simp add: row_bytes_def)
  have "events_in parse (c @ take n (row_bytes ser c e)) \<in> {events_in parse c, events_in parse c @ [e]} \<and>
      set (file_lines (c @ take n (row_bytes ser c e))) \<subseteq> set (file_lines c) \<union> range (\<lambda>k. take k (ser e)) \<and>
      13 \<notin> set (c @ take n (row_bytes ser c e))"
  proof (cases "ends_in_a_torn_row c")
    case True
    then have row: "row_bytes ser c e = 10 # ser e @ [10]" by (simp add: row_bytes_def)
    show ?thesis
    proof (cases n)
      case (Suc m)
      show ?thesis unfolding row Suc take_Suc_Cons
        using events_in_newline(1) [OF c, of parse "take m (ser e @ [10])"]
          events_in_newline(2) [OF c, of "take m (ser e @ [10])"] part(1,3) [of m] lines [of m] c zero
        by (auto simp del: take_append split: if_splits)
    qed (use c in simp)
  next
    case False
    then have row: "row_bytes ser c e = ser e @ [10]" by (simp add: row_bytes_def)
    show ?thesis unfolding row
      using events_in_append(1) [OF False, of parse "take n (ser e @ [10])"]
        events_in_append(2) [OF False, of "take n (ser e @ [10])"] part(1,3) [of n] lines [of n] c
      by (auto simp del: take_append split: if_splits)
  qed
  then show "events_in parse (c @ take n (row_bytes ser c e)) \<in> {events_in parse c, events_in parse c @ [e]}"
    "set (file_lines (c @ take n (row_bytes ser c e))) \<subseteq> set (file_lines c) \<union> range (\<lambda>k. take k (ser e))"
    "13 \<notin> set (c @ take n (row_bytes ser c e))"
    by blast+
qed

section \<open>Compaction is all or nothing\<close>

lemma codec_row:
  assumes "codec_ok ok ser parse" and "ok e"
  shows "valid_utf8 (ser e)" "13 \<notin> set (ser e)" "10 \<notin> set (ser e)" "line_event parse (ser e) = Some e"
  using assms by (auto simp: codec_ok_def line_event_def)

lemma file_lines_rows:
  assumes "codec_ok ok ser parse"
  shows "list_all ok events \<Longrightarrow> file_lines (rows_of ser events) = map ser events"
proof (induction events)
  case (Cons e events)
  then have "ok e" by simp
  note row = codec_row [OF assms this]
  show ?case using Cons lines_from_row [OF row(3,2), of "rows_of ser events"]
    by (simp add: file_lines_def rows_of_def)
qed (simp add: file_lines_def rows_of_def)

lemma rows_facts:
  assumes "codec_ok ok ser parse" and "list_all ok events"
  shows "text_lines (rows_of ser events)" "events_in parse (rows_of ser events) = events" "13 \<notin> set (rows_of ser events)"
proof -
  note row = codec_row [OF assms(1)]
  show "text_lines (rows_of ser events)"
    using assms(2) row(1) by (auto simp: text_lines_def file_lines_rows [OF assms] list_all_iff)
  have "list_all ok es \<Longrightarrow> List.map_filter (line_event parse) (map ser es) = es" for es
    by (induction es) (simp_all add: row(4))
  then show "events_in parse (rows_of ser events) = events"
    using assms(2) by (simp add: events_in_def file_lines_rows [OF assms])
  show "13 \<notin> set (rows_of ser events)"
    using assms(2) row(2) by (auto simp: rows_of_def list_all_iff)
qed

lemma load_rows:
  assumes "codec_ok ok ser parse" and "list_all ok events"
  shows "load_events label parse (Some (rows_of ser events)) = Inr (events, [])"
proof -
  have "load_lines label parse i (map ser events) = Inr (events, [])" if "list_all ok events" for i events
    using that
  proof (induction events arbitrary: i)
    case (Cons e events)
    then show ?case using Cons.IH [of "i + 1"] assms(1) by (simp add: codec_ok_def)
  qed simp
  then show ?thesis using assms by (simp add: load_events_def file_lines_rows)
qed

text \<open>The journal under its name after any of the calls of a write: the old one, the new one over the
  old one, or the new one alone, and only the last when the write succeeds.\<close>

lemma tmp_apart [simp]: "p @ ''.tmp'' \<noteq> p" "p \<noteq> p @ ''.tmp''"
  by simp_all

lemma journal_write:
  assumes "write_atomic flt p data = (ops, result)"
  shows "journal_calls (take k ops) p j \<in> {j, Unsettled data [] j, Settled data []}"
    and "result = Inr () \<Longrightarrow> journal_calls ops p j = Settled data []"
    and "result = Inl e \<Longrightarrow> journal_calls ops p j \<in> {j, Unsettled data [] j}"
proof -
  define tmp where "tmp = p @ ''.tmp''"
  have tmp: "tmp \<noteq> p" "p \<noteq> tmp" by (simp_all add: tmp_def)
  have run: "write_atomic_via flt tmp p data = (ops, result)" using assms by (simp add: write_atomic_def tmp_def)
  have "journal_calls (take k ops) p j \<in> {j, Unsettled data [] j, Settled data []} \<and>
      (result = Inr () \<longrightarrow> journal_calls ops p j = Settled data []) \<and>
      (\<forall>e. result = Inl e \<longrightarrow> journal_calls ops p j \<in> {j, Unsettled data [] j})"
  proof (cases flt)
    case Works
    then show ?thesis using run tmp
      by (auto simp: write_atomic_via_def journal_calls_def take_Cons' split: if_splits)
  next
    case (Breaks st e b)
    then show ?thesis using run tmp
      by (cases st; cases b)
        (auto simp: write_atomic_via_def cleanup_def journal_calls_def take_Cons' split: if_splits)
  qed
  then show "journal_calls (take k ops) p j \<in> {j, Unsettled data [] j, Settled data []}"
    "result = Inr () \<Longrightarrow> journal_calls ops p j = Settled data []"
    "result = Inl e \<Longrightarrow> journal_calls ops p j \<in> {j, Unsettled data [] j}"
    by blast+
qed

text \<open>C15: A compaction is all or nothing. When it reports success the journal holds exactly the
  rebuilt events with no corrupt line, and still does after a power loss. When it reports an error,
  and at a power loss between any two of its system calls, what is left is either exactly the
  rebuilt events or a state the journal could have been in had it never been compacted; and until
  a power loss the content is the old one or the new one.\<close>

theorem compaction_is_atomic:
  assumes codec: "codec_ok ok ser parse"
    and held: "load_events label parse (content_of j) = Inr (held, corrupt)"
    and ok: "list_all ok (rebuild held)"
    and run: "compact_with label p ser parse flt j rebuild = (j', result)"
  shows "let is_new = (\<lambda>k. load_events label parse (content_of k) = Inr (rebuild held, []));
             new_or_old = (\<lambda>k. is_new k \<or> (\<exists>cs. k = lose_power cs j))
         in (case result of
              Inr _ \<Rightarrow> is_new j' \<and> (\<forall>choices. is_new (lose_power choices j'))
            | Inl _ \<Rightarrow> (is_new j' \<or> j' = j) \<and> (\<forall>choices. new_or_old (lose_power choices j'))) \<and>
            (\<forall>n choices. new_or_old (lose_power choices
               (journal_calls (take n (fst (write_atomic flt p (rows_of ser (rebuild held))))) p j)))"
proof -
  let ?data = "rows_of ser (rebuild held)"
  let ?is_new = "\<lambda>k. load_events label parse (content_of k) = Inr (rebuild held, [])"
  have new: "load_events label parse (Some ?data) = Inr (rebuild held, [])"
    by (rule load_rows [OF codec ok])
  have either: "?is_new (lose_power choices k) \<or> (\<exists>cs. lose_power choices k = lose_power cs j)"
    if "k \<in> {j, Unsettled ?data [] j, Settled ?data []}" for k choices
    using that new by (cases choices) (auto, blast)
  obtain ops where w: "write_atomic flt p ?data = (ops, result)" and j': "j' = journal_calls ops p j"
    using run by (auto simp: compact_with_def held write_unlocked_def split: prod.splits)
  have back_any: "?is_new (lose_power choices (journal_calls (take n ops) p j)) \<or>
      (\<exists>cs. lose_power choices (journal_calls (take n ops) p j) = lose_power cs j)" for n choices
    using either journal_write(1) [OF w, of n j] by blast
  have final: "case result of
        Inr _ \<Rightarrow> ?is_new j' \<and> (\<forall>choices. ?is_new (lose_power choices j'))
      | Inl _ \<Rightarrow> (?is_new j' \<or> j' = j) \<and>
          (\<forall>choices. ?is_new (lose_power choices j') \<or> (\<exists>cs. lose_power choices j' = lose_power cs j))"
  proof (cases result)
    case (Inl e)
    then show ?thesis using journal_write(3) [OF w Inl, where j = j] new back_any [where n = "length ops"] by (auto simp: j')
  next
    case (Inr u)
    then show ?thesis using journal_write(2) [OF w, where j = j] new by (simp add: j')
  qed
  show ?thesis unfolding Let_def w fst_conv using final back_any by blast
qed

section \<open>The rows as an event log\<close>

text \<open>What a client of the journal relies on: the events whole in its file, and that every line that
  is not text is one of \<open>torn\<close>, after an append or a compaction, whatever the disk did.\<close>

definition reads :: "(string \<Rightarrow> 'e option) \<Rightarrow> u8 list set \<Rightarrow> journal_file \<Rightarrow> 'e list \<Rightarrow> bool" where
  "reads parse torn j events \<longleftrightarrow>
     (let content = (case content_of j of None \<Rightarrow> [] | Some c \<Rightarrow> c)
      in 13 \<notin> set content \<and> events_in parse content = events \<and>
         (\<forall>line \<in> set (file_lines content). valid_utf8 line \<or> line \<in> torn))"

definition holds_line :: "u8 list set \<Rightarrow> journal_file \<Rightarrow> bool" where
  "holds_line torn j \<longleftrightarrow> (\<exists>c. content_of j = Some c \<and> (\<exists>line \<in> set (file_lines c). line \<in> torn))"

lemma text_lines_empty: "text_lines []" "events_in parse [] = []"
  by (simp_all add: text_lines_def file_lines_def events_in_def)

lemma reads_load:
  assumes "reads parse torn j events"
  shows "(\<exists>corrupt. load_events label parse (content_of j) = Inr (events, corrupt)) \<or>
    (\<exists>e. load_events label parse (content_of j) = Inl e) \<and> holds_line torn j"
proof (cases "content_of j")
  case None
  then show ?thesis using assms by (simp add: reads_def load_events_def text_lines_empty)
next
  case (Some c)
  then have c: "events_in parse c = events" "\<forall>line \<in> set (file_lines c). valid_utf8 line \<or> line \<in> torn"
    using assms by (simp_all add: reads_def)
  show ?thesis
  proof (cases "text_lines c")
    case True
    then show ?thesis using load_text [OF True, of label parse] Some c(1) by simp
  next
    case False
    then have "holds_line torn j" using c(2) Some by (auto simp: holds_line_def text_lines_def list_all_iff)
    then show ?thesis using load_not_text [OF False, of label parse] Some by auto
  qed
qed

lemma reads_load_text: "reads parse {} j events \<Longrightarrow> \<exists>corrupt. load_events label parse (content_of j) = Inr (events, corrupt)"
  using reads_load [of parse "{}" j events label] by (auto simp: holds_line_def)

lemma reads_more: "reads parse torn j events \<Longrightarrow> torn \<subseteq> torn' \<Longrightarrow> reads parse torn' j events"
  by (auto simp: reads_def Let_def)

lemma content_of_write:
  "content_of (write_bytes bs (open_journal j)) = Some ((case content_of j of None \<Rightarrow> [] | Some c \<Rightarrow> c) @ bs)"
  "content_of (sync_data k) = content_of k"
  "content_of (open_journal j) = Some (case content_of j of None \<Rightarrow> [] | Some c \<Rightarrow> c)"
  by (cases j; simp add: open_journal_def; fail | cases k; simp; fail)+

lemma reads_append:
  assumes codec: "codec_ok ok ser parse" "ok e" and j: "reads parse torn j events"
    and torn: "torn_rows ser [e] \<subseteq> torn"
    and run: "append ser flt j e = (j', result)"
  shows "reads parse torn j' (events @ [e]) \<or> reads parse torn j' events \<and> result \<noteq> Inr ()"
proof -
  let ?c = "case content_of j of None \<Rightarrow> [] | Some c \<Rightarrow> c"
  have c: "13 \<notin> set ?c" and events: "events_in parse ?c = events"
    and lines: "\<forall>line \<in> set (file_lines ?c). valid_utf8 line \<or> line \<in> torn"
    using j by (simp_all add: reads_def Let_def)
  let ?row = "row_bytes ser ?c e"
  note part = append_part [OF codec c]
  have ok: "\<forall>line \<in> set (file_lines (?c @ take n ?row)). valid_utf8 line \<or> line \<in> torn" for n
    using part(3) [of n] lines torn by (auto simp: torn_rows_def)
  have cut: "reads parse torn (write_bytes (take n ?row) (open_journal j)) events \<or>
      reads parse torn (write_bytes (take n ?row) (open_journal j)) (events @ [e])" for n
    using part(1,4) [of n] ok [of n] by (simp add: reads_def content_of_write events)
  have whole: "reads parse torn (write_bytes ?row (open_journal j)) (events @ [e])"
    using part(2) part(4) [of "length ?row"] ok [of "length ?row"] by (simp add: reads_def content_of_write events)
  have opened: "reads parse torn (open_journal j) events"
    using c events lines by (simp add: reads_def content_of_write)
  have synced: "reads parse torn (sync_data k) = reads parse torn k" for k
    by (simp add: reads_def content_of_write fun_eq_iff)
  have content: "(case content_of (open_journal j) of None \<Rightarrow> [] | Some c \<Rightarrow> c) = ?c" by (simp add: content_of_write)
  show ?thesis
    using run j whole opened by (cases flt) (use cut in \<open>auto simp: append_def Let_def content synced\<close>)
qed

lemma reads_rows:
  assumes "codec_ok ok ser parse" and "list_all ok events" and "content_of j = Some (rows_of ser events)"
  shows "reads parse torn j events"
  using rows_facts [OF assms(1,2)] by (simp add: reads_def assms(3) text_lines_def list_all_iff)

lemma reads_compact:
  assumes codec: "codec_ok ok ser parse" and ok: "list_all ok (rebuild events)" and j: "reads parse torn j events"
    and run: "compact_with label p ser parse flt j rebuild = (j', result)"
  shows "reads parse torn j' (rebuild events) \<or> reads parse torn j' events \<and> result \<noteq> Inr ()"
proof -
  consider corrupt where "load_events label parse (content_of j) = Inr (events, corrupt)"
    | e where "load_events label parse (content_of j) = Inl e"
    using reads_load [OF j] by blast
  then show ?thesis
  proof cases
    case 1
    obtain ops where w: "write_atomic flt p (rows_of ser (rebuild events)) = (ops, result)"
      and j': "j' = journal_calls ops p j"
      using run 1 by (auto simp: compact_with_def write_unlocked_def split: prod.splits)
    have "j' = j \<and> result \<noteq> Inr () \<or> content_of j' = Some (rows_of ser (rebuild events))"
      using journal_write(2) [OF w, where j = j] journal_write(3) [OF w, where j = j]
      by (cases result) (auto simp: j')
    then show ?thesis using reads_rows [OF codec ok] j by blast
  qed (use run j in \<open>auto simp: compact_with_def\<close>)
qed

section \<open>Histories\<close>

text \<open>Appends, with what the disk does to each, and power losses, with what each brings back.\<close>

datatype 'e journal_step = DoAppend append_fault 'e | PowerLoss "(bool \<times> nat) list"

text \<open>The file at the end, and the events whose append returned success.\<close>

fun run_journal ::
  "('e \<Rightarrow> u8 list) \<Rightarrow> journal_file \<Rightarrow> 'e journal_step list \<Rightarrow> journal_file \<times> 'e list" where
  "run_journal ser j [] = (j, [])"
| "run_journal ser j (DoAppend flt e # steps) =
     (let (j', result) = append ser flt j e;
          (end_file, told) = run_journal ser j' steps
      in (end_file, (if result = Inr () then e # told else told)))"
| "run_journal ser j (PowerLoss choices # steps) = run_journal ser (lose_power choices j) steps"

fun tried :: "'e journal_step list \<Rightarrow> 'e list" where
  "tried [] = []"
| "tried (DoAppend flt e # steps) = e # tried steps"
| "tried (PowerLoss choices # steps) = tried steps"

text \<open>
  The invariant: whatever length of the unsynced bytes survives, the rows read are at least
  \<open>told\<close> and at most \<open>asked\<close>, in order, and a line that is not text is one of \<open>torn\<close>.
\<close>

definition rows_ok :: "(string \<Rightarrow> 'e option) \<Rightarrow> u8 list set \<Rightarrow> 'e list \<Rightarrow> 'e list \<Rightarrow> u8 list \<Rightarrow> bool" where
  "rows_ok parse torn told asked c \<longleftrightarrow>
     subseq told (events_in parse c) \<and> subseq (events_in parse c) asked \<and>
     (\<forall>line \<in> set (file_lines c). valid_utf8 line \<or> line \<in> torn)"

definition rows_between :: "(string \<Rightarrow> 'e option) \<Rightarrow> u8 list set \<Rightarrow> 'e list \<Rightarrow> 'e list \<Rightarrow> journal_file \<Rightarrow> bool" where
  "rows_between parse torn told asked j \<longleftrightarrow>
     (\<exists>kept fresh. j = Settled kept fresh \<and> 13 \<notin> set (kept @ fresh) \<and>
        (\<forall>n. rows_ok parse torn told asked (kept @ take n fresh)))"

lemma rows_betweenI:
  "13 \<notin> set (kept @ fresh) \<Longrightarrow> (\<And>n. rows_ok parse torn told asked (kept @ take n fresh)) \<Longrightarrow>
   rows_between parse torn told asked (Settled kept fresh)"
  by (simp add: rows_between_def)

lemma rows_betweenE:
  assumes "rows_between parse torn told asked j"
  obtains kept fresh where "j = Settled kept fresh" "13 \<notin> set (kept @ fresh)"
    "\<And>n. rows_ok parse torn told asked (kept @ take n fresh)"
  using assms by (auto simp: rows_between_def)

lemma rows_ok_more: "rows_ok parse torn told asked c \<Longrightarrow> rows_ok parse torn told (asked @ [e]) c"
  by (simp add: rows_ok_def subseq_rev_drop_many)

lemma rows_between_mono: "rows_between parse torn told asked j \<Longrightarrow> rows_between parse torn told (asked @ [e]) j"
  by (blast elim: rows_betweenE intro: rows_betweenI rows_ok_more)

lemma rows_ok_row:
  assumes codec: "codec_ok ok ser parse" "ok e" and torn: "torn_rows ser [e] \<subseteq> torn"
    and c: "13 \<notin> set c" "rows_ok parse torn told asked c"
  shows "rows_ok parse torn told (asked @ [e]) (c @ take n (row_bytes ser c e))"
    and "rows_ok parse torn (told @ [e]) (asked @ [e]) (c @ row_bytes ser c e)"
proof -
  note part = append_part [OF codec c(1)]
  have lines: "\<forall>line \<in> set (file_lines (c @ take n (row_bytes ser c e))). valid_utf8 line \<or> line \<in> torn" for n
    using part(3) [of n] c(2) torn by (auto simp: torn_rows_def rows_ok_def)
  have "subseq told (events_in parse c)" "subseq (events_in parse c) asked" using c(2) by (simp_all add: rows_ok_def)
  then have "subseq told (events_in parse c @ [e])" "subseq (events_in parse c @ [e]) (asked @ [e])"
    "subseq (events_in parse c) (asked @ [e])" "subseq (told @ [e]) (events_in parse c @ [e])"
    by (auto intro: list_emb_append_mono subseq_rev_drop_many)
  then show "rows_ok parse torn told (asked @ [e]) (c @ take n (row_bytes ser c e))"
    "rows_ok parse torn (told @ [e]) (asked @ [e]) (c @ row_bytes ser c e)"
    using c(2) part(1) [of n] part(2) lines [of n] lines [of "length (row_bytes ser c e)"]
    by (auto simp: rows_ok_def)
qed

lemma rows_between_cut:
  assumes codec: "codec_ok ok ser parse" "ok e" and torn: "torn_rows ser [e] \<subseteq> torn"
    and rows: "rows_between parse torn told asked (Settled kept fresh)"
  shows "rows_between parse torn told (asked @ [e]) (Settled kept (fresh @ take m (row_bytes ser (kept @ fresh) e)))"
proof (rule rows_betweenI)
  have no_cr: "13 \<notin> set (kept @ fresh)" and ok: "\<And>n. rows_ok parse torn told asked (kept @ take n fresh)"
    using rows by (auto elim: rows_betweenE)
  let ?row = "row_bytes ser (kept @ fresh) e"
  show "13 \<notin> set (kept @ fresh @ take m ?row)" using append_part(4) [OF codec no_cr, of m] by simp
  fix n
  show "rows_ok parse torn told (asked @ [e]) (kept @ take n (fresh @ take m ?row))"
  proof (cases "n \<le> length fresh")
    case True
    then show ?thesis using rows_ok_more [OF ok [of n]] by simp
  next
    case False
    then have eq: "kept @ take n (fresh @ take m ?row) = (kept @ fresh) @ take (min (n - length fresh) m) ?row" by simp
    show ?thesis unfolding eq
      by (rule rows_ok_row(1) [OF codec torn no_cr]) (use ok [of "length fresh"] in simp)
  qed
qed

lemma rows_between_whole:
  assumes codec: "codec_ok ok ser parse" "ok e" and torn: "torn_rows ser [e] \<subseteq> torn"
    and rows: "rows_between parse torn told asked (Settled kept fresh)"
  shows "rows_between parse torn (told @ [e]) (asked @ [e]) (Settled (kept @ fresh @ row_bytes ser (kept @ fresh) e) [])"
proof (rule rows_betweenI)
  have no_cr: "13 \<notin> set (kept @ fresh)" and ok: "rows_ok parse torn told asked (kept @ fresh)"
    using rows by (auto simp: rows_between_def dest: spec [of _ "length fresh"])
  let ?row = "row_bytes ser (kept @ fresh) e"
  show "13 \<notin> set ((kept @ fresh @ ?row) @ [])" using append_part(4) [OF codec no_cr, of "length ?row"] by simp
  show "rows_ok parse torn (told @ [e]) (asked @ [e]) ((kept @ fresh @ ?row) @ take n [])" for n
    using rows_ok_row(2) [OF codec torn no_cr ok] by simp
qed

lemma rows_between_append:
  assumes codec: "codec_ok ok ser parse" "ok e" and torn: "torn_rows ser [e] \<subseteq> torn"
    and rows: "rows_between parse torn told asked j" and run: "append ser flt j e = (j', result)"
  shows "rows_between parse torn (if result = Inr () then told @ [e] else told) (asked @ [e]) j'"
proof -
  obtain kept fresh where j: "j = Settled kept fresh" using rows by (auto elim: rows_betweenE)
  let ?row = "row_bytes ser (kept @ fresh) e"
  have cut: "rows_between parse torn told (asked @ [e]) (write_bytes (take n ?row) j)" for n
    using rows_between_cut [OF codec torn, of told asked kept fresh n] rows by (simp add: j)
  have whole: "rows_between parse torn (told @ [e]) (asked @ [e]) (sync_data (write_bytes ?row j))"
    using rows_between_whole [OF codec torn, of told asked kept fresh] rows by (simp add: j)
  have j_open: "open_journal (Settled kept fresh) = Settled kept fresh" by (simp add: open_journal_def)
  show ?thesis
    using run rows_between_mono [OF rows, of e] whole cut cut [of "length ?row"]
    by (cases flt) (auto simp: append_def j_open Let_def j)
qed

lemma rows_between_power:
  assumes "rows_between parse torn told asked j"
  shows "rows_between parse torn told asked (lose_power choices j)"
proof -
  obtain kept fresh where j: "j = Settled kept fresh" "13 \<notin> set (kept @ fresh)"
    and ok: "\<And>n. rows_ok parse torn told asked (kept @ take n fresh)"
    using rows_betweenE [OF assms] by blast
  have "rows_between parse torn told asked (Settled (kept @ take n fresh) [])" for n
    using ok [of n] j(2) by (intro rows_betweenI) (auto dest: in_set_takeD)
  then show ?thesis by (simp add: j(1))
qed

lemma run_keeps_rows:
  "codec_ok ok ser parse \<Longrightarrow> list_all ok (tried steps) \<Longrightarrow> torn_rows ser (tried steps) \<subseteq> torn \<Longrightarrow>
    rows_between parse torn told asked j \<Longrightarrow> run_journal ser j steps = (j', acked) \<Longrightarrow>
    rows_between parse torn (told @ acked) (asked @ tried steps) j'"
proof (induction ser j steps arbitrary: told asked acked rule: run_journal.induct)
  case (1 ser j)
  then show ?case by simp
next
  case (2 ser j flt e steps)
  obtain j1 result where step: "append ser flt j e = (j1, result)" by fastforce
  obtain acked1 where rest: "run_journal ser j1 steps = (j', acked1)"
    and acked: "acked = (if result = Inr () then e # acked1 else acked1)"
    using 2(6) by (auto simp: step split: prod.splits)
  have torn: "torn_rows ser [e] \<subseteq> torn" "torn_rows ser (tried steps) \<subseteq> torn"
    using 2(4) by (auto simp: torn_rows_def)
  show ?case
    using 2(1) [OF step [symmetric] refl 2(2) _ torn(2) rows_between_append [OF 2(2) _ torn(1) 2(5) step] rest] 2(3) acked
    by (auto split: if_splits)
next
  case (3 ser j choices steps)
  then show ?case using rows_between_power by fastforce
qed

text \<open>C5: Rows outlive faults. Take a journal that loads and whose folder entry is on disk, without
  carriage returns, whatever rows it holds, torn last row included, and any history of appends and
  power losses: appends that fail to open, fail to read the end, stop after any number of bytes or
  fail to sync, power losses that keep any length of what was not synced. The whole rows in the file
  are then, in order, at least those it held before and those whose append reported success, and at
  most those and the ones tried: nothing is lost, doubled, reordered or made up. A load gives
  exactly these rows, or fails because a line of the file is a tried row that was cut inside a
  character.\<close>

theorem journal_keeps_rows:
  assumes "codec_ok ok ser parse" and "13 \<notin> set before_run" and "list_all ok (tried steps)"
    and "load_events label parse (Some before_run) = Inr (held, corrupt0)"
    and "run_journal ser (Settled before_run []) steps = (j, acked)"
  shows "\<exists>content. content_of j = Some content \<and>
    (let events = events_in parse content
     in subseq (held @ acked) events \<and> subseq events (held @ tried steps) \<and>
        ((\<exists>corrupt. load_events label parse (content_of j) = Inr (events, corrupt)) \<or>
         (\<exists>e. load_events label parse (content_of j) = Inl e) \<and>
           (\<exists>line \<in> set (file_lines content). line \<in> torn_rows ser (tried steps))))"
proof -
  let ?torn = "torn_rows ser (tried steps)"
  have held: "text_lines before_run" "held = events_in parse before_run" using load_Inr [OF assms(4)] by simp_all
  then have "rows_between parse ?torn held held (Settled before_run [])"
    using assms(2) by (intro rows_betweenI) (auto simp: rows_ok_def text_lines_def list_all_iff)
  then have "rows_between parse ?torn (held @ acked) (held @ tried steps) j"
    using run_keeps_rows [OF assms(1,3) subset_refl _ assms(5)] by simp
  then obtain kept fresh where j: "j = Settled kept fresh"
    and "rows_ok parse ?torn (held @ acked) (held @ tried steps) (kept @ take (length fresh) fresh)"
    by (blast elim: rows_betweenE)
  then have ok: "rows_ok parse ?torn (held @ acked) (held @ tried steps) (kept @ fresh)" by simp
  have "text_lines (kept @ fresh) \<or> (\<exists>line \<in> set (file_lines (kept @ fresh)). line \<in> ?torn)"
    using ok by (auto simp: rows_ok_def text_lines_def list_all_iff)
  then show ?thesis
    using ok load_text [of "kept @ fresh" label parse] load_not_text [of "kept @ fresh" label parse]
    by (auto simp: j rows_ok_def)
qed

section \<open>A sample format\<close>

definition sample_ser :: "bool \<Rightarrow> u8 list" where
  "sample_ser b = (if b then [123, 49, 125] else [123, 48, 125])"

definition sample_parse :: "string \<Rightarrow> bool option" where
  "sample_parse line = (if line = ''{1}'' then Some True else if line = ''{0}'' then Some False else None)"

lemma sample_codec: "codec_ok (\<lambda>_. True) sample_ser sample_parse"
proof -
  have below: "n < 3 \<longleftrightarrow> n = 0 \<or> n = 1 \<or> n = 2" for n :: nat by auto
  have "valid_utf8 (sample_ser True) \<and> 13 \<notin> set (sample_ser True) \<and> 10 \<notin> set (sample_ser True) \<and>
      trim (of_bytes (sample_ser True)) \<noteq> [] \<and> sample_parse (of_bytes (sample_ser True)) = Some True"
    "valid_utf8 (sample_ser False) \<and> 13 \<notin> set (sample_ser False) \<and> 10 \<notin> set (sample_ser False) \<and>
      trim (of_bytes (sample_ser False)) \<noteq> [] \<and> sample_parse (of_bytes (sample_ser False)) = Some False"
    by code_simp+
  then have "valid_utf8 (sample_ser e) \<and> 13 \<notin> set (sample_ser e) \<and> 10 \<notin> set (sample_ser e) \<and>
      trim (of_bytes (sample_ser e)) \<noteq> [] \<and> sample_parse (of_bytes (sample_ser e)) = Some e" for e
    by (cases e) simp_all
  moreover have "trim (of_bytes (take n (sample_ser e))) = [] \<or> sample_parse (of_bytes (take n (sample_ser e))) = None"
    if "n < length (sample_ser e)" for e n
  proof -
    have "length (sample_ser e) = 3" by (simp add: sample_ser_def)
    moreover have "list_all (\<lambda>n. trim (of_bytes (take n (sample_ser True))) = [] \<or> sample_parse (of_bytes (take n (sample_ser True))) = None) [0, 1, 2]"
      "list_all (\<lambda>n. trim (of_bytes (take n (sample_ser False))) = [] \<or> sample_parse (of_bytes (take n (sample_ser False))) = None) [0, 1, 2]"
      by code_simp+
    ultimately show ?thesis using that below [of n] by (cases e) auto
  qed
  ultimately show ?thesis by (simp add: codec_ok_def)
qed

text \<open>A torn row, a write that stops, a power loss, a write that is acknowledged.\<close>

lemma journal_keeps_rows_witness:
  "let steps = [DoAppend (WriteStops 2 ''full'') False, PowerLoss [(False, 1)], DoAppend AppendWorks True];
       torn = [123, 48, 125, 10, 123]
   in run_journal sample_ser (Settled torn []) steps =
        (Settled [123, 48, 125, 10, 123, 10, 123, 49, 125, 10] [], [True]) \<and>
      (\<exists>corrupt. load_events ''journal'' sample_parse (Some [123, 48, 125, 10, 123, 10, 123, 49, 125, 10]) =
         Inr ([False, True], corrupt)) \<and>
      subseq [False, True] ([False] @ tried steps)"
proof -
  let ?steps = "[DoAppend (WriteStops 2 ''full'') False, PowerLoss [(False, 1)], DoAppend AppendWorks True]"
  let ?torn = "[123, 48, 125, 10, 123] :: u8 list"
  let ?final = "[123, 48, 125, 10, 123, 10, 123, 49, 125, 10] :: u8 list"
  have run: "run_journal sample_ser (Settled ?torn []) ?steps = (Settled ?final [], [True])"
    by code_simp
  have held: "load_events ''journal'' sample_parse (Some ?torn) = Inr ([False], [2])" by code_simp
  have all: "list_all (\<lambda>_. True) (tried ?steps)" by simp
  have ascii: "torn_rows sample_ser es = {}" for es
    by (rule ascii_never_torn) (auto simp: sample_ser_def)
  have events: "events_in sample_parse ?final = [False, True]" by code_simp
  show ?thesis
    using run journal_keeps_rows [OF sample_codec _ all held run] unfolding Let_def
    by (simp only: content_of.simps append_Nil2 option.inject ex_simps simp_thms events ascii empty_iff bex_simps) (auto simp: events)
qed

lemma compaction_is_atomic_witness:
  "let j = Settled [123, 48, 125, 10, 123] []; j' = Unsettled [123, 48, 125, 10, 123, 48, 125, 10] [] j
   in compact_with ''journal'' ''up.jsonl'' sample_ser sample_parse (Breaks AtSyncDir ''io'' True) j (\<lambda>es. es @ es) = (j', Inl ''io'') \<and>
      lose_power [(True, 0)] j' = j \<and>
      load_events ''journal'' sample_parse (content_of (lose_power [(False, 0)] j')) = Inr ([False, False], [])"
proof -
  let ?j = "Settled [123, 48, 125, 10, 123] []"
  let ?j' = "Unsettled [123, 48, 125, 10, 123, 48, 125, 10] [] ?j"
  have held: "load_events ''journal'' sample_parse (content_of ?j) = Inr ([False], [2])" by code_simp
  have run: "compact_with ''journal'' ''up.jsonl'' sample_ser sample_parse (Breaks AtSyncDir ''io'' True) ?j (\<lambda>es. es @ es) = (?j', Inl ''io'')"
    by code_simp
  have "load_events ''journal'' sample_parse (content_of (lose_power [(False, 0)] ?j')) = Inr ([False, False], []) \<or>
      (\<exists>cs. lose_power [(False, 0)] ?j' = lose_power cs ?j)"
    using compaction_is_atomic [OF sample_codec held _ run, unfolded Let_def, THEN conjunct1] by (simp del: lose_power.simps)
  moreover have "lose_power [(False, 0)] ?j' \<noteq> lose_power cs ?j" for cs by simp
  ultimately show ?thesis using run by simp
qed

section \<open>Two limits\<close>

text \<open>A row cut inside a character of two or more bytes is not text, and \<open>load_events\<close> returns the
  error of the line instead of skipping it; a later append leaves it in place.\<close>

lemma torn_text_stays_unreadable:
  "load_events ''journal'' parse (Some [123, 34, 195]) = Inl ''read journal line 1''"
  "load_events ''journal'' parse (content_of (fst (append ser AppendWorks (Settled [123, 34, 195] []) e))) = Inl ''read journal line 1''"
proof -
  have bad: "\<not> valid_utf8 [123, 34, 195]" by code_simp
  moreover have "dec_string (0 + 1) = ''1''" by code_simp
  ultimately show "load_events ''journal'' parse (Some [123, 34, 195]) = Inl ''read journal line 1''"
    by (simp add: load_events_def file_lines_def)
  have "row_bytes ser [123, 34, 195] e = 10 # ser e @ [10]" by (simp add: row_bytes_def ends_in_a_torn_row_def)
  then show "load_events ''journal'' parse (content_of (fst (append ser AppendWorks (Settled [123, 34, 195] []) e))) = Inl ''read journal line 1''"
    using bad \<open>dec_string (0 + 1) = ''1''\<close>
    by (simp add: append_def open_journal_def load_events_def file_lines_def strip_cr_def)
qed

text \<open>The append that creates the journal syncs its data but not the folder, so an acknowledged
  first row can go with the file at a power loss.\<close>

lemma first_row_can_vanish:
  "append ser AppendWorks Absent e = (Unsettled (ser e @ [10]) [] Absent, Inr ())"
  "lose_power [(True, 0)] (Unsettled (ser e @ [10]) [] Absent) = Absent"
  by (simp_all add: append_def open_journal_def row_bytes_def ends_in_a_torn_row_def)

end
