(* ===== verification/PushJournal.thy ===== *)
theory PushJournal
  imports Journal "HOL-Library.Product_Lexorder"
begin

text \<open>
  The upload log of a push (\<open>crates/libs/push/src/journal.rs\<close>): the events of the journal, the skip
  sets one server and user read from it, and the operations of a push run, which record each success
  in memory and in the file. A hash set is a set; where the code sorts what it iterates, the order
  is the sorted one. The file and its faults are those of theory Journal; the warning about a
  corrupt line is not modelled.
\<close>

section \<open>Events\<close>

record journal_message =
  jm_file :: string
  jm_guid :: string

datatype journal_event =
  AssetOk string string string
| MessageBatchOk string string string "journal_message list"
| FileOk string string string string
| Fail string string string string "string option" "string option" string string

fun event_target :: "journal_event \<Rightarrow> string \<times> string" where
  "event_target (AssetOk url username sha256) = (url, username)"
| "event_target (MessageBatchOk url username source messages) = (url, username)"
| "event_target (FileOk url username source file_name) = (url, username)"
| "event_target (Fail url username source file_name guid sha256 stage_name error) = (url, username)"

section \<open>The skip sets\<close>

record journal_state =
  js_assets :: "string set"
  js_messages :: "string set"
  js_files :: "string set"

definition empty_state :: journal_state where
  "empty_state = \<lparr>js_assets = {}, js_messages = {}, js_files = {}\<rparr>"

definition message_key :: "string \<Rightarrow> string \<Rightarrow> string" where
  "message_key file_name guid = file_name @ CHR 0x00 # guid"

definition add_messages :: "journal_message list \<Rightarrow> journal_state \<Rightarrow> journal_state" where
  "add_messages messages st =
     st\<lparr>js_messages := fold (\<lambda>m. insert (message_key (jm_file m) (jm_guid m))) messages (js_messages st)\<rparr>"

fun load_event :: "string \<Rightarrow> string \<Rightarrow> journal_event \<Rightarrow> journal_state \<Rightarrow> journal_state" where
  "load_event url username (AssetOk u a sha256) st =
     (if u = url \<and> a = username then st\<lparr>js_assets := insert sha256 (js_assets st)\<rparr> else st)"
| "load_event url username (MessageBatchOk u a source messages) st =
     (if u = url \<and> a = username then add_messages messages st else st)"
| "load_event url username (FileOk u a source file_name) st =
     (if u = url \<and> a = username then st\<lparr>js_files := insert file_name (js_files st)\<rparr> else st)"
| "load_event url username (Fail u a source file_name guid sha256 stage_name error) st = st"

definition load_state :: "(string \<Rightarrow> journal_event option) \<Rightarrow> journal_file \<Rightarrow> string \<Rightarrow> string \<Rightarrow> string + journal_state" where
  "load_state parse j url username =
     map_res (\<lambda>(events, corrupt). fold (load_event url username) events empty_state)
       (load_events ''journal'' parse (content_of j))"

section \<open>Compaction\<close>

fun chunks :: "nat \<Rightarrow> 'a list \<Rightarrow> 'a list list" where
  "chunks n xs = (if n = 0 \<or> xs = [] then [] else take n xs # chunks n (drop n xs))"

declare chunks.simps [simp del]

definition messages_from_state_keys :: "journal_state \<Rightarrow> journal_message list" where
  "messages_from_state_keys st =
     sort_key (\<lambda>m. (jm_file m, jm_guid m))
       (List.map_filter
          (\<lambda>key. map_option (\<lambda>(file_name, guid). \<lparr>jm_file = file_name, jm_guid = guid\<rparr>) (split_once [CHR 0x00] key))
          (sorted_list_of_set (js_messages st)))"

definition compacted :: "string \<Rightarrow> string \<Rightarrow> journal_state \<Rightarrow> journal_event list \<Rightarrow> journal_event list" where
  "compacted url username st events =
     filter (\<lambda>event. fst (event_target event) \<noteq> url \<or> snd (event_target event) \<noteq> username) events @
     map (AssetOk url username) (sorted_list_of_set (js_assets st)) @
     map (MessageBatchOk url username []) (chunks 1000 (messages_from_state_keys st)) @
     map (FileOk url username []) (sorted_list_of_set (js_files st))"

text \<open>The name of the journal in its folder.\<close>

definition journal_name :: path where
  "journal_name = ''.import-state.jsonl''"

definition compact ::
  "(journal_event \<Rightarrow> u8 list) \<Rightarrow> (string \<Rightarrow> journal_event option) \<Rightarrow> fault \<Rightarrow> journal_file \<Rightarrow> string \<Rightarrow> string \<Rightarrow>
   journal_state \<Rightarrow> journal_file \<times> (string + unit)" where
  "compact ser parse flt j url username st =
     compact_with ''journal'' journal_name ser parse flt j (compacted url username st)"

section \<open>A run\<close>

record run_journal_state =
  rj_state :: journal_state
  rj_file :: journal_file
  rj_url :: string
  rj_username :: string

definition open_run ::
  "(string \<Rightarrow> journal_event option) \<Rightarrow> journal_file \<Rightarrow> string \<Rightarrow> string \<Rightarrow> bool \<Rightarrow> string + run_journal_state" where
  "open_run parse j url username fresh =
     map_res (\<lambda>st. \<lparr>rj_state = st, rj_file = j, rj_url = url, rj_username = username\<rparr>)
       (if fresh then Inr empty_state else load_state parse j url username)"

definition has_file :: "run_journal_state \<Rightarrow> string \<Rightarrow> bool" where
  "has_file run file_name \<longleftrightarrow> file_name \<in> js_files (rj_state run)"

definition has_message :: "run_journal_state \<Rightarrow> string \<Rightarrow> string \<Rightarrow> bool" where
  "has_message run file_name guid \<longleftrightarrow> message_key file_name guid \<in> js_messages (rj_state run)"

definition has_asset :: "run_journal_state \<Rightarrow> string \<Rightarrow> bool" where
  "has_asset run sha256 \<longleftrightarrow> sha256 \<in> js_assets (rj_state run)"

definition append_to_run ::
  "(journal_event \<Rightarrow> u8 list) \<Rightarrow> append_fault \<Rightarrow> run_journal_state \<Rightarrow> journal_event \<Rightarrow> run_journal_state \<times> (string + unit)" where
  "append_to_run ser flt run event =
     (let (j, result) = append ser flt (rj_file run) event in (run\<lparr>rj_file := j\<rparr>, result))"

definition asset_ok ::
  "(journal_event \<Rightarrow> u8 list) \<Rightarrow> append_fault \<Rightarrow> run_journal_state \<Rightarrow> string \<Rightarrow> run_journal_state \<times> (string + unit)" where
  "asset_ok ser flt run sha256 =
     (let run = run\<lparr>rj_state := (rj_state run)\<lparr>js_assets := insert sha256 (js_assets (rj_state run))\<rparr>\<rparr>
      in append_to_run ser flt run (AssetOk (rj_url run) (rj_username run) sha256))"

definition message_batch_ok ::
  "(journal_event \<Rightarrow> u8 list) \<Rightarrow> append_fault \<Rightarrow> run_journal_state \<Rightarrow> string \<Rightarrow> journal_message list \<Rightarrow>
   run_journal_state \<times> (string + unit)" where
  "message_batch_ok ser flt run source messages =
     (let run = run\<lparr>rj_state := add_messages messages (rj_state run)\<rparr>
      in append_to_run ser flt run (MessageBatchOk (rj_url run) (rj_username run) source messages))"

definition file_ok ::
  "(journal_event \<Rightarrow> u8 list) \<Rightarrow> append_fault \<Rightarrow> run_journal_state \<Rightarrow> string \<Rightarrow> string \<Rightarrow>
   run_journal_state \<times> (string + unit)" where
  "file_ok ser flt run source file_name =
     (let run = run\<lparr>rj_state := (rj_state run)\<lparr>js_files := insert file_name (js_files (rj_state run))\<rparr>\<rparr>
      in append_to_run ser flt run (FileOk (rj_url run) (rj_username run) source file_name))"

text \<open>Best effort: the error of the append is dropped.\<close>

definition record_failure ::
  "(journal_event \<Rightarrow> u8 list) \<Rightarrow> append_fault \<Rightarrow> run_journal_state \<Rightarrow> string \<Rightarrow> string \<Rightarrow> string \<Rightarrow> string \<Rightarrow> run_journal_state" where
  "record_failure ser flt run source file_name stage_name error =
     fst (append_to_run ser flt run
       (Fail (rj_url run) (rj_username run) source file_name None None stage_name error))"

definition compact_run ::
  "(journal_event \<Rightarrow> u8 list) \<Rightarrow> (string \<Rightarrow> journal_event option) \<Rightarrow> fault \<Rightarrow> run_journal_state \<Rightarrow>
   run_journal_state \<times> (string + unit)" where
  "compact_run ser parse flt run =
     (let (j, result) = compact ser parse flt (rj_file run) (rj_url run) (rj_username run) (rj_state run)
      in (run\<lparr>rj_file := j\<rparr>, result))"

section \<open>The contract\<close>

text \<open>What one server and user may skip, by the events alone.\<close>

abbreviation skip_sets :: "string \<Rightarrow> string \<Rightarrow> journal_event list \<Rightarrow> journal_state" where
  "skip_sets url username events \<equiv> fold (load_event url username) events empty_state"

definition state_le :: "journal_state \<Rightarrow> journal_state \<Rightarrow> bool" where
  "state_le a b \<longleftrightarrow> js_assets a \<subseteq> js_assets b \<and> js_messages a \<subseteq> js_messages b \<and> js_files a \<subseteq> js_files b"

definition state_union :: "journal_state \<Rightarrow> journal_state \<Rightarrow> journal_state" where
  "state_union a b =
     \<lparr>js_assets = js_assets a \<union> js_assets b, js_messages = js_messages a \<union> js_messages b, js_files = js_files a \<union> js_files b\<rparr>"

text \<open>Finite sets, and keys that \<open>message_key\<close> made.\<close>

definition state_ok :: "journal_state \<Rightarrow> bool" where
  "state_ok st \<longleftrightarrow> finite (js_assets st) \<and> finite (js_files st) \<and> finite (js_messages st) \<and>
     (\<forall>key \<in> js_messages st. CHR 0x00 \<in> set key)"

lemma empty_state_simps [simp]:
  "js_assets empty_state = {}" "js_messages empty_state = {}" "js_files empty_state = {}"
  by (simp_all add: empty_state_def)

lemma add_messages_simps [simp]:
  "js_messages (add_messages ms st) = (\<lambda>m. message_key (jm_file m) (jm_guid m)) ` set ms \<union> js_messages st"
  "js_assets (add_messages ms st) = js_assets st"
  "js_files (add_messages ms st) = js_files st"
proof -
  have "fold (\<lambda>m. insert (message_key (jm_file m) (jm_guid m))) ms S =
      (\<lambda>m. message_key (jm_file m) (jm_guid m)) ` set ms \<union> S" for S
    by (induction ms arbitrary: S) auto
  then show "js_messages (add_messages ms st) = (\<lambda>m. message_key (jm_file m) (jm_guid m)) ` set ms \<union> js_messages st"
    by (simp add: add_messages_def)
qed (simp_all add: add_messages_def)

text \<open>One event adds the same to every state.\<close>

definition adds :: "string \<Rightarrow> string \<Rightarrow> journal_event \<Rightarrow> journal_state" where
  "adds url username e = load_event url username e empty_state"

lemma load_event_union: "load_event url username e st = state_union st (adds url username e)"
  by (cases e) (auto simp: adds_def state_union_def intro!: journal_state.equality)

lemma state_union_assoc: "state_union (state_union a b) c = state_union a (state_union b c)"
  by (simp add: state_union_def Un_assoc)

lemma state_union_empty [simp]: "state_union a empty_state = a" "state_union empty_state a = a"
  by (simp_all add: state_union_def empty_state_def)

lemma fold_load_event: "fold (load_event url username) events st = state_union st (skip_sets url username events)"
proof (induction events arbitrary: st)
  case (Cons e events)
  show ?case
    using Cons [of "load_event url username e st"] Cons [of "load_event url username e empty_state"]
    by (simp add: load_event_union [of _ _ e] state_union_assoc)
qed simp

lemma skip_sets_append:
  "skip_sets url username (a @ b) = state_union (skip_sets url username a) (skip_sets url username b)"
  unfolding fold_append o_apply by (rule fold_load_event)

section \<open>Compaction keeps the skip sets\<close>

lemma split_once_nul:
  "CHR 0x00 \<in> set key \<Longrightarrow> \<exists>a b. split_once [CHR 0x00] key = Some (a, b) \<and> message_key a b = key"
proof (induction key)
  case (Cons c key)
  show ?case
  proof (cases "c = CHR 0x00")
    case True
    then show ?thesis by (simp add: starts_with_def message_key_def)
  next
    case False
    then obtain a b where "split_once [CHR 0x00] key = Some (a, b)" "message_key a b = key" using Cons by auto
    then show ?thesis using False by (simp add: starts_with_def message_key_def)
  qed
qed simp

lemma in_map_filter: "y \<in> set (List.map_filter f xs) \<longleftrightarrow> (\<exists>x \<in> set xs. f x = Some y)"
  by (induction xs) (auto split: option.splits)

lemma keys_of_messages:
  assumes "state_ok st"
  shows "(\<lambda>m. message_key (jm_file m) (jm_guid m)) ` set (messages_from_state_keys st) = js_messages st"
proof -
  let ?entry = "\<lambda>key. map_option (\<lambda>(f, g). \<lparr>jm_file = f, jm_guid = g\<rparr>) (split_once [CHR 0x00] key)"
  let ?key = "\<lambda>m. message_key (jm_file m) (jm_guid m)"
  have in_messages: "m \<in> set (messages_from_state_keys st) \<longleftrightarrow> (\<exists>key \<in> js_messages st. ?entry key = Some m)" for m
    using assms by (simp add: messages_from_state_keys_def state_ok_def in_map_filter)
  have back_to_key: "\<exists>m. ?entry key = Some m \<and> ?key m = key" if "key \<in> js_messages st" for key
    using split_once_nul [of key] assms that by (auto simp: state_ok_def)
  show ?thesis
  proof (intro equalityI subsetI)
    fix key assume "key \<in> ?key ` set (messages_from_state_keys st)"
    then obtain m k where "key = ?key m" "k \<in> js_messages st" "?entry k = Some m" using in_messages by blast
    then show "key \<in> js_messages st" using back_to_key [of k] by auto
  next
    fix key assume "key \<in> js_messages st"
    then obtain m where m: "?entry key = Some m" "?key m = key" using back_to_key by blast
    then have "m \<in> set (messages_from_state_keys st)" using in_messages \<open>key \<in> js_messages st\<close> by blast
    then show "key \<in> ?key ` set (messages_from_state_keys st)" unfolding m(2) [symmetric] by (rule imageI)
  qed
qed

lemma chunks_facts:
  assumes "0 < n"
  shows "concat (chunks n xs) = xs \<and> list_all (\<lambda>c. c \<noteq> [] \<and> length c \<le> n) (chunks n xs)"
proof (induction "length xs" arbitrary: xs rule: less_induct)
  case less
  have step: "chunks n xs = (if xs = [] then [] else take n xs # chunks n (drop n xs))"
    using assms by (subst chunks.simps) simp
  show ?case
  proof (cases "xs = []")
    case False
    have "length (drop n xs) < length xs" using False assms by simp
    then show ?thesis using less [of "drop n xs"] False by (simp add: step)
  next
    case True
    then have "chunks n xs = []" using step by simp
    then show ?thesis using True by simp
  qed
qed

lemma skip_sets_assets:
  "skip_sets url username (map (AssetOk url username) shas) = empty_state\<lparr>js_assets := set shas\<rparr>"
proof -
  have "fold (load_event url username) (map (AssetOk url username) shas) st = st\<lparr>js_assets := set shas \<union> js_assets st\<rparr>" for st
    by (induction shas arbitrary: st) simp_all
  from this [of empty_state] show ?thesis by simp
qed

lemma skip_sets_batches:
  "skip_sets url username (map (MessageBatchOk url username source) batches) =
    empty_state\<lparr>js_messages := (\<lambda>m. message_key (jm_file m) (jm_guid m)) ` set (concat batches)\<rparr>"
proof -
  have "fold (load_event url username) (map (MessageBatchOk url username source) batches) st =
      st\<lparr>js_messages := (\<lambda>m. message_key (jm_file m) (jm_guid m)) ` set (concat batches) \<union> js_messages st\<rparr>" for st
    by (induction batches arbitrary: st) (simp_all add: journal_state.equality image_Un Un_ac)
  from this [of empty_state] show ?thesis by simp
qed

lemma skip_sets_files:
  "skip_sets url username (map (FileOk url username source) fs) = empty_state\<lparr>js_files := set fs\<rparr>"
proof -
  have "fold (load_event url username) (map (FileOk url username source) fs) st = st\<lparr>js_files := set fs \<union> js_files st\<rparr>" for st
    by (induction fs arbitrary: st) simp_all
  from this [of empty_state] show ?thesis by simp
qed

lemma load_event_other: "event_target e \<noteq> (url, username) \<Longrightarrow> load_event url username e st = st"
  by (cases e) auto

lemma skip_sets_filter:
  "list_all (\<lambda>e. event_target e = (url, username) \<longrightarrow> P e) events \<Longrightarrow>
   skip_sets url username (filter P events) = skip_sets url username events"
proof -
  assume "list_all (\<lambda>e. event_target e = (url, username) \<longrightarrow> P e) events"
  then have "fold (load_event url username) (filter P events) st = fold (load_event url username) events st" for st
    by (induction events arbitrary: st) (auto simp: load_event_other)
  then show ?thesis .
qed

lemma skip_sets_none:
  "list_all (\<lambda>e. event_target e \<noteq> (url, username)) events \<Longrightarrow> skip_sets url username events = empty_state"
proof -
  assume "list_all (\<lambda>e. event_target e \<noteq> (url, username)) events"
  then have "fold (load_event url username) events st = st" for st
    by (induction events arbitrary: st) (auto simp: load_event_other)
  then show ?thesis .
qed

definition events_of :: "string \<times> string \<Rightarrow> journal_event list \<Rightarrow> journal_event list" where
  "events_of target events = filter (\<lambda>e. event_target e = target) events"

lemma compacted_same:
  assumes "state_ok st"
  shows "skip_sets url username (compacted url username st events) = st"
proof -
  have "skip_sets url username (filter (\<lambda>e. fst (event_target e) \<noteq> url \<or> snd (event_target e) \<noteq> username) events) = empty_state"
    by (rule skip_sets_none) (auto simp: list_all_iff)
  then show ?thesis
    using assms keys_of_messages [OF assms] chunks_facts [of 1000 "messages_from_state_keys st"]
    unfolding compacted_def skip_sets_append skip_sets_assets skip_sets_batches skip_sets_files
    by (simp add: state_union_def state_ok_def)
qed

lemma compacted_others:
  "target \<noteq> (url, username) \<Longrightarrow> events_of target (compacted url username st events) = events_of target events"
  by (auto simp: compacted_def events_of_def filter_empty_conv intro!: filter_cong) 

text \<open>C26: Compaction forgets nothing that matters. From any set of events, the rewritten journal gives
  this server and user exactly the skip sets of the run, and leaves the events of every other server
  or user as they were, in their order. It records at most 1,000 messages in a row, and no failure
  of this server and user stays.\<close>

theorem push_compaction:
  assumes "state_ok st"
  shows "let new = compacted url username st events
         in skip_sets url username new = st \<and>
            (\<forall>target. target = (url, username) \<or> events_of target new = events_of target events) \<and>
            list_all (\<lambda>e. case e of
                MessageBatchOk u a source messages \<Rightarrow> length messages \<le> 1000
              | Fail u a _ _ _ _ _ _ \<Rightarrow> False
              | _ \<Rightarrow> True) (events_of (url, username) new)"
proof -
  have "list_all (\<lambda>c. c \<noteq> [] \<and> length c \<le> 1000) (chunks 1000 (messages_from_state_keys st))"
    using chunks_facts [of 1000 "messages_from_state_keys st"] by simp
  then have "list_all (\<lambda>e. case e of
                MessageBatchOk u a source messages \<Rightarrow> length messages \<le> 1000
              | Fail u a _ _ _ _ _ _ \<Rightarrow> False
              | _ \<Rightarrow> True) (events_of (url, username) (compacted url username st events))"
    by (auto simp: compacted_def events_of_def list_all_iff)
  then show ?thesis
    unfolding Let_def using compacted_same [OF assms, of url username events] compacted_others [of _ url username st events]
    by blast
qed

section \<open>Histories of a run\<close>

datatype push_op =
  AssetDone append_fault string
| BatchDone append_fault string "journal_message list"
| FileDone append_fault string string
| Failed append_fault string string string string
| CompactNow fault

fun push_step ::
  "(journal_event \<Rightarrow> u8 list) \<Rightarrow> (string \<Rightarrow> journal_event option) \<Rightarrow> push_op \<Rightarrow> run_journal_state \<Rightarrow>
   run_journal_state \<times> (string + unit)" where
  "push_step ser parse (AssetDone flt sha256) run = asset_ok ser flt run sha256"
| "push_step ser parse (BatchDone flt source messages) run = message_batch_ok ser flt run source messages"
| "push_step ser parse (FileDone flt source file_name) run = file_ok ser flt run source file_name"
| "push_step ser parse (Failed flt source file_name stage_name error) run =
     (record_failure ser flt run source file_name stage_name error, Inr ())"
| "push_step ser parse (CompactNow flt) run = compact_run ser parse flt run"

text \<open>The event of an operation.\<close>

fun op_event :: "string \<Rightarrow> string \<Rightarrow> push_op \<Rightarrow> journal_event option" where
  "op_event url username (AssetDone flt sha256) = Some (AssetOk url username sha256)"
| "op_event url username (BatchDone flt source messages) = Some (MessageBatchOk url username source messages)"
| "op_event url username (FileDone flt source file_name) = Some (FileOk url username source file_name)"
| "op_event url username (Failed flt source file_name stage_name error) =
     Some (Fail url username source file_name None None stage_name error)"
| "op_event url username (CompactNow flt) = None"

text \<open>The run at the end, and the events of the operations that returned success.\<close>

fun push_run ::
  "(journal_event \<Rightarrow> u8 list) \<Rightarrow> (string \<Rightarrow> journal_event option) \<Rightarrow> run_journal_state \<Rightarrow> push_op list \<Rightarrow>
   run_journal_state \<times> journal_event list" where
  "push_run ser parse run [] = (run, [])"
| "push_run ser parse run (op # ops) =
     (let (run', result) = push_step ser parse op run;
          (end_run, told) = push_run ser parse run' ops
      in (end_run,
          (case op_event (rj_url run) (rj_username run) op of
             Some e \<Rightarrow> if result = Inr () then e # told else told
           | None \<Rightarrow> told)))"

text \<open>Events whose strings are text, as every string of the program is.\<close>

definition plain_field :: "string \<Rightarrow> bool" where
  "plain_field s \<longleftrightarrow> valid_utf8 (as_bytes s)"

definition plain_message :: "journal_message \<Rightarrow> bool" where
  "plain_message m \<longleftrightarrow> plain_field (jm_file m) \<and> plain_field (jm_guid m)"

fun plain_event :: "journal_event \<Rightarrow> bool" where
  "plain_event (AssetOk u a sha256) \<longleftrightarrow> list_all plain_field [u, a, sha256]"
| "plain_event (MessageBatchOk u a source messages) \<longleftrightarrow> list_all plain_field [u, a, source] \<and> list_all plain_message messages"
| "plain_event (FileOk u a source file_name) \<longleftrightarrow> list_all plain_field [u, a, source, file_name]"
| "plain_event (Fail u a source file_name guid sha256 stage_name error) \<longleftrightarrow>
     list_all plain_field ([u, a, source, file_name, stage_name, error] @ List.map_filter id [guid, sha256])"

definition plain_state :: "journal_state \<Rightarrow> bool" where
  "plain_state st \<longleftrightarrow> (\<forall>s \<in> js_assets st \<union> js_messages st \<union> js_files st. plain_field s)"

lemma plain_key: "plain_field (message_key f g) \<longleftrightarrow> plain_field f \<and> plain_field g"
proof -
  have key: "as_bytes (message_key f g) = as_bytes f @ 0 # as_bytes g"
    by (simp add: message_key_def as_bytes_def byte_of_char_def)
  have zero: "valid_utf8 (0 # as_bytes g) \<longleftrightarrow> valid_utf8 (as_bytes g)"
    using valid_utf8_append [of "[0]" "as_bytes g"] valid_utf8_ascii [of "[0]"]
    by (simp only: append.simps) (simp add: word_less_nat_alt)
  have "valid_utf8 (as_bytes f @ 0 # as_bytes g) \<Longrightarrow> valid_utf8 (as_bytes f)"
    by (erule valid_utf8_cut) (simp add: word_less_nat_alt)
  then show ?thesis
    using valid_utf8_append [of "as_bytes f" "0 # as_bytes g"] unfolding plain_field_def key zero by blast
qed

lemma state_ok_union: "state_ok (state_union a b) \<longleftrightarrow> state_ok a \<and> state_ok b"
  by (auto simp: state_ok_def state_union_def)

lemma plain_state_union: "plain_state (state_union a b) \<longleftrightarrow> plain_state a \<and> plain_state b"
  by (auto simp: plain_state_def state_union_def)

lemma adds_good:
  "state_ok (adds url username e)"
  "plain_event e \<Longrightarrow> plain_state (adds url username e)"
  by (cases e; auto simp: adds_def state_ok_def message_key_def)
     (cases e; auto simp: adds_def plain_state_def plain_key plain_message_def list_all_iff)

lemma skip_sets_Cons: "skip_sets url username (e # es) = state_union (adds url username e) (skip_sets url username es)"
  using skip_sets_append [of url username "[e]" es] by (simp add: adds_def)

lemma skip_sets_snoc: "skip_sets url username (es @ [e]) = state_union (skip_sets url username es) (adds url username e)"
  using skip_sets_append [of url username es "[e]"] by (simp add: adds_def)

lemma skip_sets_good:
  "state_ok (skip_sets url username es)"
  "list_all plain_event es \<Longrightarrow> plain_state (skip_sets url username es)"
proof -
  show "state_ok (skip_sets url username es)"
    by (induction es) (simp add: state_ok_def, simp only: skip_sets_Cons state_ok_union adds_good)
  show "list_all plain_event es \<Longrightarrow> plain_state (skip_sets url username es)"
    by (induction es) (simp add: plain_state_def, simp only: skip_sets_Cons plain_state_union adds_good list.pred_inject)
qed

lemma plain_compacted:
  assumes "list_all plain_event events" and "state_ok st" and "plain_state st" and "plain_field url" and "plain_field username"
  shows "list_all plain_event (compacted url username st events)"
proof -
  have "plain_message m" if "m \<in> set (messages_from_state_keys st)" for m
  proof -
    have "message_key (jm_file m) (jm_guid m) \<in> js_messages st"
      using keys_of_messages [OF assms(2)] that by blast
    then have "plain_field (message_key (jm_file m) (jm_guid m))" using assms(3) by (simp add: plain_state_def)
    then show ?thesis by (simp add: plain_message_def plain_key)
  qed
  moreover have "set batch \<subseteq> set (messages_from_state_keys st)" if "batch \<in> set (chunks 1000 (messages_from_state_keys st))" for batch
    using chunks_facts [of 1000 "messages_from_state_keys st"] that set_concat [of "chunks 1000 (messages_from_state_keys st)"]
    by auto
  ultimately have "list_all (list_all plain_message) (chunks 1000 (messages_from_state_keys st))"
    unfolding list_all_iff by blast
  moreover have "plain_field []" by (simp add: plain_field_def)
  ultimately have batches: "list_all plain_event (map (MessageBatchOk url username []) (chunks 1000 (messages_from_state_keys st)))"
    using assms(4,5) by (simp add: list_all_iff)
  have "list_all plain_field (sorted_list_of_set (js_assets st))" "list_all plain_field (sorted_list_of_set (js_files st))"
    using assms(2,3) by (simp_all add: plain_state_def state_ok_def list_all_iff)
  then have "list_all plain_event (map (AssetOk url username) (sorted_list_of_set (js_assets st)))"
    "list_all plain_event (map (FileOk url username []) (sorted_list_of_set (js_files st)))"
    using assms(4,5) \<open>plain_field []\<close> by (simp_all add: list_all_iff)
  moreover have "list_all plain_event (filter P events)" for P using assms(1) by (simp add: list_all_iff)
  ultimately show ?thesis using batches by (simp only: compacted_def list_all_append)
qed

fun op_fault :: "push_op \<Rightarrow> append_fault" where
  "op_fault (AssetDone flt sha256) = flt"
| "op_fault (BatchDone flt source messages) = flt"
| "op_fault (FileDone flt source file_name) = flt"
| "op_fault (Failed flt source file_name stage_name error) = flt"
| "op_fault (CompactNow flt) = AppendWorks"

lemma push_step_event:
  assumes "op_event (rj_url run) (rj_username run) op = Some e"
    and "append ser (op_fault op) (rj_file run) e = (j, r)"
  shows "\<exists>r'. push_step ser parse op run =
      (run\<lparr>rj_state := load_event (rj_url run) (rj_username run) e (rj_state run), rj_file := j\<rparr>, r') \<and>
    (r' = r \<or> adds (rj_url run) (rj_username run) e = empty_state)"
  using assms
  by (cases op)
     (auto simp: asset_ok_def message_batch_ok_def file_ok_def record_failure_def append_to_run_def Let_def adds_def)

lemma state_le_simps [simp]:
  "state_le a a" "state_le empty_state a" "state_le a (state_union a b)" "state_le b (state_union a b)"
  by (auto simp: state_le_def state_union_def)

lemma state_le_trans: "state_le a b \<Longrightarrow> state_le b c \<Longrightarrow> state_le a c"
  by (auto simp: state_le_def)

lemma state_le_union_mono: "state_le a b \<Longrightarrow> state_le c d \<Longrightarrow> state_le (state_union a c) (state_union b d)"
  by (auto simp: state_le_def state_union_def)

lemma state_le_union: "state_le (state_union a b) c \<longleftrightarrow> state_le a c \<and> state_le b c"
  by (auto simp: state_le_def state_union_def)

text \<open>
  The invariant of a run: the file reads as events that give at least \<open>lower\<close> and at most \<open>upper\<close>
  with what is in memory, and as many for everybody else as at the start; a line that is not text is
  one of \<open>torn\<close>.
\<close>

definition run_inv ::
  "(string \<Rightarrow> journal_event option) \<Rightarrow> u8 list set \<Rightarrow> string \<Rightarrow> string \<Rightarrow> journal_event list \<Rightarrow>
   journal_state \<Rightarrow> journal_state \<Rightarrow> run_journal_state \<Rightarrow> bool" where
  "run_inv parse torn url username first lower upper run \<longleftrightarrow>
     (\<exists>events. reads parse torn (rj_file run) events \<and> list_all plain_event events \<and>
        rj_url run = url \<and> rj_username run = username \<and> state_ok (rj_state run) \<and> plain_state (rj_state run) \<and>
        state_le lower (skip_sets url username events) \<and>
        state_le (skip_sets url username events) (state_union upper (rj_state run)) \<and>
        state_le lower (rj_state run) \<and>
        (\<forall>target. target = (url, username) \<or> events_of target events = events_of target first))"

lemma run_inv_event:
  assumes codec: "codec_ok plain_event ser parse" and inv: "run_inv parse torn url username first lower upper run"
    and op: "op_event url username op = Some e" "plain_event e" "torn_rows ser [e] \<subseteq> torn"
    and step: "push_step ser parse op run = (run', result)"
  shows "run_inv parse torn url username first (if result = Inr () then state_union lower (adds url username e) else lower) upper run'"
proof -
  obtain events where ev: "reads parse torn (rj_file run) events" "list_all plain_event events"
    "rj_url run = url" "rj_username run = username" "state_ok (rj_state run)" "plain_state (rj_state run)"
    and low: "state_le lower (skip_sets url username events)"
    and up: "state_le (skip_sets url username events) (state_union upper (rj_state run))"
    and mem: "state_le lower (rj_state run)"
    and others: "\<And>target. target = (url, username) \<or> events_of target events = events_of target first"
    using inv unfolding run_inv_def by blast
  obtain j r where app: "append ser (op_fault op) (rj_file run) e = (j, r)" by fastforce
  have run': "run' = run\<lparr>rj_state := state_union (rj_state run) (adds url username e), rj_file := j\<rparr>"
    and r: "result = r \<or> adds url username e = empty_state"
    using push_step_event [OF _ app, of parse] op ev(3,4) step by (auto simp: load_event_union [of _ _ e])
  have target: "event_target e = (url, username)" using op(1) by (cases op) auto
  have mem': "state_ok (rj_state run')" "plain_state (rj_state run')"
    using ev op(2) adds_good by (simp_all add: run' state_ok_union plain_state_union)
  have in_memory: "state_le (if result = Inr () then state_union lower (adds url username e) else lower) (rj_state run')"
    using mem by (auto simp: run' state_le_def state_union_def)
  consider "reads parse torn j (events @ [e])" | "reads parse torn j events" "r \<noteq> Inr ()"
    using reads_append [OF codec op(2) ev(1) op(3) app] by blast
  then show ?thesis
  proof cases
    case 1
    have "state_le (if result = Inr () then state_union lower (adds url username e) else lower) (skip_sets url username (events @ [e]))"
      unfolding skip_sets_snoc using low by (auto simp: state_le_def state_union_def)
    moreover have "state_le (skip_sets url username (events @ [e])) (state_union upper (rj_state run'))"
      unfolding skip_sets_snoc using up by (auto simp: state_le_def state_union_def run')
    moreover have "target = (url, username) \<or> events_of target (events @ [e]) = events_of target first" for target
      using others [of target] target by (auto simp: events_of_def)
    ultimately show ?thesis
      unfolding run_inv_def using 1 ev op(2) mem' in_memory
      by (intro exI [of _ "events @ [e]"]) (simp add: run')
  next
    case 2
    have "state_le (if result = Inr () then state_union lower (adds url username e) else lower) (skip_sets url username events)"
      using low r 2(2) by auto
    moreover have "state_le (skip_sets url username events) (state_union upper (rj_state run'))"
      using up by (auto simp: state_le_def state_union_def run')
    ultimately show ?thesis
      unfolding run_inv_def using 2 ev mem' in_memory others by (intro exI [of _ events]) (simp add: run')
  qed
qed

lemma run_inv_compact:
  assumes codec: "codec_ok plain_event ser parse" and inv: "run_inv parse torn url username first lower upper run"
    and plain: "plain_field url" "plain_field username"
    and step: "push_step ser parse (CompactNow flt) run = (run', result)"
  shows "run_inv parse torn url username first lower upper run'"
proof -
  obtain events where ev: "reads parse torn (rj_file run) events" "list_all plain_event events"
    "rj_url run = url" "rj_username run = username" "state_ok (rj_state run)" "plain_state (rj_state run)"
    and inv2: "state_le lower (skip_sets url username events)"
      "state_le (skip_sets url username events) (state_union upper (rj_state run))"
    and mem: "state_le lower (rj_state run)"
    and others: "\<And>target. target = (url, username) \<or> events_of target events = events_of target first"
    using inv unfolding run_inv_def by blast
  let ?new = "compacted url username (rj_state run) events"
  have new: "list_all plain_event ?new" using plain_compacted ev plain by simp
  obtain j where run': "run' = run\<lparr>rj_file := j\<rparr>"
    and comp: "compact_with ''journal'' journal_name ser parse flt (rj_file run) (compacted url username (rj_state run)) = (j, result)"
    using step ev(3,4) by (auto simp: compact_run_def compact_def split: prod.splits)
  consider "reads parse torn j ?new" | "reads parse torn j events"
    using reads_compact [OF codec _ ev(1) comp] new by blast
  then show ?thesis
  proof cases
    case 1
    have "target = (url, username) \<or> events_of target ?new = events_of target first" for target
      using others [of target] compacted_others [of target url username "rj_state run" events] by argo
    then show ?thesis
      unfolding run_inv_def using 1 ev mem new compacted_same [OF ev(5), of url username events]
      by (intro exI [of _ ?new]) (simp add: run')
  next
    case 2
    then show ?thesis using inv2 ev others mem unfolding run_inv_def by (intro exI [of _ events]) (simp add: run')
  qed
qed

text \<open>The rows a run tries.\<close>

definition op_events :: "string \<Rightarrow> string \<Rightarrow> push_op list \<Rightarrow> journal_event list" where
  "op_events url username ops = List.map_filter (op_event url username) ops"

lemma run_inv_run:
  assumes codec: "codec_ok plain_event ser parse" and plain: "plain_field url" "plain_field username"
  shows "run_inv parse torn url username first lower upper run \<Longrightarrow>
    list_all plain_event (op_events url username ops) \<Longrightarrow>
    torn_rows ser (op_events url username ops) \<subseteq> torn \<Longrightarrow>
    push_run ser parse run ops = (run', told) \<Longrightarrow>
    run_inv parse torn url username first (state_union lower (skip_sets url username told)) upper run'"
proof (induction ops arbitrary: run lower told)
  case (Cons op ops)
  obtain run1 result where step: "push_step ser parse op run = (run1, result)" by fastforce
  obtain told1 where rest: "push_run ser parse run1 ops = (run', told1)"
    and told: "told = (case op_event (rj_url run) (rj_username run) op of
        Some e \<Rightarrow> if result = Inr () then e # told1 else told1 | None \<Rightarrow> told1)"
    using Cons.prems(4) by (auto simp: step split: prod.splits)
  have target: "rj_url run = url" "rj_username run = username" using Cons.prems(1) by (auto simp: run_inv_def)
  have ops: "list_all plain_event (op_events url username ops)" "torn_rows ser (op_events url username ops) \<subseteq> torn"
    using Cons.prems(2,3) by (auto simp: op_events_def torn_rows_def split: option.splits)
  show ?case
  proof (cases "op_event url username op")
    case None
    then obtain flt where "op = CompactNow flt" by (cases op) auto
    then have "run_inv parse torn url username first lower upper run1"
      using run_inv_compact [OF codec Cons.prems(1) plain] step by simp
    then show ?thesis using Cons.IH [OF _ ops rest] None told target by simp
  next
    case (Some e)
    then have e: "plain_event e" "torn_rows ser [e] \<subseteq> torn"
      using Cons.prems(2,3) by (auto simp: op_events_def torn_rows_def)
    from Cons.IH [OF run_inv_event [OF codec Cons.prems(1) Some e step] ops rest]
    moreover have "told = (if result = Inr () then e # told1 else told1)" using told target Some by simp
    ultimately show ?thesis unfolding skip_sets_Cons [of _ _ e told1]
      by (cases "result = Inr ()") (simp_all only: if_True if_False skip_sets_Cons [of _ _ e told1] state_union_assoc refl)
  qed
qed simp

lemma skip_sets_events_of: "skip_sets u a (events_of (u, a) events) = skip_sets u a events"
  unfolding events_of_def by (rule skip_sets_filter) (simp add: list_all_iff)

lemma reads_load_state:
  assumes "reads parse torn j events"
  shows "load_state parse j u a = Inr (skip_sets u a events) \<or>
    (\<exists>e. load_state parse j u a = Inl e) \<and> holds_line torn j"
  using reads_load [OF assms, of "''journal''"] by (auto simp: load_state_def)

text \<open>A journal whose every line is text.\<close>

lemma reads_text_state: "reads parse {} j events \<Longrightarrow> load_state parse j u a = Inr (skip_sets u a events)"
  using reads_load_state [of parse "{}" j events] by (simp add: holds_line_def)


section \<open>A sample format\<close>

text \<open>Not JSON, but with what the model asks of it: the strings of an event in hexadecimal, each
  closed by a comma, the row closed by a brace.\<close>

definition hex_pair :: "char \<Rightarrow> string" where
  "hex_pair c = [char_of (65 + of_char c div 16 :: nat), char_of (65 + of_char c mod 16 :: nat)]"

fun unhex :: "string \<Rightarrow> string option" where
  "unhex [] = Some []"
| "unhex [c] = None"
| "unhex (a # b # s) = map_option (\<lambda>t. char_of ((of_char a - 65) * 16 + (of_char b - 65) :: nat) # t) (unhex s)"

definition ser_fields :: "string list \<Rightarrow> string" where
  "ser_fields fs = concat (map (\<lambda>f. concat (map hex_pair f) @ '','') fs) @ ''}''"

fun parse_fields :: "string \<Rightarrow> string \<Rightarrow> string list option" where
  "parse_fields acc [] = None"
| "parse_fields acc (c # s) =
     (if c = CHR ''}'' then (if s = [] \<and> acc = [] then Some [] else None)
      else if c = CHR '','' then
        (case unhex acc of None \<Rightarrow> None | Some f \<Rightarrow> map_option (Cons f) (parse_fields [] s))
      else parse_fields (acc @ [c]) s)"

fun opt_fields :: "string option \<Rightarrow> string list" where
  "opt_fields None = [''0'']"
| "opt_fields (Some s) = [''1'', s]"

fun event_fields :: "journal_event \<Rightarrow> string list" where
  "event_fields (AssetOk u a sha256) = [''a'', u, a, sha256]"
| "event_fields (MessageBatchOk u a source messages) =
     [''b'', u, a, source] @ concat (map (\<lambda>m. [jm_file m, jm_guid m]) messages)"
| "event_fields (FileOk u a source file_name) = [''f'', u, a, source, file_name]"
| "event_fields (Fail u a source file_name guid sha256 stage_name error) =
     [''x'', u, a, source, file_name, stage_name, error] @ opt_fields guid @ opt_fields sha256"

fun fields_messages :: "string list \<Rightarrow> journal_message list option" where
  "fields_messages [] = Some []"
| "fields_messages [f] = None"
| "fields_messages (f # g # rest) = map_option (\<lambda>ms. \<lparr>jm_file = f, jm_guid = g\<rparr> # ms) (fields_messages rest)"

fun take_option :: "string list \<Rightarrow> (string option \<times> string list) option" where
  "take_option [] = None"
| "take_option (t # rest) =
     (if t = ''0'' then Some (None, rest) else case rest of [] \<Rightarrow> None | s # rest' \<Rightarrow> Some (Some s, rest'))"

definition fields_event :: "string list \<Rightarrow> journal_event option" where
  "fields_event fs =
     (case fs of
        t # u # a # x # rest \<Rightarrow>
          if t = ''a'' \<and> rest = [] then Some (AssetOk u a x)
          else if t = ''b'' then map_option (MessageBatchOk u a x) (fields_messages rest)
          else if t = ''f'' then (case rest of [file_name] \<Rightarrow> Some (FileOk u a x file_name) | _ \<Rightarrow> None)
          else
            (case rest of
               file_name # stage_name # error # left \<Rightarrow>
                 (case take_option left of
                    Some (guid, left') \<Rightarrow>
                      (case take_option left' of
                         Some (sha256, []) \<Rightarrow> Some (Fail u a x file_name guid sha256 stage_name error)
                       | _ \<Rightarrow> None)
                  | None \<Rightarrow> None)
             | _ \<Rightarrow> None)
      | _ \<Rightarrow> None)"

definition hex_row :: "journal_event \<Rightarrow> u8 list" where
  "hex_row e = as_bytes (ser_fields (event_fields e))"

definition hex_event :: "string \<Rightarrow> journal_event option" where
  "hex_event line = (case parse_fields [] line of None \<Rightarrow> None | Some fs \<Rightarrow> fields_event fs)"

lemma fields_event_fields: "fields_event (event_fields e) = Some e"
proof (cases e)
  case (MessageBatchOk u a source messages)
  have "fields_messages (concat (map (\<lambda>m. [jm_file m, jm_guid m]) messages)) = Some messages"
    by (induction messages) simp_all
  then show ?thesis by (simp add: fields_event_def MessageBatchOk)
next
  case (Fail u a source file_name guid sha256 stage_name error)
  then show ?thesis by (cases guid; cases sha256) (simp_all add: fields_event_def)
qed (simp_all add: fields_event_def)

lemma of_char_div_16: "of_char c div 16 < (16 :: nat)"
  using of_char_less_256 [of c] by linarith

lemma hex_pair_range: "h \<in> set (hex_pair c) \<Longrightarrow> 65 \<le> (of_char h :: nat) \<and> of_char h < (81 :: nat)"
  using of_char_div_16 [of c] by (auto simp: hex_pair_def)

lemma unhex_hex: "unhex (concat (map hex_pair s)) = Some s"
proof (induction s)
  case (Cons c s)
  have "(of_char (char_of (65 + of_char c div 16 :: nat)) :: nat) = 65 + of_char c div 16"
    "(of_char (char_of (65 + of_char c mod 16 :: nat)) :: nat) = 65 + of_char c mod 16"
    using of_char_div_16 [of c] by simp_all
  then show ?case using Cons by (simp add: hex_pair_def)
qed simp

lemma hex_pair_plain: "h \<in> set (concat (map hex_pair s)) \<Longrightarrow> h \<noteq> CHR '','' \<and> h \<noteq> CHR ''}'' \<and> h \<noteq> CHR 0x0A \<and> h \<noteq> CHR 0x0D \<and> of_char h < (128 :: nat)"
proof -
  assume "h \<in> set (concat (map hex_pair s))"
  then have "65 \<le> (of_char h :: nat) \<and> of_char h < (81 :: nat)" using hex_pair_range by auto
  then show ?thesis by auto
qed

lemma parse_fields_hex:
  "list_all (\<lambda>h. h \<noteq> CHR '','' \<and> h \<noteq> CHR ''}'') hs \<Longrightarrow> parse_fields acc (hs @ s) = parse_fields (acc @ hs) s"
  by (induction hs arbitrary: acc) simp_all

lemma parse_ser_fields: "parse_fields [] (ser_fields fs) = Some fs"
proof (induction fs)
  case (Cons f fs)
  have "list_all (\<lambda>h. h \<noteq> CHR '','' \<and> h \<noteq> CHR ''}'') (concat (map hex_pair f))"
    using hex_pair_plain [of _ f] unfolding list_all_iff by blast
  then show ?case using Cons by (simp add: ser_fields_def parse_fields_hex unhex_hex)
qed (simp add: ser_fields_def)

lemma parse_fields_open: "CHR ''}'' \<notin> set s \<Longrightarrow> parse_fields acc s = None"
  by (induction acc s rule: parse_fields.induct) (auto split: option.splits)

lemma ser_fields_chars: "h \<in> set (butlast (ser_fields fs)) \<Longrightarrow> h \<noteq> CHR ''}'' \<and> h \<noteq> CHR 0x0A \<and> h \<noteq> CHR 0x0D \<and> of_char h < (128 :: nat)"
proof -
  assume "h \<in> set (butlast (ser_fields fs))"
  then consider "h = CHR '',''" | f where "h \<in> set (concat (map hex_pair f))"
    by (auto simp: ser_fields_def butlast_append split: if_splits)
  then show ?thesis by cases (simp, use hex_pair_plain in blast)
qed

lemma hex_row_open: "\<exists>s. ser_fields (event_fields e) = s @ ''}'' \<and> hex_row e = as_bytes s @ [125] \<and>
    (\<forall>c \<in> set s. c \<noteq> CHR ''}'' \<and> c \<noteq> CHR 0x0A \<and> c \<noteq> CHR 0x0D \<and> of_char c < (128 :: nat))"
proof -
  obtain s where s: "ser_fields (event_fields e) = s @ ''}''" by (simp add: ser_fields_def)
  then show ?thesis using ser_fields_chars [of _ "event_fields e"]
    by (intro exI [of _ s]) (simp add: hex_row_def byte_of_char_def)
qed

lemma hex_row_ascii: "b \<in> set (hex_row e) \<Longrightarrow> b < 128 \<and> b \<noteq> 13 \<and> b \<noteq> 10"
proof -
  assume b: "b \<in> set (hex_row e)"
  obtain s where s: "hex_row e = as_bytes s @ [125]"
    "\<And>c. c \<in> set s \<Longrightarrow> c \<noteq> CHR 0x0A \<and> c \<noteq> CHR 0x0D \<and> of_char c < (128 :: nat)"
    using hex_row_open [of e] by blast
  have char: "byte_of_char c < 128 \<and> byte_of_char c \<noteq> 13 \<and> byte_of_char c \<noteq> 10" if c: "c \<in> set s" for c
  proof -
    have "char_of_byte 13 = CHR 0x0D" "char_of_byte 10 = CHR 0x0A" by code_simp+
    then have "byte_of_char c \<noteq> 13" "byte_of_char c \<noteq> 10"
      using s(2) [OF c] char_of_byte_of_char [of c] by metis+
    moreover have "byte_of_char c < 128"
      using s(2) [OF c] by (simp add: byte_of_char_def word_less_nat_alt unat_of_nat)
    ultimately show ?thesis by blast
  qed
  show ?thesis using b char by (auto simp: s(1) as_bytes_def)
qed

lemma push_sample_codec: "codec_ok plain_event hex_row hex_event"
proof -
  have "valid_utf8 (hex_row e) \<and> 13 \<notin> set (hex_row e) \<and> 10 \<notin> set (hex_row e) \<and> trim (of_bytes (hex_row e)) \<noteq> [] \<and>
      hex_event (of_bytes (hex_row e)) = Some e \<and>
      (\<forall>n < length (hex_row e). hex_event (of_bytes (take n (hex_row e))) = None)" for e
  proof -
    obtain s where s: "ser_fields (event_fields e) = s @ ''}''" "hex_row e = as_bytes s @ [125]"
      and chars: "\<And>c. c \<in> set s \<Longrightarrow> c \<noteq> CHR ''}''"
      using hex_row_open [of e] by blast
    have "valid_utf8 (hex_row e)" "13 \<notin> set (hex_row e)" "10 \<notin> set (hex_row e)"
      using hex_row_ascii [of _ e] by (auto intro!: valid_utf8_ascii)
    moreover have "trim (s @ ''}'') \<noteq> []"
    proof
      assume "trim (s @ ''}'') = []"
      then have "filter (\<lambda>c. c = CHR ''}'') (s @ ''}'') = []"
        using trim_filter [of "\<lambda>c. c = CHR ''}''" "s @ ''}''"] by (simp add: visible_def ord_def)
      then show False by simp
    qed
    moreover have "of_bytes (hex_row e) = s @ ''}''" by (simp only: hex_row_def s(1) of_bytes_as_bytes)
    ultimately have "trim (of_bytes (hex_row e)) \<noteq> []" "valid_utf8 (hex_row e)" "13 \<notin> set (hex_row e)" "10 \<notin> set (hex_row e)"
      by simp_all
    moreover have "hex_event (of_bytes (take n (hex_row e))) = None" if "n < length (hex_row e)" for n
    proof -
      have "of_bytes (take n (hex_row e)) = take n s"
        using that by (simp add: s(2) of_bytes_def as_bytes_def take_map comp_def)
      moreover have "CHR ''}'' \<notin> set (take n s)" using chars by (auto dest: in_set_takeD)
      ultimately show ?thesis by (simp add: hex_event_def parse_fields_open)
    qed
    moreover have "hex_event (of_bytes (hex_row e)) = Some e"
      by (simp add: hex_row_def hex_event_def parse_ser_fields fields_event_fields)
    ultimately show ?thesis by simp
  qed
  then show ?thesis unfolding codec_ok_def by simp
qed

lemma push_compaction_witness:
  "let st = \<lparr>js_assets = {''9f''}, js_messages = {message_key ''a.json'' ''g1''}, js_files = {''a.json''}\<rparr>;
       events = [AssetOk ''v'' ''bob'' ''11'', AssetOk ''u'' ''ann'' ''00'']
   in skip_sets ''u'' ''ann'' (compacted ''u'' ''ann'' st events) = st \<and>
      events_of (''v'', ''bob'') (compacted ''u'' ''ann'' st events) = [AssetOk ''v'' ''bob'' ''11'']"
proof -
  let ?st = "\<lparr>js_assets = {''9f''}, js_messages = {message_key ''a.json'' ''g1''}, js_files = {''a.json''}\<rparr>"
  let ?events = "[AssetOk ''v'' ''bob'' ''11'', AssetOk ''u'' ''ann'' ''00'']"
  have "state_ok ?st" by (simp add: state_ok_def message_key_def)
  note fact = push_compaction [OF this, of "''u''" "''ann''" ?events, unfolded Let_def]
  have "events_of (''v'', ''bob'') ?events = [AssetOk ''v'' ''bob'' ''11'']" by (simp add: events_of_def)
  then show ?thesis unfolding Let_def using fact [THEN conjunct1] fact [THEN conjunct2, THEN conjunct1, rule_format, of "(''v'', ''bob'')"]
    by simp
qed


end
