(* ===== verification/ReadJson.thy ===== *)
theory ReadJson
  imports WriteQueue Journal
begin

text \<open>
  Reading a conversation file back (\<open>crates/libs/ir-format/src/read_json.rs\<close>, the stem suffix of
  \<open>util.rs\<close> and the version check of \<open>crates/libs/ir/src/schema_version.rs\<close>). serde\_json gives
  three parameters: the version a line carries, the header and the message of a line. What the
  writer of theory WriteQueue wrote reads back as the document (\<open>written_file_reads_back\<close>).
\<close>

section \<open>The version\<close>

definition check_schema_version :: "u32 \<Rightarrow> string + unit" where
  "check_schema_version found =
     (if found = SCHEMA_VERSION then Inr ()
      else Inl (''This file is schema version '' @ dec_string (unat found) @ ''; Message Crate reads version '' @
        dec_string (unat SCHEMA_VERSION)))"

definition check_schema_version_in_json :: "(string \<Rightarrow> u32 option) \<Rightarrow> string \<Rightarrow> string + unit" where
  "check_schema_version_in_json peek json =
     (case peek json of Some found \<Rightarrow> check_schema_version found | None \<Rightarrow> Inr ())"

section \<open>The stem suffix\<close>

definition recover_stem_suffix ::
  "(u8 list \<Rightarrow> u8 list) \<Rightarrow> 'x conversation_document \<Rightarrow> string option \<Rightarrow> 'x conversation_document" where
  "recover_stem_suffix sha doc file_stem =
     (if doc_packaging_stem_suffix doc \<noteq> None then doc
      else
        (case file_stem of
           None \<Rightarrow> doc
         | Some stem \<Rightarrow>
             (let base = filename_stem sha doc
              in if base = [] then doc
                 else if starts_with base stem \<and> 2 < length (drop (length base) stem) \<and>
                   starts_with ''__'' (drop (length base) stem)
                 then doc\<lparr>doc_packaging_stem_suffix := Some (drop (length base) stem)\<rparr>
                 else doc)))"

section \<open>The lines\<close>

text \<open>The messages with the lines they stand on, counted from 1; the first of \<open>lines\<close> is line \<open>n\<close>.\<close>

fun read_message_lines ::
  "(string \<Rightarrow> 'x ir_message option) \<Rightarrow> string \<Rightarrow> nat \<Rightarrow> u8 list list \<Rightarrow> string + 'x ir_message list \<times> nat list" where
  "read_message_lines parse path n [] = Inr ([], [])"
| "read_message_lines parse path n (line # rest) =
     (if \<not> valid_utf8 line then Inl (''read JSONL line '' @ dec_string n @ '' in '' @ path)
      else if trim (of_bytes line) = [] then read_message_lines parse path (n + 1) rest
      else
        (case parse (of_bytes line) of
           None \<Rightarrow> Inl (''parse JSONL message line '' @ dec_string n @ '' in '' @ path)
         | Some msg \<Rightarrow>
             map_res (\<lambda>(msgs, lines). (msg # msgs, n # lines)) (read_message_lines parse path (n + 1) rest)))"

definition read_conversation_jsonl_with_lines ::
  "(u8 list \<Rightarrow> u8 list) \<Rightarrow> (string \<Rightarrow> u32 option) \<Rightarrow> (string \<Rightarrow> conversation_header option) \<Rightarrow>
   (string \<Rightarrow> 'x ir_message option) \<Rightarrow> string \<Rightarrow> string option \<Rightarrow> u8 list option \<Rightarrow>
   string + 'x conversation_document \<times> nat list" where
  "read_conversation_jsonl_with_lines sha peek parse_header parse_message path file_stem content =
     (case content of
        None \<Rightarrow> Inl (''open '' @ path)
      | Some bytes \<Rightarrow>
          (case file_lines bytes of
             [] \<Rightarrow> Inl (''empty JSONL: '' @ path)
           | header_line # rest \<Rightarrow>
               if \<not> valid_utf8 header_line then Inl (''read JSONL header '' @ path)
               else
                 bind_res (map_err (\<lambda>_. ''read '' @ path) (check_schema_version_in_json peek (of_bytes header_line))) (\<lambda>_.
                   case parse_header (of_bytes header_line) of
                     None \<Rightarrow> Inl (''parse JSONL header '' @ path)
                   | Some header \<Rightarrow>
                       bind_res (read_message_lines parse_message path 2 rest) (\<lambda>(messages, message_lines).
                         if messages = [] then Inl (''JSONL has no message lines: '' @ path)
                         else Inr (recover_stem_suffix sha (into_document header messages) file_stem, message_lines)))))"

definition read_conversation_jsonl ::
  "(u8 list \<Rightarrow> u8 list) \<Rightarrow> (string \<Rightarrow> u32 option) \<Rightarrow> (string \<Rightarrow> conversation_header option) \<Rightarrow>
   (string \<Rightarrow> 'x ir_message option) \<Rightarrow> string \<Rightarrow> string option \<Rightarrow> u8 list option \<Rightarrow> string + 'x conversation_document" where
  "read_conversation_jsonl sha peek parse_header parse_message path file_stem content =
     map_res fst (read_conversation_jsonl_with_lines sha peek parse_header parse_message path file_stem content)"

text \<open>A JSON file: one document; \<open>content\<close> is its text, or the error of reading it.\<close>

definition read_conversation_json ::
  "(u8 list \<Rightarrow> u8 list) \<Rightarrow> (string \<Rightarrow> u32 option) \<Rightarrow> (string \<Rightarrow> 'x conversation_document option) \<Rightarrow>
   string \<Rightarrow> string option \<Rightarrow> string + string \<Rightarrow> string + 'x conversation_document" where
  "read_conversation_json sha peek parse_document path file_stem content =
     bind_res (map_err (\<lambda>_. ''read '' @ path) content) (\<lambda>raw.
     bind_res (map_err (\<lambda>_. ''read '' @ path) (check_schema_version_in_json peek raw)) (\<lambda>_.
     case parse_document raw of
       None \<Rightarrow> Inl (''parse ConversationDocument '' @ path)
     | Some doc \<Rightarrow> Inr (finalize_stats (recover_stem_suffix sha doc file_stem))))"

section \<open>What was written reads back\<close>

lemma with_suffix_append: "with_suffix stem sfx = with_suffix stem None @ (case sfx of None \<Rightarrow> [] | Some s \<Rightarrow> s)"
  by (simp add: with_suffix_def split: option.split)

lemma filename_stem_suffix:
  "filename_stem sha doc =
    filename_stem sha (doc\<lparr>doc_packaging_stem_suffix := None\<rparr>) @
    (case doc_packaging_stem_suffix doc of None \<Rightarrow> [] | Some s \<Rightarrow> s)"
  unfolding filename_stem_def conversation_stem_def Let_def
  by (simp add: with_suffix_append [of _ "doc_packaging_stem_suffix doc"] split: option.split)

text \<open>A suffix that can be told from the stem: what \<open>clash_suffix\<close> and the exporters use.\<close>

definition suffix_readable :: "(u8 list \<Rightarrow> u8 list) \<Rightarrow> 'x conversation_document \<Rightarrow> bool" where
  "suffix_readable sha doc \<longleftrightarrow>
     (case doc_packaging_stem_suffix doc of
        None \<Rightarrow> True
      | Some s \<Rightarrow> starts_with ''__'' s \<and> 2 < length s \<and> filename_stem sha (doc\<lparr>doc_packaging_stem_suffix := None\<rparr>) \<noteq> [])"

lemma suffix_recovered:
  assumes "suffix_readable sha doc"
  shows "recover_stem_suffix sha (doc\<lparr>doc_packaging_stem_suffix := None\<rparr>) (Some (filename_stem sha doc)) = doc"
proof (cases "doc_packaging_stem_suffix doc")
  case None
  then show ?thesis using filename_stem_suffix [of sha doc]
    by (auto simp: recover_stem_suffix_def Let_def)
next
  case (Some s)
  then show ?thesis using filename_stem_suffix [of sha doc] assms
    by (simp add: recover_stem_suffix_def Let_def suffix_readable_def starts_with_def)
qed

text \<open>What serde promises of one line: text without a line break, not blank, that reads back.\<close>

definition row_text :: "u8 list \<Rightarrow> bool" where
  "row_text row \<longleftrightarrow> valid_utf8 row \<and> 10 \<notin> set row \<and> 13 \<notin> set row \<and> trim (of_bytes row) \<noteq> []"

definition json_reads_back ::
  "'x tools \<Rightarrow> (string \<Rightarrow> u32 option) \<Rightarrow> (string \<Rightarrow> conversation_header option) \<Rightarrow> (string \<Rightarrow> 'x ir_message option) \<Rightarrow>
   'x conversation_document \<Rightarrow> bool" where
  "json_reads_back P peek parse_header parse_message doc \<longleftrightarrow>
     (let h = from_document doc
      in row_text (t_header_json P h) \<and> peek (of_bytes (t_header_json P h)) = Some (hd_schema_version h) \<and>
         parse_header (of_bytes (t_header_json P h)) = Some h) \<and>
     list_all (\<lambda>m. row_text (t_message_json P m) \<and> parse_message (of_bytes (t_message_json P m)) = Some m)
       (doc_messages doc)"

lemma file_lines_row: "row_text row \<Longrightarrow> file_lines (row @ 10 # rest) = row # file_lines rest"
  by (simp add: row_text_def file_lines_def lines_from_row strip_cr_plain)

lemma file_lines_jsonl_rows:
  "list_all (\<lambda>m. row_text (t_message_json P m)) msgs \<Longrightarrow>
   file_lines (concat (map (\<lambda>msg. t_message_json P msg @ [10]) msgs)) = map (t_message_json P) msgs"
  by (induction msgs) (simp_all add: file_lines_row, simp add: file_lines_def)

lemma read_message_lines_rows:
  "list_all (\<lambda>m. row_text (t_message_json P m) \<and> parse (of_bytes (t_message_json P m)) = Some m) msgs \<Longrightarrow>
   read_message_lines parse path n (map (t_message_json P) msgs) = Inr (msgs, [n..<n + length msgs])"
  by (induction msgs arbitrary: n) (simp_all add: row_text_def upt_rec)

text \<open>C40: What the write queue wrote reads back as the same conversation. Take a document of the
  current schema with at least one message, whose lines serde reads back, and whose stem suffix, if
  it has one, begins with two underscores and goes on. The JSON Lines bytes the queue writes for it,
  read under the file name it gives it, are the document with its stats, suffix included, and
  message number i is said to stand on line i + 2.\<close>

theorem written_file_reads_back:
  assumes "json_reads_back P peek parse_header parse_message (finalize_stats doc)"
    and "doc_schema_version doc = SCHEMA_VERSION" and "doc_messages doc \<noteq> []"
    and "suffix_readable (t_sha P) doc"
  shows "read_conversation_jsonl_with_lines (t_sha P) peek parse_header parse_message (unit_path P doc)
      (Some (filename_stem (t_sha P) doc)) (Some (jsonl P (finalize_stats doc))) =
    Inr (finalize_stats doc, [2..<2 + length (doc_messages doc)])"
proof -
  let ?d = "finalize_stats doc"
  let ?h = "t_header_json P (from_document ?d)"
  have same: "doc_messages ?d = doc_messages doc" "doc_schema_version ?d = doc_schema_version doc"
    "doc_packaging_stem_suffix ?d = doc_packaging_stem_suffix doc"
    by (simp_all add: finalize_stats_def)
  have stem: "filename_stem (t_sha P) ?d = filename_stem (t_sha P) doc"
    "filename_stem (t_sha P) (?d\<lparr>doc_packaging_stem_suffix := None\<rparr>) = filename_stem (t_sha P) (doc\<lparr>doc_packaging_stem_suffix := None\<rparr>)"
    by (simp_all add: filename_stem_def finalize_stats_def)
  then have readable: "suffix_readable (t_sha P) ?d" using assms(4) unfolding suffix_readable_def same by metis
  have h: "row_text ?h" "peek (of_bytes ?h) = Some SCHEMA_VERSION" "parse_header (of_bytes ?h) = Some (from_document ?d)"
    and m: "list_all (\<lambda>m. row_text (t_message_json P m) \<and> parse_message (of_bytes (t_message_json P m)) = Some m) (doc_messages doc)"
    using assms(1,2) by (simp_all add: json_reads_back_def Let_def same) (simp add: from_document_def same)
  then have rows: "list_all (\<lambda>m. row_text (t_message_json P m)) (doc_messages doc)" by (simp add: list_all_iff)
  have ls: "file_lines (jsonl P ?d) = ?h # map (t_message_json P) (doc_messages doc)"
    by (simp add: jsonl_def same file_lines_row [OF h(1)] file_lines_jsonl_rows [OF rows])
  have into: "into_document (from_document ?d) (doc_messages doc) = ?d\<lparr>doc_packaging_stem_suffix := None\<rparr>"
    using assms(2) by (simp add: into_document_def from_document_def finalize_stats_def)
  show ?thesis
    using h assms(3) suffix_recovered [OF readable]
    by (simp add: read_conversation_jsonl_with_lines_def ls row_text_def check_schema_version_in_json_def
        check_schema_version_def read_message_lines_rows [OF m] into stem)
qed

section \<open>A sample\<close>

definition sample_sms_doc :: "unit conversation_document" where
  "sample_sms_doc = \<lparr>doc_schema_version = SCHEMA_VERSION,
     doc_export = \<lparr>exp_source = ''sms'', exp_tool = ''t'', exp_tool_version = ''1'', exp_owner_handle = None,
       exp_owner_display_name = None\<rparr>,
     doc_conversation = \<lparr>conv_chat_identifier = ''+15550001'', conv_type = Individual, conv_group_title = None,
       conv_participants = [], conv_stats = compute_stats ([] :: unit ir_message list)\<rparr>,
     doc_messages = [\<lparr>msg_guid = ''g'', msg_timestamp_unix_ms = 5, msg_direction = Outgoing, msg_service = Sms, msg_kind = KindSms,
       msg_sender_handle = None, msg_sender_display_name = None, msg_owner_handle = None, msg_subject = None, msg_text = ''hi'',
       msg_attachments = [], msg_extras = ()\<rparr>],
     doc_packaging_stem_suffix = Some ''__a''\<rparr>"

definition sample_reader_tools :: "unit tools" where
  "sample_reader_tools = \<lparr>t_sha = (\<lambda>_. []), t_lower = id, t_utc = (\<lambda>_. None), t_header_json = (\<lambda>_. [104]),
     t_message_json = (\<lambda>_. [109]), t_format_bytes = (\<lambda>_. [])\<rparr>"

lemma written_file_reads_back_witness:
  "read_conversation_jsonl_with_lines (t_sha sample_reader_tools) (\<lambda>_. Some SCHEMA_VERSION)
      (\<lambda>_. Some (from_document (finalize_stats sample_sms_doc))) (\<lambda>_. Some (hd (doc_messages sample_sms_doc)))
      (unit_path sample_reader_tools sample_sms_doc) (Some (filename_stem (t_sha sample_reader_tools) sample_sms_doc))
      (Some (jsonl sample_reader_tools (finalize_stats sample_sms_doc))) =
    Inr (finalize_stats sample_sms_doc, [2])"
proof -
  have rows: "row_text [104]" "row_text [109]" by code_simp+
  have "json_reads_back sample_reader_tools (\<lambda>_. Some SCHEMA_VERSION) (\<lambda>_. Some (from_document (finalize_stats sample_sms_doc)))
      (\<lambda>_. Some (hd (doc_messages sample_sms_doc))) (finalize_stats sample_sms_doc)"
    using rows by (simp add: json_reads_back_def Let_def sample_reader_tools_def from_document_def)
      (simp add: sample_sms_doc_def finalize_stats_def)
  moreover have "doc_schema_version sample_sms_doc = SCHEMA_VERSION" "doc_messages sample_sms_doc \<noteq> []"
    by (simp_all add: sample_sms_doc_def)
  moreover have "suffix_readable (t_sha sample_reader_tools) sample_sms_doc" by code_simp
  ultimately have "read_conversation_jsonl_with_lines (t_sha sample_reader_tools) (\<lambda>_. Some SCHEMA_VERSION)
      (\<lambda>_. Some (from_document (finalize_stats sample_sms_doc))) (\<lambda>_. Some (hd (doc_messages sample_sms_doc)))
      (unit_path sample_reader_tools sample_sms_doc) (Some (filename_stem (t_sha sample_reader_tools) sample_sms_doc))
      (Some (jsonl sample_reader_tools (finalize_stats sample_sms_doc))) =
    Inr (finalize_stats sample_sms_doc, [2..<2 + length (doc_messages sample_sms_doc)])"
    by (rule written_file_reads_back)
  then show ?thesis by (simp add: sample_sms_doc_def)
qed

end
