(* ===== verification/PushChunks.thy ===== *)
theory PushChunks
  imports PushJournal ReadJson Identity
begin

text \<open>
  The lines and chunks of a push (\<open>crates/libs/push/src/project.rs\<close> and the chunk builder of
  \<open>prepare.rs\<close>): a conversation's messages as JSON Lines with their resume keys, without those the
  journal holds, cut into request bodies. serde\_json is a pair of parameters, the line of a header
  and of a message; a chunk is one header line and the lines of its messages
  (\<open>chunks_of_conversation\<close>).
\<close>

section \<open>Lines\<close>

definition validate_header :: "conversation_header \<Rightarrow> string + string" where
  "validate_header header =
     bind_res (check_schema_version (hd_schema_version header)) (\<lambda>_.
       let source = trim (exp_source (hd_export header))
       in if source = [] then Inl ''export.source is empty'' else Inr source)"

definition document_header_line ::
  "(conversation_header \<Rightarrow> u8 list) \<Rightarrow> 'x conversation_document \<Rightarrow> string + u8 list" where
  "document_header_line json_header doc =
     (let header = from_document doc
      in map_res (\<lambda>_. json_header header @ [10]) (validate_header header))"

datatype attachment_projection =
  Digested nat string u64
| ProjMissing nat string "u64 option"

fun project_attachment :: "attachment_projection \<Rightarrow> ir_attachment list \<Rightarrow> ir_attachment list" where
  "project_attachment (Digested index digest size_bytes) atts =
     (if index < length atts
      then atts[index := (atts ! index)\<lparr>att_digest_sha256 := Some digest, att_size_bytes := Some size_bytes,
        att_missing_reason := None\<rparr>]
      else atts)"
| "project_attachment (ProjMissing index reason size_bytes) atts =
     (if index < length atts
      then atts[index := (atts ! index)\<lparr>att_digest_sha256 := None, att_missing_reason := Some reason,
        att_size_bytes := (case size_bytes of Some n \<Rightarrow> Some n | None \<Rightarrow> att_size_bytes (atts ! index))\<rparr>]
      else atts)"

definition serialize_message :: "('x ir_message \<Rightarrow> u8 list) \<Rightarrow> 'x ir_message \<Rightarrow> nat \<Rightarrow> u8 list \<times> string" where
  "serialize_message json_message msg index =
     (json_message msg @ [10],
      if trim (msg_guid msg) = []
      then ''unguided:'' @ i64_string (msg_timestamp_unix_ms msg) @ '':'' @ dec_string index
      else msg_guid msg)"

definition message_line ::
  "('x ir_message \<Rightarrow> u8 list) \<Rightarrow> 'x ir_message \<Rightarrow> attachment_projection list \<Rightarrow> nat \<Rightarrow> u8 list \<times> string" where
  "message_line json_message msg projections index =
     serialize_message json_message (msg\<lparr>msg_attachments := fold project_attachment projections (msg_attachments msg)\<rparr>) index"

definition message_line_without_attachments ::
  "('x ir_message \<Rightarrow> u8 list) \<Rightarrow> 'x ir_message \<Rightarrow> nat \<Rightarrow> u8 list \<times> string" where
  "message_line_without_attachments json_message msg index =
     serialize_message json_message (msg\<lparr>msg_attachments := []\<rparr>) index"

section \<open>The chunk builder\<close>

record import_chunk =
  ic_body :: "u8 list"
  ic_messages :: "journal_message list"
  ic_file_lines :: "nat list"

record chunk_builder =
  cb_header_line :: "u8 list"
  cb_max_messages :: nat
  cb_max_body_bytes :: nat
  cb_chunks :: "import_chunk list"
  cb_body :: "u8 list"
  cb_messages :: "journal_message list"
  cb_file_lines :: "nat list"

definition HEADER_FILE_LINE :: nat where "HEADER_FILE_LINE = 1"

definition chunk_builder_new :: "u8 list \<Rightarrow> nat \<Rightarrow> nat \<Rightarrow> chunk_builder" where
  "chunk_builder_new header_line max_messages max_body_bytes =
     \<lparr>cb_header_line = header_line, cb_max_messages = max_messages, cb_max_body_bytes = max_body_bytes,
      cb_chunks = [], cb_body = header_line, cb_messages = [], cb_file_lines = [HEADER_FILE_LINE]\<rparr>"

definition seal_chunk :: "chunk_builder \<Rightarrow> chunk_builder" where
  "seal_chunk b =
     b\<lparr>cb_chunks := cb_chunks b @ [\<lparr>ic_body = cb_body b, ic_messages = cb_messages b, ic_file_lines = cb_file_lines b\<rparr>],
       cb_body := cb_header_line b, cb_messages := [], cb_file_lines := [HEADER_FILE_LINE]\<rparr>"

definition push_line :: "u8 list \<Rightarrow> journal_message \<Rightarrow> nat \<Rightarrow> chunk_builder \<Rightarrow> chunk_builder" where
  "push_line line message file_line b =
     (let full = cb_messages b \<noteq> [] \<and>
            (cb_max_messages b \<le> length (cb_messages b) \<or> cb_max_body_bytes b < length (cb_body b) + length line);
          b = (if full then seal_chunk b else b)
      in b\<lparr>cb_body := cb_body b @ line, cb_messages := cb_messages b @ [message],
           cb_file_lines := cb_file_lines b @ [file_line]\<rparr>)"

definition finish_chunks :: "chunk_builder \<Rightarrow> import_chunk list" where
  "finish_chunks b = cb_chunks (if cb_messages b \<noteq> [] then seal_chunk b else b)"

definition MAX_IMPORT_BODY_BYTES :: nat where "MAX_IMPORT_BODY_BYTES = 64 * 1024 * 1024"

text \<open>
  The loop over the messages with their lines of the staged file and their projections. The cancel
  flag and the journal are read at each message, and other threads may change both: \<open>cancelled\<close> and
  \<open>journal\<close> give what message number \<open>i\<close> finds.
\<close>

fun chunk_loop ::
  "('x ir_message \<Rightarrow> u8 list) \<Rightarrow> string \<Rightarrow> bool \<Rightarrow> bool \<Rightarrow> (nat \<Rightarrow> bool) \<Rightarrow> (nat \<Rightarrow> run_journal_state) \<Rightarrow>
   nat \<Rightarrow> ('x ir_message \<times> nat \<times> attachment_projection list) list \<Rightarrow> chunk_builder \<Rightarrow> string + chunk_builder" where
  "chunk_loop json_message name skip_attachments force cancelled journal i [] b = Inr b"
| "chunk_loop json_message name skip_attachments force cancelled journal i ((msg, file_line, projections) # rest) b =
     (if cancelled i then Inl ''cancelled''
      else
        (let (line, guid) =
               (if skip_attachments then message_line_without_attachments json_message msg i
                else message_line json_message msg projections i)
         in if \<not> force \<and> has_message (journal i) name guid
            then chunk_loop json_message name skip_attachments force cancelled journal (i + 1) rest b
            else if MAX_IMPORT_BODY_BYTES < length line
            then Inl (name @ '': message '' @ guid @ '' encodes to '' @ dec_string (length line) @
              '' bytes alone, which exceeds the 64 MiB import chunk limit '' @ [CHR 0xE2, CHR 0x80, CHR 0x94] @
              '' cannot upload through Cloudflare safely'')
            else chunk_loop json_message name skip_attachments force cancelled journal (i + 1) rest
              (push_line line \<lparr>jm_file = name, jm_guid = guid\<rparr> file_line b)))"

definition build_import_chunks ::
  "(conversation_header \<Rightarrow> u8 list) \<Rightarrow> ('x ir_message \<Rightarrow> u8 list) \<Rightarrow> nat \<Rightarrow> bool \<Rightarrow> bool \<Rightarrow> (nat \<Rightarrow> bool) \<Rightarrow>
   (nat \<Rightarrow> run_journal_state) \<Rightarrow> string \<Rightarrow> 'x conversation_document \<Rightarrow> nat list \<Rightarrow> attachment_projection list list \<Rightarrow>
   string + import_chunk list" where
  "build_import_chunks json_header json_message batch_size skip_attachments force cancelled journal name doc
     message_lines projections =
     bind_res (document_header_line json_header doc) (\<lambda>header_line.
       map_res finish_chunks
         (chunk_loop json_message name skip_attachments force cancelled journal 0
           (zip (doc_messages doc) (zip message_lines projections))
           (chunk_builder_new header_line batch_size MAX_IMPORT_BODY_BYTES)))"

section \<open>What a chunk is\<close>

text \<open>The lines that are sent: each with its resume key and its line of the staged file.\<close>

type_synonym sent_line = "u8 list \<times> journal_message \<times> nat"

definition chunk_of :: "u8 list \<Rightarrow> sent_line list \<Rightarrow> import_chunk" where
  "chunk_of header_line part =
     \<lparr>ic_body = header_line @ concat (map fst part), ic_messages = map (fst \<circ> snd) part,
      ic_file_lines = HEADER_FILE_LINE # map (snd \<circ> snd) part\<rparr>"

definition piece_ok :: "u8 list \<Rightarrow> nat \<Rightarrow> nat \<Rightarrow> sent_line list \<Rightarrow> bool" where
  "piece_ok header_line max_messages max_body_bytes part \<longleftrightarrow>
     part \<noteq> [] \<and>
     (length part = 1 \<or>
      length part \<le> max_messages \<and> length (ic_body (chunk_of header_line part)) \<le> max_body_bytes)"

text \<open>The builder holds finished parts and one open part.\<close>

definition builder_holds :: "u8 list \<Rightarrow> nat \<Rightarrow> nat \<Rightarrow> sent_line list list \<Rightarrow> sent_line list \<Rightarrow> chunk_builder \<Rightarrow> bool" where
  "builder_holds header_line max_messages max_body_bytes parts cur b \<longleftrightarrow>
     b = \<lparr>cb_header_line = header_line, cb_max_messages = max_messages, cb_max_body_bytes = max_body_bytes,
          cb_chunks = map (chunk_of header_line) parts, cb_body = ic_body (chunk_of header_line cur),
          cb_messages = ic_messages (chunk_of header_line cur), cb_file_lines = ic_file_lines (chunk_of header_line cur)\<rparr> \<and>
     list_all (piece_ok header_line max_messages max_body_bytes) parts \<and>
     (cur = [] \<or> piece_ok header_line max_messages max_body_bytes cur)"

lemma builder_new: "builder_holds h m n [] [] (chunk_builder_new h m n)"
  by (simp add: builder_holds_def chunk_builder_new_def chunk_of_def)

lemma builder_push:
  assumes "builder_holds h m n parts cur b"
  shows "\<exists>parts' cur'. builder_holds h m n parts' cur' (push_line line message file_line b) \<and>
    concat parts' @ cur' = concat parts @ cur @ [(line, message, file_line)]"
proof -
  let ?new = "(line, message, file_line)"
  let ?full = "cur \<noteq> [] \<and> (m \<le> length cur \<or> n < length (ic_body (chunk_of h cur)) + length line)"
  have single: "piece_ok h m n [?new]" by (simp add: piece_ok_def)
  show ?thesis
  proof (cases ?full)
    case True
    then have "builder_holds h m n (parts @ [cur]) [?new] (push_line line message file_line b)"
      using assms single by (auto simp: builder_holds_def push_line_def seal_chunk_def chunk_of_def)
    then show ?thesis by (intro exI [of _ "parts @ [cur]"] exI [of _ "[?new]"]) simp
  next
    case False
    have "piece_ok h m n (cur @ [?new])"
      using False single by (cases "cur = []") (auto simp: piece_ok_def chunk_of_def)
    then have "builder_holds h m n parts (cur @ [?new]) (push_line line message file_line b)"
      using assms False by (auto simp: builder_holds_def push_line_def chunk_of_def)
    then show ?thesis by (intro exI [of _ parts] exI [of _ "cur @ [?new]"]) simp
  qed
qed

lemma builder_finish:
  assumes "builder_holds h m n parts cur b"
  shows "\<exists>parts'. finish_chunks b = map (chunk_of h) parts' \<and> concat parts' = concat parts @ cur \<and>
    list_all (piece_ok h m n) parts'"
proof (cases "cur = []")
  case True
  then show ?thesis using assms by (intro exI [of _ parts]) (simp add: builder_holds_def finish_chunks_def chunk_of_def)
next
  case False
  then show ?thesis using assms
    by (intro exI [of _ "parts @ [cur]"]) (auto simp: builder_holds_def finish_chunks_def seal_chunk_def chunk_of_def)
qed

text \<open>The lines a run sends: in the order of the file, without those the journal holds.\<close>

fun lines_to_send ::
  "('x ir_message \<Rightarrow> u8 list) \<Rightarrow> string \<Rightarrow> bool \<Rightarrow> bool \<Rightarrow> (nat \<Rightarrow> run_journal_state) \<Rightarrow>
   nat \<Rightarrow> ('x ir_message \<times> nat \<times> attachment_projection list) list \<Rightarrow> sent_line list" where
  "lines_to_send json_message name skip_attachments force journal i [] = []"
| "lines_to_send json_message name skip_attachments force journal i ((msg, file_line, projections) # rest) =
     (let (line, guid) =
            (if skip_attachments then message_line_without_attachments json_message msg i
             else message_line json_message msg projections i);
          later = lines_to_send json_message name skip_attachments force journal (i + 1) rest
      in if \<not> force \<and> has_message (journal i) name guid then later
         else (line, \<lparr>jm_file = name, jm_guid = guid\<rparr>, file_line) # later)"

lemma chunk_loop_sends:
  "chunk_loop json_message name skip_attachments force cancelled journal i rows b = Inr b' \<Longrightarrow>
   builder_holds h m n parts cur b \<Longrightarrow>
   \<exists>parts' cur'. builder_holds h m n parts' cur' b' \<and>
     concat parts' @ cur' = concat parts @ cur @ lines_to_send json_message name skip_attachments force journal i rows \<and>
     list_all (\<lambda>(line, _). length line \<le> MAX_IMPORT_BODY_BYTES)
       (lines_to_send json_message name skip_attachments force journal i rows)"
proof (induction rows arbitrary: i b parts cur)
  case (Cons row rows)
  obtain msg file_line projections where row: "row = (msg, file_line, projections)" by (cases row)
  obtain line guid where lg: "(if skip_attachments then message_line_without_attachments json_message msg i
      else message_line json_message msg projections i) = (line, guid)"
    by (cases "if skip_attachments then message_line_without_attachments json_message msg i
      else message_line json_message msg projections i")
  show ?case
  proof (cases "\<not> force \<and> has_message (journal i) name guid")
    case True
    then show ?thesis using Cons.IH [of "i + 1" b parts cur] Cons.prems lg by (simp add: row split: if_splits)
  next
    case False
    let ?m = "\<lparr>jm_file = name, jm_guid = guid\<rparr>"
    from Cons.prems(1) False lg have short: "length line \<le> MAX_IMPORT_BODY_BYTES"
      and rest: "chunk_loop json_message name skip_attachments force cancelled journal (i + 1) rows (push_line line ?m file_line b) = Inr b'"
      by (auto simp: row split: if_splits)
    obtain parts1 cur1 where one: "builder_holds h m n parts1 cur1 (push_line line ?m file_line b)"
      "concat parts1 @ cur1 = concat parts @ cur @ [(line, ?m, file_line)]"
      using builder_push [OF Cons.prems(2)] by blast
    let ?later = "lines_to_send json_message name skip_attachments force journal (i + 1) rows"
    obtain parts' cur' where all: "builder_holds h m n parts' cur' b'" "concat parts' @ cur' = concat parts1 @ cur1 @ ?later"
      "list_all (\<lambda>(line, _). length line \<le> MAX_IMPORT_BODY_BYTES) ?later"
      using Cons.IH [OF rest one(1)] by blast
    have "concat parts' @ cur' = concat parts @ cur @ (line, ?m, file_line) # ?later"
      using all(2) arg_cong [OF one(2), of "\<lambda>xs. xs @ ?later"] by simp
    moreover have "lines_to_send json_message name skip_attachments force journal i (row # rows) = (line, ?m, file_line) # ?later"
      using False lg by (auto simp: row Let_def)
    ultimately show ?thesis using all(1,3) short by (intro exI [of _ parts'] exI [of _ cur']) simp
  qed
qed (auto intro: exI)

lemma map_res_eq_Inr: "map_res g r = Inr y \<longleftrightarrow> (\<exists>x. r = Inr x \<and> y = g x)"
  by (cases r) auto

text \<open>C39: How a conversation is cut. The chunks of a conversation carry, in the order of the file
  and each once, exactly the messages the journal does not hold. Each chunk is the header line and
  the lines of its messages, names for each of its lines the line of the staged file it came from,
  and has at least one message. A chunk of more than one message keeps to the batch size and to the
  body limit; no line is longer than the limit.\<close>

theorem chunks_of_conversation:
  assumes "build_import_chunks json_header json_message batch_size skip_attachments force cancelled journal name doc
      message_lines projections = Inr chunks_built"
  shows "\<exists>header_line parts.
    document_header_line json_header doc = Inr header_line \<and>
    concat parts = lines_to_send json_message name skip_attachments force journal 0
      (zip (doc_messages doc) (zip message_lines projections)) \<and>
    chunks_built = map (chunk_of header_line) parts \<and>
    list_all (piece_ok header_line batch_size MAX_IMPORT_BODY_BYTES) parts \<and>
    list_all (list_all (\<lambda>(line, _). length line \<le> MAX_IMPORT_BODY_BYTES)) parts"
proof -
  let ?rows = "zip (doc_messages doc) (zip message_lines projections)"
  obtain h b where h: "document_header_line json_header doc = Inr h"
    and run: "chunk_loop json_message name skip_attachments force cancelled journal 0 ?rows
      (chunk_builder_new h batch_size MAX_IMPORT_BODY_BYTES) = Inr b"
    and built: "chunks_built = finish_chunks b"
    using assms unfolding build_import_chunks_def bind_res_eq_Inr map_res_eq_Inr by metis
  obtain parts cur where b: "builder_holds h batch_size MAX_IMPORT_BODY_BYTES parts cur b"
    and sent: "concat parts @ cur = lines_to_send json_message name skip_attachments force journal 0 ?rows"
    and short: "list_all (\<lambda>(line, _). length line \<le> MAX_IMPORT_BODY_BYTES)
      (lines_to_send json_message name skip_attachments force journal 0 ?rows)"
    using chunk_loop_sends [OF run builder_new] by auto
  obtain parts' where fin: "finish_chunks b = map (chunk_of h) parts'" "concat parts' = concat parts @ cur"
    "list_all (piece_ok h batch_size MAX_IMPORT_BODY_BYTES) parts'"
    using builder_finish [OF b] by blast
  have "list_all (list_all (\<lambda>(line, _). length line \<le> MAX_IMPORT_BODY_BYTES)) parts'"
    using short unfolding sent [symmetric] fin(2) [symmetric] by (auto simp: list_all_iff)
  then show ?thesis using h built fin sent by (intro exI [of _ h] exI [of _ parts']) simp
qed

text \<open>A chunk of one message may pass the body limit by its header line: the check of a long message
  looks at its line alone.\<close>

lemma chunk_over_the_limit:
  "finish_chunks (push_line line m 2 (chunk_builder_new h batch_size MAX_IMPORT_BODY_BYTES)) = [chunk_of h [(line, m, 2)]]"
  "length (ic_body (chunk_of h [(line, m, 2)])) = length h + length line"
  by (simp_all add: finish_chunks_def push_line_def chunk_builder_new_def seal_chunk_def chunk_of_def)

lemma chunks_of_conversation_witness:
  "\<exists>header_line parts.
    document_header_line (\<lambda>_. [104]) sample_sms_doc = Inr header_line \<and>
    concat parts = [([109, 10], \<lparr>jm_file = ''f'', jm_guid = ''g''\<rparr>, 2)] \<and>
    [\<lparr>ic_body = [104, 10, 109, 10], ic_messages = [\<lparr>jm_file = ''f'', jm_guid = ''g''\<rparr>], ic_file_lines = [1, 2]\<rparr>] =
      map (chunk_of header_line) parts"
proof -
  let ?j = "\<lambda>_. \<lparr>rj_state = empty_state, rj_file = Absent, rj_url = ''u'', rj_username = ''a''\<rparr>"
  have header_ok: "validate_header (from_document sample_sms_doc) = Inr ''sms''" by code_simp
  have guid: "trim ''g'' \<noteq> []" by code_simp
  have built: "build_import_chunks (\<lambda>_. [104]) (\<lambda>_. [109]) 1 True False (\<lambda>_. False) ?j ''f'' sample_sms_doc [2] [[]] =
      Inr [\<lparr>ic_body = [104, 10, 109, 10], ic_messages = [\<lparr>jm_file = ''f'', jm_guid = ''g''\<rparr>], ic_file_lines = [1, 2]\<rparr>]"
    using guid
    by (simp add: build_import_chunks_def document_header_line_def Let_def header_ok)
       (simp add: sample_sms_doc_def message_line_without_attachments_def serialize_message_def has_message_def
         MAX_IMPORT_BODY_BYTES_def push_line_def chunk_builder_new_def finish_chunks_def seal_chunk_def HEADER_FILE_LINE_def)
  have sent: "lines_to_send (\<lambda>_. [109]) ''f'' True False ?j 0 (zip (doc_messages sample_sms_doc) (zip [2] [[]])) =
      [([109, 10], \<lparr>jm_file = ''f'', jm_guid = ''g''\<rparr>, 2)]"
    using guid
    by (simp add: sample_sms_doc_def message_line_without_attachments_def serialize_message_def has_message_def)
  show ?thesis using chunks_of_conversation [OF built] unfolding sent by (elim exE conjE) (intro exI conjI; assumption)
qed

end
