(* ===== verification/StateErr.thy ===== *)
theory StateErr
  imports Prelude
begin

text \<open>
  Code that changes a state and may end in an error: a step gives the new state and a result. The
  \<open>?\<close> operator composes such steps, and the locale \<open>stepwise\<close> composes what they keep.
\<close>

text \<open>The \<open>?\<close> operator over a state.\<close>

definition then_do :: "'s \<times> ('e + 'a) \<Rightarrow> ('s \<Rightarrow> 'a \<Rightarrow> 's \<times> ('e + 'b)) \<Rightarrow> 's \<times> ('e + 'b)" where
  "then_do m f = (case m of (s, Inl e) \<Rightarrow> (s, Inl e) | (s, Inr x) \<Rightarrow> f s x)"

lemma then_do_simps [simp]: "then_do (s, Inl e) f = (s, Inl e)" "then_do (s, Inr x) f = f s x"
  by (simp_all add: then_do_def)

lemma then_do_cong [fundef_cong]:
  "m = m' \<Longrightarrow> (\<And>s x. m' = (s, Inr x) \<Longrightarrow> f s x = g s x) \<Longrightarrow> then_do m f = then_do m' g"
  by (auto simp: then_do_def split: prod.split sum.split)

text \<open>A strong invariant while the calls succeed, a weak one where one ends in an error.\<close>

locale stepwise =
  fixes strong :: "'s \<Rightarrow> bool" and weak :: "'s \<Rightarrow> bool"
  assumes strong_weak: "strong s \<Longrightarrow> weak s"
begin

definition safe :: "'s \<times> ('e + 'a) \<Rightarrow> bool" where
  "safe m \<longleftrightarrow> weak (fst m) \<and> (\<forall>x. snd m = Inr x \<longrightarrow> strong (fst m))"

lemma safe_return: "strong s \<Longrightarrow> safe (s, r)"
  by (simp add: safe_def strong_weak)

lemma safe_error: "weak s \<Longrightarrow> safe (s, Inl e)"
  by (simp add: safe_def)

lemma safe_then_do:
  "safe m \<Longrightarrow> (\<And>s x. m = (s, Inr x) \<Longrightarrow> strong s \<Longrightarrow> safe (f s x)) \<Longrightarrow> safe (then_do m f)"
  by (auto simp: safe_def then_do_def split: prod.splits sum.splits)

lemma safe_weak: "safe m \<Longrightarrow> weak (fst m)"
  by (simp add: safe_def)

lemma safe_strong: "safe (s, Inr x) \<Longrightarrow> strong s"
  by (simp add: safe_def)

end

end
