(* ===== verification/PushPipeline.thy ===== *)
theory PushPipeline
  imports PushChunks StateErr "HOL-Library.Multiset"
begin

text \<open>
  The import side of a push (\<open>crates/libs/push/src/pipeline.rs\<close>): chunks packed into batches, one
  request in flight, a tracker for each conversation, the journal, the results and the totals.
  What the rest of the world answers is part of the state, a list for each kind of question: the
  polls of the cancel flag, the answers of the server after its retries, the faults of the journal's
  appends. An exhausted list answers no, an error without a line, no fault. A request runs on a
  thread of its own and touches nothing until it is joined, so its answer is taken there. Two fields hold
  history for the statements: the requests joined and the chunks queued. Log output and clock readings are not modelled, but for the duration of a request.
\<close>

section \<open>Data\<close>

definition OVERLAP_FLUSH_MIN_MESSAGES :: nat where "OVERLAP_FLUSH_MIN_MESSAGES = 100"

definition OVERLAP_FLUSH_MIN_BODY_BYTES :: nat where "OVERLAP_FLUSH_MIN_BODY_BYTES = 512 * 1024"

text \<open>\<open>u64::saturating_add\<close>.\<close>

definition sat_add :: "nat \<Rightarrow> nat \<Rightarrow> nat" where
  "sat_add a b = min (a + b) (2 ^ 64 - 1)"

datatype chunk_step = Continue | FileFailed | Abort

record asset_totals =
  at_uploaded :: nat
  at_skipped :: nat
  at_bytes :: nat

record prepared_file =
  pf_source :: string
  pf_chunks :: "import_chunk list"
  pf_attachments :: nat
  pf_assets :: asset_totals

definition message_count :: "prepared_file \<Rightarrow> nat" where
  "message_count prepared = sum_list (map (\<lambda>chunk. length (ic_messages chunk)) (pf_chunks prepared))"

record file_tracker =
  ft_name :: string
  ft_source :: string
  ft_attachments :: nat
  ft_message_import_ms :: nat
  ft_outstanding_messages :: nat
  ft_successful_messages :: nat
  ft_queue_complete :: bool
  ft_failed :: "string option"
  ft_done :: bool

definition file_tracker_new :: "string \<Rightarrow> prepared_file \<Rightarrow> file_tracker" where
  "file_tracker_new name prepared =
     \<lparr>ft_name = name, ft_source = pf_source prepared, ft_attachments = pf_attachments prepared,
      ft_message_import_ms = 0, ft_outstanding_messages = message_count prepared, ft_successful_messages = 0,
      ft_queue_complete = False, ft_failed = None, ft_done = False\<rparr>"

definition is_settled :: "file_tracker \<Rightarrow> bool" where
  "is_settled t \<longleftrightarrow> \<not> ft_done t \<and> (ft_failed t \<noteq> None \<or> (ft_queue_complete t \<and> ft_outstanding_messages t = 0))"

record file_result =
  fr_file :: string
  fr_status :: string
  fr_error :: "string option"
  fr_messages :: nat
  fr_attachments :: nat
  fr_message_import_ms :: "nat option"

definition result_skipped :: "string \<Rightarrow> file_result" where
  "result_skipped name = \<lparr>fr_file = name, fr_status = ''skipped'', fr_error = None, fr_messages = 0, fr_attachments = 0,
     fr_message_import_ms = None\<rparr>"

definition result_cancelled :: "string \<Rightarrow> file_result" where
  "result_cancelled name = \<lparr>fr_file = name, fr_status = ''cancelled'', fr_error = None, fr_messages = 0, fr_attachments = 0,
     fr_message_import_ms = None\<rparr>"

definition result_failed :: "string \<Rightarrow> string \<Rightarrow> file_result" where
  "result_failed name error = \<lparr>fr_file = name, fr_status = ''failed'', fr_error = Some error, fr_messages = 0, fr_attachments = 0,
     fr_message_import_ms = None\<rparr>"

record batch_message =
  bm_file_index :: nat
  bm_journal :: journal_message

record line_origin =
  lo_file_index :: nat
  lo_file_line :: nat

record import_batch =
  ib_source :: string
  ib_body :: "u8 list"
  ib_messages :: "batch_message list"
  ib_lines :: "line_origin list"
  ib_conversations :: nat

definition batch_new :: "string \<Rightarrow> import_batch" where
  "batch_new source = \<lparr>ib_source = source, ib_body = [], ib_messages = [], ib_lines = [], ib_conversations = 0\<rparr>"

definition tagged :: "nat \<Rightarrow> journal_message list \<Rightarrow> batch_message list" where
  "tagged file_index ms = map (\<lambda>journal. \<lparr>bm_file_index = file_index, bm_journal = journal\<rparr>) ms"

definition batch_push :: "nat \<Rightarrow> import_chunk \<Rightarrow> import_batch \<Rightarrow> import_batch" where
  "batch_push file_index chunk b =
     b\<lparr>ib_body := ib_body b @ ic_body chunk,
       ib_messages := ib_messages b @ tagged file_index (ic_messages chunk),
       ib_lines := ib_lines b @ map (\<lambda>file_line. \<lparr>lo_file_index = file_index, lo_file_line = file_line\<rparr>) (ic_file_lines chunk),
       ib_conversations := ib_conversations b + 1\<rparr>"

definition batch_origin :: "import_batch \<Rightarrow> nat \<Rightarrow> line_origin option" where
  "batch_origin b line =
     (if line = 0 then None else if line - 1 < length (ib_lines b) then Some (ib_lines b ! (line - 1)) else None)"

definition would_overflow :: "import_batch \<Rightarrow> import_chunk \<Rightarrow> nat \<Rightarrow> nat \<Rightarrow> bool" where
  "would_overflow b chunk max_messages max_body_bytes \<longleftrightarrow>
     ib_messages b \<noteq> [] \<and>
     (max_messages < length (ib_messages b) + length (ic_messages chunk) \<or>
      max_body_bytes < length (ib_body b) + length (ic_body chunk))"

definition is_full :: "import_batch \<Rightarrow> nat \<Rightarrow> nat \<Rightarrow> bool" where
  "is_full b max_messages max_body_bytes \<longleftrightarrow> max_messages \<le> length (ib_messages b) \<or> max_body_bytes \<le> length (ib_body b)"

definition is_worth_overlapping :: "import_batch \<Rightarrow> bool" where
  "is_worth_overlapping b \<longleftrightarrow>
     OVERLAP_FLUSH_MIN_MESSAGES \<le> length (ib_messages b) \<or> OVERLAP_FLUSH_MIN_BODY_BYTES \<le> length (ib_body b)"

definition file_indexes :: "import_batch \<Rightarrow> nat list" where
  "file_indexes b = sorted_list_of_set (bm_file_index ` set (ib_messages b))"

record import_response =
  rs_messages_appended :: nat
  rs_messages_deduped :: nat

record batch_error =
  be_message :: string
  be_refused_line :: "nat option"

datatype answer = Panicked | Answered nat "batch_error + import_response"

record message_accounting =
  ac_attempted :: nat
  ac_inserted :: nat
  ac_deduped :: nat
  ac_failed :: nat

record pipeline =
  ip_batch_size :: nat
  ip_pending :: "import_batch option"
  ip_inflight :: "import_batch option"
  ip_trackers :: "file_tracker option list"
  ip_results :: "file_result option list"
  ip_accounting :: message_accounting
  ip_journal :: run_journal_state
  ip_cancel_polls :: "bool list"
  ip_answers :: "answer list"
  ip_append_faults :: "append_fault list"
  ip_joined :: "(import_batch \<times> (batch_error + import_response)) list"
  ip_queued :: "(nat \<times> import_chunk) list"

definition pipeline_new ::
  "run_journal_state \<Rightarrow> nat \<Rightarrow> nat \<Rightarrow> bool list \<Rightarrow> answer list \<Rightarrow> append_fault list \<Rightarrow> pipeline" where
  "pipeline_new journal batch_size n polls answers faults =
     \<lparr>ip_batch_size = batch_size, ip_pending = None, ip_inflight = None, ip_trackers = replicate n None,
      ip_results = replicate n None,
      ip_accounting = \<lparr>ac_attempted = 0, ac_inserted = 0, ac_deduped = 0, ac_failed = 0\<rparr>,
      ip_journal = journal, ip_cancel_polls = polls, ip_answers = answers, ip_append_faults = faults,
      ip_joined = [], ip_queued = []\<rparr>"

section \<open>Questions to the world\<close>

definition is_cancelled :: "pipeline \<Rightarrow> pipeline \<times> bool" where
  "is_cancelled p =
     (case ip_cancel_polls p of [] \<Rightarrow> (p, False) | b # bs \<Rightarrow> (p\<lparr>ip_cancel_polls := bs\<rparr>, b))"

definition next_answer :: "pipeline \<Rightarrow> pipeline \<times> answer" where
  "next_answer p =
     (case ip_answers p of
        [] \<Rightarrow> (p, Answered 0 (Inl \<lparr>be_message = [], be_refused_line = None\<rparr>))
      | a # rest \<Rightarrow> (p\<lparr>ip_answers := rest\<rparr>, a))"

definition with_journal ::
  "(append_fault \<Rightarrow> run_journal_state \<Rightarrow> run_journal_state \<times> 'a) \<Rightarrow> pipeline \<Rightarrow> pipeline \<times> 'a" where
  "with_journal f p =
     (let (flt, rest) = (case ip_append_faults p of [] \<Rightarrow> (AppendWorks, []) | x # xs \<Rightarrow> (x, xs));
          (journal, result) = f flt (ip_journal p)
      in (p\<lparr>ip_journal := journal, ip_append_faults := rest\<rparr>, result))"

section \<open>Trackers and results\<close>

text \<open>The callers index within the list of files.\<close>

definition tracker_at :: "pipeline \<Rightarrow> nat \<Rightarrow> file_tracker option" where
  "tracker_at p i = (if i < length (ip_trackers p) then ip_trackers p ! i else None)"

definition set_tracker :: "nat \<Rightarrow> file_tracker \<Rightarrow> pipeline \<Rightarrow> pipeline" where
  "set_tracker i t p = p\<lparr>ip_trackers := (ip_trackers p)[i := Some t]\<rparr>"

definition set_result :: "nat \<Rightarrow> file_result \<Rightarrow> pipeline \<Rightarrow> pipeline" where
  "set_result i r p = p\<lparr>ip_results := (ip_results p)[i := Some r]\<rparr>"

definition update_tracker :: "(file_tracker \<Rightarrow> file_tracker) \<Rightarrow> nat \<Rightarrow> pipeline \<Rightarrow> pipeline" where
  "update_tracker f i p = (case tracker_at p i of None \<Rightarrow> p | Some t \<Rightarrow> set_tracker i (f t) p)"

definition record_cancelled :: "string list \<Rightarrow> pipeline \<Rightarrow> pipeline" where
  "record_cancelled labels p =
     p\<lparr>ip_results := map (\<lambda>idx.
         case ip_results p ! idx of
           Some r \<Rightarrow> Some r
         | None \<Rightarrow>
             Some (case tracker_at p idx of
                     Some t \<Rightarrow> \<lparr>fr_file = ft_name t, fr_status = ''cancelled'', fr_error = None,
                       fr_messages = ft_successful_messages t, fr_attachments = ft_attachments t,
                       fr_message_import_ms = Some (ft_message_import_ms t)\<rparr>
                   | None \<Rightarrow> result_cancelled (labels ! idx)))
       [0..<length labels]\<rparr>"

definition into_results :: "pipeline \<Rightarrow> file_result list \<times> message_accounting" where
  "into_results p = (List.map_filter id (ip_results p), ip_accounting p)"

definition pending_is_worth_overlapping :: "pipeline \<Rightarrow> bool" where
  "pending_is_worth_overlapping p = (case ip_pending p of None \<Rightarrow> False | Some b \<Rightarrow> is_worth_overlapping b)"

definition pending_source_differs :: "pipeline \<Rightarrow> string \<Rightarrow> bool" where
  "pending_source_differs p source = (case ip_pending p of None \<Rightarrow> False | Some b \<Rightarrow> ib_source b \<noteq> source)"

definition record_skipped :: "nat \<Rightarrow> string \<Rightarrow> pipeline \<Rightarrow> pipeline" where
  "record_skipped idx name p = set_result idx (result_skipped name) p"

definition note_failure ::
  "(journal_event \<Rightarrow> u8 list) \<Rightarrow> string \<Rightarrow> string \<Rightarrow> string \<Rightarrow> string \<Rightarrow> pipeline \<Rightarrow> pipeline" where
  "note_failure ser source name stage_name error p =
     fst (with_journal (\<lambda>flt j. (record_failure ser flt j source name stage_name error, ())) p)"

definition record_prepare_failure ::
  "(journal_event \<Rightarrow> u8 list) \<Rightarrow> nat \<Rightarrow> string \<Rightarrow> string \<Rightarrow> pipeline \<Rightarrow> pipeline" where
  "record_prepare_failure ser idx name error p =
     set_result idx (result_failed name error) (note_failure ser [] name ''file'' error p)"

definition start_file :: "nat \<Rightarrow> string \<Rightarrow> prepared_file \<Rightarrow> pipeline \<Rightarrow> pipeline" where
  "start_file idx name prepared p = set_tracker idx (file_tracker_new name prepared) p"

section \<open>One request\<close>

text \<open>Each conversation of a batch gets a share of its time, the first the remainder.\<close>

definition charge_request_time :: "nat list \<Rightarrow> nat \<Rightarrow> pipeline \<Rightarrow> pipeline" where
  "charge_request_time represented request_ms p =
     (let conversation_count = max 1 (length represented);
          share_ms = request_ms div conversation_count;
          remainder_ms = request_ms mod conversation_count
      in fold (\<lambda>(position, index).
           update_tracker (\<lambda>t. t\<lparr>ft_message_import_ms :=
             sat_add (ft_message_import_ms t) (share_ms + (if position = 0 then remainder_ms else 0))\<rparr>) index)
         (enumerate 0 represented) p)"

definition describe_batch_error :: "pipeline \<Rightarrow> import_batch \<Rightarrow> batch_error \<Rightarrow> string" where
  "describe_batch_error p b error =
     (case Option.bind (be_refused_line error) (batch_origin b) of
        None \<Rightarrow> be_message error
      | Some origin \<Rightarrow>
          (case tracker_at p (lo_file_index origin) of
             None \<Rightarrow> be_message error
           | Some t \<Rightarrow> ''line '' @ dec_string (lo_file_line origin) @ '' of '' @ ft_name t @ '': '' @ be_message error))"

definition finish_file_if_settled :: "(journal_event \<Rightarrow> u8 list) \<Rightarrow> nat \<Rightarrow> pipeline \<Rightarrow> pipeline \<times> (string + unit)" where
  "finish_file_if_settled ser idx p =
     (case tracker_at p idx of
        None \<Rightarrow> (p, Inr ())
      | Some t \<Rightarrow>
          if \<not> is_settled t then (p, Inr ())
          else
            (let p = set_tracker idx (t\<lparr>ft_done := True\<rparr>) p
             in case ft_failed t of
                  Some error \<Rightarrow>
                    (set_result idx \<lparr>fr_file = ft_name t, fr_status = ''failed'', fr_error = Some error, fr_messages = 0,
                       fr_attachments = ft_attachments t, fr_message_import_ms = Some (ft_message_import_ms t)\<rparr> p, Inr ())
                | None \<Rightarrow>
                    then_do (with_journal (\<lambda>flt j. file_ok ser flt j (ft_source t) (ft_name t)) p) (\<lambda>p _.
                      (set_result idx \<lparr>fr_file = ft_name t, fr_status = ''ok'', fr_error = None,
                         fr_messages = ft_successful_messages t, fr_attachments = ft_attachments t,
                         fr_message_import_ms = Some (ft_message_import_ms t)\<rparr> p, Inr ()))))"

fun finish_files :: "(journal_event \<Rightarrow> u8 list) \<Rightarrow> nat list \<Rightarrow> pipeline \<Rightarrow> pipeline \<times> (string + unit)" where
  "finish_files ser [] p = (p, Inr ())"
| "finish_files ser (i # is) p = then_do (finish_file_if_settled ser i p) (\<lambda>p _. finish_files ser is p)"

definition accept_message :: "batch_message \<Rightarrow> pipeline \<Rightarrow> pipeline" where
  "accept_message m =
     update_tracker (\<lambda>t. t\<lparr>ft_outstanding_messages := ft_outstanding_messages t - 1,
       ft_successful_messages := sat_add (ft_successful_messages t) 1\<rparr>) (bm_file_index m)"

definition fail_file :: "(journal_event \<Rightarrow> u8 list) \<Rightarrow> string \<Rightarrow> string \<Rightarrow> nat \<Rightarrow> pipeline \<Rightarrow> pipeline" where
  "fail_file ser source error index p =
     (case tracker_at p index of
        None \<Rightarrow> p
      | Some t \<Rightarrow>
          if ft_failed t = None
          then note_failure ser source (ft_name t) ''import'' error (set_tracker index (t\<lparr>ft_failed := Some error\<rparr>) p)
          else p)"

definition apply_outcome ::
  "(journal_event \<Rightarrow> u8 list) \<Rightarrow> import_batch \<Rightarrow> nat \<Rightarrow> batch_error + import_response \<Rightarrow> pipeline \<Rightarrow> pipeline \<times> (string + bool)" where
  "apply_outcome ser b request_ms response p =
     (let represented = file_indexes b;
          p = p\<lparr>ip_joined := ip_joined p @ [(b, response)],
                ip_accounting := (ip_accounting p)\<lparr>ac_attempted := sat_add (ac_attempted (ip_accounting p)) (length (ib_messages b))\<rparr>\<rparr>;
          p = charge_request_time represented request_ms p
      in then_do
           (case response of
              Inr rs \<Rightarrow>
                (let acc = ip_accounting p;
                     p = p\<lparr>ip_accounting := acc\<lparr>ac_inserted := sat_add (ac_inserted acc) (rs_messages_appended rs),
                           ac_deduped := sat_add (ac_deduped acc) (rs_messages_deduped rs)\<rparr>\<rparr>
                 in then_do (with_journal (\<lambda>flt j. message_batch_ok ser flt j (ib_source b) (map bm_journal (ib_messages b))) p)
                      (\<lambda>p _. (fold accept_message (ib_messages b) p, Inr True)))
            | Inl error \<Rightarrow>
                (let acc = ip_accounting p;
                     p = p\<lparr>ip_accounting := acc\<lparr>ac_failed := sat_add (ac_failed acc) (length (ib_messages b))\<rparr>\<rparr>;
                     text = describe_batch_error p b error
                 in (fold (fail_file ser (ib_source b) text) represented p, Inr False)))
           (\<lambda>p request_ok. then_do (finish_files ser represented p) (\<lambda>p _. (p, Inr request_ok))))"

definition join_inflight :: "(journal_event \<Rightarrow> u8 list) \<Rightarrow> pipeline \<Rightarrow> pipeline \<times> (string + bool)" where
  "join_inflight ser p =
     (case ip_inflight p of
        None \<Rightarrow> (p, Inr True)
      | Some b \<Rightarrow>
          (let (p, answer) = next_answer (p\<lparr>ip_inflight := None\<rparr>)
           in case answer of
                Panicked \<Rightarrow> (p, Inl ''import worker panicked'')
              | Answered request_ms response \<Rightarrow> apply_outcome ser b request_ms response p))"

section \<open>Queueing and flushing\<close>

definition flush :: "(journal_event \<Rightarrow> u8 list) \<Rightarrow> bool \<Rightarrow> pipeline \<Rightarrow> pipeline \<times> (string + bool)" where
  "flush ser wait p =
     then_do (join_inflight ser p) (\<lambda>p ok.
       case ip_pending p of
         None \<Rightarrow> (p, Inr ok)
       | Some b \<Rightarrow>
           (let (p, cancelled) = is_cancelled (p\<lparr>ip_pending := None\<rparr>)
            in if cancelled then (p, Inr False)
               else
                 (let p = p\<lparr>ip_inflight := Some b\<rparr>
                  in if wait then join_inflight ser p else (p, Inr ok))))"

definition flush_and_continue :: "(journal_event \<Rightarrow> u8 list) \<Rightarrow> bool \<Rightarrow> pipeline \<Rightarrow> pipeline \<times> (string + bool)" where
  "flush_and_continue ser wait p =
     then_do (flush ser wait p) (\<lambda>p request_ok.
       if request_ok then (p, Inr True)
       else (let (p, cancelled) = is_cancelled p in (p, Inr (\<not> cancelled))))"

definition flush_for_file :: "(journal_event \<Rightarrow> u8 list) \<Rightarrow> nat \<Rightarrow> pipeline \<Rightarrow> pipeline \<times> (string + chunk_step)" where
  "flush_for_file ser idx p =
     then_do (flush_and_continue ser False p) (\<lambda>p go_on.
       (p, Inr (if \<not> go_on then Abort
                else if (case tracker_at p idx of None \<Rightarrow> False | Some t \<Rightarrow> ft_failed t \<noteq> None) then FileFailed
                else Continue)))"

definition add_chunk :: "(journal_event \<Rightarrow> u8 list) \<Rightarrow> nat \<Rightarrow> import_chunk \<Rightarrow> pipeline \<Rightarrow> pipeline \<times> (string + chunk_step)" where
  "add_chunk ser idx chunk p =
     (let source = (case tracker_at p idx of None \<Rightarrow> [] | Some t \<Rightarrow> ft_source t);
          b = batch_push idx chunk (case ip_pending p of None \<Rightarrow> batch_new source | Some b \<Rightarrow> b);
          p = p\<lparr>ip_pending := Some b, ip_queued := ip_queued p @ [(idx, chunk)]\<rparr>
      in if is_full b (ip_batch_size p) MAX_IMPORT_BODY_BYTES then flush_for_file ser idx p else (p, Inr Continue))"

definition queue_chunk :: "(journal_event \<Rightarrow> u8 list) \<Rightarrow> nat \<Rightarrow> import_chunk \<Rightarrow> pipeline \<Rightarrow> pipeline \<times> (string + chunk_step)" where
  "queue_chunk ser idx chunk p =
     (let must_flush_first =
            (case ip_pending p of None \<Rightarrow> False
             | Some b \<Rightarrow> would_overflow b chunk (ip_batch_size p) MAX_IMPORT_BODY_BYTES)
      in then_do (if must_flush_first then flush_for_file ser idx p else (p, Inr Continue)) (\<lambda>p step.
           if step \<noteq> Continue then (p, Inr step) else add_chunk ser idx chunk p))"

definition finish_queueing :: "(journal_event \<Rightarrow> u8 list) \<Rightarrow> nat \<Rightarrow> pipeline \<Rightarrow> pipeline \<times> (string + unit)" where
  "finish_queueing ser idx p =
     finish_file_if_settled ser idx (update_tracker (\<lambda>t. t\<lparr>ft_queue_complete := True\<rparr>) idx p)"

end
