(* ===== verification/PushRun.thy ===== *)
theory PushRun
  imports PushPipeline
begin

text \<open>
  One push (\<open>crates/libs/push/src/run.rs\<close>, the prepare queue of \<open>prepare.rs\<close> and the counts of
  \<open>report.rs\<close>), from the open journal and the list of conversation files to the report. What a worker
  makes of a file is a parameter; what the workers do next is a list of events in the queue, each a
  running job that is finished or whose worker panics. The job of a panicked worker is lost, and a
  wait when nothing will be sent never ends: it is \<open>None\<close>. A run one of whose workers panicked ends in
  no report either, because the scope of the threads panics in turn: it is \<open>None\<close> too. The loop runs
  on fuel.
\<close>

section \<open>The prepare queue\<close>

datatype prepare_outcome = PrepareSkipped | Prepared prepared_file | PrepareFailed string

record prepare_result =
  pr_idx :: nat
  pr_name :: string
  pr_outcome :: prepare_outcome

text \<open>What a worker does next, with the position of its job among the running ones.\<close>

datatype worker_event = Finishes nat | Panics nat

fun is_panic :: "worker_event \<Rightarrow> bool" where
  "is_panic (Finishes k) = False"
| "is_panic (Panics k) = True"

text \<open>\<open>pq_jobs\<close> are the jobs sent and not finished, in the order sent, \<open>pq_workers\<close> the threads alive.\<close>

record prepare_queue =
  pq_capacity :: nat
  pq_inflight :: nat
  pq_ready :: "nat \<Rightarrow> prepare_result option"
  pq_jobs :: "(nat \<times> string) list"
  pq_workers :: nat
  pq_panicked :: bool
  pq_finishing :: "worker_event list"

definition queue_start :: "nat \<Rightarrow> nat \<Rightarrow> worker_event list \<Rightarrow> prepare_queue" where
  "queue_start workers capacity finishing =
     \<lparr>pq_capacity = capacity, pq_inflight = 0, pq_ready = (\<lambda>_. None), pq_jobs = [],
      pq_workers = workers, pq_panicked = False, pq_finishing = finishing\<rparr>"

definition has_capacity :: "prepare_queue \<Rightarrow> bool" where
  "has_capacity q \<longleftrightarrow> pq_inflight q < pq_capacity q"

definition is_idle :: "prepare_queue \<Rightarrow> bool" where
  "is_idle q \<longleftrightarrow> pq_inflight q = 0"

definition submit :: "nat \<Rightarrow> string \<Rightarrow> prepare_queue \<Rightarrow> prepare_queue" where
  "submit idx name q = q\<lparr>pq_jobs := pq_jobs q @ [(idx, name)], pq_inflight := pq_inflight q + 1\<rparr>"

definition mark_skipped :: "nat \<Rightarrow> string \<Rightarrow> prepare_queue \<Rightarrow> prepare_queue" where
  "mark_skipped idx name q =
     q\<lparr>pq_ready := (pq_ready q)(idx \<mapsto> \<lparr>pr_idx = idx, pr_name = name, pr_outcome = PrepareSkipped\<rparr>)\<rparr>"

definition is_ready :: "nat \<Rightarrow> prepare_queue \<Rightarrow> bool" where
  "is_ready idx q \<longleftrightarrow> pq_ready q idx \<noteq> None"

definition take_ready :: "nat \<Rightarrow> prepare_queue \<Rightarrow> prepare_queue \<times> prepare_result option" where
  "take_ready idx q = (q\<lparr>pq_ready := (pq_ready q)(idx := None)\<rparr>, pq_ready q idx)"

definition worker_result :: "(nat \<Rightarrow> string + prepared_file) \<Rightarrow> nat \<times> string \<Rightarrow> prepare_result" where
  "worker_result prepare job =
     \<lparr>pr_idx = fst job, pr_name = snd job,
      pr_outcome = (case prepare (fst job) of Inr prepared \<Rightarrow> Prepared prepared | Inl error \<Rightarrow> PrepareFailed error)\<rparr>"

text \<open>The workers take the jobs in order, so the running ones are the first, one for each worker.\<close>

definition job_at :: "nat \<Rightarrow> prepare_queue \<Rightarrow> nat" where
  "job_at k q = k mod min (pq_workers q) (length (pq_jobs q))"

definition drop_job :: "nat \<Rightarrow> prepare_queue \<Rightarrow> prepare_queue" where
  "drop_job k q = q\<lparr>pq_jobs := List.take k (pq_jobs q) @ drop (Suc k) (pq_jobs q)\<rparr>"

text \<open>A result arrives, and is buffered.\<close>

definition deliver :: "(nat \<Rightarrow> string + prepared_file) \<Rightarrow> nat \<Rightarrow> prepare_queue \<Rightarrow> prepare_queue" where
  "deliver prepare k q =
     (let result = worker_result prepare (pq_jobs q ! k); q = drop_job k q
      in q\<lparr>pq_inflight := pq_inflight q - 1, pq_ready := (pq_ready q)(pr_idx result \<mapsto> result)\<rparr>)"

text \<open>A worker panics: its job will never be answered, and still counts as in flight.\<close>

definition lose_worker :: "nat \<Rightarrow> prepare_queue \<Rightarrow> prepare_queue" where
  "lose_worker k q = (let q = drop_job k q in q\<lparr>pq_workers := pq_workers q - 1, pq_panicked := True\<rparr>)"

text \<open>\<open>recv\<close> on the results: an error once the last worker is gone, and no end while one is alive and
  none has a job.\<close>

fun await ::
  "(nat \<Rightarrow> string + prepared_file) \<Rightarrow> worker_event list \<Rightarrow> prepare_queue \<Rightarrow> (prepare_queue \<times> (string + unit)) option" where
  "await prepare events q =
     (if pq_workers q = 0 then Some (q\<lparr>pq_finishing := events\<rparr>, Inl ''prepare worker disconnected'')
      else if pq_jobs q = [] then None
      else
        (case events of
           [] \<Rightarrow> Some (deliver prepare 0 q\<lparr>pq_finishing := []\<rparr>, Inr ())
         | Finishes k # rest \<Rightarrow> Some (deliver prepare (job_at k q) q\<lparr>pq_finishing := rest\<rparr>, Inr ())
         | Panics k # rest \<Rightarrow> await prepare rest (lose_worker (job_at k q) q)))"

declare await.simps [simp del]

definition wait_one :: "(nat \<Rightarrow> string + prepared_file) \<Rightarrow> prepare_queue \<Rightarrow> (prepare_queue \<times> (string + unit)) option" where
  "wait_one prepare q = await prepare (pq_finishing q) q"

text \<open>What was ready, then what the workers still finish; when none of them has panicked or does now.\<close>

definition worker_panics :: "prepare_queue \<Rightarrow> bool" where
  "worker_panics q \<longleftrightarrow> pq_panicked q \<or> list_ex is_panic (List.take (length (pq_jobs q)) (pq_finishing q))"

definition shutdown :: "(nat \<Rightarrow> string + prepared_file) \<Rightarrow> nat \<Rightarrow> prepare_queue \<Rightarrow> prepare_result list" where
  "shutdown prepare n q =
     List.map_filter (pq_ready q) [0..<n] @ map (worker_result prepare) (pq_jobs q)"

section \<open>The loop\<close>

definition asset_totals_add :: "asset_totals \<Rightarrow> asset_totals \<Rightarrow> asset_totals" where
  "asset_totals_add a b =
     \<lparr>at_uploaded = sat_add (at_uploaded a) (at_uploaded b), at_skipped = sat_add (at_skipped a) (at_skipped b),
      at_bytes = sat_add (at_bytes a) (at_bytes b)\<rparr>"

definition absorb_prepared :: "prepared_file \<Rightarrow> asset_totals \<Rightarrow> asset_totals" where
  "absorb_prepared prepared assets = asset_totals_add assets (pf_assets prepared)"

record drive_state =
  ds_pipeline :: pipeline
  ds_queue :: prepare_queue
  ds_assets :: asset_totals
  ds_next_submit :: nat
  ds_next_consume :: nat

definition already_imported :: "bool \<Rightarrow> bool \<Rightarrow> pipeline \<Rightarrow> string \<Rightarrow> bool" where
  "already_imported append_mode force p name \<longleftrightarrow> append_mode \<and> \<not> force \<and> has_file (ip_journal p) name"

definition submit_file :: "bool \<Rightarrow> bool \<Rightarrow> nat \<Rightarrow> string \<Rightarrow> prepare_queue \<Rightarrow> pipeline \<Rightarrow> prepare_queue \<times> pipeline" where
  "submit_file append_mode force idx name q p =
     (if already_imported append_mode force p name
      then (mark_skipped idx name q, record_skipped idx name p)
      else (submit idx name q, p))"

function submit_files :: "bool \<Rightarrow> bool \<Rightarrow> string list \<Rightarrow> drive_state \<Rightarrow> drive_state" where
  "submit_files append_mode force names s =
     (if ds_next_submit s < length names \<and> has_capacity (ds_queue s) then
        (let (q, p) = submit_file append_mode force (ds_next_submit s) (names ! ds_next_submit s) (ds_queue s) (ds_pipeline s)
         in submit_files append_mode force names
              (s\<lparr>ds_queue := q, ds_pipeline := p, ds_next_submit := ds_next_submit s + 1\<rparr>))
      else s)"
  by pat_completeness auto
termination by (relation "measure (\<lambda>(_, _, names, s). length names - ds_next_submit s)") auto

declare submit_files.simps [simp del]

fun queue_chunks :: "(journal_event \<Rightarrow> u8 list) \<Rightarrow> nat \<Rightarrow> import_chunk list \<Rightarrow> pipeline \<Rightarrow> pipeline \<times> (string + bool)" where
  "queue_chunks ser idx [] p = (p, Inr True)"
| "queue_chunks ser idx (chunk # rest) p =
     then_do (queue_chunk ser idx chunk p) (\<lambda>p step.
       case step of Continue \<Rightarrow> queue_chunks ser idx rest p | FileFailed \<Rightarrow> (p, Inr True) | Abort \<Rightarrow> (p, Inr False))"

definition import_prepared ::
  "(journal_event \<Rightarrow> u8 list) \<Rightarrow> nat \<Rightarrow> string \<Rightarrow> prepared_file \<Rightarrow> pipeline \<Rightarrow> pipeline \<times> (string + bool)" where
  "import_prepared ser idx name prepared p =
     then_do (if pending_source_differs p (pf_source prepared) then flush_and_continue ser False p else (p, Inr True))
       (\<lambda>p go_on.
          if \<not> go_on then (p, Inr False)
          else then_do (queue_chunks ser idx (pf_chunks prepared) (start_file idx name prepared p)) (\<lambda>p go_on.
                 if \<not> go_on then (p, Inr False)
                 else then_do (finish_queueing ser idx p) (\<lambda>p _. (p, Inr True))))"

definition consume_result ::
  "(journal_event \<Rightarrow> u8 list) \<Rightarrow> prepare_result \<Rightarrow> pipeline \<times> asset_totals \<Rightarrow> (pipeline \<times> asset_totals) \<times> (string + bool)" where
  "consume_result ser result pa =
     (case pr_outcome result of
        PrepareSkipped \<Rightarrow> (pa, Inr True)
      | PrepareFailed error \<Rightarrow> ((record_prepare_failure ser (pr_idx result) (pr_name result) error (fst pa), snd pa), Inr True)
      | Prepared prepared \<Rightarrow>
          (let (p, r) = import_prepared ser (pr_idx result) (pr_name result) prepared (fst pa)
           in ((p, absorb_prepared prepared (snd pa)), r)))"

text \<open>Every consecutive ready result; \<open>True\<close> when the run must abort. At most all files are ready.\<close>

fun consume_ready :: "(journal_event \<Rightarrow> u8 list) \<Rightarrow> nat \<Rightarrow> drive_state \<Rightarrow> drive_state \<times> (string + bool)" where
  "consume_ready ser 0 s = (s, Inr False)"
| "consume_ready ser (Suc n) s =
     (let (q, taken) = take_ready (ds_next_consume s) (ds_queue s)
      in case taken of
           None \<Rightarrow> (s, Inr False)
         | Some result \<Rightarrow>
             (let ((p, assets), r) = consume_result ser result (ds_pipeline s, ds_assets s);
                  s = s\<lparr>ds_queue := q, ds_pipeline := p, ds_assets := assets\<rparr>
              in then_do (s, r) (\<lambda>s go_on.
                   if go_on then consume_ready ser n (s\<lparr>ds_next_consume := ds_next_consume s + 1\<rparr>) else (s, Inr True))))"

text \<open>One turn of the loop: \<open>None\<close> when the loop goes on, else whether it was aborted.\<close>

definition drive_turn ::
  "(journal_event \<Rightarrow> u8 list) \<Rightarrow> (nat \<Rightarrow> string + prepared_file) \<Rightarrow> bool \<Rightarrow> bool \<Rightarrow> string list \<Rightarrow> drive_state \<Rightarrow>
   (drive_state \<times> (string + bool option)) option" where
  "drive_turn ser prepare append_mode force names s =
     (let (p, cancelled) = is_cancelled (ds_pipeline s); s = s\<lparr>ds_pipeline := p\<rparr>
      in if cancelled then Some (s, Inr (Some True))
         else
           (let (p, r) = (if pending_is_worth_overlapping p then flush_and_continue ser False p else (p, Inr True));
                s = s\<lparr>ds_pipeline := p\<rparr>
            in case r of
                 Inl e \<Rightarrow> Some (s, Inl e)
               | Inr go_on \<Rightarrow>
                   if \<not> go_on then Some (s, Inr (Some True))
                   else
                     (let s = submit_files append_mode force names s;
                          consume = (\<lambda>s. then_do (consume_ready ser (length names) s)
                            (\<lambda>s aborted. (s, Inr (if aborted then Some True else None))))
                      in if is_ready (ds_next_consume s) (ds_queue s) then Some (consume s)
                         else if is_idle (ds_queue s) \<and> length names \<le> ds_next_submit s then Some (s, Inr (Some False))
                         else map_option (\<lambda>(q, r). then_do (s\<lparr>ds_queue := q\<rparr>, r) (\<lambda>s _. consume s))
                                (wait_one prepare (ds_queue s)))))"

fun drive_loop ::
  "(journal_event \<Rightarrow> u8 list) \<Rightarrow> (nat \<Rightarrow> string + prepared_file) \<Rightarrow> bool \<Rightarrow> bool \<Rightarrow> string list \<Rightarrow> nat \<Rightarrow> drive_state \<Rightarrow>
   (drive_state \<times> (string + bool)) option" where
  "drive_loop ser prepare append_mode force names 0 s = None"
| "drive_loop ser prepare append_mode force names (Suc fuel) s =
     (if ds_next_consume s < length names then
        (case drive_turn ser prepare append_mode force names s of
           None \<Rightarrow> None
         | Some (s, Inl e) \<Rightarrow> Some (s, Inl e)
         | Some (s, Inr (Some aborted)) \<Rightarrow> Some (s, Inr aborted)
         | Some (s, Inr None) \<Rightarrow> drive_loop ser prepare append_mode force names fuel s)
      else Some (s, Inr False))"

definition drive ::
  "(journal_event \<Rightarrow> u8 list) \<Rightarrow> (nat \<Rightarrow> string + prepared_file) \<Rightarrow> bool \<Rightarrow> bool \<Rightarrow> string list \<Rightarrow> nat \<Rightarrow> nat \<Rightarrow>
   worker_event list \<Rightarrow> nat \<Rightarrow> pipeline \<Rightarrow> ((pipeline \<times> asset_totals) \<times> (string + bool)) option" where
  "drive ser prepare append_mode force names prepare_ahead prepare_workers finishing fuel p =
     (let ahead = max 1 prepare_ahead; workers = min (max 1 prepare_workers) ahead
      in case drive_loop ser prepare append_mode force names fuel
               \<lparr>ds_pipeline = p, ds_queue = queue_start workers ahead finishing,
                ds_assets = \<lparr>at_uploaded = 0, at_skipped = 0, at_bytes = 0\<rparr>, ds_next_submit = 0, ds_next_consume = 0\<rparr> of
           None \<Rightarrow> None
         | Some (s, r) \<Rightarrow>
             if worker_panics (ds_queue s) then None
             else Some ((ds_pipeline s,
               case r of Inl _ \<Rightarrow> ds_assets s
               | Inr _ \<Rightarrow> fold (\<lambda>leftover assets. case pr_outcome leftover of Prepared prepared \<Rightarrow> absorb_prepared prepared assets | _ \<Rightarrow> assets)
                            (shutdown prepare (length names) (ds_queue s)) (ds_assets s)), r))"

section \<open>The end of a run\<close>

definition settle :: "(journal_event \<Rightarrow> u8 list) \<Rightarrow> bool \<Rightarrow> pipeline \<Rightarrow> pipeline \<times> (string + bool)" where
  "settle ser aborted p =
     (let (p, aborted) = (if aborted then (p, True) else is_cancelled p)
      in then_do (if aborted then (p, Inr True)
                  else then_do (flush_and_continue ser True p) (\<lambda>p go_on. (p, Inr (\<not> go_on))))
           (\<lambda>p aborted. (if aborted then fst (join_inflight ser p) else p, Inr aborted)))"

record file_result_counts =
  fc_ok :: nat
  fc_failed :: nat
  fc_skipped :: nat
  fc_cancelled :: nat

definition count_file_results :: "file_result list \<Rightarrow> file_result_counts" where
  "count_file_results results =
     fold (\<lambda>r c. if fr_status r = ''ok'' then c\<lparr>fc_ok := fc_ok c + 1\<rparr>
                 else if fr_status r = ''failed'' then c\<lparr>fc_failed := fc_failed c + 1\<rparr>
                 else if fr_status r = ''skipped'' then c\<lparr>fc_skipped := fc_skipped c + 1\<rparr>
                 else if fr_status r = ''cancelled'' then c\<lparr>fc_cancelled := fc_cancelled c + 1\<rparr>
                 else c)
       results \<lparr>fc_ok = 0, fc_failed = 0, fc_skipped = 0, fc_cancelled = 0\<rparr>"

record push_report =
  rp_ok :: bool
  rp_cancelled :: bool
  rp_conversations_total :: nat
  rp_counts :: file_result_counts
  rp_messages :: message_accounting
  rp_assets :: asset_totals
  rp_results :: "file_result list"

definition outcome_status :: "push_report \<Rightarrow> bool \<Rightarrow> string" where
  "outcome_status report aborted =
     (let nothing_landed = 0 < rp_conversations_total report \<and> fc_ok (rp_counts report) = 0 \<and> fc_skipped (rp_counts report) = 0
      in if aborted \<or> nothing_landed then ''failed''
         else if 0 < fc_failed (rp_counts report) \<or> 0 < ac_failed (rp_messages report) then ''completed_with_issues''
         else ''completed'')"

text \<open>From the open journal to the report and whether the run was aborted; the journal of a clean run
  is compacted.\<close>

definition run_files ::
  "(journal_event \<Rightarrow> u8 list) \<Rightarrow> (string \<Rightarrow> journal_event option) \<Rightarrow> fault \<Rightarrow> (nat \<Rightarrow> string + prepared_file) \<Rightarrow>
   bool \<Rightarrow> bool \<Rightarrow> string list \<Rightarrow> nat \<Rightarrow> nat \<Rightarrow> nat \<Rightarrow> worker_event list \<Rightarrow> nat \<Rightarrow>
   run_journal_state \<Rightarrow> bool list \<Rightarrow> answer list \<Rightarrow> append_fault list \<Rightarrow> (pipeline \<times> (string + push_report \<times> bool)) option" where
  "run_files ser parse compact_fault prepare append_mode force names batch_size prepare_ahead prepare_workers finishing fuel journal polls answers faults =
     map_option (\<lambda>((p, assets), r).
       then_do (p, r) (\<lambda>p aborted.
         then_do (settle ser aborted p) (\<lambda>p aborted.
           (let (p, cancelled) = is_cancelled (record_cancelled names p);
                (results, accounting) = into_results p;
                counted = count_file_results results;
                clean = (fc_failed counted = 0 \<and> \<not> aborted);
                p = (if clean then p\<lparr>ip_journal := fst (compact_run ser parse compact_fault (ip_journal p))\<rparr> else p)
            in (p, Inr (\<lparr>rp_ok = clean, rp_cancelled = cancelled, rp_conversations_total = length names, rp_counts = counted,
                  rp_messages = accounting, rp_assets = assets, rp_results = results\<rparr>, aborted))))))
       (drive ser prepare append_mode force names prepare_ahead prepare_workers finishing fuel
          (pipeline_new journal (max 1 batch_size) (length names) polls answers faults))"

end
