(* ===== verification/PipelineInv.thy ===== *)
theory PipelineInv
  imports PushPipeline
begin

text \<open>
  The invariant of the import pipeline. A conversation is done without a failure only when as many
  of its messages were accepted as it has (\<open>book\<close>); while no error has ended the run, each tracker
  waits for exactly the messages not yet accepted (\<open>exact_book\<close>). The locale \<open>stepwise\<close> of
  \<open>StateErr\<close> carries the pair through the \<open>?\<close> operator.
\<close>

section \<open>Counting messages\<close>

definition accepted :: "pipeline \<Rightarrow> batch_message list" where
  "accepted p = concat (map (ib_messages \<circ> fst) (filter (\<lambda>(b, r). case r of Inr _ \<Rightarrow> True | Inl _ \<Rightarrow> False) (ip_joined p)))"

definition opt_messages :: "import_batch option \<Rightarrow> batch_message list" where
  "opt_messages b = (case b of None \<Rightarrow> [] | Some b \<Rightarrow> ib_messages b)"

definition all_messages :: "pipeline \<Rightarrow> batch_message list" where
  "all_messages p = concat (map (ib_messages \<circ> fst) (ip_joined p)) @ opt_messages (ip_inflight p) @ opt_messages (ip_pending p)"

definition queued_messages :: "(nat \<times> import_chunk) list \<Rightarrow> batch_message list" where
  "queued_messages q = concat (map (\<lambda>(i, c). tagged i (ic_messages c)) q)"

definition cnt :: "nat \<Rightarrow> batch_message list \<Rightarrow> nat" where
  "cnt i ms = length (filter (\<lambda>m. bm_file_index m = i) ms)"

lemma cnt_simps [simp]:
  "cnt i [] = 0"
  "cnt i (m # ms) = (if bm_file_index m = i then 1 else 0) + cnt i ms"
  "cnt i (a @ b) = cnt i a + cnt i b"
  by (simp_all add: cnt_def)

lemma subseq_mset: "subseq a b \<Longrightarrow> mset a \<subseteq># mset b"
proof (induction rule: list_emb.induct)
  case (list_emb_Cons xs ys y)
  then show ?case by (metis mset.simps(2) add_mset_add_single mset_subset_eq_add_left subset_mset.trans)
qed auto

lemma cnt_mset_mono: "mset a \<subseteq># mset b \<Longrightarrow> cnt i a \<le> cnt i b"
proof -
  assume "mset a \<subseteq># mset b"
  then have "size (filter_mset (\<lambda>m. bm_file_index m = i) (mset a)) \<le> size (filter_mset (\<lambda>m. bm_file_index m = i) (mset b))"
    by (intro size_mset_mono multiset_filter_mono)
  then show ?thesis by (simp add: cnt_def flip: mset_filter)
qed

lemma cnt_tagged: "cnt i (tagged j ms) = (if i = j then length ms else 0)"
  by (induction ms) (auto simp: tagged_def)

definition chunks_of_file :: "nat \<Rightarrow> (nat \<times> import_chunk) list \<Rightarrow> import_chunk list" where
  "chunks_of_file i q = map snd (filter (\<lambda>(j, c). j = i) q)"

lemma cnt_queued: "cnt i (queued_messages q) = sum_list (map (length \<circ> ic_messages) (chunks_of_file i q))"
  by (induction q) (auto simp: queued_messages_def chunks_of_file_def cnt_tagged)

lemma filter_queued:
  "filter (\<lambda>m. bm_file_index m = i) (queued_messages q) = concat (map (tagged i \<circ> ic_messages) (chunks_of_file i q))"
proof (induction q)
  case (Cons jc q)
  obtain j c where jc: "jc = (j, c)" by (cases jc)
  have "filter (\<lambda>m. bm_file_index m = i) (tagged j (ic_messages c)) = (if j = i then tagged j (ic_messages c) else [])"
    by (auto simp: tagged_def filter_empty_conv)
  then show ?case using Cons by (auto simp: queued_messages_def chunks_of_file_def jc)
qed (simp add: queued_messages_def chunks_of_file_def)

lemma sum_take_le: "sum_list (take k xs) \<le> sum_list (xs :: nat list)"
  by (metis append_take_drop_id le_add1 sum_list_append)

section \<open>Batches\<close>

definition batch_of :: "string \<Rightarrow> (nat \<times> import_chunk) list \<Rightarrow> import_batch" where
  "batch_of source parts = fold (\<lambda>(i, c). batch_push i c) parts (batch_new source)"

text \<open>A batch is a run of chunks of one source; more than one chunk only within both limits.\<close>

definition batch_ok :: "(nat \<Rightarrow> prepared_file) \<Rightarrow> nat \<Rightarrow> import_batch \<Rightarrow> bool" where
  "batch_ok prep n b \<longleftrightarrow>
     (\<exists>parts. b = batch_of (ib_source b) parts \<and> parts \<noteq> [] \<and>
        list_all (\<lambda>(i, c). c \<in> set (pf_chunks (prep i)) \<and> pf_source (prep i) = ib_source b) parts \<and>
        (length parts = 1 \<or> length (ib_messages b) \<le> n \<and> length (ib_body b) \<le> MAX_IMPORT_BODY_BYTES))"

lemma batch_push_simps [simp]:
  "ib_source (batch_push i c b) = ib_source b"
  "ib_messages (batch_push i c b) = ib_messages b @ tagged i (ic_messages c)"
  "ib_body (batch_push i c b) = ib_body b @ ic_body c"
  by (simp_all add: batch_push_def)

lemma batch_of_messages: "ib_messages (batch_of source parts) = queued_messages parts"
proof -
  have "ib_messages (fold (\<lambda>(i, c). batch_push i c) parts b) = ib_messages b @ queued_messages parts" for b
    by (induction parts arbitrary: b) (auto simp: queued_messages_def)
  then show ?thesis by (simp add: batch_of_def batch_new_def)
qed

lemma batch_of_source [simp]: "ib_source (batch_of source parts) = source"
proof -
  have "ib_source (fold (\<lambda>(i, c). batch_push i c) parts b) = ib_source b" for b
    by (induction parts arbitrary: b) auto
  then show ?thesis by (simp add: batch_of_def batch_new_def)
qed

lemma batch_ok_single:
  "c \<in> set (pf_chunks (prep i)) \<Longrightarrow> batch_ok prep n (batch_push i c (batch_new (pf_source (prep i))))"
  by (auto simp: batch_ok_def batch_of_def batch_new_def batch_push_def intro!: exI [of _ "[(i, c)]"])

lemma batch_ok_push:
  assumes "batch_ok prep n b" and "c \<in> set (pf_chunks (prep i))" and "pf_source (prep i) = ib_source b"
    and "\<not> would_overflow b c n MAX_IMPORT_BODY_BYTES" and "ib_messages b \<noteq> []"
  shows "batch_ok prep n (batch_push i c b)"
proof -
  obtain parts where b: "b = batch_of (ib_source b) parts"
    and parts: "list_all (\<lambda>(i, c). c \<in> set (pf_chunks (prep i)) \<and> pf_source (prep i) = ib_source b) parts"
    using assms(1) by (auto simp: batch_ok_def)
  have "batch_push i c b = batch_of (ib_source b) (parts @ [(i, c)])"
    by (subst (1) b) (simp add: batch_of_def)
  moreover have "length (ib_messages (batch_push i c b)) \<le> n" "length (ib_body (batch_push i c b)) \<le> MAX_IMPORT_BODY_BYTES"
    using assms(4,5) by (auto simp: would_overflow_def tagged_def)
  ultimately show ?thesis
    using assms(2,3) parts unfolding batch_ok_def by (intro exI [of _ "parts @ [(i, c)]"]) simp
qed

section \<open>The invariants\<close>

definition done_ok :: "pipeline \<Rightarrow> nat \<Rightarrow> bool" where
  "done_ok p i \<longleftrightarrow> (\<exists>t. tracker_at p i = Some t \<and> ft_done t \<and> ft_failed t = None)"

definition done_files :: "pipeline \<Rightarrow> string set" where
  "done_files p = js_files (rj_state (ip_journal p))"

definition failed_joined :: "pipeline \<Rightarrow> batch_message list" where
  "failed_joined p = concat (map (ib_messages \<circ> fst) (filter (\<lambda>(b, r). case r of Inr _ \<Rightarrow> False | Inl _ \<Rightarrow> True) (ip_joined p)))"

definition all_batches :: "pipeline \<Rightarrow> import_batch list" where
  "all_batches p = map fst (ip_joined p) @ (case ip_inflight p of None \<Rightarrow> [] | Some b \<Rightarrow> [b]) @
     (case ip_pending p of None \<Rightarrow> [] | Some b \<Rightarrow> [b])"

text \<open>Each conjunct by itself, over the parts of the state it is about.\<close>

definition messages_flow :: "(nat \<Rightarrow> prepared_file) \<Rightarrow> pipeline \<Rightarrow> bool" where
  "messages_flow prep p \<longleftrightarrow>
     subseq (all_messages p) (queued_messages (ip_queued p)) \<and>
     (\<forall>i. \<exists>k. chunks_of_file i (ip_queued p) = take k (pf_chunks (prep i))) \<and>
     (\<forall>i. chunks_of_file i (ip_queued p) \<noteq> [] \<longrightarrow> tracker_at p i \<noteq> None)"

definition trackers_true :: "(nat \<Rightarrow> prepared_file) \<Rightarrow> (nat \<Rightarrow> string) \<Rightarrow> pipeline \<Rightarrow> bool" where
  "trackers_true prep label p \<longleftrightarrow>
     (\<forall>i t. tracker_at p i = Some t \<longrightarrow>
        ft_name t = label i \<and> ft_source t = pf_source (prep i) \<and>
        (ft_done t \<longrightarrow> ft_failed t = None \<longrightarrow> message_count (prep i) \<le> cnt i (accepted p)))"

definition row_ok :: "(nat \<Rightarrow> string) \<Rightarrow> pipeline \<Rightarrow> nat \<Rightarrow> file_result \<Rightarrow> bool" where
  "row_ok label p i r \<longleftrightarrow>
     fr_file r = label i \<and> (fr_status r = ''ok'' \<and> done_ok p i \<or> fr_status r \<in> {''failed'', ''skipped''})"

definition results_true :: "string set \<Rightarrow> (nat \<Rightarrow> string) \<Rightarrow> pipeline \<Rightarrow> bool" where
  "results_true files0 label p \<longleftrightarrow>
     (\<forall>i r. i < length (ip_results p) \<longrightarrow> ip_results p ! i = Some r \<longrightarrow> row_ok label p i r) \<and>
     done_files p \<subseteq> files0 \<union> label ` {i. done_ok p i}"

definition batches_true :: "(nat \<Rightarrow> prepared_file) \<Rightarrow> pipeline \<Rightarrow> bool" where
  "batches_true prep p \<longleftrightarrow> list_all (\<lambda>b. batch_ok prep (ip_batch_size p) b \<and> ib_messages b \<noteq> []) (all_batches p)"

definition answers_of :: "(import_batch \<times> (batch_error + import_response)) list \<Rightarrow> import_response list" where
  "answers_of js = concat (map (\<lambda>(b, r). case r of Inr rs \<Rightarrow> [rs] | Inl _ \<Rightarrow> []) js)"

lemma answers_of_simps [simp]:
  "answers_of [] = []"
  "answers_of (js @ [(b, r)]) = answers_of js @ (case r of Inr rs \<Rightarrow> [rs] | Inl _ \<Rightarrow> [])"
  by (simp_all add: answers_of_def)

definition totals_true :: "pipeline \<Rightarrow> bool" where
  "totals_true p \<longleftrightarrow>
     ac_attempted (ip_accounting p) = min (length (accepted p) + length (failed_joined p)) (2 ^ 64 - 1) \<and>
     ac_failed (ip_accounting p) = min (length (failed_joined p)) (2 ^ 64 - 1) \<and>
     ac_inserted (ip_accounting p) = min (sum_list (map rs_messages_appended (answers_of (ip_joined p)))) (2 ^ 64 - 1) \<and>
     ac_deduped (ip_accounting p) = min (sum_list (map rs_messages_deduped (answers_of (ip_joined p)))) (2 ^ 64 - 1)"

definition book :: "(nat \<Rightarrow> prepared_file) \<Rightarrow> (nat \<Rightarrow> string) \<Rightarrow> string set \<Rightarrow> pipeline \<Rightarrow> bool" where
  "book prep label files0 p \<longleftrightarrow>
     messages_flow prep p \<and> trackers_true prep label p \<and> results_true files0 label p \<and> batches_true prep p \<and> totals_true p"

definition counts_exact :: "(nat \<Rightarrow> prepared_file) \<Rightarrow> pipeline \<Rightarrow> bool" where
  "counts_exact prep p \<longleftrightarrow>
     (\<forall>i t. tracker_at p i = Some t \<longrightarrow>
        ft_outstanding_messages t = message_count (prep i) - cnt i (accepted p))"

definition exact_book :: "(nat \<Rightarrow> prepared_file) \<Rightarrow> (nat \<Rightarrow> string) \<Rightarrow> string set \<Rightarrow> pipeline \<Rightarrow> bool" where
  "exact_book prep label files0 p \<longleftrightarrow> book prep label files0 p \<and> counts_exact prep p"

interpretation pipe: stepwise "exact_book prep label files0" "book prep label files0" for prep label files0
  by unfold_locales (simp add: exact_book_def)

lemma flow_mset: "messages_flow prep p \<Longrightarrow> mset (all_messages p) \<subseteq># mset (queued_messages (ip_queued p))"
  by (simp add: messages_flow_def subseq_mset)

text \<open>What the invariants look at, but for the counts of the trackers.\<close>

definition core :: "file_tracker \<Rightarrow> string \<times> string \<times> string option \<times> bool" where
  "core t = (ft_name t, ft_source t, ft_failed t, ft_done t)"

definition looks_same :: "pipeline \<Rightarrow> pipeline \<Rightarrow> bool" where
  "looks_same p p' \<longleftrightarrow>
     ip_batch_size p' = ip_batch_size p \<and> ip_pending p' = ip_pending p \<and> ip_inflight p' = ip_inflight p \<and>
     ip_results p' = ip_results p \<and> ip_accounting p' = ip_accounting p \<and> done_files p' = done_files p \<and>
     ip_joined p' = ip_joined p \<and> ip_queued p' = ip_queued p \<and> length (ip_trackers p') = length (ip_trackers p) \<and>
     (\<forall>i. map_option core (tracker_at p' i) = map_option core (tracker_at p i))"

definition counts_same :: "pipeline \<Rightarrow> pipeline \<Rightarrow> bool" where
  "counts_same p p' \<longleftrightarrow>
     (\<forall>i. map_option ft_outstanding_messages (tracker_at p' i) = map_option ft_outstanding_messages (tracker_at p i))"

lemma looks_same_refl [simp]: "looks_same p p" "counts_same p p"
  by (simp_all add: looks_same_def counts_same_def)

lemma looks_same_trans: "looks_same p q \<Longrightarrow> looks_same q r \<Longrightarrow> looks_same p r"
  by (simp add: looks_same_def)

lemma counts_same_trans: "counts_same p q \<Longrightarrow> counts_same q r \<Longrightarrow> counts_same p r"
  by (simp add: counts_same_def)

lemma looks_same_sym: "looks_same p p' \<Longrightarrow> looks_same p' p"
  by (simp add: looks_same_def)

lemma looks_same_tracker:
  assumes "looks_same p p'" and "tracker_at p' i = Some t'"
  obtains t where "tracker_at p i = Some t" "ft_name t' = ft_name t" "ft_source t' = ft_source t"
    "ft_failed t' = ft_failed t" "ft_done t' = ft_done t"
proof -
  have "map_option core (tracker_at p i) = Some (core t')"
    using assms by (metis looks_same_def option.simps(9))
  then show ?thesis by (auto simp: core_def intro: that)
qed

lemma done_ok_core: "done_ok p i \<longleftrightarrow> (\<exists>n s. map_option core (tracker_at p i) = Some (n, s, None, True))"
  by (auto simp: done_ok_def core_def)

lemma looks_same_done_ok: "looks_same p p' \<Longrightarrow> done_ok p' = done_ok p"
  by (intro ext) (simp add: done_ok_core looks_same_def)

lemma looks_same_messages:
  assumes "looks_same p p'"
  shows "accepted p' = accepted p" "failed_joined p' = failed_joined p" "all_messages p' = all_messages p" "all_batches p' = all_batches p"
  using assms by (simp_all add: looks_same_def accepted_def failed_joined_def all_messages_def all_batches_def)

lemma looks_same_none: "looks_same p p' \<Longrightarrow> (tracker_at p' i = None) = (tracker_at p i = None)"
  by (metis looks_same_def option.map_disc_iff)

lemma looks_same_book:
  assumes same: "looks_same p p'" and "book prep label files0 p"
  shows "book prep label files0 p'"
proof -
  note b = assms(2) [unfolded book_def]
  have flow: "messages_flow prep p'"
    using b same looks_same_none [OF same] unfolding messages_flow_def looks_same_messages [OF same] by (simp add: looks_same_def)
  have "trackers_true prep label p'"
    unfolding trackers_true_def looks_same_messages [OF same]
  proof (intro allI impI)
    fix i t' assume "tracker_at p' i = Some t'"
    with same obtain t where "tracker_at p i = Some t" "ft_name t' = ft_name t" "ft_source t' = ft_source t"
      "ft_failed t' = ft_failed t" "ft_done t' = ft_done t" by (rule looks_same_tracker)
    then show "ft_name t' = label i \<and> ft_source t' = pf_source (prep i) \<and>
        (ft_done t' \<longrightarrow> ft_failed t' = None \<longrightarrow> message_count (prep i) \<le> cnt i (accepted p))"
      using b unfolding trackers_true_def by simp
  qed
  moreover have "results_true files0 label p'"
    using b same looks_same_done_ok [OF same] unfolding results_true_def row_ok_def by (simp add: looks_same_def)
  moreover have "batches_true prep p'" "totals_true p'"
    using b same unfolding batches_true_def totals_true_def looks_same_messages [OF same] by (simp_all add: looks_same_def)
  ultimately show ?thesis using flow by (simp add: book_def)
qed

lemma counts_same_exact:
  assumes "counts_same p p'" and "accepted p' = accepted p" and "counts_exact prep p"
  shows "counts_exact prep p'"
  unfolding counts_exact_def assms(2)
proof (intro allI impI)
  fix i t' assume "tracker_at p' i = Some t'"
  with assms(1) obtain t where "tracker_at p i = Some t" "ft_outstanding_messages t' = ft_outstanding_messages t"
    unfolding counts_same_def by (metis (no_types, lifting) map_option_eq_Some)
  then show "ft_outstanding_messages t' = message_count (prep i) - cnt i (accepted p)"
    using assms(3) by (simp add: counts_exact_def)
qed

lemma looks_same_exact_book:
  "looks_same p p' \<Longrightarrow> counts_same p p' \<Longrightarrow> exact_book prep label files0 p \<Longrightarrow> exact_book prep label files0 p'"
  by (simp add: exact_book_def looks_same_book counts_same_exact looks_same_messages)

section \<open>Small steps that look the same\<close>

lemma tracker_at_set [simp]:
  "tracker_at (set_tracker i t p) j = (if i = j \<and> i < length (ip_trackers p) then Some t else tracker_at p j)"
  by (auto simp: tracker_at_def set_tracker_def)

lemma tracker_at_some: "tracker_at p i = Some t \<Longrightarrow> i < length (ip_trackers p)"
  by (simp add: tracker_at_def split: if_splits)

lemma set_tracker_parts [simp]:
  "ip_batch_size (set_tracker i t p) = ip_batch_size p" "ip_pending (set_tracker i t p) = ip_pending p"
  "ip_inflight (set_tracker i t p) = ip_inflight p" "ip_results (set_tracker i t p) = ip_results p"
  "ip_accounting (set_tracker i t p) = ip_accounting p" "ip_journal (set_tracker i t p) = ip_journal p"
  "ip_joined (set_tracker i t p) = ip_joined p" "ip_queued (set_tracker i t p) = ip_queued p"
  "length (ip_trackers (set_tracker i t p)) = length (ip_trackers p)"
  by (simp_all add: set_tracker_def)

lemma tracker_at_update [simp]:
  "tracker_at (update_tracker f i p) j = (if i = j then map_option f (tracker_at p i) else tracker_at p j)"
  by (auto simp: update_tracker_def tracker_at_some split: option.split)

lemma update_tracker_parts [simp]:
  "ip_batch_size (update_tracker f i p) = ip_batch_size p" "ip_pending (update_tracker f i p) = ip_pending p"
  "ip_inflight (update_tracker f i p) = ip_inflight p" "ip_results (update_tracker f i p) = ip_results p"
  "ip_accounting (update_tracker f i p) = ip_accounting p" "ip_journal (update_tracker f i p) = ip_journal p"
  "ip_joined (update_tracker f i p) = ip_joined p" "ip_queued (update_tracker f i p) = ip_queued p"
  "length (ip_trackers (update_tracker f i p)) = length (ip_trackers p)"
  by (simp_all add: update_tracker_def split: option.split)

lemma looks_same_update:
  "(\<And>t. core (f t) = core t) \<Longrightarrow> looks_same p (update_tracker f i p)"
  by (simp add: looks_same_def done_files_def option.map_comp comp_def)

lemma counts_same_update:
  "(\<And>t. ft_outstanding_messages (f t) = ft_outstanding_messages t) \<Longrightarrow> counts_same p (update_tracker f i p)"
  by (simp add: counts_same_def option.map_comp comp_def)

lemma charge_same: "looks_same p (charge_request_time represented ms p) \<and> counts_same p (charge_request_time represented ms p)"
proof -
  have "looks_same p (fold (\<lambda>(position, index). update_tracker (f position) index) l p) \<and>
      counts_same p (fold (\<lambda>(position, index). update_tracker (f position) index) l p)"
    if "\<And>k t. core (f k t) = core t" "\<And>k t. ft_outstanding_messages (f k t) = ft_outstanding_messages t"
    for l :: "(nat \<times> nat) list" and f
  proof (induction l arbitrary: p)
    case (Cons x l)
    obtain k i where x: "x = (k, i)" by (cases x)
    have "looks_same p (update_tracker (f k) i p)" "counts_same p (update_tracker (f k) i p)"
      by (rule looks_same_update counts_same_update, rule that)+
    then show ?case
      using Cons [of "update_tracker (f k) i p"] looks_same_trans counts_same_trans by (simp add: x)
  qed simp
  then show ?thesis by (simp add: charge_request_time_def Let_def core_def)
qed

lemma record_failure_files: "rj_state (record_failure ser flt run source name stage_name e) = rj_state run"
  by (simp add: record_failure_def append_to_run_def Let_def split: prod.splits)

lemma with_journal_parts:
  assumes "with_journal f p = (p', r)"
  shows "\<exists>flt rest. p' = p\<lparr>ip_journal := fst (f flt (ip_journal p)), ip_append_faults := rest\<rparr> \<and> r = snd (f flt (ip_journal p))"
proof -
  obtain flt rest where "(case ip_append_faults p of [] \<Rightarrow> (AppendWorks, []) | x # xs \<Rightarrow> (x, xs)) = (flt, rest)" by (rule prod.exhaust)
  then show ?thesis using assms by (intro exI [of _ flt] exI [of _ rest]) (auto simp: with_journal_def split: prod.splits)
qed

lemma journal_step_same:
  assumes "with_journal f p = (p', r)" and "\<And>flt j. js_files (rj_state (fst (f flt j))) = js_files (rj_state j)"
  shows "looks_same p p' \<and> counts_same p p'"
  using with_journal_parts [OF assms(1)] assms(2)
  by (auto simp: looks_same_def counts_same_def done_files_def tracker_at_def)

lemma note_failure_same: "looks_same p (note_failure ser source name stage_name e p)" "counts_same p (note_failure ser source name stage_name e p)"
proof -
  obtain p' r where w: "with_journal (\<lambda>flt j. (record_failure ser flt j source name stage_name e, ())) p = (p', r)" by (rule prod.exhaust)
  from journal_step_same [OF this] show "looks_same p (note_failure ser source name stage_name e p)" "counts_same p (note_failure ser source name stage_name e p)"
    by (simp_all add: note_failure_def w record_failure_files)
qed

lemma message_batch_ok_files: "js_files (rj_state (fst (message_batch_ok ser flt run source ms))) = js_files (rj_state run)"
  by (simp add: message_batch_ok_def append_to_run_def Let_def split: prod.splits)

lemma file_ok_files: "js_files (rj_state (fst (file_ok ser flt run source name))) = insert name (js_files (rj_state run))"
  by (simp add: file_ok_def append_to_run_def Let_def split: prod.splits)

end
