(* ===== verification/PipelineSafe.thy ===== *)
theory PipelineSafe
  imports PipelineInv
begin

text \<open>
  Every operation of the import pipeline keeps the books of \<open>PipelineInv\<close>: joining a request, failing
  its conversations or crediting them, finishing a conversation, flushing. \<open>frame\<close> is what a flush
  leaves as it was.
\<close>

section \<open>Joining a request\<close>

lemma tracker_at_parts [simp]:
  "tracker_at (p\<lparr>ip_accounting := a\<rparr>) i = tracker_at p i"
  "tracker_at (p\<lparr>ip_joined := j\<rparr>) i = tracker_at p i"
  "tracker_at (p\<lparr>ip_inflight := f\<rparr>) i = tracker_at p i"
  "tracker_at (p\<lparr>ip_pending := f\<rparr>) i = tracker_at p i"
  "tracker_at (p\<lparr>ip_queued := q\<rparr>) i = tracker_at p i"
  "tracker_at (p\<lparr>ip_journal := q2\<rparr>) i = tracker_at p i"
  "tracker_at (p\<lparr>ip_answers := q3\<rparr>) i = tracker_at p i"
  "tracker_at (p\<lparr>ip_cancel_polls := q4\<rparr>) i = tracker_at p i"
  by (simp_all add: tracker_at_def)

lemma done_ok_parts [simp]:
  "done_ok (p\<lparr>ip_accounting := a\<rparr>) = done_ok p"
  "done_ok (p\<lparr>ip_joined := j\<rparr>) = done_ok p"
  "done_ok (p\<lparr>ip_inflight := f\<rparr>) = done_ok p"
  "done_ok (p\<lparr>ip_pending := f\<rparr>) = done_ok p"
  "done_ok (p\<lparr>ip_queued := q\<rparr>) = done_ok p"
  "done_ok (p\<lparr>ip_answers := q3\<rparr>) = done_ok p"
  "done_ok (p\<lparr>ip_cancel_polls := q4\<rparr>) = done_ok p"
  by (simp_all add: done_ok_def fun_eq_iff)

lemma done_files_parts [simp]:
  "done_files (p\<lparr>ip_accounting := a\<rparr>) = done_files p"
  "done_files (p\<lparr>ip_joined := j\<rparr>) = done_files p"
  "done_files (p\<lparr>ip_inflight := f\<rparr>) = done_files p"
  "done_files (p\<lparr>ip_pending := f\<rparr>) = done_files p"
  "done_files (p\<lparr>ip_queued := q\<rparr>) = done_files p"
  "done_files (p\<lparr>ip_answers := q3\<rparr>) = done_files p"
  "done_files (p\<lparr>ip_cancel_polls := q4\<rparr>) = done_files p"
  by (simp_all add: done_files_def)

lemma row_ok_parts [simp]:
  "row_ok label (p\<lparr>ip_inflight := f\<rparr>) = row_ok label p" "row_ok label (p\<lparr>ip_pending := f\<rparr>) = row_ok label p"
  by (simp_all add: row_ok_def fun_eq_iff)

lemma looks_same_join:
  assumes "looks_same p p'"
  shows "looks_same (p\<lparr>ip_accounting := a, ip_joined := j, ip_inflight := f, ip_pending := q\<rparr>)
      (p'\<lparr>ip_accounting := a, ip_joined := j, ip_inflight := f, ip_pending := q\<rparr>)"
  using assms by (simp add: looks_same_def)

definition joined_with :: "import_batch \<Rightarrow> batch_error + import_response \<Rightarrow> pipeline \<Rightarrow> pipeline" where
  "joined_with b r p =
     p\<lparr>ip_joined := ip_joined p @ [(b, r)],
       ip_accounting := \<lparr>ac_attempted = sat_add (ac_attempted (ip_accounting p)) (length (ib_messages b)),
         ac_inserted = (case r of Inr rs \<Rightarrow> sat_add (ac_inserted (ip_accounting p)) (rs_messages_appended rs)
                      | Inl _ \<Rightarrow> ac_inserted (ip_accounting p)),
         ac_deduped = (case r of Inr rs \<Rightarrow> sat_add (ac_deduped (ip_accounting p)) (rs_messages_deduped rs)
                      | Inl _ \<Rightarrow> ac_deduped (ip_accounting p)),
         ac_failed = (case r of Inl _ \<Rightarrow> sat_add (ac_failed (ip_accounting p)) (length (ib_messages b))
                      | Inr _ \<Rightarrow> ac_failed (ip_accounting p))\<rparr>\<rparr>"

lemma accepted_joined [simp]:
  "accepted (joined_with b (Inr rs) p) = accepted p @ ib_messages b"
  "accepted (joined_with b (Inl e) p) = accepted p"
  by (simp_all add: accepted_def joined_with_def)

lemma failed_joined_with [simp]:
  "failed_joined (joined_with b (Inr rs) p) = failed_joined p"
  "failed_joined (joined_with b (Inl e) p) = failed_joined p @ ib_messages b"
  by (simp_all add: failed_joined_def joined_with_def)

lemma accepted_parts [simp]:
  "accepted (p\<lparr>ip_inflight := f\<rparr>) = accepted p" "accepted (p\<lparr>ip_pending := f\<rparr>) = accepted p"
  "accepted (p\<lparr>ip_queued := q\<rparr>) = accepted p" "accepted (p\<lparr>ip_answers := a\<rparr>) = accepted p"
  "accepted (p\<lparr>ip_cancel_polls := c\<rparr>) = accepted p"
  by (simp_all add: accepted_def)

lemma joined_parts [simp]:
  "tracker_at (joined_with b r p) i = tracker_at p i"
  "done_ok (joined_with b r p) = done_ok p"
  "ip_results (joined_with b r p) = ip_results p"
  "done_files (joined_with b r p) = done_files p"
  "ip_queued (joined_with b r p) = ip_queued p"
  "ip_batch_size (joined_with b r p) = ip_batch_size p"
  by (simp_all add: joined_with_def)

lemma book_inflight:
  assumes "book prep label files0 p"
  shows "book prep label files0 (p\<lparr>ip_inflight := None\<rparr>)"
proof -
  have "subseq (all_messages (p\<lparr>ip_inflight := None\<rparr>)) (all_messages p)"
    by (auto simp: all_messages_def opt_messages_def intro: list_emb_append_mono)
  with assms show ?thesis
    unfolding book_def messages_flow_def trackers_true_def results_true_def batches_true_def totals_true_def
    by (auto simp: done_files_def all_batches_def accepted_def failed_joined_def intro: subseq_order.trans split: option.splits)
qed

lemma book_joined:
  assumes "book prep label files0 p" and "ip_inflight p = Some b"
  shows "book prep label files0 (joined_with b r (p\<lparr>ip_inflight := None\<rparr>))"
proof -
  note unfolded = assms(1) [unfolded book_def]
  let ?q = "joined_with b r (p\<lparr>ip_inflight := None\<rparr>)"
  have "all_messages ?q = all_messages p"
    using assms(2) by (simp add: all_messages_def opt_messages_def joined_with_def)
  then have "messages_flow prep ?q" using unfolded by (simp add: messages_flow_def)
  moreover have "cnt i (accepted p) \<le> cnt i (accepted ?q)" for i
    by (cases r) (simp_all add: accepted_def joined_with_def)
  then have "trackers_true prep label ?q" using unfolded unfolding trackers_true_def by (fastforce intro: order_trans)
  moreover have "results_true files0 label ?q" using unfolded by (simp add: results_true_def row_ok_def)
  moreover have "batches_true prep ?q"
    using unfolded assms(2) by (auto simp: batches_true_def all_batches_def joined_with_def)
  moreover have "totals_true ?q"
    using unfolded by (cases r) (auto simp: totals_true_def joined_with_def sat_add_def accepted_def failed_joined_def)
  ultimately show ?thesis by (simp add: book_def)
qed

lemma joined_same:
  assumes "looks_same (p\<lparr>ip_joined := ip_joined p @ [(b, r)],
      ip_accounting := (ip_accounting p)\<lparr>ac_attempted := sat_add (ac_attempted (ip_accounting p)) (length (ib_messages b))\<rparr>\<rparr>) q"
  shows "looks_same (joined_with b r p)
    (q\<lparr>ip_accounting := (case r of
         Inl _ \<Rightarrow> (ip_accounting q)\<lparr>ac_failed := sat_add (ac_failed (ip_accounting q)) (length (ib_messages b))\<rparr>
       | Inr rs \<Rightarrow> (ip_accounting q)\<lparr>ac_inserted := sat_add (ac_inserted (ip_accounting q)) (rs_messages_appended rs),
           ac_deduped := sat_add (ac_deduped (ip_accounting q)) (rs_messages_deduped rs)\<rparr>)\<rparr>)"
  using assms by (auto simp: looks_same_def joined_with_def split: sum.splits)

section \<open>An accepted batch\<close>

lemma accept_message_same: "looks_same p (accept_message m p)"
  unfolding accept_message_def by (rule looks_same_update) (simp add: core_def)

lemma accept_fold_same: "looks_same p (fold accept_message ms p)"
  by (induction ms arbitrary: p) (auto intro: looks_same_trans accept_message_same)

lemma accept_fold_counts:
  "map_option ft_outstanding_messages (tracker_at (fold accept_message ms p) i) =
     map_option (\<lambda>t. ft_outstanding_messages t - cnt i ms) (tracker_at p i)"
proof (induction ms arbitrary: p)
  case (Cons m ms)
  then show ?case
    by (cases "tracker_at p i") (auto simp: accept_message_def)
qed simp

lemma counts_exact_accepted:
  assumes "counts_exact prep p" and "counts_same p q" and "accepted q = accepted p @ ib_messages b"
  shows "counts_exact prep (fold accept_message (ib_messages b) q)"
  unfolding counts_exact_def
proof (intro allI impI)
  fix i t assume t: "tracker_at (fold accept_message (ib_messages b) q) i = Some t"
  with accept_fold_counts [of "ib_messages b" q i] obtain tq where
    tq: "tracker_at q i = Some tq" "ft_outstanding_messages t = ft_outstanding_messages tq - cnt i (ib_messages b)"
    by (cases "tracker_at q i") auto
  with assms(2) obtain tp where "tracker_at p i = Some tp" "ft_outstanding_messages tq = ft_outstanding_messages tp"
    unfolding counts_same_def by (metis (no_types, lifting) map_option_eq_Some)
  with assms(1) tq(2) show "ft_outstanding_messages t = message_count (prep i) - cnt i (accepted (fold accept_message (ib_messages b) q))"
    by (simp add: counts_exact_def looks_same_messages [OF accept_fold_same] assms(3))
qed

section \<open>A refused batch\<close>

lemma fail_file_book:
  assumes "book prep label files0 p" and "\<not> done_ok p i"
  shows "book prep label files0 (fail_file ser source e i p) \<and> (\<forall>j. done_ok (fail_file ser source e i p) j \<longrightarrow> done_ok p j) \<and>
    counts_same p (fail_file ser source e i p) \<and> accepted (fail_file ser source e i p) = accepted p"
proof (cases "\<exists>t. tracker_at p i = Some t \<and> ft_failed t = None")
  case False
  then have "fail_file ser source e i p = p" by (auto simp: fail_file_def split: option.split)
  then show ?thesis using assms by simp
next
  case True
  then obtain t where t: "tracker_at p i = Some t" "ft_failed t = None" by blast
  let ?q = "set_tracker i (t\<lparr>ft_failed := Some e\<rparr>) p"
  have ff: "fail_file ser source e i p = note_failure ser source (ft_name t) ''import'' e ?q"
    by (simp add: fail_file_def t)
  have same_done: "done_ok ?q = done_ok p"
    using assms(2) t by (auto simp: done_ok_def fun_eq_iff)
  have same_lists: "all_messages ?q = all_messages p" "accepted ?q = accepted p" "failed_joined ?q = failed_joined p" "all_batches ?q = all_batches p"
    "done_files ?q = done_files p"
    by (simp_all add: all_messages_def accepted_def failed_joined_def all_batches_def done_files_def)
  have "book prep label files0 ?q"
    using assms(1) t unfolding book_def messages_flow_def trackers_true_def results_true_def batches_true_def totals_true_def
    by (simp add: same_lists same_done row_ok_def)
  moreover have "counts_same p ?q" using t by (simp add: counts_same_def tracker_at_some)
  ultimately show ?thesis
    unfolding ff using looks_same_book [OF note_failure_same(1)] looks_same_done_ok [OF note_failure_same(1)] same_done
      counts_same_trans [OF _ note_failure_same(2)] looks_same_messages(1) [OF note_failure_same(1)] same_lists(2) by simp
qed

lemma fail_files_book:
  assumes "book prep label files0 p" and "\<And>i. i \<in> set is \<Longrightarrow> \<not> done_ok p i"
  shows "book prep label files0 (fold (fail_file ser source e) is p) \<and>
    counts_same p (fold (fail_file ser source e) is p) \<and> accepted (fold (fail_file ser source e) is p) = accepted p"
  using assms
proof (induction "is" arbitrary: p)
  case (Cons i "is")
  from fail_file_book [OF Cons.prems(1), of i] Cons.prems(2)
  have step: "book prep label files0 (fail_file ser source e i p)" "\<And>j. done_ok (fail_file ser source e i p) j \<Longrightarrow> done_ok p j"
    "counts_same p (fail_file ser source e i p)" "accepted (fail_file ser source e i p) = accepted p" by auto
  from Cons.IH [OF step(1)] step(2) Cons.prems(2) step(3,4) show ?case
    by (auto intro: counts_same_trans)
qed simp

text \<open>A conversation that is done without a failure has no message in a refused batch.\<close>

lemma cnt_pos: "m \<in> set ms \<Longrightarrow> 0 < cnt (bm_file_index m) ms"
  by (induction ms) auto

lemma set_file_indexes: "set (file_indexes b) = bm_file_index ` set (ib_messages b)"
  by (simp add: file_indexes_def)

lemma refused_not_done:
  assumes book: "book prep label files0 p" and "(b, Inl e) \<in> set (ip_joined p)" and "i \<in> set (file_indexes b)"
  shows "\<not> done_ok p i"
proof
  assume "done_ok p i"
  then have all: "message_count (prep i) \<le> cnt i (accepted p)"
    using book by (auto simp: book_def trackers_true_def done_ok_def)
  have "cnt i (accepted p) + cnt i (failed_joined p) \<le> cnt i (all_messages p)"
  proof -
    have "cnt i (concat (map (ib_messages \<circ> fst) js)) =
        cnt i (concat (map (ib_messages \<circ> fst) (filter (\<lambda>(b, r). case r of Inr _ \<Rightarrow> True | Inl _ \<Rightarrow> False) js))) +
        cnt i (concat (map (ib_messages \<circ> fst) (filter (\<lambda>(b, r). case r of Inr _ \<Rightarrow> False | Inl _ \<Rightarrow> True) js)))"
      for js :: "(import_batch \<times> (batch_error + import_response)) list"
    proof (induction js)
      case (Cons x js)
      obtain b r where "x = (b, r)" by (rule prod.exhaust)
      with Cons show ?case by (cases r) simp_all
    qed simp
    from this [of "ip_joined p"] show ?thesis
      unfolding accepted_def failed_joined_def all_messages_def by (simp only: cnt_simps)
  qed
  also have "\<dots> \<le> cnt i (queued_messages (ip_queued p))"
    using book flow_mset by (auto simp: book_def intro: cnt_mset_mono)
  also have "\<dots> \<le> message_count (prep i)"
  proof -
    obtain k where "chunks_of_file i (ip_queued p) = take k (pf_chunks (prep i))"
      using book by (auto simp: book_def messages_flow_def)
    then show ?thesis by (simp add: cnt_queued message_count_def comp_def sum_take_le flip: take_map)
  qed
  finally have "cnt i (failed_joined p) = 0" using all by simp
  moreover obtain m where m: "m \<in> set (ib_messages b)" "i = bm_file_index m"
    using assms(3) by (auto simp: set_file_indexes)
  then have "m \<in> set (failed_joined p)" using assms(2) by (force simp: failed_joined_def)
  then have "0 < cnt i (failed_joined p)" using cnt_pos m(2) by blast
  ultimately show False by simp
qed

section \<open>Results\<close>

lemma set_result_parts [simp]:
  "ip_batch_size (set_result i r p) = ip_batch_size p" "ip_pending (set_result i r p) = ip_pending p"
  "ip_inflight (set_result i r p) = ip_inflight p" "tracker_at (set_result i r p) j = tracker_at p j"
  "ip_accounting (set_result i r p) = ip_accounting p" "ip_journal (set_result i r p) = ip_journal p"
  "ip_joined (set_result i r p) = ip_joined p" "ip_queued (set_result i r p) = ip_queued p"
  "ip_results (set_result i r p) = (ip_results p)[i := Some r]" "ip_trackers (set_result i r p) = ip_trackers p"
  by (simp_all add: set_result_def tracker_at_def)

lemma set_result_lists [simp]:
  "accepted (set_result i r p) = accepted p" "failed_joined (set_result i r p) = failed_joined p"
  "all_messages (set_result i r p) = all_messages p" "all_batches (set_result i r p) = all_batches p"
  "done_files (set_result i r p) = done_files p" "done_ok (set_result i r p) = done_ok p"
  by (simp_all add: accepted_def failed_joined_def all_messages_def all_batches_def done_files_def done_ok_def fun_eq_iff)

lemma set_result_book:
  assumes "book prep label files0 p" and "row_ok label p i r"
  shows "book prep label files0 (set_result i r p)"
proof -
  have "results_true files0 label (set_result i r p)"
    unfolding results_true_def
  proof (intro conjI allI impI)
    fix j q assume j: "j < length (ip_results (set_result i r p))" "ip_results (set_result i r p) ! j = Some q"
    show "row_ok label (set_result i r p) j q"
      using j assms by (cases "j = i") (auto simp: book_def results_true_def row_ok_def)
  qed (use assms in \<open>simp add: book_def results_true_def\<close>)
  then show ?thesis
    using assms(1) by (simp add: book_def messages_flow_def trackers_true_def batches_true_def totals_true_def)
qed

lemma set_result_exact:
  assumes "exact_book prep label files0 p" and "row_ok label p i r"
  shows "exact_book prep label files0 (set_result i r p)"
  using assms set_result_book [of prep label files0 p i r] by (simp add: exact_book_def counts_exact_def)

text \<open>A tracker becomes done: no other invariant depends on it.\<close>

lemma set_done_exact:
  assumes inv: "exact_book prep label files0 p" and t: "tracker_at p i = Some t" and "\<not> ft_done t"
    and counted: "ft_failed t = None \<Longrightarrow> ft_outstanding_messages t = 0"
  shows "exact_book prep label files0 (set_tracker i (t\<lparr>ft_done := True\<rparr>) p)"
proof -
  let ?q = "set_tracker i (t\<lparr>ft_done := True\<rparr>) p"
  have lists: "all_messages ?q = all_messages p" "accepted ?q = accepted p" "failed_joined ?q = failed_joined p"
    "all_batches ?q = all_batches p" "done_files ?q = done_files p"
    by (simp_all add: all_messages_def accepted_def failed_joined_def all_batches_def done_files_def)
  have mono: "done_ok p j \<Longrightarrow> done_ok ?q j" for j
    using t by (auto simp: done_ok_def tracker_at_some)
  have "ft_failed t = None \<Longrightarrow> message_count (prep i) \<le> cnt i (accepted p)"
    using inv t counted by (simp add: exact_book_def counts_exact_def)
  then have "trackers_true prep label ?q"
    using inv t unfolding exact_book_def book_def trackers_true_def by (simp add: lists)
  moreover have "results_true files0 label ?q"
    using inv mono unfolding exact_book_def book_def results_true_def row_ok_def lists set_tracker_parts by blast
  moreover have "messages_flow prep ?q" "batches_true prep ?q" "totals_true ?q" "counts_exact prep ?q"
    using inv t unfolding exact_book_def book_def messages_flow_def batches_true_def totals_true_def counts_exact_def
    by (simp_all add: lists)
  ultimately show ?thesis by (simp add: exact_book_def book_def)
qed

lemma journal_file_book:
  assumes "exact_book prep label files0 p" and "done_ok p i" and "with_journal f p = (p', r)"
    and "\<And>flt j. js_files (rj_state (fst (f flt j))) = insert (label i) (js_files (rj_state j))"
  shows "exact_book prep label files0 p'" "tracker_at p' = tracker_at p"
proof -
  from with_journal_parts [OF assms(3)] obtain flt rest where
    p': "p' = p\<lparr>ip_journal := fst (f flt (ip_journal p)), ip_append_faults := rest\<rparr>" by blast
  show "tracker_at p' = tracker_at p" by (simp add: p' tracker_at_def fun_eq_iff)
  then have ok: "done_ok p' = done_ok p" by (simp add: done_ok_def fun_eq_iff)
  have lists: "all_messages p' = all_messages p" "accepted p' = accepted p" "failed_joined p' = failed_joined p" "all_batches p' = all_batches p"
    by (simp_all add: p' all_messages_def accepted_def failed_joined_def all_batches_def)
  have "done_files p' = insert (label i) (done_files p)" by (simp add: p' done_files_def assms(4))
  moreover have parts: "ip_results p' = ip_results p" "ip_queued p' = ip_queued p" "ip_batch_size p' = ip_batch_size p"
    "ip_accounting p' = ip_accounting p" "ip_joined p' = ip_joined p" by (simp_all add: p')
  ultimately have "results_true files0 label p'"
    using assms(1,2) unfolding exact_book_def book_def results_true_def row_ok_def ok by auto
  then show "exact_book prep label files0 p'"
    using assms(1)
    unfolding exact_book_def book_def messages_flow_def trackers_true_def batches_true_def totals_true_def counts_exact_def
      \<open>tracker_at p' = tracker_at p\<close> lists parts
    by blast
qed

lemma finish_file_safe:
  assumes inv: "exact_book prep label files0 p"
  shows "pipe.safe prep label files0 (finish_file_if_settled ser i p)"
proof (cases "\<exists>t. tracker_at p i = Some t \<and> is_settled t")
  case False
  then show ?thesis
    using inv by (auto simp: finish_file_if_settled_def pipe.safe_return split: option.split)
next
  case True
  then obtain t where t: "tracker_at p i = Some t" "is_settled t" by blast
  let ?q = "set_tracker i (t\<lparr>ft_done := True\<rparr>) p"
  have q: "exact_book prep label files0 ?q"
    using set_done_exact [OF inv t(1)] t(2) by (auto simp: is_settled_def)
  have name: "ft_name t = label i" using inv t(1) by (auto simp: exact_book_def book_def trackers_true_def)
  show ?thesis
  proof (cases "ft_failed t")
    case (Some e)
    then show ?thesis
      using t by (auto simp: finish_file_if_settled_def Let_def row_ok_def name intro!: pipe.safe_return set_result_exact q)
  next
    case None
    have ok: "done_ok ?q i" using t None by (simp add: done_ok_def tracker_at_some)
    obtain p' r where w: "with_journal (\<lambda>flt j. file_ok ser flt j (ft_source t) (ft_name t)) ?q = (p', r)" by (rule prod.exhaust)
    note p' = journal_file_book [OF q ok w, unfolded name file_ok_files, OF refl]
    have ok': "done_ok p' i" using ok p'(2) by (simp add: done_ok_def)
    have run: "finish_file_if_settled ser i p = then_do (p', r) (\<lambda>p _. (set_result i \<lparr>fr_file = ft_name t, fr_status = ''ok'',
        fr_error = None, fr_messages = ft_successful_messages t, fr_attachments = ft_attachments t,
        fr_message_import_ms = Some (ft_message_import_ms t)\<rparr> p, Inr ()))"
      by (simp add: finish_file_if_settled_def Let_def t None w)
    show ?thesis
    proof (cases r)
      case (Inl e)
      then show ?thesis using p'(1) by (simp add: run pipe.safe_error exact_book_def)
    next
      case (Inr u)
      then show ?thesis using p'(1) ok' by (simp add: run pipe.safe_return set_result_exact row_ok_def name)
    qed
  qed
qed

lemma finish_files_safe: "exact_book prep label files0 p \<Longrightarrow> pipe.safe prep label files0 (finish_files ser is p)"
  by (induction "is" arbitrary: p) (auto intro: pipe.safe_return pipe.safe_then_do finish_file_safe)

section \<open>One request, its end\<close>

lemma counts_same_parts [simp]:
  "counts_same p (q\<lparr>ip_accounting := a\<rparr>) = counts_same p q"
  "counts_same (p\<lparr>ip_accounting := a\<rparr>) q = counts_same p q"
  "counts_same (p\<lparr>ip_joined := j\<rparr>) q = counts_same p q"
  "counts_same p (joined_with b r q) = counts_same p q"
  by (simp_all add: counts_same_def)

lemma apply_outcome_safe:
  assumes inv: "exact_book prep label files0 p" and b: "ip_inflight p = Some b"
  shows "pipe.safe prep label files0 (apply_outcome ser b ms r (p\<lparr>ip_inflight := None\<rparr>))"
proof -
  let ?p0 = "p\<lparr>ip_inflight := None\<rparr>" and ?rep = "file_indexes b"
  let ?p1 = "?p0\<lparr>ip_joined := ip_joined ?p0 @ [(b, r)],
      ip_accounting := (ip_accounting ?p0)\<lparr>ac_attempted := sat_add (ac_attempted (ip_accounting ?p0)) (length (ib_messages b))\<rparr>\<rparr>"
  define p2 where "p2 = charge_request_time ?rep ms ?p1"
  have p2: "looks_same ?p1 p2" "counts_same ?p1 p2" unfolding p2_def using charge_same by blast+
  then have counts: "counts_same p p2" by (simp add: counts_same_def)
  have booked: "book prep label files0 (joined_with b r ?p0)"
    using inv b by (intro book_joined) (simp_all add: exact_book_def)
  note same = joined_same [OF p2(1)]
  show ?thesis
  proof (cases r)
    case (Inr rs)
    let ?acc = "ip_accounting p2"
    let ?p3 = "p2\<lparr>ip_accounting := ?acc\<lparr>ac_inserted := sat_add (ac_inserted ?acc) (rs_messages_appended rs),
        ac_deduped := sat_add (ac_deduped ?acc) (rs_messages_deduped rs)\<rparr>\<rparr>"
    obtain p4 x where w: "with_journal (\<lambda>flt j. message_batch_ok ser flt j (ib_source b) (map bm_journal (ib_messages b))) ?p3 = (p4, x)"
      by (rule prod.exhaust)
    from journal_step_same [OF w] have p4: "looks_same ?p3 p4" "counts_same ?p3 p4" by (simp_all add: message_batch_ok_files)
    have p3: "looks_same (joined_with b r ?p0) ?p3" using same by (simp add: Inr)
    have b4: "book prep label files0 p4"
      by (rule looks_same_book [OF looks_same_trans [OF p3 p4(1)] booked])
    have acc4: "accepted p4 = accepted p @ ib_messages b"
      using looks_same_messages(1) [OF looks_same_trans [OF p3 p4(1)]] by (simp add: Inr)
    have "exact_book prep label files0 (fold accept_message (ib_messages b) p4)"
      unfolding exact_book_def
    proof
      show "book prep label files0 (fold accept_message (ib_messages b) p4)"
        by (rule looks_same_book [OF accept_fold_same b4])
      have "counts_same p p4" using counts p4(2) by (simp add: counts_same_def)
      then show "counts_exact prep (fold accept_message (ib_messages b) p4)"
        using inv by (intro counts_exact_accepted [OF _ _ acc4]) (simp_all add: exact_book_def)
    qed
    then have "pipe.safe prep label files0 (then_do (finish_files ser ?rep (fold accept_message (ib_messages b) p4)) (\<lambda>p _. (p, Inr True)))"
      by (intro pipe.safe_then_do finish_files_safe pipe.safe_return)
    then show ?thesis
      using b4 unfolding apply_outcome_def Let_def p2_def [symmetric] unfolding Inr sum.case w
      by (cases x) (simp_all add: pipe.safe_error)
  next
    case (Inl e)
    let ?acc = "ip_accounting p2"
    let ?p3 = "p2\<lparr>ip_accounting := ?acc\<lparr>ac_failed := sat_add (ac_failed ?acc) (length (ib_messages b))\<rparr>\<rparr>"
    have p3: "looks_same (joined_with b r ?p0) ?p3" using same by (simp add: Inl)
    have b3: "book prep label files0 ?p3" by (rule looks_same_book [OF p3 booked])
    have "ip_joined ?p3 = ip_joined p @ [(b, r)]" using p3 by (simp add: looks_same_def joined_with_def)
    then have "\<not> done_ok ?p3 i" if "i \<in> set ?rep" for i
      using refused_not_done [OF b3 _ that, of e] by (simp add: Inl)
    note failed = fail_files_book [OF b3 this, where ser = ser and source = "ib_source b" and e = "describe_batch_error ?p3 b e"]
    let ?p4 = "fold (fail_file ser (ib_source b) (describe_batch_error ?p3 b e)) ?rep ?p3"
    have acc3: "accepted ?p3 = accepted p" using looks_same_messages(1) [OF p3] by (simp add: Inl)
    have "exact_book prep label files0 ?p4"
      unfolding exact_book_def
    proof
      show "book prep label files0 ?p4" by (rule conjunct1 [OF failed])
      have "counts_same p ?p3" using counts by simp
      then have same: "counts_same p ?p4" by (rule counts_same_trans [OF _ conjunct1 [OF conjunct2 [OF failed]]])
      have acc: "accepted ?p4 = accepted p" by (rule trans [OF conjunct2 [OF conjunct2 [OF failed]] acc3])
      show "counts_exact prep ?p4"
        using inv unfolding exact_book_def by (elim conjE) (rule counts_same_exact [OF same acc])
    qed
    then have "pipe.safe prep label files0 (then_do (finish_files ser ?rep ?p4) (\<lambda>p _. (p, Inr False)))"
      by (intro pipe.safe_then_do finish_files_safe pipe.safe_return)
    then show ?thesis
      unfolding apply_outcome_def Let_def p2_def [symmetric] unfolding Inl sum.case by simp
  qed
qed

lemma exact_book_world:
  shows "exact_book prep label files0 (p\<lparr>ip_answers := a\<rparr>) = exact_book prep label files0 p"
  "exact_book prep label files0 (p\<lparr>ip_cancel_polls := c\<rparr>) = exact_book prep label files0 p"
proof -
  have same: "looks_same p (p\<lparr>ip_answers := a\<rparr>)" "looks_same p (p\<lparr>ip_cancel_polls := c\<rparr>)"
    "counts_same p (p\<lparr>ip_answers := a\<rparr>)" "counts_same p (p\<lparr>ip_cancel_polls := c\<rparr>)"
    by (simp_all add: looks_same_def counts_same_def)
  have other: "counts_same (p\<lparr>ip_answers := a\<rparr>) p" "counts_same (p\<lparr>ip_cancel_polls := c\<rparr>) p"
    by (simp_all add: counts_same_def)
  show "exact_book prep label files0 (p\<lparr>ip_answers := a\<rparr>) = exact_book prep label files0 p"
    "exact_book prep label files0 (p\<lparr>ip_cancel_polls := c\<rparr>) = exact_book prep label files0 p"
    using looks_same_exact_book same other looks_same_sym by metis+
qed

lemma exact_book_is_cancelled: "is_cancelled p = (p', c) \<Longrightarrow> exact_book prep label files0 p' = exact_book prep label files0 p"
  by (auto simp: is_cancelled_def exact_book_world split: list.splits)

lemma exact_book_inflight: "exact_book prep label files0 p \<Longrightarrow> exact_book prep label files0 (p\<lparr>ip_inflight := None\<rparr>)"
  by (simp add: exact_book_def book_inflight counts_exact_def)

lemma next_answer_is: "next_answer p = (p', a) \<Longrightarrow> p' = p\<lparr>ip_answers := tl (ip_answers p)\<rparr>"
  by (cases p) (auto simp: next_answer_def split: list.splits)

lemma is_cancelled_is: "is_cancelled p = (p', c) \<Longrightarrow> p' = p\<lparr>ip_cancel_polls := tl (ip_cancel_polls p)\<rparr>"
  by (cases p) (auto simp: is_cancelled_def split: list.splits)

lemma join_inflight_safe:
  assumes "exact_book prep label files0 p"
  shows "pipe.safe prep label files0 (join_inflight ser p)"
proof (cases "ip_inflight p")
  case None
  then show ?thesis using assms by (simp add: join_inflight_def pipe.safe_return)
next
  case (Some b)
  obtain p' ans where n: "next_answer (p\<lparr>ip_inflight := None\<rparr>) = (p', ans)" by (rule prod.exhaust)
  define rest where "rest = tl (ip_answers p)"
  have p': "p' = (p\<lparr>ip_answers := rest\<rparr>)\<lparr>ip_inflight := None\<rparr>"
    using next_answer_is [OF n] by (simp add: rest_def)
  have inv: "exact_book prep label files0 (p\<lparr>ip_answers := rest\<rparr>)" using assms by (simp add: exact_book_world)
  show ?thesis
  proof (cases ans)
    case Panicked
    have "book prep label files0 p'" using exact_book_inflight [OF inv] unfolding p' exact_book_def by blast
    then show ?thesis by (simp add: join_inflight_def Some n Panicked pipe.safe_error)
  next
    case (Answered ms r)
    have "pipe.safe prep label files0 (apply_outcome ser b ms r p')"
      unfolding p' using inv Some by (intro apply_outcome_safe) simp_all
    then show ?thesis by (simp add: join_inflight_def Some n Answered)
  qed
qed

lemma exact_book_take_pending:
  assumes "exact_book prep label files0 p"
  shows "exact_book prep label files0 (p\<lparr>ip_pending := None\<rparr>)"
    "ip_pending p = Some b \<Longrightarrow> exact_book prep label files0 (p\<lparr>ip_pending := None, ip_inflight := Some b\<rparr>)"
proof -
  have sub: "subseq (all_messages (p\<lparr>ip_pending := None\<rparr>)) (all_messages p)"
    "ip_pending p = Some b \<Longrightarrow> subseq (all_messages (p\<lparr>ip_pending := None, ip_inflight := Some b\<rparr>)) (all_messages p)"
    by (auto simp: all_messages_def opt_messages_def intro: list_emb_append_mono)
  have failed: "failed_joined (p\<lparr>ip_pending := None\<rparr>) = failed_joined p"
    "failed_joined (p\<lparr>ip_pending := None, ip_inflight := Some b\<rparr>) = failed_joined p"
    by (simp_all add: failed_joined_def)
  show "exact_book prep label files0 (p\<lparr>ip_pending := None\<rparr>)"
    using assms sub(1)
    unfolding exact_book_def book_def messages_flow_def trackers_true_def results_true_def batches_true_def totals_true_def counts_exact_def
    by (auto simp: failed all_batches_def intro: subseq_order.trans split: option.splits)
  assume "ip_pending p = Some b"
  then show "exact_book prep label files0 (p\<lparr>ip_pending := None, ip_inflight := Some b\<rparr>)"
    using assms sub(2)
    unfolding exact_book_def book_def messages_flow_def trackers_true_def results_true_def batches_true_def totals_true_def counts_exact_def
    by (auto simp: failed all_batches_def intro: subseq_order.trans split: option.splits)
qed

lemma flush_safe:
  assumes "exact_book prep label files0 p"
  shows "pipe.safe prep label files0 (flush ser wait p)"
  unfolding flush_def
proof (rule pipe.safe_then_do [OF join_inflight_safe [OF assms]])
  fix q ok assume inv: "exact_book prep label files0 q"
  show "pipe.safe prep label files0 (case ip_pending q of None \<Rightarrow> (q, Inr ok)
       | Some b \<Rightarrow> (let (p, cancelled) = is_cancelled (q\<lparr>ip_pending := None\<rparr>)
            in if cancelled then (p, Inr False)
               else (let p = p\<lparr>ip_inflight := Some b\<rparr> in if wait then join_inflight ser p else (p, Inr ok))))"
  proof (cases "ip_pending q")
    case None
    then show ?thesis using inv by (simp add: pipe.safe_return)
  next
    case (Some b)
    obtain q' c where q': "is_cancelled (q\<lparr>ip_pending := None\<rparr>) = (q', c)" by (rule prod.exhaust)
    have "exact_book prep label files0 q'"
      using exact_book_is_cancelled [OF q'] exact_book_take_pending(1) [OF inv] by simp
    moreover define polls where "polls = tl (ip_cancel_polls q)"
    have "q' = (q\<lparr>ip_cancel_polls := polls\<rparr>)\<lparr>ip_pending := None\<rparr>"
      using is_cancelled_is [OF q'] by (simp add: polls_def)
    then have "exact_book prep label files0 (q'\<lparr>ip_inflight := Some b\<rparr>)"
      using exact_book_take_pending(2) [of prep label files0 "q\<lparr>ip_cancel_polls := polls\<rparr>" b] inv Some
      by (simp add: exact_book_world)
    ultimately show ?thesis
      by (simp add: Some q' Let_def pipe.safe_return join_inflight_safe)
  qed
qed

lemma flush_and_continue_safe:
  "exact_book prep label files0 p \<Longrightarrow> pipe.safe prep label files0 (flush_and_continue ser wait p)"
  unfolding flush_and_continue_def
  by (erule pipe.safe_then_do [OF flush_safe])
    (auto simp: pipe.safe_return exact_book_is_cancelled split: prod.split)

lemma flush_for_file_safe:
  "exact_book prep label files0 p \<Longrightarrow> pipe.safe prep label files0 (flush_for_file ser i p)"
  unfolding flush_for_file_def
  by (erule pipe.safe_then_do [OF flush_and_continue_safe]) (simp add: pipe.safe_return)

section \<open>What a request leaves alone\<close>

definition frame :: "pipeline \<Rightarrow> pipeline \<Rightarrow> bool" where
  "frame p q \<longleftrightarrow> ip_queued q = ip_queued p \<and> ip_batch_size q = ip_batch_size p \<and> ip_pending q \<in> {ip_pending p, None} \<and>
     length (ip_trackers q) = length (ip_trackers p) \<and> length (ip_results q) = length (ip_results p) \<and>
     (\<forall>i. (tracker_at q i = None) = (tracker_at p i = None))"

interpretation frame: stepwise "frame p" "frame p" for p
  by unfold_locales simp

lemma frame_refl: "frame p p"
  by (simp add: frame_def)

lemma frame_trans: "frame p q \<Longrightarrow> frame q r \<Longrightarrow> frame p r"
  by (auto simp: frame_def)

lemma frame_extend: "frame.safe q m \<Longrightarrow> frame p q \<Longrightarrow> frame.safe p m"
  unfolding frame.safe_def using frame_trans by blast

lemma looks_same_frame: "looks_same p q \<Longrightarrow> frame p q"
  by (simp add: frame_def looks_same_def looks_same_none)

lemma frame_parts:
  "frame p (p\<lparr>ip_accounting := a\<rparr>)" "frame p (p\<lparr>ip_joined := j, ip_accounting := a\<rparr>)" "frame p (p\<lparr>ip_inflight := f\<rparr>)"
  "frame p (p\<lparr>ip_pending := None\<rparr>)" "frame p (p\<lparr>ip_answers := x\<rparr>)" "frame p (p\<lparr>ip_cancel_polls := c\<rparr>)"
  "frame p (p\<lparr>ip_journal := jj, ip_append_faults := fs\<rparr>)"
  by (simp_all add: frame_def tracker_at_def)

lemma frame_set:
  shows "tracker_at p i \<noteq> None \<Longrightarrow> frame p (set_tracker i t p)" "frame p (set_result i r p)"
proof -
  assume "tracker_at p i \<noteq> None"
  then obtain u where "tracker_at p i = Some u" by blast
  then show "frame p (set_tracker i t p)" by (simp add: frame_def)
next
  show "frame p (set_result i r p)" by (simp add: frame_def)
qed

lemma frame_journal: "with_journal f p = (q, r) \<Longrightarrow> frame p q"
proof -
  assume "with_journal f p = (q, r)"
  from with_journal_parts [OF this] obtain j fs where "q = p\<lparr>ip_journal := j, ip_append_faults := fs\<rparr>" by blast
  then show ?thesis by (simp only: frame_parts)
qed

lemma frame_finish_file: "frame.safe p (finish_file_if_settled ser i p)"
proof (cases "\<exists>t. tracker_at p i = Some t \<and> is_settled t")
  case False
  then show ?thesis by (auto simp: finish_file_if_settled_def frame.safe_return frame_refl split: option.split)
next
  case True
  then obtain t where t: "tracker_at p i = Some t" "is_settled t" by blast
  let ?q = "set_tracker i (t\<lparr>ft_done := True\<rparr>) p"
  have q: "frame p ?q" by (simp add: frame_set t)
  obtain p' r where w: "with_journal (\<lambda>flt j. file_ok ser flt j (ft_source t) (ft_name t)) ?q = (p', r)" by (rule prod.exhaust)
  show ?thesis
  proof (cases "ft_failed t")
    case None
    have "frame.safe p (p', r)" using frame_trans [OF q frame_journal [OF w]] by (rule frame.safe_return)
    then show ?thesis
      by (simp add: finish_file_if_settled_def Let_def t w None)
        (erule frame.safe_then_do, rule frame.safe_return, erule frame_trans, rule frame_set)
  next
    case (Some e)
    then show ?thesis
      by (simp add: finish_file_if_settled_def Let_def t) (intro frame.safe_return frame_trans [OF q frame_set(2)])
  qed
qed

lemma frame_finish_files: "frame.safe p (finish_files ser is p)"
proof (induction "is" arbitrary: p)
  case (Cons i "is")
  show ?case
    by (simp, rule frame.safe_then_do [OF frame_finish_file], erule frame_extend [OF Cons])
qed (simp add: frame.safe_return frame_refl)

lemma frame_fail_files: "frame p (fold (fail_file ser source e) is p)"
proof (induction "is" arbitrary: p)
  case (Cons i "is")
  have "frame p (fail_file ser source e i p)"
    using frame_trans [OF frame_set(1) looks_same_frame [OF note_failure_same(1)]]
    by (auto simp: fail_file_def frame_refl split: option.split)
  then show ?case using Cons by (simp add: frame_trans)
qed (simp add: frame_refl)

lemma frame_apply_outcome: "frame.safe p (apply_outcome ser b ms r p)"
proof -
  let ?p1 = "p\<lparr>ip_joined := ip_joined p @ [(b, r)],
      ip_accounting := (ip_accounting p)\<lparr>ac_attempted := sat_add (ac_attempted (ip_accounting p)) (length (ib_messages b))\<rparr>\<rparr>"
  define p2 where "p2 = charge_request_time (file_indexes b) ms ?p1"
  have p2: "frame p p2"
    using frame_trans [OF frame_parts(2) looks_same_frame] charge_same unfolding p2_def by blast
  show ?thesis
    unfolding apply_outcome_def Let_def p2_def [symmetric]
  proof (rule frame.safe_then_do)
    fix q x assume "frame p q"
    then show "frame.safe p (then_do (finish_files ser (file_indexes b) q) (\<lambda>p _. (p, Inr x)))"
      by (intro frame.safe_then_do [OF frame_extend [OF frame_finish_files]] frame.safe_return)
  next
    show "frame.safe p (case r of
        Inr rs \<Rightarrow> then_do (with_journal (\<lambda>flt j. message_batch_ok ser flt j (ib_source b) (map bm_journal (ib_messages b)))
            (p2\<lparr>ip_accounting := (ip_accounting p2)\<lparr>ac_inserted := sat_add (ac_inserted (ip_accounting p2)) (rs_messages_appended rs),
              ac_deduped := sat_add (ac_deduped (ip_accounting p2)) (rs_messages_deduped rs)\<rparr>\<rparr>))
          (\<lambda>p _. (fold accept_message (ib_messages b) p, Inr True))
      | Inl error \<Rightarrow> (fold (fail_file ser (ib_source b) (describe_batch_error
            (p2\<lparr>ip_accounting := (ip_accounting p2)\<lparr>ac_failed := sat_add (ac_failed (ip_accounting p2)) (length (ib_messages b))\<rparr>\<rparr>) b error))
            (file_indexes b)
            (p2\<lparr>ip_accounting := (ip_accounting p2)\<lparr>ac_failed := sat_add (ac_failed (ip_accounting p2)) (length (ib_messages b))\<rparr>\<rparr>), Inr False))"
    proof (cases r)
      case (Inl e)
      show ?thesis
        unfolding Inl sum.case by (intro frame.safe_return frame_trans [OF frame_trans [OF p2 frame_parts(1)] frame_fail_files])
    next
      case (Inr rs)
      let ?p3 = "p2\<lparr>ip_accounting := (ip_accounting p2)\<lparr>ac_inserted := sat_add (ac_inserted (ip_accounting p2)) (rs_messages_appended rs),
              ac_deduped := sat_add (ac_deduped (ip_accounting p2)) (rs_messages_deduped rs)\<rparr>\<rparr>"
      obtain p4 x where w: "with_journal (\<lambda>flt j. message_batch_ok ser flt j (ib_source b) (map bm_journal (ib_messages b))) ?p3 = (p4, x)"
        by (rule prod.exhaust)
      have "frame p p4" by (rule frame_trans [OF frame_trans [OF p2 frame_parts(1)] frame_journal [OF w]])
      then have "frame.safe p (p4, x)" by (rule frame.safe_return)
      then show ?thesis
        unfolding Inr sum.case w
        by (rule frame.safe_then_do) (intro frame.safe_return, erule frame_trans, rule looks_same_frame [OF accept_fold_same])
    qed
  qed
qed

lemma frame_join: "frame.safe p (join_inflight ser p)"
proof (cases "ip_inflight p")
  case None
  then show ?thesis by (simp add: join_inflight_def frame.safe_return frame_refl)
next
  case (Some b)
  obtain p' ans where n: "next_answer (p\<lparr>ip_inflight := None\<rparr>) = (p', ans)" by (rule prod.exhaust)
  have "frame p p'" using frame_trans [OF frame_parts(3) frame_parts(5)] next_answer_is [OF n] by metis
  then show ?thesis
    by (cases ans) (auto simp: join_inflight_def Some n frame.safe_error intro: frame_extend [OF frame_apply_outcome])
qed

lemma frame_flush:
  "frame.safe p (flush ser wait p)" "flush ser wait p = (q, Inr x) \<Longrightarrow> ip_pending q = None"
proof -
  have "frame.safe p (flush ser wait p) \<and> (\<forall>q x. flush ser wait p = (q, Inr x) \<longrightarrow> ip_pending q = None)"
  proof (cases "join_inflight ser p")
    case (Pair p1 r)
    have p1: "frame p p1" using frame_join [of p ser] by (simp add: Pair frame.safe_def)
    show ?thesis
    proof (cases r)
      case (Inl e)
      then show ?thesis by (simp add: flush_def Pair frame.safe_error p1)
    next
      case (Inr ok)
      show ?thesis
      proof (cases "ip_pending p1")
        case None
        then show ?thesis by (simp add: flush_def Pair Inr frame.safe_return p1)
      next
        case (Some b)
        obtain p2 c where c: "is_cancelled (p1\<lparr>ip_pending := None\<rparr>) = (p2, c)" by (rule prod.exhaust)
        have p2: "frame p p2" "ip_pending p2 = None"
          using frame_trans [OF p1 frame_trans [OF frame_parts(4) frame_parts(6)]] is_cancelled_is [OF c] by (metis, simp)
        have p3: "frame p (p2\<lparr>ip_inflight := Some b\<rparr>)" by (rule frame_trans [OF p2(1) frame_parts(3)])
        obtain p4 s where j: "join_inflight ser (p2\<lparr>ip_inflight := Some b\<rparr>) = (p4, s)" by (rule prod.exhaust)
        have p4: "frame (p2\<lparr>ip_inflight := Some b\<rparr>) p4"
          using frame_join [of "p2\<lparr>ip_inflight := Some b\<rparr>" ser] by (simp add: j frame.safe_def)
        then have "ip_pending p4 = None" using p2(2) by (auto simp: frame_def)
        then show ?thesis
          using p2 p3 frame_trans [OF p3 p4] by (simp add: flush_def Pair Inr Some c Let_def j frame.safe_return)
      qed
    qed
  qed
  then show "frame.safe p (flush ser wait p)" "flush ser wait p = (q, Inr x) \<Longrightarrow> ip_pending q = None" by auto
qed

lemma flush_and_continue_frame:
  assumes "flush_and_continue ser wait p = (q, r)"
  shows "frame p q" "r = Inr x \<Longrightarrow> ip_pending q = None"
proof -
  obtain p1 s where f: "flush ser wait p = (p1, s)" by (rule prod.exhaust)
  have p1: "frame p p1" using frame_flush(1) [of p ser wait] by (simp add: f frame.safe_def)
  obtain p2 c where c: "is_cancelled p1 = (p2, c)" by (rule prod.exhaust)
  have p2: "frame p p2" "ip_pending p2 = ip_pending p1"
    using frame_trans [OF p1 frame_parts(6)] is_cancelled_is [OF c] by (metis, simp)
  show "frame p q" "r = Inr x \<Longrightarrow> ip_pending q = None"
    using assms p1 p2 frame_flush(2) [of ser wait p p1]
    by (auto simp: flush_and_continue_def f c then_do_def split: sum.splits if_splits)
qed

end
