(* ===== verification/PushRunInv.thy ===== *)
theory PushRunInv
  imports PushRun PipelineSafe
begin

text \<open>
  One conversation through the pipeline: \<open>ready_for\<close> while its chunks are queued, \<open>between\<close> before the
  next one is taken up.
\<close>

section \<open>Queueing a conversation\<close>

definition ready_for :: "(nat \<Rightarrow> prepared_file) \<Rightarrow> (nat \<Rightarrow> string) \<Rightarrow> string set \<Rightarrow> nat \<Rightarrow> nat \<Rightarrow> nat set \<Rightarrow> nat \<Rightarrow> nat \<Rightarrow> pipeline \<Rightarrow> bool" where
  "ready_for prep label files0 n bs S i k p \<longleftrightarrow>
     exact_book prep label files0 p \<and> length (ip_trackers p) = n \<and> length (ip_results p) = n \<and> ip_batch_size p = bs \<and>
     tracker_at p i \<noteq> None \<and> (\<forall>j > i. tracker_at p j = None) \<and> (\<forall>j. tracker_at p j \<noteq> None \<longrightarrow> j \<in> S) \<and>
     chunks_of_file i (ip_queued p) = List.take k (pf_chunks (prep i)) \<and>
     sorted (map fst (ip_queued p)) \<and> (\<forall>j \<in> fst ` set (ip_queued p). j \<le> i) \<and>
     (\<forall>b. ip_pending p = Some b \<longrightarrow> ib_source b = pf_source (prep i))"

lemma ready_exact: "ready_for prep label files0 n bs S i k p \<Longrightarrow> exact_book prep label files0 p"
  by (simp add: ready_for_def)

lemma ready_for_frame:
  assumes "ready_for prep label files0 n bs S i k p" and "frame p q" and "exact_book prep label files0 q"
  shows "ready_for prep label files0 n bs S i k q"
  using assms by (auto simp: ready_for_def frame_def)

lemma chunks_of_file_snoc: "chunks_of_file i (q @ [(j, c)]) = chunks_of_file i q @ (if i = j then [c] else [])"
  by (simp add: chunks_of_file_def)

lemma queued_snoc: "queued_messages (q @ [(j, c)]) = queued_messages q @ tagged j (ic_messages c)"
  by (simp add: queued_messages_def)

text \<open>A chunk enters the pending batch.\<close>

definition chunk_added :: "nat \<Rightarrow> import_chunk \<Rightarrow> pipeline \<Rightarrow> pipeline" where
  "chunk_added i c p =
     (let source = (case tracker_at p i of None \<Rightarrow> [] | Some t \<Rightarrow> ft_source t)
      in p\<lparr>ip_pending := Some (batch_push i c (case ip_pending p of None \<Rightarrow> batch_new source | Some b \<Rightarrow> b)),
           ip_queued := ip_queued p @ [(i, c)]\<rparr>)"

lemma add_chunk_is:
  "add_chunk ser i c p =
     (if is_full (the (ip_pending (chunk_added i c p))) (ip_batch_size p) MAX_IMPORT_BODY_BYTES
      then flush_for_file ser i (chunk_added i c p) else (chunk_added i c p, Inr Continue))"
  by (simp add: add_chunk_def chunk_added_def Let_def)

lemma chunk_added_ready:
  assumes ready: "ready_for prep label files0 n bs S i k p" and k: "k < length (pf_chunks (prep i))"
    and c: "c = pf_chunks (prep i) ! k" and nonempty: "ic_messages c \<noteq> []"
    and fits: "\<forall>b. ip_pending p = Some b \<longrightarrow> \<not> would_overflow b c (ip_batch_size p) MAX_IMPORT_BODY_BYTES"
  shows "ready_for prep label files0 n bs S i (Suc k) (chunk_added i c p)"
proof -
  let ?q = "chunk_added i c p"
  obtain t where t: "tracker_at p i = Some t" using ready by (auto simp: ready_for_def)
  have book: "messages_flow prep p" "trackers_true prep label p" "results_true files0 label p" "batches_true prep p"
    "totals_true p" "counts_exact prep p"
    using ready by (simp_all add: ready_for_def exact_book_def book_def)
  have source: "ft_source t = pf_source (prep i)" using book(2) t by (simp add: trackers_true_def)
  have cin: "c \<in> set (pf_chunks (prep i))" using k c by simp
  have parts: "tracker_at ?q = tracker_at p" "accepted ?q = accepted p" "failed_joined ?q = failed_joined p" "done_ok ?q = done_ok p"
    "done_files ?q = done_files p" "ip_results ?q = ip_results p" "ip_accounting ?q = ip_accounting p" "ip_batch_size ?q = ip_batch_size p"
    "ip_trackers ?q = ip_trackers p" "ip_queued ?q = ip_queued p @ [(i, c)]" "ip_joined ?q = ip_joined p"
    by (simp_all add: chunk_added_def Let_def fun_eq_iff accepted_def failed_joined_def done_ok_def done_files_def tracker_at_def)
  have all: "all_messages ?q = all_messages p @ tagged i (ic_messages c)"
    by (auto simp: all_messages_def opt_messages_def chunk_added_def Let_def batch_new_def split: option.split)
  have taken: "chunks_of_file i (ip_queued ?q) = List.take (Suc k) (pf_chunks (prep i))"
    unfolding parts using ready k by (simp add: chunks_of_file_snoc ready_for_def take_Suc_conv_app_nth c)
  have "messages_flow prep ?q"
    unfolding messages_flow_def
  proof (intro conjI allI impI)
    show "subseq (all_messages ?q) (queued_messages (ip_queued ?q))"
      using book(1) by (simp add: all parts queued_snoc messages_flow_def list_emb_append_mono)
  next
    fix j
    show "\<exists>k. chunks_of_file j (ip_queued ?q) = List.take k (pf_chunks (prep j))"
      using taken book(1) by (cases "j = i") (auto simp: parts chunks_of_file_snoc messages_flow_def)
  next
    fix j assume "chunks_of_file j (ip_queued ?q) \<noteq> []"
    then show "tracker_at ?q j \<noteq> None"
      using book(1) t by (cases "j = i") (auto simp: parts chunks_of_file_snoc messages_flow_def)
  qed
  moreover have "batches_true prep ?q"
  proof -
    have "batch_ok prep (ip_batch_size p) (batch_push i c (case ip_pending p of None \<Rightarrow> batch_new (ft_source t) | Some b \<Rightarrow> b))"
    proof (cases "ip_pending p")
      case None
      then show ?thesis using batch_ok_single [where prep = prep and i = i, OF cin] by (simp add: source)
    next
      case (Some b)
      then have "batch_ok prep (ip_batch_size p) b" "ib_messages b \<noteq> []"
        using book(4) by (auto simp: batches_true_def all_batches_def)
      moreover have "pf_source (prep i) = ib_source b" using ready Some by (simp add: ready_for_def)
      ultimately show ?thesis using fits Some cin by (simp add: batch_ok_push)
    qed
    then show ?thesis
      using book(4) nonempty
      by (auto simp: batches_true_def all_batches_def chunk_added_def Let_def t tagged_def split: option.splits)
  qed
  moreover have "trackers_true prep label ?q" "results_true files0 label ?q" "totals_true ?q" "counts_exact prep ?q"
    using book by (simp_all add: trackers_true_def results_true_def row_ok_def totals_true_def counts_exact_def parts)
  moreover have "\<forall>b. ip_pending ?q = Some b \<longrightarrow> ib_source b = pf_source (prep i)"
    using ready source by (auto simp: chunk_added_def Let_def t ready_for_def batch_new_def split: option.split)
  ultimately show ?thesis
    using ready taken by (auto simp: ready_for_def exact_book_def book_def parts sorted_append)
qed

lemma flush_for_file_result:
  assumes "flush_for_file ser i p = (q, r)"
  shows "frame p q" "r = Inr x \<Longrightarrow> ip_pending q = None"
proof -
  obtain p1 s where f: "flush_and_continue ser False p = (p1, s)" by (rule prod.exhaust)
  note flush_and_continue_frame [OF f]
  then show "frame p q" "r = Inr x \<Longrightarrow> ip_pending q = None"
    using assms by (auto simp: flush_for_file_def f then_do_def split: sum.splits)
qed

text \<open>A step that keeps the book: the state is ready for the next one when it says so.\<close>

definition kept :: "(nat \<Rightarrow> prepared_file) \<Rightarrow> (nat \<Rightarrow> string) \<Rightarrow> string set \<Rightarrow> (pipeline \<Rightarrow> 'a \<Rightarrow> bool) \<Rightarrow> pipeline \<times> (string + 'a) \<Rightarrow> bool" where
  "kept prep label files0 P m \<longleftrightarrow>
     book prep label files0 (fst m) \<and> (\<forall>x. snd m = Inr x \<longrightarrow> exact_book prep label files0 (fst m) \<and> P (fst m) x)"

lemma kept_safe: "kept prep label files0 P m \<Longrightarrow> pipe.safe prep label files0 m"
  by (simp add: kept_def pipe.safe_def)

lemma kept_then_do:
  "kept prep label files0 P m \<Longrightarrow>
   (\<And>s x. m = (s, Inr x) \<Longrightarrow> exact_book prep label files0 s \<Longrightarrow> P s x \<Longrightarrow> kept prep label files0 Q (f s x)) \<Longrightarrow>
   kept prep label files0 Q (then_do m f)"
  by (auto simp: kept_def then_do_def split: prod.splits sum.splits)

lemma kept_return: "exact_book prep label files0 s \<Longrightarrow> P s x \<Longrightarrow> kept prep label files0 P (s, Inr x)"
  by (simp add: kept_def exact_book_def)

lemma kept_intro:
  "pipe.safe prep label files0 m \<Longrightarrow> (\<And>s x. m = (s, Inr x) \<Longrightarrow> exact_book prep label files0 s \<Longrightarrow> P s x) \<Longrightarrow> kept prep label files0 P m"
  by (auto simp: kept_def pipe.safe_def prod_eq_iff)

lemma flush_for_file_kept:
  assumes "ready_for prep label files0 n bs S i k p"
  shows "kept prep label files0 (\<lambda>q _. ready_for prep label files0 n bs S i k q \<and> ip_pending q = None) (flush_for_file ser i p)"
proof (rule kept_intro)
  show "pipe.safe prep label files0 (flush_for_file ser i p)"
    using assms by (simp add: ready_for_def flush_for_file_safe)
next
  fix s x assume "flush_for_file ser i p = (s, Inr x)" and "exact_book prep label files0 s"
  then show "ready_for prep label files0 n bs S i k s \<and> ip_pending s = None"
    using ready_for_frame [OF assms] flush_for_file_result by blast
qed

lemma queue_chunk_kept:
  assumes ready: "ready_for prep label files0 n bs S i k p" and k: "k < length (pf_chunks (prep i))"
    and c: "c = pf_chunks (prep i) ! k" and nonempty: "ic_messages c \<noteq> []"
  shows "kept prep label files0 (\<lambda>q step. \<exists>m. ready_for prep label files0 n bs S i m q \<and> (step = Continue \<longrightarrow> m = Suc k)) (queue_chunk ser i c p)"
proof -
  let ?first = "case ip_pending p of None \<Rightarrow> False | Some b \<Rightarrow> would_overflow b c (ip_batch_size p) MAX_IMPORT_BODY_BYTES"
  let ?fits = "\<lambda>q. \<forall>b. ip_pending q = Some b \<longrightarrow> \<not> would_overflow b c (ip_batch_size q) MAX_IMPORT_BODY_BYTES"
  have added: "kept prep label files0 (\<lambda>q step. \<exists>m. ready_for prep label files0 n bs S i m q \<and> (step = Continue \<longrightarrow> m = Suc k)) (add_chunk ser i c q)"
    if "ready_for prep label files0 n bs S i k q" "?fits q" for q
  proof -
    have next_ready: "ready_for prep label files0 n bs S i (Suc k) (chunk_added i c q)"
      by (rule chunk_added_ready [OF that(1) k c nonempty that(2)])
    have "kept prep label files0 (\<lambda>q step. \<exists>m. ready_for prep label files0 n bs S i m q \<and> (step = Continue \<longrightarrow> m = Suc k))
        (flush_for_file ser i (chunk_added i c q))"
      using flush_for_file_kept [OF next_ready, of ser] by (auto simp: kept_def)
    moreover have "kept prep label files0 (\<lambda>q step. \<exists>m. ready_for prep label files0 n bs S i m q \<and> (step = Continue \<longrightarrow> m = Suc k))
        (chunk_added i c q, Inr Continue)"
      using next_ready by (intro kept_return) (auto simp: ready_for_def)
    ultimately show ?thesis by (simp add: add_chunk_is)
  qed
  have before_add: "kept prep label files0 (\<lambda>q step. ready_for prep label files0 n bs S i k q \<and> ?fits q)
      (if ?first then flush_for_file ser i p else (p, Inr Continue))"
  proof (cases ?first)
    case True
    then show ?thesis using flush_for_file_kept [OF ready, of ser] by (auto simp: kept_def)
  next
    case False
    then show ?thesis using ready by (auto simp: ready_for_def intro!: kept_return split: option.splits)
  qed
  show ?thesis
    unfolding queue_chunk_def Let_def
  proof (rule kept_then_do [OF before_add])
    fix s step assume s: "exact_book prep label files0 s" "ready_for prep label files0 n bs S i k s \<and> ?fits s"
    show "kept prep label files0 (\<lambda>q step. \<exists>m. ready_for prep label files0 n bs S i m q \<and> (step = Continue \<longrightarrow> m = Suc k))
        (if step \<noteq> Continue then (s, Inr step) else add_chunk ser i c s)"
      using s added [of s] by (auto intro: kept_return)
  qed
qed

lemma queue_chunks_kept:
  assumes "ready_for prep label files0 n bs S i k p" and "rest = drop k (pf_chunks (prep i))" and "\<forall>c \<in> set rest. ic_messages c \<noteq> []"
  shows "kept prep label files0 (\<lambda>q _. \<exists>m. ready_for prep label files0 n bs S i m q) (queue_chunks ser i rest p)"
  using assms
proof (induction rest arbitrary: k p)
  case Nil
  show ?case
    unfolding queue_chunks.simps using Nil.prems(1) ready_exact [OF Nil.prems(1)] by (intro kept_return) blast+
next
  case (Cons c rest)
  have k: "k < length (pf_chunks (prep i))" "c = pf_chunks (prep i) ! k" "rest = drop (Suc k) (pf_chunks (prep i))"
    using Cons.prems(2) by (metis drop_all leI list.distinct(1), metis nth_via_drop, metis drop_Suc list.sel(3) tl_drop)
  show ?case
    unfolding queue_chunks.simps
  proof (rule kept_then_do [OF queue_chunk_kept [OF Cons.prems(1) k(1,2)]])
    show "ic_messages c \<noteq> []" using Cons.prems(3) by simp
  next
    fix s step
    assume "exact_book prep label files0 s" and "\<exists>m. ready_for prep label files0 n bs S i m s \<and> (step = Continue \<longrightarrow> m = Suc k)"
    then show "kept prep label files0 (\<lambda>q _. \<exists>m. ready_for prep label files0 n bs S i m q)
        (case step of Continue \<Rightarrow> queue_chunks ser i rest s | FileFailed \<Rightarrow> (s, Inr True) | Abort \<Rightarrow> (s, Inr False))"
      using Cons.IH [OF _ k(3)] Cons.prems(3) by (cases step) (auto intro: kept_return)
  qed
qed

section \<open>The state between two conversations\<close>

definition between :: "(nat \<Rightarrow> prepared_file) \<Rightarrow> (nat \<Rightarrow> string) \<Rightarrow> string set \<Rightarrow> nat \<Rightarrow> nat \<Rightarrow> nat set \<Rightarrow> nat \<Rightarrow> pipeline \<Rightarrow> bool" where
  "between prep label files0 n bs S i p \<longleftrightarrow>
     exact_book prep label files0 p \<and> length (ip_trackers p) = n \<and> length (ip_results p) = n \<and> ip_batch_size p = bs \<and>
     (\<forall>j \<ge> i. tracker_at p j = None) \<and> (\<forall>j. tracker_at p j \<noteq> None \<longrightarrow> j \<in> S) \<and> sorted (map fst (ip_queued p)) \<and> (\<forall>j \<in> fst ` set (ip_queued p). j < i)"

lemma between_frame:
  "between prep label files0 n bs S i p \<Longrightarrow> frame p q \<Longrightarrow> exact_book prep label files0 q \<Longrightarrow> between prep label files0 n bs S i q"
  by (auto simp: between_def frame_def)

lemma ready_between: "ready_for prep label files0 n bs S i k p \<Longrightarrow> between prep label files0 n bs S (Suc i) p"
  by (auto simp: ready_for_def between_def)

lemma between_Suc: "between prep label files0 n bs S i p \<Longrightarrow> between prep label files0 n bs S (Suc i) p"
  by (auto simp: between_def)

lemma start_file_ready:
  assumes inv: "between prep label files0 n bs S i p" and "i < n" and "i \<in> S" and source: "\<forall>b. ip_pending p = Some b \<longrightarrow> ib_source b = pf_source (prep i)"
  shows "ready_for prep label files0 n bs S i 0 (start_file i (label i) (prep i) p)"
proof -
  let ?q = "start_file i (label i) (prep i) p"
  have none: "tracker_at p i = None" "i < length (ip_trackers p)" using assms by (simp_all add: between_def)
  have book: "messages_flow prep p" "trackers_true prep label p" "results_true files0 label p" "batches_true prep p"
    "totals_true p" "counts_exact prep p"
    using inv by (simp_all add: between_def exact_book_def book_def)
  have empty: "chunks_of_file i (ip_queued p) = []" using book(1) none by (auto simp: messages_flow_def)
  have parts: "accepted ?q = accepted p" "failed_joined ?q = failed_joined p" "all_messages ?q = all_messages p" "all_batches ?q = all_batches p"
    "done_files ?q = done_files p" "ip_queued ?q = ip_queued p" "ip_results ?q = ip_results p" "ip_pending ?q = ip_pending p"
    "ip_accounting ?q = ip_accounting p" "ip_batch_size ?q = ip_batch_size p" "length (ip_trackers ?q) = length (ip_trackers p)"
    "ip_joined ?q = ip_joined p"
    by (simp_all add: start_file_def accepted_def failed_joined_def all_messages_def all_batches_def done_files_def)
  have tracker: "tracker_at ?q j = (if i = j then Some (file_tracker_new (label i) (prep i)) else tracker_at p j)" for j
    using none by (simp add: start_file_def)
  have no_message: "cnt i (accepted p) = 0"
  proof -
    have "mset (accepted p) \<subseteq># mset (concat (map (ib_messages \<circ> fst) (ip_joined p)))"
    proof -
      have "mset (concat (map f (filter P xs))) \<subseteq># mset (concat (map f xs))" for f :: "import_batch \<times> (batch_error + import_response) \<Rightarrow> batch_message list" and P xs
        by (induction xs) (auto simp: subset_mset.add_increasing intro: subset_mset.add_mono)
      then show ?thesis by (simp add: accepted_def)
    qed
    also have "\<dots> \<subseteq># mset (all_messages p)" by (simp add: all_messages_def)
    also have "\<dots> \<subseteq># mset (queued_messages (ip_queued p))" using book(1) by (rule flow_mset)
    finally have "cnt i (accepted p) \<le> cnt i (queued_messages (ip_queued p))" by (rule cnt_mset_mono)
    then show ?thesis by (simp add: cnt_queued empty)
  qed
  have ok_mono: "done_ok p j \<Longrightarrow> done_ok ?q j" for j using none by (auto simp: done_ok_def tracker)
  have "messages_flow prep ?q" using book(1) by (auto simp: messages_flow_def parts tracker)
  moreover have "trackers_true prep label ?q" using book(2) by (simp add: trackers_true_def parts tracker file_tracker_new_def)
  moreover have "results_true files0 label ?q"
    using book(3) ok_mono unfolding results_true_def row_ok_def parts by blast
  moreover have "batches_true prep ?q" "totals_true ?q" using book by (simp_all add: batches_true_def totals_true_def parts)
  moreover have "counts_exact prep ?q"
    using book(6) no_message by (auto simp: counts_exact_def parts tracker file_tracker_new_def)
  ultimately show ?thesis
    using inv source empty \<open>i \<in> S\<close> unfolding ready_for_def exact_book_def book_def parts tracker
    by (auto simp: between_def tracker dest: less_imp_le)
qed

lemma finish_queueing_kept:
  assumes "between prep label files0 n bs S i p"
  shows "kept prep label files0 (\<lambda>q _. between prep label files0 n bs S i q) (finish_queueing ser j p)"
proof -
  let ?q = "update_tracker (\<lambda>t. t\<lparr>ft_queue_complete := True\<rparr>) j p"
  have same: "looks_same p ?q" "counts_same p ?q"
    by (rule looks_same_update counts_same_update, simp add: core_def)+
  then have q: "exact_book prep label files0 ?q" using assms looks_same_exact_book by (simp add: between_def)
  show ?thesis
  proof (rule kept_intro)
    show "pipe.safe prep label files0 (finish_queueing ser j p)"
      unfolding finish_queueing_def by (rule finish_file_safe [OF q])
  next
    fix s x assume f: "finish_queueing ser j p = (s, Inr x)" and s: "exact_book prep label files0 s"
    have "frame ?q s" using frame_finish_file [of ?q ser j] f by (simp add: finish_queueing_def frame.safe_def)
    then show "between prep label files0 n bs S i s"
      using between_frame [OF between_frame [OF assms looks_same_frame [OF same(1)] q] _ s] by blast
  qed
qed

lemma import_prepared_kept:
  assumes inv: "between prep label files0 n bs S i p" and "i < n" and "i \<in> S" and "\<forall>c \<in> set (pf_chunks (prep i)). ic_messages c \<noteq> []"
  shows "kept prep label files0 (\<lambda>q _. between prep label files0 n bs S (Suc i) q) (import_prepared ser i (label i) (prep i) p)"
proof -
  let ?fits = "\<lambda>q. \<forall>b. ip_pending q = Some b \<longrightarrow> ib_source b = pf_source (prep i)"
  have first: "kept prep label files0 (\<lambda>q _. between prep label files0 n bs S i q \<and> ?fits q)
      (if pending_source_differs p (pf_source (prep i)) then flush_and_continue ser False p else (p, Inr True))"
  proof (cases "pending_source_differs p (pf_source (prep i))")
    case True
    have "kept prep label files0 (\<lambda>q _. between prep label files0 n bs S i q \<and> ?fits q) (flush_and_continue ser False p)"
    proof (rule kept_intro)
      show "pipe.safe prep label files0 (flush_and_continue ser False p)"
        using inv by (simp add: between_def flush_and_continue_safe)
    next
      fix s x assume f: "flush_and_continue ser False p = (s, Inr x)" and s: "exact_book prep label files0 s"
      show "between prep label files0 n bs S i s \<and> ?fits s"
        using between_frame [OF inv _ s] flush_and_continue_frame [OF f] by simp
    qed
    then show ?thesis using True by simp
  next
    case False
    then show ?thesis
      using inv by (auto simp: between_def pending_source_differs_def intro!: kept_return split: option.splits)
  qed
  show ?thesis
    unfolding import_prepared_def
  proof (rule kept_then_do [OF first])
    fix s go_on assume s: "exact_book prep label files0 s" "between prep label files0 n bs S i s \<and> ?fits s"
    have queued: "kept prep label files0 (\<lambda>q _. between prep label files0 n bs S (Suc i) q)
        (queue_chunks ser i (pf_chunks (prep i)) (start_file i (label i) (prep i) s))"
    proof -
      have "ready_for prep label files0 n bs S i 0 (start_file i (label i) (prep i) s)" using s assms(2,3) by (intro start_file_ready) auto
      then have "kept prep label files0 (\<lambda>q _. \<exists>m. ready_for prep label files0 n bs S i m q)
          (queue_chunks ser i (pf_chunks (prep i)) (start_file i (label i) (prep i) s))"
        using assms(4) by (intro queue_chunks_kept [where k = 0]) simp_all
      then show ?thesis using ready_between by (auto simp: kept_def)
    qed
    have rest: "kept prep label files0 (\<lambda>q _. between prep label files0 n bs S (Suc i) q)
        (then_do (queue_chunks ser i (pf_chunks (prep i)) (start_file i (label i) (prep i) s)) (\<lambda>p go_on.
           if \<not> go_on then (p, Inr False) else then_do (finish_queueing ser i p) (\<lambda>p _. (p, Inr True))))"
    proof (rule kept_then_do [OF queued])
      fix u go assume u: "exact_book prep label files0 u" "between prep label files0 n bs S (Suc i) u"
      have "kept prep label files0 (\<lambda>q _. between prep label files0 n bs S (Suc i) q) (then_do (finish_queueing ser i u) (\<lambda>p _. (p, Inr True)))"
        by (rule kept_then_do [OF finish_queueing_kept [OF u(2)]]) (rule kept_return)
      then show "kept prep label files0 (\<lambda>q _. between prep label files0 n bs S (Suc i) q)
          (if \<not> go then (u, Inr False) else then_do (finish_queueing ser i u) (\<lambda>p _. (p, Inr True)))"
        using u by (auto intro: kept_return)
    qed
    show "kept prep label files0 (\<lambda>q _. between prep label files0 n bs S (Suc i) q)
        (if \<not> go_on then (s, Inr False) else then_do (queue_chunks ser i (pf_chunks (prep i)) (start_file i (label i) (prep i) s)) (\<lambda>p go_on.
           if \<not> go_on then (p, Inr False) else then_do (finish_queueing ser i p) (\<lambda>p _. (p, Inr True))))"
      using rest s between_Suc by (auto intro: kept_return)
  qed
qed

end
