(* ===== verification/PushRunDrive.thy ===== *)
theory PushRunDrive
  imports PushRunInv
begin

text \<open>
  The loop of a run: the prepare queue holds each file between the next one to consume and the next
  one to submit exactly once (\<open>queue_ok\<close>) while no worker has panicked, every turn keeps the books
  and leaves less to do (\<open>drive_turn_kept\<close>), so the loop ends with every file consumed or with an
  abort (\<open>drive_loop_kept\<close>); and it does end when no worker panics (\<open>drive_loop_total\<close>).
\<close>

section \<open>The queue\<close>

definition prep_of :: "(nat \<Rightarrow> string + prepared_file) \<Rightarrow> nat \<Rightarrow> prepared_file" where
  "prep_of prepare i = (case prepare i of Inr x \<Rightarrow> x
     | Inl _ \<Rightarrow> \<lparr>pf_source = [], pf_chunks = [], pf_attachments = 0, pf_assets = \<lparr>at_uploaded = 0, at_skipped = 0, at_bytes = 0\<rparr>\<rparr>)"

definition readable :: "(nat \<Rightarrow> string + prepared_file) \<Rightarrow> nat set" where
  "readable prepare = {i. \<exists>x. prepare i = Inr x}"

definition prepared_well :: "(nat \<Rightarrow> string + prepared_file) \<Rightarrow> bool" where
  "prepared_well prepare \<longleftrightarrow> (\<forall>i x. prepare i = Inr x \<longrightarrow> (\<forall>c \<in> set (pf_chunks x). ic_messages c \<noteq> []))"

definition result_ok :: "(nat \<Rightarrow> string + prepared_file) \<Rightarrow> string list \<Rightarrow> nat \<Rightarrow> prepare_result \<Rightarrow> bool" where
  "result_ok prepare names k r \<longleftrightarrow>
     pr_idx r = k \<and> pr_name r = names ! k \<and> (\<forall>x. pr_outcome r = Prepared x \<longrightarrow> prepare k = Inr x)"

definition queue_ok :: "(nat \<Rightarrow> string + prepared_file) \<Rightarrow> string list \<Rightarrow> nat \<Rightarrow> nat \<Rightarrow> prepare_queue \<Rightarrow> bool" where
  "queue_ok prepare names nc ns q \<longleftrightarrow>
     0 < pq_workers q \<and> \<not> pq_panicked q \<and> pq_inflight q = length (pq_jobs q) \<and> 0 < pq_capacity q \<and> pq_inflight q \<le> pq_capacity q \<and>
     nc \<le> ns \<and> ns \<le> length names \<and>
     (\<forall>k r. pq_ready q k = Some r \<longrightarrow> result_ok prepare names k r) \<and>
     (\<forall>(i, name) \<in> set (pq_jobs q). name = names ! i) \<and>
     distinct (map fst (pq_jobs q)) \<and> dom (pq_ready q) \<inter> fst ` set (pq_jobs q) = {} \<and>
     dom (pq_ready q) \<union> fst ` set (pq_jobs q) = {nc..<ns}"

lemma queue_ok_start: "0 < w \<Longrightarrow> queue_ok prepare names 0 0 (queue_start w (max 1 a) f)"
  by (simp add: queue_ok_def queue_start_def)

lemma queue_ok_submit:
  assumes "queue_ok prepare names nc ns q" and "ns < length names" and "has_capacity q"
  shows "queue_ok prepare names nc (Suc ns) (submit ns (names ! ns) q)"
proof -
  have new: "ns \<notin> dom (pq_ready q) \<union> fst ` set (pq_jobs q)" using assms(1) by (simp add: queue_ok_def)
  have range: "insert ns {nc..<ns} = {nc..<Suc ns}" using assms(1) by (auto simp: queue_ok_def)
  have "dom (pq_ready q) \<union> fst ` set (pq_jobs q @ [(ns, names ! ns)]) = {nc..<Suc ns}"
    using assms(1) range by (simp add: queue_ok_def)
  with new assms show ?thesis by (auto simp: queue_ok_def submit_def has_capacity_def)
qed

lemma queue_ok_skip:
  assumes "queue_ok prepare names nc ns q" and "ns < length names"
  shows "queue_ok prepare names nc (Suc ns) (mark_skipped ns (names ! ns) q)"
proof -
  have new: "ns \<notin> dom (pq_ready q) \<union> fst ` set (pq_jobs q)" using assms(1) by (simp add: queue_ok_def)
  have range: "insert ns {nc..<ns} = {nc..<Suc ns}" using assms(1) by (auto simp: queue_ok_def)
  have "insert ns (dom (pq_ready q)) \<union> fst ` set (pq_jobs q) = {nc..<Suc ns}"
    using assms(1) range by (simp add: queue_ok_def)
  with new assms show ?thesis by (auto simp: queue_ok_def mark_skipped_def result_ok_def)
qed

lemma queue_ok_take:
  assumes "queue_ok prepare names nc ns q" and "take_ready nc q = (q', Some r)"
  shows "queue_ok prepare names (Suc nc) ns q'" "result_ok prepare names nc r" "nc < ns" "pq_jobs q' = pq_jobs q"
proof -
  have r: "pq_ready q nc = Some r" "q' = q\<lparr>pq_ready := (pq_ready q)(nc := None)\<rparr>"
    using assms(2) by (auto simp: take_ready_def)
  show ok: "result_ok prepare names nc r" using assms(1) r by (simp add: queue_ok_def)
  have "nc \<in> dom (pq_ready q)" using r by blast
  then have nc: "nc \<in> {nc..<ns}" "nc \<notin> fst ` set (pq_jobs q)" using assms(1) by (auto simp: queue_ok_def)
  then show "nc < ns" by simp
  have "(dom (pq_ready q) - {nc}) \<union> fst ` set (pq_jobs q) = {nc..<ns} - {nc}"
    using assms(1) nc(2) by (auto simp: queue_ok_def)
  moreover have "{nc..<ns} - {nc} = {Suc nc..<ns}" by auto
  ultimately show "queue_ok prepare names (Suc nc) ns q'"
    using assms(1) nc by (auto simp: queue_ok_def r(2))
  show "pq_jobs q' = pq_jobs q" by (simp add: r(2))
qed

lemma queue_ok_finishing [simp]: "queue_ok prepare names nc ns (q\<lparr>pq_finishing := events\<rparr>) = queue_ok prepare names nc ns q"
  by (simp add: queue_ok_def)

lemma deliver_parts [simp]:
  "pq_panicked (deliver prepare k q) = pq_panicked q" "pq_finishing (deliver prepare k q) = pq_finishing q"
  "pq_panicked (lose_worker k q)"
  by (simp_all add: deliver_def drop_job_def lose_worker_def Let_def)

lemma deliver_skipped:
  "pq_ready (deliver prepare k q) j = Some r \<Longrightarrow> pr_outcome r = PrepareSkipped \<Longrightarrow> pq_ready q j = Some r"
  by (auto simp: deliver_def drop_job_def Let_def worker_result_def split: if_splits sum.splits)

lemma queue_ok_deliver:
  assumes "queue_ok prepare names nc ns q" and k: "k < length (pq_jobs q)"
  shows "queue_ok prepare names nc ns (deliver prepare k q)"
    and "length (pq_jobs (deliver prepare k q)) < length (pq_jobs q)"
proof -
  let ?jobs = "List.take k (pq_jobs q) @ drop (Suc k) (pq_jobs q)"
  let ?r = "worker_result prepare (pq_jobs q ! k)"
  have split: "pq_jobs q = List.take k (pq_jobs q) @ pq_jobs q ! k # drop (Suc k) (pq_jobs q)"
    using k by (simp add: id_take_nth_drop)
  then have perm: "set (pq_jobs q) = insert (pq_jobs q ! k) (set ?jobs)"
    by (metis Un_insert_right list.simps(15) set_append)
  have dist: "fst (pq_jobs q ! k) \<notin> fst ` set ?jobs" "distinct (map fst ?jobs)"
  proof -
    have "distinct (map fst (List.take k (pq_jobs q) @ pq_jobs q ! k # drop (Suc k) (pq_jobs q)))"
      using assms(1) by (simp add: queue_ok_def flip: split)
    then show "fst (pq_jobs q ! k) \<notin> fst ` set ?jobs" "distinct (map fst ?jobs)" by auto
  qed
  have len: "length ?jobs = length (pq_jobs q) - 1" "0 < length (pq_jobs q)" using k by auto
  have idx: "pr_idx ?r = fst (pq_jobs q ! k)" by (simp add: worker_result_def)
  have job: "snd (pq_jobs q ! k) = names ! fst (pq_jobs q ! k)"
    using assms(1) nth_mem [OF k] by (simp add: queue_ok_def case_prod_beta)
  then have res: "result_ok prepare names (pr_idx ?r) ?r"
    by (simp add: result_ok_def worker_result_def split: sum.splits)
  have delivered: "deliver prepare k q = q\<lparr>pq_jobs := ?jobs, pq_inflight := pq_inflight q - 1, pq_ready := (pq_ready q)(pr_idx ?r \<mapsto> ?r)\<rparr>"
    by (simp add: deliver_def drop_job_def Let_def)
  show "queue_ok prepare names nc ns (deliver prepare k q)"
    using assms(1) perm dist res len unfolding queue_ok_def delivered by (auto simp: idx)
  show "length (pq_jobs (deliver prepare k q)) < length (pq_jobs q)" using len by (simp add: delivered)
qed

lemma job_at_range: "0 < pq_workers q \<Longrightarrow> pq_jobs q \<noteq> [] \<Longrightarrow> job_at k q < length (pq_jobs q)"
proof -
  assume "0 < pq_workers q" "pq_jobs q \<noteq> []"
  then have "0 < min (pq_workers q) (length (pq_jobs q))" by simp
  then have "job_at k q < min (pq_workers q) (length (pq_jobs q))" unfolding job_at_def by (rule mod_less_divisor)
  then show ?thesis by simp
qed

lemma await_ends:
  "pq_workers q = 0 \<Longrightarrow> await prepare events q = Some (q\<lparr>pq_finishing := events\<rparr>, Inl ''prepare worker disconnected'')"
  "pq_workers q \<noteq> 0 \<Longrightarrow> pq_jobs q = [] \<Longrightarrow> await prepare events q = None"
  by (simp_all add: await.simps [of _ events])

lemma await_events:
  assumes "pq_workers q \<noteq> 0" and "pq_jobs q \<noteq> []"
  shows "await prepare [] q = Some (deliver prepare 0 q\<lparr>pq_finishing := []\<rparr>, Inr ())"
    "await prepare (Finishes k # rest) q = Some (deliver prepare (job_at k q) q\<lparr>pq_finishing := rest\<rparr>, Inr ())"
    "await prepare (Panics k # rest) q = await prepare rest (lose_worker (job_at k q) q)"
  using assms by (simp_all add: await.simps [of _ "[]"] await.simps [of _ "_ # _"])

text \<open>A panic is never forgotten.\<close>

lemma await_panicked: "pq_panicked q \<Longrightarrow> await prepare events q = Some (q', r) \<Longrightarrow> pq_panicked q'"
proof (induction events arbitrary: q)
  case Nil
  then show ?case by (cases "pq_workers q = 0"; cases "pq_jobs q = []") (auto simp: await_ends await_events)
next
  case (Cons e events)
  then show ?case
    using Cons.IH [OF deliver_parts(3)]
    by (cases "pq_workers q = 0"; cases "pq_jobs q = []"; cases e) (auto simp: await_ends await_events)
qed

lemma wait_one_panicked: "pq_panicked q \<Longrightarrow> wait_one prepare q = Some (q', r) \<Longrightarrow> pq_panicked q'"
  by (simp add: wait_one_def await_panicked)

lemma queue_ok_wait:
  assumes ok: "queue_ok prepare names nc ns q" and w: "wait_one prepare q = Some (q', r)" and calm: "\<not> pq_panicked q'"
  shows "\<exists>k rest. r = Inr () \<and> k < length (pq_jobs q) \<and> q' = deliver prepare k q\<lparr>pq_finishing := rest\<rparr>"
    and "queue_ok prepare names nc ns q'" and "length (pq_jobs q') < length (pq_jobs q)"
proof -
  have live: "0 < pq_workers q" using ok by (simp add: queue_ok_def)
  then have jobs: "pq_jobs q \<noteq> []" using w await_ends(2) by (fastforce simp: wait_one_def)
  note ev = await_events [OF _ jobs, of prepare]
  note range = job_at_range [OF live jobs]
  show ex: "\<exists>k rest. r = Inr () \<and> k < length (pq_jobs q) \<and> q' = deliver prepare k q\<lparr>pq_finishing := rest\<rparr>"
  proof (cases "pq_finishing q")
    case Nil
    then show ?thesis using w live jobs by (auto simp: wait_one_def ev)
  next
    case (Cons e rest)
    show ?thesis
    proof (cases e)
      case (Finishes k)
      then show ?thesis using w live Cons range [of k] by (auto simp: wait_one_def ev)
    next
      case (Panics k)
      then have "await prepare rest (lose_worker (job_at k q) q) = Some (q', r)"
        using w live Cons by (simp add: wait_one_def ev)
      then show ?thesis using await_panicked [of "lose_worker (job_at k q) q"] calm by simp
    qed
  qed
  show "queue_ok prepare names nc ns q'" "length (pq_jobs q') < length (pq_jobs q)"
    using ex queue_ok_deliver [OF ok] by auto
qed

text \<open>Without a panic to come, a wait ends while there is a job.\<close>

definition no_panics :: "prepare_queue \<Rightarrow> bool" where
  "no_panics q \<longleftrightarrow> list_all (\<lambda>e. \<not> is_panic e) (pq_finishing q)"

lemma wait_one_total:
  assumes ok: "queue_ok prepare names nc ns q" and jobs: "pq_jobs q \<noteq> []" and calm: "no_panics q"
  shows "\<exists>q'. wait_one prepare q = Some (q', Inr ()) \<and> \<not> pq_panicked q' \<and> no_panics q'"
proof -
  have q: "0 < pq_workers q" "\<not> pq_panicked q" using ok by (simp_all add: queue_ok_def)
  show ?thesis
  proof (cases "pq_finishing q")
    case Nil
    then show ?thesis using q jobs by (simp add: wait_one_def await_events no_panics_def)
  next
    case (Cons e rest)
    then obtain k where "e = Finishes k" using calm by (cases e) (auto simp: no_panics_def)
    then show ?thesis using q jobs calm Cons by (simp add: wait_one_def await_events no_panics_def)
  qed
qed

text \<open>A worker that panics while another lives takes its job with it, and the wait for it never ends.\<close>

lemma lost_job_never_arrives:
  "pq_workers q = 2 \<Longrightarrow> pq_jobs q = [job] \<Longrightarrow> pq_finishing q = Panics k # rest \<Longrightarrow> wait_one prepare q = None"
  by (simp add: wait_one_def await_events await_ends(2) lose_worker_def drop_job_def Let_def job_at_def)

text \<open>With the last worker gone, the wait is an error.\<close>

lemma last_worker_gone:
  "pq_workers q = 1 \<Longrightarrow> pq_jobs q \<noteq> [] \<Longrightarrow> pq_finishing q = Panics k # rest \<Longrightarrow>
   \<exists>q'. wait_one prepare q = Some (q', Inl ''prepare worker disconnected'')"
  by (simp add: wait_one_def await_events await_ends(1) lose_worker_def drop_job_def Let_def)

section \<open>The loop keeps the books\<close>

definition drive_inv :: "nat \<Rightarrow> (nat \<Rightarrow> string + prepared_file) \<Rightarrow> string set \<Rightarrow> string list \<Rightarrow> drive_state \<Rightarrow> bool" where
  "drive_inv bs prepare files0 names s \<longleftrightarrow>
     between (prep_of prepare) ((!) names) files0 (length names) bs (readable prepare) (ds_next_consume s) (ds_pipeline s) \<and>
     queue_ok prepare names (ds_next_consume s) (ds_next_submit s) (ds_queue s)"

text \<open>What is left to do: files to consume and results to receive.\<close>

definition left_to_do :: "string list \<Rightarrow> drive_state \<Rightarrow> nat" where
  "left_to_do names s =
     (length names - ds_next_consume s) + (length names - ds_next_submit s) + length (pq_jobs (ds_queue s))"

lemma record_skipped_between:
  "between prep label files0 n bs S i p \<Longrightarrow> between prep label files0 n bs S i (record_skipped idx (label idx) p)"
  unfolding record_skipped_def
  by (rule between_frame [OF _ frame_set(2)])
    (auto simp: between_def result_skipped_def row_ok_def intro: set_result_exact)

lemma submit_files_inv:
  assumes "drive_inv bs prepare files0 names s"
  shows "drive_inv bs prepare files0 names (submit_files append_mode force names s) \<and>
    ds_next_consume (submit_files append_mode force names s) = ds_next_consume s \<and>
    left_to_do names (submit_files append_mode force names s) \<le> left_to_do names s \<and>
    (length names \<le> ds_next_submit (submit_files append_mode force names s) \<or>
     \<not> has_capacity (ds_queue (submit_files append_mode force names s)))"
  using assms
proof (induction append_mode force names s rule: submit_files.induct)
  case (1 append_mode force names s)
  show ?case
  proof (cases "ds_next_submit s < length names \<and> has_capacity (ds_queue s)")
    case False
    then show ?thesis using 1(2) by (subst (1 2 3 4 5) submit_files.simps) auto
  next
    case True
    obtain q p where qp: "submit_file append_mode force (ds_next_submit s) (names ! ds_next_submit s) (ds_queue s) (ds_pipeline s) = (q, p)"
      by (rule prod.exhaust)
    let ?s = "s\<lparr>ds_queue := q, ds_pipeline := p, ds_next_submit := ds_next_submit s + 1\<rparr>"
    have inv: "drive_inv bs prepare files0 names ?s" and left: "left_to_do names ?s \<le> left_to_do names s"
      using 1(2) qp True queue_ok_submit queue_ok_skip record_skipped_between
      by (auto simp: drive_inv_def submit_file_def left_to_do_def submit_def mark_skipped_def split: if_splits)
    have step: "submit_files append_mode force names s = submit_files append_mode force names ?s"
      using True by (subst submit_files.simps) (simp add: qp)
    show ?thesis
      using 1(1) [OF True qp [symmetric] refl inv] left by (simp add: step)
  qed
qed

text \<open>The events of the workers are those of the queue: only a wait takes one.\<close>

definition same_events :: "prepare_queue \<Rightarrow> prepare_queue \<Rightarrow> bool" where
  "same_events q q' \<longleftrightarrow> pq_panicked q' = pq_panicked q \<and> pq_finishing q' = pq_finishing q"

lemma submit_files_events: "same_events (ds_queue s) (ds_queue (submit_files append_mode force names s))"
proof (induction append_mode force names s rule: submit_files.induct)
  case (1 append_mode force names s)
  then show ?case
    by (subst submit_files.simps)
      (auto simp: submit_file_def submit_def mark_skipped_def same_events_def Let_def split: prod.splits if_splits)
qed

lemma consume_ready_events: "same_events (ds_queue s) (ds_queue (fst (consume_ready ser n s)))"
proof (induction n arbitrary: s)
  case (Suc n)
  show ?case
  proof (cases "pq_ready (ds_queue s) (ds_next_consume s)")
    case None
    then show ?thesis by (simp add: take_ready_def same_events_def)
  next
    case (Some result)
    obtain p assets r where "consume_result ser result (ds_pipeline s, ds_assets s) = ((p, assets), r)" by (metis prod.exhaust)
    then show ?thesis
      using Some Suc.IH [of "s\<lparr>ds_queue := _, ds_pipeline := p, ds_assets := assets, ds_next_consume := _\<rparr>"]
      by (cases r) (auto simp: take_ready_def same_events_def)
  qed
qed (simp add: same_events_def)

lemma prepare_failure_between:
  assumes "between prep label files0 n bs S i p"
  shows "between prep label files0 n bs S i (record_prepare_failure ser idx (label idx) error p)"
proof -
  let ?q = "note_failure ser [] (label idx) ''file'' error p"
  have "exact_book prep label files0 ?q"
    using assms by (intro looks_same_exact_book [OF note_failure_same]) (simp add: between_def)
  then have "between prep label files0 n bs S i ?q"
    by (rule between_frame [OF assms looks_same_frame [OF note_failure_same(1)]])
  then have "exact_book prep label files0 (set_result idx (result_failed (label idx) error) ?q)"
    by (auto simp: between_def result_failed_def row_ok_def intro: set_result_exact)
  with \<open>between prep label files0 n bs S i ?q\<close> show ?thesis
    unfolding record_prepare_failure_def by (rule between_frame [OF _ frame_set(2)])
qed

lemma consume_result_kept:
  assumes inv: "between (prep_of prepare) ((!) names) files0 (length names) bs (readable prepare) i p" and r: "result_ok prepare names i r"
    and "i < length names" and well: "prepared_well prepare" and c: "consume_result ser r (p, assets) = ((q, assets'), x)"
  shows "kept (prep_of prepare) ((!) names) files0 (\<lambda>q _. between (prep_of prepare) ((!) names) files0 (length names) bs (readable prepare) (Suc i) q) (q, x)"
proof (cases "pr_outcome r")
  case PrepareSkipped
  then show ?thesis using c inv between_Suc by (auto simp: consume_result_def between_def intro!: kept_return)
next
  case (PrepareFailed e)
  then have "q = record_prepare_failure ser i (names ! i) e p" "x = Inr True"
    using c r by (auto simp: consume_result_def result_ok_def)
  moreover note prepare_failure_between [OF inv, of ser i e]
  ultimately show ?thesis using between_Suc by (auto simp: between_def intro!: kept_return)
next
  case (Prepared y)
  have y: "prepare i = Inr y" "pr_idx r = i" "pr_name r = names ! i" using r Prepared by (auto simp: result_ok_def)
  then have "prep_of prepare i = y" by (simp add: prep_of_def)
  moreover have "\<forall>c \<in> set (pf_chunks y). ic_messages c \<noteq> []" using well y by (simp add: prepared_well_def)
  ultimately have "kept (prep_of prepare) ((!) names) files0 (\<lambda>q _. between (prep_of prepare) ((!) names) files0 (length names) bs (readable prepare) (Suc i) q)
      (import_prepared ser i (names ! i) y p)"
    using import_prepared_kept [OF inv assms(3), of ser] y(1) by (simp add: readable_def)
  moreover have "import_prepared ser i (names ! i) y p = (q, x)"
    using c Prepared y by (auto simp: consume_result_def split: prod.splits)
  ultimately show ?thesis by simp
qed

definition drive_kept :: "nat \<Rightarrow> (nat \<Rightarrow> string + prepared_file) \<Rightarrow> string set \<Rightarrow> string list \<Rightarrow> (drive_state \<Rightarrow> 'a \<Rightarrow> bool) \<Rightarrow> drive_state \<times> (string + 'a) \<Rightarrow> bool" where
  "drive_kept bs prepare files0 names P m \<longleftrightarrow>
     book (prep_of prepare) ((!) names) files0 (ds_pipeline (fst m)) \<and>
     (\<forall>x. snd m = Inr x \<longrightarrow> (\<exists>i. between (prep_of prepare) ((!) names) files0 (length names) bs (readable prepare) i (ds_pipeline (fst m))) \<and> P (fst m) x)"

lemma drive_inv_kept: "drive_inv bs prepare files0 names s \<Longrightarrow> P s x \<Longrightarrow> drive_kept bs prepare files0 names P (s, Inr x)"
  by (auto simp: drive_kept_def drive_inv_def between_def exact_book_def)

lemma between_kept:
  "between (prep_of prepare) ((!) names) files0 (length names) bs (readable prepare) i (ds_pipeline s) \<Longrightarrow> P s x \<Longrightarrow>
   drive_kept bs prepare files0 names P (s, Inr x)"
  by (auto simp: drive_kept_def between_def exact_book_def)

lemma drive_kept_then_do:
  "drive_kept bs prepare files0 names P m \<Longrightarrow>
   (\<And>s x i. m = (s, Inr x) \<Longrightarrow> between (prep_of prepare) ((!) names) files0 (length names) bs (readable prepare) i (ds_pipeline s) \<Longrightarrow> P s x \<Longrightarrow>
      drive_kept bs prepare files0 names Q (f s x)) \<Longrightarrow>
   drive_kept bs prepare files0 names Q (then_do m f)"
  by (auto simp: drive_kept_def then_do_def split: prod.splits sum.splits)

lemma consume_ready_kept:
  assumes "drive_inv bs prepare files0 names s" and well: "prepared_well prepare"
  shows "drive_kept bs prepare files0 names
    (\<lambda>s' aborted. \<not> aborted \<longrightarrow> drive_inv bs prepare files0 names s' \<and> left_to_do names s' \<le> left_to_do names s \<and>
       (0 < n \<longrightarrow> is_ready (ds_next_consume s) (ds_queue s) \<longrightarrow> left_to_do names s' < left_to_do names s))
    (consume_ready ser n s)"
  using assms(1)
proof (induction n arbitrary: s)
  case 0
  then show ?case by (simp add: drive_inv_kept)
next
  case (Suc n)
  obtain q taken where t: "take_ready (ds_next_consume s) (ds_queue s) = (q, taken)" by (rule prod.exhaust)
  show ?case
  proof (cases taken)
    case None
    then have "\<not> is_ready (ds_next_consume s) (ds_queue s)" using t by (auto simp: take_ready_def is_ready_def)
    then show ?thesis using Suc.prems by (simp add: t None drive_inv_kept)
  next
    case (Some r)
    obtain p assets x where c: "consume_result ser r (ds_pipeline s, ds_assets s) = ((p, assets), x)" by (metis prod.exhaust)
    have inv: "between (prep_of prepare) ((!) names) files0 (length names) bs (readable prepare) (ds_next_consume s) (ds_pipeline s)"
      and queue: "queue_ok prepare names (ds_next_consume s) (ds_next_submit s) (ds_queue s)"
      using Suc.prems by (auto simp: drive_inv_def)
    note taken_ok = queue_ok_take [OF queue t [unfolded Some]]
    have range: "ds_next_consume s < length names" using taken_ok(3) queue by (simp add: queue_ok_def)
    note step = consume_result_kept [OF inv taken_ok(2) range well c]
    let ?s = "s\<lparr>ds_queue := q, ds_pipeline := p, ds_assets := assets\<rparr>"
    let ?s' = "?s\<lparr>ds_next_consume := ds_next_consume ?s + 1\<rparr>"
    have next_inv: "drive_inv bs prepare files0 names ?s'" if "x = Inr go_on" for go_on
      using step that taken_ok(1) by (simp add: kept_def drive_inv_def)
    have left: "left_to_do names ?s' < left_to_do names s"
      using taken_ok(4) range by (simp add: left_to_do_def)
    have "drive_kept bs prepare files0 names (\<lambda>s'' go_on. s'' = ?s \<and> x = Inr go_on) (?s, x)"
      using step by (auto simp: drive_kept_def kept_def)
    then show ?thesis
      unfolding consume_ready.simps t Let_def prod.case Some option.case c
    proof (rule drive_kept_then_do)
      fix s'' go_on i assume "between (prep_of prepare) ((!) names) files0 (length names) bs (readable prepare) i (ds_pipeline s'')"
        and s'': "s'' = ?s \<and> x = Inr go_on"
      then have b: "between (prep_of prepare) ((!) names) files0 (length names) bs (readable prepare) i (ds_pipeline ?s)" by simp
      show "drive_kept bs prepare files0 names
          (\<lambda>s' aborted. \<not> aborted \<longrightarrow> drive_inv bs prepare files0 names s' \<and> left_to_do names s' \<le> left_to_do names s \<and>
             (0 < Suc n \<longrightarrow> is_ready (ds_next_consume s) (ds_queue s) \<longrightarrow> left_to_do names s' < left_to_do names s))
          (if go_on then consume_ready ser n (s''\<lparr>ds_next_consume := ds_next_consume s'' + 1\<rparr>) else (s'', Inr True))"
      proof (cases go_on)
        case True
        have "drive_inv bs prepare files0 names ?s'" using next_inv s'' by blast
        from Suc.IH [OF this] left show ?thesis
          using s'' True unfolding drive_kept_def by (simp, meson le_less_trans less_imp_le)
      next
        case False
        then show ?thesis using b s'' by (auto simp: drive_kept_def between_def exact_book_def)
      qed
    qed
  qed
qed

section \<open>The loop ends\<close>

lemma flush_between:
  assumes "between prep label files0 n bs S i p" and "flush_and_continue ser wait p = (q, r)"
  shows "book prep label files0 q" "frame p q" "r = Inr x \<Longrightarrow> between prep label files0 n bs S i q"
proof -
  have safe: "pipe.safe prep label files0 (q, r)"
    using assms by (metis between_def flush_and_continue_safe)
  then show "book prep label files0 q" by (simp add: pipe.safe_def)
  show "frame p q" by (rule flush_and_continue_frame [OF assms(2)])
  then show "r = Inr x \<Longrightarrow> between prep label files0 n bs S i q"
    using between_frame [OF assms(1)] safe by (simp add: pipe.safe_def)
qed

lemma polled_between:
  "between prep label files0 n bs S i p \<Longrightarrow> is_cancelled p = (q, c) \<Longrightarrow> between prep label files0 n bs S i q"
  using between_frame [of prep label files0 n bs S i p q] exact_book_is_cancelled [of p q c prep label files0] frame_parts(6) is_cancelled_is [of p q c]
  by (auto simp: between_def)

text \<open>A turn ends in a state the loop can go on from with less to do, or ends the loop; it ends it
  without an abort only when every file was consumed.\<close>

text \<open>The parts of a turn.\<close>

definition turn_start :: "(journal_event \<Rightarrow> u8 list) \<Rightarrow> pipeline \<Rightarrow> pipeline \<times> (string + bool)" where
  "turn_start ser p = (if pending_is_worth_overlapping p then flush_and_continue ser False p else (p, Inr True))"

definition turn_consume :: "(journal_event \<Rightarrow> u8 list) \<Rightarrow> string list \<Rightarrow> drive_state \<Rightarrow> drive_state \<times> (string + bool option)" where
  "turn_consume ser names s = then_do (consume_ready ser (length names) s)
     (\<lambda>s aborted. (s, Inr (if aborted then Some True else None)))"

definition turn_rest ::
  "(journal_event \<Rightarrow> u8 list) \<Rightarrow> (nat \<Rightarrow> string + prepared_file) \<Rightarrow> string list \<Rightarrow> drive_state \<Rightarrow>
   (drive_state \<times> (string + bool option)) option" where
  "turn_rest ser prepare names s =
     (if is_ready (ds_next_consume s) (ds_queue s) then Some (turn_consume ser names s)
      else if is_idle (ds_queue s) \<and> length names \<le> ds_next_submit s then Some (s, Inr (Some False))
      else map_option (\<lambda>(q, r). then_do (s\<lparr>ds_queue := q\<rparr>, r) (\<lambda>s _. turn_consume ser names s))
             (wait_one prepare (ds_queue s)))"

lemma drive_turn_parts:
  "drive_turn ser prepare append_mode force names s =
     (let (p, cancelled) = is_cancelled (ds_pipeline s)
      in if cancelled then Some (s\<lparr>ds_pipeline := p\<rparr>, Inr (Some True))
         else
           (let (p, r) = turn_start ser p; s = s\<lparr>ds_pipeline := p\<rparr>
            in case r of
                 Inl e \<Rightarrow> Some (s, Inl e)
               | Inr go_on \<Rightarrow>
                   if \<not> go_on then Some (s, Inr (Some True))
                   else turn_rest ser prepare names (submit_files append_mode force names s)))"
  by (simp add: drive_turn_def turn_start_def turn_rest_def turn_consume_def Let_def split: prod.split sum.split)

lemma turn_consume_events: "same_events (ds_queue s) (ds_queue (fst (turn_consume ser names s)))"
proof -
  obtain u x where c: "consume_ready ser (length names) s = (u, x)" by (rule prod.exhaust)
  have "same_events (ds_queue s) (ds_queue u)" using consume_ready_events [of s ser "length names"] by (simp add: c)
  then show ?thesis by (cases x) (simp_all add: turn_consume_def c)
qed

lemma turn_rest_panicked:
  assumes "turn_rest ser prepare names s = Some (s', r)" and "pq_panicked (ds_queue s)"
  shows "pq_panicked (ds_queue s')"
proof -
  have consumed: "pq_panicked (ds_queue (fst (turn_consume ser names u)))" if "pq_panicked (ds_queue u)" for u
    using turn_consume_events [of u ser names] that by (simp add: same_events_def)
  consider "turn_consume ser names s = (s', r)" | "s' = s"
    | q x where "wait_one prepare (ds_queue s) = Some (q, x)"
        "then_do (s\<lparr>ds_queue := q\<rparr>, x) (\<lambda>s _. turn_consume ser names s) = (s', r)"
    using assms(1) by (auto simp: turn_rest_def split: if_splits)
  then show ?thesis
  proof cases
    case 1
    then show ?thesis using consumed [OF assms(2)] by simp
  next
    case 3
    have "pq_panicked q" using 3(1) assms(2) by (rule wait_one_panicked [rotated])
    then show ?thesis using 3(2) consumed [of "s\<lparr>ds_queue := q\<rparr>"] by (cases x) auto
  qed (use assms(2) in simp)
qed

lemma drive_turn_panicked:
  assumes "drive_turn ser prepare append_mode force names s = Some (s', r)" and "pq_panicked (ds_queue s)"
  shows "pq_panicked (ds_queue s')"
  using assms submit_files_events turn_rest_panicked
  by (fastforce simp: drive_turn_parts Let_def same_events_def split: prod.splits if_splits sum.splits)

lemma drive_loop_panicked:
  "drive_loop ser prepare append_mode force names fuel s = Some (s', r) \<Longrightarrow> pq_panicked (ds_queue s) \<Longrightarrow> pq_panicked (ds_queue s')"
proof (induction fuel arbitrary: s)
  case (Suc fuel)
  then show ?case
    using drive_turn_panicked [of ser prepare append_mode force names s]
    by (fastforce split: if_splits option.splits sum.splits)
qed simp

lemma turn_start_between:
  assumes "between prep label files0 n bs S i p" and "turn_start ser p = (q, r)"
  shows "book prep label files0 q" "r = Inr x \<Longrightarrow> between prep label files0 n bs S i q"
  using flush_between [OF assms(1), of ser False q r] assms
  by (auto simp: turn_start_def between_def exact_book_def split: if_splits)

text \<open>Where the wait stands, some worker has a job.\<close>

lemma turn_has_jobs:
  assumes "queue_ok prepare names nc ns q" and "length names \<le> ns \<or> \<not> has_capacity q" and "nc < length names"
    and "\<not> is_ready nc q"
  shows "pq_jobs q \<noteq> []"
proof
  assume none: "pq_jobs q = []"
  then have "length names \<le> ns" using assms(1,2) by (auto simp: queue_ok_def has_capacity_def)
  then have "dom (pq_ready q) = {nc..<length names}" using assms(1) none by (simp add: queue_ok_def)
  then have "nc \<in> dom (pq_ready q)" using assms(3) by simp
  then show False using assms(4) by (auto simp: is_ready_def)
qed

abbreviation ends_well :: "nat \<Rightarrow> (nat \<Rightarrow> string + prepared_file) \<Rightarrow> string set \<Rightarrow> string list \<Rightarrow> drive_state \<Rightarrow> drive_state \<Rightarrow> bool option \<Rightarrow> bool" where
  "ends_well bs prepare files0 names s s' ended \<equiv>
     ended \<noteq> Some False \<and> (ended = None \<longrightarrow> drive_inv bs prepare files0 names s' \<and> left_to_do names s' < left_to_do names s)"

lemma turn_consume_kept:
  assumes inv: "drive_inv bs prepare files0 names s4" and well: "prepared_well prepare" and todo: "0 < length names"
    and less: "left_to_do names s4 < left_to_do names s \<or> left_to_do names s4 \<le> left_to_do names s \<and> is_ready (ds_next_consume s4) (ds_queue s4)"
  shows "drive_kept bs prepare files0 names (ends_well bs prepare files0 names s) (turn_consume ser names s4)"
  unfolding turn_consume_def
proof (rule drive_kept_then_do [OF consume_ready_kept [OF inv well, of "length names" ser]])
  fix u aborted i
  assume b: "between (prep_of prepare) ((!) names) files0 (length names) bs (readable prepare) i (ds_pipeline u)"
    and u: "\<not> aborted \<longrightarrow> drive_inv bs prepare files0 names u \<and> left_to_do names u \<le> left_to_do names s4 \<and>
      (0 < length names \<longrightarrow> is_ready (ds_next_consume s4) (ds_queue s4) \<longrightarrow> left_to_do names u < left_to_do names s4)"
  show "drive_kept bs prepare files0 names (ends_well bs prepare files0 names s) (u, Inr (if aborted then Some True else None))"
    using b u less todo by (auto simp: drive_kept_def between_def exact_book_def)
qed

lemma turn_rest_kept:
  assumes inv: "drive_inv bs prepare files0 names s3" and well: "prepared_well prepare" and todo: "ds_next_consume s3 < length names"
    and left: "left_to_do names s3 \<le> left_to_do names s"
    and full: "length names \<le> ds_next_submit s3 \<or> \<not> has_capacity (ds_queue s3)"
    and turn: "turn_rest ser prepare names s3 = Some (s', r)" and calm: "\<not> pq_panicked (ds_queue s')"
  shows "drive_kept bs prepare files0 names (ends_well bs prepare files0 names s) (s', r)"
proof (cases "is_ready (ds_next_consume s3) (ds_queue s3)")
  case True
  then have t: "(s', r) = turn_consume ser names s3" using turn by (simp add: turn_rest_def)
  show ?thesis unfolding t by (rule turn_consume_kept [OF inv well]) (use todo left True in auto)
next
  case not_ready: False
  have queue: "queue_ok prepare names (ds_next_consume s3) (ds_next_submit s3) (ds_queue s3)" using inv by (simp add: drive_inv_def)
  have "pq_jobs (ds_queue s3) \<noteq> []" by (rule turn_has_jobs [OF queue full todo not_ready])
  then have busy: "\<not> is_idle (ds_queue s3)" using queue by (simp add: is_idle_def queue_ok_def)
  obtain q x where w: "wait_one prepare (ds_queue s3) = Some (q, x)"
    and t: "(s', r) = then_do (s3\<lparr>ds_queue := q\<rparr>, x) (\<lambda>s _. turn_consume ser names s)"
    using turn not_ready busy by (auto simp: turn_rest_def)
  have "pq_panicked (ds_queue s') = pq_panicked q"
    using arg_cong [OF t, of fst] turn_consume_events [of "s3\<lparr>ds_queue := q\<rparr>" ser names]
    by (cases x) (simp_all add: same_events_def)
  then have "\<not> pq_panicked q" using calm by simp
  note waited = queue_ok_wait [OF queue w this]
  let ?s4 = "s3\<lparr>ds_queue := q\<rparr>"
  have "drive_inv bs prepare files0 names ?s4" using inv waited(2) by (simp add: drive_inv_def)
  moreover have "left_to_do names ?s4 < left_to_do names s" using waited(3) left by (simp add: left_to_do_def)
  moreover have s': "(s', r) = turn_consume ser names ?s4" using t waited(1) by auto
  moreover have "0 < length names" using todo by linarith
  ultimately show ?thesis unfolding s' by (intro turn_consume_kept [OF _ well]) simp_all
qed

lemma drive_turn_kept:
  assumes inv: "drive_inv bs prepare files0 names s" and well: "prepared_well prepare" and todo: "ds_next_consume s < length names"
    and turn: "drive_turn ser prepare append_mode force names s = Some (s', r)" and calm: "\<not> pq_panicked (ds_queue s')"
  shows "drive_kept bs prepare files0 names (ends_well bs prepare files0 names s) (s', r)"
proof -
  let ?btw = "between (prep_of prepare) ((!) names) files0 (length names) bs (readable prepare) (ds_next_consume s)"
  have btw: "?btw (ds_pipeline s)" and queue: "queue_ok prepare names (ds_next_consume s) (ds_next_submit s) (ds_queue s)"
    using inv by (auto simp: drive_inv_def)
  obtain p1 c where c: "is_cancelled (ds_pipeline s) = (p1, c)" by (rule prod.exhaust)
  have p1: "?btw p1" by (rule polled_between [OF btw c])
  obtain p2 r2 where f: "turn_start ser p1 = (p2, r2)" by (rule prod.exhaust)
  note p2 = turn_start_between [OF p1 f]
  show ?thesis
  proof (cases "c \<or> (\<exists>e. r2 = Inl e) \<or> r2 = Inr False")
    case True
    then consider "c" | e where "\<not> c" "r2 = Inl e" | "\<not> c" "r2 = Inr False" by blast
    then show ?thesis
    proof cases
      case 1
      then have "(s', r) = (s\<lparr>ds_pipeline := p1\<rparr>, Inr (Some True))" using turn by (simp add: drive_turn_parts c)
      moreover have "drive_kept bs prepare files0 names (ends_well bs prepare files0 names s) (s\<lparr>ds_pipeline := p1\<rparr>, Inr (Some True))"
        using p1 by (intro between_kept) auto
      ultimately show ?thesis by simp
    next
      case 2
      then show ?thesis using p2(1) turn by (auto simp: drive_turn_parts c f Let_def drive_kept_def)
    next
      case 3
      then have "(s', r) = (s\<lparr>ds_pipeline := p2\<rparr>, Inr (Some True))" using turn by (simp add: drive_turn_parts c f Let_def)
      moreover have "drive_kept bs prepare files0 names (ends_well bs prepare files0 names s) (s\<lparr>ds_pipeline := p2\<rparr>, Inr (Some True))"
        using p2(2) [OF 3(2)] by (intro between_kept) auto
      ultimately show ?thesis by simp
    qed
  next
    case False
    then have go: "\<not> c" "r2 = Inr True" by (cases r2; auto)+
    define s2 where "s2 = s\<lparr>ds_pipeline := p2\<rparr>"
    have inv2: "drive_inv bs prepare files0 names s2" "left_to_do names s2 = left_to_do names s" "ds_next_consume s2 = ds_next_consume s"
      using p2(2) [OF go(2)] queue by (simp_all add: s2_def drive_inv_def left_to_do_def)
    note s3 = submit_files_inv [OF inv2(1), of append_mode force]
    have "turn_rest ser prepare names (submit_files append_mode force names s2) = Some (s', r)"
      using go turn by (simp add: drive_turn_parts c f s2_def Let_def)
    then show ?thesis
      using s3 inv2(2,3) todo by (intro turn_rest_kept [OF _ well _ _ _ _ calm]) simp_all
  qed
qed

text \<open>A turn has an end when no worker panics.\<close>

lemma drive_turn_total:
  assumes inv: "drive_inv bs prepare files0 names s" and todo: "ds_next_consume s < length names" and calm: "no_panics (ds_queue s)"
  shows "\<exists>s' r. drive_turn ser prepare append_mode force names s = Some (s', r) \<and>
    \<not> pq_panicked (ds_queue s') \<and> no_panics (ds_queue s')"
proof -
  let ?btw = "between (prep_of prepare) ((!) names) files0 (length names) bs (readable prepare) (ds_next_consume s)"
  have btw: "?btw (ds_pipeline s)" and queue: "queue_ok prepare names (ds_next_consume s) (ds_next_submit s) (ds_queue s)"
    using inv by (auto simp: drive_inv_def)
  then have quiet: "\<not> pq_panicked (ds_queue s)" by (simp add: queue_ok_def)
  obtain p1 c where c: "is_cancelled (ds_pipeline s) = (p1, c)" by (rule prod.exhaust)
  have p1: "?btw p1" by (rule polled_between [OF btw c])
  obtain p2 r2 where f: "turn_start ser p1 = (p2, r2)" by (rule prod.exhaust)
  show ?thesis
  proof (cases "c \<or> (\<exists>e. r2 = Inl e) \<or> r2 = Inr False")
    case True
    then show ?thesis using calm quiet by (auto simp: drive_turn_parts c f Let_def)
  next
    case False
    then have go: "\<not> c" "r2 = Inr True" by (cases r2; auto)+
    define s2 where "s2 = s\<lparr>ds_pipeline := p2\<rparr>"
    define s3 where "s3 = submit_files append_mode force names s2"
    have inv2: "drive_inv bs prepare files0 names s2"
      using turn_start_between(2) [OF p1 f go(2)] queue by (simp add: s2_def drive_inv_def)
    note s3 = submit_files_inv [OF inv2, of append_mode force, folded s3_def]
    have ev: "no_panics (ds_queue s3)" "\<not> pq_panicked (ds_queue s3)"
      using submit_files_events [of s2 append_mode force names, folded s3_def] calm quiet
      by (simp_all add: s2_def no_panics_def same_events_def)
    have consumed: "\<exists>s' r. turn_consume ser names s4 = (s', r) \<and> \<not> pq_panicked (ds_queue s') \<and> no_panics (ds_queue s')"
      if "no_panics (ds_queue s4)" "\<not> pq_panicked (ds_queue s4)" for s4
      using turn_consume_events [of s4 ser names] that
      by (cases "turn_consume ser names s4") (auto simp: no_panics_def same_events_def)
    have "\<exists>s' r. turn_rest ser prepare names s3 = Some (s', r) \<and> \<not> pq_panicked (ds_queue s') \<and> no_panics (ds_queue s')"
    proof (cases "is_ready (ds_next_consume s3) (ds_queue s3)")
      case True
      then show ?thesis using consumed [OF ev] by (simp add: turn_rest_def)
    next
      case not_ready: False
      have queue3: "queue_ok prepare names (ds_next_consume s3) (ds_next_submit s3) (ds_queue s3)" using s3 unfolding drive_inv_def by blast
      have jobs: "pq_jobs (ds_queue s3) \<noteq> []"
        using s3 todo by (intro turn_has_jobs [OF queue3 _ _ not_ready]) (simp_all add: s2_def)
      then have busy: "\<not> is_idle (ds_queue s3)" using queue3 by (simp add: is_idle_def queue_ok_def)
      obtain q where w: "wait_one prepare (ds_queue s3) = Some (q, Inr ())" "\<not> pq_panicked q" "no_panics q"
        using wait_one_total [OF queue3 jobs ev(1)] by blast
      then show ?thesis using consumed [of "s3\<lparr>ds_queue := q\<rparr>"] not_ready busy by (simp add: turn_rest_def)
    qed
    then show ?thesis using go by (simp add: drive_turn_parts c f s2_def s3_def Let_def)
  qed
qed

lemma drive_loop_kept:
  assumes "drive_inv bs prepare files0 names s" and well: "prepared_well prepare"
    and "drive_loop ser prepare append_mode force names fuel s = Some (s', r)" and calm: "\<not> pq_panicked (ds_queue s')"
  shows "drive_kept bs prepare files0 names
    (\<lambda>s' aborted. \<not> aborted \<longrightarrow> drive_inv bs prepare files0 names s' \<and> ds_next_consume s' = length names) (s', r)"
  using assms(1,3)
proof (induction fuel arbitrary: s)
  case (Suc fuel)
  show ?case
  proof (cases "ds_next_consume s < length names")
    case False
    then have "(s', r) = (s, Inr False)" using Suc.prems(2) by simp
    moreover have "ds_next_consume s = length names" using Suc.prems(1) False by (simp add: drive_inv_def queue_ok_def)
    then have "drive_kept bs prepare files0 names
        (\<lambda>s' aborted. \<not> aborted \<longrightarrow> drive_inv bs prepare files0 names s' \<and> ds_next_consume s' = length names) (s, Inr False)"
      using Suc.prems(1) by (intro drive_inv_kept) simp_all
    ultimately show ?thesis by simp
  next
    case True
    obtain s1 r1 where t: "drive_turn ser prepare append_mode force names s = Some (s1, r1)"
      using Suc.prems(2) True by (auto split: option.splits)
    have "\<not> pq_panicked (ds_queue s1)"
      using Suc.prems(2) True calm drive_loop_panicked by (fastforce simp: t split: sum.splits option.splits)
    note kept = drive_turn_kept [OF Suc.prems(1) well True t this]
    show ?thesis
    proof (cases "r1 = Inr None")
      case True
      then have "drive_inv bs prepare files0 names s1" using kept by (simp add: drive_kept_def)
      then show ?thesis using Suc.IH Suc.prems(2) True \<open>ds_next_consume s < length names\<close> by (simp add: t)
    next
      case False
      then show ?thesis
        using \<open>ds_next_consume s < length names\<close> kept Suc.prems(2)
        by (cases r1) (auto simp: t drive_kept_def split: option.splits)
    qed
  qed
qed simp

lemma drive_loop_total:
  assumes "drive_inv bs prepare files0 names s" and well: "prepared_well prepare" and "left_to_do names s < fuel"
    and "no_panics (ds_queue s)"
  shows "\<exists>s' r. drive_loop ser prepare append_mode force names fuel s = Some (s', r) \<and>
    \<not> pq_panicked (ds_queue s') \<and> no_panics (ds_queue s')"
  using assms(1,3,4)
proof (induction fuel arbitrary: s)
  case (Suc fuel)
  show ?case
  proof (cases "ds_next_consume s < length names")
    case False
    then show ?thesis using Suc.prems by (simp add: drive_inv_def queue_ok_def)
  next
    case True
    obtain s1 r1 where t: "drive_turn ser prepare append_mode force names s = Some (s1, r1)"
      and calm: "\<not> pq_panicked (ds_queue s1)" "no_panics (ds_queue s1)"
      using drive_turn_total [OF Suc.prems(1) True Suc.prems(3)] by blast
    note kept = drive_turn_kept [OF Suc.prems(1) well True t calm(1)]
    show ?thesis
    proof (cases "r1 = Inr None")
      case True
      then have "drive_inv bs prepare files0 names s1" "left_to_do names s1 < fuel"
        using kept Suc.prems(2) by (simp_all add: drive_kept_def)
      from Suc.IH [OF this calm(2)] show ?thesis
        using \<open>ds_next_consume s < length names\<close> True by (simp add: t)
    next
      case False
      then show ?thesis
        using \<open>ds_next_consume s < length names\<close> calm by (cases r1) (auto simp: t split: option.splits)
    qed
  qed
qed simp

end
