(* ===== verification/PushRunLive.thy ===== *)
theory PushRunLive
  imports PushRunDrive
begin

text \<open>
  A run that nobody cancels. Then no batch is dropped, every request ends, a conversation with a
  refused message has failed, and one whose messages were all queued and accepted is done: \<open>live\<close>
  holds between the steps of the pipeline, and the run ends with a result for every conversation.
\<close>

section \<open>The invariant\<close>

definition quiet :: "pipeline \<Rightarrow> bool" where
  "quiet p \<longleftrightarrow> True \<notin> set (ip_cancel_polls p)"

text \<open>\<open>apart\<close> holds the conversations that may have become ready to be finished.\<close>

definition live :: "(nat \<Rightarrow> prepared_file) \<Rightarrow> nat set \<Rightarrow> pipeline \<Rightarrow> bool" where
  "live prep apart p \<longleftrightarrow> quiet p \<and>
     mset (all_messages p) = mset (queued_messages (ip_queued p)) \<and>
     (\<forall>i t. tracker_at p i = Some t \<longrightarrow>
        (0 < cnt i (failed_joined p) \<longrightarrow> ft_failed t \<noteq> None) \<and>
        (ft_done t \<longrightarrow> i < length (ip_results p) \<longrightarrow> ip_results p ! i \<noteq> None) \<and>
        (i \<notin> apart \<longrightarrow> \<not> is_settled t) \<and>
        (ft_queue_complete t \<longrightarrow> ft_failed t = None \<longrightarrow> chunks_of_file i (ip_queued p) = pf_chunks (prep i)))"

interpretation live: stepwise "live prep {}" "\<lambda>_. True" for prep
  by unfold_locales simp

lemma live_weaken: "live prep apart p \<Longrightarrow> apart \<subseteq> apart' \<Longrightarrow> live prep apart' p"
  by (auto simp: live_def)

section \<open>Finishing conversations\<close>

lemma live_journal_parts [simp]: "live prep apart (p\<lparr>ip_journal := j, ip_append_faults := fs\<rparr>) = live prep apart p"
  by (simp add: live_def quiet_def all_messages_def failed_joined_def tracker_at_def)

lemma live_journal: "with_journal f p = (q, r) \<Longrightarrow> live prep apart q = live prep apart p"
  using with_journal_parts live_journal_parts by metis

lemma live_set_result:
  assumes "live prep apart p"
  shows "live prep apart (set_result i r p)"
proof -
  have "(ip_results p)[i := Some r] ! j \<noteq> None" if "j < length (ip_results p)" "ip_results p ! j \<noteq> None" for j
    using that by (cases "i = j") auto
  moreover have "quiet (set_result i r p) = quiet p" by (simp add: quiet_def set_result_def)
  ultimately show ?thesis using assms by (fastforce simp: live_def)
qed

lemma live_set_done:
  assumes inv: "live prep apart p" and t: "tracker_at p i = Some t"
    and len: "length (ip_results p) = n" "i < n"
  shows "live prep (apart - {i}) (set_result i r (set_tracker i (t\<lparr>ft_done := True\<rparr>) p))"
proof -
  let ?q = "set_tracker i (t\<lparr>ft_done := True\<rparr>) p"
  have lists: "all_messages ?q = all_messages p" "failed_joined ?q = failed_joined p"
    by (simp_all add: all_messages_def failed_joined_def)
  have "(ip_results p)[i := Some r] ! j \<noteq> None" if "j < length (ip_results p)" "ip_results p ! j \<noteq> None \<or> j = i" for j
    using that by (cases "i = j") auto
  moreover have "quiet (set_result i r ?q) = quiet p" by (simp add: quiet_def set_result_def set_tracker_def)
  moreover have "\<not> is_settled (t\<lparr>ft_done := True\<rparr>)" by (simp add: is_settled_def)
  ultimately show ?thesis
    using inv t len tracker_at_some [OF t] unfolding live_def by (auto simp: lists)
qed

lemma finish_file_live:
  assumes lv: "live prep apart p" and i: "i < length (ip_results p)" and f: "finish_file_if_settled ser i p = (q, Inr x)"
  shows "live prep (apart - {i}) q"
proof (cases "\<exists>t. tracker_at p i = Some t \<and> is_settled t")
  case False
  then have "q = p" using f by (auto simp: finish_file_if_settled_def split: option.splits)
  then show ?thesis using lv False by (auto simp: live_def)
next
  case True
  then obtain t where t: "tracker_at p i = Some t" "is_settled t" by blast
  let ?q = "set_tracker i (t\<lparr>ft_done := True\<rparr>) p"
  note done_live = live_set_done [OF lv t(1) refl i]
  show ?thesis
  proof (cases "ft_failed t")
    case (Some e)
    then show ?thesis using f t done_live by (auto simp: finish_file_if_settled_def Let_def)
  next
    case None
    obtain p' r where w: "with_journal (\<lambda>flt j. file_ok ser flt j (ft_source t) (ft_name t)) ?q = (p', r)" by (rule prod.exhaust)
    from with_journal_parts [OF w] obtain j fs where p': "p' = ?q\<lparr>ip_journal := j, ip_append_faults := fs\<rparr>" by blast
    obtain row where q: "q = set_result i row p'"
      using f t None by (cases r) (auto simp: finish_file_if_settled_def Let_def w)
    then have "q = (set_result i row ?q)\<lparr>ip_journal := j, ip_append_faults := fs\<rparr>"
      by (simp add: p' set_result_def)
    then show ?thesis using done_live [of row] by simp
  qed
qed

lemma finish_files_live:
  assumes "live prep (set is) p" and "\<forall>i \<in> set is. i < length (ip_results p)"
  shows "live.safe prep (finish_files ser is p)"
  using assms
proof (induction "is" arbitrary: p)
  case Nil
  then show ?case by (simp add: live.safe_return)
next
  case (Cons i "is")
  show ?case
  proof (cases "finish_file_if_settled ser i p")
    case (Pair q r)
    show ?thesis
    proof (cases r)
      case (Inl e)
      then show ?thesis by (simp add: Pair live.safe_error)
    next
      case (Inr u)
      have "live prep (set (i # is) - {i}) q"
        using finish_file_live [OF Cons.prems(1), of i ser q] Cons.prems(2) Pair Inr by simp
      then have "live prep (set is) q" by (rule live_weaken) auto
      moreover have "length (ip_results q) = length (ip_results p)"
        using frame_finish_file [of p ser i] by (simp add: Pair frame.safe_def frame_def)
      ultimately show ?thesis using Cons.IH Cons.prems(2) by (simp add: Pair Inr)
    qed
  qed
qed

section \<open>One request\<close>

definition vital :: "file_tracker \<Rightarrow> string option \<times> bool \<times> bool \<times> nat" where
  "vital t = (ft_failed t, ft_done t, ft_queue_complete t, ft_outstanding_messages t)"

definition vitals :: "pipeline \<Rightarrow> nat \<Rightarrow> (string option \<times> bool \<times> bool \<times> nat) option" where
  "vitals p i = map_option vital (tracker_at p i)"

text \<open>What a step leaves alone that touches only trackers and the journal.\<close>

definition same_flow :: "pipeline \<Rightarrow> pipeline \<Rightarrow> bool" where
  "same_flow p q \<longleftrightarrow> ip_cancel_polls q = ip_cancel_polls p \<and> ip_joined q = ip_joined p \<and> ip_inflight q = ip_inflight p \<and>
     ip_pending q = ip_pending p \<and> ip_queued q = ip_queued p \<and> ip_results q = ip_results p"

lemma same_flow_refl [simp]: "same_flow p p"
  by (simp add: same_flow_def)

lemma same_flow_trans: "same_flow p q \<Longrightarrow> same_flow q r \<Longrightarrow> same_flow p r"
  by (simp add: same_flow_def)

lemma same_flow_update: "same_flow p (update_tracker f i p)"
  by (simp add: same_flow_def update_tracker_def set_tracker_def split: option.split)

lemma same_flow_journal: "with_journal f p = (q, r) \<Longrightarrow> same_flow p q \<and> vitals q = vitals p"
  by (auto simp: same_flow_def vitals_def tracker_at_def fun_eq_iff dest!: with_journal_parts)

lemma vitals_update:
  "(\<And>t. vital (f t) = vital t) \<Longrightarrow> vitals (update_tracker f i p) = vitals p"
  by (simp add: vitals_def fun_eq_iff option.map_comp comp_def)

lemma charge_flow:
  "same_flow p (charge_request_time represented ms p) \<and> vitals (charge_request_time represented ms p) = vitals p"
proof -
  have "same_flow p (fold (\<lambda>(position, index). update_tracker (f position) index) l p) \<and>
      vitals (fold (\<lambda>(position, index). update_tracker (f position) index) l p) = vitals p"
    if "\<And>k t. vital (f k t) = vital t" for l :: "(nat \<times> nat) list" and f
  proof (induction l arbitrary: p)
    case (Cons x l)
    obtain k i where x: "x = (k, i)" by (cases x)
    have "vitals (update_tracker (f k) i p) = vitals p" by (rule vitals_update, rule that)
    moreover have "same_flow p (update_tracker (f k) i p)" by (rule same_flow_update)
    ultimately show ?case
      using Cons [of "update_tracker (f k) i p"] same_flow_trans by (simp add: x)
  qed simp
  then show ?thesis by (simp add: charge_request_time_def Let_def vital_def)
qed

lemma accept_flow: "same_flow p (fold accept_message ms p)"
  by (induction ms arbitrary: p) (auto simp: accept_message_def intro: same_flow_trans same_flow_update)

lemma accept_vitals:
  "vitals (fold accept_message ms p) i = map_option (\<lambda>(f, d, c, n). (f, d, c, n - cnt i ms)) (vitals p i)"
proof (induction ms arbitrary: p)
  case Nil
  then show ?case by (cases "vitals p i") auto
next
  case (Cons m ms)
  then show ?case
    by (cases "tracker_at p i") (auto simp: accept_message_def vitals_def vital_def)
qed

definition marked :: "string \<Rightarrow> string option \<times> bool \<times> bool \<times> nat \<Rightarrow> string option \<times> bool \<times> bool \<times> nat" where
  "marked e v = (case fst v of None \<Rightarrow> (Some e, snd v) | Some _ \<Rightarrow> v)"

lemma marked_marked [simp]: "marked e (marked e v) = marked e v"
  by (simp add: marked_def split: option.split)

lemma fail_flow:
  "same_flow p (fail_file ser source e i p) \<and>
   vitals (fail_file ser source e i p) j = (if i = j then map_option (marked e) (vitals p j) else vitals p j)"
proof (cases "\<exists>t. tracker_at p i = Some t \<and> ft_failed t = None")
  case False
  then have "fail_file ser source e i p = p" by (auto simp: fail_file_def split: option.split)
  moreover have "map_option (marked e) (vitals p i) = vitals p i"
    using False by (cases "tracker_at p i") (auto simp: vitals_def vital_def marked_def split: option.split)
  ultimately show ?thesis by (cases "i = j") simp_all
next
  case True
  then obtain t where t: "tracker_at p i = Some t" "ft_failed t = None" by blast
  let ?q = "set_tracker i (t\<lparr>ft_failed := Some e\<rparr>) p"
  obtain q r where w: "with_journal (\<lambda>flt j. (record_failure ser flt j source (ft_name t) ''import'' e, ())) ?q = (q, r)"
    by (rule prod.exhaust)
  have ff: "fail_file ser source e i p = q" by (simp add: fail_file_def t note_failure_def w)
  have "same_flow p ?q" by (simp add: same_flow_def set_tracker_def)
  moreover have "vitals ?q j = (if i = j then map_option (marked e) (vitals p j) else vitals p j)"
    using t tracker_at_some [OF t(1)] by (cases "i = j") (simp_all add: vitals_def vital_def marked_def)
  moreover have "same_flow ?q q" "vitals q = vitals ?q" using same_flow_journal [OF w] by blast+
  ultimately show ?thesis unfolding ff using same_flow_trans [of p ?q q] by simp
qed

lemma fails_flow:
  "same_flow p (fold (fail_file ser source e) is p) \<and>
   vitals (fold (fail_file ser source e) is p) j = (if j \<in> set is then map_option (marked e) (vitals p j) else vitals p j)"
proof (induction "is" arbitrary: p)
  case (Cons i "is")
  let ?q = "fail_file ser source e i p"
  have q: "same_flow p ?q" "vitals ?q j = (if i = j then map_option (marked e) (vitals p j) else vitals p j)"
    using fail_flow by blast+
  show ?case
    using Cons [of ?q] same_flow_trans [OF q(1)] q(2) by (cases "i = j") (simp_all add: option.map_comp comp_def)
qed simp

lemma all_vitals:
  "(\<forall>t. tracker_at p i = Some t \<longrightarrow> P (ft_failed t) (ft_done t) (ft_queue_complete t) (ft_outstanding_messages t)) \<longleftrightarrow>
   (\<forall>f d c n. vitals p i = Some (f, d, c, n) \<longrightarrow> P f d c n)"
  by (cases "tracker_at p i") (auto simp: vitals_def vital_def)

lemma live_vitals:
  "live prep apart p \<longleftrightarrow> quiet p \<and>
     mset (all_messages p) = mset (queued_messages (ip_queued p)) \<and>
     (\<forall>i f d c n. vitals p i = Some (f, d, c, n) \<longrightarrow>
        (0 < cnt i (failed_joined p) \<longrightarrow> f \<noteq> None) \<and>
        (d \<longrightarrow> i < length (ip_results p) \<longrightarrow> ip_results p ! i \<noteq> None) \<and>
        (i \<notin> apart \<longrightarrow> \<not> (\<not> d \<and> (f \<noteq> None \<or> c \<and> n = 0))) \<and>
        (c \<longrightarrow> f = None \<longrightarrow> chunks_of_file i (ip_queued p) = pf_chunks (prep i)))"
  unfolding live_def is_settled_def
  by (subst all_vitals [where P = "\<lambda>f d c n. (0 < cnt _ (failed_joined p) \<longrightarrow> f \<noteq> None) \<and>
        (d \<longrightarrow> _ < length (ip_results p) \<longrightarrow> ip_results p ! _ \<noteq> None) \<and>
        (_ \<notin> apart \<longrightarrow> \<not> (\<not> d \<and> (f \<noteq> None \<or> c \<and> n = 0))) \<and>
        (c \<longrightarrow> f = None \<longrightarrow> chunks_of_file _ (ip_queued p) = pf_chunks (prep _))"]) (rule refl)

lemma same_flow_lists:
  assumes "same_flow p q"
  shows "all_messages q = all_messages p" "failed_joined q = failed_joined p" "accepted q = accepted p" "quiet q = quiet p"
  using assms by (simp_all add: same_flow_def all_messages_def failed_joined_def accepted_def quiet_def)

text \<open>The message of a batch belongs to a conversation of the run.\<close>

lemma flow_indexes:
  assumes "exact_book prep label files0 p" and "ip_inflight p = Some b" and "i \<in> set (file_indexes b)"
  shows "tracker_at p i \<noteq> None"
proof -
  obtain m where m: "m \<in> set (ib_messages b)" "i = bm_file_index m"
    using assms(3) by (auto simp: set_file_indexes)
  then have "m \<in> set (all_messages p)" by (simp add: all_messages_def opt_messages_def assms(2))
  moreover have flow: "messages_flow prep p" using assms(1) by (simp add: exact_book_def book_def)
  ultimately have "m \<in> set (queued_messages (ip_queued p))"
    using flow_mset by (metis mset_subset_eqD set_mset_mset)
  then have "0 < cnt i (queued_messages (ip_queued p))" using cnt_pos m(2) by blast
  then have "chunks_of_file i (ip_queued p) \<noteq> []" by (auto simp: cnt_queued)
  then show ?thesis using flow by (simp add: messages_flow_def)
qed

lemma live_joined_ok:
  assumes lv: "live prep {} p" and b: "ip_inflight p = Some b"
    and flow: "same_flow (p\<lparr>ip_inflight := None, ip_joined := ip_joined p @ [(b, Inr rs)]\<rparr>) q" and vit: "vitals q = vitals p"
  shows "live prep (set (file_indexes b)) (fold accept_message (ib_messages b) q)"
proof -
  let ?p1 = "p\<lparr>ip_inflight := None, ip_joined := ip_joined p @ [(b, Inr rs)]\<rparr>"
  let ?r = "fold accept_message (ib_messages b) q"
  note flow' = same_flow_trans [OF flow accept_flow [of q "ib_messages b"]]
  have lists: "mset (all_messages ?r) = mset (all_messages p)" "failed_joined ?r = failed_joined p" "quiet ?r = quiet p"
    "ip_queued ?r = ip_queued p" "ip_results ?r = ip_results p"
    using same_flow_lists [OF flow'] flow' b
    by (simp_all add: all_messages_def opt_messages_def failed_joined_def quiet_def same_flow_def)
  have untouched: "i \<notin> set (file_indexes b) \<Longrightarrow> cnt i (ib_messages b) = 0" for i
    by (auto simp: set_file_indexes cnt_def filter_empty_conv)
  show ?thesis
    using lv untouched unfolding live_vitals lists accept_vitals vit by (fastforce split: prod.splits)
qed

lemma live_joined_failed:
  assumes lv: "live prep {} p" and b: "ip_inflight p = Some b"
    and flow: "same_flow (p\<lparr>ip_inflight := None, ip_joined := ip_joined p @ [(b, Inl e)]\<rparr>) q" and vit: "vitals q = vitals p"
  shows "live prep (set (file_indexes b)) (fold (fail_file ser source err) (file_indexes b) q)"
proof -
  let ?r = "fold (fail_file ser source err) (file_indexes b) q"
  have ff: "same_flow q ?r" "\<And>j. vitals ?r j = (if j \<in> set (file_indexes b) then map_option (marked err) (vitals p j) else vitals p j)"
    using fails_flow [of q ser source err "file_indexes b"] vit by simp_all
  note flow' = same_flow_trans [OF flow ff(1)]
  have lists: "mset (all_messages ?r) = mset (all_messages p)" "failed_joined ?r = failed_joined p @ ib_messages b" "quiet ?r = quiet p"
    "ip_queued ?r = ip_queued p" "ip_results ?r = ip_results p"
    using same_flow_lists [OF flow'] flow' b
    by (simp_all add: all_messages_def opt_messages_def failed_joined_def quiet_def same_flow_def)
  have untouched: "i \<notin> set (file_indexes b) \<Longrightarrow> cnt i (ib_messages b) = 0" for i
    by (auto simp: set_file_indexes cnt_def filter_empty_conv)
  show ?thesis
    unfolding live_vitals lists
  proof (intro conjI allI impI)
    show "quiet p" "mset (all_messages p) = mset (queued_messages (ip_queued p))" using lv by (simp_all add: live_def)
  next
    fix i f d c n assume v: "vitals ?r i = Some (f, d, c, n)"
    then obtain f0 where v0: "vitals p i = Some (f0, d, c, n)" and f: "f0 \<noteq> None \<Longrightarrow> f = f0" "i \<in> set (file_indexes b) \<Longrightarrow> f \<noteq> None"
        "i \<notin> set (file_indexes b) \<Longrightarrow> f = f0"
      by (auto simp: ff(2) marked_def split: if_splits option.splits)
    have p: "(0 < cnt i (failed_joined p) \<longrightarrow> f0 \<noteq> None) \<and>
        (d \<longrightarrow> i < length (ip_results p) \<longrightarrow> ip_results p ! i \<noteq> None) \<and> \<not> (\<not> d \<and> (f0 \<noteq> None \<or> c \<and> n = 0)) \<and>
        (c \<longrightarrow> f0 = None \<longrightarrow> chunks_of_file i (ip_queued p) = pf_chunks (prep i))"
      using lv v0 unfolding live_vitals by blast
    show "f \<noteq> None" if "0 < cnt i (failed_joined p @ ib_messages b)"
    proof (cases "i \<in> set (file_indexes b)")
      case True
      then show ?thesis by (rule f(2))
    next
      case False
      then have "f0 \<noteq> None" using that p untouched [OF False] by simp
      then show ?thesis using f(1) by simp
    qed
    show "ip_results p ! i \<noteq> None" if "d" "i < length (ip_results p)" using p that by blast
    show "\<not> (\<not> d \<and> (f \<noteq> None \<or> c \<and> n = 0))" if "i \<notin> set (file_indexes b)" using p f(3) that by blast
    show "chunks_of_file i (ip_queued p) = pf_chunks (prep i)" if "c" "f = None" using p f(1) that by (cases f0) auto
  qed
qed

text \<open>What an outcome comes to.\<close>

lemma apply_outcome_forms:
  "\<exists>q. same_flow (p\<lparr>ip_joined := ip_joined p @ [(b, Inl e)]\<rparr>) q \<and> vitals q = vitals p \<and>
     apply_outcome ser b ms (Inl e) p =
       then_do (finish_files ser (file_indexes b)
           (fold (fail_file ser (ib_source b) (describe_batch_error q b e)) (file_indexes b) q)) (\<lambda>p _. (p, Inr False))"
  "\<exists>q (x :: string + unit). same_flow (p\<lparr>ip_joined := ip_joined p @ [(b, Inr rs)]\<rparr>) q \<and> vitals q = vitals p \<and>
     apply_outcome ser b ms (Inr rs) p =
       then_do (q, x) (\<lambda>q _. then_do (finish_files ser (file_indexes b) (fold accept_message (ib_messages b) q)) (\<lambda>p _. (p, Inr True)))"
proof -
  define joined where "joined = (\<lambda>r. p\<lparr>ip_joined := ip_joined p @ [(b, r)],
      ip_accounting := (ip_accounting p)\<lparr>ac_attempted := sat_add (ac_attempted (ip_accounting p)) (length (ib_messages b))\<rparr>\<rparr>)"
  define charged where "charged = (\<lambda>r. charge_request_time (file_indexes b) ms (joined r))"
  have flow: "same_flow (p\<lparr>ip_joined := ip_joined p @ [(b, r)]\<rparr>) ((charged r)\<lparr>ip_accounting := a\<rparr>)"
      "vitals ((charged r)\<lparr>ip_accounting := a\<rparr>) = vitals p" for r a
    using charge_flow [of "joined r" "file_indexes b" ms]
    by (simp_all add: charged_def same_flow_def joined_def vitals_def fun_eq_iff)
  show "\<exists>q. same_flow (p\<lparr>ip_joined := ip_joined p @ [(b, Inl e)]\<rparr>) q \<and> vitals q = vitals p \<and>
     apply_outcome ser b ms (Inl e) p =
       then_do (finish_files ser (file_indexes b)
           (fold (fail_file ser (ib_source b) (describe_batch_error q b e)) (file_indexes b) q)) (\<lambda>p _. (p, Inr False))"
    unfolding apply_outcome_def Let_def sum.case then_do_simps
    by (intro exI conjI, rule flow(1) [unfolded charged_def joined_def], rule flow(2) [unfolded charged_def joined_def], rule refl)
  let ?q = "(charged (Inr rs))\<lparr>ip_accounting := (ip_accounting (charged (Inr rs)))\<lparr>ac_inserted := sat_add (ac_inserted (ip_accounting (charged (Inr rs)))) (rs_messages_appended rs),
        ac_deduped := sat_add (ac_deduped (ip_accounting (charged (Inr rs)))) (rs_messages_deduped rs)\<rparr>\<rparr>"
  obtain q x where w: "with_journal (\<lambda>flt j. message_batch_ok ser flt j (ib_source b) (map bm_journal (ib_messages b))) ?q = (q, x)"
    by (rule prod.exhaust)
  have "same_flow (p\<lparr>ip_joined := ip_joined p @ [(b, Inr rs)]\<rparr>) q" "vitals q = vitals p"
    using same_flow_journal [OF w] same_flow_trans [OF flow(1), where r = q] flow(2) [where r = "Inr rs"] by auto
  moreover have "apply_outcome ser b ms (Inr rs) p =
      then_do (q, x) (\<lambda>q _. then_do (finish_files ser (file_indexes b) (fold accept_message (ib_messages b) q)) (\<lambda>p _. (p, Inr True)))"
    unfolding apply_outcome_def Let_def sum.case w [unfolded charged_def joined_def] by (cases x) simp_all
  ultimately show "\<exists>q (x :: string + unit). same_flow (p\<lparr>ip_joined := ip_joined p @ [(b, Inr rs)]\<rparr>) q \<and> vitals q = vitals p \<and>
     apply_outcome ser b ms (Inr rs) p =
       then_do (q, x) (\<lambda>q _. then_do (finish_files ser (file_indexes b) (fold accept_message (ib_messages b) q)) (\<lambda>p _. (p, Inr True)))"
    by blast
qed

lemma live_then_do:
  "live.safe prep m \<Longrightarrow> (\<And>s x. m = (s, Inr x) \<Longrightarrow> live prep {} s \<Longrightarrow> live.safe prep (f s x)) \<Longrightarrow> live.safe prep (then_do m f)"
  by (rule live.safe_then_do)

lemma join_inflight_live:
  assumes inv: "exact_book prep label files0 p" and lv: "live prep {} p" and len: "length (ip_results p) = length (ip_trackers p)"
  shows "live.safe prep (join_inflight ser p)"
proof (cases "ip_inflight p")
  case None
  then show ?thesis using lv by (simp add: join_inflight_def live.safe_return)
next
  case (Some b)
  obtain p' ans where n: "next_answer (p\<lparr>ip_inflight := None\<rparr>) = (p', ans)" by (rule prod.exhaust)
  define rest where "rest = tl (ip_answers p)"
  let ?p = "p\<lparr>ip_answers := rest\<rparr>"
  have p': "p' = ?p\<lparr>ip_inflight := None\<rparr>" using next_answer_is [OF n] by (simp add: rest_def)
  have inv': "exact_book prep label files0 ?p" using inv by (simp add: exact_book_world)
  have lv': "live prep {} ?p"
    using lv by (simp add: live_def quiet_def all_messages_def failed_joined_def)
  have some: "ip_inflight ?p = Some b" using Some by simp
  have vit: "vitals p' = vitals ?p" by (simp add: p' vitals_def fun_eq_iff)
  have joined: "p'\<lparr>ip_joined := ip_joined p' @ [(b, r)]\<rparr> = ?p\<lparr>ip_inflight := None, ip_joined := ip_joined ?p @ [(b, r)]\<rparr>" for r
    by (simp add: p')
  have small: "i < length (ip_results p)" if "i \<in> set (file_indexes b)" for i
    using flow_indexes [OF inv' some that] len tracker_at_some by fastforce
  have results: "same_flow (p'\<lparr>ip_joined := j\<rparr>) q \<Longrightarrow> length (ip_results q) = length (ip_results p)" for j q
    by (simp add: same_flow_def p')
  show ?thesis
  proof (cases ans)
    case Panicked
    then show ?thesis by (simp add: join_inflight_def Some n live.safe_error)
  next
    case (Answered ms r)
    have "live.safe prep (apply_outcome ser b ms r p')"
    proof (cases r)
      case (Inl e)
      obtain q where q: "same_flow (p'\<lparr>ip_joined := ip_joined p' @ [(b, Inl e)]\<rparr>) q" "vitals q = vitals p'"
        and out: "apply_outcome ser b ms (Inl e) p' = then_do (finish_files ser (file_indexes b)
           (fold (fail_file ser (ib_source b) (describe_batch_error q b e)) (file_indexes b) q)) (\<lambda>p _. (p, Inr False))"
        using apply_outcome_forms(1) by blast
      let ?u = "fold (fail_file ser (ib_source b) (describe_batch_error q b e)) (file_indexes b) q"
      have "live prep (set (file_indexes b)) ?u"
        using q by (intro live_joined_failed [OF lv' some]) (simp_all add: joined vit)
      moreover have "length (ip_results ?u) = length (ip_results p)"
        using results [OF same_flow_trans [OF q(1)]] fails_flow by blast
      ultimately show ?thesis
        unfolding Inl out using small by (intro live_then_do finish_files_live live.safe_return) simp_all
    next
      case (Inr rs)
      obtain q and x :: "string + unit" where q: "same_flow (p'\<lparr>ip_joined := ip_joined p' @ [(b, Inr rs)]\<rparr>) q" "vitals q = vitals p'"
        and out: "apply_outcome ser b ms (Inr rs) p' = then_do (q, x) (\<lambda>q _. then_do
          (finish_files ser (file_indexes b) (fold accept_message (ib_messages b) q)) (\<lambda>p _. (p, Inr True)))"
        using apply_outcome_forms(2) by blast
      let ?u = "fold accept_message (ib_messages b) q"
      have "live prep (set (file_indexes b)) ?u"
        using q by (intro live_joined_ok [OF lv' some]) (simp_all add: joined vit)
      moreover have "length (ip_results ?u) = length (ip_results p)"
        using results [OF same_flow_trans [OF q(1) accept_flow]] .
      ultimately have "live.safe prep (then_do (finish_files ser (file_indexes b) ?u) (\<lambda>p _. (p, Inr True)))"
        using small by (intro live_then_do finish_files_live live.safe_return) simp_all
      then show ?thesis unfolding Inr out by (cases x) (simp_all add: live.safe_error)
    qed
    then show ?thesis by (simp add: join_inflight_def Some n Answered)
  qed
qed

section \<open>Nothing in flight\<close>

interpretation idle: stepwise "\<lambda>p. ip_inflight p = None" "\<lambda>_. True"
  by unfold_locales simp

lemma finish_file_idle: "ip_inflight p = None \<Longrightarrow> idle.safe (finish_file_if_settled ser i p)"
proof (cases "\<exists>t. tracker_at p i = Some t \<and> is_settled t")
  case False
  then show "ip_inflight p = None \<Longrightarrow> idle.safe (finish_file_if_settled ser i p)"
    by (auto simp: finish_file_if_settled_def idle.safe_return split: option.split)
next
  assume idle: "ip_inflight p = None"
  case True
  then obtain t where t: "tracker_at p i = Some t" "is_settled t" by blast
  obtain q r where w: "with_journal (\<lambda>flt j. file_ok ser flt j (ft_source t) (ft_name t)) (set_tracker i (t\<lparr>ft_done := True\<rparr>) p) = (q, r)"
    by (rule prod.exhaust)
  have "ip_inflight q = None" using same_flow_journal [OF w] idle by (simp add: same_flow_def)
  then show ?thesis
    using idle by (cases r; cases "ft_failed t") (simp_all add: finish_file_if_settled_def Let_def t w idle.safe_return idle.safe_error)
qed

lemma finish_files_idle: "ip_inflight p = None \<Longrightarrow> idle.safe (finish_files ser is p)"
  by (induction "is" arbitrary: p) (auto intro: idle.safe_return idle.safe_then_do finish_file_idle)

lemma join_inflight_idle: "idle.safe (join_inflight ser p)"
proof (cases "ip_inflight p")
  case None
  then show ?thesis by (simp add: join_inflight_def idle.safe_return)
next
  case (Some b)
  obtain p' ans where n: "next_answer (p\<lparr>ip_inflight := None\<rparr>) = (p', ans)" by (rule prod.exhaust)
  have p': "ip_inflight p' = None" using next_answer_is [OF n] by simp
  have "idle.safe (apply_outcome ser b ms r p')" for ms r
  proof (cases r)
    case (Inl e)
    obtain q where q: "same_flow (p'\<lparr>ip_joined := ip_joined p' @ [(b, Inl e)]\<rparr>) q"
      and out: "apply_outcome ser b ms (Inl e) p' = then_do (finish_files ser (file_indexes b)
         (fold (fail_file ser (ib_source b) (describe_batch_error q b e)) (file_indexes b) q)) (\<lambda>p _. (p, Inr False))"
      using apply_outcome_forms(1) by blast
    have "ip_inflight (fold (fail_file ser (ib_source b) (describe_batch_error q b e)) (file_indexes b) q) = None"
      using q fails_flow [of q] p' by (simp add: same_flow_def)
    then show ?thesis unfolding Inl out by (intro idle.safe_then_do finish_files_idle idle.safe_return)
  next
    case (Inr rs)
    obtain q and x :: "string + unit" where q: "same_flow (p'\<lparr>ip_joined := ip_joined p' @ [(b, Inr rs)]\<rparr>) q"
      and out: "apply_outcome ser b ms (Inr rs) p' = then_do (q, x) (\<lambda>q _. then_do
        (finish_files ser (file_indexes b) (fold accept_message (ib_messages b) q)) (\<lambda>p _. (p, Inr True)))"
      using apply_outcome_forms(2) by blast
    have "ip_inflight (fold accept_message (ib_messages b) q) = None"
      using q accept_flow [of q "ib_messages b"] p' by (simp add: same_flow_def)
    then have "idle.safe (then_do (finish_files ser (file_indexes b) (fold accept_message (ib_messages b) q)) (\<lambda>p _. (p, Inr True)))"
      by (intro idle.safe_then_do finish_files_idle idle.safe_return)
    then show ?thesis unfolding Inr out by (cases x) (simp_all add: idle.safe_error)
  qed
  then show ?thesis by (cases ans) (simp_all add: join_inflight_def Some n idle.safe_error)
qed

section \<open>Flushing without a cancel\<close>

lemma quiet_polled:
  assumes "is_cancelled p = (q, c)" and "quiet p"
  shows "\<not> c" "live prep apart q = live prep apart p" "quiet q"
  using assms is_cancelled_is [OF assms(1)]
  by (auto simp: is_cancelled_def quiet_def live_def all_messages_def failed_joined_def tracker_at_def split: list.splits)

lemma flush_live:
  assumes inv: "exact_book prep label files0 p" and lv: "live prep {} p" and len: "length (ip_results p) = length (ip_trackers p)"
  shows "live.safe prep (flush ser wait p)" "flush ser wait p = (q, Inr x) \<Longrightarrow> wait \<Longrightarrow> ip_inflight q = None"
proof -
  obtain p1 r1 where j: "join_inflight ser p = (p1, r1)" by (rule prod.exhaust)
  note safe1 = join_inflight_live [OF inv lv len, of ser] join_inflight_idle [of ser p] join_inflight_safe [OF inv, of ser] frame_join [of p ser]
  have "live.safe prep (flush ser wait p) \<and> (\<forall>q x. flush ser wait p = (q, Inr x) \<longrightarrow> wait \<longrightarrow> ip_inflight q = None)"
  proof (cases r1)
    case (Inl e)
    then show ?thesis by (simp add: flush_def j live.safe_error)
  next
    case (Inr ok)
    have p1: "live prep {} p1" "ip_inflight p1 = None" "exact_book prep label files0 p1" "length (ip_results p1) = length (ip_trackers p1)"
      using safe1 len by (simp_all add: j Inr live.safe_def idle.safe_def pipe.safe_def frame.safe_def frame_def)
    show ?thesis
    proof (cases "ip_pending p1")
      case None
      then show ?thesis using p1 by (simp add: flush_def j Inr live.safe_return)
    next
      case (Some b)
      obtain p2 c where c: "is_cancelled (p1\<lparr>ip_pending := None\<rparr>) = (p2, c)" by (rule prod.exhaust)
      have quiet1: "quiet (p1\<lparr>ip_pending := None\<rparr>)" using p1(1) by (simp add: live_def quiet_def)
      define polls where "polls = tl (ip_cancel_polls p1)"
      let ?p3 = "(p1\<lparr>ip_cancel_polls := polls\<rparr>)\<lparr>ip_pending := None, ip_inflight := Some b\<rparr>"
      have p3: "p2\<lparr>ip_inflight := Some b\<rparr> = ?p3" using is_cancelled_is [OF c] by (simp add: polls_def)
      have "set polls \<subseteq> set (ip_cancel_polls p1)" by (cases "ip_cancel_polls p1") (auto simp: polls_def)
      then have l3: "live prep {} ?p3"
        using p1(1,2) Some by (auto simp: live_def quiet_def all_messages_def failed_joined_def opt_messages_def)
      have e3: "exact_book prep label files0 ?p3"
        using exact_book_take_pending(2) [of prep label files0 "p1\<lparr>ip_cancel_polls := polls\<rparr>" b] p1(3) Some by (simp add: exact_book_world)
      have len3: "length (ip_results ?p3) = length (ip_trackers ?p3)" using p1(4) by simp
      have run: "flush ser wait p = (if wait then join_inflight ser ?p3 else (?p3, Inr ok))"
        using quiet_polled(1) [OF c quiet1] p3 by (simp add: flush_def j Inr Some c Let_def)
      show ?thesis
        using join_inflight_live [OF e3 l3 len3, of ser] join_inflight_idle [of ser ?p3] l3
        by (auto simp: run live.safe_return idle.safe_def)
    qed
  qed
  then show "live.safe prep (flush ser wait p)" "flush ser wait p = (q, Inr x) \<Longrightarrow> wait \<Longrightarrow> ip_inflight q = None" by blast+
qed

lemma flush_and_continue_live:
  assumes inv: "exact_book prep label files0 p" and lv: "live prep {} p" and len: "length (ip_results p) = length (ip_trackers p)"
    and f: "flush_and_continue ser wait p = (q, Inr go)"
  shows "live prep {} q" "go" "wait \<Longrightarrow> ip_inflight q = None"
proof -
  obtain p1 r where fl: "flush ser wait p = (p1, r)" by (rule prod.exhaust)
  then obtain ok where r: "r = Inr ok" using f by (cases r) (auto simp: flush_and_continue_def)
  have p1: "live prep {} p1" using flush_live(1) [OF inv lv len, of ser wait] by (simp add: fl r live.safe_def)
  have idle: "ip_inflight p1 = None" if wait using flush_live(2) [OF inv lv len fl [unfolded r] that] .
  obtain p2 c where c: "is_cancelled p1 = (p2, c)" by (rule prod.exhaust)
  have "quiet p1" using p1(1) by (simp add: live_def)
  note polled = quiet_polled [OF c this]
  have "ip_inflight p2 = ip_inflight p1" using is_cancelled_is [OF c] by simp
  moreover have "flush_and_continue ser wait p = (if ok then (p1, Inr True) else (p2, Inr True))"
    using polled(1) by (simp add: flush_and_continue_def fl r c)
  ultimately show "live prep {} q" "go" "wait \<Longrightarrow> ip_inflight q = None"
    using f p1 idle polled by (auto split: if_splits)
qed

section \<open>Results and complete queues stay\<close>

definition steady :: "pipeline \<Rightarrow> pipeline \<Rightarrow> bool" where
  "steady p q \<longleftrightarrow> length (ip_results q) = length (ip_results p) \<and>
     (\<forall>i < length (ip_results p). ip_results p ! i \<noteq> None \<longrightarrow> ip_results q ! i \<noteq> None) \<and>
     (\<forall>i. map_option ft_queue_complete (tracker_at q i) = map_option ft_queue_complete (tracker_at p i))"

interpretation steady: stepwise "steady p" "\<lambda>_. True" for p
  by unfold_locales simp

lemma steady_refl [simp]: "steady p p"
  by (simp add: steady_def)

lemma steady_trans: "steady p q \<Longrightarrow> steady q r \<Longrightarrow> steady p r"
  by (auto simp: steady_def)

lemma steady_extend: "steady.safe q m \<Longrightarrow> steady p q \<Longrightarrow> steady.safe p m"
  unfolding steady.safe_def using steady_trans by blast

lemma complete_vitals: "map_option ft_queue_complete (tracker_at p i) = map_option (\<lambda>(f, d, c, n). c) (vitals p i)"
  by (simp add: vitals_def vital_def option.map_comp comp_def)

lemma same_flow_steady:
  "same_flow p q \<Longrightarrow> (\<And>i. map_option (\<lambda>(f, d, c, n). c) (vitals q i) = map_option (\<lambda>(f, d, c, n). c) (vitals p i)) \<Longrightarrow> steady p q"
  by (simp add: steady_def same_flow_def complete_vitals)

lemma steady_journal: "with_journal f p = (q, r) \<Longrightarrow> steady p q"
  using same_flow_journal [of f p q r] by (auto intro: same_flow_steady)

lemma steady_result: "steady p (set_result i r p)"
proof -
  have "(ip_results p)[i := Some r] ! j \<noteq> None" if "ip_results p ! j \<noteq> None" "j < length (ip_results p)" for j
    using that by (cases "i = j") auto
  then show ?thesis by (simp add: steady_def)
qed

lemma steady_done: "tracker_at p i = Some t \<Longrightarrow> steady p (set_tracker i (t\<lparr>ft_done := True\<rparr>) p)"
  by (auto simp: steady_def tracker_at_some)

lemma steady_finish_file: "steady.safe p (finish_file_if_settled ser i p)"
proof (cases "\<exists>t. tracker_at p i = Some t \<and> is_settled t")
  case False
  then show ?thesis by (auto simp: finish_file_if_settled_def steady.safe_return split: option.split)
next
  case True
  then obtain t where t: "tracker_at p i = Some t" "is_settled t" by blast
  let ?q = "set_tracker i (t\<lparr>ft_done := True\<rparr>) p"
  obtain q r where w: "with_journal (\<lambda>flt j. file_ok ser flt j (ft_source t) (ft_name t)) ?q = (q, r)" by (rule prod.exhaust)
  note q = steady_trans [OF steady_done [OF t(1)] steady_journal [OF w]]
  show ?thesis
  proof (cases "ft_failed t")
    case None
    then show ?thesis
      using steady_trans [OF q steady_result]
      by (cases r) (simp_all add: finish_file_if_settled_def Let_def t w steady.safe_return steady.safe_error)
  next
    case (Some e)
    then show ?thesis
      using steady_trans [OF steady_done [OF t(1)] steady_result]
      by (simp add: finish_file_if_settled_def Let_def t steady.safe_return)
  qed
qed

lemma steady_finish_files: "steady.safe p (finish_files ser is p)"
proof (induction "is" arbitrary: p)
  case (Cons i "is")
  show ?case
    by (simp, rule steady.safe_then_do [OF steady_finish_file], erule steady_extend [OF Cons])
qed (simp add: steady.safe_return)

lemma steady_apply_outcome: "steady.safe p (apply_outcome ser b ms r p)"
proof (cases r)
  case (Inl e)
  obtain q where q: "same_flow (p\<lparr>ip_joined := ip_joined p @ [(b, Inl e)]\<rparr>) q" "vitals q = vitals p"
    and out: "apply_outcome ser b ms (Inl e) p = then_do (finish_files ser (file_indexes b)
       (fold (fail_file ser (ib_source b) (describe_batch_error q b e)) (file_indexes b) q)) (\<lambda>p _. (p, Inr False))"
    using apply_outcome_forms(1) by blast
  let ?u = "fold (fail_file ser (ib_source b) (describe_batch_error q b e)) (file_indexes b) q"
  have "steady p q" using q by (simp add: steady_def same_flow_def complete_vitals)
  moreover have "map_option (\<lambda>(f, d, c, n). c) (map_option (marked err) v) = map_option (\<lambda>(f, d, c, n). c) v" for err v
    by (cases v) (auto simp: marked_def split: option.split)
  then have "steady q ?u" using fails_flow [of q] by (intro same_flow_steady) simp_all
  ultimately have "steady p ?u" by (rule steady_trans)
  then show ?thesis
    unfolding Inl out by (intro steady.safe_then_do [OF steady_extend [OF steady_finish_files]] steady.safe_return)
next
  case (Inr rs)
  obtain q and x :: "string + unit" where q: "same_flow (p\<lparr>ip_joined := ip_joined p @ [(b, Inr rs)]\<rparr>) q" "vitals q = vitals p"
    and out: "apply_outcome ser b ms (Inr rs) p = then_do (q, x) (\<lambda>q _. then_do
      (finish_files ser (file_indexes b) (fold accept_message (ib_messages b) q)) (\<lambda>p _. (p, Inr True)))"
    using apply_outcome_forms(2) by blast
  let ?u = "fold accept_message (ib_messages b) q"
  have "steady p q" using q by (simp add: steady_def same_flow_def complete_vitals)
  moreover have "map_option (\<lambda>(f, d, c, n). c) (map_option (\<lambda>(f, d, c, n). (f, d, c, n - k)) v) = map_option (\<lambda>(f, d, c, n). c) v"
    for k v by (cases v) auto
  then have "steady q ?u" using accept_flow by (intro same_flow_steady) (simp_all add: accept_vitals)
  ultimately have "steady p ?u" by (rule steady_trans)
  then have "steady.safe p (then_do (finish_files ser (file_indexes b) ?u) (\<lambda>p _. (p, Inr True)))"
    by (intro steady.safe_then_do [OF steady_extend [OF steady_finish_files]] steady.safe_return)
  then show ?thesis unfolding Inr out by (cases x) (simp_all add: steady.safe_error)
qed

lemma steady_world:
  "steady p (p\<lparr>ip_inflight := f\<rparr>)" "steady p (p\<lparr>ip_pending := f\<rparr>)" "steady p (p\<lparr>ip_cancel_polls := c\<rparr>)" "steady p (p\<lparr>ip_answers := a\<rparr>)"
  by (simp_all add: steady_def)

lemma steady_join: "steady.safe p (join_inflight ser p)"
proof (cases "ip_inflight p")
  case None
  then show ?thesis by (simp add: join_inflight_def steady.safe_return)
next
  case (Some b)
  obtain p' ans where n: "next_answer (p\<lparr>ip_inflight := None\<rparr>) = (p', ans)" by (rule prod.exhaust)
  have "steady p p'" using next_answer_is [OF n] by (simp add: steady_def)
  then show ?thesis
    by (cases ans) (auto simp: join_inflight_def Some n steady.safe_error intro: steady_extend [OF steady_apply_outcome])
qed

lemma steady_polled: "is_cancelled p = (q, c) \<Longrightarrow> steady p q"
  using is_cancelled_is steady_world(3) by metis

lemma steady_flush: "steady.safe p (flush ser wait p)"
  unfolding flush_def
proof (rule steady.safe_then_do [OF steady_join])
  fix q ok assume q: "steady p q"
  show "steady.safe p (case ip_pending q of None \<Rightarrow> (q, Inr ok)
       | Some b \<Rightarrow> (let (p, cancelled) = is_cancelled (q\<lparr>ip_pending := None\<rparr>)
            in if cancelled then (p, Inr False)
               else (let p = p\<lparr>ip_inflight := Some b\<rparr> in if wait then join_inflight ser p else (p, Inr ok))))"
  proof (cases "ip_pending q")
    case None
    then show ?thesis using q by (simp add: steady.safe_return)
  next
    case (Some b)
    obtain q' c where c: "is_cancelled (q\<lparr>ip_pending := None\<rparr>) = (q', c)" by (rule prod.exhaust)
    have q': "steady p q'" by (rule steady_trans [OF q steady_trans [OF steady_world(2) steady_polled [OF c]]])
    have "steady p (q'\<lparr>ip_inflight := Some b\<rparr>)" by (rule steady_trans [OF q' steady_world(1)])
    then show ?thesis
      using q' steady_extend [OF steady_join] by (simp add: Some c Let_def steady.safe_return)
  qed
qed

lemma steady_flush_and_continue: "steady.safe p (flush_and_continue ser wait p)"
  unfolding flush_and_continue_def
  by (rule steady.safe_then_do [OF steady_flush])
    (auto split: prod.split intro!: steady.safe_return intro: steady_trans steady_polled)

section \<open>A conversation without a cancel\<close>

text \<open>While the chunks of conversation \<open>i\<close> are queued.\<close>

definition live_for :: "(nat \<Rightarrow> prepared_file) \<Rightarrow> pipeline \<Rightarrow> nat \<Rightarrow> pipeline \<Rightarrow> bool" where
  "live_for prep p0 i p \<longleftrightarrow> live prep {} p \<and> steady p0 p \<and> map_option ft_queue_complete (tracker_at p0 i) = Some False"

lemma live_for_tracker: "live_for prep p0 i p \<Longrightarrow> \<exists>t. tracker_at p i = Some t \<and> \<not> ft_queue_complete t"
  unfolding live_for_def steady_def by (metis (no_types, lifting) map_option_eq_Some)

lemma live_for_flush:
  assumes lf: "live_for prep p0 i p" and ready: "ready_for prep label files0 n bs S i k p" and f: "flush_for_file ser i p = (q, Inr x)"
  shows "live_for prep p0 i q" "x = Continue \<or> x = FileFailed \<and> (\<exists>t. tracker_at q i = Some t \<and> ft_failed t \<noteq> None)"
proof -
  obtain p1 r where fl: "flush_and_continue ser False p = (p1, r)" by (rule prod.exhaust)
  then obtain go where r: "r = Inr go" using f by (cases r) (auto simp: flush_for_file_def)
  have len: "length (ip_results p) = length (ip_trackers p)" "exact_book prep label files0 p" using ready by (simp_all add: ready_for_def)
  note fc = flush_and_continue_live [OF len(2) _ len(1) fl [unfolded r]]
  have p1: "live prep {} p1" "go" using fc lf by (simp_all add: live_for_def)
  have "steady p p1" using steady_flush_and_continue [of p ser False] by (simp add: fl r steady.safe_def)
  then have st: "steady p0 p1" "map_option ft_queue_complete (tracker_at p0 i) = Some False"
    using lf steady_trans [of p0 p p1] by (simp_all add: live_for_def)
  have q: "q = p1" "x = (if (case tracker_at p1 i of None \<Rightarrow> False | Some t \<Rightarrow> ft_failed t \<noteq> None) then FileFailed else Continue)"
    using f p1(2) by (auto simp: flush_for_file_def fl r split: if_splits)
  show "live_for prep p0 i q" using p1 st by (simp add: live_for_def q(1))
  show "x = Continue \<or> x = FileFailed \<and> (\<exists>t. tracker_at q i = Some t \<and> ft_failed t \<noteq> None)"
    by (auto simp: q split: option.splits)
qed

lemma chunk_added_live:
  assumes lf: "live_for prep p0 i p"
  shows "live_for prep p0 i (chunk_added i c p)"
proof -
  let ?q = "chunk_added i c p"
  obtain t where t: "tracker_at p i = Some t" "\<not> ft_queue_complete t" using live_for_tracker [OF lf] by blast
  have all: "all_messages ?q = all_messages p @ tagged i (ic_messages c)"
    by (auto simp: all_messages_def opt_messages_def chunk_added_def Let_def batch_new_def split: option.split)
  have parts: "tracker_at ?q = tracker_at p" "failed_joined ?q = failed_joined p" "ip_results ?q = ip_results p" "quiet ?q = quiet p"
    "ip_queued ?q = ip_queued p @ [(i, c)]"
    by (simp_all add: chunk_added_def Let_def fun_eq_iff failed_joined_def quiet_def tracker_at_def)
  have "mset (all_messages ?q) = mset (queued_messages (ip_queued ?q))"
    using lf by (simp add: all parts queued_snoc live_for_def live_def)
  then have "live prep {} ?q"
    using lf t unfolding live_for_def live_def parts chunks_of_file_snoc by auto
  then show ?thesis using lf by (simp add: live_for_def steady_def parts)
qed

lemma queue_chunk_live:
  assumes lf: "live_for prep p0 i p" and ready: "ready_for prep label files0 n bs S i k p" and k: "k < length (pf_chunks (prep i))"
    and c: "c = pf_chunks (prep i) ! k" and nonempty: "ic_messages c \<noteq> []" and run: "queue_chunk ser i c p = (q, Inr x)"
  shows "live_for prep p0 i q \<and> (x = Continue \<or> x = FileFailed \<and> (\<exists>t. tracker_at q i = Some t \<and> ft_failed t \<noteq> None))"
proof -
  let ?first = "case ip_pending p of None \<Rightarrow> False | Some b \<Rightarrow> would_overflow b c (ip_batch_size p) MAX_IMPORT_BODY_BYTES"
  have added: "live_for prep p0 i q \<and> (x = Continue \<or> x = FileFailed \<and> (\<exists>t. tracker_at q i = Some t \<and> ft_failed t \<noteq> None))"
    if "live_for prep p0 i u" "ready_for prep label files0 n bs S i k u"
      "\<forall>b. ip_pending u = Some b \<longrightarrow> \<not> would_overflow b c (ip_batch_size u) MAX_IMPORT_BODY_BYTES"
      "add_chunk ser i c u = (q, Inr x)" for u
  proof -
    note next_ready = chunk_added_ready [OF that(2) k c nonempty that(3)]
    note next_live = chunk_added_live [OF that(1), of c]
    show ?thesis
      using that(4) live_for_flush [OF next_live next_ready, of ser q x] next_live by (auto simp: add_chunk_is split: if_splits)
  qed
  show ?thesis
  proof (cases ?first)
    case False
    then have "add_chunk ser i c p = (q, Inr x)" using run by (simp add: queue_chunk_def)
    then show ?thesis using added [OF lf ready] False by (auto split: option.splits)
  next
    case True
    obtain u r where f: "flush_for_file ser i p = (u, r)" by (rule prod.exhaust)
    then obtain step where r: "r = Inr step" using run True by (cases r) (auto simp: queue_chunk_def)
    note lf' = live_for_flush [OF lf ready f [unfolded r]]
    note fk = flush_for_file_kept [OF ready, of ser, unfolded f r kept_def, simplified]
    show ?thesis
    proof (cases "step = Continue")
      case True
      then have "add_chunk ser i c u = (q, Inr x)" using run \<open>?first\<close> by (simp add: queue_chunk_def f r)
      then show ?thesis using added [OF lf'(1)] fk by simp
    next
      case False
      then have "q = u" "x = step" using run \<open>?first\<close> by (simp_all add: queue_chunk_def f r)
      then show ?thesis using lf' by simp
    qed
  qed
qed

lemma queue_chunks_live:
  assumes "live_for prep p0 i p" and "ready_for prep label files0 n bs S i k p" and "rest = drop k (pf_chunks (prep i))"
    and "\<forall>c \<in> set rest. ic_messages c \<noteq> []" and "queue_chunks ser i rest p = (q, Inr x)"
  shows "x \<and> live_for prep p0 i q \<and>
    (chunks_of_file i (ip_queued q) = pf_chunks (prep i) \<or> (\<exists>t. tracker_at q i = Some t \<and> ft_failed t \<noteq> None))"
  using assms
proof (induction rest arbitrary: k p)
  case Nil
  then show ?case by (auto simp: ready_for_def)
next
  case (Cons c rest)
  have k: "k < length (pf_chunks (prep i))" "c = pf_chunks (prep i) ! k" "rest = drop (Suc k) (pf_chunks (prep i))"
    using Cons.prems(3) by (metis drop_all leI list.distinct(1), metis nth_via_drop, metis drop_Suc list.sel(3) tl_drop)
  obtain u r where f: "queue_chunk ser i c p = (u, r)" by (rule prod.exhaust)
  then obtain step where r: "r = Inr step" using Cons.prems(5) by (cases r) auto
  have nonempty: "ic_messages c \<noteq> []" using Cons.prems(4) by simp
  note step = queue_chunk_live [OF Cons.prems(1,2) k(1,2) nonempty f [unfolded r]]
  have "\<exists>m. ready_for prep label files0 n bs S i m u \<and> (step = Continue \<longrightarrow> m = Suc k)"
    using queue_chunk_kept [OF Cons.prems(2) k(1,2) nonempty, of ser] by (simp add: f r kept_def)
  then show ?case
    using step Cons.IH [OF _ _ k(3)] Cons.prems(4,5) by (cases step) (auto simp: f r)
qed

end
