(* ===== verification/PushRunProps.thy ===== *)
theory PushRunProps
  imports PushRunDrive
begin

text \<open>
  What a push promises: whatever the server, the disk and the cancel flag do, a run ends when no
  worker panics (\<open>run_returns\<close>), calls a conversation ok only when the server accepted all of it
  (\<open>ok_means_accepted\<close>), keeps its requests within the limits (\<open>requests_of_run\<close>) and adds up
  (\<open>report_adds_up\<close>).
\<close>

section \<open>The end of a run\<close>

lemma is_cancelled_frame: "is_cancelled p = (q, c) \<Longrightarrow> frame p q"
  using is_cancelled_is frame_parts(6) by metis

lemma settle_kept:
  assumes "between prep label files0 n bs S i p" and "settle ser aborted p = (q, r)"
  shows "book prep label files0 q" "frame p q"
proof -
  obtain p1 c where c: "(if aborted then (p, True) else is_cancelled p) = (p1, c)" by (rule prod.exhaust)
  have p1: "between prep label files0 n bs S i p1" "frame p p1"
    using c assms(1) polled_between [OF assms(1)] is_cancelled_frame frame_refl by (auto split: if_splits)
  obtain p2 r2 where f: "flush_and_continue ser True p1 = (p2, r2)" by (rule prod.exhaust)
  note flushed = flush_between [OF p1(1) f]
  have joined: "book prep label files0 (fst (join_inflight ser p'))" "frame p' (fst (join_inflight ser p'))"
    if "exact_book prep label files0 p'" for p'
    using join_inflight_safe [OF that, of ser] frame_join [of p' ser] by (simp_all add: pipe.safe_weak frame.safe_weak)
  have "exact_book prep label files0 p1" using p1 by (simp add: between_def)
  moreover have "r2 = Inr x \<Longrightarrow> exact_book prep label files0 p2" for x using flushed(3) by (simp add: between_def)
  ultimately show "book prep label files0 q" "frame p q"
    using assms(2) joined frame_trans [OF p1(2)] frame_trans [OF frame_trans [OF p1(2) flushed(2)]] flushed(1,2)
    by (auto simp: settle_def c f Let_def then_do_def exact_book_def split: if_splits sum.splits)
qed

lemma record_cancelled_results:
  assumes "length (ip_results p) = length names"
  shows "length (ip_results (record_cancelled names p)) = length names"
    "\<And>i. i < length names \<Longrightarrow> \<exists>r. ip_results (record_cancelled names p) ! i = Some r \<and>
       (ip_results p ! i = Some r \<or> ip_results p ! i = None \<and> fr_status r = ''cancelled'')"
  by (auto simp: record_cancelled_def result_cancelled_def split: option.split)

lemma map_filter_all: "list_all (\<lambda>x. x \<noteq> None) xs \<Longrightarrow> List.map_filter id xs = map the xs"
  by (induction xs) (auto simp: List.map_filter_simps)

lemma reported_results:
  assumes "length (ip_results p) = length names" and "into_results (record_cancelled names p) = (results, acc)"
  shows "length results = length names" "acc = ip_accounting p"
    "\<And>i. i < length names \<Longrightarrow> ip_results p ! i = Some (results ! i) \<or> ip_results p ! i = None \<and> fr_status (results ! i) = ''cancelled''"
proof -
  note r = record_cancelled_results [OF assms(1)]
  have "list_all (\<lambda>x. x \<noteq> None) (ip_results (record_cancelled names p))"
    using r by (auto simp: list_all_length)
  then have results: "results = map the (ip_results (record_cancelled names p))"
    using assms(2) by (simp add: into_results_def map_filter_all)
  then show "length results = length names" using r(1) by simp
  show "acc = ip_accounting p" using assms(2) by (simp add: into_results_def record_cancelled_def)
  show "ip_results p ! i = Some (results ! i) \<or> ip_results p ! i = None \<and> fr_status (results ! i) = ''cancelled''"
    if "i < length names" for i
    using r(2) [OF that] r(1) that by (auto simp: results)
qed

lemma compact_run_state: "rj_state (fst (compact_run ser parse flt run)) = rj_state run"
  by (simp add: compact_run_def split: prod.splits)

lemma start_between:
  "between prep label (js_files (rj_state journal)) n batch_size S 0 (pipeline_new journal batch_size n polls answers faults)"
  by (simp add: between_def exact_book_def book_def pipeline_new_def messages_flow_def trackers_true_def results_true_def
      batches_true_def totals_true_def counts_exact_def tracker_at_def all_messages_def opt_messages_def queued_messages_def
      chunks_of_file_def accepted_def failed_joined_def all_batches_def done_files_def)

text \<open>The state a run starts in, and the state its loop leaves when no worker has panicked.\<close>

definition drive_start :: "nat \<Rightarrow> nat \<Rightarrow> worker_event list \<Rightarrow> pipeline \<Rightarrow> drive_state" where
  "drive_start ahead workers finishing p =
     \<lparr>ds_pipeline = p, ds_queue = queue_start (min (max 1 workers) (max 1 ahead)) (max 1 ahead) finishing,
      ds_assets = \<lparr>at_uploaded = 0, at_skipped = 0, at_bytes = 0\<rparr>, ds_next_submit = 0, ds_next_consume = 0\<rparr>"

lemma drive_Some:
  assumes "drive ser prepare append_mode force names ahead workers finishing fuel p = Some ((q, assets), r)"
  shows "\<exists>s. drive_loop ser prepare append_mode force names fuel (drive_start ahead workers finishing p) = Some (s, r) \<and>
    \<not> pq_panicked (ds_queue s) \<and> ds_pipeline s = q"
  using assms by (auto simp: drive_def drive_start_def Let_def worker_panics_def split: option.splits if_splits)

lemma run_files_drive:
  assumes "run_files ser parse cf prepare append_mode force names batch_size ahead workers finishing fuel journal polls answers faults =
      Some (p, Inr (report, aborted))"
  shows "\<exists>s assets ab. drive ser prepare append_mode force names ahead workers finishing fuel
        (pipeline_new journal (max 1 batch_size) (length names) polls answers faults) = Some ((ds_pipeline s, assets), Inr ab) \<and>
      drive_loop ser prepare append_mode force names fuel
        (drive_start ahead workers finishing (pipeline_new journal (max 1 batch_size) (length names) polls answers faults)) = Some (s, Inr ab) \<and>
      \<not> pq_panicked (ds_queue s)"
proof -
  obtain q assets r where d: "drive ser prepare append_mode force names ahead workers finishing fuel
      (pipeline_new journal (max 1 batch_size) (length names) polls answers faults) = Some ((q, assets), r)"
    using assms by (auto simp: run_files_def)
  then obtain ab where "r = Inr ab" using assms by (cases r) (auto simp: run_files_def)
  then show ?thesis using d drive_Some [OF d] by blast
qed

lemma drive_start_inv:
  "drive_inv (max 1 batch_size) prepare (js_files (rj_state journal)) names
     (drive_start ahead workers finishing (pipeline_new journal (max 1 batch_size) (length names) polls answers faults))"
proof -
  have "0 < min (max 1 workers) (max 1 ahead)" by (simp add: less_max_iff_disj)
  from queue_ok_start [OF this, of prepare names ahead finishing] show ?thesis
    by (simp add: drive_inv_def start_between drive_start_def)
qed

lemma drive_start_left: "2 * length names < fuel \<Longrightarrow> left_to_do names (drive_start ahead workers finishing p) < fuel"
  by (simp add: left_to_do_def drive_start_def queue_start_def)

text \<open>What a finished run leaves: the books of the last state of its pipeline.\<close>

lemma run_files_ends:
  assumes run: "run_files ser parse cf prepare append_mode force names batch_size ahead workers finishing fuel journal polls answers faults =
      Some (p, Inr (report, aborted))" and well: "prepared_well prepare"
  shows "\<exists>q. book (prep_of prepare) ((!) names) (js_files (rj_state journal)) q \<and>
    sorted (map fst (ip_queued q)) \<and> length (ip_results q) = length names \<and> ip_batch_size q = max 1 batch_size \<and>
    (\<forall>i. tracker_at q i \<noteq> None \<longrightarrow> i \<in> readable prepare) \<and>
    into_results (record_cancelled names q) = (rp_results report, rp_messages report) \<and>
    rp_counts report = count_file_results (rp_results report) \<and>
    ip_joined p = ip_joined q \<and> ip_queued p = ip_queued q \<and> rj_state (ip_journal p) = rj_state (ip_journal q)"
proof -
  let ?prep = "prep_of prepare" and ?files0 = "js_files (rj_state journal)" and ?n = "length names" and ?bs = "max 1 batch_size"
  obtain s1 assets ab1 where d: "drive ser prepare append_mode force names ahead workers finishing fuel
        (pipeline_new journal ?bs ?n polls answers faults) = Some ((ds_pipeline s1, assets), Inr ab1)"
    and loop: "drive_loop ser prepare append_mode force names fuel
        (drive_start ahead workers finishing (pipeline_new journal ?bs ?n polls answers faults)) = Some (s1, Inr ab1)"
    and quiet: "\<not> pq_panicked (ds_queue s1)"
    using run_files_drive [OF run] by blast
  have "drive_kept ?bs prepare ?files0 names (\<lambda>s' aborted. \<not> aborted \<longrightarrow>
      drive_inv ?bs prepare ?files0 names s' \<and> ds_next_consume s' = ?n) (s1, Inr ab1)"
    by (rule drive_loop_kept [OF drive_start_inv well loop quiet])
  then obtain i where btw: "between ?prep ((!) names) ?files0 ?n ?bs (readable prepare) i (ds_pipeline s1)"
    by (auto simp: drive_kept_def)
  obtain q r where settled: "settle ser ab1 (ds_pipeline s1) = (q, r)" by (rule prod.exhaust)
  note q = settle_kept [OF btw settled]
  obtain ab where r: "r = Inr ab"
    using run unfolding run_files_def d by (cases r) (auto simp: settled)
  obtain u c where u: "is_cancelled (record_cancelled names q) = (u, c)" by (rule prod.exhaust)
  have u_parts: "ip_joined u = ip_joined q" "ip_queued u = ip_queued q" "ip_journal u = ip_journal q"
      "into_results u = into_results (record_cancelled names q)"
    using is_cancelled_is [OF u] by (simp_all add: record_cancelled_def into_results_def)
  show ?thesis
  proof (intro exI [of _ q] conjI)
    show "book ?prep ((!) names) ?files0 q" by (rule q(1))
    show "sorted (map fst (ip_queued q))" "length (ip_results q) = ?n" "ip_batch_size q = ?bs"
      "\<forall>i. tracker_at q i \<noteq> None \<longrightarrow> i \<in> readable prepare"
      using btw q(2) by (auto simp: between_def frame_def)
    obtain results accounting where into: "into_results u = (results, accounting)" by (rule prod.exhaust)
    show "into_results (record_cancelled names q) = (rp_results report, rp_messages report)"
      "rp_counts report = count_file_results (rp_results report)"
      "ip_joined p = ip_joined q" "ip_queued p = ip_queued q" "rj_state (ip_journal p) = rj_state (ip_journal q)"
      using run into u_parts unfolding run_files_def d
      by (auto simp: settled r u Let_def compact_run_state split: if_splits)
  qed
qed


section \<open>The contract of a run\<close>

text \<open>The requests the server accepted hold, one after the other, exactly the messages that were
  prepared for a conversation, in their order.\<close>

definition sent_whole :: "(nat \<Rightarrow> string + prepared_file) \<Rightarrow> pipeline \<Rightarrow> nat \<Rightarrow> bool" where
  "sent_whole prepare p i \<longleftrightarrow>
     (\<exists>x. prepare i = Inr x \<and>
        filter (\<lambda>m. bm_file_index m = i) (accepted p) = concat (map (tagged i \<circ> ic_messages) (pf_chunks x)))"

lemma accepted_sub: "subseq (accepted p) (all_messages p)"
proof -
  have "subseq (concat (map f (filter P xs))) (concat (map f xs))"
    for f :: "import_batch \<times> (batch_error + import_response) \<Rightarrow> batch_message list" and P xs
    by (induction xs) (auto intro: list_emb_append_mono subseq_drop_many)
  then have "subseq (accepted p) (concat (map (ib_messages \<circ> fst) (ip_joined p)))" by (simp add: accepted_def)
  then show ?thesis by (auto simp: all_messages_def intro: subseq_rev_drop_many)
qed

lemma done_ok_sent_whole:
  assumes book: "book (prep_of prepare) label files0 p" and ok: "done_ok p i" and "tracker_at p i \<noteq> None \<longrightarrow> i \<in> readable prepare"
  shows "sent_whole prepare p i"
proof -
  obtain x where x: "prepare i = Inr x" using assms(2,3) by (auto simp: done_ok_def readable_def)
  then have prep: "prep_of prepare i = x" by (simp add: prep_of_def)
  have flow: "subseq (all_messages p) (queued_messages (ip_queued p))"
    using book by (simp add: book_def messages_flow_def)
  obtain k where k: "chunks_of_file i (ip_queued p) = List.take k (pf_chunks x)"
    using book prep unfolding book_def messages_flow_def by metis
  let ?mine = "filter (\<lambda>m. bm_file_index m = i)"
  let ?all = "concat (map (tagged i \<circ> ic_messages) (pf_chunks x))"
  have "subseq (?mine (accepted p)) (?mine (queued_messages (ip_queued p)))"
    by (intro subseq_filter subseq_order.trans [OF accepted_sub flow])
  moreover have "subseq (?mine (queued_messages (ip_queued p))) ?all"
    unfolding filter_queued k
    by (metis append_take_drop_id concat_append map_append subseq_rev_drop_many subseq_order.order_refl)
  ultimately have sub: "subseq (?mine (accepted p)) ?all" by (rule subseq_order.trans)
  have "message_count x \<le> cnt i (accepted p)"
    using book ok unfolding book_def trackers_true_def done_ok_def prep [symmetric] by blast
  moreover have "length ?all = message_count x"
    by (simp add: message_count_def length_concat comp_def tagged_def)
  ultimately have "length ?all \<le> length (?mine (accepted p))" by (simp add: cnt_def)
  then have "?mine (accepted p) = ?all"
    using sub list_emb_length [OF sub] by (metis le_antisym subseq_same_length)
  then show ?thesis using x by (auto simp: sent_whole_def)
qed

text \<open>C2: What a report and a journal promise. However the server answers, the journal's appends
  fail, the workers finish and the cancel flag is set: a conversation the report calls ok was
  prepared, and the requests the server accepted hold, one after the other, exactly the messages
  prepared for it, in their order. The same holds of every conversation whose name this run added to the journal's finished
  files, which the next push skips unread. The report has one row for each conversation.\<close>

theorem ok_means_accepted:
  assumes "run_files ser parse cf prepare append_mode force names batch_size ahead workers finishing fuel journal polls answers faults =
      Some (p, Inr (report, aborted))" and "prepared_well prepare"
  shows "length (rp_results report) = length names \<and>
    (\<forall>i < length names. fr_status (rp_results report ! i) = ''ok'' \<longrightarrow> sent_whole prepare p i) \<and>
    js_files (rj_state (ip_journal p)) \<subseteq> js_files (rj_state journal) \<union> {names ! i | i. sent_whole prepare p i}"
proof -
  from run_files_ends [OF assms] obtain q where book: "book (prep_of prepare) ((!) names) (js_files (rj_state journal)) q"
    and len: "length (ip_results q) = length names" and readable: "\<forall>i. tracker_at q i \<noteq> None \<longrightarrow> i \<in> readable prepare"
    and into: "into_results (record_cancelled names q) = (rp_results report, rp_messages report)"
    and joined: "ip_joined p = ip_joined q" and state: "rj_state (ip_journal p) = rj_state (ip_journal q)" by blast
  have "accepted p = accepted q" by (simp add: accepted_def joined)
  then have whole: "done_ok q i \<Longrightarrow> sent_whole prepare p i" for i
    using done_ok_sent_whole [OF book, of i] readable by (simp add: sent_whole_def)
  note results = reported_results [OF len into]
  have true: "results_true (js_files (rj_state journal)) ((!) names) q" using book by (simp add: book_def)
  have "fr_status (rp_results report ! i) = ''ok'' \<Longrightarrow> sent_whole prepare p i" if "i < length names" for i
    using results(3) [OF that] true that len whole by (auto simp: results_true_def row_ok_def)
  moreover have "js_files (rj_state (ip_journal p)) \<subseteq> js_files (rj_state journal) \<union> {names ! i | i. sent_whole prepare p i}"
    using true whole unfolding results_true_def done_files_def state by blast
  ultimately show ?thesis using results(1) by blast
qed

text \<open>C19: The requests of a run. Every request holds chunks of prepared conversations of one source;
  a request of more than one chunk keeps to the batch size and to the body limit. Chunks are queued
  in the order of the files and, within a file, from its first chunk on without a gap.\<close>

theorem requests_of_run:
  assumes "run_files ser parse cf prepare append_mode force names batch_size ahead workers finishing fuel journal polls answers faults =
      Some (p, Inr (report, aborted))" and "prepared_well prepare"
  shows "list_all (\<lambda>(b, _). batch_ok (prep_of prepare) (max 1 batch_size) b) (ip_joined p) \<and>
    sorted (map fst (ip_queued p)) \<and>
    (\<forall>i. \<exists>k. chunks_of_file i (ip_queued p) = List.take k (pf_chunks (prep_of prepare i)))"
proof -
  from run_files_ends [OF assms] obtain q where book: "book (prep_of prepare) ((!) names) (js_files (rj_state journal)) q"
    and rest: "sorted (map fst (ip_queued q))" "ip_batch_size q = max 1 batch_size" "ip_joined p = ip_joined q" "ip_queued p = ip_queued q"
    by blast
  have "list_all (\<lambda>b. batch_ok (prep_of prepare) (max 1 batch_size) b \<and> ib_messages b \<noteq> []) (map fst (ip_joined q))"
    using book rest(2) by (simp add: book_def batches_true_def all_batches_def)
  then show ?thesis
    using book rest by (auto simp: list_all_iff book_def messages_flow_def)
qed

lemma count_file_results_is:
  "count_file_results results =
     \<lparr>fc_ok = length (filter (\<lambda>r. fr_status r = ''ok'') results), fc_failed = length (filter (\<lambda>r. fr_status r = ''failed'') results),
      fc_skipped = length (filter (\<lambda>r. fr_status r = ''skipped'') results),
      fc_cancelled = length (filter (\<lambda>r. fr_status r = ''cancelled'') results)\<rparr>"
proof -
  have "fold (\<lambda>r c. if fr_status r = ''ok'' then c\<lparr>fc_ok := fc_ok c + 1\<rparr>
                 else if fr_status r = ''failed'' then c\<lparr>fc_failed := fc_failed c + 1\<rparr>
                 else if fr_status r = ''skipped'' then c\<lparr>fc_skipped := fc_skipped c + 1\<rparr>
                 else if fr_status r = ''cancelled'' then c\<lparr>fc_cancelled := fc_cancelled c + 1\<rparr>
                 else c) results c =
      \<lparr>fc_ok = fc_ok c + length (filter (\<lambda>r. fr_status r = ''ok'') results), fc_failed = fc_failed c + length (filter (\<lambda>r. fr_status r = ''failed'') results),
       fc_skipped = fc_skipped c + length (filter (\<lambda>r. fr_status r = ''skipped'') results),
       fc_cancelled = fc_cancelled c + length (filter (\<lambda>r. fr_status r = ''cancelled'') results)\<rparr>" for c
    by (induction results arbitrary: c) auto
  then show ?thesis by (simp add: count_file_results_def)
qed

lemma count_file_results_sum:
  assumes "list_all (\<lambda>r. fr_status r \<in> {''ok'', ''failed'', ''skipped'', ''cancelled''}) results"
  shows "fc_ok (count_file_results results) + fc_failed (count_file_results results) +
    fc_skipped (count_file_results results) + fc_cancelled (count_file_results results) = length results"
  using assms unfolding count_file_results_is by (induction results) auto

text \<open>C20: The totals of a report. Messages attempted are the messages of the requests the server
  accepted and of those it refused, messages failed those of the refused ones, messages inserted and
  deduplicated the sums of what the accepted requests' answers say, each up to the largest \<open>u64\<close>. The
  four counts of conversations are the numbers of the rows that say ok, failed, skipped and
  cancelled, together one for each conversation, and every row that does not say cancelled is for
  its own conversation.\<close>

theorem report_adds_up:
  assumes "run_files ser parse cf prepare append_mode force names batch_size ahead workers finishing fuel journal polls answers faults =
      Some (p, Inr (report, aborted))" and "prepared_well prepare"
  shows "ac_attempted (rp_messages report) = min (length (accepted p) + length (failed_joined p)) (2 ^ 64 - 1) \<and>
    ac_failed (rp_messages report) = min (length (failed_joined p)) (2 ^ 64 - 1) \<and>
    ac_inserted (rp_messages report) = min (sum_list (map rs_messages_appended (answers_of (ip_joined p)))) (2 ^ 64 - 1) \<and>
    ac_deduped (rp_messages report) = min (sum_list (map rs_messages_deduped (answers_of (ip_joined p)))) (2 ^ 64 - 1) \<and>
    (\<forall>i < length names. fr_status (rp_results report ! i) \<noteq> ''cancelled'' \<longrightarrow> fr_file (rp_results report ! i) = names ! i) \<and>
    (let rows = (\<lambda>status. length (filter (\<lambda>r. fr_status r = status) (rp_results report))); counts = rp_counts report
     in fc_ok counts = rows ''ok'' \<and> fc_failed counts = rows ''failed'' \<and> fc_skipped counts = rows ''skipped'' \<and>
        fc_cancelled counts = rows ''cancelled'' \<and>
        fc_ok counts + fc_failed counts + fc_skipped counts + fc_cancelled counts = length names)"
proof -
  from run_files_ends [OF assms] obtain q where book: "book (prep_of prepare) ((!) names) (js_files (rj_state journal)) q"
    and len: "length (ip_results q) = length names"
    and into: "into_results (record_cancelled names q) = (rp_results report, rp_messages report)"
    and counts: "rp_counts report = count_file_results (rp_results report)" and joined: "ip_joined p = ip_joined q" by blast
  note results = reported_results [OF len into]
  have lists: "accepted p = accepted q" "failed_joined p = failed_joined q" by (simp_all add: accepted_def failed_joined_def joined)
  have totals: "totals_true q" using book by (simp add: book_def)
  have row: "row_ok ((!) names) q i (rp_results report ! i) \<or> fr_status (rp_results report ! i) = ''cancelled''"
    if "i < length names" for i
    using results(3) [OF that] book that len by (auto simp: book_def results_true_def)
  then have "list_all (\<lambda>r. fr_status r \<in> {''ok'', ''failed'', ''skipped'', ''cancelled''}) (rp_results report)"
    using results(1) by (auto simp: list_all_length row_ok_def)
  note sum = count_file_results_sum [OF this]
  have files: "\<forall>i < length names. fr_status (rp_results report ! i) \<noteq> ''cancelled'' \<longrightarrow> fr_file (rp_results report ! i) = names ! i"
    using row by (auto simp: row_ok_def)
  show ?thesis
    using totals files sum unfolding totals_true_def lists joined results(1,2) counts Let_def
    by (simp only: count_file_results_is file_result_counts.simps simp_thms)
qed

text \<open>C38: A run ends. When no prepare worker panics, the loop never waits for a worker that has
  nothing to do, and with a fuel of twice the number of files and one the run gives a result,
  whatever the server, the journal and the cancel flag do.\<close>

theorem run_returns:
  assumes "prepared_well prepare" and "2 * length names < fuel" and "list_all (\<lambda>e. \<not> is_panic e) finishing"
  shows "\<exists>p r. run_files ser parse cf prepare append_mode force names batch_size ahead workers finishing fuel journal polls answers faults = Some (p, r)"
proof -
  let ?p = "pipeline_new journal (max 1 batch_size) (length names) polls answers faults"
  have "no_panics (ds_queue (drive_start ahead workers finishing ?p))"
    using assms(3) by (simp add: no_panics_def drive_start_def queue_start_def)
  then obtain s r where "drive_loop ser prepare append_mode force names fuel (drive_start ahead workers finishing ?p) = Some (s, r)"
    and quiet: "\<not> pq_panicked (ds_queue s)" "no_panics (ds_queue s)"
    using drive_loop_total [OF drive_start_inv assms(1) drive_start_left [OF assms(2)]] by blast
  moreover have "\<not> worker_panics (ds_queue s)"
    using quiet by (auto simp: worker_panics_def no_panics_def list_ex_iff list_all_iff dest: in_set_takeD)
  ultimately show ?thesis by (simp add: run_files_def drive_def drive_start_def Let_def)
qed

text \<open>With a worker that panics while another lives, the same run never comes to an end.\<close>

lemma panicking_worker_hangs:
  "\<not> has_file journal ''a'' \<Longrightarrow>
   drive_turn ser prepare True False [''a''] (drive_start 2 2 [Panics 0] (pipeline_new journal 1 1 [] [] [])) = None"
  by (simp add: drive_start_def queue_start_def drive_turn_def is_cancelled_def pipeline_new_def submit_files.simps Let_def
     submit_file_def already_imported_def submit_def has_capacity_def is_ready_def is_idle_def pending_is_worth_overlapping_def
     lost_job_never_arrives)

section \<open>A run of two conversations, the second refused\<close>

definition sample_chunk :: import_chunk where
  "sample_chunk = \<lparr>ic_body = [104, 10, 109, 10], ic_messages = [\<lparr>jm_file = ''a'', jm_guid = ''g''\<rparr>], ic_file_lines = [1, 2]\<rparr>"

definition sample_prepare :: "nat \<Rightarrow> string + prepared_file" where
  "sample_prepare i = Inr \<lparr>pf_source = ''sms'', pf_chunks = [sample_chunk], pf_attachments = 0,
     pf_assets = \<lparr>at_uploaded = 0, at_skipped = 0, at_bytes = 0\<rparr>\<rparr>"

definition empty_journal :: run_journal_state where
  "empty_journal = \<lparr>rj_state = empty_state, rj_file = Absent, rj_url = ''u'', rj_username = ''a''\<rparr>"

lemma drive_loop_numeral:
  "drive_loop ser prepare append_mode force names (numeral v) s =
     (if ds_next_consume s < length names then
        (case drive_turn ser prepare append_mode force names s of
           None \<Rightarrow> None
         | Some (s, Inl e) \<Rightarrow> Some (s, Inl e)
         | Some (s, Inr (Some aborted)) \<Rightarrow> Some (s, Inr aborted)
         | Some (s, Inr None) \<Rightarrow> drive_loop ser prepare append_mode force names (pred_numeral v) s)
      else Some (s, Inr False))"
  by (simp only: numeral_eq_Suc drive_loop.simps)

lemma sample_push_run:
  "\<exists>p report. run_files (\<lambda>_. [123]) (\<lambda>_. None) Works sample_prepare True False [''a'', ''b''] 1 2 2 [Finishes 1] 5
     empty_journal [] [Answered 7 (Inr \<lparr>rs_messages_appended = 1, rs_messages_deduped = 0\<rparr>)] [] = Some (p, Inr (report, False)) \<and>
     map fr_status (rp_results report) = [''ok'', ''failed'']"
  by (simp add: run_files_def drive_def drive_loop_numeral drive_turn_def is_cancelled_def pipeline_new_def submit_files.simps
     submit_file_def already_imported_def has_file_def empty_journal_def empty_state_def submit_def has_capacity_def queue_start_def
     is_ready_def wait_one_def await.simps deliver_def drop_job_def job_at_def worker_panics_def worker_result_def sample_prepare_def sample_chunk_def consume_result_def take_ready_def
     import_prepared_def pending_source_differs_def start_file_def set_tracker_def queue_chunk_def add_chunk_def tracker_at_def
     file_tracker_new_def batch_new_def batch_push_def tagged_def is_full_def flush_for_file_def flush_and_continue_def flush_def join_inflight_def
     finish_queueing_def finish_file_if_settled_def update_tracker_def is_settled_def message_count_def
     would_overflow_def pending_is_worth_overlapping_def is_idle_def next_answer_def apply_outcome_def
     file_indexes_def charge_request_time_def sat_add_def with_journal_def message_batch_ok_def append_to_run_def append_def
     accept_message_def set_result_def file_ok_def describe_batch_error_def batch_origin_def fail_file_def note_failure_def
     record_failure_def settle_def record_cancelled_def into_results_def count_file_results_is compact_run_def MAX_IMPORT_BODY_BYTES_def
     List.map_filter_simps add_messages_def Let_def ends_in_a_torn_row_def row_bytes_def)

lemma sample_prepare_well: "prepared_well sample_prepare"
  by (simp add: prepared_well_def sample_prepare_def sample_chunk_def)

lemma ok_means_accepted_witness:
  "\<exists>p report. run_files (\<lambda>_. [123]) (\<lambda>_. None) Works sample_prepare True False [''a'', ''b''] 1 2 2 [Finishes 1] 5
     empty_journal [] [Answered 7 (Inr \<lparr>rs_messages_appended = 1, rs_messages_deduped = 0\<rparr>)] [] = Some (p, Inr (report, False)) \<and>
     map fr_status (rp_results report) = [''ok'', ''failed''] \<and> sent_whole sample_prepare p 0 \<and>
     js_files (rj_state (ip_journal p)) \<subseteq> {[''a'', ''b''] ! i | i. sent_whole sample_prepare p i}"
proof -
  from sample_push_run obtain p report where run: "run_files (\<lambda>_. [123]) (\<lambda>_. None) Works sample_prepare True False [''a'', ''b''] 1 2 2 [Finishes 1] 5
     empty_journal [] [Answered 7 (Inr \<lparr>rs_messages_appended = 1, rs_messages_deduped = 0\<rparr>)] [] = Some (p, Inr (report, False))"
    and rows: "map fr_status (rp_results report) = [''ok'', ''failed'']"
    by (elim exE conjE)
  have "fr_status (rp_results report ! 0) = ''ok''" using rows by (cases "rp_results report") auto
  then show ?thesis
    using ok_means_accepted [OF run sample_prepare_well] run rows by (auto simp: empty_journal_def)
qed

lemma requests_of_run_witness:
  "\<exists>p report. run_files (\<lambda>_. [123]) (\<lambda>_. None) Works sample_prepare True False [''a'', ''b''] 1 2 2 [Finishes 1] 5
     empty_journal [] [Answered 7 (Inr \<lparr>rs_messages_appended = 1, rs_messages_deduped = 0\<rparr>)] [] = Some (p, Inr (report, False)) \<and>
     list_all (\<lambda>(b, _). batch_ok (prep_of sample_prepare) 1 b) (ip_joined p) \<and> sorted (map fst (ip_queued p))"
proof -
  from sample_push_run obtain p report where run: "run_files (\<lambda>_. [123]) (\<lambda>_. None) Works sample_prepare True False [''a'', ''b''] 1 2 2 [Finishes 1] 5
     empty_journal [] [Answered 7 (Inr \<lparr>rs_messages_appended = 1, rs_messages_deduped = 0\<rparr>)] [] = Some (p, Inr (report, False))"
    by (elim exE conjE)
  then show ?thesis using requests_of_run [OF run sample_prepare_well] by auto
qed

lemma report_adds_up_witness:
  "\<exists>p report. run_files (\<lambda>_. [123]) (\<lambda>_. None) Works sample_prepare True False [''a'', ''b''] 1 2 2 [Finishes 1] 5
     empty_journal [] [Answered 7 (Inr \<lparr>rs_messages_appended = 1, rs_messages_deduped = 0\<rparr>)] [] = Some (p, Inr (report, False)) \<and>
     fc_ok (rp_counts report) + fc_failed (rp_counts report) + fc_skipped (rp_counts report) + fc_cancelled (rp_counts report) = 2"
proof -
  from sample_push_run obtain p report where run: "run_files (\<lambda>_. [123]) (\<lambda>_. None) Works sample_prepare True False [''a'', ''b''] 1 2 2 [Finishes 1] 5
     empty_journal [] [Answered 7 (Inr \<lparr>rs_messages_appended = 1, rs_messages_deduped = 0\<rparr>)] [] = Some (p, Inr (report, False))"
    by (elim exE conjE)
  then show ?thesis using report_adds_up [OF run sample_prepare_well] by (auto simp: Let_def)
qed

lemma run_returns_witness:
  "\<exists>p r. run_files (\<lambda>_. [123]) (\<lambda>_. None) Works sample_prepare True False [''a'', ''b''] 1 2 2 [Finishes 1, Finishes 0] 5
     empty_journal [False, True] [Panicked] [CannotOpen ''full''] = Some (p, r)"
  by (rule run_returns [OF sample_prepare_well]) simp_all

section \<open>The buffer of early results has no bound\<close>

fun turns :: "(nat \<Rightarrow> string + prepared_file) \<Rightarrow> string list \<Rightarrow> nat \<Rightarrow> drive_state \<Rightarrow> drive_state option" where
  "turns prepare names 0 s = Some s"
| "turns prepare names (Suc n) s =
     (case drive_turn (\<lambda>_. []) prepare True False names s of Some (s, Inr None) \<Rightarrow> turns prepare names n s | _ \<Rightarrow> None)"

text \<open>While the first file is read, the others pass through the workers and wait in memory, more of
  them than the capacity of the queue.\<close>

lemma ready_outgrows_capacity:
  "\<exists>s. turns sample_prepare (map (\<lambda>c. [c]) ''abcdef'') 4
     \<lparr>ds_pipeline = pipeline_new empty_journal 1 6 [] [] [], ds_queue = queue_start 2 2 [Finishes 1, Finishes 1, Finishes 1, Finishes 1],
      ds_assets = \<lparr>at_uploaded = 0, at_skipped = 0, at_bytes = 0\<rparr>, ds_next_submit = 0, ds_next_consume = 0\<rparr> = Some s \<and>
     pq_capacity (ds_queue s) = 2 \<and> dom (pq_ready (ds_queue s)) = {4, 3, 2, 1} \<and> ds_next_consume s = 0"
  by (simp add: numeral_eq_Suc drive_turn_def is_cancelled_def pipeline_new_def submit_files.simps Let_def
     submit_file_def already_imported_def has_file_def empty_journal_def empty_state_def submit_def has_capacity_def queue_start_def
     is_ready_def wait_one_def await.simps deliver_def drop_job_def job_at_def worker_panics_def worker_result_def take_ready_def pending_is_worth_overlapping_def is_idle_def)

end
