(* ===== verification/PushRunFinal.thy ===== *)
theory PushRunFinal
  imports PushRunLive PushRunProps
begin

text \<open>
  The loop of a run that nobody cancels: every conversation gets a result of its own
  (\<open>uncancelled_run_finishes\<close>).
\<close>

section \<open>One conversation\<close>

definition grows_to :: "nat \<Rightarrow> pipeline \<Rightarrow> pipeline \<Rightarrow> bool" where
  "grows_to i p q \<longleftrightarrow> length (ip_results q) = length (ip_results p) \<and>
     (\<forall>j < length (ip_results p). ip_results p ! j \<noteq> None \<longrightarrow> ip_results q ! j \<noteq> None) \<and>
     (\<forall>j. j \<noteq> i \<longrightarrow> map_option ft_queue_complete (tracker_at q j) = map_option ft_queue_complete (tracker_at p j))"

lemma grows_to_refl: "grows_to i p p"
  by (simp add: grows_to_def)

lemma grows_to_trans: "grows_to i p q \<Longrightarrow> grows_to i q r \<Longrightarrow> grows_to i p r"
  by (simp add: grows_to_def)

lemma steady_grows: "steady p q \<Longrightarrow> grows_to i p q"
  by (simp add: steady_def grows_to_def)

lemma start_file_live:
  assumes inv: "between prep label files0 n bs S i p" and lv: "live prep {} p" and "i < n"
  shows "live prep {} (start_file i name (prep i) p)" "grows_to i p (start_file i name (prep i) p)"
    "map_option ft_queue_complete (tracker_at (start_file i name (prep i) p) i) = Some False"
proof -
  let ?q = "start_file i name (prep i) p"
  have none: "tracker_at p i = None" "i < length (ip_trackers p)" using assms by (simp_all add: between_def)
  have tracker: "tracker_at ?q j = (if i = j then Some (file_tracker_new name (prep i)) else tracker_at p j)" for j
    using none by (simp add: start_file_def)
  have parts: "failed_joined ?q = failed_joined p" "all_messages ?q = all_messages p" "ip_queued ?q = ip_queued p" "ip_results ?q = ip_results p"
    "quiet ?q = quiet p"
    by (simp_all add: start_file_def failed_joined_def all_messages_def quiet_def set_tracker_def)
  have "chunks_of_file i (ip_queued p) = []"
    using inv none by (auto simp: between_def exact_book_def book_def messages_flow_def)
  then have "cnt i (queued_messages (ip_queued p)) = 0" by (simp add: cnt_queued)
  moreover have "cnt i (all_messages p) = cnt i (queued_messages (ip_queued p))"
    using lv by (intro antisym cnt_mset_mono) (simp_all add: live_def)
  moreover have "cnt i (failed_joined p) \<le> cnt i (all_messages p)"
  proof -
    have "cnt i (concat (map f (filter P xs))) \<le> cnt i (concat (map f xs))" for f :: "import_batch \<times> (batch_error + import_response) \<Rightarrow> batch_message list" and P xs
      by (induction xs) auto
    then have "cnt i (failed_joined p) \<le> cnt i (concat (map (ib_messages \<circ> fst) (ip_joined p)))" by (simp add: failed_joined_def)
    then show ?thesis by (simp add: all_messages_def)
  qed
  ultimately have "cnt i (failed_joined p) = 0" by simp
  then show "live prep {} ?q"
    using lv unfolding live_def parts tracker by (auto simp: file_tracker_new_def is_settled_def)
  show "grows_to i p ?q" "map_option ft_queue_complete (tracker_at ?q i) = Some False"
    by (simp_all add: grows_to_def parts tracker file_tracker_new_def)
qed

lemma finish_queueing_live:
  assumes lv: "live prep {} p" and i: "i < length (ip_results p)" and t: "tracker_at p i = Some t"
    and whole: "chunks_of_file i (ip_queued p) = pf_chunks (prep i) \<or> ft_failed t \<noteq> None"
    and f: "finish_queueing ser i p = (q, Inr x)"
  shows "live prep {} q" "grows_to i p q" "map_option ft_queue_complete (tracker_at q i) = Some True"
proof -
  let ?q = "update_tracker (\<lambda>t. t\<lparr>ft_queue_complete := True\<rparr>) i p"
  have parts: "failed_joined ?q = failed_joined p" "all_messages ?q = all_messages p" "ip_results ?q = ip_results p"
    by (simp_all add: failed_joined_def all_messages_def)
  have "quiet ?q = quiet p" using same_flow_update [of p] by (simp add: same_flow_def quiet_def)
  then have "live prep {i} ?q"
    using lv t whole unfolding live_def by (auto simp: parts)
  then have "live prep ({i} - {i}) q"
    using f i unfolding finish_queueing_def by (intro finish_file_live) (simp_all add: parts)
  then show "live prep {} q" by simp
  have "steady ?q q" using steady_finish_file [of ?q ser i] f by (simp add: finish_queueing_def steady.safe_def)
  moreover have "grows_to i p ?q" by (simp add: grows_to_def)
  ultimately show "grows_to i p q" using grows_to_trans steady_grows by blast
  show "map_option ft_queue_complete (tracker_at q i) = Some True"
    using \<open>steady ?q q\<close> t by (simp add: steady_def)
qed

lemma import_prepared_live:
  assumes inv: "between prep label files0 n bs S i p" and lv: "live prep {} p" and "i < n" and "i \<in> S"
    and nonempty: "\<forall>c \<in> set (pf_chunks (prep i)). ic_messages c \<noteq> []"
    and run: "import_prepared ser i (label i) (prep i) p = (q, Inr x)"
  shows "x \<and> live prep {} q \<and> grows_to i p q \<and> map_option ft_queue_complete (tracker_at q i) = Some True"
proof -
  obtain p1 r1 where f: "(if pending_source_differs p (pf_source (prep i)) then flush_and_continue ser False p else (p, Inr True)) = (p1, r1)"
    by (rule prod.exhaust)
  then obtain go where r1: "r1 = Inr go" using run by (cases r1) (auto simp: import_prepared_def)
  have p1: "live prep {} p1 \<and> go \<and> steady p p1 \<and> between prep label files0 n bs S i p1 \<and>
      (\<forall>b. ip_pending p1 = Some b \<longrightarrow> ib_source b = pf_source (prep i))"
  proof (cases "pending_source_differs p (pf_source (prep i))")
    case True
    then have fl: "flush_and_continue ser False p = (p1, Inr go)" using f r1 by simp
    have len: "length (ip_results p) = length (ip_trackers p)" "exact_book prep label files0 p" using inv by (simp_all add: between_def)
    have "steady p p1"
      using steady_flush_and_continue [of p ser False] unfolding fl by (rule steady.safe_strong)
    then show ?thesis
      using flush_and_continue_live [OF len(2) lv len(1) fl] flush_between [OF inv fl] flush_and_continue_frame [OF fl] by simp
  next
    case False
    then show ?thesis using f r1 lv inv by (auto simp: pending_source_differs_def split: option.splits)
  qed
  let ?p2 = "start_file i (label i) (prep i) p1"
  have p1': "between prep label files0 n bs S i p1" "live prep {} p1" using p1 by blast+
  have ready: "ready_for prep label files0 n bs S i 0 ?p2" using start_file_ready [OF p1'(1) assms(3,4)] p1 by blast
  note started = start_file_live [OF p1' assms(3), of "label i"]
  have lf: "live_for prep ?p2 i ?p2" using started by (simp add: live_for_def)
  obtain p3 r3 where qc: "queue_chunks ser i (pf_chunks (prep i)) ?p2 = (p3, r3)" by (rule prod.exhaust)
  then obtain y where r3: "r3 = Inr y" using run p1 by (cases r3) (auto simp: import_prepared_def f r1)
  have p3: "y \<and> live_for prep ?p2 i p3 \<and>
      (chunks_of_file i (ip_queued p3) = pf_chunks (prep i) \<or> (\<exists>t. tracker_at p3 i = Some t \<and> ft_failed t \<noteq> None))"
    using queue_chunks_live [OF lf ready _ nonempty qc [unfolded r3]] by simp
  then obtain t where t: "tracker_at p3 i = Some t" using live_for_tracker by blast
  obtain p4 r4 where fq: "finish_queueing ser i p3 = (p4, r4)" by (rule prod.exhaust)
  then obtain z where r4: "r4 = Inr z" using run p1 p3 by (cases r4) (auto simp: import_prepared_def f r1 qc r3)
  have q: "q = p4" "x" using run p1 p3 by (simp_all add: import_prepared_def f r1 qc r3 fq r4)
  have grown: "grows_to i p p3"
    using p1 p3 started(2) grows_to_trans steady_grows by (metis live_for_def)
  have len3: "i < length (ip_results p3)" using grown inv \<open>i < n\<close> by (simp add: grows_to_def between_def)
  have "chunks_of_file i (ip_queued p3) = pf_chunks (prep i) \<or> ft_failed t \<noteq> None" using p3 t by auto
  from finish_queueing_live [where prep = prep, OF _ len3 t this fq [unfolded r4]] p3
  have "live prep {} p4" "grows_to i p3 p4" "map_option ft_queue_complete (tracker_at p4 i) = Some True"
    by (simp_all add: live_for_def)
  then show ?thesis using q grown grows_to_trans by blast
qed

section \<open>The loop\<close>

definition drive_live :: "(nat \<Rightarrow> string + prepared_file) \<Rightarrow> drive_state \<Rightarrow> bool" where
  "drive_live prepare s \<longleftrightarrow> live (prep_of prepare) {} (ds_pipeline s) \<and>
     (\<forall>i < ds_next_consume s.
        (tracker_at (ds_pipeline s) i = None \<longrightarrow> ip_results (ds_pipeline s) ! i \<noteq> None) \<and>
        (\<forall>t. tracker_at (ds_pipeline s) i = Some t \<longrightarrow> ft_queue_complete t)) \<and>
     (\<forall>k r. pq_ready (ds_queue s) k = Some r \<longrightarrow> pr_outcome r = PrepareSkipped \<longrightarrow> ip_results (ds_pipeline s) ! k \<noteq> None)"

lemma drive_live_steady:
  assumes "drive_live prepare s" and "drive_inv bs prepare files0 names s" and "steady (ds_pipeline s) p" and "live (prep_of prepare) {} p"
  shows "drive_live prepare (s\<lparr>ds_pipeline := p\<rparr>)"
proof -
  have len: "length (ip_results (ds_pipeline s)) = length names" "ds_next_consume s \<le> length names"
    using assms(2) by (auto simp: drive_inv_def between_def queue_ok_def)
  have ready: "k < length names" if "pq_ready (ds_queue s) k = Some r" for k r
  proof -
    have "k \<in> dom (pq_ready (ds_queue s))" using that by blast
    then have "k \<in> {ds_next_consume s..<ds_next_submit s}" "ds_next_submit s \<le> length names"
      using assms(2) by (auto simp: drive_inv_def queue_ok_def)
    then show ?thesis by simp
  qed
  have qc: "map_option ft_queue_complete (tracker_at p i) = map_option ft_queue_complete (tracker_at (ds_pipeline s) i)" for i
    using assms(3) by (simp add: steady_def)
  have some: "(tracker_at p i = None) = (tracker_at (ds_pipeline s) i = None)" for i
    using qc [of i] by (metis option.map_disc_iff)
  have complete: "ft_queue_complete t" if t: "tracker_at p i = Some t" and i: "i < ds_next_consume s" for i t
  proof -
    obtain u where u: "tracker_at (ds_pipeline s) i = Some u" using some [of i] t by auto
    then have "ft_queue_complete u = ft_queue_complete t" using qc [of i] t by simp
    moreover have "ft_queue_complete u" using assms(1) i u by (simp add: drive_live_def)
    ultimately show ?thesis by simp
  qed
  have results: "ip_results p ! i \<noteq> None" if "ip_results (ds_pipeline s) ! i \<noteq> None" "i < length names" for i
    using that assms(3) len(1) by (simp add: steady_def)
  show ?thesis
    unfolding drive_live_def
  proof (intro conjI allI impI)
    show "live (prep_of prepare) {} (ds_pipeline (s\<lparr>ds_pipeline := p\<rparr>))" using assms(4) by simp
  next
    fix i assume i: "i < ds_next_consume (s\<lparr>ds_pipeline := p\<rparr>)" "tracker_at (ds_pipeline (s\<lparr>ds_pipeline := p\<rparr>)) i = None"
    then have "ip_results (ds_pipeline s) ! i \<noteq> None" using assms(1) some by (simp add: drive_live_def)
    then show "ip_results (ds_pipeline (s\<lparr>ds_pipeline := p\<rparr>)) ! i \<noteq> None" using results i(1) len(2) by simp
  next
    fix i t assume "i < ds_next_consume (s\<lparr>ds_pipeline := p\<rparr>)" "tracker_at (ds_pipeline (s\<lparr>ds_pipeline := p\<rparr>)) i = Some t"
    then show "ft_queue_complete t" using complete by simp
  next
    fix k r assume k: "pq_ready (ds_queue (s\<lparr>ds_pipeline := p\<rparr>)) k = Some r" "pr_outcome r = PrepareSkipped"
    then have "ip_results (ds_pipeline s) ! k \<noteq> None" using assms(1) by (simp add: drive_live_def)
    then show "ip_results (ds_pipeline (s\<lparr>ds_pipeline := p\<rparr>)) ! k \<noteq> None" using results ready k(1) by simp
  qed
qed

lemma submit_files_live:
  assumes "drive_live prepare s" and "drive_inv bs prepare files0 names s"
  shows "drive_live prepare (submit_files append_mode force names s)"
  using assms
proof (induction append_mode force names s rule: submit_files.induct)
  case (1 append_mode force names s)
  show ?case
  proof (cases "ds_next_submit s < length names \<and> has_capacity (ds_queue s)")
    case False
    then show ?thesis using 1(2) by (subst submit_files.simps) auto
  next
    case True
    let ?i = "ds_next_submit s"
    obtain q p where qp: "submit_file append_mode force ?i (names ! ?i) (ds_queue s) (ds_pipeline s) = (q, p)"
      by (rule prod.exhaust)
    let ?s = "s\<lparr>ds_queue := q, ds_pipeline := p, ds_next_submit := ?i + 1\<rparr>"
    have step: "submit_files append_mode force names s = submit_files append_mode force names ?s"
      using True by (subst submit_files.simps) (simp add: qp)
    have inv: "drive_inv bs prepare files0 names ?s"
      using 1(3) qp True queue_ok_submit queue_ok_skip record_skipped_between
      by (auto simp: drive_inv_def submit_file_def split: if_splits)
    have "drive_live prepare ?s"
    proof (cases "already_imported append_mode force (ds_pipeline s) (names ! ?i)")
      case False
      then show ?thesis using 1(2) qp by (auto simp: submit_file_def drive_live_def submit_def)
    next
      case skip: True
      then have qp': "q = mark_skipped ?i (names ! ?i) (ds_queue s)" "p = set_result ?i (result_skipped (names ! ?i)) (ds_pipeline s)"
        using qp by (simp_all add: submit_file_def record_skipped_def)
      have "live (prep_of prepare) {} p"
        using 1(2) unfolding qp'(2) by (intro live_set_result) (simp add: drive_live_def)
      then have "drive_live prepare (s\<lparr>ds_pipeline := p\<rparr>)"
        by (intro drive_live_steady [OF 1(2,3)]) (simp_all add: qp'(2) steady_result)
      moreover have "ip_results p ! ?i \<noteq> None"
        using True 1(3) by (simp add: qp'(2) drive_inv_def between_def)
      ultimately show ?thesis by (auto simp: drive_live_def qp'(1) mark_skipped_def)
    qed
    from 1(1) [OF True qp [symmetric] refl this inv] show ?thesis by (simp add: step)
  qed
qed

lemma consume_result_live:
  assumes inv: "between (prep_of prepare) ((!) names) files0 (length names) bs (readable prepare) i p" and r: "result_ok prepare names i r"
    and "i < length names" and well: "prepared_well prepare" and c: "consume_result ser r (p, assets) = ((q, assets'), Inr x)"
    and lv: "live (prep_of prepare) {} p" and skipped: "pr_outcome r = PrepareSkipped \<Longrightarrow> ip_results p ! i \<noteq> None"
  shows "x \<and> live (prep_of prepare) {} q \<and> grows_to i p q \<and>
    (tracker_at q i = None \<longrightarrow> ip_results q ! i \<noteq> None) \<and> (\<forall>t. tracker_at q i = Some t \<longrightarrow> ft_queue_complete t)"
proof (cases "pr_outcome r")
  case PrepareSkipped
  then have "q = p" "x" using c by (auto simp: consume_result_def)
  moreover have "tracker_at p i = None" using inv by (simp add: between_def)
  ultimately show ?thesis using lv skipped PrepareSkipped by (simp add: grows_to_refl)
next
  case (PrepareFailed e)
  let ?u = "note_failure ser [] (names ! i) ''file'' e p"
  have q: "q = set_result i (result_failed (names ! i) e) ?u" "x"
    using c r PrepareFailed by (auto simp: consume_result_def result_ok_def record_prepare_failure_def)
  obtain u y where w: "with_journal (\<lambda>flt j. (record_failure ser flt j [] (names ! i) ''file'' e, ())) p = (u, y)" by (rule prod.exhaust)
  have u: "?u = u" by (simp add: note_failure_def w)
  have "live (prep_of prepare) {} u" "steady p u" using live_journal [OF w] steady_journal [OF w] lv by simp_all
  then have "live (prep_of prepare) {} q" "steady p q"
    unfolding q(1) u using live_set_result steady_trans [OF _ steady_result] by blast+
  moreover have "tracker_at q i = None"
    using \<open>steady p q\<close> inv by (auto simp: steady_def between_def dest: spec [of _ i])
  moreover have "i < length (ip_results ?u)" using \<open>steady p u\<close> inv assms(3) by (simp add: u steady_def between_def)
  then have "ip_results q ! i \<noteq> None" by (simp add: q(1))
  ultimately show ?thesis using q(2) steady_grows by auto
next
  case (Prepared y)
  have y: "prepare i = Inr y" "pr_idx r = i" "pr_name r = names ! i" using r Prepared by (auto simp: result_ok_def)
  then have p: "prep_of prepare i = y" "i \<in> readable prepare" by (auto simp: prep_of_def readable_def)
  have nonempty: "\<forall>c \<in> set (pf_chunks (prep_of prepare i)). ic_messages c \<noteq> []" using well y p by (simp add: prepared_well_def)
  have "import_prepared ser i (names ! i) (prep_of prepare i) p = (q, Inr x)"
    using c Prepared y p by (auto simp: consume_result_def split: prod.splits)
  from import_prepared_live [OF inv lv assms(3) p(2) nonempty this] show ?thesis by auto
qed

lemma grown_trackers:
  assumes "grows_to i p q" and "j \<noteq> i"
  shows "(tracker_at q j = None) = (tracker_at p j = None)"
    "tracker_at q j = Some t \<Longrightarrow> \<exists>u. tracker_at p j = Some u \<and> ft_queue_complete u = ft_queue_complete t"
proof -
  have qc: "map_option ft_queue_complete (tracker_at q j) = map_option ft_queue_complete (tracker_at p j)"
    using assms by (simp add: grows_to_def)
  then show "(tracker_at q j = None) = (tracker_at p j = None)" by (metis option.map_disc_iff)
  show "tracker_at q j = Some t \<Longrightarrow> \<exists>u. tracker_at p j = Some u \<and> ft_queue_complete u = ft_queue_complete t"
    using qc by (cases "tracker_at p j") auto
qed

lemma consume_ready_live:
  assumes "drive_inv bs prepare files0 names s" and "drive_live prepare s" and well: "prepared_well prepare"
    and "consume_ready ser n s = (s', Inr aborted)"
  shows "\<not> aborted \<and> drive_live prepare s'"
  using assms(1,2,4)
proof (induction n arbitrary: s)
  case 0
  then show ?case by simp
next
  case (Suc n)
  let ?i = "ds_next_consume s"
  obtain q taken where t: "take_ready ?i (ds_queue s) = (q, taken)" by (rule prod.exhaust)
  show ?case
  proof (cases taken)
    case None
    then show ?thesis using Suc.prems by (simp add: t)
  next
    case (Some r)
    obtain p assets x where c: "consume_result ser r (ds_pipeline s, ds_assets s) = ((p, assets), x)" by (metis prod.exhaust)
    then obtain go where x: "x = Inr go" using Suc.prems(3) by (cases x) (auto simp: t Some Let_def)
    have inv: "between (prep_of prepare) ((!) names) files0 (length names) bs (readable prepare) ?i (ds_pipeline s)"
      and queue: "queue_ok prepare names ?i (ds_next_submit s) (ds_queue s)"
      using Suc.prems(1) by (auto simp: drive_inv_def)
    note taken_ok = queue_ok_take [OF queue t [unfolded Some]]
    have range: "?i < length names" using taken_ok(3) queue by (simp add: queue_ok_def)
    have r: "pq_ready (ds_queue s) ?i = Some r" "q = (ds_queue s)\<lparr>pq_ready := (pq_ready (ds_queue s))(?i := None)\<rparr>"
      using t Some by (auto simp: take_ready_def)
    have step: "go \<and> live (prep_of prepare) {} p \<and> grows_to ?i (ds_pipeline s) p \<and>
        (tracker_at p ?i = None \<longrightarrow> ip_results p ! ?i \<noteq> None) \<and> (\<forall>t. tracker_at p ?i = Some t \<longrightarrow> ft_queue_complete t)"
      using Suc.prems(2) r(1) by (intro consume_result_live [OF inv taken_ok(2) range well c [unfolded x]]) (auto simp: drive_live_def)
    let ?s = "s\<lparr>ds_queue := q, ds_pipeline := p, ds_assets := assets, ds_next_consume := ?i + 1\<rparr>"
    have next_inv: "drive_inv bs prepare files0 names ?s"
      using consume_result_kept [OF inv taken_ok(2) range well c] taken_ok(1) by (simp add: x kept_def drive_inv_def)
    have grown: "grows_to ?i (ds_pipeline s) p" using step by blast
    have keeps: "ip_results p ! j \<noteq> None" if "ip_results (ds_pipeline s) ! j \<noteq> None" "j < length names" for j
      using that grown inv by (simp add: grows_to_def between_def)
    have next_live: "drive_live prepare ?s"
      unfolding drive_live_def
    proof (intro conjI allI impI)
      show "live (prep_of prepare) {} (ds_pipeline ?s)" using step by simp
    next
      fix j assume j: "j < ds_next_consume ?s" "tracker_at (ds_pipeline ?s) j = None"
      show "ip_results (ds_pipeline ?s) ! j \<noteq> None"
      proof (cases "j = ?i")
        case True
        then show ?thesis using step j by simp
      next
        case False
        then have "ip_results (ds_pipeline s) ! j \<noteq> None"
          using Suc.prems(2) j grown_trackers(1) [OF grown False] by (simp add: drive_live_def)
        then show ?thesis using keeps j(1) range by simp
      qed
    next
      fix j u assume j: "j < ds_next_consume ?s" "tracker_at (ds_pipeline ?s) j = Some u"
      show "ft_queue_complete u"
      proof (cases "j = ?i")
        case True
        then show ?thesis using step j by simp
      next
        case False
        then have "j < ds_next_consume s" using j(1) by simp
        moreover obtain v where "tracker_at (ds_pipeline s) j = Some v" "ft_queue_complete v = ft_queue_complete u"
          using grown_trackers(2) [OF grown False, of u] j(2) by auto
        ultimately show ?thesis using Suc.prems(2) by (auto simp: drive_live_def)
      qed
    next
      fix k r' assume k: "pq_ready (ds_queue ?s) k = Some r'" "pr_outcome r' = PrepareSkipped"
      then have "k \<noteq> ?i" "pq_ready (ds_queue s) k = Some r'" by (auto simp: r(2) split: if_splits)
      then have "ip_results (ds_pipeline s) ! k \<noteq> None" using Suc.prems(2) k(2) by (auto simp: drive_live_def)
      moreover have "k < length names"
      proof -
        have "k \<in> dom (pq_ready (ds_queue s))" using k(2) \<open>pq_ready (ds_queue s) k = Some r'\<close> by blast
        moreover have "dom (pq_ready (ds_queue s)) \<subseteq> {ds_next_consume s..<ds_next_submit s}" "ds_next_submit s \<le> length names"
          using queue by (auto simp: queue_ok_def)
        ultimately show ?thesis by fastforce
      qed
      ultimately show "ip_results (ds_pipeline ?s) ! k \<noteq> None" using keeps by simp
    qed
    have "consume_ready ser n ?s = (s', Inr aborted)"
      using Suc.prems(3) step by (simp add: t Some c x Let_def)
    from Suc.IH [OF next_inv next_live this] show ?thesis .
  qed
qed

lemma drive_turn_live:
  assumes inv: "drive_inv bs prepare files0 names s" and lv: "drive_live prepare s" and well: "prepared_well prepare"
    and todo: "ds_next_consume s < length names"
    and turn: "drive_turn ser prepare append_mode force names s = Some (s', Inr ended)"
    and calm: "\<not> pq_panicked (ds_queue s')"
  shows "ended = None \<and> drive_live prepare s'"
proof -
  have btw: "between (prep_of prepare) ((!) names) files0 (length names) bs (readable prepare) (ds_next_consume s) (ds_pipeline s)"
    using inv by (auto simp: drive_inv_def)
  obtain p1 c where c: "is_cancelled (ds_pipeline s) = (p1, c)" by (rule prod.exhaust)
  have "quiet (ds_pipeline s)" using lv by (simp add: drive_live_def live_def)
  note polled = quiet_polled [OF c this]
  have p1: "between (prep_of prepare) ((!) names) files0 (length names) bs (readable prepare) (ds_next_consume s) p1" by (rule polled_between [OF btw c])
  have l1: "live (prep_of prepare) {} p1" using lv polled(2) by (simp add: drive_live_def)
  obtain p2 r2 where f: "(if pending_is_worth_overlapping p1 then flush_and_continue ser False p1 else (p1, Inr True)) = (p2, r2)"
    by (rule prod.exhaust)
  then obtain go where r2: "r2 = Inr go" using turn polled(1) by (cases r2) (auto simp: drive_turn_def c f Let_def)
  have p2: "go \<and> live (prep_of prepare) {} p2 \<and> steady p1 p2 \<and>
      between (prep_of prepare) ((!) names) files0 (length names) bs (readable prepare) (ds_next_consume s) p2"
  proof (cases "pending_is_worth_overlapping p1")
    case True
    then have fl: "flush_and_continue ser False p1 = (p2, Inr go)" using f r2 by simp
    have len: "length (ip_results p1) = length (ip_trackers p1)" "exact_book (prep_of prepare) ((!) names) files0 p1"
      using p1 by (simp_all add: between_def)
    have "steady p1 p2" using steady_flush_and_continue [of p1 ser False] unfolding fl by (rule steady.safe_strong)
    then show ?thesis using flush_and_continue_live [OF len(2) l1 len(1) fl] flush_between [OF p1 fl] by simp
  next
    case False
    then show ?thesis using f r2 l1 p1 by simp
  qed
  define s2 where "s2 = s\<lparr>ds_pipeline := p2\<rparr>"
  define s3 where "s3 = submit_files append_mode force names s2"
  have "steady (ds_pipeline s) p2" using steady_trans [OF steady_polled [OF c]] p2 by blast
  then have live2: "drive_live prepare s2" unfolding s2_def using p2 by (intro drive_live_steady [OF lv inv]) simp_all
  have inv2: "drive_inv bs prepare files0 names s2" using p2 inv by (simp add: s2_def drive_inv_def)
  have live3: "drive_live prepare s3" unfolding s3_def by (rule submit_files_live [OF live2 inv2])
  have inv3: "drive_inv bs prepare files0 names s3" using submit_files_inv [OF inv2] by (simp add: s3_def)
  define consume where "consume = (\<lambda>s. then_do (consume_ready ser (length names) s)
      (\<lambda>s aborted. (s, Inr (if aborted then Some True else None))))"
  have run: "drive_turn ser prepare append_mode force names s =
     (if is_ready (ds_next_consume s3) (ds_queue s3) then Some (consume s3)
      else if is_idle (ds_queue s3) \<and> length names \<le> ds_next_submit s3 then Some (s3, Inr (Some False))
      else map_option (\<lambda>(q, r). then_do (s3\<lparr>ds_queue := q\<rparr>, r) (\<lambda>s _. consume s)) (wait_one prepare (ds_queue s3)))"
    using polled(1) p2 by (simp add: drive_turn_def c f r2 s2_def s3_def consume_def Let_def)
  have consumed: "ended = None \<and> drive_live prepare s'" if done_with: "consume s4 = (s', Inr ended)" and inv4: "drive_inv bs prepare files0 names s4" and live4: "drive_live prepare s4" for s4
  proof -
    obtain s5 x where cr: "consume_ready ser (length names) s4 = (s5, x)" by (rule prod.exhaust)
    then obtain aborted where x: "x = Inr aborted" using done_with by (cases x) (auto simp: consume_def)
    show ?thesis
      using consume_ready_live [OF inv4 live4 well cr [unfolded x]] done_with by (simp add: consume_def cr x)
  qed
  have not_false: "ended \<noteq> Some False"
    using drive_turn_kept [OF inv well todo turn calm] by (simp add: drive_kept_def)
  show ?thesis
  proof (cases "is_ready (ds_next_consume s3) (ds_queue s3)")
    case True
    then show ?thesis using turn consumed [OF _ inv3 live3] by (simp add: run)
  next
    case not_ready: False
    have busy: "\<not> (is_idle (ds_queue s3) \<and> length names \<le> ds_next_submit s3)"
      using turn not_false not_ready by (auto simp: run)
    obtain q r where w: "wait_one prepare (ds_queue s3) = Some (q, r)"
      using turn not_ready busy by (auto simp: run)
    obtain u where r: "r = Inr u" using turn not_ready busy by (cases r) (auto simp: run w)
    have t: "consume (s3\<lparr>ds_queue := q\<rparr>) = (s', Inr ended)" using turn not_ready busy by (simp add: run w r)
    have "pq_panicked (ds_queue s') = pq_panicked q"
      using turn_consume_events [of "s3\<lparr>ds_queue := q\<rparr>" ser names] t
      by (simp add: turn_consume_def consume_def same_events_def)
    then have "\<not> pq_panicked q" using calm by simp
    have queue3: "queue_ok prepare names (ds_next_consume s3) (ds_next_submit s3) (ds_queue s3)" using inv3 by (simp add: drive_inv_def)
    note waited = queue_ok_wait [OF queue3 w \<open>\<not> pq_panicked q\<close>]
    let ?s4 = "s3\<lparr>ds_queue := q\<rparr>"
    have inv4: "drive_inv bs prepare files0 names ?s4" using inv3 waited(2) by (simp add: drive_inv_def)
    have arrived: "pq_ready q k = Some r' \<Longrightarrow> pr_outcome r' = PrepareSkipped \<Longrightarrow> pq_ready (ds_queue s3) k = Some r'" for k r'
      using waited(1) by (auto intro: deliver_skipped)
    have live4: "drive_live prepare ?s4" using live3 arrived unfolding drive_live_def by fastforce
    show ?thesis by (rule consumed [OF t inv4 live4])
  qed
qed

lemma drive_loop_live:
  assumes "drive_inv bs prepare files0 names s" and "drive_live prepare s" and well: "prepared_well prepare"
    and "drive_loop ser prepare append_mode force names fuel s = Some (s', Inr aborted)" and calm: "\<not> pq_panicked (ds_queue s')"
  shows "\<not> aborted \<and> drive_live prepare s'"
  using assms(1,2,4)
proof (induction fuel arbitrary: s)
  case (Suc fuel)
  show ?case
  proof (cases "ds_next_consume s < length names")
    case False
    then show ?thesis using Suc.prems by simp
  next
    case True
    obtain s1 r1 where t: "drive_turn ser prepare append_mode force names s = Some (s1, r1)"
      using Suc.prems(3) True by (auto split: option.splits)
    have quiet: "\<not> pq_panicked (ds_queue s1)"
      using Suc.prems(3) True calm drive_loop_panicked by (fastforce simp: t split: sum.splits option.splits)
    note k = drive_turn_kept [OF Suc.prems(1) well True t quiet]
    obtain ended where r1: "r1 = Inr ended" using Suc.prems(3) True by (cases r1) (simp_all add: t)
    have live1: "ended = None \<and> drive_live prepare s1"
      by (rule drive_turn_live [OF Suc.prems(1,2) well True t [unfolded r1] quiet])
    then have ended: "ended = None" and lv1: "drive_live prepare s1" by blast+
    then have inv1: "drive_inv bs prepare files0 names s1" using k r1 by (simp add: drive_kept_def)
    have "drive_loop ser prepare append_mode force names fuel s1 = Some (s', Inr aborted)"
      using Suc.prems(3) True by (simp add: t r1 ended)
    then show ?thesis by (rule Suc.IH [OF inv1 lv1])
  qed
qed simp

section \<open>The end\<close>

text \<open>When nothing is pending or in flight, a conversation all of whose chunks were queued is done.\<close>

lemma all_settled:
  assumes exact: "exact_book prep label files0 p" and lv: "live prep {} p" and idle: "ip_pending p = None" "ip_inflight p = None"
    and t: "tracker_at p i = Some t" and complete: "ft_queue_complete t"
  shows "ft_done t"
proof (rule ccontr)
  assume "\<not> ft_done t"
  have tr: "(0 < cnt i (failed_joined p) \<longrightarrow> ft_failed t \<noteq> None) \<and> \<not> is_settled t \<and>
      (ft_queue_complete t \<longrightarrow> ft_failed t = None \<longrightarrow> chunks_of_file i (ip_queued p) = pf_chunks (prep i))"
    using lv t by (simp add: live_def)
  then have ok: "ft_failed t = None" "0 < ft_outstanding_messages t" using complete \<open>\<not> ft_done t\<close> by (auto simp: is_settled_def)
  have "cnt i (concat (map (ib_messages \<circ> fst) js)) =
      cnt i (concat (map (ib_messages \<circ> fst) (filter (\<lambda>(b, r). case r of Inr _ \<Rightarrow> True | Inl _ \<Rightarrow> False) js))) +
      cnt i (concat (map (ib_messages \<circ> fst) (filter (\<lambda>(b, r). case r of Inr _ \<Rightarrow> False | Inl _ \<Rightarrow> True) js)))"
    for js :: "(import_batch \<times> (batch_error + import_response)) list"
  proof (induction js)
    case (Cons x js)
    obtain b r where "x = (b, r)" by (rule prod.exhaust)
    with Cons show ?case by (cases r) simp_all
  qed simp
  from this [of "ip_joined p"] have "cnt i (all_messages p) = cnt i (accepted p) + cnt i (failed_joined p)"
    unfolding all_messages_def idle accepted_def failed_joined_def by (simp add: opt_messages_def)
  moreover have "cnt i (all_messages p) = cnt i (queued_messages (ip_queued p))"
    using lv by (intro antisym cnt_mset_mono) (simp_all add: live_def)
  moreover have "cnt i (queued_messages (ip_queued p)) = message_count (prep i)"
    using tr ok(1) complete by (simp add: cnt_queued message_count_def comp_def)
  moreover have "cnt i (failed_joined p) = 0" using tr ok(1) by auto
  ultimately have "cnt i (accepted p) = message_count (prep i)" by simp
  then have "ft_outstanding_messages t = 0" using exact t by (simp add: exact_book_def counts_exact_def)
  then show False using ok(2) by simp
qed

lemma settle_finishes:
  assumes inv1: "drive_inv bs prepare files0 names s1" and consumed: "ds_next_consume s1 = length names"
    and lv: "drive_live prepare s1" and settled: "settle ser False (ds_pipeline s1) = (q, Inr ab)"
  shows "\<not> ab" and "live (prep_of prepare) {} q"
    and "between (prep_of prepare) ((!) names) files0 (length names) bs (readable prepare) (length names) q"
    and "\<forall>i < length names. ip_results q ! i \<noteq> None"
proof -
  let ?prep = "prep_of prepare" and ?n = "length names"
  let ?between = "between ?prep ((!) names) files0 ?n bs (readable prepare) ?n"
  obtain p1 c where c: "is_cancelled (ds_pipeline s1) = (p1, c)" by (rule prod.exhaust)
  have btw: "?between (ds_pipeline s1)" using inv1 consumed by (simp add: drive_inv_def)
  have l1: "live ?prep {} (ds_pipeline s1)" using lv by (simp add: drive_live_def)
  have "quiet (ds_pipeline s1)" using l1 by (simp add: live_def)
  note polled = quiet_polled [OF c this]
  have p1: "?between p1" by (rule polled_between [OF btw c])
  obtain p2 r2 where f: "flush_and_continue ser True p1 = (p2, r2)" by (rule prod.exhaust)
  obtain go where r2: "r2 = Inr go" using settled polled(1) by (cases r2) (auto simp: settle_def c f Let_def)
  have len: "length (ip_results p1) = length (ip_trackers p1)" "exact_book ?prep ((!) names) files0 p1" using p1 by (simp_all add: between_def)
  note flushed = flush_and_continue_live [OF len(2) _ len(1) f [unfolded r2]]
  have l2: "live ?prep {} p2" "go" "ip_inflight p2 = None" using flushed l1 polled(2) by simp_all
  have e2: "?between p2" "ip_pending p2 = None"
    using flush_between(3) [OF p1 f r2] flush_and_continue_frame(2) [OF f r2] by simp_all
  have q: "q = p2" "\<not> ab" using settled polled(1) l2(2) by (simp_all add: settle_def c f r2 Let_def)
  have st: "steady (ds_pipeline s1) p2"
    using steady_trans [OF steady_polled [OF c]] steady_flush_and_continue [of p1 ser True] unfolding f r2 by (blast intro: steady.safe_strong)
  have live2: "drive_live prepare (s1\<lparr>ds_pipeline := p2\<rparr>)" by (rule drive_live_steady [OF lv inv1 st l2(1)])
  have "ip_results p2 ! i \<noteq> None" if i: "i < ?n" for i
  proof (cases "tracker_at p2 i")
    case None
    then show ?thesis using live2 i consumed by (simp add: drive_live_def)
  next
    case (Some t)
    then have "ft_queue_complete t" using live2 i consumed by (simp add: drive_live_def)
    moreover have "exact_book ?prep ((!) names) files0 p2" using e2(1) by (simp add: between_def)
    ultimately have "ft_done t" using all_settled l2(1,3) e2(2) Some by blast
    then show ?thesis using l2(1) Some i e2(1) by (simp add: live_def between_def)
  qed
  then show "\<forall>i < ?n. ip_results q ! i \<noteq> None" by (simp add: q)
  show "\<not> ab" "live ?prep {} q" "?between q" using q l2(1) e2(1) by simp_all
qed

lemma all_rows_final:
  assumes "live (prep_of prepare) {} q"
    and btw: "between (prep_of prepare) ((!) names) files0 (length names) bs S (length names) q"
    and results: "\<forall>i < length names. ip_results q ! i \<noteq> None" and u: "is_cancelled (record_cancelled names q) = (u, c)"
    and into: "into_results u = (rows, accounting)"
  shows "\<not> c" and "list_all (\<lambda>r. fr_status r \<in> {''ok'', ''failed'', ''skipped''}) rows"
proof -
  have "quiet (record_cancelled names q)" using assms(1) by (simp add: live_def quiet_def record_cancelled_def)
  then show "\<not> c" using quiet_polled(1) [OF u] by blast
  have len: "length (ip_results q) = length names" using btw by (simp add: between_def)
  have into': "into_results (record_cancelled names q) = (rows, accounting)"
    using into is_cancelled_is [OF u] by (simp add: record_cancelled_def into_results_def)
  note reported = reported_results [OF len, of rows accounting]
  have "row_ok ((!) names) q i (rows ! i)" if "i < length names" for i
    using reported(3) [OF _ that] results into' btw len that
    by (auto simp: between_def exact_book_def book_def results_true_def)
  then show "list_all (\<lambda>r. fr_status r \<in> {''ok'', ''failed'', ''skipped''}) rows"
    using reported(1) into' by (auto simp: list_all_length row_ok_def)
qed

text \<open>C14: A run nobody cancels. Unless it ends in an error of its own (a worker or the request thread
  panicked, the journal could not be written), it is not aborted and every conversation has a final
  result: skipped because the journal held it, failed, or ok with all its messages accepted. No row
  says cancelled, refused requests notwithstanding.\<close>

theorem uncancelled_run_finishes:
  assumes run: "run_files ser parse cf prepare append_mode force names batch_size ahead workers finishing fuel journal polls answers faults =
      Some (p, Inr (report, aborted))" and well: "prepared_well prepare" and quiet: "True \<notin> set polls"
  shows "\<not> aborted \<and> \<not> rp_cancelled report \<and>
    list_all (\<lambda>r. fr_status r \<in> {''ok'', ''failed'', ''skipped''}) (rp_results report) \<and> fc_cancelled (rp_counts report) = 0"
proof -
  let ?files0 = "js_files (rj_state journal)" and ?bs = "max 1 batch_size"
  let ?s0 = "drive_start ahead workers finishing (pipeline_new journal ?bs (length names) polls answers faults)"
  obtain s1 assets ab1 where d: "drive ser prepare append_mode force names ahead workers finishing fuel
        (pipeline_new journal ?bs (length names) polls answers faults) = Some ((ds_pipeline s1, assets), Inr ab1)"
    and loop: "drive_loop ser prepare append_mode force names fuel ?s0 = Some (s1, Inr ab1)"
    and calm: "\<not> pq_panicked (ds_queue s1)"
    using run_files_drive [OF run] by blast
  have live0: "drive_live prepare ?s0"
    using quiet by (simp add: drive_live_def live_def quiet_def drive_start_def pipeline_new_def queue_start_def all_messages_def opt_messages_def
        queued_messages_def tracker_at_def)
  have kept: "drive_kept ?bs prepare ?files0 names (\<lambda>s' aborted. \<not> aborted \<longrightarrow>
      drive_inv ?bs prepare ?files0 names s' \<and> ds_next_consume s' = length names) (s1, Inr ab1)"
    by (rule drive_loop_kept [OF drive_start_inv well loop calm])
  have s1: "\<not> ab1" "drive_live prepare s1"
    using drive_loop_live [OF drive_start_inv live0 well loop calm] by blast+
  have inv1: "drive_inv ?bs prepare ?files0 names s1" "ds_next_consume s1 = length names"
    using kept s1(1) unfolding drive_kept_def by auto
  obtain q r where settled: "settle ser ab1 (ds_pipeline s1) = (q, r)" by (rule prod.exhaust)
  obtain ab where r: "r = Inr ab"
    using run unfolding run_files_def d by (cases r) (auto simp: settled)
  have "settle ser False (ds_pipeline s1) = (q, Inr ab)" using settled s1(1) r by simp
  note q = settle_finishes [OF inv1 s1(2) this]
  obtain u c where u: "is_cancelled (record_cancelled names q) = (u, c)" by (rule prod.exhaust)
  obtain rows accounting where into: "into_results u = (rows, accounting)" by (rule prod.exhaust)
  note final = all_rows_final [OF q(2-4) u into]
  have "rp_results report = rows" "rp_counts report = count_file_results rows" "\<not> aborted" "\<not> rp_cancelled report"
    using run into final(1) q(1) unfolding run_files_def d by (auto simp: settled r u Let_def split: if_splits)
  moreover have "fc_cancelled (count_file_results rows) = 0"
    using final(2) by (auto simp: count_file_results_is filter_empty_conv list_all_iff)
  ultimately show ?thesis using final(2) by simp
qed

lemma uncancelled_run_finishes_witness:
  "\<exists>p report. run_files (\<lambda>_. [123]) (\<lambda>_. None) Works sample_prepare True False [''a'', ''b''] 1 2 2 [Finishes 1] 5
     empty_journal [] [Answered 7 (Inr \<lparr>rs_messages_appended = 1, rs_messages_deduped = 0\<rparr>)] [] = Some (p, Inr (report, False)) \<and>
     \<not> rp_cancelled report \<and> list_all (\<lambda>r. fr_status r \<in> {''ok'', ''failed'', ''skipped''}) (rp_results report)"
proof -
  from sample_push_run obtain p report where run: "run_files (\<lambda>_. [123]) (\<lambda>_. None) Works sample_prepare True False [''a'', ''b''] 1 2 2 [Finishes 1] 5
     empty_journal [] [Answered 7 (Inr \<lparr>rs_messages_appended = 1, rs_messages_deduped = 0\<rparr>)] [] = Some (p, Inr (report, False))"
    by (elim exE conjE)
  then show ?thesis using uncancelled_run_finishes [OF run sample_prepare_well] by auto
qed

end
