(* ===== verification/Spec2Isabelle.thy ===== *)
theory Spec2Isabelle
  imports PduProps Compile Instant Phone WriteQueueRefine Dedupe PushRunFinal
begin

text \<open>
  Verification of message-vault, a self-hosted archive for text messages (Rust, \<open>crates/\<close>). Message
  backups are read by exporters, written to a folder of conversation files with their attachments,
  pushed to a server in requests of bounded size, and searched there. The development models the parts
  of that way on which the safety of the messages rests: the MMS reader, the export folder and its
  write queue, the journals, the identity and the copies of a message, the push, and the search
  language from the query to the SQL. Each definition is a translation of the Rust code it is mapped
  to; the theories stand in the order the code calls its parts.

  \<^bold>\<open>What all theories share.\<close> \<open>Prelude\<close>: machine integers as words, \<open>Result\<close> as a sum whose left side
  is the error, \<open>?\<close> as \<open>bind_res\<close>. \<open>RustStr\<close>: a \<open>String\<close> is the list of its UTF-8 bytes, with the
  operations of \<open>str\<close> the code calls. \<open>Utf8\<close>: the lossy decoders of the standard library.

  \<^bold>\<open>MMS (\<open>crates/libs/go-sms-mms\<close>, \<open>crates/libs/mms-parts\<close>).\<close> \<open>Wsp\<close> and \<open>WspMultipart\<close> are
  \<open>wsp.rs\<close>: a cursor is the data with a position, every reader is a function from a cursor to a cursor
  and a result with the offset of its error. The locale \<open>shape_reader\<close> states what every reader
  keeps (the data, a position within it), with an interpretation for each. \<open>Mms\<close> is \<open>mms.rs\<close>, the header
  walk; \<open>MmsParts\<close> and \<open>Pdu\<close> make a message of the parts. \<open>WspEncode\<close> and \<open>PduBuild\<close> are the encoder
  of \<open>testutil.rs\<close>, the reference for the round trips: \<open>shape_codec\<close> extends \<open>shape_reader\<close> by an
  encoder. \<open>PduProps\<close> states what becomes of a file.

  \<^bold>\<open>Export folder (\<open>crates/libs/ir\<close>, \<open>crates/core/message-crate-core\<close>, \<open>crates/libs/staging\<close>).\<close> \<open>Ir\<close>:
  the documents, and a file name for each that no other has. \<open>Durable\<close>: a disk from which a power loss
  may take unsynced data, unsynced folder entries and a new folder whose own entry was never synced
  (\<open>folder_lost\<close>), and \<open>write_atomic_via\<close> as its system calls, any of which may fail. \<open>Staging\<close>: the attachment jobs. \<open>WriteQueue\<close>: a unit of work, the drain with one writer, and
  the pool of writer threads as the step relation \<open>pool_step\<close>, in which every system call is a step of
  its own. \<open>Vouch\<close> (locale \<open>file_rule\<close>) and \<open>WriteQueueProps\<close> prove what a conversation file vouches
  for in every reachable state and after a power loss in it that leaves the attachments folder;
  \<open>WriteQueueLive\<close> that the pool finishes (the measure \<open>pool_cost\<close>); \<open>WriteQueueRefine\<close> that, when no
  call fails and nobody cancels, any interleaving gives what one writer gives.
  \<open>ReadJson\<close>: the files read back.

  \<^bold>\<open>Identity and copies (\<open>identity.rs\<close>, \<open>dedupe.rs\<close>).\<close> \<open>Identity\<close>: the text a message's guid hashes
  and which copies of one message are kept. \<open>Dedupe\<close>: the server's exact and near-time passes over the
  rows of an account.

  \<^bold>\<open>Journals (\<open>crates/libs/journal\<close>, \<open>push/src/journal.rs\<close>).\<close> \<open>Journal\<close>: a file of rows of UTF-8 text that may be torn anywhere, its appends, failures and power
  losses, and its compaction, whose outcome is that of the calls of \<open>write_atomic\<close> on the journal's
  file. A row that a failed append cut inside a character makes later loads fail; the theorems name
  it (\<open>torn_rows\<close>). \<open>PushJournal\<close>: the events of a push, the
  skip sets they load to, and every operation of a run.

  \<^bold>\<open>Push (\<open>crates/libs/push\<close>).\<close> \<open>PushChunks\<close>: the lines of a conversation packed into chunks.
  \<open>PushPipeline\<close>: the record \<open>pipeline\<close> with chunks packed into batches, the one request in flight, a
  tracker for each conversation and the results. \<open>PushRun\<close>: the prepare queue, whose workers finish their jobs in any order or panic, and
  the loop over the conversations. A worker that panics takes its job with it: a run that waits for
  it has no result (\<open>panicking_worker_hangs\<close>). \<open>PipelineInv\<close> and \<open>PipelineSafe\<close> hold the books of the pipeline, kept by every
  operation; the locale \<open>stepwise\<close> of \<open>StateErr\<close> composes what the operations keep, also where
  one ends in an error.
  \<open>PushRunInv\<close>, \<open>PushRunDrive\<close>, \<open>PushRunLive\<close> carry the books through the loop, \<open>PushRunProps\<close>
  and \<open>PushRunFinal\<close> state what a push promises.

  \<^bold>\<open>Search (\<open>crates/server/server/src/search\<close>).\<close> \<open>Lex\<close>, \<open>SearchFields\<close>, \<open>SearchValue\<close> (on the locale
  \<open>date_ops\<close> of \<open>Calendar\<close>) and \<open>SearchParse\<close> lead from the query to a tree; the grammar is given a
  second time as the relation \<open>g_ors\<close>, which the parser is proved sound and complete for. \<open>SqlFrag\<close>
  and \<open>Emit\<close> lead from the tree to SQL with its bound values, \<open>EmitProps\<close> and \<open>Compile\<close> prove what that
  SQL is; \<open>Instant\<close> is the instant a day begins. \<open>Phone\<close>: phone numbers and the owner's handles.

  \<^bold>\<open>Bounds and fuel.\<close> The parser runs on \<open>parse_fuel\<close>, six times the tokens and four more, which is
  proved enough (\<open>parse_total\<close>). The push loop runs on any fuel above twice the conversations
  (\<open>run_returns\<close>) when no worker panics. The drain with one writer is structural, the pool's runs are bounded by
  \<open>pool_cost\<close>. Every other recursion ends by its measure.

  \<^bold>\<open>Parameters.\<close> Code that is not in the repository is an argument of the definitions that use it:
  chrono's calendar and its RFC 3339 reader, the zones of chrono-tz, SHA-256, serde_json, Unicode lower
  case, the regex for SMIL sources, the file reads and the free space of the system, the answers of
  the server to a push, and what a worker of the push makes of a conversation file. What a theorem
  needs of them is a named hypothesis (\<open>codec_ok\<close>, \<open>prepared_well\<close>, \<open>tools_ok\<close>), and its
  witness meets it with a concrete function. The disk is that of a Unix system.

  \<^bold>\<open>Not modelled.\<close> The exporters and the readers of the single backup formats, the web and desktop
  front ends, HTTP routing, the SQL schema and the database itself, media conversion, mail and CSV
  output, pull and demo data: most of it is input and output through libraries outside the
  repository. Of a modelled file, log output, progress text and \<open>Display\<close> of errors are left out where
  nothing depends on them. \<open>PROJECT.json\<close> lists every part.
\<close>

end
